(* ===== verification/Prelude.thy ===== *)
theory Prelude
  imports Main "HOL-Library.Word"
begin

text \<open>
  Shared vocabulary of the development: the types that stand for JavaScript values (bytes,
  32-bit intermediate results of the bitwise operators, strings, results that may throw), the
  typed-array and \<open>Array.prototype\<close> operations that the sources use, and the generic lemmas on
  lists, options and words that the component theories share.
\<close>

unbundle bit_operations_syntax

named_theorems inv_intro \<open>preservation lemmas of the component invariants\<close>
named_theorems buffer_simps \<open>rewrite rules of the byte buffers\<close>

subsection \<open>Types\<close>

type_synonym byte = "8 word"
type_synonym u32 = "32 word"
type_synonym bytes = "byte list"

text \<open>
  A TypeScript function that may throw returns a sum: \<open>Inl\<close> the error, \<open>Inr\<close> the value.
  \<open>assertTrue\<close> and friends of \<^verbatim>\<open>base/assert.ts\<close> throw \<open>AssertionFailed\<close>; a \<open>throw new Error(msg)\<close>
  is \<open>Thrown msg\<close>; \<open>RangeErr\<close> is the engine's own \<open>RangeError\<close>.
\<close>

datatype js_error = AssertionFailed | RangeErr | Thrown string

subsection \<open>Typed arrays and arrays\<close>

text \<open>\<open>a.subarray(i, j)\<close> for \<open>0 \<le> i \<le> j \<le> a.length\<close>: the elements from \<open>i\<close> up to \<open>j\<close>.\<close>

definition seg :: "nat \<Rightarrow> nat \<Rightarrow> 'a list \<Rightarrow> 'a list" where
  "seg i j xs = drop i (take j xs)"

text \<open>
  \<open>TypedArray.prototype.set(data, off)\<close>: overwrite in place, \<open>RangeError\<close> when the data does
  not fit.
\<close>

definition ta_set :: "'a list \<Rightarrow> 'a list \<Rightarrow> nat \<Rightarrow> js_error + 'a list" where
  "ta_set a d off =
     (if off + length d \<le> length a then Inr (take off a @ d @ drop (off + length d) a)
      else Inl RangeErr)"

text \<open>\<open>copyWithin(0, i, j)\<close> for \<open>i \<le> j \<le> length\<close>.\<close>

definition copy_to_front :: "nat \<Rightarrow> nat \<Rightarrow> 'a list \<Rightarrow> 'a list" where
  "copy_to_front i j xs = seg i j xs @ drop (j - i) xs"

text \<open>The decimal digits of a number, as a template string prints it.\<close>

fun show_nat :: "nat \<Rightarrow> string" where
  "show_nat n =
     (if n < 10 then [char_of (48 + n)] else show_nat (n div 10) @ [char_of (48 + n mod 10)])"

declare show_nat.simps [simp del]

definition show_int :: "int \<Rightarrow> string" where
  "show_int n = (if n < 0 then ''-'' else []) @ show_nat (nat \<bar>n\<bar>)"

text \<open>The apostrophe, which a HOL string literal cannot contain.\<close>

definition quote :: string where
  "quote = [CHR 0x27]"

text \<open>\<open>s.split(c)\<close> for a one-character separator.\<close>

fun split_at :: "'a \<Rightarrow> 'a list \<Rightarrow> 'a list list" where
  "split_at c [] = [[]]"
| "split_at c (x # xs) =
     (if x = c then [] # split_at c xs
      else (case split_at c xs of [] \<Rightarrow> [[x]] | w # ws \<Rightarrow> (x # w) # ws))"

text \<open>\<open>a.join(sep)\<close>.\<close>

fun join_with :: "string \<Rightarrow> string list \<Rightarrow> string" where
  "join_with sep [] = []"
| "join_with sep [w] = w"
| "join_with sep (w # v # ws) = w @ sep @ join_with sep (v # ws)"

text \<open>\<open>a[i]\<close>, which is \<open>undefined\<close> out of range.\<close>

definition nth_opt :: "'a list \<Rightarrow> nat \<Rightarrow> 'a option" where
  "nth_opt xs i = (if i < length xs then Some (xs ! i) else None)"

subsection \<open>Numbers and strings\<close>

lemma char_of_digit_inj:
  assumes "i < (10 :: nat)" and "j < 10"
  shows "char_of (48 + i) = char_of (48 + j) \<longleftrightarrow> i = j"
proof
  assume "char_of (48 + i) = char_of (48 + j)"
  then have "(of_char (char_of (48 + i)) :: nat) = of_char (char_of (48 + j))" by simp
  with assms show "i = j" by (simp del: of_char_eq_iff)
qed simp

lemma show_nat_nonempty [simp]: "show_nat n \<noteq> []"
  by (simp add: show_nat.simps)

lemma show_nat_inj_aux: "show_nat m = show_nat n \<Longrightarrow> m = n"
proof (induction m arbitrary: n rule: show_nat.induct)
  case (1 m)
  show ?case
  proof (cases "m < 10")
    case True
    then show ?thesis
      using "1.prems" char_of_digit_inj [of m n]
      by (cases "n < 10") (auto simp: show_nat.simps [of m] show_nat.simps [of n] Cons_eq_append_conv)
  next
    case False
    then have n: "\<not> n < 10"
      using "1.prems" by (auto simp: show_nat.simps [of m] show_nat.simps [of n] append_eq_Cons_conv)
    then have "m div 10 = n div 10" and "m mod 10 = n mod 10"
      using 1 False char_of_digit_inj [of "m mod 10" "n mod 10"]
      by (auto simp: show_nat.simps [of m] show_nat.simps [of n])
    then show ?thesis by (metis div_mult_mod_eq)
  qed
qed

lemma show_nat_inj [simp]: "show_nat m = show_nat n \<longleftrightarrow> m = n"
  using show_nat_inj_aux by blast

lemma split_at_not_Nil [simp]: "split_at c xs \<noteq> []"
  by (induction xs) (auto split: list.splits)

lemma split_at_word:
  "c \<notin> set w \<Longrightarrow> split_at c (w @ c # xs) = w # split_at c xs"
  by (induction w) (auto split: list.splits)

lemma split_at_words:
  "\<forall>w\<in>set ws. c \<notin> set w \<Longrightarrow> split_at c (concat (map (\<lambda>w. w @ [c]) ws)) = ws @ [[]]"
  by (induction ws) (auto simp: split_at_word)

lemma takeWhile_shorter: "\<exists>x\<in>set xs. \<not> P x \<Longrightarrow> length (takeWhile P xs) < length xs"
  by (induction xs) auto

lemma set_map_filter_iff: "y \<in> set (List.map_filter f xs) \<longleftrightarrow> (\<exists>x\<in>set xs. f x = Some y)"
  by (force simp: List.map_filter_def)

lemma nth_opt_drop: "drop i xs = y # ys \<Longrightarrow> nth_opt xs i = Some y \<and> drop (Suc i) xs = ys"
  by (metis drop_Suc drop_eq_Nil2 hd_drop_conv_nth linorder_not_le list.distinct(1) list.sel(1)
      list.sel(3) nth_opt_def tl_drop)

subsection \<open>Lists\<close>

lemma length_seg [simp]: "length (seg i j xs) = min j (length xs) - i"
  by (simp add: seg_def)

lemma seg_empty [simp]: "j \<le> i \<Longrightarrow> seg i j xs = []"
  by (simp add: seg_def)

lemma seg_Cons:
  "i < j \<Longrightarrow> j \<le> length xs \<Longrightarrow> seg i j xs = xs ! i # seg (Suc i) j xs"
  by (simp add: seg_def Cons_nth_drop_Suc [symmetric])

lemma seg_nth: "i + j < k \<Longrightarrow> k \<le> length xs \<Longrightarrow> seg i k xs ! j = xs ! (i + j)"
  by (simp add: seg_def)

lemma seg_full [simp]: "seg 0 (length xs) xs = xs"
  by (simp add: seg_def)

lemma seg_seg_drop: "i \<le> k \<Longrightarrow> seg k j xs = drop (k - i) (seg i j xs)"
  by (simp add: seg_def)

lemma take_seg: "i + n \<le> j \<Longrightarrow> take n (seg i j xs) = seg i (i + n) xs"
  by (simp add: seg_def take_drop min_def add.commute)

lemma length_copy_to_front [simp]:
  "i \<le> j \<Longrightarrow> j \<le> length xs \<Longrightarrow> length (copy_to_front i j xs) = length xs"
  by (simp add: copy_to_front_def)

lemma seg_copy_to_front [simp]:
  "i \<le> j \<Longrightarrow> j \<le> length xs \<Longrightarrow> seg 0 (j - i) (copy_to_front i j xs) = seg i j xs"
  by (simp add: copy_to_front_def seg_def)

lemma seg_append_left: "j \<le> length xs \<Longrightarrow> seg i j (xs @ ys) = seg i j xs"
  by (simp add: seg_def)

lemma ta_set_Inr_iff:
  "ta_set a d off = Inr b \<longleftrightarrow>
     off + length d \<le> length a \<and> b = take off a @ d @ drop (off + length d) a"
  by (auto simp: ta_set_def)

lemma ta_set_length: "ta_set a d off = Inr b \<Longrightarrow> length b = length a"
  by (auto simp: ta_set_Inr_iff)

lemma ta_set_seg:
  assumes "ta_set a d off = Inr b" and "i \<le> off"
  shows "seg i (off + length d) b = seg i off a @ d"
  using assms by (auto simp: ta_set_Inr_iff seg_def)

end
