(* ===== verification/Plugin_Manager.thy ===== *)
theory Plugin_Manager
  imports Prelude "HOL-Library.AList"
begin

text \<open>
  The plugins of the viewer: \<^verbatim>\<open>ui/src/core/plugin_manager.ts\<close> with the registry of \<^verbatim>\<open>ui/src/base/registry.ts\<close>.
  Plugins are registered under their ids, sorted so that dependencies come first, activated, and
  loaded with a trace.

  A \<open>PluginWrapper\<close> is known by its id, under which the registry holds it, and \<open>orderedPlugins\<close> lists ids. What the code of a
  plugin does in \<open>onActivate\<close> and \<open>onTraceLoad\<close> is an argument that says whether it throws.
\<close>

subsection \<open>The registry\<close>

text \<open>\<open>Registry\<close>: a \<open>Map\<close> from keys in insertion order.\<close>

type_synonym 'a registry = "(string \<times> 'a) list"

definition registry_register :: "string \<Rightarrow> 'a \<Rightarrow> 'a registry \<Rightarrow> js_error + 'a registry" where
  "registry_register kind x reg =
     (if kind \<in> fst ` set reg then Inl (Thrown (''Registrant '' @ kind @ '' already exists in the registry''))
      else Inr (reg @ [(kind, x)]))"

definition registry_get :: "string \<Rightarrow> 'a registry \<Rightarrow> js_error + 'a" where
  "registry_get kind reg =
     (case map_of reg kind of None \<Rightarrow> Inl (Thrown (kind @ '' has not been registered.'')) | Some x \<Rightarrow> Inr x)"

definition registry_tryGet :: "string \<Rightarrow> 'a registry \<Rightarrow> 'a option" where
  "registry_tryGet kind reg = map_of reg kind"

text \<open>The disposable that \<open>register\<close> returns.\<close>

definition registry_delete :: "string \<Rightarrow> 'a registry \<Rightarrow> 'a registry" where
  "registry_delete kind reg = AList.delete kind reg"

subsection \<open>Plugins\<close>

text \<open>
  \<open>dependencies\<close> are the ids of the descriptors that the plugin names, none when it names none;
  \<open>enable_flag\<close> is what the feature flag says now, \<open>enabled_at_boot\<close> what it said at registration; the
  context of a loaded trace is the number of the plugin instance.
\<close>

record plugin_wrapper =
  dependencies :: "string list"
  enable_flag :: bool
  enabled_at_boot :: bool
  is_core :: bool
  active :: bool
  traceContext :: "nat option"

text \<open>The manager, the plugins whose \<open>onActivate\<close> has returned and the number of plugin instances made.\<close>

record plugin_manager =
  registry :: "plugin_wrapper registry"
  orderedPlugins :: "string list"
  activations :: "string list"
  instances :: nat

definition new_plugin_manager :: plugin_manager where
  "new_plugin_manager = \<lparr>registry = [], orderedPlugins = [], activations = [], instances = 0\<rparr>"

text \<open>
  \<open>featureFlags.register\<close>, which throws when the flag exists; every plugin registers its own. The flag
  answers a stored override, if there is one, and else the default.
\<close>

definition register_flag :: "(string \<Rightarrow> bool option) \<Rightarrow> string \<Rightarrow> bool \<Rightarrow> plugin_manager \<Rightarrow> js_error + bool" where
  "register_flag override pid defaultValue m =
     (if pid \<in> fst ` set (registry m)
      then Inl (Thrown (''Flag with id \"plugin_'' @ pid @ ''\" is already registered.''))
      else Inr (case override pid of Some b \<Rightarrow> b | None \<Rightarrow> defaultValue))"

definition registerPlugin ::
  "string list \<Rightarrow> (string \<Rightarrow> bool option) \<Rightarrow> string \<Rightarrow> string list \<Rightarrow> bool \<Rightarrow> plugin_manager \<Rightarrow>
     js_error + plugin_manager" where
  "registerPlugin defaultPluginIds override pid deps isCore m =
     (case register_flag override pid (pid \<in> set defaultPluginIds) m of
        Inl e \<Rightarrow> Inl e
      | Inr flag \<Rightarrow>
          (case registry_register pid
             \<lparr>dependencies = deps, enable_flag = flag, enabled_at_boot = flag, is_core = isCore,
              active = False, traceContext = None\<rparr> (registry m) of
             Inl e \<Rightarrow> Inl e
           | Inr reg \<Rightarrow> Inr (m\<lparr>registry := reg\<rparr>)))"

subsection \<open>Sorting\<close>

definition cycle_error :: "string list \<Rightarrow> string \<Rightarrow> js_error" where
  "cycle_error visiting p =
     Thrown (''Cyclic plugin dependency detected: '' @ join_with '' -> '' (visiting @ [p]))"

lemma registry_get_Inr: "registry_get p reg = Inr w \<longleftrightarrow> map_of reg p = Some w"
  by (auto simp: registry_get_def split: option.splits)

lemma visit_measure:
  assumes "registry_get p reg = Inr w" and "p \<notin> set visiting"
  shows "card (fst ` set reg - set (visiting @ [p])) < card (fst ` set reg - set visiting)"
proof (rule psubset_card_mono)
  have "p \<in> fst ` set reg" using assms(1) by (metis domI dom_map_of_conv_image_fst registry_get_Inr)
  with assms(2) show "fst ` set reg - set (visiting @ [p]) \<subset> fst ` set reg - set visiting" by auto
qed simp

text \<open>
  \<open>visit\<close>, with the look-up that precedes it. The set \<open>visiting\<close> is the stack of the calls that are
  running: each call adds its plugin and deletes it at the end, and when it throws the sort is over. So
  it is an argument, and the list of plugins ordered so far is the state.
\<close>

function (sequential)
  visit :: "plugin_wrapper registry \<Rightarrow> string list \<Rightarrow> string \<Rightarrow> string list \<Rightarrow> js_error + string list" and
  visit_all :: "plugin_wrapper registry \<Rightarrow> string list \<Rightarrow> string list \<Rightarrow> string list \<Rightarrow> js_error + string list"
where
  "visit reg visiting p ordered =
     (case registry_get p reg of
        Inl e \<Rightarrow> Inl e
      | Inr w \<Rightarrow>
          if p \<in> set ordered then Inr ordered
          else if p \<in> set visiting then Inl (cycle_error visiting p)
          else
            (case visit_all reg (visiting @ [p]) (dependencies w) ordered of
               Inl e \<Rightarrow> Inl e
             | Inr ordered' \<Rightarrow> Inr (ordered' @ [p])))"
| "visit_all reg visiting [] ordered = Inr ordered"
| "visit_all reg visiting (d # ds) ordered =
     (case visit reg visiting d ordered of
        Inl e \<Rightarrow> Inl e
      | Inr ordered' \<Rightarrow> visit_all reg visiting ds ordered')"
  by pat_completeness auto

termination
  by (relation "measures [\<lambda>a. case a of Inl (reg, visiting, p, ordered) \<Rightarrow> card (fst ` set reg - set visiting)
        | Inr (reg, visiting, ps, ordered) \<Rightarrow> card (fst ` set reg - set visiting),
      \<lambda>a. case a of Inl (reg, visiting, p, ordered) \<Rightarrow> 0 | Inr (reg, visiting, ps, ordered) \<Rightarrow> length ps]")
    (use visit_measure in auto)

declare visit.simps [simp del]

definition sortPluginsTopologically :: "plugin_wrapper registry \<Rightarrow> string list \<Rightarrow> js_error + string list" where
  "sortPluginsTopologically reg plugins = visit_all reg [] plugins []"

subsection \<open>Activation and loading\<close>

definition enabledPlugins :: "string list \<Rightarrow> plugin_wrapper registry \<Rightarrow> string list" where
  "enabledPlugins enableOverrides reg =
     map fst (filter (\<lambda>(pid, w). enable_flag w \<or> pid \<in> set enableOverrides) reg)"

definition update_plugin ::
  "string \<Rightarrow> (plugin_wrapper \<Rightarrow> plugin_wrapper) \<Rightarrow> plugin_manager \<Rightarrow> plugin_manager" where
  "update_plugin pid f m =
     m\<lparr>registry := map (\<lambda>(k, w). (k, if k = pid then f w else w)) (registry m)\<rparr>"

definition is_active :: "string \<Rightarrow> plugin_manager \<Rightarrow> bool" where
  "is_active pid m = (case map_of (registry m) pid of None \<Rightarrow> False | Some w \<Rightarrow> active w)"

text \<open>The loop over the ordered plugins; \<open>onActivate\<close> says which error a plugin throws, if any.\<close>

fun activate_each ::
  "(string \<Rightarrow> js_error option) \<Rightarrow> string list \<Rightarrow> plugin_manager \<Rightarrow> js_error option \<times> plugin_manager" where
  "activate_each onActivate [] m = (None, m)"
| "activate_each onActivate (p # ps) m =
     (if is_active p m then activate_each onActivate ps m
      else
        (case onActivate p of
           Some e \<Rightarrow> (Some e, m)
         | None \<Rightarrow>
             activate_each onActivate ps
               (update_plugin p (\<lambda>w. w\<lparr>active := True\<rparr>) (m\<lparr>activations := activations m @ [p]\<rparr>))))"

definition activatePlugins ::
  "(string \<Rightarrow> js_error option) \<Rightarrow> string list \<Rightarrow> plugin_manager \<Rightarrow> js_error option \<times> plugin_manager" where
  "activatePlugins onActivate enableOverrides m =
     (case sortPluginsTopologically (registry m) (enabledPlugins enableOverrides (registry m)) of
        Inl e \<Rightarrow> (Some e, m)
      | Inr ordered \<Rightarrow> activate_each onActivate ordered (m\<lparr>orderedPlugins := ordered\<rparr>))"

text \<open>\<open>getPlugin\<close> asserts that the plugin is loaded.\<close>

definition getPlugin :: "string \<Rightarrow> plugin_manager \<Rightarrow> js_error + nat" where
  "getPlugin pid m =
     (case registry_get pid (registry m) of
        Inl e \<Rightarrow> Inl e
      | Inr w \<Rightarrow> (case traceContext w of None \<Rightarrow> Inl AssertionFailed | Some i \<Rightarrow> Inr i))"

definition isPluginEnabled :: "string \<Rightarrow> plugin_manager \<Rightarrow> bool" where
  "isPluginEnabled pid m =
     (case registry_tryGet pid (registry m) of None \<Rightarrow> False | Some w \<Rightarrow> traceContext w \<noteq> None)"

definition isCorePlugin :: "string \<Rightarrow> plugin_manager \<Rightarrow> bool" where
  "isCorePlugin pid m = (case registry_tryGet pid (registry m) of None \<Rightarrow> False | Some w \<Rightarrow> is_core w)"

text \<open>
  \<open>onTraceLoad\<close>, one plugin after the other: the plugin is made, its \<open>onTraceLoad\<close> runs, which may use the
  manager and may throw, and then its context is set. The trash of the trace remembers to clear it.
\<close>

fun load_each ::
  "(string \<Rightarrow> plugin_manager \<Rightarrow> js_error option) \<Rightarrow> string list \<Rightarrow> string list \<times> plugin_manager \<Rightarrow>
     js_error option \<times> string list \<times> plugin_manager" where
  "load_each onLoad [] s = (None, s)"
| "load_each onLoad (p # ps) (trash, m) =
     (if is_active p m then
        (let i = instances m; m' = m\<lparr>instances := Suc i\<rparr>
         in case onLoad p m' of
              Some e \<Rightarrow> (Some e, trash, m')
            | None \<Rightarrow>
                load_each onLoad ps (trash @ [p], update_plugin p (\<lambda>w. w\<lparr>traceContext := Some i\<rparr>) m'))
      else load_each onLoad ps (trash, m))"

definition onTraceLoad ::
  "(string \<Rightarrow> plugin_manager \<Rightarrow> js_error option) \<Rightarrow> plugin_manager \<Rightarrow>
     js_error option \<times> string list \<times> plugin_manager" where
  "onTraceLoad onLoad m = load_each onLoad (orderedPlugins m) ([], m)"

text \<open>What the trash of a trace does when the trace is closed.\<close>

definition dispose_trace :: "string list \<Rightarrow> plugin_manager \<Rightarrow> plugin_manager" where
  "dispose_trace trash m = fold (\<lambda>p. update_plugin p (\<lambda>w. w\<lparr>traceContext := None\<rparr>)) trash m"

subsection \<open>Arguments of a plugin\<close>

text \<open>
  \<open>^pluginId:(.+)$\<close> as a regular expression. Ids are made of letters, digits, underscores and
  points, and a point matches any character that is no line terminator.
\<close>

definition line_terminator :: "char \<Rightarrow> bool" where
  "line_terminator c \<longleftrightarrow> c = CHR 0x0A \<or> c = CHR 0x0D"

fun match_plugin_key :: "string \<Rightarrow> string \<Rightarrow> string option" where
  "match_plugin_key [] (c # rest) =
     (if c = CHR '':'' \<and> rest \<noteq> [] \<and> list_all (\<lambda>x. \<not> line_terminator x) rest then Some rest else None)"
| "match_plugin_key [] [] = None"
| "match_plugin_key (r # rs) [] = None"
| "match_plugin_key (r # rs) (c # cs) =
     (if (if r = CHR ''.'' then \<not> line_terminator c else c = r) then match_plugin_key rs cs else None)"

definition getPluginArgs :: "(string \<times> 'v) list \<Rightarrow> string \<Rightarrow> (string \<times> 'v) list" where
  "getPluginArgs initialRouteArgs pid =
     foldl (\<lambda>result (key, value). case match_plugin_key pid key of None \<Rightarrow> result
       | Some newKey \<Rightarrow> AList.update newKey value result) [] initialRouteArgs"

end
