(* ===== verification/Bts_Vm.thy ===== *)
theory Bts_Vm
  imports Prelude Plugin_Manager "HOL-Library.AList" "HOL-Library.Product_Lexorder"
begin

text \<open>
  The script VMs of the background thread of Lynx: \<^verbatim>\<open>lynx_perf/common_components/memory/bts_vm_generations.ts\<close>
  rebuilds from the trace which VMs there were, when, and which pages used them, and
  \<^verbatim>\<open>lynx_perf/common_components/memory/bts_vm_memory_tracks.ts\<close> finds the memory counter of each.
\<close>

subsection \<open>Events and VMs\<close>

datatype vm_event_name = PAGE_USES_BTS_VM | DESTROY_VM_INSTANCE

record vm_event =
  ev_sliceId :: int
  ev_ts :: int
  ev_name :: vm_event_name
  ev_ptr :: string
  ev_groupId :: "string option"
  ev_instanceId :: "int option"
  ev_desc :: "string option"
  ev_url :: "string option"

record vm_use =
  use_instanceId :: int
  use_ts :: int
  use_desc :: string
  use_url :: "string option"

record vm_instance =
  vm_name :: string
  vm_generation :: nat
  vm_shared :: bool
  vm_ptrs :: "string list"
  vm_desc :: string
  vm_createTs :: int
  vm_destroyTs :: "int option"
  vm_uses :: "vm_use list"

definition formatBtsVmInstanceName :: "string \<Rightarrow> nat \<Rightarrow> string" where
  "formatBtsVmInstanceName name g = name @ ''('' @ show_nat g @ '')''"

subsection \<open>Building the VMs\<close>

text \<open>
  The objects of the list are also in two maps and are changed through them: the maps have their
  positions in the list.
\<close>

record vm_build =
  vm_instances :: "vm_instance list"
  activeByPtr :: "(string \<times> nat) list"
  activeByName :: "(string \<times> nat) list"
  nextGeneration :: "(string \<times> nat) list"

definition no_vms :: vm_build where
  "no_vms = \<lparr>vm_instances = [], activeByPtr = [], activeByName = [], nextGeneration = []\<rparr>"

definition vm_at :: "vm_build \<Rightarrow> nat \<Rightarrow> vm_instance" where
  "vm_at b i = vm_instances b ! i"

definition change_vm :: "nat \<Rightarrow> (vm_instance \<Rightarrow> vm_instance) \<Rightarrow> vm_build \<Rightarrow> vm_build" where
  "change_vm i f b = b\<lparr>vm_instances := (vm_instances b)[i := f (vm_at b i)]\<rparr>"

text \<open>The order of the events; \<open>sort\<close> is stable.\<close>

definition event_key :: "vm_event \<Rightarrow> int \<times> int" where
  "event_key e = (ev_ts e, ev_sliceId e)"

definition destroy_vm :: "vm_event \<Rightarrow> vm_build \<Rightarrow> vm_build" where
  "destroy_vm e b =
     (case map_of (activeByPtr b) (ev_ptr e) of
        None \<Rightarrow> b
      | Some i \<Rightarrow>
          (let active = vm_at b i;
               b1 = change_vm i (\<lambda>v. v\<lparr>vm_destroyTs := Some (ev_ts e)\<rparr>) b;
               b2 = b1\<lparr>nextGeneration := AList.update (vm_name active) (vm_generation active + 1) (nextGeneration b1),
                       activeByPtr := foldl (\<lambda>m p. AList.delete p m) (activeByPtr b1) (vm_ptrs active)\<rparr>
           in if map_of (activeByName b2) (vm_name active) = Some i
              then b2\<lparr>activeByName := AList.delete (vm_name active) (activeByName b2)\<rparr> else b2))"

definition vm_name_of :: "string \<Rightarrow> int \<Rightarrow> string" where
  "vm_name_of groupId instanceId = (if groupId \<noteq> ''-1'' then groupId else ''standalone_'' @ show_int instanceId)"

text \<open>The VM of a page: that of the pointer, that of the name, or a new one.\<close>

definition find_or_create_vm :: "vm_event \<Rightarrow> string \<Rightarrow> int \<Rightarrow> vm_build \<Rightarrow> nat \<times> vm_build" where
  "find_or_create_vm e groupId instanceId b =
     (let name = vm_name_of groupId instanceId in
      case map_of (activeByPtr b) (ev_ptr e) of
        Some i \<Rightarrow> (i, b)
      | None \<Rightarrow>
          (case map_of (activeByName b) name of
             Some i \<Rightarrow> (i, b)
           | None \<Rightarrow>
               (length (vm_instances b),
                b\<lparr>vm_instances := vm_instances b @
                     [\<lparr>vm_name = name,
                       vm_generation = (case map_of (nextGeneration b) name of None \<Rightarrow> 0 | Some g \<Rightarrow> g),
                       vm_shared = (groupId \<noteq> ''-1''), vm_ptrs = [],
                       vm_desc = (case ev_desc e of None \<Rightarrow> [] | Some d \<Rightarrow> d),
                       vm_createTs = ev_ts e, vm_destroyTs = None, vm_uses = []\<rparr>],
                  activeByName := AList.update name (length (vm_instances b)) (activeByName b)\<rparr>)))"

definition add_use :: "vm_event \<Rightarrow> int \<Rightarrow> vm_use list \<Rightarrow> vm_use list" where
  "add_use e instanceId us =
     (if \<exists>u\<in>set us. use_instanceId u = instanceId
      then (let i = length (takeWhile (\<lambda>u. use_instanceId u \<noteq> instanceId) us); u = us ! i
            in us[i := u\<lparr>use_desc := (if use_desc u \<noteq> [] then use_desc u
                             else case ev_desc e of None \<Rightarrow> [] | Some d \<Rightarrow> d),
                         use_url := (if use_url u = None \<or> use_url u = Some [] then ev_url e else use_url u)\<rparr>])
      else us @ [\<lparr>use_instanceId = instanceId, use_ts = ev_ts e,
                  use_desc = (case ev_desc e of None \<Rightarrow> [] | Some d \<Rightarrow> d), use_url = ev_url e\<rparr>])"

definition touch_vm :: "vm_event \<Rightarrow> int \<Rightarrow> vm_instance \<Rightarrow> vm_instance" where
  "touch_vm e instanceId v =
     v\<lparr>vm_ptrs := (if ev_ptr e \<in> set (vm_ptrs v) then vm_ptrs v else vm_ptrs v @ [ev_ptr e]),
       vm_desc := (if vm_desc v = [] then (case ev_desc e of None \<Rightarrow> [] | Some d \<Rightarrow> d) else vm_desc v),
       vm_uses := add_use e instanceId (vm_uses v)\<rparr>"

definition use_vm :: "vm_event \<Rightarrow> vm_build \<Rightarrow> vm_build" where
  "use_vm e b =
     (case (ev_instanceId e, ev_groupId e) of
        (Some instanceId, Some groupId) \<Rightarrow>
          (let (i, b1) = find_or_create_vm e groupId instanceId b;
               b2 = change_vm i (touch_vm e instanceId) b1
           in b2\<lparr>activeByPtr := AList.update (ev_ptr e) i (activeByPtr b2)\<rparr>)
      | _ \<Rightarrow> b)"

definition vm_step :: "vm_build \<Rightarrow> vm_event \<Rightarrow> vm_build" where
  "vm_step b e = (case ev_name e of DESTROY_VM_INSTANCE \<Rightarrow> destroy_vm e b | PAGE_USES_BTS_VM \<Rightarrow> use_vm e b)"

definition buildBtsVmInstances :: "vm_event list \<Rightarrow> vm_instance list" where
  "buildBtsVmInstances es = vm_instances (foldl vm_step no_vms (sort_key event_key es))"

subsection \<open>Looking up VMs\<close>

definition findBtsVmForPage :: "vm_instance list \<Rightarrow> int \<Rightarrow> vm_instance option" where
  "findBtsVmForPage vs instanceId = List.find (\<lambda>v. \<exists>u\<in>set (vm_uses v). use_instanceId u = instanceId) vs"

definition alive_at :: "int \<Rightarrow> vm_instance \<Rightarrow> bool" where
  "alive_at ts v \<longleftrightarrow> vm_createTs v \<le> ts \<and> (case vm_destroyTs v of None \<Rightarrow> True | Some d \<Rightarrow> ts < d)"

definition findBtsVmByNameAt :: "vm_instance list \<Rightarrow> string \<Rightarrow> int \<Rightarrow> vm_instance option" where
  "findBtsVmByNameAt vs name ts = List.find (\<lambda>v. vm_name v = name \<and> alive_at ts v) vs"

definition findDestroyedBtsVm :: "vm_instance list \<Rightarrow> string \<Rightarrow> int \<Rightarrow> vm_instance option" where
  "findDestroyedBtsVm vs ptr destroyTs =
     List.find (\<lambda>v. ptr \<in> set (vm_ptrs v) \<and> vm_destroyTs v = Some destroyTs) vs"

text \<open>The names of VMs in memory snapshots; the point of the first pattern matches no line terminator.\<close>

definition strip_suffix :: "string \<Rightarrow> string \<Rightarrow> string option" where
  "strip_suffix suf s =
     (if length suf \<le> length s \<and> drop (length s - length suf) s = suf
      then Some (take (length s - length suf) s) else None)"

definition getSharedBtsNameFromSnapshotId :: "string \<Rightarrow> string option" where
  "getSharedBtsNameFromSnapshotId s =
     (case strip_suffix ''(shared bts)'' s of
        None \<Rightarrow> None
      | Some name \<Rightarrow> if list_ex line_terminator name then None else Some name)"

definition is_digit :: "char \<Rightarrow> bool" where
  "is_digit c \<longleftrightarrow> 48 \<le> (of_char c :: nat) \<and> of_char c \<le> (57 :: nat)"

definition digits_value :: "string \<Rightarrow> nat" where
  "digits_value s = foldl (\<lambda>n c. 10 * n + (of_char c - 48)) 0 s"

definition getSingleBtsPageIdFromSnapshotId :: "string \<Rightarrow> nat option" where
  "getSingleBtsPageIdFromSnapshotId s =
     (if take 9 s = ''instance_''
      then (case strip_suffix ''(single bts)'' (drop 9 s) of
              None \<Rightarrow> None
            | Some ds \<Rightarrow> if ds \<noteq> [] \<and> list_all is_digit ds then Some (digits_value ds) else None)
      else None)"

subsection \<open>The memory counters of the VMs\<close>

record vm_memory_track =
  mt_id :: int
  mt_name :: string
  mt_ptr :: string
  mt_firstTs :: int
  mt_lastTs :: int

definition isBtsVmMemoryTrackCandidate :: "vm_memory_track \<Rightarrow> vm_instance \<Rightarrow> bool" where
  "isBtsVmMemoryTrackCandidate t v \<longleftrightarrow>
     mt_ptr t \<in> set (vm_ptrs v) \<and>
     (case vm_destroyTs v of None \<Rightarrow> True | Some d \<Rightarrow> mt_firstTs t \<le> d) \<and>
     vm_createTs v \<le> mt_lastTs t"

definition assignBtsVmMemoryTracks ::
  "vm_instance list \<Rightarrow> vm_memory_track list \<Rightarrow> (vm_instance \<times> vm_memory_track) list" where
  "assignBtsVmMemoryTracks vs ts =
     List.map_filter (\<lambda>v. case filter (\<lambda>t. isBtsVmMemoryTrackCandidate t v) ts of
        [t] \<Rightarrow> Some (v, t) | _ \<Rightarrow> None) vs"

definition absoluteDifference :: "int \<Rightarrow> int \<Rightarrow> int" where
  "absoluteDifference l r = (if l \<ge> r then l - r else r - l)"

definition assignment_distance :: "vm_instance \<times> vm_memory_track \<Rightarrow> int" where
  "assignment_distance a =
     (let end' = (case vm_destroyTs (fst a) of None \<Rightarrow> mt_lastTs (snd a) | Some d \<Rightarrow> d)
      in absoluteDifference (mt_firstTs (snd a)) (vm_createTs (fst a)) + absoluteDifference (mt_lastTs (snd a)) end')"

definition better_assignment ::
  "(int \<times> vm_instance \<times> vm_memory_track) list \<Rightarrow> vm_instance \<times> vm_memory_track \<Rightarrow>
   (int \<times> vm_instance \<times> vm_memory_track) list" where
  "better_assignment m a =
     (case map_of m (mt_id (snd a)) of
        None \<Rightarrow> AList.update (mt_id (snd a)) a m
      | Some cur \<Rightarrow>
          if assignment_distance a < assignment_distance cur then AList.update (mt_id (snd a)) a m else m)"

definition assignBtsVmMemoryTracksForDisplay ::
  "vm_instance list \<Rightarrow> vm_memory_track list \<Rightarrow> (vm_instance \<times> vm_memory_track) list" where
  "assignBtsVmMemoryTracksForDisplay vs ts = map snd (foldl better_assignment [] (assignBtsVmMemoryTracks vs ts))"

end
