(* ===== verification/Bts_Vm_Correct.thy ===== *)
theory Bts_Vm_Correct
  imports Bts_Vm "HOL-Library.Sublist"
begin

text \<open>
  Correctness of the VMs that are rebuilt from a trace: the maps agree with the list after every event, the
  generations of a name count up, its VMs live one after the other, and every use of a page is kept.
\<close>

subsection \<open>The maps and the list\<close>

definition alive :: "vm_instance \<Rightarrow> bool" where
  "alive v \<longleftrightarrow> vm_destroyTs v = None"

definition named :: "string \<Rightarrow> vm_instance list \<Rightarrow> vm_instance list" where
  "named n vs = filter (\<lambda>v. vm_name v = n) vs"

definition destroyed :: "string \<Rightarrow> vm_instance list \<Rightarrow> vm_instance list" where
  "destroyed n vs = filter (\<lambda>v. vm_name v = n \<and> \<not> alive v) vs"

definition generation_or_0 :: "vm_build \<Rightarrow> string \<Rightarrow> nat" where
  "generation_or_0 b n = (case map_of (nextGeneration b) n of None \<Rightarrow> 0 | Some g \<Rightarrow> g)"

definition vms_ordered :: "vm_instance list \<Rightarrow> bool" where
  "vms_ordered vs \<longleftrightarrow>
     (\<forall>i j. i < j \<and> j < length vs \<and> vm_name (vs ! i) = vm_name (vs ! j) \<longrightarrow>
        (\<exists>d. vm_destroyTs (vs ! i) = Some d \<and> d \<le> vm_createTs (vs ! j)))"

definition times_ok :: "int \<Rightarrow> vm_instance \<Rightarrow> bool" where
  "times_ok t v \<longleftrightarrow> vm_createTs v \<le> t \<and> (\<forall>d. vm_destroyTs v = Some d \<longrightarrow> vm_createTs v \<le> d \<and> d \<le> t)"

definition vm_ok :: "int \<Rightarrow> vm_build \<Rightarrow> bool" where
  "vm_ok t b \<longleftrightarrow>
     (\<forall>p i. map_of (activeByPtr b) p = Some i \<longleftrightarrow>
        i < length (vm_instances b) \<and> alive (vm_at b i) \<and> p \<in> set (vm_ptrs (vm_at b i))) \<and>
     (\<forall>n i. map_of (activeByName b) n = Some i \<longleftrightarrow>
        i < length (vm_instances b) \<and> alive (vm_at b i) \<and> vm_name (vm_at b i) = n) \<and>
     (\<forall>n. generation_or_0 b n = length (destroyed n (vm_instances b))) \<and>
     (\<forall>i < length (vm_instances b). vm_generation (vm_at b i) =
        length (named (vm_name (vm_at b i)) (take i (vm_instances b)))) \<and>
     vms_ordered (vm_instances b) \<and> (\<forall>v\<in>set (vm_instances b). times_ok t v)"

lemma vm_okD:
  assumes "vm_ok t b"
  shows "map_of (activeByPtr b) p = Some i \<longleftrightarrow>
        i < length (vm_instances b) \<and> alive (vm_instances b ! i) \<and> p \<in> set (vm_ptrs (vm_instances b ! i))"
    and "map_of (activeByName b) n = Some i \<longleftrightarrow>
        i < length (vm_instances b) \<and> alive (vm_instances b ! i) \<and> vm_name (vm_instances b ! i) = n"
    and "generation_or_0 b n = length (destroyed n (vm_instances b))"
    and "i < length (vm_instances b) \<Longrightarrow> vm_generation (vm_instances b ! i) =
        length (named (vm_name (vm_instances b ! i)) (take i (vm_instances b)))"
    and "vms_ordered (vm_instances b)"
    and "i < length (vm_instances b) \<Longrightarrow> times_ok t (vm_instances b ! i)"
  using assms unfolding vm_ok_def vm_at_def by simp_all

lemma vm_ok_new: "vm_ok t no_vms"
  by (simp add: vm_ok_def no_vms_def generation_or_0_def destroyed_def vms_ordered_def)

lemma times_ok_mono: "times_ok t v \<Longrightarrow> t \<le> t' \<Longrightarrow> times_ok t' v"
  by (auto simp: times_ok_def)

lemma vm_ok_mono: "vm_ok t b \<Longrightarrow> t \<le> t' \<Longrightarrow> vm_ok t' b"
  unfolding vm_ok_def using times_ok_mono by blast

lemma map_of_foldl_delete:
  "map_of (foldl (\<lambda>m p. AList.delete p m) m ps) x = (if x \<in> set ps then None else map_of m x)"
  by (induction ps arbitrary: m) (auto simp: delete_conv)

lemma named_unique:
  assumes "vms_ordered vs" "i < length vs" "alive (vs ! i)" "j < length vs" "vm_name (vs ! j) = vm_name (vs ! i)"
  shows "j \<le> i" and "j \<noteq> i \<Longrightarrow> \<not> alive (vs ! j)"
proof -
  show le: "j \<le> i"
    using assms by (metis alive_def linorder_not_le option.distinct(1) vms_ordered_def)
  show "\<not> alive (vs ! j)" if "j \<noteq> i"
    using assms le that by (metis alive_def le_neq_implies_less option.distinct(1) vms_ordered_def)
qed

lemma destroyed_around:
  assumes "vms_ordered vs" "i < length vs" "alive (vs ! i)"
  shows "destroyed (vm_name (vs ! i)) (take i vs) = named (vm_name (vs ! i)) (take i vs)"
    and "destroyed (vm_name (vs ! i)) (drop (Suc i) vs) = []"
proof -
  show "destroyed (vm_name (vs ! i)) (take i vs) = named (vm_name (vs ! i)) (take i vs)"
    unfolding destroyed_def named_def
  proof (rule filter_cong [OF refl])
    fix v
    assume "v \<in> set (take i vs)"
    then obtain j where j: "j < i" "v = vs ! j" by (auto simp: in_set_conv_nth)
    then show "(vm_name v = vm_name (vs ! i) \<and> \<not> alive v) = (vm_name v = vm_name (vs ! i))"
      using named_unique(2) [OF assms, of j] assms(2) by auto
  qed
  have "v \<notin> set (drop (Suc i) vs)" if "vm_name v = vm_name (vs ! i)" for v
  proof
    assume "v \<in> set (drop (Suc i) vs)"
    then obtain j where "j < length vs - Suc i" "v = vs ! (Suc i + j)" by (auto simp: in_set_conv_nth)
    then show False using named_unique(1) [OF assms, of "Suc i + j"] that assms(2) by (auto simp: less_diff_conv)
  qed
  then show "destroyed (vm_name (vs ! i)) (drop (Suc i) vs) = []"
    unfolding destroyed_def by (auto simp: filter_empty_conv)
qed

text \<open>A VM that is replaced by one with the same name, generation and time of creation.\<close>

lemma replaced_vm:
  assumes "i < length vs" "vm_name w = vm_name (vs ! i)" "vm_generation w = vm_generation (vs ! i)"
    "vm_createTs w = vm_createTs (vs ! i)"
  shows "vm_name (vs[i := w] ! j) = vm_name (vs ! j)" "vm_generation (vs[i := w] ! j) = vm_generation (vs ! j)"
    "vm_createTs (vs[i := w] ! j) = vm_createTs (vs ! j)"
    "length (named m (take j (vs[i := w]))) = length (named m (take j vs))"
proof -
  show n: "vm_name (vs[i := w] ! j) = vm_name (vs ! j)" "vm_generation (vs[i := w] ! j) = vm_generation (vs ! j)"
      "vm_createTs (vs[i := w] ! j) = vm_createTs (vs ! j)" for j
    using assms by (cases "j = i"; simp)+
  have names: "map vm_name (take j (vs[i := w])) = map vm_name (take j vs)"
    by (rule nth_equalityI) (simp_all add: n)
  show "length (named m (take j (vs[i := w]))) = length (named m (take j vs))"
    using arg_cong [OF names, of "\<lambda>xs. length (filter (\<lambda>n. n = m) xs)"] by (simp add: named_def filter_map comp_def)
qed

subsection \<open>A destroyed VM\<close>

lemma vm_ok_destroy:
  assumes ok: "vm_ok t b" and t: "t \<le> ev_ts e"
  shows "vm_ok (ev_ts e) (destroy_vm e b)"
proof (cases "map_of (activeByPtr b) (ev_ptr e)")
  case None
  then show ?thesis using vm_ok_mono [OF ok t] by (simp add: destroy_vm_def)
next
  case (Some i)
  let ?vs = "vm_instances b"
  let ?v = "?vs ! i"
  let ?w = "?v\<lparr>vm_destroyTs := Some (ev_ts e)\<rparr>"
  note D = vm_okD [OF ok]
  have i: "i < length ?vs" "alive ?v" using D(1) Some by blast+
  have n: "map_of (activeByName b) (vm_name ?v) = Some i" using D(2) i by blast
  let ?b = "destroy_vm e b"
  have vs: "vm_instances ?b = ?vs[i := ?w]"
    and ptr: "map_of (activeByPtr ?b) p = (if p \<in> set (vm_ptrs ?v) then None else map_of (activeByPtr b) p)"
    and name: "map_of (activeByName ?b) m = (if m = vm_name ?v then None else map_of (activeByName b) m)"
    and gen: "generation_or_0 ?b m = (if m = vm_name ?v then vm_generation ?v + 1 else generation_or_0 b m)" for p m
    using Some n by (simp_all add: destroy_vm_def change_vm_def vm_at_def Let_def map_of_foldl_delete delete_conv
        generation_or_0_def update_conv')
  have split: "?vs = take i ?vs @ ?v # drop (Suc i) ?vs" "?vs[i := ?w] = take i ?vs @ ?w # drop (Suc i) ?vs"
    using i by (simp_all add: id_take_nth_drop upd_conv_take_nth_drop)
  note around = destroyed_around [OF D(5) i]
  have same: "vm_name (?vs[i := ?w] ! j) = vm_name (?vs ! j)" "vm_generation (?vs[i := ?w] ! j) = vm_generation (?vs ! j)"
      "vm_createTs (?vs[i := ?w] ! j) = vm_createTs (?vs ! j)"
      "length (named m (take j (?vs[i := ?w]))) = length (named m (take j ?vs))" for j m
    using replaced_vm [OF i(1), of ?w] by simp_all
  have "\<not> alive ?w" by (simp add: alive_def)
  show ?thesis
    unfolding vm_ok_def vm_at_def vs
  proof (intro conjI allI impI ballI)
    fix p j
    show "map_of (activeByPtr ?b) p = Some j \<longleftrightarrow>
        j < length (?vs[i := ?w]) \<and> alive (?vs[i := ?w] ! j) \<and> p \<in> set (vm_ptrs (?vs[i := ?w] ! j))"
    proof (cases "j = i")
      case True
      then show ?thesis using i \<open>\<not> alive ?w\<close> ptr [of p] D(1) [of p i] by (auto split: if_splits)
    next
      case False
      then show ?thesis using i ptr [of p] D(1) [of p j] D(1) [of p i] by (auto split: if_splits)
    qed
  next
    fix m j
    show "map_of (activeByName ?b) m = Some j \<longleftrightarrow>
        j < length (?vs[i := ?w]) \<and> alive (?vs[i := ?w] ! j) \<and> vm_name (?vs[i := ?w] ! j) = m"
    proof (cases "j = i")
      case True
      then show ?thesis using i \<open>\<not> alive ?w\<close> name [of m] D(2) [of m i] by (auto split: if_splits)
    next
      case False
      then show ?thesis
        using i name [of m] D(2) [of m j] named_unique(2) [OF D(5) i, of j] by (auto split: if_splits)
    qed
  next
    fix m
    have "destroyed m (?vs[i := ?w]) =
        destroyed m (take i ?vs) @ (if m = vm_name ?v then [?w] else []) @ destroyed m (drop (Suc i) ?vs)"
      unfolding split(2) destroyed_def by (simp add: alive_def)
    moreover have "destroyed m ?vs = destroyed m (take i ?vs) @ destroyed m (drop (Suc i) ?vs)"
      using i(2) by (subst split(1)) (simp add: destroyed_def)
    ultimately show "generation_or_0 ?b m = length (destroyed m (?vs[i := ?w]))"
      using gen [of m] D(3) [of m] D(4) [OF i(1)] around by simp
  next
    fix j
    assume "j < length (?vs[i := ?w])"
    then show "vm_generation (?vs[i := ?w] ! j) =
        length (named (vm_name (?vs[i := ?w] ! j)) (take j (?vs[i := ?w])))"
      using D(4) [of j] same by simp
  next
    show "vms_ordered (?vs[i := ?w])"
      unfolding vms_ordered_def
    proof (intro allI impI)
      fix k j
      assume kj: "k < j \<and> j < length (?vs[i := ?w]) \<and> vm_name (?vs[i := ?w] ! k) = vm_name (?vs[i := ?w] ! j)"
      then have names: "vm_name (?vs ! k) = vm_name (?vs ! j)" "j < length ?vs" "k < j" by (simp_all add: same)
      then have "k \<noteq> i" using named_unique(1) [OF D(5) i, of j] by auto
      moreover obtain d where "vm_destroyTs (?vs ! k) = Some d" "d \<le> vm_createTs (?vs ! j)"
        using D(5) names unfolding vms_ordered_def by blast
      ultimately show "\<exists>d. vm_destroyTs (?vs[i := ?w] ! k) = Some d \<and> d \<le> vm_createTs (?vs[i := ?w] ! j)"
        by (simp add: same)
    qed
  next
    fix v
    assume "v \<in> set (?vs[i := ?w])"
    moreover have "times_ok (ev_ts e) ?w" using D(6) [OF i(1)] t by (auto simp: times_ok_def)
    moreover have "times_ok (ev_ts e) u" if "u \<in> set ?vs" for u
      using that D(6) times_ok_mono [OF _ t] by (metis in_set_conv_nth)
    ultimately show "times_ok (ev_ts e) v" using set_update_subset_insert [of ?vs i ?w] by blast
  qed
qed

subsection \<open>A used VM\<close>

lemma vm_ok_create:
  assumes ok: "vm_ok t b" and t: "t \<le> ev_ts e" and b1: "find_or_create_vm e g k b = (i, b1)"
  shows "vm_ok (ev_ts e) b1" and "i < length (vm_instances b1)" and "alive (vm_instances b1 ! i)"
    and "map_of (activeByPtr b1) (ev_ptr e) = None \<or> map_of (activeByPtr b1) (ev_ptr e) = Some i"
    and "prefix (vm_instances b) (vm_instances b1)"
proof -
  let ?n = "vm_name_of g k" and ?vs = "vm_instances b"
  note D = vm_okD [OF ok]
  have "vm_ok (ev_ts e) b1 \<and> i < length (vm_instances b1) \<and> alive (vm_instances b1 ! i) \<and>
    (map_of (activeByPtr b1) (ev_ptr e) = None \<or> map_of (activeByPtr b1) (ev_ptr e) = Some i) \<and>
    prefix (vm_instances b) (vm_instances b1)"
  proof (cases "map_of (activeByPtr b) (ev_ptr e) = None \<and> map_of (activeByName b) ?n = None")
    case False
    then have "b1 = b" "map_of (activeByPtr b) (ev_ptr e) = Some i \<or>
        map_of (activeByPtr b) (ev_ptr e) = None \<and> map_of (activeByName b) ?n = Some i"
      using b1 by (auto simp: find_or_create_vm_def Let_def split: option.splits)
    then show ?thesis using vm_ok_mono [OF ok t] D(1,2) by auto
  next
    case True
    let ?v = "\<lparr>vm_name = ?n, vm_generation = generation_or_0 b ?n, vm_shared = (g \<noteq> ''-1''), vm_ptrs = [],
        vm_desc = (case ev_desc e of None \<Rightarrow> [] | Some d \<Rightarrow> d), vm_createTs = ev_ts e, vm_destroyTs = None, vm_uses = []\<rparr>"
    have i: "i = length ?vs"
      and b1': "b1 = b\<lparr>vm_instances := ?vs @ [?v], activeByName := AList.update ?n (length ?vs) (activeByName b)\<rparr>"
      using True b1 by (auto simp: find_or_create_vm_def Let_def generation_or_0_def)
    have v: "alive ?v" "vm_ptrs ?v = []" "times_ok (ev_ts e) ?v" by (simp_all add: alive_def times_ok_def)
    have dead: "\<not> alive (?vs ! j)" if "j < length ?vs" "vm_name (?vs ! j) = ?n" for j
      using that True D(2) [of ?n j] by auto
    have all: "destroyed ?n ?vs = named ?n ?vs"
      unfolding destroyed_def named_def using dead by (intro filter_cong) (auto simp: in_set_conv_nth)
    have "vm_ok (ev_ts e) b1"
      unfolding vm_ok_def vm_at_def
    proof (intro conjI allI impI ballI)
      fix p j
      show "map_of (activeByPtr b1) p = Some j \<longleftrightarrow>
          j < length (vm_instances b1) \<and> alive (vm_instances b1 ! j) \<and> p \<in> set (vm_ptrs (vm_instances b1 ! j))"
        using D(1) [of p j] v by (auto simp: b1' nth_append)
    next
      fix m j
      show "map_of (activeByName b1) m = Some j \<longleftrightarrow>
          j < length (vm_instances b1) \<and> alive (vm_instances b1 ! j) \<and> vm_name (vm_instances b1 ! j) = m"
        using D(2) [of m j] dead [of j] v by (auto simp: b1' nth_append update_conv')
    next
      fix m
      show "generation_or_0 b1 m = length (destroyed m (vm_instances b1))"
        using D(3) [of m] by (simp add: b1' generation_or_0_def destroyed_def alive_def)
    next
      fix j
      assume "j < length (vm_instances b1)"
      then show "vm_generation (vm_instances b1 ! j) =
          length (named (vm_name (vm_instances b1 ! j)) (take j (vm_instances b1)))"
        using D(4) [of j] D(3) [of ?n] all by (auto simp: b1' nth_append less_Suc_eq)
    next
      show "vms_ordered (vm_instances b1)"
        unfolding vms_ordered_def
      proof (intro allI impI)
        fix k j
        assume kj: "k < j \<and> j < length (vm_instances b1) \<and> vm_name (vm_instances b1 ! k) = vm_name (vm_instances b1 ! j)"
        show "\<exists>d. vm_destroyTs (vm_instances b1 ! k) = Some d \<and> d \<le> vm_createTs (vm_instances b1 ! j)"
        proof (cases "j < length ?vs")
          case True
          then show ?thesis using kj D(5) by (auto simp: b1' nth_append vms_ordered_def)
        next
          case False
          then have "\<not> alive (?vs ! k)" "k < length ?vs" "j = length ?vs"
            using kj dead [of k] by (auto simp: b1' nth_append)
          then show ?thesis using D(6) [of k] t by (auto simp: b1' nth_append alive_def times_ok_def)
        qed
      qed
    next
      fix u
      assume "u \<in> set (vm_instances b1)"
      then show "times_ok (ev_ts e) u"
        using v(3) D(6) times_ok_mono [OF _ t] by (auto simp: b1' in_set_conv_nth)
    qed
    then show ?thesis using True v by (simp add: i b1')
  qed
  then show "vm_ok (ev_ts e) b1" "i < length (vm_instances b1)" "alive (vm_instances b1 ! i)"
    "map_of (activeByPtr b1) (ev_ptr e) = None \<or> map_of (activeByPtr b1) (ev_ptr e) = Some i"
    "prefix (vm_instances b) (vm_instances b1)" by blast+
qed

text \<open>A VM that gets a pointer and other uses keeps its name, generation and times.\<close>

lemma vm_ok_touch:
  assumes ok: "vm_ok t b" and i: "i < length (vm_instances b)" "alive (vm_instances b ! i)"
    and p: "map_of (activeByPtr b) p = None \<or> map_of (activeByPtr b) p = Some i"
    and w: "vm_name w = vm_name (vm_instances b ! i)" "vm_generation w = vm_generation (vm_instances b ! i)"
      "vm_createTs w = vm_createTs (vm_instances b ! i)" "vm_destroyTs w = vm_destroyTs (vm_instances b ! i)"
      "set (vm_ptrs w) = insert p (set (vm_ptrs (vm_instances b ! i)))"
  shows "vm_ok t (b\<lparr>vm_instances := (vm_instances b)[i := w], activeByPtr := AList.update p i (activeByPtr b)\<rparr>)"
proof -
  let ?vs = "vm_instances b"
  let ?b = "b\<lparr>vm_instances := ?vs[i := w], activeByPtr := AList.update p i (activeByPtr b)\<rparr>"
  note D = vm_okD [OF ok]
  have aw: "alive w" using i w by (simp add: alive_def)
  note same = replaced_vm [OF i(1) w(1-3)]
  have ends: "vm_destroyTs (?vs[i := w] ! j) = vm_destroyTs (?vs ! j)" for j
    using i(1) w(4) by (cases "j = i") simp_all
  have dead: "map (\<lambda>v. (vm_name v, alive v)) (?vs[i := w]) = map (\<lambda>v. (vm_name v, alive v)) ?vs"
    by (rule nth_equalityI) (simp_all add: same ends alive_def)
  show ?thesis
    unfolding vm_ok_def vm_at_def
  proof (intro conjI allI impI ballI)
    fix q j
    show "map_of (activeByPtr ?b) q = Some j \<longleftrightarrow>
        j < length (vm_instances ?b) \<and> alive (vm_instances ?b ! j) \<and> q \<in> set (vm_ptrs (vm_instances ?b ! j))"
      using D(1) [of q j] D(1) [of p j] p i aw w(5) by (auto simp: update_conv' nth_list_update split: if_splits)
  next
    fix m j
    show "map_of (activeByName ?b) m = Some j \<longleftrightarrow>
        j < length (vm_instances ?b) \<and> alive (vm_instances ?b ! j) \<and> vm_name (vm_instances ?b ! j) = m"
      using D(2) [of m j] by (simp add: same ends alive_def)
  next
    fix m
    show "generation_or_0 ?b m = length (destroyed m (vm_instances ?b))"
      using D(3) [of m] arg_cong [OF dead, of "\<lambda>xs. length (filter (\<lambda>(n, a). n = m \<and> \<not> a) xs)"]
      by (simp add: generation_or_0_def destroyed_def filter_map comp_def)
  next
    fix j
    assume "j < length (vm_instances ?b)"
    then show "vm_generation (vm_instances ?b ! j) =
        length (named (vm_name (vm_instances ?b ! j)) (take j (vm_instances ?b)))"
      using D(4) [of j] by (simp add: same)
  next
    show "vms_ordered (vm_instances ?b)"
      using D(5) by (simp add: vms_ordered_def same ends)
  next
    fix v
    assume "v \<in> set (vm_instances ?b)"
    then obtain j where "j < length ?vs" "v = ?vs[i := w] ! j" by (auto simp: in_set_conv_nth)
    then show "times_ok t v" using D(6) [of j] by (simp add: times_ok_def same ends)
  qed
qed

lemma vm_ok_use:
  assumes ok: "vm_ok t b" and t: "t \<le> ev_ts e"
  shows "vm_ok (ev_ts e) (use_vm e b)"
proof (cases "\<exists>k g. ev_instanceId e = Some k \<and> ev_groupId e = Some g")
  case True
  then obtain k g where kg: "ev_instanceId e = Some k" "ev_groupId e = Some g" by blast
  obtain i b1 where b1: "find_or_create_vm e g k b = (i, b1)" by (cases "find_or_create_vm e g k b")
  note C = vm_ok_create [OF ok t b1]
  show ?thesis
    using vm_ok_touch [OF C(1-4), of "touch_vm e k (vm_instances b1 ! i)"]
    by (simp add: use_vm_def kg b1 change_vm_def vm_at_def touch_vm_def insert_absorb)
qed (use vm_ok_mono [OF ok t] in \<open>auto simp: use_vm_def split: option.split\<close>)

lemma vm_ok_step: "vm_ok t b \<Longrightarrow> t \<le> ev_ts e \<Longrightarrow> vm_ok (ev_ts e) (vm_step b e)"
  by (cases "ev_name e") (simp_all add: vm_step_def vm_ok_use vm_ok_destroy)

lemma vm_ok_foldl:
  "sorted (map ev_ts es) \<Longrightarrow> \<forall>e\<in>set es. ev_ts e \<le> t \<Longrightarrow> vm_ok t (foldl vm_step no_vms es)"
proof (induction es arbitrary: t rule: rev_induct)
  case (snoc e es)
  then have "vm_ok (ev_ts e) (foldl vm_step no_vms es)" by (simp add: sorted_append)
  from vm_ok_step [OF this order_refl] show ?case
    using snoc.prems(2) by (auto intro: vm_ok_mono)
qed (simp add: vm_ok_new)

lemma events_sorted: "sorted (map ev_ts (sort_key event_key es))"
proof -
  have "sorted (map event_key (sort_key event_key es))" by simp
  then have "sorted_wrt (\<lambda>e e'. event_key e \<le> event_key e') (sort_key event_key es)"
    by (simp add: sorted_map)
  then have "sorted_wrt (\<lambda>e e'. ev_ts e \<le> ev_ts e') (sort_key event_key es)"
    by (rule sorted_wrt_mono_rel [rotated]) (auto simp: event_key_def less_eq_prod_def)
  then show ?thesis by (simp add: sorted_map)
qed

subsection \<open>Lifetimes\<close>

lemma build_ok: "\<exists>t b. vm_ok t b \<and> buildBtsVmInstances es = vm_instances b"
proof -
  let ?es = "sort_key event_key es"
  have "\<exists>t. \<forall>e\<in>set ?es. ev_ts e \<le> t"
    by (intro exI [of _ "Max (insert 0 (ev_ts ` set ?es))"]) auto
  then show ?thesis using vm_ok_foldl [OF events_sorted] unfolding buildBtsVmInstances_def by blast
qed

lemma named_generations:
  assumes "\<And>i. i < length vs \<Longrightarrow> vm_generation (vs ! i) = length (named (vm_name (vs ! i)) (take i vs))"
  shows "map vm_generation (named n vs) = [0..<length (named n vs)]"
  using assms
proof (induction vs rule: rev_induct)
  case (snoc v vs)
  have "vm_generation (vs ! i) = length (named (vm_name (vs ! i)) (take i vs))" if "i < length vs" for i
    using snoc.prems [of i] that by (simp add: nth_append)
  moreover have "vm_generation v = length (named (vm_name v) vs)"
    using snoc.prems [of "length vs"] by simp
  ultimately show ?case using snoc.IH by (simp add: named_def)
qed (simp add: named_def)

text \<open>
  The VMs of a name are numbered in the order they appear, each is over before the next begins, and so at
  any time at most one is alive: the look-up by name and time finds exactly that one.
\<close>

text \<open>
  C29. Lifetimes of script VMs, for any list of events in any order: the VMs of one name have the generations
  0, 1, 2, ... in the order they appear, each was destroyed no later than the next was created, and
  \<open>findBtsVmByNameAt\<close> finds exactly the VM of the name that is alive at the time.
\<close>

theorem vm_lifetimes:
  fixes es :: "vm_event list"
  defines "vs \<equiv> buildBtsVmInstances es"
  shows "map vm_generation (named n vs) = [0..<length (named n vs)] \<and>
    (\<forall>i j. i < j \<and> j < length (named n vs) \<longrightarrow>
       (\<exists>d. vm_destroyTs (named n vs ! i) = Some d \<and> vm_createTs (named n vs ! i) \<le> d \<and>
          d \<le> vm_createTs (named n vs ! j))) \<and>
    (findBtsVmByNameAt vs n ts = Some v \<longleftrightarrow> v \<in> set vs \<and> vm_name v = n \<and> alive_at ts v)"
proof -
  obtain t b where b: "vm_ok t b" and vs: "vs = vm_instances b" unfolding vs_def using build_ok by blast
  note D = vm_okD [OF b, folded vs]
  have "sorted_wrt (\<lambda>v w. vm_name v = vm_name w \<longrightarrow>
      (\<exists>d. vm_destroyTs v = Some d \<and> vm_createTs v \<le> d \<and> d \<le> vm_createTs w)) vs"
    unfolding sorted_wrt_iff_nth_less
  proof (intro allI impI)
    fix i j
    assume ij: "i < j" "j < length vs" "vm_name (vs ! i) = vm_name (vs ! j)"
    then obtain d where "vm_destroyTs (vs ! i) = Some d" "d \<le> vm_createTs (vs ! j)"
      using D(5) unfolding vms_ordered_def by blast
    then show "\<exists>d. vm_destroyTs (vs ! i) = Some d \<and> vm_createTs (vs ! i) \<le> d \<and> d \<le> vm_createTs (vs ! j)"
      using D(6) [of i] ij by (auto simp: times_ok_def)
  qed
  then have "sorted_wrt (\<lambda>v w. \<exists>d. vm_destroyTs v = Some d \<and> vm_createTs v \<le> d \<and> d \<le> vm_createTs w) (named n vs)"
    unfolding named_def by (rule sorted_wrt_mono_rel [OF _ sorted_wrt_filter, rotated]) auto
  then have lives: "\<exists>d. vm_destroyTs (named n vs ! i) = Some d \<and> vm_createTs (named n vs ! i) \<le> d \<and>
      d \<le> vm_createTs (named n vs ! j)" if "i < j" "j < length (named n vs)" for i j
    using that unfolding sorted_wrt_iff_nth_less by blast
  have one: "v = w" if vw: "v \<in> set vs" "w \<in> set vs" "vm_name v = n" "vm_name w = n" "alive_at ts v" "alive_at ts w" for v w
  proof -
    have "v \<in> set (named n vs)" "w \<in> set (named n vs)" using vw by (simp_all add: named_def)
    then obtain i j where ij: "i < length (named n vs)" "v = named n vs ! i" "j < length (named n vs)" "w = named n vs ! j"
      by (auto simp: in_set_conv_nth)
    have "\<not> k < l" if "k < length (named n vs)" "l < length (named n vs)" "alive_at ts (named n vs ! k)" "alive_at ts (named n vs ! l)" for k l
      using lives [of k l] that by (auto simp: alive_at_def split: option.splits)
    then show ?thesis using ij vw by (metis nat_neq_iff)
  qed
  have "findBtsVmByNameAt vs n ts = Some v \<longleftrightarrow> v \<in> set vs \<and> vm_name v = n \<and> alive_at ts v"
  proof
    assume "findBtsVmByNameAt vs n ts = Some v"
    then show "v \<in> set vs \<and> vm_name v = n \<and> alive_at ts v"
      unfolding findBtsVmByNameAt_def by (metis (mono_tags, lifting) find_Some_iff nth_mem)
  next
    assume v: "v \<in> set vs \<and> vm_name v = n \<and> alive_at ts v"
    then obtain w where w: "findBtsVmByNameAt vs n ts = Some w"
      unfolding findBtsVmByNameAt_def by (metis (mono_tags, lifting) find_None_iff not_None_eq)
    then have "w \<in> set vs \<and> vm_name w = n \<and> alive_at ts w"
      unfolding findBtsVmByNameAt_def by (metis (mono_tags, lifting) find_Some_iff nth_mem)
    with v w one show "findBtsVmByNameAt vs n ts = Some v" by blast
  qed
  moreover have "map vm_generation (named n vs) = [0..<length (named n vs)]"
    by (rule named_generations) (rule D(4))
  ultimately show ?thesis using lives by blast
qed

subsection \<open>The pages\<close>

definition page_use :: "vm_event \<Rightarrow> int \<Rightarrow> bool" where
  "page_use e k \<longleftrightarrow> ev_name e = PAGE_USES_BTS_VM \<and> ev_instanceId e = Some k \<and> ev_groupId e \<noteq> None"

definition uses_of :: "vm_instance \<Rightarrow> int set" where
  "uses_of v = use_instanceId ` set (vm_uses v)"

text \<open>A VM that serves the event: it has the pointer, was there at the time, and knows the page.\<close>

definition serves :: "vm_instance \<Rightarrow> vm_event \<Rightarrow> int \<Rightarrow> bool" where
  "serves v e k \<longleftrightarrow> ev_ptr e \<in> set (vm_ptrs v) \<and> k \<in> uses_of v \<and> vm_createTs v \<le> ev_ts e \<and>
     (\<forall>d. vm_destroyTs v = Some d \<longrightarrow> ev_ts e \<le> d)"

lemma add_use_ids: "use_instanceId ` set (add_use e k us) = insert k (use_instanceId ` set us)"
proof (cases "\<exists>u\<in>set us. use_instanceId u = k")
  case True
  let ?i = "length (takeWhile (\<lambda>u. use_instanceId u \<noteq> k) us)"
  let ?u = "us ! ?i"
  have i: "?i < length us" using True by (intro takeWhile_shorter) simp
  have "map use_instanceId (us[?i := w]) = map use_instanceId us" if "use_instanceId w = use_instanceId ?u" for w
    using i that by (metis list_update_id map_update)
  then have "map use_instanceId (add_use e k us) = map use_instanceId us"
    using True by (simp add: add_use_def Let_def)
  then have "use_instanceId ` set (add_use e k us) = use_instanceId ` set us"
    by (metis set_map)
  then show ?thesis using True by force
qed (simp add: add_use_def)

text \<open>What an event leaves of the VMs there were.\<close>

definition grows :: "int \<Rightarrow> vm_instance list \<Rightarrow> vm_instance list \<Rightarrow> bool" where
  "grows t vs ws \<longleftrightarrow> length vs \<le> length ws \<and>
     (\<forall>i < length vs. set (vm_ptrs (vs ! i)) \<subseteq> set (vm_ptrs (ws ! i)) \<and> uses_of (vs ! i) \<subseteq> uses_of (ws ! i) \<and>
        vm_createTs (ws ! i) = vm_createTs (vs ! i) \<and>
        (vm_destroyTs (ws ! i) = vm_destroyTs (vs ! i) \<or> vm_destroyTs (vs ! i) = None \<and> vm_destroyTs (ws ! i) = Some t))"

lemma grows_serves:
  assumes "grows t vs ws" "v \<in> set vs" "serves v e k" "ev_ts e \<le> t"
  shows "\<exists>w\<in>set ws. serves w e k"
proof -
  obtain i where "i < length vs" "v = vs ! i" using assms(2) by (auto simp: in_set_conv_nth)
  with assms(1) have "i < length ws" "set (vm_ptrs v) \<subseteq> set (vm_ptrs (ws ! i))" "uses_of v \<subseteq> uses_of (ws ! i)"
    "vm_createTs (ws ! i) = vm_createTs v"
    "vm_destroyTs (ws ! i) = vm_destroyTs v \<or> vm_destroyTs v = None \<and> vm_destroyTs (ws ! i) = Some t"
    unfolding grows_def by auto
  with assms(3,4) have "serves (ws ! i) e k" unfolding serves_def by auto
  with \<open>i < length ws\<close> show ?thesis by (meson nth_mem)
qed

lemma destroy_grows:
  assumes "vm_ok t b"
  shows "grows (ev_ts e) (vm_instances b) (vm_instances (destroy_vm e b))"
  using vm_okD(1) [OF assms, of "ev_ptr e"]
  by (auto simp: destroy_vm_def change_vm_def vm_at_def grows_def uses_of_def nth_list_update alive_def Let_def
      split: option.split)

lemma use_grows:
  assumes ok: "vm_ok t b" and t: "t \<le> ev_ts e"
  shows "grows (ev_ts e) (vm_instances b) (vm_instances (use_vm e b))"
    and "ev_instanceId e = Some k \<Longrightarrow> ev_groupId e = Some g \<Longrightarrow> \<exists>v\<in>set (vm_instances (use_vm e b)). serves v e k"
proof -
  have "grows (ev_ts e) (vm_instances b) (vm_instances (use_vm e b)) \<and>
      (\<exists>v\<in>set (vm_instances (use_vm e b)). serves v e k)"
    if kg: "ev_instanceId e = Some k" "ev_groupId e = Some g" for k g
  proof -
    obtain i b1 where b1: "find_or_create_vm e g k b = (i, b1)" by (cases "find_or_create_vm e g k b")
    note C = vm_ok_create [OF ok t b1]
    let ?v = "vm_instances b1 ! i"
    have vs: "vm_instances (use_vm e b) = (vm_instances b1)[i := touch_vm e k ?v]"
      by (simp add: use_vm_def kg b1 change_vm_def vm_at_def)
    have "times_ok (ev_ts e) ?v" using vm_okD(6) [OF C(1) C(2)] .
    then have "serves (touch_vm e k ?v) e k"
      using C(3) by (simp add: serves_def touch_vm_def uses_of_def add_use_ids times_ok_def alive_def)
    moreover have "touch_vm e k ?v \<in> set (vm_instances (use_vm e b))" using C(2) by (simp add: vs set_update_memI)
    moreover have "grows (ev_ts e) (vm_instances b) (vm_instances (use_vm e b))"
      using C(2,5) by (auto simp: vs grows_def prefix_def nth_list_update nth_append touch_vm_def uses_of_def add_use_ids)
    ultimately show ?thesis by blast
  qed
  note this_use = this
  show "grows (ev_ts e) (vm_instances b) (vm_instances (use_vm e b))"
  proof (cases "\<exists>k g. ev_instanceId e = Some k \<and> ev_groupId e = Some g")
    case False
    then have "use_vm e b = b" by (auto simp: use_vm_def split: option.split)
    then show ?thesis by (simp add: grows_def)
  qed (use this_use in blast)
  show "\<exists>v\<in>set (vm_instances (use_vm e b)). serves v e k" if "ev_instanceId e = Some k" "ev_groupId e = Some g"
    using this_use that by blast
qed

lemma step_grows:
  assumes "vm_ok t b" and "t \<le> ev_ts e"
  shows "grows (ev_ts e) (vm_instances b) (vm_instances (vm_step b e))"
    and "page_use e k \<Longrightarrow> \<exists>v\<in>set (vm_instances (vm_step b e)). serves v e k"
  using use_grows [OF assms] destroy_grows [OF assms(1)]
  by (auto simp: vm_step_def page_use_def split: vm_event_name.split)

lemma pages_served:
  assumes "sorted (map ev_ts es)" and "e \<in> set es" and "page_use e k"
  shows "\<exists>v\<in>set (vm_instances (foldl vm_step no_vms es)). serves v e k"
  using assms
proof (induction es rule: rev_induct)
  case (snoc e' es)
  let ?b = "foldl vm_step no_vms es"
  have ok: "vm_ok (ev_ts e') ?b" using snoc.prems(1) vm_ok_foldl [of es "ev_ts e'"] by (simp add: sorted_append)
  note S = step_grows [OF ok order_refl]
  show ?case
  proof (cases "e = e'")
    case True
    then show ?thesis using S(2) snoc.prems(3) by simp
  next
    case False
    then obtain v where "v \<in> set (vm_instances ?b)" "serves v e k" "ev_ts e \<le> ev_ts e'"
      using snoc by (auto simp: sorted_append)
    then show ?thesis using grows_serves [OF S(1)] by simp
  qed
qed simp

text \<open>Where the uses come from.\<close>

definition all_uses :: "vm_instance list \<Rightarrow> int set" where
  "all_uses vs = (\<Union>v\<in>set vs. uses_of v)"

lemma all_uses_update:
  assumes "i < length vs" and "uses_of w = S \<union> uses_of (vs ! i)"
  shows "all_uses (vs[i := w]) = S \<union> all_uses vs"
proof -
  have "all_uses (take i vs @ vs ! i # drop (Suc i) vs) = all_uses vs" using assms(1) by (simp add: id_take_nth_drop [symmetric])
  then have "S \<union> all_uses (take i vs @ vs ! i # drop (Suc i) vs) = S \<union> all_uses vs" by simp
  then show ?thesis using assms by (simp add: upd_conv_take_nth_drop all_uses_def Un_ac)
qed

lemma step_uses:
  assumes ok: "vm_ok t b" and t: "t \<le> ev_ts e"
  shows "all_uses (vm_instances (vm_step b e)) = {k. page_use e k} \<union> all_uses (vm_instances b)"
proof (cases "ev_name e")
  case DESTROY_VM_INSTANCE
  show ?thesis
  proof (cases "map_of (activeByPtr b) (ev_ptr e)")
    case (Some i)
    then have "i < length (vm_instances b)" using vm_okD(1) [OF ok] by blast
    from all_uses_update [OF this, of _ "{}"] show ?thesis
      by (simp add: DESTROY_VM_INSTANCE vm_step_def destroy_vm_def Some change_vm_def vm_at_def page_use_def uses_of_def Let_def)
  qed (simp add: DESTROY_VM_INSTANCE vm_step_def destroy_vm_def page_use_def)
next
  case PAGE_USES_BTS_VM
  show ?thesis
  proof (cases "\<exists>k g. ev_instanceId e = Some k \<and> ev_groupId e = Some g")
    case True
    then obtain k g where kg: "ev_instanceId e = Some k" "ev_groupId e = Some g" by blast
    obtain i b1 where b1: "find_or_create_vm e g k b = (i, b1)" by (cases "find_or_create_vm e g k b")
    have "all_uses (vm_instances b1) = all_uses (vm_instances b)"
    proof -
      have "vm_instances b1 = vm_instances b \<or> (\<exists>v. vm_uses v = [] \<and> vm_instances b1 = vm_instances b @ [v])"
        using b1 by (auto simp: find_or_create_vm_def Let_def split: option.splits)
      moreover have "uses_of v = {}" if "vm_uses v = []" for v using that by (simp add: uses_of_def)
      ultimately show ?thesis unfolding all_uses_def by auto
    qed
    moreover have "all_uses ((vm_instances b1)[i := touch_vm e k (vm_instances b1 ! i)]) = {k} \<union> all_uses (vm_instances b1)"
      by (rule all_uses_update [OF vm_ok_create(2) [OF ok t b1]]) (simp add: touch_vm_def uses_of_def add_use_ids)
    moreover have "{j. page_use e j} = {k}" using PAGE_USES_BTS_VM kg by (auto simp: page_use_def)
    ultimately show ?thesis
      by (simp add: PAGE_USES_BTS_VM vm_step_def use_vm_def kg b1 change_vm_def vm_at_def)
  next
    case False
    then have "use_vm e b = b" "{j. page_use e j} = {}" by (auto simp: use_vm_def page_use_def split: option.split)
    then show ?thesis by (simp add: PAGE_USES_BTS_VM vm_step_def)
  qed
qed

lemma uses_foldl:
  assumes "sorted (map ev_ts es)"
  shows "all_uses (vm_instances (foldl vm_step no_vms es)) = {k. \<exists>e\<in>set es. page_use e k}"
  using assms
proof (induction es rule: rev_induct)
  case (snoc e es)
  have "vm_ok (ev_ts e) (foldl vm_step no_vms es)"
    using snoc.prems vm_ok_foldl [of es "ev_ts e"] by (simp add: sorted_append)
  from step_uses [OF this order_refl] snoc show ?case by (auto simp: sorted_append)
qed (simp add: no_vms_def all_uses_def)

text \<open>
  Every page that used a VM is found, and no other; and for each event there is a VM that has the pointer
  of the event, was alive at its time and lists the page.
\<close>

text \<open>
  C34. Pages and their VMs: \<open>findBtsVmForPage\<close> finds a VM exactly for the pages that some event mentions with an
  id and a group (the code skips other events), and for each such event there is a VM that has its pointer, lists
  the page, was created no later than the event and was not destroyed before it. At the very timestamp
  of the event it may be destroyed, in which case it is not alive then in the sense of the look-ups.
\<close>

theorem pages_have_vms:
  "(findBtsVmForPage (buildBtsVmInstances es) k \<noteq> None \<longleftrightarrow> (\<exists>e\<in>set es. page_use e k)) \<and>
   (\<forall>e\<in>set es. page_use e k \<longrightarrow>
      (\<exists>v\<in>set (buildBtsVmInstances es). ev_ptr e \<in> set (vm_ptrs v) \<and> k \<in> uses_of v \<and> vm_createTs v \<le> ev_ts e \<and>
         (\<forall>d. vm_destroyTs v = Some d \<longrightarrow> ev_ts e \<le> d)))"
proof -
  have "(\<exists>v\<in>set (buildBtsVmInstances es). k \<in> uses_of v) \<longleftrightarrow> (\<exists>e\<in>set es. page_use e k)"
    using uses_foldl [OF events_sorted [of es]] unfolding buildBtsVmInstances_def all_uses_def by auto
  moreover have "findBtsVmForPage vs k \<noteq> None \<longleftrightarrow> (\<exists>v\<in>set vs. k \<in> uses_of v)" for vs
    unfolding findBtsVmForPage_def find_None_iff uses_of_def by auto
  moreover have "\<forall>e\<in>set es. page_use e k \<longrightarrow> (\<exists>v\<in>set (buildBtsVmInstances es). serves v e k)"
    using pages_served [OF events_sorted [of es]] by (simp add: buildBtsVmInstances_def)
  ultimately show ?thesis unfolding serves_def by blast
qed

definition engine_events :: "vm_event list" where
  "engine_events =
     [\<lparr>ev_sliceId = 4, ev_ts = 40, ev_name = PAGE_USES_BTS_VM, ev_ptr = ''p1'', ev_groupId = Some ''engine0'',
       ev_instanceId = Some 200, ev_desc = None, ev_url = None\<rparr>,
      \<lparr>ev_sliceId = 1, ev_ts = 10, ev_name = PAGE_USES_BTS_VM, ev_ptr = ''p0'', ev_groupId = Some ''engine0'',
       ev_instanceId = Some 100, ev_desc = None, ev_url = None\<rparr>,
      \<lparr>ev_sliceId = 3, ev_ts = 30, ev_name = DESTROY_VM_INSTANCE, ev_ptr = ''p0'', ev_groupId = None,
       ev_instanceId = None, ev_desc = None, ev_url = None\<rparr>]"

theorem pages_have_vms_witness:
  "findBtsVmForPage (buildBtsVmInstances engine_events) 200 \<noteq> None"
  using pages_have_vms [of engine_events 200] by (simp add: engine_events_def page_use_def)

theorem vm_lifetimes_witness:
  "\<exists>d. vm_destroyTs (named ''engine0'' (buildBtsVmInstances engine_events) ! 0) = Some d \<and>
     d \<le> vm_createTs (named ''engine0'' (buildBtsVmInstances engine_events) ! 1)"
proof -
  have "length (named ''engine0'' (buildBtsVmInstances engine_events)) = 2" by code_simp
  then show ?thesis using vm_lifetimes [of "''engine0''" engine_events] by force
qed

subsection \<open>The counters\<close>

text \<open>The entry of a counter is one of the best of those seen so far.\<close>

definition best_of :: "(vm_instance \<times> vm_memory_track) list \<Rightarrow> int \<Rightarrow> (vm_instance \<times> vm_memory_track) option \<Rightarrow> bool" where
  "best_of as k r \<longleftrightarrow>
     (case r of
        None \<Rightarrow> \<forall>a\<in>set as. mt_id (snd a) \<noteq> k
      | Some c \<Rightarrow> c \<in> set as \<and> mt_id (snd c) = k \<and>
          (\<forall>a\<in>set as. mt_id (snd a) = k \<longrightarrow> assignment_distance c \<le> assignment_distance a))"

lemma map_of_better_assignment:
  "map_of (better_assignment m a) k =
     (if mt_id (snd a) \<noteq> k then map_of m k
      else case map_of m k of None \<Rightarrow> Some a
        | Some c \<Rightarrow> Some (if assignment_distance a < assignment_distance c then a else c))"
  by (cases "map_of m (mt_id (snd a))") (auto simp: better_assignment_def update_conv')

lemma best_of_snoc:
  "best_of as k r \<Longrightarrow> best_of (as @ [a]) k
     (if mt_id (snd a) \<noteq> k then r
      else case r of None \<Rightarrow> Some a | Some c \<Rightarrow> Some (if assignment_distance a < assignment_distance c then a else c))"
  by (cases r) (auto simp: best_of_def)

lemma best_assignment: "best_of as k (map_of (foldl better_assignment [] as) k)"
proof (induction as rule: rev_induct)
  case (snoc a as)
  from best_of_snoc [OF this] show ?case by (simp only: foldl_append foldl_Cons foldl_Nil map_of_better_assignment)
qed (simp add: best_of_def)

lemma better_assignment_distinct: "distinct (map fst (foldl better_assignment m as)) \<longleftrightarrow> distinct (map fst m)"
  if "distinct (map fst m)"
  using that by (induction as arbitrary: m) (auto simp: better_assignment_def distinct_update split: option.split)

text \<open>
  A counter is assigned to a VM when it is the only candidate; for the display each counter goes to at most
  one VM, the one whose lifetime it fits best of those it was assigned to, and none that was assigned is
  left out.
\<close>

theorem display_assignment:
  fixes vs :: "vm_instance list" and ts :: "vm_memory_track list"
  defines "all \<equiv> assignBtsVmMemoryTracks vs ts" and "shown \<equiv> assignBtsVmMemoryTracksForDisplay vs ts"
  shows "((v, t) \<in> set all \<longleftrightarrow> v \<in> set vs \<and> filter (\<lambda>t. isBtsVmMemoryTrackCandidate t v) ts = [t]) \<and>
    set shown \<subseteq> set all \<and> distinct (map (mt_id \<circ> snd) shown) \<and>
    (\<forall>a\<in>set all. \<exists>c\<in>set shown. mt_id (snd c) = mt_id (snd a) \<and> assignment_distance c \<le> assignment_distance a)"
proof -
  let ?m = "foldl better_assignment [] all"
  have d: "distinct (map fst ?m)" using better_assignment_distinct [of "[]" all] by simp
  have shown: "shown = map snd ?m" unfolding shown_def assignBtsVmMemoryTracksForDisplay_def all_def ..
  have keys: "map_of ?m k = Some c \<longleftrightarrow> (k, c) \<in> set ?m" for k c using d by simp
  have key: "k = mt_id (snd c)" "c \<in> set all" if "(k, c) \<in> set ?m" for k c
  proof -
    have "map_of ?m k = Some c" using that keys by blast
    then show "k = mt_id (snd c)" "c \<in> set all" using best_assignment [of all k] by (simp_all add: best_of_def)
  qed
  have "map (mt_id \<circ> snd) shown = map fst ?m" using key(1) by (auto simp: shown)
  then have "distinct (map (mt_id \<circ> snd) shown)" using d by (simp only:)
  moreover have "set shown \<subseteq> set all" using key(2) by (auto simp: shown)
  moreover have "\<exists>c\<in>set shown. mt_id (snd c) = mt_id (snd a) \<and> assignment_distance c \<le> assignment_distance a"
    if a: "a \<in> set all" for a
  proof -
    note best = best_assignment [of all "mt_id (snd a)"]
    obtain c where c: "map_of ?m (mt_id (snd a)) = Some c"
      using best a by (cases "map_of ?m (mt_id (snd a))") (auto simp: best_of_def)
    then have "c \<in> set shown" unfolding shown set_map keys by force
    with best c a show ?thesis unfolding best_of_def by auto
  qed
  moreover have "(v, t) \<in> set all \<longleftrightarrow> v \<in> set vs \<and> filter (\<lambda>t. isBtsVmMemoryTrackCandidate t v) ts = [t]"
  proof -
    have single: "(case us of [u] \<Rightarrow> Some (w, u) | _ \<Rightarrow> None) = Some (v, t) \<longleftrightarrow> w = v \<and> us = [t]" for us w
      by (cases us rule: remdups_adj.cases) auto
    show ?thesis unfolding all_def assignBtsVmMemoryTracks_def set_map_filter_iff single by blast
  qed
  ultimately show ?thesis by blast
qed

end
