(* ===== verification/Async_Limiter.thy ===== *)
theory Async_Limiter
  imports Prelude "HOL-Library.Sublist"
begin

text \<open>
  \<open>AsyncLimiter\<close> of \<^verbatim>\<open>base/async_limiter.ts\<close>, the queue in front of the asynchronous work of the managers:
  one task at a time, and of the tasks that wait only the latest. The class is cut at its \<open>await\<close>s, down
  to single microtasks, because what is scheduled between two of them can be lost.
\<close>

named_theorems limiter_simps \<open>what the operations of the limiter do to its parts\<close>

subsection \<open>The class\<close>

text \<open>
  A task is a closure (of any type) with the number of its \<open>deferred\<close>. The call of \<open>runTaskQueue\<close> waits for
  \<open>task.work()\<close>, or that promise has settled and the loop is about to resume; when the loop has
  returned, the callback of \<open>finally\<close> has yet to run.
\<close>

datatype 'w loop = Stopped | Working nat 'w | Finished nat bool | Returned

datatype 'w limiter_effect = WorkStarted 'w | DeferredResolved nat | DeferredRejected nat

record 'w limiter =
  taskQueue :: "(nat \<times> 'w) list"
  isRunning :: bool
  loop :: "'w loop"
  deferreds :: nat
  limiter_effects :: "'w limiter_effect list"

definition new_limiter :: "'w limiter" where
  "new_limiter =
     \<lparr>taskQueue = [], isRunning = False, loop = Stopped, deferreds = 0, limiter_effects = []\<rparr>"

definition log_effect :: "'w limiter_effect \<Rightarrow> 'w limiter \<Rightarrow> 'w limiter" where
  "log_effect e l = l\<lparr>limiter_effects := limiter_effects l @ [e]\<rparr>"

text \<open>The loop of \<open>runTaskQueue\<close> up to its next \<open>await\<close> or its end.\<close>

fun run_queue :: "(nat \<times> 'w) list \<Rightarrow> 'w limiter \<Rightarrow> 'w limiter" where
  "run_queue [] l = l\<lparr>taskQueue := [], loop := Returned\<rparr>"
| "run_queue [(n, w)] l = log_effect (WorkStarted w) (l\<lparr>taskQueue := [], loop := Working n w\<rparr>)"
| "run_queue ((n, w) # t # ts) l = run_queue (t # ts) (log_effect (DeferredResolved n) l)"

definition schedule_work :: "'w \<Rightarrow> 'w limiter \<Rightarrow> 'w limiter" where
  "schedule_work w l =
     (let l1 = l\<lparr>taskQueue := taskQueue l @ [(deferreds l, w)], deferreds := Suc (deferreds l)\<rparr>
      in if isRunning l then l1 else run_queue (taskQueue l1) (l1\<lparr>isRunning := True\<rparr>))"

text \<open>The promise of \<open>task.work()\<close> settles; the loop resumes; the callback of \<open>finally\<close> runs.\<close>

definition work_ends :: "bool \<Rightarrow> 'w limiter \<Rightarrow> 'w limiter option" where
  "work_ends ok l =
     (case loop l of Working n w \<Rightarrow> Some (l\<lparr>loop := Finished n ok\<rparr>) | _ \<Rightarrow> None)"

definition loop_resumes :: "'w limiter \<Rightarrow> 'w limiter option" where
  "loop_resumes l =
     (case loop l of
        Finished n ok \<Rightarrow>
          Some (run_queue (taskQueue l) (log_effect (if ok then DeferredResolved n else DeferredRejected n) l))
      | _ \<Rightarrow> None)"

definition finally_runs :: "'w limiter \<Rightarrow> 'w limiter option" where
  "finally_runs l =
     (case loop l of Returned \<Rightarrow> Some (l\<lparr>isRunning := False, loop := Stopped\<rparr>) | _ \<Rightarrow> None)"

datatype 'w limiter_event = ScheduleWork 'w | WorkEnds bool | LoopResumes | FinallyRuns

fun limiter_step :: "'w limiter_event \<Rightarrow> 'w limiter \<Rightarrow> 'w limiter option" where
  "limiter_step (ScheduleWork w) l = Some (schedule_work w l)"
| "limiter_step (WorkEnds ok) l = work_ends ok l"
| "limiter_step LoopResumes l = loop_resumes l"
| "limiter_step FinallyRuns l = finally_runs l"

fun limiter_run :: "'w limiter_event list \<Rightarrow> 'w limiter \<Rightarrow> 'w limiter option" where
  "limiter_run [] l = Some l"
| "limiter_run (e # es) l =
     (case limiter_step e l of None \<Rightarrow> None | Some l' \<Rightarrow> limiter_run es l')"

subsection \<open>Observations\<close>

definition started :: "'w limiter \<Rightarrow> 'w list" where
  "started l = concat (map (\<lambda>e. case e of WorkStarted w \<Rightarrow> [w] | _ \<Rightarrow> []) (limiter_effects l))"

definition settled :: "'w limiter \<Rightarrow> nat list" where
  "settled l =
     concat (map (\<lambda>e. case e of WorkStarted w \<Rightarrow> [] | DeferredResolved n \<Rightarrow> [n] | DeferredRejected n \<Rightarrow> [n])
       (limiter_effects l))"

fun scheduled :: "'w limiter_event list \<Rightarrow> 'w list" where
  "scheduled [] = []"
| "scheduled (ScheduleWork w # es) = w # scheduled es"
| "scheduled (_ # es) = scheduled es"

definition current :: "'w limiter \<Rightarrow> nat list" where
  "current l = (case loop l of Working n w \<Rightarrow> [n] | Finished n ok \<Rightarrow> [n] | _ \<Rightarrow> [])"

lemma log_effect_simps [limiter_simps, simp]:
  "taskQueue (log_effect e l) = taskQueue l" "isRunning (log_effect e l) = isRunning l"
  "loop (log_effect e l) = loop l" "deferreds (log_effect e l) = deferreds l"
  "limiter_effects (log_effect e l) = limiter_effects l @ [e]"
  by (simp_all add: log_effect_def)

lemma run_queue_simps [limiter_simps, simp]:
  "taskQueue (run_queue q l) = []" "isRunning (run_queue q l) = isRunning l"
  "deferreds (run_queue q l) = deferreds l"
  by (induction q l rule: run_queue.induct) simp_all

lemma run_queue_loop [limiter_simps]:
  "loop (run_queue q l) = (if q = [] then Returned else (case last q of (n, w) \<Rightarrow> Working n w))"
  by (induction q l rule: run_queue.induct) simp_all

lemma run_queue_started [limiter_simps]:
  "started (run_queue q l) = started l @ (if q = [] then [] else [snd (last q)])"
  by (induction q l rule: run_queue.induct) (simp_all add: started_def log_effect_def)

lemma run_queue_settled [limiter_simps]:
  "settled (run_queue q l) = settled l @ map fst (butlast q)"
  by (induction q l rule: run_queue.induct) (simp_all add: settled_def log_effect_def)

lemma run_queue_current: "current (run_queue q l) = (if q = [] then [] else [fst (last q)])"
  by (simp add: current_def run_queue_loop split: prod.split)

lemma settled_log [limiter_simps]:
  "settled (log_effect (DeferredResolved n) l) = settled l @ [n]"
  "settled (log_effect (DeferredRejected n) l) = settled l @ [n]"
  "started (log_effect (DeferredResolved n) l) = started l"
  "started (log_effect (DeferredRejected n) l) = started l"
  by (simp_all add: settled_def started_def)

lemma observation_cong [limiter_simps]:
  "limiter_effects l = limiter_effects l' \<Longrightarrow> started l = started l' \<and> settled l = settled l'"
  by (simp add: started_def settled_def)

lemma limiter_run_append:
  "limiter_run (es @ fs) l =
     (case limiter_run es l of None \<Rightarrow> None | Some l' \<Rightarrow> limiter_run fs l')"
  by (induction es arbitrary: l) (auto split: option.split)

lemma scheduled_append [simp]: "scheduled (es @ fs) = scheduled es @ scheduled fs"
  by (induction es rule: scheduled.induct) simp_all

subsection \<open>The invariant\<close>

text \<open>
  The flag says whether a call of \<open>runTaskQueue\<close> is out; the promises that are settled, the one in work and
  those that wait are all the promises there are, each once, in the order in which they were made.
\<close>

definition limiter_ok :: "'w limiter \<Rightarrow> bool" where
  "limiter_ok l \<longleftrightarrow>
     (isRunning l \<longleftrightarrow> loop l \<noteq> Stopped) \<and>
     settled l @ current l @ map fst (taskQueue l) = [0..<deferreds l]"

lemma limiter_ok_new: "limiter_ok new_limiter"
  by (simp add: limiter_ok_def new_limiter_def settled_def current_def)

lemma queue_split:
  assumes "q \<noteq> []"
  shows "map fst (butlast q) @ [fst (last q)] = map fst q"
  using assms by (metis append_butlast_last_id list.simps(8) list.simps(9) map_append)

lemma limiter_ok_run_queue:
  assumes "isRunning l" and "settled l @ map fst q = [0..<deferreds l]"
  shows "limiter_ok (run_queue q l)"
  using assms queue_split [of q]
  by (auto simp: limiter_ok_def run_queue_loop run_queue_settled run_queue_current split: prod.split)

lemma limiter_ok_step:
  assumes "limiter_ok l" and "limiter_step e l = Some l'"
  shows "limiter_ok l'"
proof (cases e)
  case (ScheduleWork w)
  let ?l1 = "l\<lparr>taskQueue := taskQueue l @ [(deferreds l, w)], deferreds := Suc (deferreds l)\<rparr>"
  have eff: "settled (?l1\<lparr>isRunning := True\<rparr>) = settled l" "settled ?l1 = settled l" "current ?l1 = current l"
    by (simp_all add: settled_def current_def)
  have all: "settled l @ current l @ map fst (taskQueue ?l1) = [0..<deferreds ?l1]"
    using assms(1) by (simp add: limiter_ok_def)
  show ?thesis
  proof (cases "isRunning l")
    case True
    then have l': "l' = ?l1" using assms(2) by (simp add: ScheduleWork schedule_work_def)
    show ?thesis unfolding l' using assms(1) all eff by (simp add: limiter_ok_def)
  next
    case False
    then have "current l = []" using assms(1) by (simp add: limiter_ok_def current_def)
    then have "limiter_ok (run_queue (taskQueue ?l1) (?l1\<lparr>isRunning := True\<rparr>))"
      by (intro limiter_ok_run_queue) (use all eff in auto)
    with False assms(2) show ?thesis by (simp add: ScheduleWork schedule_work_def)
  qed
next
  case (WorkEnds ok)
  with assms show ?thesis
    by (cases "loop l") (auto simp: work_ends_def limiter_ok_def current_def settled_def)
next
  case LoopResumes
  with assms(2) obtain n ok where lo: "loop l = Finished n ok"
    and l': "l' = run_queue (taskQueue l) (log_effect (if ok then DeferredResolved n else DeferredRejected n) l)"
    by (auto simp: loop_resumes_def split: loop.splits)
  show ?thesis unfolding l'
    by (rule limiter_ok_run_queue)
      (use assms(1) lo in \<open>auto simp: limiter_ok_def current_def settled_log\<close>)
next
  case FinallyRuns
  with assms show ?thesis
    by (cases "loop l") (auto simp: finally_runs_def limiter_ok_def current_def settled_def)
qed

lemma limiter_ok_run: "limiter_ok l \<Longrightarrow> limiter_run es l = Some l' \<Longrightarrow> limiter_ok l'"
  by (induction es arbitrary: l) (auto split: option.splits dest: limiter_ok_step)

subsection \<open>The latest task is run\<close>

text \<open>No task is scheduled between the end of the loop and the callback of \<open>finally\<close>.\<close>

fun outside_window :: "'w limiter_event list \<Rightarrow> 'w limiter \<Rightarrow> bool" where
  "outside_window [] l = True"
| "outside_window (e # es) l =
     ((case e of ScheduleWork w \<Rightarrow> (case loop l of Returned \<Rightarrow> False | _ \<Rightarrow> True) | _ \<Rightarrow> True) \<and>
      (case limiter_step e l of None \<Rightarrow> True | Some l' \<Rightarrow> outside_window es l'))"

text \<open>How many events are left until the limiter is quiet when nothing more is scheduled.\<close>

definition events_left :: "'w limiter \<Rightarrow> nat" where
  "events_left l =
     (case loop l of
        Stopped \<Rightarrow> 0
      | Returned \<Rightarrow> 1
      | Finished n ok \<Rightarrow> (if taskQueue l = [] then 2 else 4)
      | Working n w \<Rightarrow> (if taskQueue l = [] then 3 else 5))"

lemma events_left_bound: "events_left l \<le> 5"
  by (simp add: events_left_def split: loop.split)

lemma events_left_step:
  assumes "limiter_step e l = Some l'" and "scheduled [e] = []"
  shows "events_left l = Suc (events_left l')"
  using assms
  by (cases e)
    (auto simp: work_ends_def loop_resumes_def finally_runs_def events_left_def run_queue_loop
      split: loop.splits prod.splits if_splits)

lemma scheduled_Cons: "scheduled (e # es) = scheduled [e] @ scheduled es"
  by (cases e) simp_all

lemma events_left_run:
  "limiter_run es l = Some l' \<Longrightarrow> scheduled es = [] \<Longrightarrow> events_left l = length es + events_left l'"
proof (induction es arbitrary: l)
  case (Cons e es)
  then obtain l1 where "limiter_step e l = Some l1" "limiter_run es l1 = Some l'"
    by (auto split: option.splits)
  moreover have "scheduled [e] = []" "scheduled es = []"
    using Cons.prems(2) scheduled_Cons [of e es] by auto
  ultimately show ?case using Cons.IH [of l1] events_left_step [of e l l1] by simp
qed simp

lemma quiet_or_step:
  "events_left l = 0 \<longleftrightarrow> loop l = Stopped"
  "events_left l \<noteq> 0 \<Longrightarrow> \<exists>e l'. scheduled [e] = [] \<and> limiter_step e l = Some l'"
proof -
  show "events_left l = 0 \<longleftrightarrow> loop l = Stopped" by (simp add: events_left_def split: loop.split)
  assume "events_left l \<noteq> 0"
  then have "loop l \<noteq> Stopped" by (auto simp: events_left_def)
  then consider n w where "loop l = Working n w" | n ok where "loop l = Finished n ok" | "loop l = Returned"
    by (cases "loop l") auto
  then show "\<exists>e l'. scheduled [e] = [] \<and> limiter_step e l = Some l'"
  proof cases
    case 1
    then show ?thesis by (intro exI [of _ "WorkEnds True"]) (simp add: work_ends_def)
  next
    case 2
    then show ?thesis by (intro exI [of _ LoopResumes]) (simp add: loop_resumes_def)
  next
    case 3
    then show ?thesis by (intro exI [of _ FinallyRuns]) (simp add: finally_runs_def)
  qed
qed

text \<open>The tasks that have been started or wait, against those that were scheduled.\<close>

definition keeps_latest :: "'w list \<Rightarrow> 'w limiter \<Rightarrow> bool" where
  "keeps_latest ws l \<longleftrightarrow>
     subseq (started l @ map snd (taskQueue l)) ws \<and>
     (ws \<noteq> [] \<longrightarrow> started l @ map snd (taskQueue l) \<noteq> [] \<and> last (started l @ map snd (taskQueue l)) = last ws) \<and>
     (taskQueue l \<noteq> [] \<longrightarrow> (\<exists>n w. loop l = Working n w) \<or> (\<exists>n ok. loop l = Finished n ok))"

lemma subseq_last: "q \<noteq> [] \<Longrightarrow> subseq (xs @ [last q]) (xs @ q)"
  by (metis append_butlast_last_id list_emb_append2 subseq_append' subseq_order.refl)

lemma keeps_latest_run_queue:
  assumes "subseq (started l @ map snd q) ws" and "q \<noteq> [] \<Longrightarrow> last (map snd q) = last ws"
    and "q = [] \<Longrightarrow> ws \<noteq> [] \<Longrightarrow> started l \<noteq> [] \<and> last (started l) = last ws"
  shows "keeps_latest ws (run_queue q l)"
proof -
  have "subseq (started l @ [last (map snd q)]) ws" if "q \<noteq> []"
    using subseq_order.trans [OF subseq_last assms(1)] that by simp
  with assms show ?thesis by (auto simp: keeps_latest_def run_queue_started last_map)
qed

lemma keeps_latest_schedule:
  assumes k: "keeps_latest ws l" and "limiter_ok l" and "loop l \<noteq> Returned"
  shows "keeps_latest (ws @ [w]) (schedule_work w l)"
proof (cases "isRunning l")
  case True
  have "started (l\<lparr>taskQueue := q, deferreds := d\<rparr>) = started l" for q d by (simp add: started_def)
  moreover have "loop l \<noteq> Stopped" using True assms(2) by (simp add: limiter_ok_def)
  ultimately show ?thesis using k True assms(3)
    by (cases "loop l") (auto simp: keeps_latest_def schedule_work_def simp flip: append_assoc)
next
  case False
  then have "loop l = Stopped" using assms(2) by (simp add: limiter_ok_def)
  then have q: "taskQueue l = []" using k by (auto simp: keeps_latest_def)
  let ?l1 = "l\<lparr>taskQueue := [(deferreds l, w)], deferreds := Suc (deferreds l), isRunning := True\<rparr>"
  have st: "started ?l1 = started l" by (simp add: started_def)
  have "keeps_latest (ws @ [w]) (run_queue [(deferreds l, w)] ?l1)"
  proof (rule keeps_latest_run_queue)
    show "subseq (started ?l1 @ map snd [(deferreds l, w)]) (ws @ [w])"
      unfolding st using k q by (simp add: keeps_latest_def list_emb_append_mono)
  qed simp_all
  then show ?thesis using False q by (simp add: schedule_work_def)
qed

lemma keeps_latest_step:
  assumes k: "keeps_latest ws l" and ok: "limiter_ok l" and step: "limiter_step e l = Some l'"
    and w: "case e of ScheduleWork w \<Rightarrow> loop l \<noteq> Returned | _ \<Rightarrow> True"
  shows "keeps_latest (ws @ scheduled [e]) l'"
proof (cases e)
  case (ScheduleWork v)
  with step have l': "l' = schedule_work v l" by simp
  show ?thesis unfolding l' ScheduleWork
    using keeps_latest_schedule [OF k ok] w by (simp add: ScheduleWork)
next
  case (WorkEnds b)
  with step k show ?thesis
    by (cases "loop l") (auto simp: work_ends_def keeps_latest_def started_def)
next
  case LoopResumes
  with step obtain n b where "loop l = Finished n b"
    and l': "l' = run_queue (taskQueue l) (log_effect (if b then DeferredResolved n else DeferredRejected n) l)"
    by (auto simp: loop_resumes_def split: loop.splits)
  let ?l0 = "log_effect (if b then DeferredResolved n else DeferredRejected n) l"
  have st: "started ?l0 = started l" by (simp add: settled_log)
  have "keeps_latest ws (run_queue (taskQueue l) ?l0)"
    by (rule keeps_latest_run_queue) (use k st in \<open>auto simp: keeps_latest_def last_append\<close>)
  then show ?thesis by (simp add: l' LoopResumes)
next
  case FinallyRuns
  with step k show ?thesis
    by (cases "loop l") (auto simp: finally_runs_def keeps_latest_def started_def)
qed

lemma keeps_latest_run:
  "keeps_latest ws l \<Longrightarrow> limiter_ok l \<Longrightarrow> limiter_run es l = Some l' \<Longrightarrow> outside_window es l \<Longrightarrow>
   keeps_latest (ws @ scheduled es) l'"
proof (induction es arbitrary: ws l)
  case (Cons e es)
  then obtain l1 where s: "limiter_step e l = Some l1" "limiter_run es l1 = Some l'"
    by (auto split: option.splits)
  have w: "case e of ScheduleWork w \<Rightarrow> loop l \<noteq> Returned | _ \<Rightarrow> True" and o: "outside_window es l1"
    using Cons.prems(4) s by (auto split: limiter_event.splits loop.splits)
  from Cons.IH [OF keeps_latest_step [OF Cons.prems(1,2) s(1) w] limiter_ok_step [OF Cons.prems(2) s(1)] s(2) o]
  show ?case by (simp only: append_assoc scheduled_Cons [symmetric])
qed simp

text \<open>
  Unless a task is scheduled in the window between the end of the loop and the callback of \<open>finally\<close>: the
  started tasks are a subsequence of the scheduled ones, the limiter is quiet after at most five events
  from the last schedule, whatever the tasks do, and then the latest task has been run.
\<close>

theorem latest_task_runs:
  assumes "limiter_run (es @ fs) new_limiter = Some l" and "outside_window (es @ fs) new_limiter"
    and "scheduled es \<noteq> []" and "scheduled fs = []"
  shows "subseq (started l) (scheduled es) \<and> length fs \<le> 5 \<and>
    (loop l = Stopped \<longrightarrow> started l \<noteq> [] \<and> last (started l) = last (scheduled es)) \<and>
    (loop l = Stopped \<or> (\<exists>e l'. scheduled [e] = [] \<and> limiter_step e l = Some l'))"
proof -
  obtain l0 where l0: "limiter_run es new_limiter = Some l0" "limiter_run fs l0 = Some l"
    using assms(1) by (auto simp: limiter_run_append split: option.splits)
  have "keeps_latest [] new_limiter" by (simp add: keeps_latest_def new_limiter_def started_def)
  from keeps_latest_run [OF this limiter_ok_new assms(1,2)]
  have k: "keeps_latest (scheduled es) l" using assms(4) by simp
  have "length fs \<le> 5" using events_left_run [OF l0(2) assms(4)] events_left_bound [of l0] by simp
  moreover have "subseq (started l) (scheduled es)"
    using k by (auto simp: keeps_latest_def intro: subseq_order.trans [OF subseq_rev_drop_many [OF subseq_order.refl]])
  moreover have "loop l = Stopped \<longrightarrow> started l \<noteq> [] \<and> last (started l) = last (scheduled es)"
    using k assms(3) by (auto simp: keeps_latest_def)
  ultimately show ?thesis using quiet_or_step [of l] by blast
qed

definition three_tasks :: "string limiter_event list" where
  "three_tasks = [ScheduleWork ''a'', ScheduleWork ''b'', ScheduleWork ''c'']"

definition their_ends :: "string limiter_event list" where
  "their_ends = [WorkEnds False, LoopResumes, WorkEnds True, LoopResumes, FinallyRuns]"

lemma latest_task_runs_witness:
  "\<exists>l. limiter_run (three_tasks @ their_ends) new_limiter = Some l \<and> loop l = Stopped \<and> last (started l) = ''c''"
proof -
  have "Option.is_none (limiter_run (three_tasks @ their_ends) new_limiter) = False" by code_simp
  then obtain l where l: "limiter_run (three_tasks @ their_ends) new_limiter = Some l" by (auto simp: Option.is_none_def)
  have out: "outside_window (three_tasks @ their_ends) new_limiter" by code_simp
  have "scheduled three_tasks = [''a'', ''b'', ''c'']" "scheduled their_ends = []" by code_simp+
  moreover have "map_option loop (limiter_run (three_tasks @ their_ends) new_limiter) = Some Stopped" by code_simp
  ultimately show ?thesis using latest_task_runs [OF l out] l by simp
qed

subsection \<open>A task that is lost\<close>

text \<open>
  A task that is scheduled in the window waits in the queue of a limiter that is not running, until the
  next \<open>schedule\<close>, which discards it. The promise of the task before it has been resolved when the window
  opens, so a caller that awaits that promise and then schedules is in the window.
\<close>

lemma schedule_in_window:
  assumes "loop l = Returned" and "limiter_ok l" and "limiter_run (ScheduleWork w # es) l = Some l'"
    and "scheduled es = []"
  shows "started l' = started l \<and> deferreds l \<notin> set (settled l') \<and>
    (es \<noteq> [] \<longrightarrow> loop l' = Stopped \<and> \<not> isRunning l' \<and> (deferreds l, w) \<in> set (taskQueue l'))"
proof -
  let ?l1 = "l\<lparr>taskQueue := taskQueue l @ [(deferreds l, w)], deferreds := Suc (deferreds l)\<rparr>"
  have run: "isRunning l" using assms(1,2) by (simp add: limiter_ok_def)
  have l1: "limiter_run es ?l1 = Some l'" using assms(3) run by (simp add: schedule_work_def)
  have "settled l @ map fst (taskQueue l) = [0..<deferreds l]"
    using assms(1,2) by (simp add: limiter_ok_def current_def)
  then have fresh: "deferreds l \<notin> set (settled l)"
    by (metis UnI1 atLeastLessThan_iff less_irrefl set_append set_upt)
  show ?thesis
  proof (cases es)
    case Nil
    have "started ?l1 = started l" "settled ?l1 = settled l" by (simp_all add: started_def settled_def)
    with l1 fresh show ?thesis by (auto simp: Nil)
  next
    case (Cons e es')
    then obtain l2 where l2: "limiter_step e ?l1 = Some l2" "limiter_run es' l2 = Some l'"
      using l1 by (auto split: option.splits)
    then have l2': "l2 = ?l1\<lparr>isRunning := False, loop := Stopped\<rparr>"
      using assms(1,4) scheduled_Cons [of e es']
      by (cases e) (auto simp: Cons work_ends_def loop_resumes_def finally_runs_def)
    have "events_left l2 = 0" by (simp add: l2' events_left_def)
    moreover have "scheduled es' = []" using assms(4) scheduled_Cons [of e es'] by (simp add: Cons)
    ultimately have "es' = []" using events_left_run [OF l2(2)] by simp
    then have l': "l' = l2" using l2(2) by simp
    have "started l2 = started l" "settled l2 = settled l" by (simp_all add: l2' started_def settled_def)
    with fresh show ?thesis by (auto simp: l' l2')
  qed
qed

text \<open>
  Awaiting a task and then scheduling the next one loses the next one: from a quiet limiter, run a task to
  its end and schedule another once the first promise is resolved. The second is not started, its
  promise is not settled, nothing is left to happen; and when a third is scheduled the promise of the
  second resolves though it has never run.
\<close>

text \<open>
  C25. A task that is scheduled by code that has just awaited the previous one is lost: the loop has ended but the
  limiter still counts as running, so the task is queued and nothing starts it; when another task is scheduled
  later, that one runs instead.
\<close>

theorem awaited_then_scheduled_is_lost:
  assumes "limiter_ok l" and "loop l = Stopped" and "taskQueue l = []"
  shows "\<exists>l1 l2 l3. limiter_run [ScheduleWork a, WorkEnds ok, LoopResumes] l = Some l1 \<and>
      deferreds l \<in> set (settled l1) \<and>
      limiter_run [ScheduleWork b, FinallyRuns] l1 = Some l2 \<and>
      started l2 = started l @ [a] \<and> deferreds l1 \<notin> set (settled l2) \<and>
      (\<forall>e l'. limiter_step e l2 = Some l' \<longrightarrow> scheduled [e] \<noteq> []) \<and>
      limiter_step (ScheduleWork c) l2 = Some l3 \<and>
      started l3 = started l @ [a, c] \<and> deferreds l1 \<in> set (settled l3)"
proof -
  let ?l0 = "schedule_work a l"
  let ?l1 = "log_effect (if ok then DeferredResolved (deferreds l) else DeferredRejected (deferreds l))
    (?l0\<lparr>loop := Returned\<rparr>)"
  let ?q = "[(Suc (deferreds l), b)]"
  let ?l2 = "?l1\<lparr>taskQueue := ?q, deferreds := Suc (Suc (deferreds l)), isRunning := False, loop := Stopped\<rparr>"
  have idle: "\<not> isRunning l" using assms(1,2) by (simp add: limiter_ok_def)
  have l0: "?l0 = log_effect (WorkStarted a)
      (l\<lparr>taskQueue := [], deferreds := Suc (deferreds l), isRunning := True, loop := Working (deferreds l) a\<rparr>)"
    using idle assms(3) by (simp add: schedule_work_def)
  have r1: "limiter_run [ScheduleWork a, WorkEnds ok, LoopResumes] l = Some ?l1"
    unfolding l0 limiter_run.simps limiter_step.simps
    by (simp add: l0 work_ends_def loop_resumes_def log_effect_def)
  have r2: "limiter_run [ScheduleWork b, FinallyRuns] ?l1 = Some ?l2"
    by (simp add: idle assms(3) schedule_work_def finally_runs_def log_effect_def)
  have st: "started ?l1 = started l @ [a]" "started ?l2 = started ?l1"
    "deferreds l \<in> set (settled ?l1)" "settled ?l2 = settled ?l1"
    by (simp_all add: idle assms(3) schedule_work_def started_def settled_def log_effect_def)
  have q: "limiter_step (ScheduleWork c) ?l2 = Some (schedule_work c ?l2)" by simp
  have st3: "started (schedule_work c ?l2) = started l @ [a, c]"
    "Suc (deferreds l) \<in> set (settled (schedule_work c ?l2))"
    by (simp_all add: idle assms(3) schedule_work_def started_def settled_def log_effect_def)
  have ok1: "limiter_ok ?l1" by (rule limiter_ok_run [OF assms(1) r1])
  have d1: "deferreds ?l1 = Suc (deferreds l)" by (simp add: schedule_work_def idle assms(3))
  have lost: "deferreds ?l1 \<notin> set (settled ?l2)"
  proof -
    have "loop ?l1 = Returned" "scheduled [FinallyRuns] = []" by simp_all
    then show ?thesis using schedule_in_window [OF _ ok1 r2] by blast
  qed
  have quiet: "\<forall>e l'. limiter_step e ?l2 = Some l' \<longrightarrow> scheduled [e] \<noteq> []"
  proof (intro allI impI)
    fix e l'
    assume "limiter_step e ?l2 = Some l'"
    then show "scheduled [e] \<noteq> []"
      by (cases e) (auto simp: work_ends_def loop_resumes_def finally_runs_def)
  qed
  show ?thesis
    by (intro exI [of _ ?l1] exI [of _ ?l2] exI [of _ "schedule_work c ?l2"] conjI r1 r2 q quiet lost st(3))
      (simp_all only: st st3 d1)
qed

lemma awaited_then_scheduled_is_lost_witness:
  "\<exists>l1 l2 l3. limiter_run [ScheduleWork ''a'', WorkEnds True, LoopResumes] new_limiter = Some l1 \<and>
      deferreds (new_limiter :: string limiter) \<in> set (settled l1) \<and>
      limiter_run [ScheduleWork ''b'', FinallyRuns] l1 = Some l2 \<and>
      started l2 = started new_limiter @ [''a''] \<and> deferreds l1 \<notin> set (settled l2) \<and>
      (\<forall>e l'. limiter_step e l2 = Some l' \<longrightarrow> scheduled [e] \<noteq> []) \<and>
      limiter_step (ScheduleWork ''c'') l2 = Some l3 \<and>
      started l3 = started new_limiter @ [''a'', ''c''] \<and> deferreds l1 \<in> set (settled l3)"
  by (rule awaited_then_scheduled_is_lost [OF limiter_ok_new]) (simp_all add: new_limiter_def)

end
