(* ===== verification/Proto_Ring_Buffer.thy ===== *)
theory Proto_Ring_Buffer
  imports Prelude
begin

text \<open>
  The stream tokenizer of the trace-processor RPC and of the tracing protocol,
  \<^verbatim>\<open>ui/src/trace_processor/proto_ring_buffer.ts\<close>: the class \<open>ProtoRingBuffer\<close> as a record, its
  methods as state-passing functions, and the loop in which every caller consumes it.
\<close>

subsection \<open>Constants, state and errors\<close>

definition kGrowBytes :: nat where
  "kGrowBytes = 128 * 1024"

definition kMaxMsgSize :: nat where
  "kMaxMsgSize = 1024 * 1024 * 1024"

datatype tokenization_mode = PROTO_PREAMBLE | FIXED_SIZE

record ring_buffer =
  rb_mode :: tokenization_mode
  rb_buf :: bytes
  rb_fastpath :: "bytes option"
  rb_rd :: nat
  rb_wr :: nat

definition new_ring_buffer :: "tokenization_mode \<Rightarrow> ring_buffer" where
  "new_ring_buffer m =
     \<lparr>rb_mode = m, rb_buf = replicate kGrowBytes 0, rb_fastpath = None, rb_rd = 0, rb_wr = 0\<rparr>"

datatype framing_error =
    RbAssert
  | RbRange
  | UnexpectedTag byte nat
  | MessageTooLarge int

subsection \<open>\<open>tryReadMessage\<close>\<close>

text \<open>
  The varint loop. \<open>len |= ((val & 0x7f) << shift) >>> 0\<close> works on 32-bit values with the shift
  count taken modulo 32, and leaves a signed 32-bit number in \<open>len\<close>: the accumulator is a
  \<open>32 word\<close> that is read with \<open>sint\<close> afterwards.
\<close>

definition varint_acc :: "nat \<Rightarrow> u32 \<Rightarrow> byte \<Rightarrow> u32" where
  "varint_acc shift len val = len OR push_bit (shift mod 32) (ucast (val AND 0x7f))"

function read_varint :: "bytes \<Rightarrow> nat \<Rightarrow> nat \<Rightarrow> nat \<Rightarrow> u32 \<Rightarrow> (nat \<times> u32) option" where
  "read_varint data pos dataEnd shift len =
     (if pos \<ge> dataEnd then None
      else if data ! pos < 0x80 then Some (Suc pos, varint_acc shift len (data ! pos))
      else read_varint data (Suc pos) dataEnd (shift + 7) (varint_acc shift len (data ! pos)))"
  by pat_completeness auto
termination
  by (relation "measure (\<lambda>(data, pos, dataEnd, shift, len). dataEnd - pos)") auto

definition fixed_acc :: "nat \<Rightarrow> u32 \<Rightarrow> byte \<Rightarrow> u32" where
  "fixed_acc i len val = len OR push_bit (i * 8) (ucast (val AND 0xff))"

function read_fixed :: "bytes \<Rightarrow> nat \<Rightarrow> nat \<Rightarrow> nat \<Rightarrow> u32 \<Rightarrow> (nat \<times> u32) option" where
  "read_fixed data pos dataEnd i len =
     (if i < 4
      then if pos \<ge> dataEnd then None
           else read_fixed data (Suc pos) dataEnd (Suc i)
                  (fixed_acc i len (data ! pos))
      else Some (pos, len))"
  by pat_completeness auto
termination
  by (relation "measure (\<lambda>(data, pos, dataEnd, i, len). 4 - i)") auto

declare read_varint.simps [simp del] read_fixed.simps [simp del]

text \<open>
  \<open>data.subarray(pos, end)\<close> as offset and length inside \<open>data\<close>; a negative \<open>end\<close> counts from the
  end of the array, as in the language.
\<close>

definition subarray :: "nat \<Rightarrow> nat \<Rightarrow> int \<Rightarrow> nat \<times> nat" where
  "subarray n b e =
     (let b' = min b n;
          e' = (if e < 0 then nat (max 0 (int n + e)) else min (nat e) n)
      in (b', e' - b'))"

definition finish_message :: "bytes \<Rightarrow> nat \<Rightarrow> nat \<Rightarrow> u32 \<Rightarrow> framing_error + (nat \<times> nat) option" where
  "finish_message data dataEnd pos len =
     (if sint len \<ge> int kMaxMsgSize then Inl (MessageTooLarge (sint len))
      else let end = int pos + sint len
           in if end > int dataEnd then Inr None
              else Inr (Some (subarray (length data) pos end)))"

definition tryReadMessage ::
  "tokenization_mode \<Rightarrow> bytes \<Rightarrow> nat \<Rightarrow> nat \<Rightarrow> framing_error + (nat \<times> nat) option" where
  "tryReadMessage mode data dataStart dataEnd =
     (if \<not> dataEnd \<le> length data then Inl RbAssert
      else if dataStart \<ge> dataEnd then Inr None
      else (case mode of
        PROTO_PREAMBLE \<Rightarrow>
          (let tag = data ! dataStart
           in if tag \<ge> 0x80 \<or> tag AND 0x07 \<noteq> 2 then Inl (UnexpectedTag tag dataStart)
              else (case read_varint data (Suc dataStart) dataEnd 0 0 of
                      None \<Rightarrow> Inr None
                    | Some (pos, len) \<Rightarrow> finish_message data dataEnd pos len))
      | FIXED_SIZE \<Rightarrow>
          (case read_fixed data dataStart dataEnd 0 0 of
             None \<Rightarrow> Inr None
           | Some (pos, len) \<Rightarrow> finish_message data dataEnd pos len)))"

subsection \<open>\<open>append\<close> and \<open>readMessage\<close>\<close>

function grow_size :: "nat \<Rightarrow> nat \<Rightarrow> nat \<Rightarrow> nat" where
  "grow_size newSize wr dataLen =
     (if dataLen > newSize - wr then grow_size (newSize + kGrowBytes) wr dataLen else newSize)"
  by pat_completeness auto
termination
  by (relation "measure (\<lambda>(newSize, wr, dataLen). wr + dataLen - newSize)")
    (auto simp: kGrowBytes_def)

declare grow_size.simps [simp del]

definition write_at_wr :: "ring_buffer \<Rightarrow> bytes \<Rightarrow> framing_error + ring_buffer" where
  "write_at_wr rb data =
     (case ta_set (rb_buf rb) data (rb_wr rb) of
        Inl _ \<Rightarrow> Inl RbRange
      | Inr b \<Rightarrow> Inr (rb\<lparr>rb_buf := b, rb_wr := rb_wr rb + length data\<rparr>))"

definition append_slow :: "ring_buffer \<Rightarrow> bytes \<Rightarrow> framing_error + ring_buffer" where
  "append_slow rb data =
     (let avail = length (rb_buf rb) - rb_wr rb
      in if length data > avail
         then let rb1 = rb\<lparr>rb_buf := copy_to_front (rb_rd rb) (rb_wr rb) (rb_buf rb),
                           rb_wr := rb_wr rb - rb_rd rb, rb_rd := 0\<rparr>
              in if length data > avail + rb_rd rb
                 then let newSize = grow_size (length (rb_buf rb1)) (rb_wr rb1) (length data)
                      in if newSize \<le> kMaxMsgSize * 2
                         then write_at_wr
                                (rb1\<lparr>rb_buf := rb_buf rb1 @ replicate (newSize - length (rb_buf rb1)) 0\<rparr>)
                                data
                         else Inl RbAssert
                 else write_at_wr rb1 data
         else write_at_wr rb data)"

definition append_data :: "ring_buffer \<Rightarrow> bytes \<Rightarrow> framing_error + ring_buffer" where
  "append_data rb0 data =
     (if \<not> rb_wr rb0 \<le> length (rb_buf rb0) then Inl RbAssert
      else if \<not> rb_rd rb0 \<le> rb_wr rb0 then Inl RbAssert
      else let rb = (if rb_rd rb0 = rb_wr rb0 then rb0\<lparr>rb_rd := 0, rb_wr := 0\<rparr> else rb0)
           in if length data = 0 then Inr rb
              else if rb_fastpath rb \<noteq> None then Inl RbAssert
              else if rb_rd rb = rb_wr rb
              then (case tryReadMessage (rb_mode rb) data 0 (length data) of
                      Inl e \<Rightarrow> Inl e
                    | Inr None \<Rightarrow> append_slow rb data
                    | Inr (Some (b, l)) \<Rightarrow>
                        if b + l = length data
                        then Inr (rb\<lparr>rb_fastpath := Some (seg b (b + l) data)\<rparr>)
                        else append_slow rb data)
              else append_slow rb data)"

definition readMessage :: "ring_buffer \<Rightarrow> framing_error + bytes option \<times> ring_buffer" where
  "readMessage rb =
     (case rb_fastpath rb of
        Some msg \<Rightarrow>
          if rb_rd rb = rb_wr rb then Inr (Some msg, rb\<lparr>rb_fastpath := None\<rparr>) else Inl RbAssert
      | None \<Rightarrow>
          if \<not> rb_rd rb \<le> rb_wr rb then Inl RbAssert
          else if rb_rd rb \<ge> rb_wr rb then Inr (None, rb)
          else (case tryReadMessage (rb_mode rb) (rb_buf rb) (rb_rd rb) (rb_wr rb) of
                 Inl e \<Rightarrow> Inl e
               | Inr None \<Rightarrow> Inr (None, rb)
               | Inr (Some (b, l)) \<Rightarrow>
                   Inr (Some (seg b (b + l) (rb_buf rb)), rb\<lparr>rb_rd := b + l\<rparr>)))"

subsection \<open>The read loop of the callers\<close>

text \<open>
  Every client calls \<open>readMessage\<close> in a loop until it returns \<open>undefined\<close>. The loop yields the
  messages read and either the buffer left behind or the error that ended it.
\<close>

lemma subarray_fst: "fst (subarray n b e) = min b n"
  by (simp add: subarray_def Let_def)

lemma read_varint_pos: "read_varint data pos e s l = Some (p, l') \<Longrightarrow> pos < p \<and> p \<le> e"
proof (induction data pos e s l rule: read_varint.induct)
  case (1 data pos e s l)
  then show ?case
    by (auto simp: read_varint.simps [of data pos e s l] Let_def split: if_splits)
qed

lemma read_fixed_pos:
  "read_fixed data pos e i l = Some (p, l') \<Longrightarrow> pos \<le> e \<Longrightarrow>
    p = pos + (4 - i) \<and> p \<le> e"
proof (induction data pos e i l rule: read_fixed.induct)
  case (1 data pos e i l)
  then show ?case
    by (auto simp: read_fixed.simps [of data pos e i l] split: if_splits)
qed

lemma finish_message_pos:
  assumes "finish_message data e pos l = Inr (Some (b, n))" and "pos \<le> e" and "e \<le> length data"
  shows "b = pos"
  using assms subarray_fst [of "length data" pos "int pos + sint l"]
  by (auto simp: finish_message_def Let_def split: if_splits)

lemma tryReadMessage_progress:
  assumes "tryReadMessage m data s e = Inr (Some (b, n))"
  shows "s < b"
proof (cases m)
  case PROTO_PREAMBLE
  with assms show ?thesis
    by (auto simp: tryReadMessage_def Let_def split: if_splits option.splits
        dest!: read_varint_pos finish_message_pos)
next
  case FIXED_SIZE
  with assms show ?thesis
    by (auto simp: tryReadMessage_def Let_def split: if_splits option.splits
        dest!: read_fixed_pos finish_message_pos)
qed

function drain :: "ring_buffer \<Rightarrow> bytes list \<times> (framing_error + ring_buffer)" where
  "drain rb =
     (case readMessage rb of
        Inl e \<Rightarrow> ([], Inl e)
      | Inr (None, rb') \<Rightarrow> ([], Inr rb')
      | Inr (Some msg, rb') \<Rightarrow> (case drain rb' of (ms, r) \<Rightarrow> (msg # ms, r)))"
  by pat_completeness auto
termination
proof (relation "measure (\<lambda>rb. (rb_wr rb - rb_rd rb) + (if rb_fastpath rb = None then 0 else 1))",
    goal_cases)
  case 1
  show ?case by simp
next
  case (2 rb v p rb' msg)
  then show ?case
    by (auto simp: readMessage_def split: option.splits if_splits sum.splits prod.splits
        dest!: tryReadMessage_progress)
qed

declare drain.simps [simp del]

fun feed :: "ring_buffer \<Rightarrow> bytes list \<Rightarrow> bytes list \<times> (framing_error + ring_buffer)" where
  "feed rb [] = ([], Inr rb)"
| "feed rb (c # cs) =
     (case append_data rb c of
        Inl e \<Rightarrow> ([], Inl e)
      | Inr rb1 \<Rightarrow>
          (case drain rb1 of
             (ms, Inl e) \<Rightarrow> (ms, Inl e)
           | (ms, Inr rb2) \<Rightarrow> (case feed rb2 cs of (ms2, r) \<Rightarrow> (ms @ ms2, r))))"

end
