(* ===== verification/Frame_Grammar.thy ===== *)
theory Frame_Grammar
  imports Proto_Ring_Buffer
begin

text \<open>
  The frame grammar that \<^verbatim>\<open>proto_ring_buffer.ts\<close> recognises, stated on byte lists without positions,
  buffers or chunks: the specification that the ring buffer is proved against.
\<close>

subsection \<open>The frame grammar, on byte lists\<close>

text \<open>
  The abstract view of the stream: a frame is a header that gives a size, followed by that many
  bytes. \<open>parse_frame\<close> splits one frame off a list of bytes, \<open>tokens\<close> all of them, with the
  incomplete rest (or \<open>None\<close> when the stream is malformed).
\<close>

fun varint_bytes :: "bytes \<Rightarrow> nat \<Rightarrow> u32 \<Rightarrow> (u32 \<times> bytes) option" where
  "varint_bytes [] s l = None"
| "varint_bytes (v # bs) s l =
     (if v < 0x80 then Some (varint_acc s l v, bs) else varint_bytes bs (s + 7) (varint_acc s l v))"

fun fixed_bytes :: "nat \<Rightarrow> bytes \<Rightarrow> nat \<Rightarrow> u32 \<Rightarrow> (u32 \<times> bytes) option" where
  "fixed_bytes 0 bs i l = Some (l, bs)"
| "fixed_bytes (Suc k) [] i l = None"
| "fixed_bytes (Suc k) (v # bs) i l = fixed_bytes k bs (Suc i) (fixed_acc i l v)"

datatype header_result = NoHeader | BadHeader | Header u32 bytes

definition bad_tag :: "byte \<Rightarrow> bool" where
  "bad_tag tag \<longleftrightarrow> tag \<ge> 0x80 \<or> tag AND 0x07 \<noteq> 2"

fun header_of :: "(u32 \<times> bytes) option \<Rightarrow> header_result" where
  "header_of None = NoHeader"
| "header_of (Some (l, r)) = Header l r"

fun parse_header :: "tokenization_mode \<Rightarrow> bytes \<Rightarrow> header_result" where
  "parse_header PROTO_PREAMBLE [] = NoHeader"
| "parse_header PROTO_PREAMBLE (tag # bs) =
     (if bad_tag tag then BadHeader else header_of (varint_bytes bs 0 0))"
| "parse_header FIXED_SIZE bs = header_of (fixed_bytes 4 bs 0 0)"

datatype frame_result = Incomplete | Malformed | Frame bytes bytes

definition frame_body :: "u32 \<Rightarrow> bytes \<Rightarrow> frame_result" where
  "frame_body l r =
     (if sint l \<ge> int kMaxMsgSize then Malformed
      else if nat (sint l) > length r then Incomplete
      else Frame (take (nat (sint l)) r) (drop (nat (sint l)) r))"

definition parse_frame :: "tokenization_mode \<Rightarrow> bytes \<Rightarrow> frame_result" where
  "parse_frame m bs =
     (case parse_header m bs of
        NoHeader \<Rightarrow> Incomplete | BadHeader \<Rightarrow> Malformed | Header l r \<Rightarrow> frame_body l r)"

definition negative_size :: "tokenization_mode \<Rightarrow> bytes \<Rightarrow> bool" where
  "negative_size m bs \<longleftrightarrow> (case parse_header m bs of Header l r \<Rightarrow> sint l < 0 | _ \<Rightarrow> False)"

lemma varint_bytes_append:
  "varint_bytes bs s l = Some (l', r) \<Longrightarrow> varint_bytes (bs @ x) s l = Some (l', r @ x)"
  by (induction bs s l rule: varint_bytes.induct) (auto split: if_splits)

lemma varint_bytes_length: "varint_bytes bs s l = Some (l', r) \<Longrightarrow> length r < length bs"
  by (induction bs s l rule: varint_bytes.induct) (fastforce split: if_splits)+

lemma fixed_bytes_append:
  "fixed_bytes k bs i l = Some (l', r) \<Longrightarrow> fixed_bytes k (bs @ x) i l = Some (l', r @ x)"
  by (induction k bs i l rule: fixed_bytes.induct) auto

lemma fixed_bytes_length: "fixed_bytes k bs i l = Some (l', r) \<Longrightarrow> length bs = length r + k"
  by (induction k bs i l rule: fixed_bytes.induct) auto

lemma header_of_eq_Header [simp]: "header_of x = Header l r \<longleftrightarrow> x = Some (l, r)"
  by (cases x) auto

lemma header_of_eq_NoHeader [simp]: "header_of x = NoHeader \<longleftrightarrow> x = None"
  by (cases x) auto

lemma header_of_neq_BadHeader [simp]: "header_of x \<noteq> BadHeader"
  by (cases x) auto

lemma parse_header_append:
  "parse_header m bs = Header l r \<Longrightarrow> parse_header m (bs @ x) = Header l (r @ x)"
  "parse_header m bs = BadHeader \<Longrightarrow> parse_header m (bs @ x) = BadHeader"
  by (induction m bs rule: parse_header.induct)
    (auto split: if_splits intro: varint_bytes_append fixed_bytes_append)

lemma parse_header_length: "parse_header m bs = Header l r \<Longrightarrow> length r < length bs"
  by (induction m bs rule: parse_header.induct)
    (auto split: if_splits dest!: varint_bytes_length fixed_bytes_length)

lemma parse_frame_append:
  "parse_frame m bs = Frame p r \<Longrightarrow> parse_frame m (bs @ x) = Frame p (r @ x)"
  "parse_frame m bs = Malformed \<Longrightarrow> parse_frame m (bs @ x) = Malformed"
  by (cases "parse_header m bs";
      simp add: parse_frame_def frame_body_def parse_header_append split: if_splits)+

lemma parse_frame_length: "parse_frame m bs = Frame p r \<Longrightarrow> length p + length r < length bs"
  by (auto simp: parse_frame_def frame_body_def split: header_result.splits if_splits
      dest!: parse_header_length)

function tokens :: "tokenization_mode \<Rightarrow> bytes \<Rightarrow> bytes list \<times> bytes option" where
  "tokens m bs =
     (case parse_frame m bs of
        Incomplete \<Rightarrow> ([], Some bs)
      | Malformed \<Rightarrow> ([], None)
      | Frame p r \<Rightarrow> (case tokens m r of (ps, x) \<Rightarrow> (p # ps, x)))"
  by pat_completeness auto
termination
  by (relation "measure (\<lambda>(m, bs). length bs)") (auto dest: parse_frame_length)

declare tokens.simps [simp del]

function no_negative_size :: "tokenization_mode \<Rightarrow> bytes \<Rightarrow> bool" where
  "no_negative_size m bs =
     (\<not> negative_size m bs \<and>
      (case parse_frame m bs of Frame p r \<Rightarrow> no_negative_size m r | _ \<Rightarrow> True))"
  by pat_completeness auto
termination
  by (relation "measure (\<lambda>(m, bs). length bs)") (auto dest: parse_frame_length)

declare no_negative_size.simps [simp del]

lemma tokens_Frame:
  "parse_frame m bs = Frame p r \<Longrightarrow> tokens m bs = (p # fst (tokens m r), snd (tokens m r))"
  by (subst tokens.simps) (simp split: prod.splits)

lemma tokens_Incomplete [simp]: "parse_frame m bs = Incomplete \<Longrightarrow> tokens m bs = ([], Some bs)"
  by (subst tokens.simps) simp

lemma tokens_Malformed [simp]: "parse_frame m bs = Malformed \<Longrightarrow> tokens m bs = ([], None)"
  by (subst tokens.simps) simp

text \<open>Tokenizing in two steps is tokenizing the whole stream: chunk boundaries do not matter.\<close>

lemma tokens_append:
  "tokens m (a @ b) =
     (case tokens m a of
        (ps, None) \<Rightarrow> (ps, None)
      | (ps, Some r) \<Rightarrow> (ps @ fst (tokens m (r @ b)), snd (tokens m (r @ b))))"
proof (induction m a rule: tokens.induct)
  case (1 m a)
  show ?case
  proof (cases "parse_frame m a")
    case (Frame p r)
    with 1 have "tokens m (r @ b) = (case tokens m r of (ps, None) \<Rightarrow> (ps, None)
      | (ps, Some r') \<Rightarrow> (ps @ fst (tokens m (r' @ b)), snd (tokens m (r' @ b))))" by blast
    with Frame show ?thesis
      by (auto simp: tokens_Frame [OF Frame] tokens_Frame [OF parse_frame_append(1) [OF Frame]]
          split: prod.splits option.splits)
  qed (simp_all add: parse_frame_append)
qed

lemma tokens_rest_Incomplete: "tokens m bs = (ps, Some r) \<Longrightarrow> parse_frame m r = Incomplete"
proof (induction m bs arbitrary: ps rule: tokens.induct)
  case (1 m bs)
  then show ?case
    by (cases "parse_frame m bs") (auto simp: tokens_Frame prod_eq_iff)
qed

lemma negative_size_append:
  "negative_size m a \<Longrightarrow> negative_size m (a @ b)"
  by (cases "parse_header m a") (simp_all add: negative_size_def parse_header_append)

lemma no_negative_size_appendD: "no_negative_size m (a @ b) \<Longrightarrow> no_negative_size m a"
proof (induction m a rule: no_negative_size.induct)
  case (1 m a)
  from "1.prems" have "\<not> negative_size m (a @ b)"
    by (subst (asm) no_negative_size.simps) simp
  then have n: "\<not> negative_size m a" using negative_size_append by blast
  show ?case
  proof (cases "parse_frame m a")
    case (Frame p r)
    with "1.prems" have "no_negative_size m (r @ b)"
      by (subst (asm) no_negative_size.simps) (simp add: parse_frame_append(1) [OF Frame])
    with "1.IH" Frame n have "no_negative_size m r" by blast
    with Frame n show ?thesis by (subst no_negative_size.simps) simp
  qed (subst no_negative_size.simps, simp add: n)+
qed

lemma no_negative_size_rest:
  "no_negative_size m (a @ b) \<Longrightarrow> tokens m a = (ps, Some r) \<Longrightarrow> no_negative_size m (r @ b)"
proof (induction m a arbitrary: ps rule: tokens.induct)
  case (1 m a)
  show ?case
  proof (cases "parse_frame m a")
    case (Frame p q)
    with "1.prems"(1) have "no_negative_size m (q @ b)"
      by (subst (asm) no_negative_size.simps) (simp add: parse_frame_append(1) [OF Frame])
    moreover from Frame "1.prems"(2) have "tokens m q = (tl ps, Some r)"
      by (auto simp: tokens_Frame prod_eq_iff)
    ultimately show ?thesis using "1.IH" Frame by blast
  qed (use "1.prems" in auto)
qed

end
