(* ===== verification/Ring_Buffer_Correct.thy ===== *)
theory Ring_Buffer_Correct
  imports Frame_Grammar
begin

text \<open>
  Correctness of \<open>ProtoRingBuffer\<close>: the positions and the copying inside the buffer implement the
  frame grammar, for every way of cutting the stream into chunks.
\<close>

subsection \<open>The code implements the grammar\<close>

lemma read_varint_bytes:
  "e \<le> length data \<Longrightarrow>
   read_varint data pos e s l =
     (case varint_bytes (seg pos e data) s l of
        None \<Rightarrow> None | Some (l', r) \<Rightarrow> Some (e - length r, l'))"
proof (induction data pos e s l rule: read_varint.induct)
  case (1 data pos e s l)
  show ?case
  proof (cases "pos < e")
    case True
    with 1 show ?thesis
      by (simp add: read_varint.simps [of data pos e s l] seg_Cons)
  next
    case False
    then show ?thesis by (simp add: read_varint.simps [of data pos e s l])
  qed
qed

lemma read_fixed_bytes:
  "e \<le> length data \<Longrightarrow> pos \<le> e \<Longrightarrow>
   read_fixed data pos e i l =
     (case fixed_bytes (4 - i) (seg pos e data) i l of
        None \<Rightarrow> None | Some (l', r) \<Rightarrow> Some (e - length r, l'))"
proof (induction data pos e i l rule: read_fixed.induct)
  case (1 data pos e i l)
  show ?case
  proof (cases "i < 4")
    case True
    then have "4 - i = Suc (4 - Suc i)" by simp
    with 1 True show ?thesis
      by (cases "pos < e") (simp_all add: read_fixed.simps [of data _ e i l] seg_Cons)
  next
    case False
    with 1 show ?thesis by (simp add: read_fixed.simps [of data pos e i l])
  qed
qed

lemma seg_suffix:
  assumes "seg s e data = xs @ r" and "e \<le> length data" and "s \<le> e"
  shows "seg (e - length r) e data = r" and "s + length xs = e - length r"
proof -
  from assms have l: "length xs + length r = e - s"
    by (metis length_append length_seg min_absorb1)
  then show "s + length xs = e - length r" using assms by simp
  from l assms have "s \<le> e - length r" by simp
  then have "seg (e - length r) e data = drop (e - length r - s) (seg s e data)"
    by (rule seg_seg_drop)
  also have "e - length r - s = length xs" using l by simp
  finally show "seg (e - length r) e data = r" by (simp add: assms)
qed

lemma parse_header_suffix: "parse_header m bs = Header l r \<Longrightarrow> \<exists>h. bs = h @ r"
proof -
  have v: "varint_bytes bs s l = Some (l', r) \<Longrightarrow> \<exists>h. bs = h @ r" for bs s l l' r
    by (induction bs s l rule: varint_bytes.induct) (auto split: if_splits)
  have f: "fixed_bytes k bs i l = Some (l', r) \<Longrightarrow> \<exists>h. bs = h @ r" for k bs i l l' r
    by (induction k bs i l rule: fixed_bytes.induct) auto
  show "parse_header m bs = Header l r \<Longrightarrow> \<exists>h. bs = h @ r"
    by (induction m bs rule: parse_header.induct) (auto split: if_splits dest!: v f)
qed

lemma finish_message_frame:
  assumes "e \<le> length data" and "p \<le> e" and "\<not> sint l < 0"
  shows "case frame_body l (seg p e data) of
      Incomplete \<Rightarrow> finish_message data e p l = Inr None
    | Malformed \<Rightarrow> \<exists>er. finish_message data e p l = Inl er
    | Frame m r \<Rightarrow> finish_message data e p l = Inr (Some (p, length m))
        \<and> p + length m \<le> e \<and> seg p (p + length m) data = m \<and> seg (p + length m) e data = r"
  using assms
  by (auto simp: frame_body_def finish_message_def Let_def subarray_def seg_def
      take_drop min_def add.commute)

lemma tryReadMessage_header:
  assumes "e \<le> length data" and "s < e"
  shows "tryReadMessage m data s e =
    (case parse_header m (seg s e data) of
       NoHeader \<Rightarrow> Inr None
     | BadHeader \<Rightarrow> Inl (UnexpectedTag (data ! s) s)
     | Header l r \<Rightarrow> finish_message data e (e - length r) l)"
proof (cases m)
  case PROTO_PREAMBLE
  with assms show ?thesis
    by (simp add: tryReadMessage_def seg_Cons read_varint_bytes bad_tag_def Let_def
        split: option.splits prod.splits)
next
  case FIXED_SIZE
  with assms show ?thesis
    by (simp add: tryReadMessage_def read_fixed_bytes Let_def split: option.splits prod.splits)
qed

lemma tryReadMessage_frame:
  assumes "e \<le> length data" and "s < e" and "\<not> negative_size m (seg s e data)"
  shows "case parse_frame m (seg s e data) of
      Incomplete \<Rightarrow> tryReadMessage m data s e = Inr None
    | Malformed \<Rightarrow> \<exists>er. tryReadMessage m data s e = Inl er
    | Frame p r \<Rightarrow> \<exists>b. tryReadMessage m data s e = Inr (Some (b, length p))
        \<and> b + length p \<le> e \<and> seg b (b + length p) data = p \<and> seg (b + length p) e data = r"
proof (cases "parse_header m (seg s e data)")
  case (Header l r)
  then obtain h where h: "seg s e data = h @ r" by (blast dest: parse_header_suffix)
  have r: "seg (e - length r) e data = r"
    using seg_suffix(1) [OF h] assms by simp
  have n: "\<not> sint l < 0" using assms(3) Header by (simp add: negative_size_def)
  show ?thesis
    using finish_message_frame [OF assms(1) _ n, of "e - length r"] Header
    by (cases "frame_body l r") (auto simp: parse_frame_def tryReadMessage_header assms r)
qed (simp_all add: parse_frame_def tryReadMessage_header assms)

subsection \<open>The buffer invariant and the pending bytes\<close>

definition rb_inv :: "ring_buffer \<Rightarrow> bool" where
  "rb_inv rb \<longleftrightarrow> rb_rd rb \<le> rb_wr rb \<and> rb_wr rb \<le> length (rb_buf rb) \<and>
     (rb_fastpath rb \<noteq> None \<longrightarrow> rb_rd rb = rb_wr rb)"

definition pending :: "ring_buffer \<Rightarrow> bytes" where
  "pending rb = seg (rb_rd rb) (rb_wr rb) (rb_buf rb)"

text \<open>A buffer between two reads: invariant, nothing on the fast path, mode \<open>m\<close>, bytes \<open>p\<close>.\<close>

definition idle :: "tokenization_mode \<Rightarrow> bytes \<Rightarrow> ring_buffer \<Rightarrow> bool" where
  "idle m p rb \<longleftrightarrow> rb_inv rb \<and> rb_fastpath rb = None \<and> rb_mode rb = m \<and> pending rb = p"

lemma length_pending [simp]: "rb_inv rb \<Longrightarrow> length (pending rb) = rb_wr rb - rb_rd rb"
  by (simp add: pending_def rb_inv_def)

lemma grow_size_bounds:
  "newSize \<le> grow_size newSize w d \<and> d \<le> grow_size newSize w d - w \<and>
   grow_size newSize w d \<le> max newSize (w + d + kGrowBytes)"
proof (induction newSize w d rule: grow_size.induct)
  case (1 n w d)
  then show ?case
    by (cases "d > n - w") (auto simp: grow_size.simps [of n w d])
qed

lemma write_at_wr_idle:
  assumes "idle m p rb" and "rb_wr rb + length d \<le> length (rb_buf rb)"
  shows "\<exists>rb'. write_at_wr rb d = Inr rb' \<and> idle m (p @ d) rb'"
proof -
  obtain b where b: "ta_set (rb_buf rb) d (rb_wr rb) = Inr b"
    using assms(2) by (simp add: ta_set_def)
  with assms show ?thesis
    by (auto simp: write_at_wr_def idle_def rb_inv_def pending_def ta_set_seg ta_set_length)
qed

lemma append_slow_idle:
  assumes "idle m p rb" and "length p + length d + kGrowBytes \<le> kMaxMsgSize * 2"
  shows "\<exists>rb'. append_slow rb d = Inr rb' \<and> idle m (p @ d) rb'"
proof -
  let ?k = "rb_wr rb - rb_rd rb"
  let ?rb1 = "rb\<lparr>rb_buf := copy_to_front (rb_rd rb) (rb_wr rb) (rb_buf rb),
    rb_wr := ?k, rb_rd := 0\<rparr>"
  let ?n = "grow_size (length (rb_buf rb)) ?k (length d)"
  let ?rb2 = "?rb1\<lparr>rb_buf := rb_buf ?rb1 @ replicate (?n - length (rb_buf rb)) 0\<rparr>"
  from assms(1) have inv: "rb_rd rb \<le> rb_wr rb" "rb_wr rb \<le> length (rb_buf rb)"
    and p: "length p = ?k" by (auto simp: idle_def rb_inv_def)
  have g: "length (rb_buf rb) \<le> ?n" "length d \<le> ?n - ?k"
    "?n \<le> max (length (rb_buf rb)) (?k + length d + kGrowBytes)"
    using grow_size_bounds by auto
  have i1: "idle m p ?rb1"
    using assms(1) inv by (auto simp: idle_def rb_inv_def pending_def)
  have i2: "idle m p ?rb2"
    using i1 inv by (auto simp: idle_def rb_inv_def pending_def seg_append_left)
  show ?thesis
  proof (cases "length d > length (rb_buf rb) - rb_wr rb")
    case slow: True
    show ?thesis
    proof (cases "length d > length (rb_buf rb) - rb_wr rb + rb_rd rb")
      case True
      then have "?n \<le> kMaxMsgSize * 2" using g inv p assms(2) by linarith
      moreover have "rb_wr ?rb2 + length d \<le> length (rb_buf ?rb2)" using g inv by simp
      ultimately show ?thesis
        using write_at_wr_idle [OF i2] slow True inv by (auto simp: append_slow_def Let_def)
    next
      case False
      then have "rb_wr ?rb1 + length d \<le> length (rb_buf ?rb1)" using inv by simp
      then show ?thesis
        using write_at_wr_idle [OF i1] slow False by (simp add: append_slow_def Let_def)
    qed
  next
    case False
    then have "rb_wr rb + length d \<le> length (rb_buf rb)" using inv by simp
    then show ?thesis
      using write_at_wr_idle [OF assms(1)] False by (simp add: append_slow_def Let_def)
  qed
qed

lemma parse_frame_Nil [simp]: "parse_frame m [] = Incomplete"
  by (cases m) (simp_all add: parse_frame_def numeral_eq_Suc)

lemma drain_empty: "rb_rd rb = rb_wr rb \<Longrightarrow> rb_fastpath rb = None \<Longrightarrow> drain rb = ([], Inr rb)"
  by (subst drain.simps) (simp add: readMessage_def)

lemma drain_tokens:
  "idle m p rb \<Longrightarrow> no_negative_size m p \<Longrightarrow>
   fst (drain rb) = fst (tokens m p) \<and>
   (case snd (tokens m p) of
      None \<Rightarrow> \<exists>e. snd (drain rb) = Inl e
    | Some r \<Rightarrow> \<exists>rb'. snd (drain rb) = Inr rb' \<and> idle m r rb')"
proof (induction m p arbitrary: rb rule: tokens.induct)
  case (1 m p)
  from "1.prems" have inv: "rb_rd rb \<le> rb_wr rb" "rb_wr rb \<le> length (rb_buf rb)"
    and fp: "rb_fastpath rb = None" and md: "rb_mode rb = m"
    and p: "seg (rb_rd rb) (rb_wr rb) (rb_buf rb) = p" by (auto simp: idle_def rb_inv_def pending_def)
  have neg: "\<not> negative_size m p" using "1.prems"(2) by (subst (asm) no_negative_size.simps) simp
  show ?case
  proof (cases "rb_rd rb < rb_wr rb")
    case True
    note t = tryReadMessage_frame [OF inv(2) True, of m, unfolded p, OF neg]
    show ?thesis
    proof (cases "parse_frame m p")
      case (Frame q r)
      with t obtain b where b: "tryReadMessage m (rb_buf rb) (rb_rd rb) (rb_wr rb) = Inr (Some (b, length q))"
        "b + length q \<le> rb_wr rb" "seg b (b + length q) (rb_buf rb) = q"
        "seg (b + length q) (rb_wr rb) (rb_buf rb) = r" by auto
      let ?rb' = "rb\<lparr>rb_rd := b + length q\<rparr>"
      have "idle m r ?rb'" using b fp md inv by (auto simp: idle_def rb_inv_def pending_def)
      moreover have "no_negative_size m r"
        using "1.prems"(2) Frame by (subst (asm) no_negative_size.simps) simp
      moreover have "drain rb = (q # fst (drain ?rb'), snd (drain ?rb'))"
        using b fp md True
        by (subst drain.simps) (simp add: readMessage_def split: prod.splits)
      ultimately show ?thesis using "1.IH" [OF Frame, of ?rb'] Frame
        by (simp add: tokens_Frame split: option.splits)
    next
      case Incomplete
      with t have "tryReadMessage m (rb_buf rb) (rb_rd rb) (rb_wr rb) = Inr None" by simp
      then have "drain rb = ([], Inr rb)"
        using fp md True by (subst drain.simps) (simp add: readMessage_def)
      with Incomplete "1.prems"(1) show ?thesis by simp
    next
      case Malformed
      with t obtain e where "tryReadMessage m (rb_buf rb) (rb_rd rb) (rb_wr rb) = Inl e" by auto
      then have "drain rb = ([], Inl e)"
        using fp md True by (subst drain.simps) (simp add: readMessage_def)
      with Malformed show ?thesis by simp
    qed
  next
    case False
    then have "p = []" using p by simp
    then show ?thesis using False inv fp "1.prems" by (simp add: drain_empty)
  qed
qed

lemma append_data_idle:
  assumes "idle m p rb" and "length p + length d + kGrowBytes \<le> kMaxMsgSize * 2"
    and "no_negative_size m (p @ d)"
  shows "(\<exists>rb'. append_data rb d = Inr rb' \<and> idle m (p @ d) rb')
    \<or> (\<exists>msg rb'. p = [] \<and> parse_frame m d = Frame msg [] \<and>
         append_data rb d = Inr (rb'\<lparr>rb_fastpath := Some msg\<rparr>) \<and> idle m [] rb')
    \<or> (\<exists>e. p = [] \<and> parse_frame m d = Malformed \<and> append_data rb d = Inl e)"
proof -
  define R where "R = (if rb_rd rb = rb_wr rb then rb\<lparr>rb_rd := 0, rb_wr := 0\<rparr> else rb)"
  have i: "idle m p R" using assms(1) by (auto simp: R_def idle_def rb_inv_def pending_def)
  have inv: "rb_wr rb \<le> length (rb_buf rb)" "rb_rd rb \<le> rb_wr rb" "rb_fastpath R = None" "rb_mode R = m"
    using assms(1) i by (auto simp: idle_def rb_inv_def)
  have eq: "append_data rb d =
    (if d = [] then Inr R
     else if rb_rd R = rb_wr R
     then (case tryReadMessage m d 0 (length d) of
             Inl e \<Rightarrow> Inl e
           | Inr None \<Rightarrow> append_slow R d
           | Inr (Some (b, l)) \<Rightarrow> if b + l = length d
               then Inr (R\<lparr>rb_fastpath := Some (seg b (b + l) d)\<rparr>) else append_slow R d)
     else append_slow R d)"
    using inv by (simp add: append_data_def Let_def R_def [symmetric])
  note slow = append_slow_idle [OF i assms(2)]
  show ?thesis
  proof (cases "d \<noteq> [] \<and> rb_rd R = rb_wr R")
    case True
    then have p: "p = []" using i by (auto simp: idle_def pending_def)
    have neg: "\<not> negative_size m (seg 0 (length d) d)"
      using assms(3) p by (subst (asm) no_negative_size.simps) simp
    note t = tryReadMessage_frame [of "length d" d 0 m, OF _ _ neg]
    show ?thesis
    proof (cases "parse_frame m d")
      case (Frame q r)
      with t True obtain b where b: "tryReadMessage m d 0 (length d) = Inr (Some (b, length q))"
        "b + length q \<le> length d" "seg b (b + length q) d = q" "seg (b + length q) (length d) d = r"
        by auto
      show ?thesis
      proof (cases "b + length q = length d")
        case eqd: True
        with b have "r = []" by (metis seg_empty order_refl)
        with eq True eqd b Frame p i show ?thesis by auto
      next
        case False
        with eq True b slow show ?thesis by simp
      qed
    qed (use t True eq slow p in auto)
  next
    case False
    with eq i slow show ?thesis by auto
  qed
qed

text \<open>One \<open>append\<close> followed by the read loop tokenizes the pending bytes and the new chunk.\<close>

lemma append_drain:
  assumes "idle m p rb" and "length p + length d + kGrowBytes \<le> kMaxMsgSize * 2"
    and "no_negative_size m (p @ d)"
  shows "fst (feed rb [d]) = fst (tokens m (p @ d)) \<and>
    (case snd (tokens m (p @ d)) of
       None \<Rightarrow> \<exists>e. snd (feed rb [d]) = Inl e
     | Some r \<Rightarrow> \<exists>rb'. snd (feed rb [d]) = Inr rb' \<and> idle m r rb')"
  using append_data_idle [OF assms]
proof (elim disjE exE conjE)
  fix rb' assume a: "append_data rb d = Inr rb'" and i: "idle m (p @ d) rb'"
  show ?thesis
    using drain_tokens [OF i assms(3)] a
    by (auto split: prod.splits sum.splits option.splits)
next
  fix msg rb'
  assume "p = []" and f: "parse_frame m d = Frame msg []" and i: "idle m [] rb'"
    and a: "append_data rb d = Inr (rb'\<lparr>rb_fastpath := Some msg\<rparr>)"
  have z: "rb_rd rb' = rb_wr rb'" "rb_fastpath rb' = None"
    using i length_pending [of rb'] by (auto simp: idle_def rb_inv_def)
  have "readMessage (rb'\<lparr>rb_fastpath := Some msg\<rparr>) = Inr (Some msg, rb')"
    using z by (simp add: readMessage_def)
  then have "drain (rb'\<lparr>rb_fastpath := Some msg\<rparr>) = ([msg], Inr rb')"
    using drain_empty [OF z] by (subst drain.simps) simp
  then show ?thesis using a i \<open>p = []\<close> tokens_Frame [OF f] by simp
next
  fix e assume "p = []" and "parse_frame m d = Malformed" and "append_data rb d = Inl e"
  then show ?thesis by simp
qed

text \<open>Whole runs: the buffer never overflows as long as rest and next chunk fit.\<close>

fun fits :: "tokenization_mode \<Rightarrow> bytes \<Rightarrow> bytes list \<Rightarrow> bool" where
  "fits m p [] = True"
| "fits m p (c # cs) =
     (length p + length c + kGrowBytes \<le> kMaxMsgSize * 2 \<and>
      (case snd (tokens m (p @ c)) of None \<Rightarrow> True | Some r \<Rightarrow> fits m r cs))"

lemma feed_Cons:
  "feed rb (c # cs) =
     (case feed rb [c] of
        (ms, Inl e) \<Rightarrow> (ms, Inl e)
      | (ms, Inr rb') \<Rightarrow> (ms @ fst (feed rb' cs), snd (feed rb' cs)))"
  by (auto split: sum.splits prod.splits)

lemma feed_tokens:
  assumes "idle m p rb" and "fits m p cs" and "no_negative_size m (p @ concat cs)"
    and "parse_frame m p = Incomplete"
  shows "fst (feed rb cs) = fst (tokens m (p @ concat cs)) \<and>
    (case snd (tokens m (p @ concat cs)) of
       None \<Rightarrow> \<exists>e. snd (feed rb cs) = Inl e
     | Some r \<Rightarrow> \<exists>rb'. snd (feed rb cs) = Inr rb' \<and> idle m r rb')"
  using assms
proof (induction cs arbitrary: rb p)
  case Nil
  then show ?case by simp
next
  case (Cons c cs)
  let ?t = "tokens m (p @ c)"
  have n: "no_negative_size m ((p @ c) @ concat cs)" using Cons.prems(3) by simp
  have step: "fst (feed rb [c]) = fst ?t"
    "case snd ?t of None \<Rightarrow> \<exists>e. snd (feed rb [c]) = Inl e
     | Some r \<Rightarrow> \<exists>rb'. snd (feed rb [c]) = Inr rb' \<and> idle m r rb'"
    using append_drain [OF Cons.prems(1) _ no_negative_size_appendD [OF n]] Cons.prems(2)
    by auto
  have split: "tokens m (p @ concat (c # cs)) =
    (case ?t of (ps, None) \<Rightarrow> (ps, None)
     | (ps, Some r) \<Rightarrow> (ps @ fst (tokens m (r @ concat cs)), snd (tokens m (r @ concat cs))))"
    using tokens_append [of m "p @ c" "concat cs"] by simp
  show ?case
  proof (cases "snd ?t")
    case None
    then obtain e where "feed rb [c] = (fst ?t, Inl e)" using step by (auto simp: prod_eq_iff)
    then have "feed rb (c # cs) = (fst ?t, Inl e)" unfolding feed_Cons [of rb c cs] by simp
    with None show ?thesis
      unfolding split by (simp add: case_prod_beta del: feed.simps)
  next
    case (Some r)
    then obtain rb' where rb': "feed rb [c] = (fst ?t, Inr rb')" "idle m r rb'"
      using step by (auto simp: prod_eq_iff)
    have t: "?t = (fst ?t, Some r)" using Some by (simp add: prod_eq_iff)
    have "fits m r cs" using Cons.prems(2) Some by simp
    from Cons.IH [OF rb'(2) this no_negative_size_rest [OF n t] tokens_rest_Incomplete [OF t]]
    moreover have "feed rb (c # cs) = (fst ?t @ fst (feed rb' cs), snd (feed rb' cs))"
      unfolding feed_Cons [of rb c cs] rb'(1) by simp
    ultimately show ?thesis
      unfolding split using Some
      by (simp add: case_prod_beta del: feed.simps split: option.splits)
  qed
qed

lemma idle_new: "idle m [] (new_ring_buffer m)"
  by (simp add: idle_def rb_inv_def pending_def new_ring_buffer_def)

subsection \<open>Well-formed streams\<close>

text \<open>
  The sender's side: one byte of tag and a varint size, or a 32-bit little-endian size, in front
  of the message.
\<close>

fun varint_enc :: "nat \<Rightarrow> bytes" where
  "varint_enc n = (if n < 128 then [of_nat n] else of_nat (n mod 128 + 128) # varint_enc (n div 128))"

declare varint_enc.simps [simp del]

definition le32 :: "nat \<Rightarrow> bytes" where
  "le32 n = [of_nat n, of_nat (n div 2 ^ 8), of_nat (n div 2 ^ 16), of_nat (n div 2 ^ 24)]"

definition encode_frame :: "tokenization_mode \<Rightarrow> byte \<Rightarrow> bytes \<Rightarrow> bytes" where
  "encode_frame m tag msg =
     (case m of PROTO_PREAMBLE \<Rightarrow> tag # varint_enc (length msg) | FIXED_SIZE \<Rightarrow> le32 (length msg)) @ msg"


lemma ucast_and_7f: "(ucast ((of_nat v :: byte) AND 0x7f) :: u32) = of_nat (v mod 128)"
proof -
  have m: "(0x7f :: byte) = mask 7" by (simp add: mask_eq_exp_minus_1)
  have v: "v mod 128 = take_bit 7 v" by (simp add: take_bit_eq_mod)
  show ?thesis unfolding m v take_bit_eq_mask [symmetric]
    by (rule bit_word_eqI) (auto simp: bit_simps)
qed

lemma varint_acc_of_nat:
  "s < 32 \<Longrightarrow> varint_acc s l (of_nat v) = l OR push_bit s (of_nat (v mod 128))"
  by (simp add: varint_acc_def ucast_and_7f)

lemma or_push_chunk:
  "(l OR push_bit s (of_nat (n mod 2 ^ w))) OR push_bit (s + w) (of_nat (n div 2 ^ w)) =
   l OR push_bit s (of_nat n :: u32)"
  unfolding take_bit_eq_mod [symmetric] drop_bit_eq_div [symmetric]
proof (rule bit_word_eqI)
  fix k assume "k < LENGTH(32)"
  show "bit ((l OR push_bit s (of_nat (take_bit w n))) OR push_bit (s + w) (of_nat (drop_bit w n))) k =
    bit (l OR push_bit s (of_nat n :: u32)) k"
  proof (cases "s + w \<le> k")
    case True
    then have "w + (k - (s + w)) = k - s" by simp
    with True show ?thesis by (auto simp: bit_simps)
  next
    case False
    then show ?thesis by (auto simp: bit_simps)
  qed
qed

lemmas or_push_7 = or_push_chunk [where w = 7, simplified]
  and or_push_8 = or_push_chunk [where w = 8, simplified]

lemma varint_bytes_enc:
  "n * 2 ^ s < 2 ^ 32 \<Longrightarrow> s < 32 \<Longrightarrow>
   varint_bytes (varint_enc n @ r) s l = Some (l OR push_bit s (of_nat n), r)"
proof (induction n arbitrary: s l rule: varint_enc.induct)
  case (1 n)
  show ?case
  proof (cases "n < 128")
    case True
    then have "(of_nat n :: byte) < 0x80"
      by (simp add: word_less_nat_alt unat_of_nat)
    with True 1 show ?thesis
      by (simp add: varint_enc.simps [of n] varint_acc_of_nat)
  next
    case False
    have b: "\<not> (of_nat (n mod 128 + 128) :: byte) < 0x80"
      by (simp add: word_less_nat_alt unat_of_nat del: of_nat_add)
    have le: "(n div 128) * 2 ^ (s + 7) \<le> n * 2 ^ s"
      by (simp add: power_add) 
    with "1.prems"(1) have lt: "(n div 128) * 2 ^ (s + 7) < 2 ^ 32" by linarith
    have "1 \<le> n div 128" using False by linarith
    then have "2 ^ (s + 7) \<le> (n div 128) * 2 ^ (s + 7)" by simp
    with lt have "(2::nat) ^ (s + 7) < 2 ^ 32" by linarith
    then have "s + 7 < 32" by (rule power_less_imp_less_exp [rotated]) simp
    with "1.IH" [OF False lt] show ?thesis
      using False b "1.prems"(2)
      by (simp add: varint_enc.simps [of n] varint_acc_of_nat or_push_7 del: of_nat_add)
  qed
qed

lemma fixed_acc_of_nat: "fixed_acc i l (of_nat v) = l OR push_bit (i * 8) (of_nat (v mod 256))"
proof -
  have m: "(0xff :: byte) = mask 8" by (simp add: mask_eq_exp_minus_1)
  have v: "v mod 256 = take_bit 8 v" by (simp add: take_bit_eq_mod)
  show ?thesis unfolding fixed_acc_def m v take_bit_eq_mask [symmetric]
    by (rule bit_word_eqI) (auto simp: bit_simps)
qed

lemma fixed_bytes_le32:
  assumes "n < 2 ^ 32"
  shows "fixed_bytes 4 (le32 n @ r) 0 0 = Some (of_nat n, r)"
proof -
  define a b c where "a = n div 256" and "b = n div 65536" and "c = n div 16777216"
  have b: "b = a div 256" unfolding a_def b_def by (simp add: div_mult2_eq [symmetric])
  have c: "c = b div 256" unfolding b_def c_def by (simp add: div_mult2_eq [symmetric])
  have t: "c mod 256 = c" using assms unfolding c_def by simp
  have four: "fixed_bytes 4 (w # x # y # z # r) 0 0 =
    Some (fixed_acc 3 (fixed_acc 2 (fixed_acc 1 (fixed_acc 0 0 w) x) y) z, r)" for w x y z
    by (simp add: numeral_eq_Suc)
  have "fixed_acc 3 (fixed_acc 2 (fixed_acc 1 (fixed_acc 0 0 (of_nat n)) (of_nat a)) (of_nat b)) (of_nat c) =
    (((0 OR push_bit 0 (of_nat (n mod 256))) OR push_bit (0 + 8) (of_nat (a mod 256)))
      OR push_bit (8 + 8) (of_nat (b mod 256))) OR push_bit (16 + 8) (of_nat (b div 256))"
    by (simp add: fixed_acc_of_nat t c [symmetric])
  also have "\<dots> = ((0 OR push_bit 0 (of_nat (n mod 256))) OR push_bit (0 + 8) (of_nat (a mod 256)))
      OR push_bit 16 (of_nat b)" using or_push_8 [of _ 16 b] by simp
  also have "\<dots> = (0 OR push_bit 0 (of_nat (n mod 256))) OR push_bit 8 (of_nat a)"
    using or_push_8 [of _ 8 a] by (simp add: b)
  also have "\<dots> = of_nat n" using or_push_8 [of 0 0 n] by (simp add: a_def)
  finally show ?thesis by (simp add: le32_def four a_def b_def c_def)
qed

lemma sint_of_nat_u32:
  assumes "n < 2 ^ 32"
  shows "sint (of_nat n :: u32) = (if n < 2 ^ 31 then int n else int n - 2 ^ 32)"
proof -
  have "sint (of_nat n :: u32) = signed_take_bit 31 (int n)"
    by transfer simp
  also have "\<dots> = take_bit 32 (int n) - 2 ^ 32 * of_bool (bit (int n) 31)"
    by (simp add: signed_take_bit_eq_take_bit_minus)
  also have "take_bit 32 (int n) = int n"
    using assms by (simp add: take_bit_int_eq_self_iff)
  also have "bit (int n) 31 \<longleftrightarrow> \<not> n < 2 ^ 31"
  proof -
    have "n div 2 ^ 31 = (if n < 2 ^ 31 then 0 else 1)"
      using assms by (auto intro!: div_nat_eqI)
    moreover have "bit (int n) 31 \<longleftrightarrow> odd (n div 2 ^ 31)"
      by (metis bit_of_nat_iff_bit bit_iff_odd)
    ultimately show ?thesis by simp
  qed
  finally show ?thesis by simp
qed

lemma length_varint_enc: "n < 128 ^ Suc k \<Longrightarrow> length (varint_enc n) \<le> Suc k"
proof (induction k arbitrary: n)
  case 0
  then show ?case by (simp add: varint_enc.simps)
next
  case (Suc k)
  then have "n div 128 < 128 ^ Suc k" by (simp add: less_mult_imp_div_less mult.commute)
  with Suc.IH show ?case by (simp add: varint_enc.simps [of n])
qed

definition encode_stream :: "tokenization_mode \<Rightarrow> byte \<Rightarrow> bytes list \<Rightarrow> bytes" where
  "encode_stream m tag msgs = concat (map (encode_frame m tag) msgs)"

lemma encode_stream_simps [simp]:
  "encode_stream m tag [] = []"
  "encode_stream m tag (x # xs) = encode_frame m tag x @ encode_stream m tag xs"
  by (simp_all add: encode_stream_def)

lemma parse_header_encode:
  assumes "\<not> bad_tag tag" and "length msg < kMaxMsgSize"
  shows "parse_header m (encode_frame m tag msg @ r) = Header (of_nat (length msg)) (msg @ r)"
  using assms varint_bytes_enc [of "length msg" 0 "msg @ r" 0] fixed_bytes_le32 [of "length msg" "msg @ r"]
  by (cases m) (simp_all add: encode_frame_def kMaxMsgSize_def)

lemma parse_frame_encode:
  assumes "\<not> bad_tag tag" and "length msg < kMaxMsgSize"
  shows "parse_frame m (encode_frame m tag msg @ r) = Frame msg r"
    and "\<not> negative_size m (encode_frame m tag msg @ r)"
proof -
  have "sint (of_nat (length msg) :: u32) = int (length msg)"
    using assms(2) by (simp add: sint_of_nat_u32 kMaxMsgSize_def)
  then show "parse_frame m (encode_frame m tag msg @ r) = Frame msg r"
    and "\<not> negative_size m (encode_frame m tag msg @ r)"
    using assms(2)
    by (simp_all add: parse_frame_def negative_size_def parse_header_encode [OF assms] frame_body_def)
qed

lemma length_encode_frame:
  assumes "length msg < kMaxMsgSize"
  shows "length (encode_frame m tag msg) \<le> kMaxMsgSize + 6"
proof -
  have "length (varint_enc (length msg)) \<le> Suc 4"
    by (rule length_varint_enc) (use assms in \<open>simp add: kMaxMsgSize_def\<close>)
  with assms show ?thesis by (cases m) (simp_all add: encode_frame_def le32_def)
qed

lemma tokens_encode_stream:
  assumes "\<not> bad_tag tag" and "\<forall>msg\<in>set msgs. length msg < kMaxMsgSize"
  shows "tokens m (encode_stream m tag msgs) = (msgs, Some [])"
    and "no_negative_size m (encode_stream m tag msgs)"
  using assms
proof (induction msgs)
  case Nil
  { case 1 show ?case by simp }
  { case 2
    have "\<not> negative_size m []" by (cases m) (simp_all add: negative_size_def numeral_eq_Suc)
    then show ?case by (subst no_negative_size.simps) simp }
next
  case (Cons x xs)
  { case 1
    with Cons.IH(1) show ?case by (simp add: tokens_Frame [OF parse_frame_encode(1)]) }
  { case 2
    with Cons.IH(2) parse_frame_encode show ?case
      by (subst no_negative_size.simps) simp }
qed

text \<open>Any prefix of a well-formed stream leaves at most an incomplete frame behind.\<close>

lemma tokens_prefix_rest:
  assumes "\<not> bad_tag tag" and "\<forall>msg\<in>set msgs. length msg < kMaxMsgSize"
    and "a @ b = encode_stream m tag msgs"
  shows "\<exists>ps r k. tokens m a = (ps, Some r) \<and> length r \<le> kMaxMsgSize + 6 \<and>
    r @ b = encode_stream m tag (drop k msgs)"
  using assms(2,3)
proof (induction msgs arbitrary: a)
  case Nil
  then show ?case by simp
next
  case (Cons x xs)
  let ?e = "encode_frame m tag x"
  have pf: "parse_frame m (?e @ r) = Frame x r" for r
    using parse_frame_encode(1) assms(1) Cons.prems(1) by simp
  have "a @ b = ?e @ encode_stream m tag xs" using Cons.prems(2) by simp
  then consider (long) a' where "a = ?e @ a'" "a' @ b = encode_stream m tag xs"
    | (short) y where "a @ y = ?e" "y \<noteq> []"
    unfolding append_eq_append_conv2 by (metis append.right_neutral append_Nil)
  then show ?case
  proof cases
    case long
    then obtain ps r k where "tokens m a' = (ps, Some r)" "length r \<le> kMaxMsgSize + 6"
      "r @ b = encode_stream m tag (drop k xs)"
      using Cons by fastforce
    with long have "tokens m a = (x # ps, Some r)" "r @ b = encode_stream m tag (drop (Suc k) (x # xs))"
      by (simp_all add: tokens_Frame [OF pf])
    with \<open>length r \<le> _\<close> show ?thesis by blast
  next
    case short
    have "parse_frame m a = Incomplete"
    proof (cases "parse_frame m a")
      case (Frame p q)
      from parse_frame_append(1) [OF this, of y] short(1) pf [of "[]"] show ?thesis using short(2) by simp
    next
      case Malformed
      from parse_frame_append(2) [OF this, of y] short(1) pf [of "[]"] show ?thesis by simp
    qed
    moreover have "length a \<le> kMaxMsgSize + 6"
      using length_encode_frame [of x m tag] Cons.prems(1) arg_cong [OF short(1), of length] by simp
    ultimately show ?thesis using Cons.prems(2)
      by (intro exI [of _ "[]"] exI [of _ a] exI [of _ 0]) simp
  qed
qed

lemma fits_encode_stream:
  assumes "\<not> bad_tag tag" and "\<forall>msg\<in>set msgs. length msg < kMaxMsgSize"
    and "p @ concat cs = encode_stream m tag msgs" and "length p \<le> kMaxMsgSize + 6"
    and "\<forall>c\<in>set cs. length c \<le> kMaxMsgSize - 2 * kGrowBytes"
  shows "fits m p cs"
  using assms(2-5)
proof (induction cs arbitrary: p msgs)
  case Nil
  then show ?case by simp
next
  case (Cons c cs)
  have "(p @ c) @ concat cs = encode_stream m tag msgs" using Cons.prems(2) by simp
  from tokens_prefix_rest [OF assms(1) Cons.prems(1) this]
  obtain ps r k where t: "tokens m (p @ c) = (ps, Some r)" "length r \<le> kMaxMsgSize + 6"
    "r @ concat cs = encode_stream m tag (drop k msgs)" by blast
  have "\<forall>msg\<in>set (drop k msgs). length msg < kMaxMsgSize"
    using Cons.prems(1) by (auto dest: in_set_dropD)
  from Cons.IH [OF this t(3,2)] Cons.prems(4) have "fits m r cs" by simp
  with t(1) Cons.prems(3,4) show ?case by (simp add: kMaxMsgSize_def kGrowBytes_def)
qed

lemma feed_encoded:
  assumes "\<not> bad_tag tag" and "\<forall>msg\<in>set msgs. length msg < kMaxMsgSize"
    and "concat chunks = encode_stream m tag msgs"
    and "\<forall>c\<in>set chunks. length c \<le> kMaxMsgSize - 2 * kGrowBytes"
  shows "\<exists>rb. feed (new_ring_buffer m) chunks = (msgs, Inr rb) \<and> rb_inv rb \<and> pending rb = []"
proof -
  have "fits m [] chunks"
    using fits_encode_stream [OF assms(1,2), of "[]" chunks m] assms(3,4) by simp
  from feed_tokens [OF idle_new this] show ?thesis
    using tokens_encode_stream [OF assms(1,2), of m] assms(3)
    by (auto simp: prod_eq_iff idle_def)
qed

text \<open>
  C1. Whatever way a well-formed stream of messages is cut into chunks, the buffer delivers exactly
  these messages, in order, and ends empty.
\<close>

theorem feed_delivers_messages:
  assumes "\<not> bad_tag tag" and "\<forall>msg\<in>set msgs. length msg < kMaxMsgSize"
    and "concat chunks = encode_stream m tag msgs"
    and "\<forall>c\<in>set chunks. length c \<le> kMaxMsgSize - 2 * kGrowBytes"
  shows "\<exists>rb. feed (new_ring_buffer m) chunks = (msgs, Inr rb) \<and> rb_inv rb \<and> pending rb = []"
  using assms by (rule feed_encoded)

theorem feed_delivers_messages_witness:
  "\<exists>rb. feed (new_ring_buffer FIXED_SIZE) [[2, 0], [0, 0, 7], [8, 0, 0, 0, 0]] = ([[7, 8], []], Inr rb)
    \<and> rb_inv rb \<and> pending rb = []"
  by (rule feed_delivers_messages [where tag = 10])
    (simp_all add: bad_tag_def kMaxMsgSize_def kGrowBytes_def encode_frame_def le32_def)

text \<open>
  For arbitrary input, the messages delivered depend on the bytes received and not on how they
  were chunked, as long as no frame announces a size of 2 GiB or more and the data fits the buffer.
\<close>

theorem feed_chunking_irrelevant:
  assumes "concat cs = concat ds" and "fits m [] cs" and "fits m [] ds"
    and "no_negative_size m (concat cs)"
  shows "fst (feed (new_ring_buffer m) cs) = fst (feed (new_ring_buffer m) ds)"
  using feed_tokens [OF idle_new, of m cs] feed_tokens [OF idle_new, of m ds] assms by simp

theorem feed_chunking_irrelevant_witness:
  "fst (feed (new_ring_buffer PROTO_PREAMBLE) [[10], [1, 5, 10]]) =
   fst (feed (new_ring_buffer PROTO_PREAMBLE) [[10, 1, 5], [10]])"
proof -
  have p: "parse_frame PROTO_PREAMBLE [10] = Incomplete"
    "parse_frame PROTO_PREAMBLE [10, 1, 5] = Frame [5] []"
    "parse_frame PROTO_PREAMBLE [10, 1, 5, 10] = Frame [5] [10]"
    by (simp_all add: parse_frame_def bad_tag_def varint_acc_def frame_body_def kMaxMsgSize_def)
  show ?thesis
    by (rule feed_chunking_irrelevant)
      (simp_all add: p tokens_Frame kMaxMsgSize_def kGrowBytes_def no_negative_size.simps
        negative_size_def bad_tag_def varint_acc_def)
qed

text \<open>
  C3. The size check of the 32-bit framing, for every announced size. Sizes from \<open>kMaxMsgSize\<close> up to
  \<open>2 ^ 31 - 1\<close> are rejected as too large; from \<open>2 ^ 31\<close> on the accumulator is negative, the check does
  not fire, and a message is returned although its bytes never arrived.
\<close>

theorem fixed_size_check:
  assumes "n < 2 ^ 32"
  shows "tryReadMessage FIXED_SIZE (le32 n @ r) 0 (length (le32 n @ r)) =
    (if n < kMaxMsgSize then Inr (if n \<le> length r then Some (4, n) else None)
     else if n < 2 ^ 31 then Inl (MessageTooLarge (int n))
     else Inr (Some (subarray (4 + length r) 4 (4 + int n - 2 ^ 32))))"
proof -
  define D where "D = le32 n @ r"
  have l: "length D = 4 + length r" by (simp add: D_def le32_def)
  have seg: "seg 0 (4 + length r) D = D" by (simp flip: l)
  have f: "fixed_bytes 4 D 0 0 = Some (of_nat n, r)" unfolding D_def by (rule fixed_bytes_le32 [OF assms])
  have h: "tryReadMessage FIXED_SIZE D 0 (length D) = finish_message D (4 + length r) 4 (of_nat n)"
    by (subst tryReadMessage_header) (simp_all add: f l seg)
  show ?thesis
  proof (cases "n < 2 ^ 31")
    case True
    then show ?thesis
      unfolding D_def [symmetric] h
      by (simp add: l finish_message_def Let_def subarray_def kMaxMsgSize_def nat_add_distrib
          sint_of_nat_u32)
  next
    case False
    with assms show ?thesis
      unfolding D_def [symmetric] h
      by (simp add: l finish_message_def Let_def kMaxMsgSize_def sint_of_nat_u32)
  qed
qed

theorem fixed_size_check_witness:
  "tryReadMessage FIXED_SIZE (le32 4294967295 @ []) 0 (length (le32 4294967295 @ [])) =
    Inr (Some (4, 0))"
  by (subst fixed_size_check) (simp_all add: kMaxMsgSize_def subarray_def)

end
