(* ===== verification/Sql_Types.thy ===== *)
theory Sql_Types
  imports Ring_Buffer_Correct
begin

text \<open>
  The cell and column types of \<^verbatim>\<open>ui/src/trace_processor/query_result.ts\<close>: the inheritance tree of the
  column types with \<open>checkExtends\<close> and \<open>unionTypes\<close>, and the run-time check \<open>isCompatible\<close>.
\<close>

subsection \<open>Column types\<close>

text \<open>The nine sentinel constants (\<open>NUM\<close>, \<open>STR\<close>, \<open>LONG_NULL\<close>, \<dots>) that name column types.\<close>

datatype sql_type =
    T_UNKNOWN | T_NUM | T_STR | T_NUM_NULL | T_STR_NULL | T_BLOB | T_BLOB_NULL | T_LONG | T_LONG_NULL

fun inheritanceTree :: "sql_type \<Rightarrow> sql_type option" where
  "inheritanceTree T_NUM = Some T_NUM_NULL"
| "inheritanceTree T_NUM_NULL = Some T_UNKNOWN"
| "inheritanceTree T_LONG = Some T_LONG_NULL"
| "inheritanceTree T_LONG_NULL = Some T_UNKNOWN"
| "inheritanceTree T_BLOB = Some T_BLOB_NULL"
| "inheritanceTree T_BLOB_NULL = Some T_UNKNOWN"
| "inheritanceTree T_STR = Some T_STR_NULL"
| "inheritanceTree T_STR_NULL = Some T_UNKNOWN"
| "inheritanceTree T_UNKNOWN = None"

fun type_height :: "sql_type \<Rightarrow> nat" where
  "type_height T_UNKNOWN = 0"
| "type_height T_NUM_NULL = 1"
| "type_height T_LONG_NULL = 1"
| "type_height T_BLOB_NULL = 1"
| "type_height T_STR_NULL = 1"
| "type_height _ = 2"

function getAncestryPath :: "sql_type \<Rightarrow> sql_type list" where
  "getAncestryPath t =
     t # (case inheritanceTree t of None \<Rightarrow> [] | Some u \<Rightarrow> getAncestryPath u)"
  by pat_completeness auto
termination
  by (relation "measure type_height") (auto elim: inheritanceTree.elims)

lemma getAncestryPath_simps [simp]:
  "getAncestryPath T_UNKNOWN = [T_UNKNOWN]"
  "getAncestryPath T_NUM_NULL = [T_NUM_NULL, T_UNKNOWN]"
  "getAncestryPath T_LONG_NULL = [T_LONG_NULL, T_UNKNOWN]"
  "getAncestryPath T_BLOB_NULL = [T_BLOB_NULL, T_UNKNOWN]"
  "getAncestryPath T_STR_NULL = [T_STR_NULL, T_UNKNOWN]"
  "getAncestryPath T_NUM = [T_NUM, T_NUM_NULL, T_UNKNOWN]"
  "getAncestryPath T_LONG = [T_LONG, T_LONG_NULL, T_UNKNOWN]"
  "getAncestryPath T_BLOB = [T_BLOB, T_BLOB_NULL, T_UNKNOWN]"
  "getAncestryPath T_STR = [T_STR, T_STR_NULL, T_UNKNOWN]"
  by simp_all

declare getAncestryPath.simps [simp del]

definition checkExtends :: "sql_type \<Rightarrow> sql_type \<Rightarrow> bool" where
  "checkExtends required actual =
     (if required = actual then True else List.member (getAncestryPath actual) required)"

definition unionTypes :: "sql_type \<Rightarrow> sql_type \<Rightarrow> sql_type option" where
  "unionTypes a b =
     (if a = b then Some a
      else find (\<lambda>t. List.member (getAncestryPath b) t) (getAncestryPath a))"

datatype cell_type = CELL_NULL | CELL_VARINT | CELL_FLOAT64 | CELL_STRING | CELL_BLOB

text \<open>The numbering of the enum; any other byte is not a cell type.\<close>

definition cell_type_of :: "byte \<Rightarrow> cell_type option" where
  "cell_type_of b =
     (if b = 1 then Some CELL_NULL else if b = 2 then Some CELL_VARINT
      else if b = 3 then Some CELL_FLOAT64 else if b = 4 then Some CELL_STRING
      else if b = 5 then Some CELL_BLOB else None)"

fun cell_code :: "cell_type \<Rightarrow> byte" where
  "cell_code CELL_NULL = 1"
| "cell_code CELL_VARINT = 2"
| "cell_code CELL_FLOAT64 = 3"
| "cell_code CELL_STRING = 4"
| "cell_code CELL_BLOB = 5"

lemma cell_type_of_code [simp]: "cell_type_of (cell_code c) = Some c"
  by (cases c) (simp_all add: cell_type_of_def)

fun isCompatible :: "cell_type \<Rightarrow> sql_type \<Rightarrow> bool" where
  "isCompatible CELL_NULL e = List.member [T_NUM_NULL, T_STR_NULL, T_BLOB_NULL, T_LONG_NULL, T_UNKNOWN] e"
| "isCompatible CELL_VARINT e = List.member [T_NUM, T_NUM_NULL, T_LONG, T_LONG_NULL, T_UNKNOWN] e"
| "isCompatible CELL_FLOAT64 e = List.member [T_NUM, T_NUM_NULL, T_UNKNOWN] e"
| "isCompatible CELL_STRING e = List.member [T_STR, T_STR_NULL, T_UNKNOWN] e"
| "isCompatible CELL_BLOB e = List.member [T_BLOB, T_BLOB_NULL, T_UNKNOWN] e"

lemma checkExtends_cases:
  "checkExtends r a \<longleftrightarrow> r = a \<or> r = T_UNKNOWN \<or> inheritanceTree a = Some r"
  by (cases a) (auto simp: checkExtends_def)

text \<open>
  \<open>checkExtends\<close> is a partial order with \<open>UNKNOWN\<close> on top, and \<open>unionTypes\<close> never fails and returns
  the least type that both arguments extend.
\<close>

theorem unionTypes_is_join:
  "\<exists>u. unionTypes a b = Some u \<and> checkExtends u a \<and> checkExtends u b \<and>
     (\<forall>v. checkExtends v a \<and> checkExtends v b \<longrightarrow> checkExtends v u)"
  by (cases a; cases b; simp add: unionTypes_def checkExtends_cases; fastforce)

theorem unionTypes_is_join_witness: "unionTypes T_NUM T_LONG_NULL = Some T_UNKNOWN"
proof -
  obtain u where "unionTypes T_NUM T_LONG_NULL = Some u" "checkExtends u T_NUM" "checkExtends u T_LONG_NULL"
    using unionTypes_is_join [of T_NUM T_LONG_NULL] by blast
  then show ?thesis by (auto simp: checkExtends_cases)
qed

text \<open>
  Reading a column at a wider type never fails where the narrower one succeeds: a cell that is
  compatible with a type is compatible with every type it extends.
\<close>

lemma isCompatible_mono:
  "isCompatible c t \<Longrightarrow> checkExtends u t \<Longrightarrow> isCompatible c u"
  by (cases c; cases t) (auto simp: checkExtends_cases)

end
