(* ===== verification/Dataset.thy ===== *)
theory Dataset
  imports Sql_Types "HOL-Library.AList" "HOL-Library.List_Lexorder" "HOL-Library.Char_ord"
begin

text \<open>
  The datasets of \<^verbatim>\<open>ui/src/trace_processor/dataset.ts\<close>: a description of a set of rows of the trace
  processor together with the schema of its columns, from which a SQL statement is generated.
  \<open>SourceDataset\<close> is a table or statement with joins and a filter, \<open>UnionDataset\<close> a union that merges
  the sources it finds on the same table, \<open>UnionDatasetWithLineage\<close> a union whose rows can be traced
  back to the datasets they come from. Also \<open>sqlValueToSqliteString\<close> and \<open>sqliteString\<close>.

  JavaScript objects that serve as dictionaries are association lists in insertion order; their
  keys are column names and join identifiers, which are not array indices. A \<open>Map\<close> is an
  association list too, and a \<open>Set\<close> the list of its elements in insertion order. The values of a
  filter are the SQL values with a decimal text: numbers with a fraction are not modelled. Blobs and datasets
  are compared by identity, for which they carry a number.
\<close>

subsection \<open>Values\<close>

datatype sql_lit = LNull | LNum int | LBig int | LStr string | LBlob nat

definition sqliteString :: "string \<Rightarrow> string" where
  "sqliteString str =
     quote @ concat (map (\<lambda>c. if [c] = quote then quote @ quote else [c]) str) @ quote"

text \<open>\<open>arr.map(f)\<close> for a function that may throw.\<close>

fun traverse :: "('a \<Rightarrow> 'e + 'b) \<Rightarrow> 'a list \<Rightarrow> 'e + 'b list" where
  "traverse f [] = Inr []"
| "traverse f (x # xs) =
     (case f x of Inl e \<Rightarrow> Inl e
      | Inr y \<Rightarrow> (case traverse f xs of Inl e \<Rightarrow> Inl e | Inr ys \<Rightarrow> Inr (y # ys)))"

lemma traverse_cong [fundef_cong]:
  "xs = ys \<Longrightarrow> (\<And>x. x \<in> set ys \<Longrightarrow> f x = g x) \<Longrightarrow> traverse f xs = traverse g ys"
  by (hypsubst_thin, induction ys) (simp_all split: sum.splits)

fun sqlValueToSqliteString :: "sql_lit \<Rightarrow> js_error + string" where
  "sqlValueToSqliteString (LBlob b) =
     Inl (Thrown (''Can'' @ quote @ ''t pass blob back to trace processor as value''))"
| "sqlValueToSqliteString LNull = Inr ''NULL''"
| "sqlValueToSqliteString (LStr s) = Inr (sqliteString s)"
| "sqlValueToSqliteString (LNum n) = Inr (show_int n)"
| "sqlValueToSqliteString (LBig n) = Inr (show_int n)"

definition sqlValuesToSqliteString :: "sql_lit list \<Rightarrow> js_error + string" where
  "sqlValuesToSqliteString vs =
     (case traverse sqlValueToSqliteString vs of Inl e \<Rightarrow> Inl e | Inr ts \<Rightarrow> Inr (join_with '', '' ts))"

text \<open>\<open>Object.assign(acc, obj)\<close>, the spread of objects, and adding to a \<open>Set\<close>.\<close>

definition assign :: "('k \<times> 'v) list \<Rightarrow> ('k \<times> 'v) list \<Rightarrow> ('k \<times> 'v) list" where
  "assign acc obj = foldl (\<lambda>a (k, v). AList.update k v a) acc obj"

definition set_add :: "'a \<Rightarrow> 'a list \<Rightarrow> 'a list" where
  "set_add x xs = (if x \<in> set xs then xs else xs @ [x])"

text \<open>\<open>getOrCreate(map, key, () => []).push(x)\<close>.\<close>

fun add_to_group :: "'k \<Rightarrow> 'a \<Rightarrow> ('k \<times> 'a list) list \<Rightarrow> ('k \<times> 'a list) list" where
  "add_to_group k x [] = [(k, [x])]"
| "add_to_group k x (kg # gs) =
     (if fst kg = k then (k, snd kg @ [x]) # gs else kg # add_to_group k x gs)"

subsection \<open>Source datasets\<close>

type_synonym dataset_schema = "(string \<times> sql_type) list"

datatype sql_filter = EqFilter (filter_col: string) sql_lit | InFilter (filter_col: string) "sql_lit list"

record join =
  join_from :: string
  join_unique :: bool

text \<open>A selected column is a string, or an object with an optional \<open>join\<close>.\<close>

datatype select_value = SelExpr string | SelColumn string "string option"

record source_dataset =
  sd_src :: string
  sd_schema :: dataset_schema
  sd_filter :: "sql_filter option"
  sd_select :: "(string \<times> select_value) list option"
  sd_joins :: "(string \<times> join) list option"

text \<open>\<open>this.select?.[col]\<close>, the expression that stands for a column, and its text.\<close>

definition selectValue :: "source_dataset \<Rightarrow> string \<Rightarrow> select_value option" where
  "selectValue sd col = (case sd_select sd of None \<Rightarrow> None | Some s \<Rightarrow> map_of s col)"

definition select_expr :: "source_dataset \<Rightarrow> string \<Rightarrow> string" where
  "select_expr sd col =
     (case selectValue sd col of None \<Rightarrow> col | Some (SelExpr e) \<Rightarrow> e | Some (SelColumn e j) \<Rightarrow> e)"

definition select_col :: "source_dataset \<Rightarrow> string \<Rightarrow> string" where
  "select_col sd col =
     (if select_expr sd col \<noteq> col then select_expr sd col @ '' AS '' @ col else col)"

text \<open>An empty \<open>join\<close> is falsy and not recorded.\<close>

definition referencedJoins :: "source_dataset \<Rightarrow> string list \<Rightarrow> string list" where
  "referencedJoins sd cols =
     List.map_filter (\<lambda>col. case selectValue sd col of Some (SelColumn e (Some j)) \<Rightarrow>
         (if j = [] then None else Some j) | _ \<Rightarrow> None) cols"

text \<open>The joins that stay: those that are not unique and those that a column refers to.\<close>

definition from_joins :: "source_dataset \<Rightarrow> string list \<Rightarrow> (string \<times> join) list" where
  "from_joins sd cols =
     (case sd_joins sd of None \<Rightarrow> []
      | Some js \<Rightarrow> filter (\<lambda>(i, j). \<not> (join_unique j \<and> i \<notin> set (referencedJoins sd cols))) js)"

definition joinClause :: "string \<Rightarrow> join \<Rightarrow> string" where
  "joinClause joinId j =
     (if CHR '' '' \<notin> set (join_from j) then join_from j @ '' AS '' @ joinId
      else takeWhile (\<lambda>c. c \<noteq> CHR '' '') (join_from j) @ '' AS '' @ joinId @
        dropWhile (\<lambda>c. c \<noteq> CHR '' '') (join_from j))"

definition fromClause :: "source_dataset \<Rightarrow> string list \<Rightarrow> string" where
  "fromClause sd cols =
     ''('' @ sd_src sd @ '')'' @ concat (map (\<lambda>(i, j). '' JOIN '' @ joinClause i j) (from_joins sd cols))"

definition nl :: string where
  "nl = [CHR 0x0A]"

definition indent :: "string \<Rightarrow> nat \<Rightarrow> string" where
  "indent str spaces =
     join_with nl (map (\<lambda>line. replicate spaces CHR '' '' @ line) (split_at CHR 0x0A str))"

fun filterQuery :: "sql_filter option \<Rightarrow> js_error + string option" where
  "filterQuery None = Inr None"
| "filterQuery (Some (EqFilter c v)) =
     (case sqlValueToSqliteString v of Inl e \<Rightarrow> Inl e | Inr t \<Rightarrow> Inr (Some (c @ '' = '' @ t)))"
| "filterQuery (Some (InFilter c vs)) =
     (case sqlValuesToSqliteString vs of Inl e \<Rightarrow> Inl e
      | Inr t \<Rightarrow> Inr (Some (c @ '' IN ('' @ t @ '')'')))"

definition source_query :: "source_dataset \<Rightarrow> dataset_schema option \<Rightarrow> js_error + string" where
  "source_query sd schema =
     (let colNames = map fst (case schema of None \<Rightarrow> sd_schema sd | Some s \<Rightarrow> s);
          colList = join_with ('','' @ nl) (map (select_col sd) colNames);
          selectSql = ''SELECT'' @ nl @ indent colList 2 @ nl @ ''FROM '' @ fromClause sd colNames
      in case filterQuery (sd_filter sd) of Inl e \<Rightarrow> Inl e
         | Inr None \<Rightarrow> Inr selectSql
         | Inr (Some filterSql) \<Rightarrow> Inr (selectSql @ nl @ ''WHERE '' @ filterSql))"

subsection \<open>Trees of datasets\<close>

datatype dataset =
    Source nat source_dataset
  | Union nat "dataset list"
  | Lineage nat "dataset list"

text \<open>The columns that two schemas share, at the types that cover both.\<close>

definition meet_schema :: "dataset_schema \<Rightarrow> dataset_schema \<Rightarrow> dataset_schema" where
  "meet_schema unionSchema dsSchema =
     List.map_filter (\<lambda>(key, value). case map_of dsSchema key of None \<Rightarrow> None
       | Some t \<Rightarrow> map_option (Pair key) (unionTypes value t)) unionSchema"

fun union_schema :: "dataset_schema list \<Rightarrow> dataset_schema" where
  "union_schema [] = []"
| "union_schema (s # ss) = foldl meet_schema s ss"

definition groupid :: string where
  "groupid = ''__groupid''"

definition partition_col :: string where
  "partition_col = ''__partition''"

definition lineageSchema :: dataset_schema where
  "lineageSchema = [(groupid, T_NUM), (partition_col, T_UNKNOWN)]"

fun dataset_schema :: "dataset \<Rightarrow> dataset_schema" where
  "dataset_schema (Source r sd) = sd_schema sd"
| "dataset_schema (Union r ds) = union_schema (map dataset_schema ds)"
| "dataset_schema (Lineage r ds) = assign (union_schema (map dataset_schema ds)) lineageSchema"

definition dataset_implements :: "dataset \<Rightarrow> dataset_schema \<Rightarrow> bool" where
  "dataset_implements d required =
     list_all (\<lambda>(name, t). case map_of (dataset_schema d) name of None \<Rightarrow> False
       | Some actual \<Rightarrow> checkExtends t actual) required"

text \<open>\<open>flattenUnion\<close>: the leaves, which are not \<open>UnionDataset\<close>s.\<close>

fun leaves :: "dataset \<Rightarrow> dataset list" where
  "leaves (Union r ds) = concat (map leaves ds)"
| "leaves (Source r sd) = [Source r sd]"
| "leaves (Lineage r ds) = [Lineage r ds]"

definition flattenUnion :: "dataset list \<Rightarrow> dataset list" where
  "flattenUnion ds = concat (map leaves ds)"

definition getJoinSignature :: "source_dataset \<Rightarrow> string" where
  "getJoinSignature sd =
     (case sd_joins sd of None \<Rightarrow> [] | Some js \<Rightarrow> join_with '','' (sort (map fst js)))"

definition source_key :: "source_dataset \<Rightarrow> string" where
  "source_key sd = sd_src sd @ ''|'' @ getJoinSignature sd"

subsection \<open>Merging the sources of a union\<close>

fun is_source :: "dataset \<Rightarrow> bool" where
  "is_source (Source r sd) = True"
| "is_source _ = False"

definition sources :: "dataset list \<Rightarrow> source_dataset list" where
  "sources ds = List.map_filter (\<lambda>d. case d of Source r sd \<Rightarrow> Some sd | _ \<Rightarrow> None) ds"

text \<open>The first loop of \<open>query\<close>: group the source datasets, put the others aside.\<close>

definition combinedSrcSets :: "source_dataset list \<Rightarrow> (string \<times> source_dataset list) list" where
  "combinedSrcSets ls = foldl (\<lambda>g sd. add_to_group (source_key sd) sd g) [] ls"

definition otherDatasets :: "dataset list \<Rightarrow> dataset list" where
  "otherDatasets ds = filter (\<lambda>d. \<not> is_source d) ds"

text \<open>The first mapping found for a column is taken, the last join of an identifier.\<close>

definition combinedSelect :: "source_dataset list \<Rightarrow> (string \<times> select_value) list" where
  "combinedSelect grp =
     foldl (\<lambda>acc sd. case sd_select sd of None \<Rightarrow> acc
       | Some s \<Rightarrow> foldl (\<lambda>a (col, v). if col \<in> fst ` set a then a else a @ [(col, v)]) acc s) [] grp"

definition combinedJoins :: "source_dataset list \<Rightarrow> (string \<times> join) list" where
  "combinedJoins grp =
     foldl (\<lambda>acc sd. case sd_joins sd of None \<Rightarrow> acc | Some js \<Rightarrow> assign acc js) [] grp"

fun in_filter :: "sql_filter \<Rightarrow> string \<times> sql_lit list" where
  "in_filter (EqFilter c v) = (c, [v])"
| "in_filter (InFilter c vs) = (c, vs)"

fun mergeFilters :: "(string \<times> sql_lit list) list \<Rightarrow> sql_filter option" where
  "mergeFilters [] = None"
| "mergeFilters (f # fs) =
     Some (InFilter (fst f) (foldl (\<lambda>a v. set_add v a) [] (concat (map snd (f # fs)))))"

definition merge_group :: "source_dataset list \<Rightarrow> source_dataset" where
  "merge_group grp =
     \<lparr>sd_src = sd_src (hd grp),
      sd_schema = foldl (\<lambda>acc sd. assign acc (sd_schema sd)) [] grp,
      sd_filter = mergeFilters (map in_filter (List.map_filter sd_filter grp)),
      sd_select = (if combinedSelect grp \<noteq> [] then Some (combinedSelect grp) else None),
      sd_joins = (if combinedJoins grp \<noteq> [] then Some (combinedJoins grp) else None)\<rparr>"

definition mergedSources :: "source_dataset list \<Rightarrow> source_dataset list" where
  "mergedSources ls =
     map (\<lambda>(k, grp). case grp of [sd] \<Rightarrow> sd | _ \<Rightarrow> merge_group grp) (combinedSrcSets ls)"

subsection \<open>The text of a union\<close>

definition MAX_SUBQUERIES_PER_UNION :: nat where
  "MAX_SUBQUERIES_PER_UNION = 500"

definition union_all :: "string list \<Rightarrow> string" where
  "union_all qs = join_with (nl @ ''UNION ALL'' @ nl) qs"

text \<open>\<open>subQueries.slice(i, i + n)\<close> for \<open>i = 0, n, 2 n, \<dots>\<close>.\<close>

function batches :: "nat \<Rightarrow> 'a list \<Rightarrow> 'a list list" where
  "batches n xs =
     (if n = 0 \<or> xs = [] then [] else take n xs # batches n (drop n xs))"
  by pat_completeness auto
termination by (relation "measure (\<lambda>(n, xs). length xs)") auto

declare batches.simps [simp del]

definition cte_names :: "string \<Rightarrow> nat \<Rightarrow> string list" where
  "cte_names prefix n = map (\<lambda>i. prefix @ show_nat i) [0..<n]"

text \<open>A common table expression that unites one batch of statements.\<close>

definition cte_text :: "string \<Rightarrow> string list \<Rightarrow> string" where
  "cte_text cteName batch =
     cteName @ '' AS ('' @ nl @ indent (union_all batch) 2 @ nl @ '')''"

definition union_text :: "dataset_schema \<Rightarrow> string list \<Rightarrow> string" where
  "union_text querySchema subQueries =
     (case subQueries of [q] \<Rightarrow> q
      | _ \<Rightarrow>
        if length subQueries \<le> MAX_SUBQUERIES_PER_UNION then union_all subQueries
        else
          (let bs = batches MAX_SUBQUERIES_PER_UNION subQueries;
               cteNames = cte_names ''union_batch_'' (length bs);
               cols = join_with ('','' @ nl) (map fst querySchema)
           in ''WITH'' @ nl @ join_with ('','' @ nl) (map2 cte_text cteNames bs) @ nl @
              union_all (map (\<lambda>name. ''SELECT'' @ nl @ indent cols 2 @ nl @ ''FROM '' @ name) cteNames)))"

subsection \<open>Lineage\<close>

text \<open>
  The groups of a \<open>UnionDatasetWithLineage\<close>, which its constructor builds: the sources on the same
  table, every other dataset by itself.
\<close>

definition group_step :: "(string \<times> dataset list) list \<Rightarrow> dataset \<Rightarrow> (string \<times> dataset list) list" where
  "group_step gs d =
     (case d of Source r sd \<Rightarrow> add_to_group (source_key sd) d gs
      | _ \<Rightarrow> AList.update (''__other_'' @ show_nat (length gs)) [d] gs)"

definition sourceGroupArray :: "dataset list \<Rightarrow> (string \<times> dataset list) list" where
  "sourceGroupArray ds = foldl group_step [] ds"

record partition_map =
  pm_columns :: "(string \<times> (sql_lit \<times> dataset list) list) list"
  pm_unfiltered :: "dataset list"

definition map_get :: "'k \<Rightarrow> ('k \<times> 'v list) list \<Rightarrow> 'v list" where
  "map_get k m = (case map_of m k of None \<Rightarrow> [] | Some vs \<Rightarrow> vs)"

definition add_value :: "dataset \<Rightarrow> (sql_lit \<times> dataset list) list \<Rightarrow> sql_lit \<Rightarrow> (sql_lit \<times> dataset list) list" where
  "add_value d valueMap v = AList.update v (set_add d (map_get v valueMap)) valueMap"

definition partition_step :: "partition_map \<Rightarrow> dataset \<Rightarrow> partition_map" where
  "partition_step pm d =
     (case d of
        Source r sd \<Rightarrow>
          (case sd_filter sd of
             None \<Rightarrow> pm\<lparr>pm_unfiltered := set_add d (pm_unfiltered pm)\<rparr>
           | Some f \<Rightarrow>
               pm\<lparr>pm_columns := AList.update (filter_col f)
                    (foldl (add_value d) (map_get (filter_col f) (pm_columns pm)) (snd (in_filter f)))
                    (pm_columns pm)\<rparr>)
      | _ \<Rightarrow> pm\<lparr>pm_unfiltered := set_add d (pm_unfiltered pm)\<rparr>)"

definition buildPartitionMap :: "dataset list \<Rightarrow> partition_map" where
  "buildPartitionMap grp = foldl partition_step \<lparr>pm_columns = [], pm_unfiltered = []\<rparr> grp"

text \<open>
  \<open>Number(v)\<close>: what a string, a blob or a \<open>bigint\<close> beyond the safe integers becomes is an argument of
  the model, which answers the safe integer, if it is one.
\<close>

definition to_number :: "(sql_lit \<Rightarrow> int option) \<Rightarrow> sql_lit \<Rightarrow> sql_lit option" where
  "to_number num v =
     (case v of LNum n \<Rightarrow> Some (LNum n)
      | LNull \<Rightarrow> Some (LNum 0)
      | LBig n \<Rightarrow> if \<bar>n\<bar> \<le> 2 ^ 53 then Some (LNum n) else map_option LNum (num v)
      | _ \<Rightarrow> map_option LNum (num v))"

definition lookup_value ::
  "(sql_lit \<Rightarrow> int option) \<Rightarrow> sql_lit \<Rightarrow> (sql_lit \<times> dataset list) list \<Rightarrow> dataset list option" where
  "lookup_value num v valueMap =
     (case map_of valueMap v of Some ds \<Rightarrow> Some ds
      | None \<Rightarrow> (case to_number num v of None \<Rightarrow> None | Some n \<Rightarrow> map_of valueMap n))"

text \<open>The loop over the partition columns stops at the first that knows the value.\<close>

fun first_match ::
  "(sql_lit \<Rightarrow> int option) \<Rightarrow> sql_lit \<Rightarrow> (string \<times> (sql_lit \<times> dataset list) list) list \<Rightarrow> dataset list" where
  "first_match num v [] = []"
| "first_match num v (c # cs) =
     (case lookup_value num v (snd c) of Some ds \<Rightarrow> ds | None \<Rightarrow> first_match num v cs)"

definition resolveLineage ::
  "(sql_lit \<Rightarrow> int option) \<Rightarrow> dataset list \<Rightarrow> int \<Rightarrow> sql_lit \<Rightarrow> dataset list" where
  "resolveLineage num ds groupId partitionValue =
     (let gs = sourceGroupArray ds in
      if groupId < 0 \<or> int (length gs) \<le> groupId then []
      else
        (let grp = snd (gs ! nat groupId); pm = buildPartitionMap grp in
         if pm_columns pm = [] then grp
         else first_match num partitionValue (pm_columns pm) @ pm_unfiltered pm))"

text \<open>The statement of one group, which adds the two lineage columns, and their union.\<close>

definition base_schema :: "dataset_schema \<Rightarrow> dataset_schema" where
  "base_schema s = filter (\<lambda>(k, v). k \<noteq> groupid \<and> k \<noteq> partition_col) s"

definition partitionColumns :: "dataset list \<Rightarrow> string list" where
  "partitionColumns grp = map fst (pm_columns (buildPartitionMap grp))"

definition group_text :: "dataset_schema \<Rightarrow> nat \<Rightarrow> dataset list \<Rightarrow> string \<Rightarrow> string" where
  "group_text base groupId grp baseQuery =
     ''SELECT'' @ nl @ indent (join_with ('','' @ nl) (map fst base)) 2 @ '','' @ nl @
     ''  '' @ show_nat groupId @ '' AS '' @ groupid @ '','' @ nl @
     ''  '' @ (case partitionColumns grp of [] \<Rightarrow> ''NULL'' | c # _ \<Rightarrow> c) @ '' AS '' @ partition_col @ nl @
     ''FROM ('' @ nl @ indent baseQuery 2 @ nl @ '')''"

definition lineage_text :: "dataset_schema \<Rightarrow> string list \<Rightarrow> string" where
  "lineage_text base groupQueries =
     (case groupQueries of
        [] \<Rightarrow> ''SELECT'' @ nl @ indent (join_with ('','' @ nl) (map fst base)) 2 @ '','' @ nl @
              ''  0 AS '' @ groupid @ '','' @ nl @ ''  NULL AS '' @ partition_col @ nl @ ''WHERE FALSE''
      | [q] \<Rightarrow> q
      | _ \<Rightarrow>
        if length groupQueries \<le> MAX_SUBQUERIES_PER_UNION then union_all groupQueries
        else
          (let bs = batches MAX_SUBQUERIES_PER_UNION groupQueries;
               cteNames = cte_names ''_lineage_chunk_'' (length bs)
           in ''WITH '' @ join_with ('','' @ nl) (map2 cte_text cteNames bs) @ nl @
              union_all (map (\<lambda>name. ''SELECT * FROM '' @ name) cteNames)))"

subsection \<open>The statement of a tree\<close>

text \<open>
  \<open>query\<close> of the three classes. A union asks its merged sources and then its other leaves, which are
  unions with lineage; those make a union of each of their groups. The weight of a tree goes down.
\<close>

fun weight :: "dataset \<Rightarrow> nat" where
  "weight (Source r sd) = 1"
| "weight (Union r ds) = 1 + sum_list (map weight ds)"
| "weight (Lineage r ds) = 2 + sum_list (map weight ds)"

definition mergedDatasets :: "dataset list \<Rightarrow> dataset list" where
  "mergedDatasets ds =
     (let ls = flattenUnion ds in map (Source 0) (mergedSources (sources ls)) @ otherDatasets ls)"

lemma weight_pos [simp]: "0 < weight d"
  by (cases d) simp_all

lemma sum_list_of_concat: "sum_list (concat xss) = sum_list (map sum_list (xss :: nat list list))"
  by (induction xss) simp_all

lemma sum_list_leaves: "sum_list (map weight (leaves d)) \<le> weight d"
  by (induction d rule: leaves.induct)
    (simp_all add: map_concat sum_list_of_concat o_def le_SucI sum_list_mono)

lemma sum_list_flattenUnion: "sum_list (map weight (flattenUnion ds)) \<le> sum_list (map weight ds)"
  by (simp add: flattenUnion_def map_concat sum_list_of_concat o_def sum_list_leaves sum_list_mono)

lemma sources_mem: "sd \<in> set (sources ls) \<longleftrightarrow> (\<exists>r. Source r sd \<in> set ls)"
  by (induction ls) (auto simp: sources_def List.map_filter_def split: dataset.splits)

lemma mergedSources_Nil: "mergedSources [] = []"
  by (simp add: mergedSources_def combinedSrcSets_def)

lemma mergedDatasets_weight:
  assumes "d \<in> set (mergedDatasets ds)"
  shows "weight d < weight (Union r ds)"
proof -
  let ?ls = "flattenUnion ds"
  have "weight d \<le> sum_list (map weight ?ls)"
  proof (cases "is_source d")
    case True
    then obtain i sd where d: "d = Source i sd" by (cases d) simp_all
    with assms have "mergedSources (sources ?ls) \<noteq> []"
      by (auto simp: mergedDatasets_def Let_def otherDatasets_def)
    then have "sources ?ls \<noteq> []" by (auto simp: mergedSources_Nil)
    then obtain j x where "Source j x \<in> set ?ls"
      by (metis list.set_intros(1) neq_Nil_conv sources_mem)
    then have "weight (Source j x) \<le> sum_list (map weight ?ls)"
      by (intro member_le_sum_list) (simp_all add: image_eqI [where x = "Source j x"])
    with d show ?thesis by simp
  next
    case False
    with assms have "d \<in> set ?ls"
      by (auto simp: mergedDatasets_def Let_def otherDatasets_def)
    then show ?thesis by (intro member_le_sum_list) simp_all
  qed
  with sum_list_flattenUnion [of ds] show ?thesis by simp
qed

lemma add_to_group_weight:
  "(k', g) \<in> set (add_to_group k d gs) \<Longrightarrow> \<forall>(k'', g')\<in>set gs. sum_list (map weight g') \<le> n \<Longrightarrow>
     sum_list (map weight g) \<le> n + weight d"
  by (induction gs) (auto split: if_splits intro: le_trans [OF _ le_add1])

lemma update_mem: "(k, v) \<in> set (AList.update k' v' m) \<Longrightarrow> (k = k' \<and> v = v') \<or> (k, v) \<in> set m"
  by (induction m) (auto split: if_splits)

lemma sourceGroupArray_weight:
  "(k, g) \<in> set (sourceGroupArray ds) \<Longrightarrow> sum_list (map weight g) \<le> sum_list (map weight ds)"
proof (induction ds arbitrary: k g rule: rev_induct)
  case Nil
  then show ?case by (simp add: sourceGroupArray_def)
next
  case (snoc d ds)
  let ?gs = "sourceGroupArray ds" and ?n = "sum_list (map weight ds)"
  have old: "\<forall>(k', g')\<in>set ?gs. sum_list (map weight g') \<le> ?n" using snoc.IH by blast
  have new: "(k, g) \<in> set (group_step ?gs d)" using snoc.prems by (simp add: sourceGroupArray_def)
  show ?case
  proof (cases "is_source d")
    case True
    then obtain r sd where "d = Source r sd" by (cases d) simp_all
    with new have "(k, g) \<in> set (add_to_group (source_key sd) d ?gs)" by (simp add: group_step_def)
    then show ?thesis using add_to_group_weight [OF _ old] by fastforce
  next
    case False
    with new have "(k, g) \<in> set (AList.update (''__other_'' @ show_nat (length ?gs)) [d] ?gs)"
      by (cases d) (simp_all add: group_step_def)
    then have "g = [d] \<or> (k, g) \<in> set ?gs" by (auto dest: update_mem)
    with old show ?thesis by (auto simp: trans_le_add1)
  qed
qed

lemma enumerate_group_weight:
  assumes "(i, grp) \<in> set (enumerate 0 (map snd (sourceGroupArray ds)))"
  shows "weight (Union 0 grp) < weight (Lineage r ds)"
proof -
  from assms have "grp \<in> set (map snd (sourceGroupArray ds))" 
    by (metis enumerate_eq_zip set_zip_rightD)
  then obtain k where "(k, grp) \<in> set (sourceGroupArray ds)" by auto
  then show ?thesis using sourceGroupArray_weight by fastforce
qed

function dataset_query :: "dataset \<Rightarrow> dataset_schema option \<Rightarrow> js_error + string" where
  "dataset_query (Source r sd) schema = source_query sd schema"
| "dataset_query (Union r ds) schema =
     (let querySchema = (case schema of None \<Rightarrow> dataset_schema (Union r ds) | Some s \<Rightarrow> s)
      in case traverse (\<lambda>d. dataset_query d (Some querySchema)) (mergedDatasets ds) of
           Inl e \<Rightarrow> Inl e
         | Inr qs \<Rightarrow> Inr (union_text querySchema qs))"
| "dataset_query (Lineage r ds) schema =
     (let base = base_schema (case schema of None \<Rightarrow> dataset_schema (Lineage r ds) | Some s \<Rightarrow> s)
      in case traverse (\<lambda>(i, grp).
             (case dataset_query (Union 0 grp)
                 (Some (assign base (map (\<lambda>c. (c, T_NUM)) (partitionColumns grp)))) of
                Inl e \<Rightarrow> Inl e | Inr q \<Rightarrow> Inr (group_text base i grp q)))
             (enumerate 0 (map snd (sourceGroupArray ds))) of
           Inl e \<Rightarrow> Inl e
         | Inr qs \<Rightarrow> Inr (lineage_text base qs))"
  by pat_completeness auto

termination
  by (relation "measure (\<lambda>(d, s). weight d)")
    (auto simp only: in_measure split_conv wf_measure prod.inject intro: mergedDatasets_weight
      enumerate_group_weight)

end
