(* ===== verification/Perfetto_Sql_Type.thy ===== *)
theory Perfetto_Sql_Type
  imports Prelude
begin

text \<open>
  The types of PerfettoSQL columns, \<^verbatim>\<open>trace_processor/perfetto_sql_type.ts\<close>: the parser of type names,
  the printer, and the functions that switch over the kinds. A string is a list of the code units
  below 256.
\<close>

subsection \<open>Types\<close>

datatype SimpleTypeKind =
  KInt | KDouble | KBoolean | KString | KBytes | KTimestamp | KDuration | KArgSetId

datatype IdTypeKind = KId | KJoinId

text \<open>
  A simple type, a type with a source column, or an object whose \<open>kind\<close> is no kind at all:
  \<open>SIMPLE_TYPES\<close> is an object literal, and looking up the lower-case name of a member of
  \<open>Object.prototype\<close> in it gives that member.
\<close>

datatype PerfettoSqlType =
    SimpleType SimpleTypeKind
  | IdType IdTypeKind string string
  | InheritedKind string

fun kind_name :: "SimpleTypeKind \<Rightarrow> string" where
  "kind_name KInt = ''int''"
| "kind_name KDouble = ''double''"
| "kind_name KBoolean = ''boolean''"
| "kind_name KString = ''string''"
| "kind_name KBytes = ''bytes''"
| "kind_name KTimestamp = ''timestamp''"
| "kind_name KDuration = ''duration''"
| "kind_name KArgSetId = ''arg_set_id''"

fun isIdType :: "PerfettoSqlType \<Rightarrow> bool" where
  "isIdType (IdType _ _ _) = True"
| "isIdType _ = False"

fun typesEqual :: "PerfettoSqlType \<Rightarrow> PerfettoSqlType \<Rightarrow> bool" where
  "typesEqual (IdType k t c) (IdType k' t' c') =
     (if c \<noteq> c' \<or> t \<noteq> t' then False else if k \<noteq> k' then False else True)"
| "typesEqual (SimpleType k) (SimpleType k') = (if k \<noteq> k' then False else True)"
| "typesEqual (InheritedKind m) (InheritedKind m') = (if m \<noteq> m' then False else True)"
| "typesEqual _ _ = False"

text \<open>A \<open>switch\<close> that no case matches falls through, and the function returns \<open>undefined\<close>.\<close>

fun underlyingSqlType :: "PerfettoSqlType \<Rightarrow> string option" where
  "underlyingSqlType (SimpleType KDouble) = Some ''REAL''"
| "underlyingSqlType (SimpleType KBytes) = Some ''BYTES''"
| "underlyingSqlType (SimpleType KString) = Some ''TEXT''"
| "underlyingSqlType (SimpleType _) = Some ''INTEGER''"
| "underlyingSqlType (IdType _ _ _) = Some ''INTEGER''"
| "underlyingSqlType (InheritedKind _) = None"

fun isQuantitativeType :: "PerfettoSqlType \<Rightarrow> bool option" where
  "isQuantitativeType (SimpleType KBytes) = Some False"
| "isQuantitativeType (SimpleType KString) = Some False"
| "isQuantitativeType (SimpleType _) = Some True"
| "isQuantitativeType (IdType _ _ _) = Some True"
| "isQuantitativeType (InheritedKind _) = None"

fun perfettoSqlTypeIcon :: "PerfettoSqlType option \<Rightarrow> string option" where
  "perfettoSqlTypeIcon None = Some ''help_outline''"
| "perfettoSqlTypeIcon (Some (SimpleType KInt)) = Some ''tag''"
| "perfettoSqlTypeIcon (Some (SimpleType KDouble)) = Some ''decimal_increase''"
| "perfettoSqlTypeIcon (Some (SimpleType KString)) = Some ''text_fields''"
| "perfettoSqlTypeIcon (Some (SimpleType KBoolean)) = Some ''toggle_on''"
| "perfettoSqlTypeIcon (Some (SimpleType KTimestamp)) = Some ''schedule''"
| "perfettoSqlTypeIcon (Some (SimpleType KDuration)) = Some ''timer''"
| "perfettoSqlTypeIcon (Some (SimpleType KBytes)) = Some ''memory''"
| "perfettoSqlTypeIcon (Some (SimpleType KArgSetId)) = Some ''dataset''"
| "perfettoSqlTypeIcon (Some (IdType _ _ _)) = Some ''key''"
| "perfettoSqlTypeIcon (Some (InheritedKind _)) = None"

subsection \<open>Strings\<close>

text \<open>\<open>toLowerCase\<close> and, for the letters of the kind names, \<open>toUpperCase\<close> on one code unit.\<close>

definition lower_char :: "char \<Rightarrow> char" where
  "lower_char c =
     (let n = of_char c :: nat in
      if (65 \<le> n \<and> n \<le> 90) \<or> (192 \<le> n \<and> n \<le> 222 \<and> n \<noteq> 215) then char_of (n + 32) else c)"

definition upper_char :: "char \<Rightarrow> char" where
  "upper_char c =
     (let n = of_char c :: nat in if 97 \<le> n \<and> n \<le> 122 then char_of (n - 32) else c)"

definition toLowerCase :: "string \<Rightarrow> string" where
  "toLowerCase s = map lower_char s"

definition toUpperCase :: "string \<Rightarrow> string" where
  "toUpperCase s = map upper_char s"

subsection \<open>Parsing\<close>

definition SIMPLE_TYPES :: "(string \<times> SimpleTypeKind) list" where
  "SIMPLE_TYPES =
     [(''long'', KInt), (''int'', KInt), (''bool'', KBoolean), (''float'', KDouble),
      (''double'', KDouble), (''string'', KString), (''bytes'', KBytes),
      (''timestamp'', KTimestamp), (''duration'', KDuration), (''argsetid'', KArgSetId),
      (''boolean'', KBoolean), (''arg_set_id'', KArgSetId)]"

definition SIMPLE_TYPE_KINDS :: "SimpleTypeKind list" where
  "SIMPLE_TYPE_KINDS =
     [KInt, KDouble, KString, KBoolean, KTimestamp, KDuration, KBytes, KArgSetId]"

text \<open>The members of \<open>Object.prototype\<close> whose names have no upper-case letter.\<close>

definition object_members :: "string list" where
  "object_members = [''constructor'', ''__proto__'']"

definition lookup_simple :: "string \<Rightarrow> PerfettoSqlType option" where
  "lookup_simple v =
     (case map_of SIMPLE_TYPES v of
        Some k \<Rightarrow> Some (SimpleType k)
      | None \<Rightarrow> if v \<in> set object_members then Some (InheritedKind v) else None)"

text \<open>
  \<open>value.match(/^<prefix>\(([^.]+)\.([^)]+)\)$/)\<close>: the two groups. The first group ends at the first
  dot, the second at the first closing parenthesis, which must be the last character.
\<close>

definition match_source :: "string \<Rightarrow> string \<Rightarrow> (string \<times> string) option" where
  "match_source prefix v =
     (if take (length prefix + 1) v \<noteq> prefix @ ''('' then None
      else let r = drop (length prefix + 1) v;
               tb = takeWhile (\<lambda>c. c \<noteq> CHR ''.'') r;
               r2 = drop (length tb + 1) r;
               co = takeWhile (\<lambda>c. c \<noteq> CHR '')'') r2
           in if tb = [] \<or> length tb = length r \<or> co = [] \<or> drop (length co) r2 \<noteq> '')'' then None
              else Some (tb, co))"

record type_args =
  ta_type :: string
  ta_table :: "string option"
  ta_column :: "string option"

definition unknown_type :: "string \<Rightarrow> string" where
  "unknown_type t = ''Unknown type: '' @ t"

definition plain_id_error :: string where
  "plain_id_error =
     ''Cannot parse plain '' @ quote @ ''id'' @ quote @ '' type without table and column context''"

definition parsePerfettoSqlTypeFromString :: "type_args \<Rightarrow> string + PerfettoSqlType" where
  "parsePerfettoSqlTypeFromString args =
     (let v = toLowerCase (ta_type args) in
      case lookup_simple v of
        Some t \<Rightarrow> Inr t
      | None \<Rightarrow>
          if v = ''id'' then
            (case (ta_table args, ta_column args) of
               (Some tb, Some co) \<Rightarrow> Inr (IdType KId tb co)
             | _ \<Rightarrow> Inl plain_id_error)
          else (case match_source ''joinid'' v of
                  Some (tb, co) \<Rightarrow> Inr (IdType KJoinId tb co)
                | None \<Rightarrow>
                    (case match_source ''id'' v of
                       Some (tb, co) \<Rightarrow> Inr (IdType KId tb co)
                     | None \<Rightarrow> Inl (unknown_type (ta_type args)))))"

text \<open>Printing; \<open>kind.toUpperCase()\<close> throws when \<open>kind\<close> is not a string.\<close>

fun perfettoSqlTypeToString :: "PerfettoSqlType option \<Rightarrow> js_error + string" where
  "perfettoSqlTypeToString None = Inr ''ANY''"
| "perfettoSqlTypeToString (Some (IdType KId tb co)) = Inr (''ID('' @ tb @ ''.'' @ co @ '')'')"
| "perfettoSqlTypeToString (Some (IdType KJoinId tb co)) = Inr (''JOINID('' @ tb @ ''.'' @ co @ '')'')"
| "perfettoSqlTypeToString (Some (SimpleType k)) = Inr (toUpperCase (kind_name k))"
| "perfettoSqlTypeToString (Some (InheritedKind _)) = Inl (Thrown ''TypeError'')"

subsection \<open>Typing\<close>

text \<open>A value of the declared type \<open>PerfettoSqlType\<close>.\<close>

definition well_typed :: "PerfettoSqlType \<Rightarrow> bool" where
  "well_typed t \<longleftrightarrow> (case t of InheritedKind _ \<Rightarrow> False | _ \<Rightarrow> True)"

lemma well_typed_total:
  assumes "well_typed t"
  shows "underlyingSqlType t \<noteq> None" "isQuantitativeType t \<noteq> None" "perfettoSqlTypeIcon (Some t) \<noteq> None"
    "\<not> isl (perfettoSqlTypeToString (Some t))"
proof -
  have "underlyingSqlType t \<noteq> None \<and> isQuantitativeType t \<noteq> None \<and> perfettoSqlTypeIcon (Some t) \<noteq> None \<and>
      \<not> isl (perfettoSqlTypeToString (Some t))"
  proof (cases t)
    case (SimpleType k)
    then show ?thesis by (cases k) simp_all
  next
    case (IdType k tb co)
    then show ?thesis by (cases k) simp_all
  next
    case (InheritedKind m)
    then show ?thesis using assms by (simp add: well_typed_def)
  qed
  then show "underlyingSqlType t \<noteq> None" "isQuantitativeType t \<noteq> None" "perfettoSqlTypeIcon (Some t) \<noteq> None"
    "\<not> isl (perfettoSqlTypeToString (Some t))"
    by blast+
qed

lemma typesEqual_iff: "typesEqual s t \<longleftrightarrow> s = t"
  by (cases "(s, t)" rule: typesEqual.cases) auto

lemma SIMPLE_TYPE_KINDS_all: "k \<in> set SIMPLE_TYPE_KINDS"
  by (cases k) (simp_all add: SIMPLE_TYPE_KINDS_def)

lemma lookup_simple_typed:
  assumes "lookup_simple v = Some t"
  shows "(\<exists>k. t = SimpleType k) \<or> (v \<in> set object_members \<and> t = InheritedKind v)"
  using assms by (auto simp: lookup_simple_def split: option.splits if_splits)

lemma lookup_member: "v \<in> set object_members \<Longrightarrow> lookup_simple v = Some (InheritedKind v)"
proof -
  have "list_all (\<lambda>v. lookup_simple v = Some (InheritedKind v)) object_members" by code_simp
  then show "v \<in> set object_members \<Longrightarrow> lookup_simple v = Some (InheritedKind v)"
    by (simp only: list_all_iff)
qed

text \<open>
  C4. Type safety of the parser of type names: what it returns is a type on which every function that
  switches over the kinds is defined and which prints, unless the lower-case name is that of a member
  of \<open>Object.prototype\<close>. Then the look-up in the object literal \<open>SIMPLE_TYPES\<close> finds that member, the
  functions return \<open>undefined\<close>, and printing throws.
\<close>

theorem parse_well_typed:
  assumes "parsePerfettoSqlTypeFromString args = Inr t"
  shows "if toLowerCase (ta_type args) \<in> set object_members
    then underlyingSqlType t = None \<and> isQuantitativeType t = None \<and> isl (perfettoSqlTypeToString (Some t))
    else underlyingSqlType t \<noteq> None \<and> isQuantitativeType t \<noteq> None \<and> perfettoSqlTypeIcon (Some t) \<noteq> None \<and>
      \<not> isl (perfettoSqlTypeToString (Some t))"
proof (cases "toLowerCase (ta_type args) \<in> set object_members")
  case True
  then show ?thesis
    using assms by (auto simp: parsePerfettoSqlTypeFromString_def Let_def lookup_member)
next
  case False
  then have "well_typed t"
    using assms
    by (auto simp: parsePerfettoSqlTypeFromString_def Let_def well_typed_def
        split: option.splits if_splits prod.splits dest!: lookup_simple_typed)
  then show ?thesis using False well_typed_total by simp
qed

theorem parse_well_typed_witness:
  "underlyingSqlType (InheritedKind ''constructor'') = None \<and> underlyingSqlType (SimpleType KInt) = Some ''INTEGER'' \<and>
   parsePerfettoSqlTypeFromString \<lparr>ta_type = ''Constructor'', ta_table = None, ta_column = None\<rparr> =
     Inr (InheritedKind ''constructor'') \<and>
   isl (perfettoSqlTypeToString (Some (InheritedKind ''constructor'')))"
proof -
  have 1: "parsePerfettoSqlTypeFromString \<lparr>ta_type = ''Constructor'', ta_table = None, ta_column = None\<rparr> =
      Inr (InheritedKind ''constructor'')" by code_simp
  have 2: "toLowerCase (ta_type \<lparr>ta_type = ''Constructor'', ta_table = None, ta_column = None\<rparr>) \<in> set object_members"
    by code_simp
  show ?thesis using parse_well_typed [OF 1] 1 2 by simp
qed

subsection \<open>Printing and parsing\<close>

lemma of_char_lower:
  "(of_char (lower_char c) :: nat) =
     (let n = of_char c in
      if (65 \<le> n \<and> n \<le> 90) \<or> (192 \<le> n \<and> n \<le> 222 \<and> n \<noteq> 215) then n + 32 else n)"
  by (auto simp: lower_char_def Let_def)

lemma char_eq_of_char: "c = d \<longleftrightarrow> (of_char c :: nat) = of_char d"
  by simp

lemma lower_char_props:
  "lower_char c = CHR ''.'' \<longleftrightarrow> c = CHR ''.''" "lower_char c = CHR '')'' \<longleftrightarrow> c = CHR '')''"
  by (auto simp: char_eq_of_char of_char_lower Let_def simp del: of_char_eq_iff split: if_splits)

lemma toLowerCase_append [simp]: "toLowerCase (s @ t) = toLowerCase s @ toLowerCase t"
  by (simp add: toLowerCase_def)

lemma toLowerCase_length [simp]: "length (toLowerCase s) = length s"
  by (simp add: toLowerCase_def)

lemma toLowerCase_nil [simp]: "toLowerCase s = [] \<longleftrightarrow> s = []"
  by (simp add: toLowerCase_def)

lemma toLowerCase_mem:
  "CHR ''.'' \<in> set (toLowerCase s) \<longleftrightarrow> CHR ''.'' \<in> set s"
  "CHR '')'' \<in> set (toLowerCase s) \<longleftrightarrow> CHR '')'' \<in> set s"
  using lower_char_props by (auto simp: toLowerCase_def image_iff eq_commute [of "CHR ''.''"] eq_commute [of "CHR '')''"])

lemma match_source_printed:
  assumes "tb \<noteq> []" "CHR ''.'' \<notin> set tb" "co \<noteq> []" "CHR '')'' \<notin> set co"
  shows "match_source p (p @ ''('' @ tb @ ''.'' @ co @ '')'') = Some (tb, co)"
proof -
  have 1: "takeWhile (\<lambda>c. c \<noteq> CHR ''.'') (tb @ CHR ''.'' # co @ '')'') = tb"
    using assms(2) by (subst takeWhile_append2) auto
  have 2: "takeWhile (\<lambda>c. c \<noteq> CHR '')'') (co @ '')'') = co"
    using assms(4) by (subst takeWhile_append2) auto
  show ?thesis using assms by (simp add: match_source_def Let_def 1 2)
qed

lemma not_simple_paren: "CHR '')'' \<in> set v \<Longrightarrow> lookup_simple v = None"
proof -
  assume p: "CHR '')'' \<in> set v"
  have all: "list_all (\<lambda>k. CHR '')'' \<notin> set k) (map fst SIMPLE_TYPES @ object_members)" by code_simp
  then have "v \<notin> fst ` set SIMPLE_TYPES" and "v \<notin> set object_members"
    using p by (auto simp only: list_all_iff set_append set_map)
  then show ?thesis by (auto simp: lookup_simple_def map_of_eq_None_iff split: option.split dest: map_of_SomeD)
qed

definition source_ok :: "PerfettoSqlType \<Rightarrow> bool" where
  "source_ok t \<longleftrightarrow>
     (case t of
        IdType _ tb co \<Rightarrow> tb \<noteq> [] \<and> CHR ''.'' \<notin> set tb \<and> co \<noteq> [] \<and> CHR '')'' \<notin> set co
      | SimpleType _ \<Rightarrow> True
      | InheritedKind _ \<Rightarrow> False)"

fun lower_source :: "PerfettoSqlType \<Rightarrow> PerfettoSqlType" where
  "lower_source (IdType k tb co) = IdType k (toLowerCase tb) (toLowerCase co)"
| "lower_source t = t"

text \<open>
  C11. Round trip: every type prints, and parsing the text gives the type back in any context, except
  that the table and the column of an id type come back in lower case.
\<close>

theorem parse_printed:
  assumes "source_ok t"
  shows "\<exists>s. perfettoSqlTypeToString (Some t) = Inr s \<and>
    parsePerfettoSqlTypeFromString \<lparr>ta_type = s, ta_table = tb0, ta_column = co0\<rparr> = Inr (lower_source t)"
proof (cases t)
  case (SimpleType k)
  then show ?thesis by (cases k; simp) code_simp+
next
  case (IdType k tb co)
  have ok: "toLowerCase tb \<noteq> []" "CHR ''.'' \<notin> set (toLowerCase tb)" "toLowerCase co \<noteq> []"
    "CHR '')'' \<notin> set (toLowerCase co)"
    using assms by (simp_all add: source_ok_def IdType toLowerCase_mem)
  define body where "body = ''('' @ toLowerCase tb @ ''.'' @ toLowerCase co @ '')''"
  have low: "toLowerCase (''ID('' @ tb @ ''.'' @ co @ '')'') = ''id'' @ body"
    "toLowerCase (''JOINID('' @ tb @ ''.'' @ co @ '')'') = ''joinid'' @ body"
  proof -
    have "toLowerCase ''ID('' = ''id(''" "toLowerCase ''JOINID('' = ''joinid(''" "toLowerCase ''.'' = ''.''"
      "toLowerCase '')'' = '')''" by code_simp+
    then show "toLowerCase (''ID('' @ tb @ ''.'' @ co @ '')'') = ''id'' @ body"
      "toLowerCase (''JOINID('' @ tb @ ''.'' @ co @ '')'') = ''joinid'' @ body"
      by (simp_all only: toLowerCase_append body_def) simp_all
  qed
  have m: "match_source p (p @ body) = Some (toLowerCase tb, toLowerCase co)" for p
    unfolding body_def by (rule match_source_printed [OF ok])
  have no: "match_source ''joinid'' (''id'' @ body) = None"
    by (simp add: match_source_def body_def)
  have simple: "lookup_simple (p @ body) = None" for p
    by (rule not_simple_paren) (simp add: body_def)
  have ne: "''id'' @ body \<noteq> ''id''" "''joinid'' @ body \<noteq> ''id''" by (simp_all add: body_def)
  show ?thesis
  proof (cases k)
    case KId
    then show ?thesis
      using m [of "''id''"] no simple [of "''id''"] ne(1) low(1)
      by (simp add: IdType parsePerfettoSqlTypeFromString_def Let_def)
  next
    case KJoinId
    then show ?thesis
      using m [of "''joinid''"] simple [of "''joinid''"] ne(2) low(2)
      by (simp add: IdType parsePerfettoSqlTypeFromString_def Let_def)
  qed
next
  case (InheritedKind m)
  then show ?thesis using assms by (simp add: source_ok_def)
qed

theorem parse_printed_witness:
  "\<exists>s. perfettoSqlTypeToString (Some (IdType KJoinId ''Thread'' ''uTid'')) = Inr s \<and>
    parsePerfettoSqlTypeFromString \<lparr>ta_type = s, ta_table = None, ta_column = None\<rparr> =
      Inr (IdType KJoinId ''thread'' ''utid'')"
proof -
  have "source_ok (IdType KJoinId ''Thread'' ''uTid'')" by code_simp
  moreover have "lower_source (IdType KJoinId ''Thread'' ''uTid'') = IdType KJoinId ''thread'' ''utid''" by code_simp
  ultimately show ?thesis using parse_printed [of "IdType KJoinId ''Thread'' ''uTid''" None None] by simp
qed

end
