(* ===== verification/Track_Manager.thy ===== *)
theory Track_Manager
  imports Plugin_Manager Dataset Perfetto_Sql_Type
begin

text \<open>
  The registry of tracks, \<^verbatim>\<open>core/track_manager.ts\<close>, with overlays and the filters of the track list. A track
  is what the managers of the viewer use of it: its URI, the root table and the dataset of its
  renderer, its tags, and which optional methods the renderer has.
\<close>

subsection \<open>Tracks\<close>

text \<open>The dataset that \<open>getDataset\<close> returns is a \<open>SourceDataset\<close> with its identity.\<close>

record track =
  track_uri :: string
  rootTableName :: "string option"
  track_dataset :: "(nat \<times> source_dataset) option"
  tag_trackIds :: "int list option"
  tag_cpu :: "int option"
  tag_kinds :: "string list option"
  has_selection_details :: bool
  has_details_panel :: bool

text \<open>\<open>TrackFilterState\<close> and the manager; an overlay is known by its identity.\<close>

record track_filter_state =
  nameFilter :: string
  criteriaFilters :: "(string \<times> string list) list"

record track_manager =
  tracks :: "track registry"
  overlays :: "nat list"
  filterCriteria :: "string list"
  track_filters :: track_filter_state

definition no_filters :: track_filter_state where
  "no_filters = \<lparr>nameFilter = [], criteriaFilters = []\<rparr>"

definition new_track_manager :: track_manager where
  "new_track_manager = \<lparr>tracks = [], overlays = [], filterCriteria = [], track_filters = no_filters\<rparr>"

definition registerTrack :: "track \<Rightarrow> track_manager \<Rightarrow> js_error + track_manager" where
  "registerTrack t m =
     (case registry_register (track_uri t) t (tracks m) of
        Inl e \<Rightarrow> Inl e
      | Inr reg \<Rightarrow> Inr (m\<lparr>tracks := reg\<rparr>))"

definition registerOverlay :: "nat \<Rightarrow> track_manager \<Rightarrow> track_manager" where
  "registerOverlay ov m = m\<lparr>overlays := overlays m @ [ov]\<rparr>"

text \<open>The disposable of an overlay removes its first occurrence.\<close>

definition disposeOverlay :: "nat \<Rightarrow> track_manager \<Rightarrow> track_manager" where
  "disposeOverlay ov m = m\<lparr>overlays := remove1 ov (overlays m)\<rparr>"

definition findTrack :: "(track \<Rightarrow> bool) \<Rightarrow> track_manager \<Rightarrow> track option" where
  "findTrack p m = List.find p (map snd (tracks m))"

definition getAllTracks :: "track_manager \<Rightarrow> track list" where
  "getAllTracks m = map snd (tracks m)"

definition getTrack :: "string \<Rightarrow> track_manager \<Rightarrow> track option" where
  "getTrack uri m = registry_tryGet uri (tracks m)"

definition registerTrackFilterCriteria :: "string \<Rightarrow> track_manager \<Rightarrow> track_manager" where
  "registerTrackFilterCriteria name m = m\<lparr>filterCriteria := filterCriteria m @ [name]\<rparr>"

definition clearAll :: "track_filter_state \<Rightarrow> track_filter_state" where
  "clearAll s = no_filters"

definition areFiltersSet :: "track_filter_state \<Rightarrow> bool" where
  "areFiltersSet s \<longleftrightarrow> nameFilter s \<noteq> [] \<or> criteriaFilters s \<noteq> []"

subsection \<open>Filtering\<close>

text \<open>White space below 256, \<open>trim\<close> and \<open>includes\<close>.\<close>

definition is_white :: "char \<Rightarrow> bool" where
  "is_white c = ((of_char c :: nat) \<in> {9, 10, 11, 12, 13, 32, 160})"

definition trim :: "string \<Rightarrow> string" where
  "trim s = rev (dropWhile is_white (rev (dropWhile is_white s)))"

fun starts_with :: "string \<Rightarrow> string \<Rightarrow> bool" where
  "starts_with s [] = True"
| "starts_with [] (c # cs) = False"
| "starts_with (d # s) (c # cs) = (d = c \<and> starts_with s cs)"

fun str_includes :: "string \<Rightarrow> string \<Rightarrow> bool" where
  "str_includes [] needle = (needle = [])"
| "str_includes (c # s) needle = (starts_with (c # s) needle \<or> str_includes s needle)"

definition name_terms :: "string \<Rightarrow> string list" where
  "name_terms f = filter (\<lambda>s. s \<noteq> []) (map trim (split_at CHR '','' f))"

text \<open>
  \<open>pred name value\<close> is the answer of the criterion of that name for the track; a filter whose criterion is
  not registered lets every track pass.
\<close>

definition trackMatchesFilter ::
  "(string \<Rightarrow> string \<Rightarrow> bool) \<Rightarrow> track_manager \<Rightarrow> string \<Rightarrow> bool" where
  "trackMatchesFilter pred m name \<longleftrightarrow>
     (nameFilter (track_filters m) \<noteq> [] \<longrightarrow>
        list_ex (\<lambda>t. str_includes (toLowerCase name) (toLowerCase t)) (name_terms (nameFilter (track_filters m)))) \<and>
     list_all (\<lambda>(c, values). c \<in> set (filterCriteria m) \<longrightarrow> list_ex (pred c) values)
       (criteriaFilters (track_filters m))"

subsection \<open>Lookups\<close>

definition tracks_ok :: "track_manager \<Rightarrow> bool" where
  "tracks_ok m \<longleftrightarrow> distinct (map fst (tracks m)) \<and> list_all (\<lambda>(u, t). track_uri t = u) (tracks m)"

lemma tracks_ok_new: "tracks_ok new_track_manager"
  by (simp add: tracks_ok_def new_track_manager_def)

lemma tracks_ok_register [inv_intro]:
  "tracks_ok m \<Longrightarrow> registerTrack t m = Inr m' \<Longrightarrow> tracks_ok m'"
  by (auto simp: tracks_ok_def registerTrack_def registry_register_def split: sum.splits if_splits)

text \<open>The track of a URI is the one that has it.\<close>

lemma getTrack_uri: "tracks_ok m \<Longrightarrow> getTrack uri m = Some t \<Longrightarrow> track_uri t = uri \<and> t \<in> set (getAllTracks m)"
  by (force simp: tracks_ok_def getTrack_def registry_tryGet_def getAllTracks_def list_all_iff dest!: map_of_SomeD)

lemma getTrack_all:
  assumes "tracks_ok m" and "t \<in> set (getAllTracks m)"
  shows "getTrack (track_uri t) m = Some t"
proof -
  obtain u where "(u, t) \<in> set (tracks m)" using assms(2) by (auto simp: getAllTracks_def)
  with assms(1) have "map_of (tracks m) u = Some t" "track_uri t = u"
    by (auto simp: tracks_ok_def list_all_iff)
  then show ?thesis by (simp add: getTrack_def registry_tryGet_def)
qed

lemma registerTrack_lookup:
  "registerTrack t m = Inr m' \<Longrightarrow>
   getTrack u m' = (if u = track_uri t then Some t else getTrack u m)"
  by (auto simp: registerTrack_def registry_register_def getTrack_def registry_tryGet_def map_add_def
      split: sum.splits if_splits option.splits dest: map_of_SomeD) (force simp: image_iff dest: map_of_SomeD)

lemma starts_with_iff: "starts_with s cs \<longleftrightarrow> (\<exists>v. s = cs @ v)"
  by (induction s cs rule: starts_with.induct) auto

lemma includes_iff: "str_includes s cs \<longleftrightarrow> (\<exists>u v. s = u @ cs @ v)"
proof (induction s cs rule: str_includes.induct)
  case (2 c s cs)
  show ?case unfolding str_includes.simps 2 starts_with_iff
    by (metis append.left_neutral append_Cons append_eq_Cons_conv)
qed auto

end
