(* ===== verification/Int64_Varint.thy ===== *)
theory Int64_Varint
  imports Ring_Buffer_Correct
begin

text \<open>
  \<open>decodeInt64Varint\<close> of \<^verbatim>\<open>ui/src/trace_processor/query_result.ts\<close>: the decoder that reads a
  protobuf varint into two 32-bit halves and glues them into a signed 64-bit \<open>bigint\<close>, with its four
  loops (unchecked and bounds-checked, low and high half), and its agreement with the varint encoding.
\<close>

subsection \<open>The decoder\<close>

text \<open>
  Reading past the end of a typed array gives \<open>undefined\<close>: it is 0 under the bitwise operators, and
  it is not below 128.
\<close>

definition byte_at :: "bytes \<Rightarrow> nat \<Rightarrow> byte" where
  "byte_at buf pos = (if pos < length buf then buf ! pos else 0)"

definition byte_ends :: "bytes \<Rightarrow> nat \<Rightarrow> bool" where
  "byte_ends buf pos \<longleftrightarrow> pos < length buf \<and> buf ! pos < 128"

datatype varint_exit = VThrow js_error | VDone u32 | VMore nat u32

text \<open>
  The loops \<open>for (; i < n; ++i)\<close> of the decoder: \<open>k\<close> iterations are left, \<open>off\<close> is 0 for the low half and
  3 for the high half, \<open>checked\<close> says whether the body tests \<open>pos >= buf.length\<close>.
\<close>

fun varint_loop :: "bool \<Rightarrow> nat \<Rightarrow> bytes \<Rightarrow> nat \<Rightarrow> nat \<Rightarrow> nat \<Rightarrow> u32 \<Rightarrow> varint_exit" where
  "varint_loop checked off buf pos i 0 acc = VMore pos acc"
| "varint_loop checked off buf pos i (Suc k) acc =
     (if checked \<and> length buf \<le> pos then VThrow (Thrown ''Index out of range'')
      else
        (let acc' = acc OR push_bit (i * 7 + off) (ucast (byte_at buf pos AND 127))
         in if byte_ends buf pos then VDone acc'
            else varint_loop checked off buf (pos + 1) (i + 1) k acc'))"

definition glue64 :: "u32 \<Rightarrow> u32 \<Rightarrow> int" where
  "glue64 hi lo = push_bit 32 (uint hi) OR uint lo"

definition asIntN64 :: "int \<Rightarrow> int" where
  "asIntN64 n = signed_take_bit 63 n"

definition decode_hi :: "bytes \<Rightarrow> nat \<Rightarrow> u32 \<Rightarrow> u32 \<Rightarrow> js_error + int" where
  "decode_hi buf pos hi lo =
     (case varint_loop (\<not> length buf - pos > 4) 3 buf pos 0 5 hi of
        VThrow e \<Rightarrow> Inl e
      | VDone h \<Rightarrow> Inr (asIntN64 (glue64 h lo))
      | VMore _ _ \<Rightarrow> Inl (Thrown ''invalid varint encoding''))"

definition decode_5th :: "bytes \<Rightarrow> nat \<Rightarrow> u32 \<Rightarrow> js_error + int" where
  "decode_5th buf pos lo =
     (let lo' = lo OR push_bit 28 (ucast (byte_at buf pos AND 127));
          hi' = drop_bit 4 (ucast (byte_at buf pos AND 127))
      in if byte_ends buf pos then Inr (glue64 hi' lo') else decode_hi buf (pos + 1) hi' lo')"

definition decodeInt64Varint :: "bytes \<Rightarrow> nat \<Rightarrow> js_error + int" where
  "decodeInt64Varint buf pos =
     (if length buf - pos > 4 then
        (case varint_loop False 0 buf pos 0 4 0 of
           VThrow e \<Rightarrow> Inl e
         | VDone lo \<Rightarrow> Inr (uint lo)
         | VMore p lo \<Rightarrow> decode_5th buf p lo)
      else
        (case varint_loop True 0 buf pos 0 3 0 of
           VThrow e \<Rightarrow> Inl e
         | VDone lo \<Rightarrow> Inr (uint lo)
         | VMore p lo \<Rightarrow>
             Inr (glue64 0 (lo OR push_bit 21 (ucast (byte_at buf p AND 127))))))"

subsection \<open>Agreement with the encoding\<close>

lemma byte_at_enc:
  assumes "drop pos buf = of_nat v # r"
  shows "byte_at buf pos = of_nat v" and "pos < length buf" and "drop (Suc pos) buf = r"
proof -
  show l: "pos < length buf" using assms by (metis drop_eq_Nil2 linorder_not_le list.distinct(1))
  then show "byte_at buf pos = of_nat v" using assms
    by (metis byte_at_def hd_drop_conv_nth list.sel(1))
  show "drop (Suc pos) buf = r" using assms by (metis drop_Suc list.sel(3) tl_drop)
qed

lemma byte_ends_enc:
  assumes "drop pos buf = of_nat v # r" and "v < 256"
  shows "byte_ends buf pos \<longleftrightarrow> v < 128"
proof -
  have "byte_ends buf pos \<longleftrightarrow> (of_nat v :: byte) < 128"
    using byte_at_enc [OF assms(1)] by (simp add: byte_ends_def byte_at_def)
  also have "\<dots> \<longleftrightarrow> v < 128" using assms(2) by (simp add: word_less_nat_alt unat_of_nat)
  finally show ?thesis .
qed

lemma varint_loop_enc:
  assumes "drop pos buf = varint_enc n @ r"
  shows "varint_loop checked off buf pos i k acc =
    (if k = 0 then VMore pos acc
     else if n < 128 ^ k then VDone (acc OR push_bit (i * 7 + off) (of_nat n))
     else VMore (pos + k) (acc OR push_bit (i * 7 + off) (of_nat (n mod 128 ^ k))))
    \<and> (128 ^ k \<le> n \<longrightarrow> drop (pos + k) buf = varint_enc (n div 128 ^ k) @ r)"
  using assms
proof (induction k arbitrary: pos n i acc)
  case (Suc k)
  show ?case
  proof (cases "n < 128")
    case True
    have d: "drop pos buf = of_nat n # r" using Suc.prems True by (simp add: varint_enc.simps [of n])
    have "n < 128 ^ Suc k" using True less_le_trans [OF True, of "128 ^ Suc k"] by simp
    with True show ?thesis
      using byte_at_enc [OF d] byte_ends_enc [OF d] by (simp add: ucast_and_7f)
  next
    case False
    let ?v = "n mod 128 + 128"
    have d: "drop pos buf = of_nat ?v # (varint_enc (n div 128) @ r)"
      using Suc.prems False by (simp add: varint_enc.simps [of n])
    have e: "\<not> byte_ends buf pos" using byte_ends_enc [OF d] by simp
    have a: "(ucast (byte_at buf pos AND 127) :: u32) = of_nat (n mod 128)"
      using byte_at_enc(1) [OF d] ucast_and_7f [of ?v] by (simp del: of_nat_add)
    note IH = Suc.IH [OF byte_at_enc(3) [OF d], of "i + 1"
        "acc OR push_bit (i * 7 + off) (of_nat (n mod 128))"]
    have lt: "n div 128 < 128 ^ k \<longleftrightarrow> n < 128 ^ Suc k"
      by (simp add: div_less_iff_less_mult mult.commute)
    have m: "n mod 128 ^ Suc k mod 128 = n mod 128" "n mod 128 ^ Suc k div 128 = n div 128 mod 128 ^ k"
      by (simp_all add: mod_mod_cancel mod_mult2_eq)
    have q: "n div 128 div 128 ^ k = n div 128 ^ Suc k" by (simp add: div_mult2_eq)
    have c: "(acc OR push_bit (i * 7 + off) (of_nat (n mod 128)))
        OR push_bit (7 + i * 7 + off) (of_nat (n div 128 mod 128 ^ k))
      = acc OR push_bit (i * 7 + off) (of_nat (n mod 128 ^ Suc k) :: u32)"
      using or_push_7 [of acc "i * 7 + off" "n mod 128 ^ Suc k"] m by (simp add: ac_simps)
    show ?thesis
    proof (cases "n < 128 ^ Suc k")
      case True
      then have "k \<noteq> 0" and "n mod 128 ^ Suc k = n" using False by (cases k; simp)+
      then show ?thesis
        using IH e a True c byte_at_enc(2) [OF d] lt by (simp add: Let_def)
    next
      case ge: False
      show ?thesis
      proof (cases k)
        case 0
        then show ?thesis using e a False byte_at_enc(2,3) [OF d] by (simp add: Let_def)
      next
        case (Suc k')
        then show ?thesis
          using IH e a ge c byte_at_enc(2) [OF d] lt q by (simp add: Let_def)
      qed
    qed
  qed
qed simp

lemma uint_of_nat_u32: "n < 2 ^ 32 \<Longrightarrow> uint (of_nat n :: u32) = int n"
  by (simp add: uint_nat unat_of_nat)

lemma glue64_of_nat:
  assumes "h < 2 ^ 32" and "l < 2 ^ 32"
  shows "glue64 (of_nat h) (of_nat l) = int (h * 2 ^ 32 + l)"
proof -
  have "push_bit 32 (int h) OR int l = push_bit 32 (int h) + int l"
  proof (rule disjunctive_add [symmetric])
    fix k
    have "bit (int l) k \<Longrightarrow> k < 32"
      using assms(2) by (metis bit_take_bit_iff of_nat_less_iff of_nat_numeral of_nat_power
          take_bit_int_eq_self_iff of_nat_0_le_iff)
    then show "\<not> bit (push_bit 32 (int h)) k \<or> \<not> bit (int l) k" by (auto simp: bit_push_bit_iff)
  qed
  with assms show ?thesis
    by (simp add: glue64_def uint_of_nat_u32 push_bit_eq_mult)
qed

lemma varint_enc_long: "128 ^ k \<le> n \<Longrightarrow> k < length (varint_enc n)"
proof (induction k arbitrary: n)
  case (Suc k)
  then have "128 ^ k \<le> n div 128" by (simp add: less_eq_div_iff_mult_less_eq mult.commute)
  moreover have "\<not> n < 128" using Suc.prems le_less_trans [of "128 ^ Suc k" n 128] by auto
  ultimately show ?case using Suc.IH by (simp add: varint_enc.simps [of n])
qed (simp add: varint_enc.simps)

text \<open>Bits that a shift by 28 pushes out of the 32-bit accumulator do not matter.\<close>

lemma push_28_mod: "push_bit 28 (of_nat (m mod 128)) = push_bit 28 (of_nat m :: u32)"
proof (rule bit_word_eqI)
  fix k assume "k < LENGTH(32)"
  moreover have "m mod 128 = take_bit 7 m" by (simp add: take_bit_eq_mod)
  ultimately show "bit (push_bit 28 (of_nat (m mod 128) :: u32)) k = bit (push_bit 28 (of_nat m :: u32)) k"
    by (auto simp: bit_push_bit_iff bit_of_nat_iff bit_take_bit_iff)
qed

lemma drop_4_of_nat: "v < 128 \<Longrightarrow> drop_bit 4 (of_nat v :: u32) = of_nat (v div 16)"
  by (rule word_unat_eq_iff [THEN iffD2]) (simp add: unat_div unat_of_nat drop_bit_eq_div)

lemma glue64_split:
  "n < 2 ^ 64 \<Longrightarrow> glue64 (of_nat (n div 2 ^ 32)) (of_nat n) = int n"
proof -
  assume "n < 2 ^ 64"
  then have h: "n div 2 ^ 32 < 2 ^ 32" by (simp add: less_mult_imp_div_less)
  have "(of_nat n :: u32) = of_nat (n mod 2 ^ 32)"
    by (rule word_unat_eq_iff [THEN iffD2]) (simp add: unat_of_nat)
  then show ?thesis using glue64_of_nat [OF h, of "n mod 2 ^ 32"] by simp
qed

lemma asIntN64_small: "n < 2 ^ 63 \<Longrightarrow> asIntN64 (int n) = int n"
  by (simp add: asIntN64_def signed_take_bit_int_eq_self_iff)

lemma decode_5th_enc:
  assumes d: "drop p buf = varint_enc (n div 2 ^ 28) @ r" and n: "n < 2 ^ 64"
  shows "decode_5th buf p (of_nat (n mod 2 ^ 28)) = Inr (asIntN64 (int n))"
proof -
  define m where "m = n div 2 ^ 28"
  have h: "m div 16 = n div 2 ^ 32" by (simp add: m_def div_mult2_eq [symmetric])
  have lo: "of_nat (n mod 2 ^ 28) OR push_bit 28 (of_nat m) = (of_nat n :: u32)"
    using or_push_chunk [of 0 0 n 28] by (simp add: m_def)
  show ?thesis
  proof (cases "m < 128")
    case True
    then have d': "drop p buf = of_nat m # r" using d by (simp add: m_def varint_enc.simps)
    have "n < 2 ^ 63" using True by (simp add: m_def div_less_iff_less_mult)
    then show ?thesis
      using True byte_at_enc(1) [OF d'] byte_ends_enc [OF d'] lo h glue64_split [OF n]
      by (simp add: decode_5th_def ucast_and_7f drop_4_of_nat asIntN64_small)
  next
    case False
    let ?v = "m mod 128 + 128"
    have d': "drop p buf = of_nat ?v # (varint_enc (m div 128) @ r)"
      using d False unfolding m_def [symmetric] by (simp add: varint_enc.simps [of m])
    have b: "(ucast (byte_at buf p AND 127) :: u32) = of_nat (m mod 128)"
      using byte_at_enc(1) [OF d'] ucast_and_7f [of ?v] by (simp del: of_nat_add)
    have "m < 2 ^ 36" using n by (simp add: m_def div_less_iff_less_mult)
    then have lt: "m div 128 < 128 ^ 5" by (simp add: div_less_iff_less_mult)
    have mm: "m mod 128 div 16 = m div 16 mod 8" "m div 128 = m div 16 div 8"
      using mod_mult2_eq [of m 16 8] by (simp_all add: div_mult2_eq [symmetric])
    have hi: "of_nat (m mod 128 div 16) OR push_bit 3 (of_nat (m div 128)) = (of_nat (m div 16) :: u32)"
      using or_push_chunk [of 0 0 "m div 16" 3] by (simp add: mm)
    have "decode_hi buf (Suc p) (of_nat (m mod 128 div 16)) (of_nat n) = Inr (asIntN64 (int n))"
      using varint_loop_enc [OF byte_at_enc(3) [OF d'], of _ 3 0 5] lt hi h glue64_split [OF n]
      by (simp add: decode_hi_def)
    then show ?thesis
      using byte_ends_enc [OF d'] b lo by (simp add: decode_5th_def push_28_mod drop_4_of_nat)
  qed
qed

lemma decodeInt64Varint_varint:
  assumes n: "n < 2 ^ 64" and d: "drop pos buf = varint_enc n @ r"
  shows "decodeInt64Varint buf pos = Inr (asIntN64 (int n))"
proof (cases "length buf - pos > 4")
  case True
  have "decodeInt64Varint buf pos = Inr (asIntN64 (int n))" if "n < 128 ^ 4"
    using that True varint_loop_enc [OF d, of False 0 0 4 0]
    by (simp add: decodeInt64Varint_def uint_of_nat_u32 asIntN64_small)
  moreover have "decodeInt64Varint buf pos = Inr (asIntN64 (int n))" if "\<not> n < 128 ^ 4"
    using that True varint_loop_enc [OF d, of False 0 0 4 0] decode_5th_enc [OF _ n, of "pos + 4" buf r]
    by (simp add: decodeInt64Varint_def)
  ultimately show ?thesis by blast
next
  case False
  have len: "length (varint_enc n) \<le> length buf - pos" using d by (metis length_append length_drop le_add1)
  have lt: "n < 128 ^ 4"
    by (rule ccontr) (use False len varint_enc_long [of 4 n] in simp)
  show ?thesis
  proof (cases "n < 128 ^ 3")
    case True
    then show ?thesis using False varint_loop_enc [OF d, of True 0 0 3 0]
      by (simp add: decodeInt64Varint_def uint_of_nat_u32 asIntN64_small)
  next
    case ge: False
    have m: "n div 128 ^ 3 < 128" using lt by (simp add: div_less_iff_less_mult)
    then have d': "drop (pos + 3) buf = of_nat (n div 128 ^ 3) # r"
      using varint_loop_enc [OF d, of True 0 0 3 0] ge by (simp add: varint_enc.simps)
    have "of_nat (n mod 2 ^ 21) OR push_bit 21 (of_nat (n div 2 ^ 21)) = (of_nat n :: u32)"
      using or_push_chunk [of 0 0 n 21] by simp
    then show ?thesis
      using False ge m varint_loop_enc [OF d, of True 0 0 3 0] byte_at_enc(1) [OF d'] lt
        glue64_of_nat [of 0 n]
      by (simp add: decodeInt64Varint_def ucast_and_7f asIntN64_small)
  qed
qed

text \<open>
  C6. Wherever a protobuf varint of a 64-bit value sits in a buffer, \<open>decodeInt64Varint\<close> returns that
  value read as a signed 64-bit number; it never throws on such input, whichever of its fast and
  slow paths the distance to the end of the buffer selects.
\<close>

theorem decodeInt64Varint_enc:
  assumes n: "n < 2 ^ 64" and d: "drop pos buf = varint_enc n @ r"
  shows "decodeInt64Varint buf pos = Inr (asIntN64 (int n))"
  using assms by (rule decodeInt64Varint_varint)

theorem decodeInt64Varint_enc_witness:
  "decodeInt64Varint (7 # varint_enc (2 ^ 64 - 2)) 1 = Inr (- 2)"
  using decodeInt64Varint_enc [of "2 ^ 64 - 2" 1 "7 # varint_enc (2 ^ 64 - 2)" "[]"]
  by (simp add: asIntN64_def)

end
