(* ===== verification/Query_Result.thy ===== *)
theory Query_Result
  imports Sql_Types Int64_Varint
begin

text \<open>
  \<^verbatim>\<open>ui/src/trace_processor/query_result.ts\<close>: the container of a streaming SQL result
  (\<open>QueryResultImpl\<close> with its two promises), the hand-written parser of a cells batch (\<open>ResultBatch\<close>)
  and the row iterator (\<open>RowIteratorImpl\<close>). The protobuf reader is third-party code and is a record of
  functions that every definition takes as an argument.
\<close>

subsection \<open>Values and the protobuf reader\<close>

text \<open>
  A JavaScript number is either an integer that a varint was converted to or the bit pattern of a
  float64 cell; nothing here computes with it.
\<close>

datatype js_number = Int_number int | Bits_number "64 word"

datatype sql_value = V_str string | V_num js_number | V_big int | V_null | V_blob bytes

text \<open>
  \<open>protobuf.Reader\<close>: each method maps the buffer, the position and the limit \<open>len\<close> to its result and the
  new position. \<open>rd_utf8\<close> is the platform's \<open>TextDecoder\<close> behind \<open>utf8Decode\<close>.
\<close>

type_synonym 'a rd = "bytes \<Rightarrow> nat \<Rightarrow> nat \<Rightarrow> js_error + ('a \<times> nat)"

record proto_reader =
  rd_uint32 :: "nat rd"
  rd_string :: "string rd"
  rd_bytes :: "bytes rd"
  rd_bool :: "bool rd"
  rd_double :: "64 word rd"
  rd_int64 :: "js_number rd"
  rd_skip :: "unit rd"
  rd_skipType :: "nat \<Rightarrow> unit rd"
  rd_utf8 :: "bytes \<Rightarrow> string"

text \<open>A \<open>Uint8Array\<close> is a window of an \<open>ArrayBuffer\<close>.\<close>

record u8_view =
  u8_buffer :: bytes
  u8_byteOffset :: nat
  u8_length :: nat

definition u8_bytes :: "u8_view \<Rightarrow> bytes" where
  "u8_bytes v = take (u8_length v) (drop (u8_byteOffset v) (u8_buffer v))"

definition u8_subarray :: "u8_view \<Rightarrow> nat \<Rightarrow> nat \<Rightarrow> u8_view" where
  "u8_subarray v i j =
     (let b = min i (u8_length v); e = min j (u8_length v)
      in v\<lparr>u8_byteOffset := u8_byteOffset v + b, u8_length := e - b\<rparr>)"

subsection \<open>ResultBatch\<close>

record result_batch =
  isLastBatch :: bool
  batchBytes :: bytes
  cellTypesOff :: nat
  cellTypesLen :: nat
  varintOff :: nat
  varintLen :: nat
  float64Cells :: "64 word list"
  blobCells :: "bytes list"
  stringCells :: "string list"

definition new_batch :: "bytes \<Rightarrow> result_batch" where
  "new_batch bs = \<lparr>isLastBatch = False, batchBytes = bs, cellTypesOff = 0, cellTypesLen = 0,
     varintOff = 0, varintLen = 0, float64Cells = [], blobCells = [], stringCells = []\<rparr>"

text \<open>Little-endian words of a \<open>Float64Array\<close>.\<close>

definition le64 :: "bytes \<Rightarrow> 64 word" where
  "le64 bs = foldr (\<lambda>b w. push_bit 8 w OR ucast b) bs 0"

fun f64_words :: "nat \<Rightarrow> bytes \<Rightarrow> 64 word list" where
  "f64_words 0 bs = []"
| "f64_words (Suc k) bs = le64 (take 8 bs) # f64_words k (drop 8 bs)"

text \<open>
  The aligned case overlays the array on the buffer and throws when it does not fit; the other case
  copies \<open>buffer.slice(\<dots>)\<close>, which clamps, and throws when the copy is no multiple of 8 bytes.
\<close>

definition f64_view :: "bytes \<Rightarrow> nat \<Rightarrow> nat \<Rightarrow> js_error + 64 word list" where
  "f64_view buffer f64Off f64Len =
     (if f64Off mod 8 = 0 then
        (if f64Off + f64Len \<le> length buffer
         then Inr (f64_words (f64Len div 8) (drop f64Off buffer)) else Inl RangeErr)
      else
        (let slice = seg f64Off (f64Off + f64Len) buffer
         in if length slice mod 8 = 0 then Inr (f64_words (length slice div 8) slice)
            else Inl RangeErr))"

text \<open>One turn of the parse loop: the switch over the field number, after \<open>tag\<close> was read.\<close>

definition TAG_LEN_DELIM :: nat where
  "TAG_LEN_DELIM = 2"

definition batch_cell_types :: "proto_reader \<Rightarrow> nat \<Rightarrow> nat \<Rightarrow> result_batch \<Rightarrow> js_error + (result_batch \<times> nat)" where
  "batch_cell_types R tag pos b =
     (if tag mod 8 \<noteq> TAG_LEN_DELIM then Inl AssertionFailed
      else (case rd_uint32 R (batchBytes b) pos (length (batchBytes b)) of
              Inl e \<Rightarrow> Inl e
            | Inr (n, p) \<Rightarrow> Inr (b\<lparr>cellTypesLen := n, cellTypesOff := p\<rparr>, p + n)))"

definition batch_varints ::
  "proto_reader \<Rightarrow> nat \<Rightarrow> nat \<Rightarrow> nat \<Rightarrow> result_batch \<Rightarrow> js_error + (result_batch \<times> nat)" where
  "batch_varints R byteOffset tag pos b =
     (if tag mod 8 \<noteq> TAG_LEN_DELIM then Inl AssertionFailed
      else (case rd_uint32 R (batchBytes b) pos (length (batchBytes b)) of
              Inl e \<Rightarrow> Inl e
            | Inr (n, p) \<Rightarrow>
                (if p + n \<le> byteOffset + length (batchBytes b)
                 then Inr (b\<lparr>varintOff := p, varintLen := n\<rparr>, p + n) else Inl AssertionFailed)))"

definition batch_float64 ::
  "proto_reader \<Rightarrow> u8_view \<Rightarrow> nat \<Rightarrow> nat \<Rightarrow> result_batch \<Rightarrow> js_error + (result_batch \<times> nat)" where
  "batch_float64 R v tag pos b =
     (if tag mod 8 \<noteq> TAG_LEN_DELIM then Inl AssertionFailed
      else (case rd_uint32 R (batchBytes b) pos (length (batchBytes b)) of
              Inl e \<Rightarrow> Inl e
            | Inr (n, p) \<Rightarrow>
                (if n mod 8 \<noteq> 0 then Inl AssertionFailed
                 else (case f64_view (u8_buffer v) (u8_byteOffset v + p) n of
                         Inl e \<Rightarrow> Inl e
                       | Inr fs \<Rightarrow> Inr (b\<lparr>float64Cells := fs\<rparr>, p + n)))))"

definition batch_blob :: "proto_reader \<Rightarrow> nat \<Rightarrow> nat \<Rightarrow> result_batch \<Rightarrow> js_error + (result_batch \<times> nat)" where
  "batch_blob R tag pos b =
     (if tag mod 8 \<noteq> TAG_LEN_DELIM then Inl AssertionFailed
      else (case rd_bytes R (batchBytes b) pos (length (batchBytes b)) of
              Inl e \<Rightarrow> Inl e
            | Inr (x, p) \<Rightarrow> Inr (b\<lparr>blobCells := blobCells b @ [x]\<rparr>, p)))"

definition batch_strings :: "proto_reader \<Rightarrow> nat \<Rightarrow> nat \<Rightarrow> result_batch \<Rightarrow> js_error + (result_batch \<times> nat)" where
  "batch_strings R tag pos b =
     (if tag mod 8 \<noteq> TAG_LEN_DELIM then Inl AssertionFailed
      else (case rd_uint32 R (batchBytes b) pos (length (batchBytes b)) of
              Inl e \<Rightarrow> Inl e
            | Inr (n, p) \<Rightarrow>
                (if p + n \<le> length (batchBytes b) then
                   Inr (b\<lparr>stringCells :=
                       split_at (CHR 0x00) (rd_utf8 R (seg p (p + n) (batchBytes b)))\<rparr>, p + n)
                 else Inl AssertionFailed)))"

definition skip_field :: "proto_reader \<Rightarrow> nat \<Rightarrow> nat \<Rightarrow> result_batch \<Rightarrow> js_error + (result_batch \<times> nat)" where
  "skip_field R tag pos b =
     (case rd_skipType R (tag mod 8) (batchBytes b) pos (length (batchBytes b)) of
        Inl e \<Rightarrow> Inl e | Inr (_, p) \<Rightarrow> Inr (b, p))"

definition batch_field ::
  "proto_reader \<Rightarrow> u8_view \<Rightarrow> nat \<Rightarrow> nat \<Rightarrow> result_batch \<Rightarrow> js_error + (result_batch \<times> nat)" where
  "batch_field R v tag pos b =
     (if tag div 8 = 1 then batch_cell_types R tag pos b
      else if tag div 8 = 2 then batch_varints R (u8_byteOffset v) tag pos b
      else if tag div 8 = 3 then batch_float64 R v tag pos b
      else if tag div 8 = 4 then batch_blob R tag pos b
      else if tag div 8 = 5 then batch_strings R tag pos b
      else if tag div 8 = 6 then
        (case rd_bool R (batchBytes b) pos (length (batchBytes b)) of
           Inl e \<Rightarrow> Inl e | Inr (l, p) \<Rightarrow> Inr (b\<lparr>isLastBatch := l\<rparr>, p))
      else skip_field R tag pos b)"

text \<open>
  The loop \<open>while (reader.pos < end)\<close>. The position grows with every tag that the reader consumes, so
  the number of bytes is enough fuel for a reader that makes progress; \<open>None\<close> is running out of it.
\<close>

fun batch_loop ::
  "nat \<Rightarrow> proto_reader \<Rightarrow> u8_view \<Rightarrow> nat \<Rightarrow> result_batch \<Rightarrow> (js_error + result_batch) option" where
  "batch_loop fuel R v pos b =
     (if pos < length (batchBytes b) then
        (case fuel of
           0 \<Rightarrow> None
         | Suc k \<Rightarrow>
             (case rd_uint32 R (batchBytes b) pos (length (batchBytes b)) of
                Inl e \<Rightarrow> Some (Inl e)
              | Inr (tag, p) \<Rightarrow>
                  (case batch_field R v tag p b of
                     Inl e \<Rightarrow> Some (Inl e)
                   | Inr (b', p') \<Rightarrow> batch_loop k R v p' b')))
      else Some (Inr b))"

declare batch_loop.simps [simp del]

definition ResultBatch :: "proto_reader \<Rightarrow> u8_view \<Rightarrow> (js_error + result_batch) option" where
  "ResultBatch R v = batch_loop (length (u8_bytes v)) R v 0 (new_batch (u8_bytes v))"

definition numCells :: "result_batch \<Rightarrow> nat" where
  "numCells b = cellTypesLen b"

subsection \<open>QueryResultImpl\<close>

text \<open>
  A \<open>Deferred\<close> is pending, resolved or rejected with the query error; settling it twice has no effect.
  \<open>qr_promises\<close> holds every deferred the object made, the two fields point into it.
\<close>

datatype deferred = Pending | Resolved | Rejected string

record query_result =
  columnNames :: "string list"
  qr_error :: "string option"
  qr_numRows :: nat
  qr_isComplete :: bool
  statementCount :: nat
  statementWithOutputCount :: nat
  lastStatementSql :: string
  elapsedTimeMs :: "64 word"
  batches :: "result_batch list"
  allRowsPromise :: "nat option"
  moreRowsPromise :: "nat option"
  qr_promises :: "deferred list"

definition new_query_result :: query_result where
  "new_query_result = \<lparr>columnNames = [], qr_error = None, qr_numRows = 0, qr_isComplete = False,
     statementCount = 0, statementWithOutputCount = 0, lastStatementSql = [], elapsedTimeMs = 0,
     batches = [], allRowsPromise = None, moreRowsPromise = None, qr_promises = []\<rparr>"

definition settle :: "nat \<Rightarrow> deferred \<Rightarrow> deferred list \<Rightarrow> deferred list" where
  "settle p d ds = (if nth_opt ds p = Some Pending then ds[p := d] else ds)"

definition outcome :: "query_result \<Rightarrow> deferred" where
  "outcome q = (case qr_error q of None \<Rightarrow> Resolved | Some e \<Rightarrow> Rejected e)"

definition resolveOrReject :: "nat \<Rightarrow> query_result \<Rightarrow> query_result" where
  "resolveOrReject p q =
     q\<lparr>qr_promises := settle p (outcome q) (qr_promises q)\<rparr>"

definition defer_rows :: "query_result \<Rightarrow> nat \<times> query_result" where
  "defer_rows q = (length (qr_promises q), q\<lparr>qr_promises := qr_promises q @ [Pending]\<rparr>)"

definition waitAllRows :: "query_result \<Rightarrow> js_error + (nat \<times> query_result)" where
  "waitAllRows q =
     (if allRowsPromise q \<noteq> None then Inl AssertionFailed
      else
        (let (p, q1) = defer_rows q; q2 = q1\<lparr>allRowsPromise := Some p\<rparr>
         in Inr (p, if qr_isComplete q2 then resolveOrReject p q2 else q2)))"

definition waitMoreRows :: "query_result \<Rightarrow> nat \<times> query_result" where
  "waitMoreRows q =
     (case moreRowsPromise q of
        Some p \<Rightarrow> (p, q)
      | None \<Rightarrow>
          (let (p, q1) = defer_rows q
           in (p, if qr_isComplete q1 then resolveOrReject p q1 else q1\<lparr>moreRowsPromise := Some p\<rparr>)))"

definition ensureAllRowsPromise :: "query_result \<Rightarrow> js_error + (nat \<times> query_result)" where
  "ensureAllRowsPromise q =
     (case allRowsPromise q of Some p \<Rightarrow> Inr (p, q) | None \<Rightarrow> waitAllRows q)"

text \<open>
  The renaming loop \<open>for (let i = 1; columnNamesSet.has(colName); ++i)\<close> with its limit: the assertion
  fires when the 100th suffix is tried.
\<close>

definition suffixed :: "string \<Rightarrow> nat \<Rightarrow> string" where
  "suffixed orig i = orig @ ''_'' @ show_nat i"

function rename_column :: "string list \<Rightarrow> string \<Rightarrow> string \<Rightarrow> nat \<Rightarrow> js_error + string" where
  "rename_column used orig colName i =
     (if colName \<in> set used then
        (if i < 100 then rename_column used orig (suffixed orig i) (i + 1) else Inl AssertionFailed)
      else Inr colName)"
  by pat_completeness auto
termination
  by (relation "measure (\<lambda>(used, orig, colName, i). 100 - i)") auto

declare rename_column.simps [simp del]

text \<open>
  The local variables of \<open>appendResultBatch\<close>: \<open>columnNamesEmptyAtStartOfBatch\<close>, \<open>columnNamesSet\<close> and the
  reader position. A throw leaves the object as mutated so far, which \<open>Inl\<close> carries.
\<close>

record append_state =
  as_q :: query_result
  as_names :: "string list"
  as_pos :: nat

type_synonym append_result = "(js_error \<times> query_result) + append_state"

definition with_read :: "append_state \<Rightarrow> js_error + ('a \<times> nat) \<Rightarrow> ('a \<Rightarrow> append_state \<Rightarrow> append_result) \<Rightarrow> append_result" where
  "with_read s r k =
     (case r of Inl e \<Rightarrow> Inl (e, as_q s) | Inr (x, p) \<Rightarrow> k x (s\<lparr>as_pos := p\<rparr>))"

definition append_column :: "string \<Rightarrow> append_state \<Rightarrow> append_result" where
  "append_column origColName s =
     (case rename_column (as_names s) origColName origColName 1 of
        Inl e \<Rightarrow> Inl (e, as_q s)
      | Inr c \<Rightarrow>
          Inr (s\<lparr>as_names := as_names s @ [c],
                 as_q := (as_q s)\<lparr>columnNames := columnNames (as_q s) @ [c]\<rparr>\<rparr>))"

definition push_batch :: "result_batch \<Rightarrow> append_state \<Rightarrow> append_result" where
  "push_batch b s =
     (let q = (as_q s)\<lparr>batches := batches (as_q s) @ [b], qr_isComplete := isLastBatch b\<rparr>;
          numColumns = length (columnNames q)
      in if numColumns \<noteq> 0 then
           (if numCells b mod numColumns = 0
            then Inr (s\<lparr>as_q := q\<lparr>qr_numRows := qr_numRows q + numCells b div numColumns\<rparr>\<rparr>)
            else Inl (AssertionFailed, q))
         else (if numCells b = 0 then Inr (s\<lparr>as_q := q\<rparr>) else Inl (AssertionFailed, q)))"

definition append_batch :: "proto_reader \<Rightarrow> u8_view \<Rightarrow> nat \<Rightarrow> append_state \<Rightarrow> append_result option" where
  "append_batch R v batchLen s =
     (case ResultBatch R (u8_subarray v (as_pos s) (as_pos s + batchLen)) of
        None \<Rightarrow> None
      | Some (Inl e) \<Rightarrow> Some (Inl (e, as_q s))
      | Some (Inr b) \<Rightarrow> Some (push_batch b (s\<lparr>as_pos := as_pos s + batchLen\<rparr>)))"

definition append_field ::
  "proto_reader \<Rightarrow> u8_view \<Rightarrow> bool \<Rightarrow> nat \<Rightarrow> append_state \<Rightarrow> append_result option" where
  "append_field R v columnNamesEmpty tag s =
     (let buf = u8_bytes v; pos = as_pos s; len = length buf; field = tag div 8
      in if field = 1 then
           (if \<not> columnNamesEmpty then Some (Inl (AssertionFailed, as_q s))
            else Some (with_read s (rd_string R buf pos len) append_column))
         else if field = 2 then
           Some (with_read s (rd_string R buf pos len) (\<lambda>err s.
             Inr (s\<lparr>as_q := (as_q s)\<lparr>qr_error := (if err = [] then None else Some err)\<rparr>\<rparr>)))
         else if field = 3 then
           (case rd_uint32 R buf pos len of
              Inl e \<Rightarrow> Some (Inl (e, as_q s))
            | Inr (n, p) \<Rightarrow> append_batch R v n (s\<lparr>as_pos := p\<rparr>))
         else if field = 4 then
           Some (with_read s (rd_uint32 R buf pos len) (\<lambda>n s.
             Inr (s\<lparr>as_q := (as_q s)\<lparr>statementCount := n\<rparr>\<rparr>)))
         else if field = 5 then
           Some (with_read s (rd_uint32 R buf pos len) (\<lambda>n s.
             Inr (s\<lparr>as_q := (as_q s)\<lparr>statementWithOutputCount := n\<rparr>\<rparr>)))
         else if field = 6 then
           Some (with_read s (rd_string R buf pos len) (\<lambda>x s.
             Inr (s\<lparr>as_q := (as_q s)\<lparr>lastStatementSql := x\<rparr>\<rparr>)))
         else if field = 7 then
           Some (with_read s (rd_double R buf pos len) (\<lambda>x s.
             Inr (s\<lparr>as_q := (as_q s)\<lparr>elapsedTimeMs := x\<rparr>\<rparr>)))
         else Some (with_read s (rd_skipType R (tag mod 8) buf pos len) (\<lambda>_ s. Inr s)))"

fun append_loop ::
  "nat \<Rightarrow> proto_reader \<Rightarrow> u8_view \<Rightarrow> bool \<Rightarrow> append_state \<Rightarrow> append_result option" where
  "append_loop fuel R v columnNamesEmpty s =
     (if as_pos s < length (u8_bytes v) then
        (case fuel of
           0 \<Rightarrow> None
         | Suc k \<Rightarrow>
             (case rd_uint32 R (u8_bytes v) (as_pos s) (length (u8_bytes v)) of
                Inl e \<Rightarrow> Some (Inl (e, as_q s))
              | Inr (tag, p) \<Rightarrow>
                  (case append_field R v columnNamesEmpty tag (s\<lparr>as_pos := p\<rparr>) of
                     None \<Rightarrow> None
                   | Some (Inl e) \<Rightarrow> Some (Inl e)
                   | Some (Inr s') \<Rightarrow> append_loop k R v columnNamesEmpty s')))
      else Some (Inr s))"

declare append_loop.simps [simp del]

definition wake_waiters :: "query_result \<Rightarrow> query_result" where
  "wake_waiters q =
     (let q1 = (case moreRowsPromise q of
                  None \<Rightarrow> q | Some p \<Rightarrow> (resolveOrReject p q)\<lparr>moreRowsPromise := None\<rparr>)
      in if qr_isComplete q1
         then (case allRowsPromise q1 of None \<Rightarrow> q1 | Some p \<Rightarrow> resolveOrReject p q1) else q1)"

definition appendResultBatch ::
  "proto_reader \<Rightarrow> u8_view \<Rightarrow> query_result \<Rightarrow> ((js_error \<times> query_result) + query_result) option" where
  "appendResultBatch R v q =
     (case append_loop (length (u8_bytes v)) R v (columnNames q = [])
             \<lparr>as_q = q, as_names = [], as_pos = 0\<rparr> of
        None \<Rightarrow> None
      | Some (Inl e) \<Rightarrow> Some (Inl e)
      | Some (Inr s) \<Rightarrow> Some (Inr (wake_waiters (as_q s))))"

end
