(* ===== verification/Row_Iterator.thy ===== *)
theory Row_Iterator
  imports Query_Result
begin

text \<open>
  The row iterator of \<^verbatim>\<open>ui/src/trace_processor/query_result.ts\<close> (\<open>RowIteratorImpl\<close>), the awaitable
  wrapper \<open>WaitableQueryResultImpl\<close> and the conversions \<open>timeFromSql\<close>/\<open>durationFromSql\<close>.
\<close>

subsection \<open>State\<close>

text \<open>
  \<open>rowSpec\<close> and \<open>rowData\<close> are objects with the column names as keys; the keys of the spec are kept in
  order for the check that reports the first missing column. \<open>cellTypesEnd\<close> starts at -1. The object
  with the row data is the \<open>RowIteratorImplWithRowData\<close> that the client holds: \<open>it_methods\<close> are those of
  its members \<open>next\<close>, \<open>valid\<close> and \<open>get\<close> that are the functions of the iterator, which a column of that
  name overwrites.
\<close>

record row_iter =
  rowSpec :: "(string \<times> sql_type) list"
  rowData :: "string \<Rightarrow> sql_value option"
  it_batchIdx :: int
  it_batchBytes :: bytes
  it_columnNames :: "string list"
  it_numColumns :: nat
  cellTypesEnd :: int
  it_float64Cells :: "64 word list"
  it_varPos :: nat
  it_varLen :: nat
  it_blobCells :: "bytes list"
  it_stringCells :: "string list"
  nextCellTypeOff :: nat
  nextFloat64Cell :: nat
  nextStringCell :: nat
  nextBlobCell :: nat
  it_isValid :: bool
  it_methods :: "string list"

text \<open>The sentinel that stands for a type in a row spec is also the initial value of its row entry.\<close>

fun sentinel :: "sql_type \<Rightarrow> sql_value" where
  "sentinel T_UNKNOWN = V_null"
| "sentinel T_NUM = V_num (Int_number 0)"
| "sentinel T_STR = V_str ''str''"
| "sentinel T_NUM_NULL = V_num (Int_number 1)"
| "sentinel T_STR_NULL = V_str ''str_null''"
| "sentinel T_BLOB = V_blob []"
| "sentinel T_BLOB_NULL = V_blob []"
| "sentinel T_LONG = V_big 0"
| "sentinel T_LONG_NULL = V_big 1"

fun columnTypeToString :: "sql_type \<Rightarrow> string" where
  "columnTypeToString T_NUM = ''NUM''"
| "columnTypeToString T_NUM_NULL = ''NUM_NULL''"
| "columnTypeToString T_STR = ''STR''"
| "columnTypeToString T_STR_NULL = ''STR_NULL''"
| "columnTypeToString T_BLOB = ''BLOB''"
| "columnTypeToString T_BLOB_NULL = ''BLOB_NULL''"
| "columnTypeToString T_LONG = ''LONG''"
| "columnTypeToString T_LONG_NULL = ''LONG_NULL''"
| "columnTypeToString T_UNKNOWN = ''UNKNOWN''"

fun CELL_TYPE_NAMES :: "cell_type \<Rightarrow> string" where
  "CELL_TYPE_NAMES CELL_NULL = ''NULL''"
| "CELL_TYPE_NAMES CELL_VARINT = ''VARINT''"
| "CELL_TYPE_NAMES CELL_FLOAT64 = ''FLOAT64''"
| "CELL_TYPE_NAMES CELL_STRING = ''STRING''"
| "CELL_TYPE_NAMES CELL_BLOB = ''BLOB''"

subsection \<open>Objects as maps\<close>

text \<open>
  \<open>rowSpec[colName]\<close> finds the own entry of the key, or else what the object inherits from
  \<open>Object.prototype\<close>.
\<close>

definition object_prototype :: "string list" where
  "object_prototype = [''constructor'', ''__defineGetter__'', ''__defineSetter__'', ''hasOwnProperty'',
     ''__lookupGetter__'', ''__lookupSetter__'', ''isPrototypeOf'', ''propertyIsEnumerable'', ''toString'',
     ''valueOf'', ''__proto__'', ''toLocaleString'']"

datatype spec_entry = NotAsked | Asked sql_type | Inherited string

definition lookup_spec :: "(string \<times> sql_type) list \<Rightarrow> string \<Rightarrow> spec_entry" where
  "lookup_spec spec k =
     (case map_of spec k of
        Some t \<Rightarrow> Asked t
      | None \<Rightarrow> if k \<in> set object_prototype then Inherited k else NotAsked)"

lemma lookup_spec_Asked: "lookup_spec spec k = Asked t \<longleftrightarrow> map_of spec k = Some t"
  by (simp add: lookup_spec_def split: option.split)

text \<open>\<open>`${member}`\<close> of an inherited member: the text of a built-in function, or of the prototype itself.\<close>

definition inherited_text :: "string \<Rightarrow> string" where
  "inherited_text k =
     (if k = ''__proto__'' then ''[object Object]''
      else ''function '' @ (if k = ''constructor'' then ''Object'' else k) @ ''() { [native code] }'')"

text \<open>
  A write to the row data. \<open>__proto__\<close> makes no entry (it sets the prototype of the row object, if to
  anything); an entry \<open>next\<close>, \<open>valid\<close> or \<open>get\<close> replaces the function of the wrapper.
\<close>

definition set_cell :: "string \<Rightarrow> sql_value option \<Rightarrow> row_iter \<Rightarrow> row_iter" where
  "set_cell colName v it =
     (if colName = ''__proto__'' then it
      else it\<lparr>rowData := (rowData it)(colName := v), it_methods := removeAll colName (it_methods it)\<rparr>)"

subsection \<open>Construction\<close>

text \<open>
  \<open>Object.assign(this, querySpec)\<close> in the constructor of \<open>RowIteratorImpl\<close> puts the spec over the members of
  the iterator itself. \<open>rowSpec\<close>, \<open>rowData\<close>, \<open>resultObj\<close> and \<open>isValid\<close> are set again before they are read, and
  no other name than the ones listed is read by the iterator. The sentinels of \<open>NUM\<close> and \<open>NUM_NULL\<close> are
  the numbers 0 and 1, so that a counter is set to them; a spec that puts another value over a member (a
  string, a bigint, a blob or null over a counter, anything over an array, the reader, a method or the
  prototype) is outside the model, \<open>None\<close>.
\<close>

definition iterator_members :: "string list" where
  "iterator_members = [''batchIdx'', ''batchBytes'', ''columnNames'', ''numColumns'', ''cellTypesEnd'',
     ''float64Cells'', ''varIntReader'', ''blobCells'', ''stringCells'', ''nextCellTypeOff'',
     ''nextFloat64Cell'', ''nextStringCell'', ''nextBlobCell'', ''valid'', ''makeError'', ''get'', ''next'',
     ''tryMoveToNextBatch'', ''__proto__'']"

fun sentinel_number :: "sql_type \<Rightarrow> nat option" where
  "sentinel_number T_NUM = Some 0"
| "sentinel_number T_NUM_NULL = Some 1"
| "sentinel_number _ = None"

definition assign_member :: "string \<Rightarrow> sql_type \<Rightarrow> row_iter \<Rightarrow> row_iter option" where
  "assign_member k t it =
     (if k \<notin> set iterator_members then Some it
      else (case sentinel_number t of
              None \<Rightarrow> None
            | Some n \<Rightarrow>
                (if k = ''batchIdx'' then Some (it\<lparr>it_batchIdx := int n\<rparr>)
                 else if k = ''cellTypesEnd'' then Some (it\<lparr>cellTypesEnd := int n\<rparr>)
                 else if k = ''nextCellTypeOff'' then Some (it\<lparr>nextCellTypeOff := n\<rparr>)
                 else if k = ''nextFloat64Cell'' then Some (it\<lparr>nextFloat64Cell := n\<rparr>)
                 else if k = ''nextStringCell'' then Some (it\<lparr>nextStringCell := n\<rparr>)
                 else if k = ''nextBlobCell'' then Some (it\<lparr>nextBlobCell := n\<rparr>)
                 else if k = ''numColumns'' \<and> n = 0 then Some (it\<lparr>it_numColumns := n\<rparr>)
                 else None)))"

fun assign_spec :: "(string \<times> sql_type) list \<Rightarrow> row_iter \<Rightarrow> row_iter option" where
  "assign_spec [] it = Some it"
| "assign_spec ((k, t) # spec) it = Option.bind (assign_member k t it) (assign_spec spec)"

text \<open>The row object starts with the entries of the spec, the sentinels.\<close>

definition initial_row :: "(string \<times> sql_type) list \<Rightarrow> string \<Rightarrow> sql_value option" where
  "initial_row spec k = (if k = ''__proto__'' then None else map_option sentinel (map_of spec k))"

definition blank_row_iter :: "(string \<times> sql_type) list \<Rightarrow> row_iter" where
  "blank_row_iter spec = \<lparr>rowSpec = spec, rowData = initial_row spec,
     it_batchIdx = -1, it_batchBytes = [], it_columnNames = [], it_numColumns = 0, cellTypesEnd = -1,
     it_float64Cells = [], it_varPos = 0, it_varLen = 0, it_blobCells = [], it_stringCells = [],
     nextCellTypeOff = 0, nextFloat64Cell = 0, nextStringCell = 0, nextBlobCell = 0,
     it_isValid = False, it_methods = []\<rparr>"

definition new_row_iter :: "(string \<times> sql_type) list \<Rightarrow> row_iter option" where
  "new_row_iter spec = assign_spec spec (blank_row_iter spec)"

text \<open>The end of the constructor of \<open>RowIteratorImplWithRowData\<close>, after the first \<open>next()\<close>.\<close>

definition wrapper_methods :: "string list" where
  "wrapper_methods = [''next'', ''valid'', ''get'']"

definition wrap_iter :: "row_iter \<Rightarrow> row_iter" where
  "wrap_iter it = it\<lparr>rowData := (rowData it)(''_impl'' := None, ''next'' := None, ''valid'' := None, ''get'' := None),
     it_methods := wrapper_methods\<rparr>"

subsection \<open>Moving to the next batch\<close>

definition missing_column :: "string \<Rightarrow> string list \<Rightarrow> js_error" where
  "missing_column c names =
     Thrown (''Column '' @ c @ '' not found in the SQL result set {'' @ join_with '' '' names @ ''}'')"

definition mismatch_text :: "cell_type \<Rightarrow> string \<Rightarrow> string" where
  "mismatch_text actual expected =
     (if actual = CELL_NULL then
        ''SQL value is NULL but that was not expected'' @
        '' (expected type: '' @ expected @ ''). '' @
        ''Did you mean NUM_NULL, LONG_NULL, STR_NULL or BLOB_NULL?''
      else ''Incompatible cell type. Expected: '' @ expected @ '' actual: '' @ CELL_TYPE_NAMES actual)"

definition type_mismatch :: "cell_type \<Rightarrow> sql_type \<Rightarrow> string" where
  "type_mismatch actual e = mismatch_text actual (columnTypeToString e)"

text \<open>An element of a typed array in a message; \<open>undefined\<close> out of range.\<close>

definition show_byte_at :: "bytes \<Rightarrow> nat \<Rightarrow> string" where
  "show_byte_at bs i = (case nth_opt bs i of None \<Rightarrow> ''undefined'' | Some b \<Rightarrow> show_nat (unat b))"

definition cell_type_at :: "bytes \<Rightarrow> nat \<Rightarrow> cell_type option" where
  "cell_type_at bs i = Option.bind (nth_opt bs i) cell_type_of"

definition row_error :: "nat \<Rightarrow> string \<Rightarrow> string \<Rightarrow> js_error" where
  "row_error row col err =
     Thrown (''Error @ row: '' @ show_nat row @ '' col: '' @ quote @ col @ quote @ '': '' @ err)"

text \<open>
  The check of one cell against the spec: \<open>i\<close> is the position of its type byte in the batch and \<open>off\<close> the
  position of the first type byte. What a column that is not in the spec inherits is taken for its type,
  with which no cell is compatible.
\<close>

definition check_cell ::
  "(string \<times> sql_type) list \<Rightarrow> string list \<Rightarrow> bytes \<Rightarrow> nat \<Rightarrow> nat \<Rightarrow> js_error option" where
  "check_cell spec names bs off i =
     (let numColumns = length names; colName = names ! ((i - off) mod numColumns)
      in case lookup_spec spec colName of
           NotAsked \<Rightarrow> None
         | Asked e \<Rightarrow>
             (case cell_type_at bs i of
                None \<Rightarrow> Some (Thrown (''Unknown CellType '' @ show_byte_at bs i))
              | Some actual \<Rightarrow>
                  (if isCompatible actual e then None
                   else Some (row_error (i div numColumns) colName (type_mismatch actual e))))
         | Inherited k \<Rightarrow>
             (case cell_type_at bs i of
                None \<Rightarrow> Some (Thrown (''Unknown CellType '' @ show_byte_at bs i))
              | Some actual \<Rightarrow>
                  Some (row_error (i div numColumns) colName
                    (mismatch_text actual (''INVALID('' @ inherited_text k @ '')'')))))"

fun check_cells ::
  "(string \<times> sql_type) list \<Rightarrow> string list \<Rightarrow> bytes \<Rightarrow> nat \<Rightarrow> nat \<Rightarrow> nat \<Rightarrow> js_error option" where
  "check_cells spec names bs off i 0 = None"
| "check_cells spec names bs off i (Suc k) =
     (case check_cell spec names bs off i of
        Some e \<Rightarrow> Some e | None \<Rightarrow> check_cells spec names bs off (i + 1) k)"

text \<open>The fields that \<open>tryMoveToNextBatch\<close> copies from the result and from the batch.\<close>

definition load_batch :: "query_result \<Rightarrow> result_batch \<Rightarrow> row_iter \<Rightarrow> row_iter" where
  "load_batch q b it = it\<lparr>it_columnNames := columnNames q, it_numColumns := length (columnNames q),
     it_batchIdx := it_batchIdx it + 1, it_batchBytes := batchBytes b,
     nextCellTypeOff := cellTypesOff b, cellTypesEnd := int (cellTypesOff b + cellTypesLen b),
     it_float64Cells := float64Cells b, it_blobCells := blobCells b, it_stringCells := stringCells b,
     it_varPos := varintOff b, it_varLen := varintOff b + varintLen b,
     nextFloat64Cell := 0, nextStringCell := 0, nextBlobCell := 0\<rparr>"

text \<open>A throw leaves the iterator as mutated so far, as in \<open>appendResultBatch\<close>.\<close>

definition tryMoveToNextBatch :: "query_result \<Rightarrow> row_iter \<Rightarrow> (js_error \<times> row_iter) + (bool \<times> row_iter)" where
  "tryMoveToNextBatch q it =
     (let nextBatchIdx = nat (it_batchIdx it + 1)
      in case nth_opt (batches q) nextBatchIdx of
           None \<Rightarrow> Inr (False, it)
         | Some b \<Rightarrow>
             (let it1 = load_batch q b it; names = columnNames q
              in case find (\<lambda>c. c \<notin> set names) (map fst (rowSpec it)) of
                   Some c \<Rightarrow> Inl (missing_column c names, it1)
                 | None \<Rightarrow>
                     (if numCells b = 0 then
                        (if isLastBatch b then Inr (False, it1) else Inl (AssertionFailed, it1))
                      else if names = [] then Inl (AssertionFailed, it1)
                      else (case check_cells (rowSpec it) names (batchBytes b) (cellTypesOff b)
                                   (cellTypesOff b) (cellTypesLen b) of
                              Some e \<Rightarrow> Inl (e, it1)
                            | None \<Rightarrow> Inr (True, it1)))))"

subsection \<open>Reading a row\<close>

text \<open>A varint cell: as a number through the reader, as a bigint through \<open>decodeInt64Varint\<close>.\<close>

definition read_varint_cell :: "proto_reader \<Rightarrow> string \<Rightarrow> row_iter \<Rightarrow> (js_error \<times> row_iter) + row_iter" where
  "read_varint_cell R colName it =
     (if lookup_spec (rowSpec it) colName = Asked T_NUM \<or> lookup_spec (rowSpec it) colName = Asked T_NUM_NULL then
        (case rd_int64 R (it_batchBytes it) (it_varPos it) (it_varLen it) of
           Inl e \<Rightarrow> Inl (e, it)
         | Inr (v, p) \<Rightarrow> Inr (set_cell colName (Some (V_num v)) (it\<lparr>it_varPos := p\<rparr>)))
      else
        (case decodeInt64Varint (it_batchBytes it) (it_varPos it) of
           Inl e \<Rightarrow> Inl (e, it)
         | Inr v \<Rightarrow>
             (let it1 = set_cell colName (Some (V_big v)) it
              in case rd_skip R (it_batchBytes it) (it_varPos it) (it_varLen it) of
                   Inl e \<Rightarrow> Inl (e, it1)
                 | Inr (_, p) \<Rightarrow> Inr (it1\<lparr>it_varPos := p\<rparr>))))"

definition read_cell :: "proto_reader \<Rightarrow> string \<Rightarrow> row_iter \<Rightarrow> (js_error \<times> row_iter) + row_iter" where
  "read_cell R colName it0 =
     (let bs = it_batchBytes it0; i = nextCellTypeOff it0;
          it = it0\<lparr>nextCellTypeOff := nextCellTypeOff it0 + 1\<rparr>
      in case cell_type_at bs i of
           None \<Rightarrow> Inl (Thrown (''Invalid cell type '' @ show_byte_at bs i), it)
         | Some CELL_NULL \<Rightarrow> Inr (set_cell colName (Some V_null) it)
         | Some CELL_VARINT \<Rightarrow> read_varint_cell R colName it
         | Some CELL_FLOAT64 \<Rightarrow>
             Inr (set_cell colName
                    (map_option (V_num \<circ> Bits_number) (nth_opt (it_float64Cells it) (nextFloat64Cell it)))
                    (it\<lparr>nextFloat64Cell := nextFloat64Cell it + 1\<rparr>))
         | Some CELL_STRING \<Rightarrow>
             Inr (set_cell colName
                    (map_option V_str (nth_opt (it_stringCells it) (nextStringCell it)))
                    (it\<lparr>nextStringCell := nextStringCell it + 1\<rparr>))
         | Some CELL_BLOB \<Rightarrow>
             Inr (set_cell colName
                    (map_option V_blob (nth_opt (it_blobCells it) (nextBlobCell it)))
                    (it\<lparr>nextBlobCell := nextBlobCell it + 1\<rparr>)))"

fun read_row :: "proto_reader \<Rightarrow> string list \<Rightarrow> row_iter \<Rightarrow> (js_error \<times> row_iter) + row_iter" where
  "read_row R [] it = Inr it"
| "read_row R (c # cs) it =
     (case read_cell R c it of Inl e \<Rightarrow> Inl e | Inr it' \<Rightarrow> read_row R cs it')"

text \<open>
  The loop at the start of \<open>next()\<close>: it moves over batches until a row is available. \<open>Inr (True, it)\<close>
  says that one is, \<open>Inr (False, it)\<close> that there is no further batch. It ends because every turn that
  goes on has taken one more batch.
\<close>

lemma tryMoveToNextBatch_progress:
  assumes "tryMoveToNextBatch q it = Inr (True, it')"
  shows "it_batchIdx it' = it_batchIdx it + 1" and "it_batchIdx it < int (length (batches q))"
proof -
  let ?i = "nat (it_batchIdx it + 1)"
  from assms have "it' = load_batch q (batches q ! ?i) it \<and> ?i < length (batches q)"
    by (cases "?i < length (batches q)")
      (auto simp: tryMoveToNextBatch_def Let_def nth_opt_def split: option.splits if_splits)
  then show "it_batchIdx it' = it_batchIdx it + 1" and "it_batchIdx it < int (length (batches q))"
    by (auto simp: load_batch_def)
qed

function seek_row :: "query_result \<Rightarrow> row_iter \<Rightarrow> (js_error \<times> row_iter) + (bool \<times> row_iter)" where
  "seek_row q it =
     (if int (nextCellTypeOff it + it_numColumns it) > cellTypesEnd it then
        (if int (nextCellTypeOff it) = cellTypesEnd it \<or> cellTypesEnd it = -1 then
           (case tryMoveToNextBatch q it of
              Inl e \<Rightarrow> Inl e
            | Inr (found, it') \<Rightarrow> (if found then seek_row q it' else Inr (False, it')))
         else Inl (AssertionFailed, it))
      else Inr (True, it))"
  by pat_completeness auto
termination
  by (relation "measure (\<lambda>(q, it). nat (int (length (batches q)) - it_batchIdx it))")
    (auto dest: tryMoveToNextBatch_progress)

declare seek_row.simps [simp del]

definition next_row :: "proto_reader \<Rightarrow> query_result \<Rightarrow> row_iter \<Rightarrow> (js_error \<times> row_iter) + row_iter" where
  "next_row R q it =
     (case seek_row q it of
        Inl e \<Rightarrow> Inl e
      | Inr (False, it') \<Rightarrow> Inr (it'\<lparr>it_isValid := False\<rparr>)
      | Inr (True, it') \<Rightarrow>
          (case read_row R (it_columnNames it') it' of
             Inl e \<Rightarrow> Inl e | Inr it'' \<Rightarrow> Inr (it''\<lparr>it_isValid := True\<rparr>)))"

text \<open>\<open>iter(spec)\<close>: the constructors call \<open>next()\<close> once; \<open>None\<close> for a spec outside the model.\<close>

definition iter ::
  "proto_reader \<Rightarrow> query_result \<Rightarrow> (string \<times> sql_type) list \<Rightarrow> ((js_error \<times> row_iter) + row_iter) option" where
  "iter R q spec = map_option (\<lambda>it. map_sum id wrap_iter (next_row R q it)) (new_row_iter spec)"

text \<open>
  \<open>get(columnName)\<close> of the iterator: \<open>Inr None\<close> is a member of the row object that is no value of the row, one
  of the wrapper's or of \<open>Object.prototype\<close>'s.
\<close>

definition get_column :: "row_iter \<Rightarrow> string \<Rightarrow> js_error + sql_value option" where
  "get_column it c =
     (case rowData it c of
        Some v \<Rightarrow> Inr (Some v)
      | None \<Rightarrow>
          (if c \<in> set (''_impl'' # wrapper_methods @ object_prototype) then Inr None
           else Inl (Thrown (''Column '' @ quote @ c @ quote @ '' doesn'' @ quote @ ''t exist. Actual columns: ['' @
             join_with '','' (it_columnNames it) @ '']''))))"

definition firstRow ::
  "proto_reader \<Rightarrow> query_result \<Rightarrow> (string \<times> sql_type) list \<Rightarrow> ((js_error \<times> row_iter) + row_iter) option" where
  "firstRow R q spec =
     map_option (\<lambda>r. case r of Inl e \<Rightarrow> Inl e | Inr it \<Rightarrow> (if it_isValid it then Inr it else Inl (AssertionFailed, it)))
       (iter R q spec)"

definition maybeFirstRow ::
  "proto_reader \<Rightarrow> query_result \<Rightarrow> (string \<times> sql_type) list \<Rightarrow> ((js_error \<times> row_iter) + row_iter option) option" where
  "maybeFirstRow R q spec =
     map_option (map_sum id (\<lambda>it. if it_isValid it then Some it else None)) (iter R q spec)"

subsection \<open>The awaitable wrapper\<close>

record waitable =
  w_impl :: query_result
  thenCalled :: bool

definition new_waitable :: waitable where
  "new_waitable = \<lparr>w_impl = new_query_result, thenCalled = False\<rparr>"

text \<open>\<open>then\<close> hands out the promise of all rows; \<open>catch\<close> and \<open>finally\<close> do so without the flag.\<close>

definition w_ensure :: "waitable \<Rightarrow> js_error + (nat \<times> waitable)" where
  "w_ensure w =
     (case ensureAllRowsPromise (w_impl w) of
        Inl e \<Rightarrow> Inl e | Inr (p, q) \<Rightarrow> Inr (p, w\<lparr>w_impl := q\<rparr>))"

definition w_then :: "waitable \<Rightarrow> js_error + (nat \<times> waitable)" where
  "w_then w = (if thenCalled w then Inl AssertionFailed else w_ensure (w\<lparr>thenCalled := True\<rparr>))"

subsection \<open>Conversions\<close>

text \<open>\<open>BigInt(Math.floor(x))\<close>, with the platform's floating point behind the argument \<open>num_floor\<close>.\<close>

fun timeFromSql :: "(js_number \<Rightarrow> js_error + int) \<Rightarrow> sql_value \<Rightarrow> js_error + int" where
  "timeFromSql num_floor (V_big n) = Inr n"
| "timeFromSql num_floor (V_num x) = num_floor x"
| "timeFromSql num_floor V_null = Inr 0"
| "timeFromSql num_floor _ = Inl (Thrown ''Refusing to create time from unrelated type'')"

fun durationFromSql :: "(js_number \<Rightarrow> js_error + int) \<Rightarrow> sql_value \<Rightarrow> js_error + int" where
  "durationFromSql num_floor (V_big n) = Inr n"
| "durationFromSql num_floor (V_num x) = num_floor x"
| "durationFromSql num_floor V_null = Inr 0"
| "durationFromSql num_floor _ = Inl (Thrown ''Refusing to create duration from unrelated type'')"

end
