(* ===== verification/Search_Manager.thy ===== *)
theory Search_Manager
  imports Async_Limiter Track_Manager Row_Iterator
begin

text \<open>
  Searching, \<^verbatim>\<open>core/search_manager.ts\<close>, with the two ways to compute the results, \<^verbatim>\<open>core/dataset_search.ts\<close> and
  \<^verbatim>\<open>core/sql_search.ts\<close>. What the trace processor answers to a query is an argument. The manager is cut at its
  \<open>await\<close>s; its closures are the tasks of an \<open>AsyncLimiter\<close>.
\<close>

subsection \<open>Results\<close>

datatype search_source = SrcCpu | SrcLog | SrcSlice | SrcTrack | SrcEvent

text \<open>\<open>SearchResults\<close>: five parallel arrays, of which the first \<open>totalResults\<close> entries count.\<close>

record search_results =
  eventIds :: "int list"
  tses :: "int list"
  utids :: "int list"
  trackUris :: "string list"
  result_sources :: "search_source list"
  totalResults :: nat

record search_result =
  res_eventId :: "int option"
  res_ts :: "int option"
  res_trackUri :: "string option"
  res_source :: "search_source option"

subsection \<open>Searching datasets\<close>

text \<open>A hit is the id, the time stamp and the track.\<close>

type_synonym hit = "int \<times> int \<times> track"

text \<open>What a provider gives for a search term: the tracks it selects and its filter, or an error.\<close>

record filter_expression =
  fe_where :: string
  fe_join :: "string option"
  fe_columns :: "(string \<times> sql_type) list option"

type_synonym search_provider = "(track list \<Rightarrow> track list) \<times> (string \<Rightarrow> js_error + filter_expression option)"

definition resultSchema :: dataset_schema where
  "resultSchema = [(''id'', T_NUM), (''ts'', T_LONG)]"

definition trackDatasetPairs :: "track list \<Rightarrow> (track \<times> dataset) list" where
  "trackDatasetPairs ts =
     List.map_filter (\<lambda>t. case track_dataset t of None \<Rightarrow> None
       | Some (r, sd) \<Rightarrow> if dataset_implements (Source r sd) resultSchema then Some (t, Source r sd) else None) ts"

definition finalQuery :: "string \<Rightarrow> filter_expression \<Rightarrow> string" where
  "finalQuery baseQuery f =
     ''SELECT'' @ nl @ indent (join_with ('','' @ nl) (map (\<lambda>c. ''__root.'' @ fst c) resultSchema)) 2 @ '','' @ nl @
     indent (''__root.__groupid,'' @ nl @ ''__root.__partition'') 2 @ nl @
     ''FROM ('' @ nl @ indent baseQuery 2 @ nl @ '') AS __root'' @ nl @
     (case fe_join f of
        Some j \<Rightarrow> (if j = [] then ''WHERE '' else ''JOIN '' @ j @ '' WHERE '') @ fe_where f
      | None \<Rightarrow> ''WHERE '' @ fe_where f)"

text \<open>A row of the answer: id, time stamp, group and partition value.\<close>

type_synonym hit_row = "int \<times> int \<times> int \<times> sql_lit"

text \<open>
  The rows are read as \<open>NUM\<close>, \<open>LONG\<close>, \<open>NUM\<close> and \<open>NUM_NULL\<close>; the last throws on a string or a blob (with
  a message that also has the place of the cell). The new
  \<open>UnionDatasetWithLineage\<close> resolves a row to datasets, whose tracks are the first ones that have them.
\<close>

definition hits_of_row ::
  "(sql_lit \<Rightarrow> int option) \<Rightarrow> (track \<times> dataset) list \<Rightarrow> hit_row \<Rightarrow> js_error + hit list" where
  "hits_of_row num pairs row =
     (case row of (i, ts, grp, part) \<Rightarrow>
        (case part of
           LStr s \<Rightarrow> Inl (Thrown (type_mismatch CELL_STRING T_NUM_NULL))
         | LBlob b \<Rightarrow> Inl (Thrown (type_mismatch CELL_BLOB T_NUM_NULL))
         | _ \<Rightarrow> Inr (List.map_filter (\<lambda>d. map_option (\<lambda>p. (i, ts, fst p)) (List.find (\<lambda>p. snd p = d) pairs))
             (resolveLineage num (map snd pairs) grp part))))"

definition searchTracksUsingProvider ::
  "(sql_lit \<Rightarrow> int option) \<Rightarrow> (string \<Rightarrow> js_error + hit_row list) \<Rightarrow> track list \<Rightarrow> filter_expression \<Rightarrow>
   js_error + hit list" where
  "searchTracksUsingProvider num answer ts f =
     (let pairs = trackDatasetPairs ts in
      if pairs = [] then Inr []
      else
        (let schema = assign (assign resultSchema (case fe_columns f of None \<Rightarrow> [] | Some c \<Rightarrow> c))
               [(groupid, T_NUM), (partition_col, T_NUM_NULL)]
         in case dataset_query (Lineage 0 (map snd pairs)) (Some schema) of
              Inl e \<Rightarrow> Inl e
            | Inr baseQuery \<Rightarrow>
                (case answer (finalQuery baseQuery f) of
                   Inl e \<Rightarrow> Inl e
                 | Inr rows \<Rightarrow> map_sum id concat (traverse (hits_of_row num pairs) rows))))"

text \<open>The loop over the providers of \<open>searchTrackEvents\<close>.\<close>

fun search_providers ::
  "(sql_lit \<Rightarrow> int option) \<Rightarrow> (string \<Rightarrow> js_error + hit_row list) \<Rightarrow> track list \<Rightarrow> string \<Rightarrow> search_provider list \<Rightarrow>
   js_error + hit list" where
  "search_providers num answer ts searchTerm [] = Inr []"
| "search_providers num answer ts searchTerm (p # ps) =
     (if fst p ts = [] then search_providers num answer ts searchTerm ps
      else
        (case snd p searchTerm of
           Inl e \<Rightarrow> Inl e
         | Inr None \<Rightarrow> search_providers num answer ts searchTerm ps
         | Inr (Some f) \<Rightarrow>
             (case searchTracksUsingProvider num answer (fst p ts) f of
                Inl e \<Rightarrow> Inl e
              | Inr hs \<Rightarrow> map_sum id (\<lambda>hs'. hs @ hs') (search_providers num answer ts searchTerm ps))))"

definition hit_key :: "hit \<Rightarrow> string" where
  "hit_key h = (case h of (i, ts, t) \<Rightarrow> show_int i @ ''-'' @ track_uri t)"

definition unique_hits :: "hit list \<Rightarrow> hit list" where
  "unique_hits hs = foldl (\<lambda>u h. if hit_key h \<in> hit_key ` set u then u else u @ [h]) [] hs"

text \<open>\<open>sort\<close> by the difference of the time stamps, which is stable.\<close>

definition searchTrackEvents ::
  "(sql_lit \<Rightarrow> int option) \<Rightarrow> (string \<Rightarrow> js_error + hit_row list) \<Rightarrow> track list \<Rightarrow> search_provider list \<Rightarrow> string \<Rightarrow>
   js_error + hit list" where
  "searchTrackEvents num answer ts ps searchTerm =
     map_sum id (\<lambda>hs. sort_key (\<lambda>h. fst (snd h)) (unique_hits hs)) (search_providers num answer ts searchTerm ps)"

definition executeDatasetSearch :: "hit list \<Rightarrow> search_results" where
  "executeDatasetSearch hs =
     \<lparr>eventIds = map fst hs, tses = map (\<lambda>h. fst (snd h)) hs, utids = replicate (length hs) (- 1),
      trackUris = map (\<lambda>h. track_uri (snd (snd h))) hs, result_sources = replicate (length hs) SrcEvent,
      totalResults = length hs\<rparr>"

subsection \<open>Searching with SQL\<close>

text \<open>
  The loop of \<open>executeSqlSearch\<close> over the rows of its main query: slice id, time stamp, source, source id
  and thread. Of the tracks with the same CPU or track id the last one is taken, of the log tracks the
  first. The arrays have one entry for each row, and rows without a track are skipped.
\<close>

definition cpu_track :: "track list \<Rightarrow> int \<Rightarrow> string option" where
  "cpu_track ts cpu = map_option track_uri (List.find (\<lambda>t. tag_cpu t = Some cpu \<and>
     (case tag_kinds t of None \<Rightarrow> False | Some ks \<Rightarrow> ''CpuSliceTrack'' \<in> set ks)) (rev ts))"

definition slice_track :: "track list \<Rightarrow> int \<Rightarrow> string option" where
  "slice_track ts i = map_option track_uri (List.find (\<lambda>t.
     (case tag_trackIds t of None \<Rightarrow> False | Some is \<Rightarrow> i \<in> set is)) (rev ts))"

definition log_track :: "track list \<Rightarrow> string option" where
  "log_track ts = map_option track_uri (List.find (\<lambda>t.
     (case tag_kinds t of None \<Rightarrow> False | Some ks \<Rightarrow> ''AndroidLogTrack'' \<in> set ks)) ts)"

type_synonym sql_row = "int \<times> int \<times> search_source \<times> int \<times> int"

definition row_track :: "track list \<Rightarrow> sql_row \<Rightarrow> string option" where
  "row_track ts row =
     (case row of (sid, t, src, srcId, utid) \<Rightarrow>
        (case src of SrcCpu \<Rightarrow> cpu_track ts srcId | SrcSlice \<Rightarrow> slice_track ts srcId
         | SrcLog \<Rightarrow> log_track ts | _ \<Rightarrow> None))"

definition empty_results :: "nat \<Rightarrow> search_results" where
  "empty_results n =
     \<lparr>eventIds = replicate n 0, tses = replicate n 0, utids = replicate n 0, trackUris = [],
      result_sources = [], totalResults = 0\<rparr>"

definition add_sql_row :: "track list \<Rightarrow> search_results \<Rightarrow> sql_row \<Rightarrow> search_results" where
  "add_sql_row ts r row =
     (case row_track ts row of
        None \<Rightarrow> r
      | Some u \<Rightarrow>
          (case row of (sid, t, src, srcId, utid) \<Rightarrow>
             r\<lparr>totalResults := Suc (totalResults r), trackUris := trackUris r @ [u],
               result_sources := result_sources r @ [src],
               eventIds := (eventIds r)[totalResults r := sid], tses := (tses r)[totalResults r := t],
               utids := (utids r)[totalResults r := utid]\<rparr>))"

definition executeSqlSearch :: "track list \<Rightarrow> sql_row list \<Rightarrow> search_results" where
  "executeSqlSearch ts rows = foldl (add_sql_row ts) (empty_results (length rows)) rows"

subsection \<open>The manager\<close>

text \<open>
  The closure of a search is its generation and its text. The query of the closure that is in work may
  have been answered, and then the closure is over, before the limiter resumes. What arrived for which search is logged, and
  what was handed to \<open>onResultStep\<close>. \<open>has_trace\<close>: the manager was made with an engine.
\<close>

record search_manager =
  searchGeneration :: nat
  searchText :: string
  sm_results :: "search_results option"
  resultIndex :: int
  searchInProgress :: bool
  sm_limiter :: "(nat \<times> string) limiter"
  has_trace :: bool
  arrived :: "(nat \<times> string \<times> search_results) list"
  stepped :: "search_result list"

definition new_search_manager :: "bool \<Rightarrow> search_manager" where
  "new_search_manager tr =
     \<lparr>searchGeneration = 0, searchText = [], sm_results = None, resultIndex = - 1,
      searchInProgress = False, sm_limiter = new_limiter, has_trace = tr, arrived = [], stepped = []\<rparr>"

definition search :: "string \<Rightarrow> search_manager \<Rightarrow> search_manager" where
  "search txt m =
     (if txt = searchText m then m
      else
        (let m1 = m\<lparr>searchText := txt, searchGeneration := Suc (searchGeneration m), sm_results := None,
                    resultIndex := - 1, searchInProgress := False\<rparr>
         in if \<not> has_trace m then m1
            else if txt \<noteq> []
            then m1\<lparr>searchInProgress := True,
                    sm_limiter := schedule_work (searchGeneration m1, txt) (sm_limiter m1)\<rparr>
            else m1))"

definition reset_search :: "search_manager \<Rightarrow> search_manager" where
  "reset_search m = search [] m"

text \<open>\<open>findIndex\<close>, which answers -1 when there is none.\<close>

definition findIndex :: "('a \<Rightarrow> bool) \<Rightarrow> 'a list \<Rightarrow> int" where
  "findIndex p xs =
     (if list_ex p xs then int (length (takeWhile (\<lambda>x. \<not> p x) xs)) else - 1)"

definition first_index :: "int option \<Rightarrow> search_results \<Rightarrow> int" where
  "first_index visibleStart r =
     (case visibleStart of
        Some start \<Rightarrow>
          (let foundIndex = findIndex (\<lambda>ts. start \<le> ts) (tses r)
           in if foundIndex = - 1 then - 1 else foundIndex - 1)
      | None \<Rightarrow> - 1)"

text \<open>
  The closure after its queries: it gets results, and the start of the visible window if there is a
  timeline, or an error.
\<close>

definition search_ends :: "js_error + search_results \<Rightarrow> int option \<Rightarrow> search_manager \<Rightarrow> search_manager option" where
  "search_ends res visibleStart m =
     (case loop (sm_limiter m) of
        Working n (generation, txt) \<Rightarrow>
          (case res of
             Inl e \<Rightarrow>
               map_option (\<lambda>l. m\<lparr>sm_limiter := l\<rparr>) (work_ends False (sm_limiter m))
           | Inr r \<Rightarrow>
               map_option (\<lambda>l.
                 let m1 = m\<lparr>sm_limiter := l, arrived := arrived m @ [(generation, txt, r)]\<rparr>
                 in if generation \<noteq> searchGeneration m then m1
                    else m1\<lparr>sm_results := Some r, resultIndex := first_index visibleStart r,
                             searchInProgress := False\<rparr>) (work_ends True (sm_limiter m)))
      | _ \<Rightarrow> None)"

definition result_at :: "search_results \<Rightarrow> int \<Rightarrow> search_result" where
  "result_at r i =
     (if i < 0 then \<lparr>res_eventId = None, res_ts = None, res_trackUri = None, res_source = None\<rparr>
      else \<lparr>res_eventId = nth_opt (eventIds r) (nat i), res_ts = nth_opt (tses r) (nat i),
            res_trackUri = nth_opt (trackUris r) (nat i), res_source = nth_opt (result_sources r) (nat i)\<rparr>)"

definition stepInternal :: "bool \<Rightarrow> search_manager \<Rightarrow> search_manager" where
  "stepInternal reverse m =
     (case sm_results m of
        None \<Rightarrow> m
      | Some r \<Rightarrow>
          if totalResults r = 0 then m
          else
            (let total = int (totalResults r);
                 i = (if reverse
                      then (if resultIndex m - 1 < 0 then total - 1 else resultIndex m - 1)
                      else (if resultIndex m + 1 > total - 1 then 0 else resultIndex m + 1))
             in m\<lparr>resultIndex := i, stepped := stepped m @ [result_at r i]\<rparr>))"

definition stepForward :: "search_manager \<Rightarrow> search_manager" where
  "stepForward m = stepInternal False m"

definition stepBackwards :: "search_manager \<Rightarrow> search_manager" where
  "stepBackwards m = stepInternal True m"

text \<open>
  Events: a call of the manager, the closure in work is over, its limiter resumes, and the callback of
  \<open>finally\<close> runs.
\<close>

datatype search_event =
    SearchFor string
  | StepResult bool
  | SearchEnds "js_error + search_results" "int option"
  | SearchResumes
  | SearchFinally

definition limiter_event :: "(nat \<times> string) limiter_event \<Rightarrow> search_manager \<Rightarrow> search_manager option" where
  "limiter_event e m = map_option (\<lambda>l. m\<lparr>sm_limiter := l\<rparr>) (limiter_step e (sm_limiter m))"

fun search_step :: "search_event \<Rightarrow> search_manager \<Rightarrow> search_manager option" where
  "search_step (SearchFor t) m = Some (search t m)"
| "search_step (StepResult reverse) m = Some (stepInternal reverse m)"
| "search_step (SearchEnds res vis) m = search_ends res vis m"
| "search_step SearchResumes m = limiter_event LoopResumes m"
| "search_step SearchFinally m = limiter_event FinallyRuns m"

fun search_run :: "search_event list \<Rightarrow> search_manager \<Rightarrow> search_manager option" where
  "search_run [] m = Some m"
| "search_run (e # es) m =
     (case search_step e m of None \<Rightarrow> None | Some m' \<Rightarrow> search_run es m')"

end
