(* ===== verification/Dataset_Correct.thy ===== *)
theory Dataset_Correct
  imports Dataset "HOL-Library.Multiset"
begin

text \<open>
  What the statements of a dataset select. SQLite is a parameter: a \<open>sql_db\<close> gives the rows of a
  source with its joins, whether a row's column equals a value, and the value of an expression. A
  source dataset then means a list of result rows, and merging the sources of a union is compared
  with the union of their rows. Also the schema of a union, the batches of a long union and the
  lineage of its rows.
\<close>

subsection \<open>Grouping\<close>

text \<open>Grouping by a key keeps every element once, in the group of its key, in the order of the list.\<close>

lemma map_get_add_to_group [simp]:
  "map_get k (add_to_group k' x gs) = (if k = k' then map_get k gs @ [x] else map_get k gs)"
  by (induction gs) (auto simp: map_get_def)

lemma add_to_group_keys: "fst ` set (add_to_group k x gs) = insert k (fst ` set gs)"
  by (induction gs) auto

lemma add_to_group_distinct:
  "distinct (map fst gs) \<Longrightarrow> distinct (map fst (add_to_group k x gs))"
  by (induction gs) (auto simp: add_to_group_keys)

lemma add_to_group_mset:
  "mset (concat (map snd (add_to_group k x gs))) = add_mset x (mset (concat (map snd gs)))"
  by (induction gs) auto

lemma add_to_group_nonempty: "[] \<notin> snd ` set gs \<Longrightarrow> [] \<notin> snd ` set (add_to_group k x gs)"
  by (induction gs) auto

lemma map_get_mem: "distinct (map fst gs) \<Longrightarrow> (k, g) \<in> set gs \<Longrightarrow> map_get k gs = g"
  by (simp add: map_get_def)

lemma combinedSrcSets_snoc:
  "combinedSrcSets (ls @ [sd]) = add_to_group (source_key sd) sd (combinedSrcSets ls)"
  by (simp add: combinedSrcSets_def)

lemma combinedSrcSets_spec:
  "distinct (map fst (combinedSrcSets ls)) \<and> [] \<notin> snd ` set (combinedSrcSets ls) \<and>
   mset (concat (map snd (combinedSrcSets ls))) = mset ls \<and>
   map_get k (combinedSrcSets ls) = filter (\<lambda>sd. source_key sd = k) ls"
proof (induction ls rule: rev_induct)
  case Nil
  show ?case by (simp add: combinedSrcSets_def map_get_def)
next
  case (snoc sd ls)
  then show ?case
    by (auto simp: combinedSrcSets_snoc add_to_group_distinct add_to_group_mset
        dest: add_to_group_nonempty)
qed

lemma group_is_filter:
  assumes "(k, g) \<in> set (combinedSrcSets ls)"
  shows "g = filter (\<lambda>sd. source_key sd = k) ls" and "g \<noteq> []"
  using assms combinedSrcSets_spec [of ls k] map_get_mem [of "combinedSrcSets ls" k g] by force+

subsection \<open>The rows of a dataset\<close>

record ('r, 'v) sql_db =
  db_rows :: "string \<Rightarrow> (string \<times> join) list \<Rightarrow> 'r list"
  db_equals :: "'r \<Rightarrow> string \<Rightarrow> sql_lit \<Rightarrow> bool"
  db_value :: "'r \<Rightarrow> string \<Rightarrow> 'v"

definition filter_accepts :: "('r, 'v) sql_db \<Rightarrow> sql_filter option \<Rightarrow> 'r \<Rightarrow> bool" where
  "filter_accepts db f row =
     (case f of None \<Rightarrow> True
      | Some g \<Rightarrow> list_ex (db_equals db row (fst (in_filter g))) (snd (in_filter g)))"

definition meaning :: "('r, 'v) sql_db \<Rightarrow> string list \<Rightarrow> source_dataset \<Rightarrow> 'v list list" where
  "meaning db cols sd =
     map (\<lambda>row. map (\<lambda>c. db_value db row (select_expr sd c)) cols)
       (filter (filter_accepts db (sd_filter sd)) (db_rows db (sd_src sd) (from_joins sd cols)))"

definition union_meaning :: "('r, 'v) sql_db \<Rightarrow> string list \<Rightarrow> source_dataset list \<Rightarrow> 'v list list" where
  "union_meaning db cols sds = concat (map (meaning db cols) sds)"

definition object_keys_distinct :: "source_dataset \<Rightarrow> bool" where
  "object_keys_distinct sd \<longleftrightarrow>
     distinct (map fst (case sd_select sd of None \<Rightarrow> [] | Some s \<Rightarrow> s)) \<and>
     distinct (map fst (case sd_joins sd of None \<Rightarrow> [] | Some js \<Rightarrow> js))"

text \<open>
  Two sources split a table: they differ in their filters only, which are on the same column, and
  accept no common row.
\<close>

definition split_table :: "('r, 'v) sql_db \<Rightarrow> source_dataset \<Rightarrow> source_dataset \<Rightarrow> bool" where
  "split_table db a b \<longleftrightarrow>
     sd_src a = sd_src b \<and> sd_select a = sd_select b \<and> sd_joins a = sd_joins b \<and>
     (\<exists>f g. sd_filter a = Some f \<and> sd_filter b = Some g \<and> filter_col f = filter_col g) \<and>
     (\<forall>js. \<forall>row\<in>set (db_rows db (sd_src a) js).
        \<not> (filter_accepts db (sd_filter a) row \<and> filter_accepts db (sd_filter b) row))"

lemma in_filter_col [simp]: "fst (in_filter f) = filter_col f"
  by (cases f) simp_all

lemma set_add_foldl: "set (foldl (\<lambda>a v. set_add v a) acc vs) = set acc \<union> set vs"
  by (induction vs arbitrary: acc) (auto simp: set_add_def)

lemma distinct_set_add_foldl: "distinct acc \<Longrightarrow> distinct (foldl (\<lambda>a v. set_add v a) acc vs)"
  by (induction vs arbitrary: acc) (auto simp: set_add_def)

subsection \<open>Merging keeps selections and joins\<close>

lemma assign_self:
  assumes "distinct (map fst js)"
  shows "assign js js = js"
proof -
  have "distinct (map fst js) \<Longrightarrow> set ks \<subseteq> set js \<Longrightarrow> assign js ks = js" for ks
  proof (induction ks)
    case (Cons p ks)
    then have "AList.update (fst p) (snd p) js = js"
      by (metis list.set_intros(1) map_of_eq_Some_iff prod.collapse subset_iff update_triv)
    with Cons show ?case by (cases p) (simp add: assign_def)
  qed (simp add: assign_def)
  with assms show ?thesis by simp
qed

lemma assign_Nil:
  assumes "distinct (map fst js)"
  shows "assign [] js = js"
proof -
  have upd: "k \<notin> fst ` set m \<Longrightarrow> AList.update k v m = m @ [(k, v)]" for k :: 'a and v :: 'b and m
    by (induction m) auto
  have "distinct (map fst (acc @ js)) \<Longrightarrow> assign acc js = acc @ js" for acc
    by (induction js arbitrary: acc) (auto simp: assign_def upd)
  with assms show ?thesis by simp
qed

lemma combinedJoins_same:
  assumes "\<forall>sd\<in>set g. sd_joins sd = J" and "g \<noteq> []"
    and "distinct (map fst (case J of None \<Rightarrow> [] | Some js \<Rightarrow> js))"
  shows "combinedJoins g = (case J of None \<Rightarrow> [] | Some js \<Rightarrow> js)"
proof (cases J)
  case None
  with assms(1) have "foldl (\<lambda>acc sd. case sd_joins sd of None \<Rightarrow> acc | Some js \<Rightarrow> assign acc js) a g = a" for a
    by (induction g) auto
  with None show ?thesis by (simp add: combinedJoins_def)
next
  case (Some js)
  from assms(3) Some have d: "distinct (map fst js)" by simp
  have stay: "\<forall>sd\<in>set h. sd_joins sd = Some js \<Longrightarrow>
      foldl (\<lambda>acc sd. case sd_joins sd of None \<Rightarrow> acc | Some js \<Rightarrow> assign acc js) js h = js" for h
    by (induction h) (auto simp: assign_self [OF d])
  from assms(2) obtain a h where g: "g = a # h" by (cases g) auto
  show ?thesis using stay [of h] assms(1) d by (simp add: combinedJoins_def assign_Nil g Some)
qed

abbreviation select_if_new :: "(string \<times> select_value) list \<Rightarrow> string \<times> select_value \<Rightarrow> (string \<times> select_value) list" where
  "select_if_new \<equiv> \<lambda>a (col, v). if col \<in> fst ` set a then a else a @ [(col, v)]"

lemma select_known: "fst ` set s \<subseteq> fst ` set a \<Longrightarrow> foldl select_if_new a s = a"
  by (induction s) force+

lemma select_fresh: "distinct (map fst (a @ s)) \<Longrightarrow> foldl select_if_new a s = a @ s"
  by (induction s arbitrary: a) auto

lemma combinedSelect_same:
  assumes "\<forall>sd\<in>set g. sd_select sd = S" and "g \<noteq> []"
    and "distinct (map fst (case S of None \<Rightarrow> [] | Some s \<Rightarrow> s))"
  shows "combinedSelect g = (case S of None \<Rightarrow> [] | Some s \<Rightarrow> s)"
proof (cases S)
  case None
  with assms(1) have "foldl (\<lambda>acc sd. case sd_select sd of None \<Rightarrow> acc
      | Some s \<Rightarrow> foldl select_if_new acc s) a g = a" for a
    by (induction g) auto
  with None show ?thesis by (simp add: combinedSelect_def)
next
  case (Some s)
  have stay: "\<forall>sd\<in>set h. sd_select sd = Some s \<Longrightarrow>
      foldl (\<lambda>acc sd. case sd_select sd of None \<Rightarrow> acc | Some s \<Rightarrow> foldl select_if_new acc s) s h = s" for h
    by (induction h) (auto simp: select_known)
  have "foldl select_if_new [] s = s"
    using select_fresh [of "[]" s] assms(3) Some by simp
  moreover from assms(2) obtain a h where g: "g = a # h" by (cases g) auto
  ultimately show ?thesis using stay [of h] assms(1) by (simp add: combinedSelect_def g Some)
qed

subsection \<open>Merging keeps rows\<close>

lemma mergeFilters_accepts:
  assumes "\<forall>f\<in>set fs. filter_col f = c"
  shows "fs \<noteq> [] \<Longrightarrow> filter_accepts db (mergeFilters (map in_filter fs)) row \<longleftrightarrow>
           (\<exists>f\<in>set fs. filter_accepts db (Some f) row)"
  using assms
  by (cases fs) (auto simp: filter_accepts_def list_ex_iff set_add_foldl)

lemma mset_filter_split:
  assumes "sorted_wrt (\<lambda>a b. \<forall>r\<in>set rows. \<not> (P a r \<and> P b r)) g"
  shows "mset (filter (\<lambda>r. \<exists>a\<in>set g. P a r) rows) = mset (concat (map (\<lambda>a. filter (P a) rows) g))"
  using assms
proof (induction g)
  case (Cons a g)
  then have disj: "\<forall>r\<in>set rows. \<not> (P a r \<and> (\<exists>b\<in>set g. P b r))" by auto
  have "mset (filter (\<lambda>r. \<exists>b\<in>set (a # g). P b r) rows)
      = mset (filter (P a) rows) + mset (filter (\<lambda>r. \<exists>b\<in>set g. P b r) rows)"
    using disj by (induction rows) auto
  with Cons show ?case by simp
qed simp

lemma merge_group_rows:
  assumes split: "sorted_wrt (split_table db) g" and two: "Suc 0 < length g"
    and wf: "\<forall>sd\<in>set g. object_keys_distinct sd"
  shows "mset (meaning db cols (merge_group g)) = mset (union_meaning db cols g)"
proof -
  obtain a h where g: "g = a # h" and "h \<noteq> []" using two by (cases g) auto
  then obtain f where f: "sd_filter a = Some f"
    using split by (cases h) (auto simp: split_table_def)
  let ?c = "filter_col f"
  have same: "\<forall>b\<in>set g. sd_src b = sd_src a \<and> sd_select b = sd_select a \<and> sd_joins b = sd_joins a \<and>
      (\<exists>k. sd_filter b = Some k \<and> filter_col k = ?c)"
    using split f by (auto simp: g split_table_def)
  let ?fs = "List.map_filter sd_filter g"
  have col: "\<forall>k\<in>set ?fs. filter_col k = ?c" and "?fs \<noteq> []"
    using same f by (auto simp: List.map_filter_def g)
  have acc: "filter_accepts db (sd_filter (merge_group g)) row \<longleftrightarrow>
      (\<exists>b\<in>set g. filter_accepts db (sd_filter b) row)" for row
  proof -
    have "filter_accepts db (sd_filter (merge_group g)) row \<longleftrightarrow>
        (\<exists>k\<in>set ?fs. filter_accepts db (Some k) row)"
      using mergeFilters_accepts [OF col \<open>?fs \<noteq> []\<close>] by (simp add: merge_group_def)
    also have "\<dots> \<longleftrightarrow> (\<exists>b\<in>set g. filter_accepts db (sd_filter b) row)"
      using same by (force simp: List.map_filter_def)
    finally show ?thesis .
  qed
  have keys: "distinct (map fst (case sd_select a of None \<Rightarrow> [] | Some s \<Rightarrow> s))"
      "distinct (map fst (case sd_joins a of None \<Rightarrow> [] | Some js \<Rightarrow> js))"
    using wf by (auto simp: object_keys_distinct_def g)
  have sel: "combinedSelect g = (case sd_select a of None \<Rightarrow> [] | Some s \<Rightarrow> s)"
    using same keys by (intro combinedSelect_same) (auto simp: g)
  have joins: "combinedJoins g = (case sd_joins a of None \<Rightarrow> [] | Some js \<Rightarrow> js)"
    using same keys by (intro combinedJoins_same) (auto simp: g)
  have selv: "selectValue (merge_group g) c = selectValue a c" for c
    by (auto simp: selectValue_def merge_group_def sel split: option.splits)
  then have expr: "select_expr (merge_group g) c = select_expr a c" for c
    by (simp add: select_expr_def)
  have "referencedJoins (merge_group g) cols = referencedJoins a cols"
    by (simp add: referencedJoins_def selv)
  moreover have "sd_joins (merge_group g) =
      (let js = (case sd_joins a of None \<Rightarrow> [] | Some js \<Rightarrow> js) in if js \<noteq> [] then Some js else None)"
    by (simp add: merge_group_def joins)
  ultimately have fj: "from_joins (merge_group g) cols = from_joins a cols"
    by (auto simp: from_joins_def split: option.splits)
  have like: "select_expr b = select_expr a \<and> from_joins b cols = from_joins a cols" if "b \<in> set g" for b
  proof -
    have "sd_select b = sd_select a" and "sd_joins b = sd_joins a" using same that by auto
    moreover from this have "selectValue b = selectValue a" by (simp add: selectValue_def fun_eq_iff)
    moreover from this have "referencedJoins b = referencedJoins a"
      by (simp add: referencedJoins_def fun_eq_iff)
    ultimately show ?thesis by (simp add: select_expr_def from_joins_def fun_eq_iff split: option.split)
  qed
  let ?rows = "db_rows db (sd_src a) (from_joins a cols)"
  let ?proj = "\<lambda>row. map (\<lambda>c. db_value db row (select_expr a c)) cols"
  have disj: "sorted_wrt (\<lambda>a b. \<forall>r\<in>set ?rows. \<not> (filter_accepts db (sd_filter a) r \<and>
      filter_accepts db (sd_filter b) r)) g"
    using split
  proof (rule sorted_wrt_mono_rel [rotated])
    fix x y
    assume "x \<in> set g" and "y \<in> set g" and st: "split_table db x y"
    then have "sd_src x = sd_src a" using same by auto
    with st show "\<forall>r\<in>set ?rows. \<not> (filter_accepts db (sd_filter x) r \<and> filter_accepts db (sd_filter y) r)"
      by (simp add: split_table_def)
  qed
  have "mset (meaning db cols (merge_group g)) =
      image_mset ?proj (mset (filter (\<lambda>r. \<exists>b\<in>set g. filter_accepts db (sd_filter b) r) ?rows))"
    by (simp add: meaning_def fj expr acc) (simp add: merge_group_def g)
  also have "\<dots> = image_mset ?proj (mset (concat (map (\<lambda>b. filter (filter_accepts db (sd_filter b)) ?rows) g)))"
    by (simp only: mset_filter_split [OF disj])
  also have "\<dots> = mset (concat (map (\<lambda>b. map ?proj (filter (filter_accepts db (sd_filter b)) ?rows)) g))"
    by (simp add: map_concat o_def flip: mset_map)
  also have "map (\<lambda>b. map ?proj (filter (filter_accepts db (sd_filter b)) ?rows)) g = map (meaning db cols) g"
    using same like by (auto simp: meaning_def)
  finally show ?thesis by (simp add: union_meaning_def)
qed

lemma mset_union_meaning:
  "mset sds = mset sds' \<Longrightarrow> mset (union_meaning db cols sds) = mset (union_meaning db cols sds')"
proof -
  have "mset (union_meaning db cols xs) = \<Sum>\<^sub># (image_mset (\<lambda>sd. mset (meaning db cols sd)) (mset xs))" for xs
    by (induction xs) (simp_all add: union_meaning_def)
  then show "mset sds = mset sds' \<Longrightarrow> ?thesis" by simp
qed

lemma union_meaning_concat:
  "union_meaning db cols (concat gs) = concat (map (union_meaning db cols) gs)"
  by (induction gs) (simp_all add: union_meaning_def)

lemma mergedSources_rows:
  assumes split: "sorted_wrt (\<lambda>a b. source_key a = source_key b \<longrightarrow> split_table db a b) ls"
    and wf: "\<forall>sd\<in>set ls. object_keys_distinct sd"
  shows "mset (union_meaning db cols (mergedSources ls)) = mset (union_meaning db cols ls)"
proof -
  let ?gs = "combinedSrcSets ls"
  have one: "mset (meaning db cols (case g of [sd] \<Rightarrow> sd | _ \<Rightarrow> merge_group g)) =
      mset (union_meaning db cols g)" if "(k, g) \<in> set ?gs" for k g
  proof (cases "Suc 0 < length g")
    case True
    have "g = filter (\<lambda>sd. source_key sd = k) ls" using group_is_filter that by blast
    moreover have "sorted_wrt (\<lambda>a b. source_key a = source_key b \<longrightarrow> split_table db a b)
        (filter (\<lambda>sd. source_key sd = k) ls)"
      using split by (rule sorted_wrt_filter)
    ultimately have "sorted_wrt (split_table db) g"
      by (auto elim!: sorted_wrt_mono_rel [rotated])
    moreover have "\<forall>sd\<in>set g. object_keys_distinct sd"
      using wf \<open>g = _\<close> by simp
    moreover have "(case g of [sd] \<Rightarrow> sd | _ \<Rightarrow> merge_group g) = merge_group g"
      using True by (auto split: list.splits)
    ultimately show ?thesis using merge_group_rows True by metis
  next
    case False
    with group_is_filter(2) [OF that] obtain sd where "g = [sd]" by (cases g) auto
    then show ?thesis by (simp add: union_meaning_def)
  qed
  let ?rep = "\<lambda>g. case g of [sd] \<Rightarrow> sd | _ \<Rightarrow> merge_group g"
  have "set hs \<subseteq> set ?gs \<Longrightarrow>
      mset (union_meaning db cols (map (\<lambda>(k, g). ?rep g) hs)) =
      mset (concat (map (union_meaning db cols) (map snd hs)))" for hs
    by (induction hs) (auto simp: union_meaning_def one)
  then have "mset (union_meaning db cols (mergedSources ls)) =
      mset (union_meaning db cols (concat (map snd ?gs)))"
    by (simp add: union_meaning_concat mergedSources_def)
  then show ?thesis using combinedSrcSets_spec mset_union_meaning by metis
qed


definition slices_db :: "(int \<times> int, int) sql_db" where
  "slices_db =
     \<lparr>db_rows = (\<lambda>src js. if src = ''slice'' then [(1, 7), (2, 8), (3, 7), (4, 9)] else []),
      db_equals = (\<lambda>row col v. col = ''track_id'' \<and> (v = LNum (snd row) \<or> v = LBig (snd row))),
      db_value = (\<lambda>row e. if e = ''id'' then fst row else snd row)\<rparr>"

definition track_slices :: "int \<Rightarrow> source_dataset" where
  "track_slices n =
     \<lparr>sd_src = ''slice'', sd_schema = [(''id'', T_NUM)], sd_filter = Some (EqFilter ''track_id'' (LNum n)),
      sd_select = None, sd_joins = None\<rparr>"


subsection \<open>What merging loses\<close>

lemma sources_of_leaves: "sources (flattenUnion (map (Source i) xs)) = xs"
  by (induction xs) (simp_all add: flattenUnion_def sources_def List.map_filter_def)

lemma others_of_leaves: "otherDatasets (flattenUnion (map (Source i) xs)) = []"
  by (induction xs) (simp_all add: flattenUnion_def otherDatasets_def)

lemma combinedSrcSets_one_key:
  assumes "\<forall>sd\<in>set xs. source_key sd = k" and "xs \<noteq> []"
  shows "combinedSrcSets xs = [(k, xs)]"
  using assms
proof (induction xs rule: rev_induct)
  case (snoc sd xs)
  then show ?case
    by (cases "xs = []") (auto simp: combinedSrcSets_snoc, simp add: combinedSrcSets_def)
qed simp

lemma query_of_one_group:
  assumes "\<forall>sd\<in>set xs. source_key sd = k" and "Suc 0 < length xs"
  shows "dataset_query (Union r (map (Source i) xs)) (Some q) = source_query (merge_group xs) (Some q)"
proof -
  have "mergedSources xs = [merge_group xs]"
    using assms combinedSrcSets_one_key [of xs k]
    by (cases xs; cases "tl xs") (auto simp: mergedSources_def)
  then have "mergedDatasets (map (Source i) xs) = [Source 0 (merge_group xs)]"
    by (simp add: mergedDatasets_def Let_def sources_of_leaves others_of_leaves)
  moreover have "union_text q [x] = x" for x by (simp add: union_text_def)
  ultimately show ?thesis by (simp split: sum.splits)
qed

lemma source_query_schema: "source_query (sd\<lparr>sd_schema := s\<rparr>) (Some q) = source_query sd (Some q)"
proof -
  have "selectValue (sd\<lparr>sd_schema := s\<rparr>) c = selectValue sd c" for c
    by (simp add: selectValue_def)
  then have "select_col (sd\<lparr>sd_schema := s\<rparr>) = select_col sd"
    and "referencedJoins (sd\<lparr>sd_schema := s\<rparr>) = referencedJoins sd"
    by (simp_all add: select_col_def select_expr_def referencedJoins_def fun_eq_iff)
  moreover from this have "from_joins (sd\<lparr>sd_schema := s\<rparr>) = from_joins sd"
    by (simp add: from_joins_def fun_eq_iff split: option.split)
  ultimately show ?thesis by (simp add: source_query_def fromClause_def)
qed

text \<open>
  C39. A source without a filter that joins two or more sources of the same table is lost: the statement of
  the union is the one without it, although alone it selects every row of the table.
\<close>

theorem unfiltered_source_lost:
  assumes "Suc 0 < length fs" and "list_all (\<lambda>sd. source_key sd = source_key b) fs"
    and "sd_filter b = None" and "sd_select b = None" and "sd_joins b = None"
  shows "dataset_query (Union r (map (Source i) (fs @ [b]))) (Some q) =
         dataset_query (Union r (map (Source i) fs)) (Some q)"
proof -
  have "fs \<noteq> []" using assms(1) by auto
  have "merge_group (fs @ [b]) =
      (merge_group fs)\<lparr>sd_schema := assign (sd_schema (merge_group fs)) (sd_schema b)\<rparr>"
    using \<open>fs \<noteq> []\<close> assms(3-5)
    by (simp add: merge_group_def combinedSelect_def combinedJoins_def List.map_filter_def)
  then have "source_query (merge_group (fs @ [b])) (Some q) = source_query (merge_group fs) (Some q)"
    by (simp add: source_query_schema)
  moreover have "dataset_query (Union r (map (Source i) (fs @ [b]))) (Some q) =
      source_query (merge_group (fs @ [b])) (Some q)"
    using assms(1,2) by (intro query_of_one_group) (auto simp: list_all_iff)
  moreover have "dataset_query (Union r (map (Source i) fs)) (Some q) = source_query (merge_group fs) (Some q)"
    using assms(1,2) by (intro query_of_one_group) (auto simp: list_all_iff)
  ultimately show ?thesis by simp
qed

theorem unfiltered_source_lost_witness:
  "dataset_query (Union 0 (map (Source 1)
      ([track_slices 7, track_slices 9] @ [(track_slices 0)\<lparr>sd_filter := None\<rparr>]))) (Some [(''id'', T_NUM)]) =
   dataset_query (Union 0 (map (Source 1) [track_slices 7, track_slices 9])) (Some [(''id'', T_NUM)]) \<and>
   length (meaning slices_db [''id''] ((track_slices 0)\<lparr>sd_filter := None\<rparr>)) = 4"
proof
  show "dataset_query (Union 0 (map (Source 1)
      ([track_slices 7, track_slices 9] @ [(track_slices 0)\<lparr>sd_filter := None\<rparr>]))) (Some [(''id'', T_NUM)]) =
   dataset_query (Union 0 (map (Source 1) [track_slices 7, track_slices 9])) (Some [(''id'', T_NUM)])"
    by (rule unfiltered_source_lost)
      (simp_all add: track_slices_def source_key_def getJoinSignature_def)
  show "length (meaning slices_db [''id''] ((track_slices 0)\<lparr>sd_filter := None\<rparr>)) = 4"
    by (simp add: meaning_def slices_db_def track_slices_def filter_accepts_def from_joins_def)
qed

subsection \<open>The batches of a long union\<close>

lemma batches_Nil [simp]: "batches n [] = []"
  by (subst batches.simps) simp

lemma div_add_once: "0 < n \<Longrightarrow> (m + n) div n = Suc (m div (n :: nat))"
  using div_add_self2 [of n m] by (simp only: neq0_conv)

lemma batches_length: "0 < n \<Longrightarrow> length (batches n xs) = (length xs + n - 1) div n"
proof (induction n xs rule: batches.induct)
  case (1 n xs)
  show ?case
  proof (cases "xs = []")
    case False
    with 1 have "length (batches n xs) = Suc ((length xs - n + n - 1) div n)"
      by (simp add: batches.simps [of n xs])
    also have "\<dots> = (length xs + n - 1) div n"
    proof (cases "length xs \<le> n")
      case True
      with False \<open>0 < n\<close> have "(length xs - n + n - 1) div n = 0" and "(length xs - 1) div n = 0"
        by (cases xs; simp)+
      moreover have "length xs + n - 1 = length xs - 1 + n" using False by (cases xs) simp_all
      ultimately show ?thesis using div_add_once [OF \<open>0 < n\<close>, of "length xs - 1"] by simp
    next
      case False
      then have "length xs + n - 1 = (length xs - 1) + n" and "length xs - n + n - 1 = length xs - 1"
        by linarith+
      then show ?thesis using div_add_once [OF \<open>0 < n\<close>, of "length xs - 1"] by metis
    qed
    finally show ?thesis .
  qed (use 1 in simp)
qed

lemma batches_concat: "0 < n \<Longrightarrow> concat (batches n xs) = xs"
proof (induction n xs rule: batches.induct)
  case (1 n xs)
  then show ?case by (cases "xs = []") (simp_all add: batches.simps [of n xs])
qed

lemma batches_bounded: "list_all (\<lambda>b. b \<noteq> [] \<and> length b \<le> n) (batches n xs)"
proof (induction n xs rule: batches.induct)
  case (1 n xs)
  then show ?case by (cases "n = 0 \<or> xs = []") (auto simp: batches.simps [of n xs])
qed

text \<open>
  The batches hold every statement once and in order, none is longer than the limit, and they are
  few enough for one last union exactly up to 250000 statements.
\<close>

theorem union_batches:
  "concat (batches MAX_SUBQUERIES_PER_UNION qs) = qs \<and>
   list_all (\<lambda>b. b \<noteq> [] \<and> length b \<le> MAX_SUBQUERIES_PER_UNION) (batches MAX_SUBQUERIES_PER_UNION qs) \<and>
   (length (batches MAX_SUBQUERIES_PER_UNION qs) \<le> MAX_SUBQUERIES_PER_UNION \<longleftrightarrow> length qs \<le> 250000)"
proof -
  define k where "k = (499 + length qs) div 500"
  have "k < 501 \<longleftrightarrow> 499 + length qs < 501 * 500"
    unfolding k_def by (rule div_less_iff_less_mult) simp
  then have "(499 + length qs) div 500 \<le> 500 \<longleftrightarrow> length qs \<le> 250000"
    unfolding k_def [symmetric] by linarith
  with batches_bounded [of 500 qs] show ?thesis
    by (simp add: batches_concat batches_length MAX_SUBQUERIES_PER_UNION_def)
qed

subsection \<open>The schema of a union\<close>

definition schema_has :: "dataset_schema \<Rightarrow> string \<times> sql_type \<Rightarrow> bool" where
  "schema_has s = (\<lambda>(name, t). case map_of s name of None \<Rightarrow> False | Some actual \<Rightarrow> checkExtends t actual)"

lemma unionTypes_extends:
  "\<exists>u. unionTypes a b = Some u \<and> (\<forall>t. checkExtends t u \<longleftrightarrow> checkExtends t a \<and> checkExtends t b)"
proof -
  have "\<forall>t. checkExtends t (the (unionTypes a b)) \<longleftrightarrow> checkExtends t a \<and> checkExtends t b"
    by (intro allI, cases a; cases b; simp add: unionTypes_def checkExtends_cases; blast?)
  moreover have "unionTypes a b \<noteq> None" by (cases a; cases b; simp add: unionTypes_def)
  ultimately show ?thesis by auto
qed

lemma meet_schema_map_of:
  "map_of (meet_schema u d) k =
     (case map_of u k of None \<Rightarrow> None
      | Some v \<Rightarrow> (case map_of d k of None \<Rightarrow> None | Some w \<Rightarrow> unionTypes v w))"
proof (induction u)
  case (Cons p u)
  obtain n v where p: "p = (n, v)" by (cases p)
  obtain x where "map_of d n = None \<or> (\<exists>w. map_of d n = Some w \<and> unionTypes v w = Some x)"
    using unionTypes_extends [of v "the (map_of d n)"] by (cases "map_of d n") auto
  with Cons show ?case
    by (auto simp: meet_schema_def List.map_filter_simps p split: option.splits)
qed (simp add: meet_schema_def List.map_filter_simps)

lemma meet_schema_has: "schema_has (meet_schema u d) r \<longleftrightarrow> schema_has u r \<and> schema_has d r"
proof -
  obtain n t where r: "r = (n, t)" by (cases r)
  show ?thesis
    using unionTypes_extends [of "the (map_of u n)" "the (map_of d n)"]
    by (auto simp: schema_has_def r meet_schema_map_of split: option.splits)
qed

lemma union_schema_has: "ss \<noteq> [] \<Longrightarrow> schema_has (union_schema ss) r \<longleftrightarrow> (\<forall>s\<in>set ss. schema_has s r)"
proof -
  have "schema_has (foldl meet_schema s ts) r \<longleftrightarrow> schema_has s r \<and> (\<forall>t\<in>set ts. schema_has t r)" for s ts
    by (induction ts arbitrary: s) (auto simp: meet_schema_has)
  then show "ss \<noteq> [] \<Longrightarrow> ?thesis" by (cases ss) auto
qed

lemma dataset_implements_has: "dataset_implements d req \<longleftrightarrow> list_all (schema_has (dataset_schema d)) req"
  by (simp add: dataset_implements_def schema_has_def)

text \<open>
  Typing of unions: a union implements exactly the schemas that all its members implement. With lineage,
  the lineage columns are a number and a value of unknown type, and the other columns are the union's.
\<close>

theorem union_implements:
  assumes "ds \<noteq> []"
  shows "(dataset_implements (Union r ds) req \<longleftrightarrow> list_all (\<lambda>d. dataset_implements d req) ds) \<and>
         (dataset_implements (Lineage r ds) req \<longleftrightarrow>
            list_all (\<lambda>d. dataset_implements d (base_schema req)) ds \<and>
            list_all (\<lambda>(name, t). (if name = groupid then checkExtends t T_NUM
              else if name = partition_col then t = T_UNKNOWN else True)) req)"
proof -
  let ?s = "union_schema (map dataset_schema ds)"
  have all: "schema_has ?s x \<longleftrightarrow> (\<forall>d\<in>set ds. schema_has (dataset_schema d) x)" for x
    using assms union_schema_has [of "map dataset_schema ds" x] by auto
  have lin: "schema_has (assign ?s lineageSchema) (n, t) \<longleftrightarrow>
      (if n = groupid then checkExtends t T_NUM else if n = partition_col then t = T_UNKNOWN
       else schema_has ?s (n, t))" for n t
    by (auto simp: schema_has_def assign_def lineageSchema_def update_conv' groupid_def partition_col_def
        checkExtends_cases split: option.splits)
  show ?thesis
    by (auto simp: dataset_implements_has all lin list_all_iff base_schema_def split: if_splits)
qed

theorem union_implements_witness:
  "dataset_implements (Union 0 [Source 1 (track_slices 7),
     Union 2 [Source 3 ((track_slices 9)\<lparr>sd_schema := [(''ts'', T_LONG), (''id'', T_NUM_NULL)]\<rparr>)]])
     [(''id'', T_NUM_NULL)]"
  by (subst union_implements [THEN conjunct1]) code_simp+

end
