(* ===== verification/Dataset_Lineage.thy ===== *)
theory Dataset_Lineage
  imports Dataset_Correct
begin

text \<open>
  Tracing the rows of a \<open>UnionDatasetWithLineage\<close> back: every dataset of the union is in exactly one
  group, and \<open>resolveLineage\<close> answers the datasets of the row's group that accept the row.
\<close>

subsection \<open>The groups\<close>

lemma update_fresh: "k \<notin> fst ` set m \<Longrightarrow> AList.update k v m = m @ [(k, v)]"
  by (induction m) auto

lemma show_nat_no_bar: "CHR ''|'' \<notin> set (show_nat n)"
proof (induction n rule: show_nat.induct)
  case (1 n)
  have digit: "CHR ''|'' \<noteq> char_of (48 + d)" if "d < (10 :: nat)" for d
  proof
    assume "CHR ''|'' = char_of (48 + d)"
    then have "(of_char (CHR ''|'') :: nat) = of_char (char_of (48 + d) :: char)" by simp
    with that show False by simp
  qed
  show ?case using 1 digit [of n] digit [of "n mod 10"] by (simp add: show_nat.simps [of n])
qed

definition group_key_ok :: "nat \<Rightarrow> string \<Rightarrow> bool" where
  "group_key_ok n k \<longleftrightarrow> CHR ''|'' \<in> set k \<or> (\<exists>i<n. k = ''__other_'' @ show_nat i)"

lemma other_key_fresh: "\<not> group_key_ok n (''__other_'' @ show_nat n)"
  by (auto simp: group_key_ok_def show_nat_no_bar)

lemma add_to_group_length:
  "length (add_to_group k x gs) = (if k \<in> fst ` set gs then length gs else Suc (length gs))"
  by (induction gs) auto

definition groups_ok :: "(string \<times> dataset list) list \<Rightarrow> dataset list \<Rightarrow> bool" where
  "groups_ok gs ds \<longleftrightarrow>
     distinct (map fst gs) \<and> (\<forall>k\<in>fst ` set gs. group_key_ok (length gs) k) \<and>
     mset (concat (map snd gs)) = mset ds"

lemma group_step_ok:
  assumes "groups_ok gs ds"
  shows "groups_ok (group_step gs d) (ds @ [d])"
proof -
  have mono: "group_key_ok n k \<Longrightarrow> n \<le> m \<Longrightarrow> group_key_ok m k" for n m k
    by (auto simp: group_key_ok_def intro: less_le_trans)
  show ?thesis
  proof (cases "is_source d")
    case True
    then obtain r sd where d: "d = Source r sd" by (cases d) simp_all
    have "group_key_ok n (source_key sd)" for n by (simp add: group_key_ok_def source_key_def)
    with assms show ?thesis
      by (auto simp: groups_ok_def group_step_def d add_to_group_distinct add_to_group_mset
          add_to_group_keys add_to_group_length intro: mono)
  next
    case False
    let ?k = "''__other_'' @ show_nat (length gs)"
    have "\<forall>k\<in>fst ` set gs. group_key_ok (length gs) k" using assms by (simp add: groups_ok_def)
    then have fresh: "?k \<notin> fst ` set gs" using other_key_fresh by blast
    have "group_step gs d = gs @ [(?k, [d])]"
      using False update_fresh [OF fresh] by (cases d) (simp_all add: group_step_def)
    moreover have "group_key_ok (Suc (length gs)) ?k" by (auto simp: group_key_ok_def)
    ultimately show ?thesis using assms fresh by (auto simp: groups_ok_def intro: mono)
  qed
qed

lemma sourceGroupArray_ok: "groups_ok (sourceGroupArray ds) ds"
proof (induction ds rule: rev_induct)
  case Nil
  show ?case by (simp add: groups_ok_def sourceGroupArray_def)
next
  case (snoc d ds)
  with group_step_ok show ?case by (simp add: sourceGroupArray_def)
qed

subsection \<open>The partition map\<close>

definition dataset_filter :: "dataset \<Rightarrow> sql_filter option" where
  "dataset_filter d = (case d of Source r sd \<Rightarrow> sd_filter sd | _ \<Rightarrow> None)"

definition lists_value :: "dataset \<Rightarrow> sql_lit \<Rightarrow> bool" where
  "lists_value d v \<longleftrightarrow> (\<exists>f. dataset_filter d = Some f \<and> v \<in> set (snd (in_filter f)))"

text \<open>A value map knows the values that members list, with exactly those members.\<close>

definition values_of :: "dataset list \<Rightarrow> (sql_lit \<times> dataset list) list \<Rightarrow> bool" where
  "values_of g vm \<longleftrightarrow>
     (\<forall>v. (map_of vm v = None \<longleftrightarrow> \<not> (\<exists>d\<in>set g. lists_value d v)) \<and>
          set (map_get v vm) = {d \<in> set g. lists_value d v})"

lemma set_set_add [simp]: "set (set_add x xs) = insert x (set xs)"
  by (auto simp: set_add_def)

lemma add_value_map_of:
  "map_of (add_value d vm v) = (map_of vm)(v \<mapsto> set_add d (map_get v vm))"
  by (simp add: add_value_def update_conv')

lemma add_values:
  "map_of (foldl (add_value d) vm vs) v = None \<longleftrightarrow> map_of vm v = None \<and> v \<notin> set vs"
  "set (map_get v (foldl (add_value d) vm vs)) =
     (if v \<in> set vs then insert d (set (map_get v vm)) else set (map_get v vm))"
  by (induction vs arbitrary: vm) (auto simp: add_value_map_of map_get_def)

lemma partition_step_values:
  assumes "values_of g vm" and "dataset_filter d = Some f"
  shows "values_of (g @ [d]) (foldl (add_value d) vm (snd (in_filter f)))"
  using assms by (auto simp: values_of_def add_values lists_value_def)

lemma values_of_unfiltered: "dataset_filter d = None \<Longrightarrow> values_of (g @ [d]) vm = values_of g vm"
  by (auto simp: values_of_def lists_value_def)

definition partition_ok :: "string \<Rightarrow> dataset list \<Rightarrow> partition_map \<Rightarrow> bool" where
  "partition_ok c g pm \<longleftrightarrow>
     set (pm_unfiltered pm) = {d \<in> set g. dataset_filter d = None} \<and>
     (if \<forall>d\<in>set g. dataset_filter d = None then pm_columns pm = []
      else \<exists>vm. pm_columns pm = [(c, vm)] \<and> values_of g vm)"

lemma partition_step_cases:
  "partition_step pm d =
     (case dataset_filter d of
        None \<Rightarrow> pm\<lparr>pm_unfiltered := set_add d (pm_unfiltered pm)\<rparr>
      | Some f \<Rightarrow>
          pm\<lparr>pm_columns := AList.update (filter_col f)
               (foldl (add_value d) (map_get (filter_col f) (pm_columns pm)) (snd (in_filter f)))
               (pm_columns pm)\<rparr>)"
  by (cases d) (simp_all add: partition_step_def dataset_filter_def split: option.split)

lemma values_of_Nil: "\<forall>d\<in>set g. dataset_filter d = None \<Longrightarrow> values_of g []"
  by (auto simp: values_of_def lists_value_def map_get_def)

lemma partition_step_ok:
  assumes "partition_ok c g pm" and "\<forall>f. dataset_filter d = Some f \<longrightarrow> filter_col f = c"
  shows "partition_ok c (g @ [d]) (partition_step pm d)"
proof (cases "dataset_filter d")
  case None
  with assms show ?thesis
    by (auto simp: partition_ok_def partition_step_cases values_of_unfiltered)
next
  case (Some f)
  with assms(2) have c: "filter_col f = c" by simp
  let ?vm = "map_get c (pm_columns pm)"
  have "values_of g ?vm"
    using assms(1) values_of_Nil [of g]
    by (auto simp: partition_ok_def map_get_def split: if_splits)
  then have "values_of (g @ [d]) (foldl (add_value d) ?vm (snd (in_filter f)))"
    using Some by (rule partition_step_values)
  moreover have "pm_columns (partition_step pm d) =
      [(c, foldl (add_value d) ?vm (snd (in_filter f)))]"
    using assms(1) by (auto simp: partition_step_cases Some c partition_ok_def split: if_splits)
  moreover have "pm_unfiltered (partition_step pm d) = pm_unfiltered pm"
    by (simp add: partition_step_cases Some)
  ultimately show ?thesis using assms(1) Some by (auto simp: partition_ok_def)
qed

lemma buildPartitionMap_ok:
  "\<forall>d\<in>set g. \<forall>f. dataset_filter d = Some f \<longrightarrow> filter_col f = c \<Longrightarrow> partition_ok c g (buildPartitionMap g)"
proof (induction g rule: rev_induct)
  case Nil
  show ?case by (simp add: partition_ok_def buildPartitionMap_def)
next
  case (snoc d g)
  with partition_step_ok [of c g "buildPartitionMap g" d] show ?case
    by (simp add: buildPartitionMap_def)
qed

subsection \<open>Resolving a row\<close>

definition lineage_key :: "(sql_lit \<Rightarrow> int option) \<Rightarrow> dataset list \<Rightarrow> sql_lit \<Rightarrow> sql_lit option" where
  "lineage_key num g v = (if \<exists>d\<in>set g. lists_value d v then Some v else to_number num v)"

lemma lookup_value_spec:
  assumes "values_of g vm"
  shows "set (case lookup_value num v vm of Some ds \<Rightarrow> ds | None \<Rightarrow> []) =
    {d \<in> set g. \<exists>k. lineage_key num g v = Some k \<and> lists_value d k}"
proof -
  have "map_of vm k = None \<longleftrightarrow> \<not> (\<exists>d\<in>set g. lists_value d k)"
    and "set (map_get k vm) = {d \<in> set g. lists_value d k}" for k
    using assms by (auto simp: values_of_def)
  note vm = this
  show ?thesis
    using vm(1) [of v] vm(2) [of v] vm(1) [of "the (to_number num v)"] vm(2) [of "the (to_number num v)"]
    by (auto simp: lookup_value_def lineage_key_def map_get_def split: option.splits)
qed

lemma resolveLineage_spec:
  assumes i: "i < length (sourceGroupArray ds)" and g: "snd (sourceGroupArray ds ! i) = g"
    and "\<forall>d\<in>set g. \<forall>f. dataset_filter d = Some f \<longrightarrow> filter_col f = c"
  shows "set (resolveLineage num ds (int i) v) =
    {d \<in> set g. dataset_filter d = None \<or> (\<exists>k. lineage_key num g v = Some k \<and> lists_value d k)}"
proof (cases "\<forall>d\<in>set g. dataset_filter d = None")
  case True
  with buildPartitionMap_ok [OF assms(3)] have "pm_columns (buildPartitionMap g) = []"
    by (simp add: partition_ok_def)
  with i g True show ?thesis by (auto simp: resolveLineage_def Let_def)
next
  case False
  with buildPartitionMap_ok [OF assms(3)] obtain vm where
    vm: "pm_columns (buildPartitionMap g) = [(c, vm)]" "values_of g vm" and
    un: "set (pm_unfiltered (buildPartitionMap g)) = {d \<in> set g. dataset_filter d = None}"
    by (auto simp: partition_ok_def)
  have "resolveLineage num ds (int i) v =
      (case lookup_value num v vm of Some ds \<Rightarrow> ds | None \<Rightarrow> []) @ pm_unfiltered (buildPartitionMap g)"
    using i g vm(1) by (auto simp: resolveLineage_def Let_def split: option.splits)
  then show ?thesis using lookup_value_spec [OF vm(2)] un by auto
qed

lemma resolveLineage_numbers:
  fixes db :: "('r, 'v) sql_db"
  assumes i: "i < length (sourceGroupArray ds)" and g: "snd (sourceGroupArray ds ! i) = g"
    and numbers: "list_all (\<lambda>d. case dataset_filter d of None \<Rightarrow> True
      | Some f \<Rightarrow> filter_col f = c \<and> list_all (\<lambda>v. \<exists>m. v = LNum m) (snd (in_filter f))) g"
    and equals: "\<forall>m. db_equals db row c (LNum m) \<longleftrightarrow> m = n"
    and v: "v = LNum n \<or> v = LBig n \<and> \<bar>n\<bar> \<le> 2 ^ 53"
  shows "set (resolveLineage num ds (int i) v) = {d \<in> set g. filter_accepts db (dataset_filter d) row}"
proof -
  have onecol: "\<forall>d\<in>set g. \<forall>f. dataset_filter d = Some f \<longrightarrow> filter_col f = c"
    using numbers by (auto simp: list_all_iff)
  have lit: "\<exists>m. k = LNum m" if "d \<in> set g" "lists_value d k" for d k
    using numbers that by (fastforce simp: list_all_iff lists_value_def)
  have key: "(\<exists>k. lineage_key num g v = Some k \<and> lists_value d k) \<longleftrightarrow> lists_value d (LNum n)"
    if "d \<in> set g" for d
    using v lit that by (auto simp: lineage_key_def to_number_def)
  have acc: "filter_accepts db (dataset_filter d) row \<longleftrightarrow>
      dataset_filter d = None \<or> lists_value d (LNum n)" if "d \<in> set g" for d
  proof (cases "dataset_filter d")
    case (Some f)
    have "db_equals db row c k \<longleftrightarrow> k = LNum n" if "k \<in> set (snd (in_filter f))" for k
      using lit [OF \<open>d \<in> set g\<close>, of k] equals that Some by (auto simp: lists_value_def)
    with Some onecol that show ?thesis
      by (auto simp: filter_accepts_def lists_value_def list_ex_iff)
  qed (simp add: filter_accepts_def)
  show ?thesis
    using resolveLineage_spec [OF i g onecol, of num v] key acc by auto
qed

lemma sourceGroupArray_members:
  assumes "i < length (sourceGroupArray ds)"
  shows "set (snd (sourceGroupArray ds ! i)) \<subseteq> set ds"
proof -
  have "mset (concat (map snd (sourceGroupArray ds))) = mset ds"
    using sourceGroupArray_ok [of ds] by (simp add: groups_ok_def)
  then have "set (concat (map snd (sourceGroupArray ds))) = set ds" by (metis set_mset_mset)
  then show ?thesis using assms by (auto dest: nth_mem)
qed

text \<open>
  C9. The row of a table, read back with its group and the value of its partition column as a number or a
  safe \<open>bigint\<close>, resolves to exactly the datasets of the group whose filter accepts the row, when the
  filters of the group list numbers of one column and SQLite compares numbers by value. Every dataset
  is in exactly one group, and every index that is no group, negative or too large, resolves to nothing.
\<close>

theorem lineage_resolved:
  fixes db :: "('r, 'v) sql_db"
  assumes i: "i < length (sourceGroupArray ds)" and g: "snd (sourceGroupArray ds ! i) = g"
    and numbers: "list_all (\<lambda>d. case dataset_filter d of None \<Rightarrow> True
      | Some f \<Rightarrow> filter_col f = c \<and> list_all (\<lambda>v. \<exists>m. v = LNum m) (snd (in_filter f))) g"
    and equals: "\<forall>m. db_equals db row c (LNum m) \<longleftrightarrow> m = n"
    and v: "v = LNum n \<or> v = LBig n \<and> \<bar>n\<bar> \<le> 2 ^ 53"
  shows "set (resolveLineage num ds (int i) v) =
           {d \<in> set g. filter_accepts db (dataset_filter d) row} \<and>
         mset (concat (map snd (sourceGroupArray ds))) = mset ds \<and>
         (\<forall>j. j < 0 \<or> int (length (sourceGroupArray ds)) \<le> j \<longrightarrow> resolveLineage num ds j v = [])"
proof -
  show ?thesis
    using resolveLineage_numbers [OF i g numbers equals v] sourceGroupArray_ok [of ds]
    by (simp add: groups_ok_def resolveLineage_def)
qed

theorem lineage_resolved_witness:
  "set (resolveLineage (\<lambda>v. None)
      [Source 1 (track_slices 7), Lineage 2 [], Source 3 (track_slices 9),
       Source 4 ((track_slices 0)\<lparr>sd_filter := None\<rparr>)] (int 0) (LBig 9)) =
   {Source 3 (track_slices 9), Source 4 ((track_slices 0)\<lparr>sd_filter := None\<rparr>)}"
proof -
  let ?ds = "[Source 1 (track_slices 7), Lineage 2 [], Source 3 (track_slices 9),
       Source 4 ((track_slices 0)\<lparr>sd_filter := None\<rparr>)]"
  let ?g = "[Source 1 (track_slices 7), Source 3 (track_slices 9),
       Source 4 ((track_slices 0)\<lparr>sd_filter := None\<rparr>)]"
  have "snd (sourceGroupArray ?ds ! 0) = ?g" and len: "0 < length (sourceGroupArray ?ds)" by code_simp+
  moreover have "list_all (\<lambda>d. case dataset_filter d of None \<Rightarrow> True
      | Some f \<Rightarrow> filter_col f = ''track_id'' \<and> list_all (\<lambda>v. \<exists>m. v = LNum m) (snd (in_filter f))) ?g"
    by (simp add: dataset_filter_def track_slices_def)
  moreover have "\<forall>m. db_equals slices_db (4, 9) ''track_id'' (LNum m) \<longleftrightarrow> m = 9"
    by (simp add: slices_db_def)
  ultimately have "set (resolveLineage (\<lambda>v. None) ?ds (int 0) (LBig 9)) =
      {d \<in> set ?g. filter_accepts slices_db (dataset_filter d) (4, 9)}"
    using lineage_resolved [of 0 ?ds ?g "''track_id''" slices_db "(4, 9)" 9 "LBig 9"] by simp
  also have "\<dots> = {Source 3 (track_slices 9), Source 4 ((track_slices 0)\<lparr>sd_filter := None\<rparr>)}"
    by (auto simp: filter_accepts_def dataset_filter_def track_slices_def slices_db_def)
  finally show ?thesis .
qed

end
