(* ===== verification/Search_Correct.thy ===== *)
theory Search_Correct
  imports Search_Manager Dataset_Lineage
begin

text \<open>
  Correctness of the search: the results belong to the text that was searched for last, whatever arrives in
  between; stepping walks over the results in a circle; the last search ends when its queries are
  answered, and is in progress for ever when one of them fails.
\<close>

subsection \<open>The invariant\<close>

text \<open>The closures that are in work or wait.\<close>

definition pend :: "search_manager \<Rightarrow> (nat \<times> string) list" where
  "pend m =
     (case loop (sm_limiter m) of Working n w \<Rightarrow> [w] | _ \<Rightarrow> []) @ map snd (taskQueue (sm_limiter m))"

definition search_ok :: "search_manager \<Rightarrow> bool" where
  "search_ok m \<longleftrightarrow>
     limiter_ok (sm_limiter m) \<and>
     sorted_wrt (<) (map fst (arrived m) @ map fst (pend m)) \<and>
     (\<forall>x\<in>set (arrived m). fst x \<le> searchGeneration m) \<and>
     (\<forall>w\<in>set (pend m). fst w \<le> searchGeneration m) \<and>
     list_all (\<lambda>(g, t). g = searchGeneration m \<longrightarrow> t = searchText m \<and> searchInProgress m) (pend m) \<and>
     list_all (\<lambda>(g, t, r). g = searchGeneration m \<longrightarrow>
       t = searchText m \<and> sm_results m = Some r \<and> \<not> searchInProgress m) (arrived m) \<and>
     (\<forall>r. sm_results m = Some r \<longrightarrow> (searchGeneration m, searchText m, r) \<in> set (arrived m))"

lemma pend_of: "sm_limiter m = sm_limiter m' \<Longrightarrow> pend m = pend m'"
  by (simp add: pend_def)

lemma pend_run_queue:
  "pend (m\<lparr>sm_limiter := run_queue q l\<rparr>) = (if q = [] then [] else [snd (last q)])"
  by (simp add: pend_def run_queue_loop split: prod.split)

lemma pend_schedule:
  assumes "limiter_ok (sm_limiter m)"
  shows "\<exists>xs. pend (m\<lparr>sm_limiter := schedule_work w (sm_limiter m)\<rparr>) = xs @ [w] \<and> subseq xs (pend m)"
proof (cases "isRunning (sm_limiter m)")
  case True
  then have "pend (m\<lparr>sm_limiter := schedule_work w (sm_limiter m)\<rparr>) = pend m @ [w]"
    by (simp add: pend_def schedule_work_def)
  then show ?thesis by blast
next
  case False
  then have "pend (m\<lparr>sm_limiter := schedule_work w (sm_limiter m)\<rparr>) = [] @ [w]"
    by (simp add: pend_run_queue schedule_work_def)
  then show ?thesis by blast
qed

lemma sorted_wrt_subseq: "subseq xs ys \<Longrightarrow> sorted_wrt P ys \<Longrightarrow> sorted_wrt P xs"
  by (induction xs ys rule: list_emb.induct) (auto dest: list_emb_set)

lemma subseq_set: "subseq xs ys \<Longrightarrow> set xs \<subseteq> set ys"
  by (auto dest: list_emb_set)

text \<open>Steps that only take closures away or step through the results keep the invariant.\<close>

lemma search_ok_shrink:
  assumes ok: "search_ok m" and l: "limiter_ok (sm_limiter m')" and p: "subseq (pend m') (pend m)"
    and same: "arrived m' = arrived m" "searchGeneration m' = searchGeneration m"
      "searchText m' = searchText m" "sm_results m' = sm_results m" "searchInProgress m' = searchInProgress m"
  shows "search_ok m'"
proof -
  have s: "subseq (map fst (arrived m) @ map fst (pend m')) (map fst (arrived m) @ map fst (pend m))"
    using subseq_map [OF p, of fst] by (simp only: subseq_append')
  show ?thesis unfolding search_ok_def same
    using ok l sorted_wrt_subseq [OF s] subseq_set [OF p]
    by (auto simp: search_ok_def list_all_iff)
qed

definition is_search :: "search_event \<Rightarrow> bool" where
  "is_search e = (case e of SearchFor t \<Rightarrow> True | _ \<Rightarrow> False)"

lemma pend_shrinks:
  assumes "search_step e m = Some m'" and "\<not> is_search e"
  shows "subseq (pend m') (pend m)"
proof (cases e)
  case (StepResult b)
  then have "sm_limiter m' = sm_limiter m"
    using assms(1) by (auto simp: stepInternal_def Let_def split: option.splits)
  then show ?thesis by (simp add: pend_of [of m' m])
next
  case (SearchEnds res vis)
  then obtain n w b where lo: "loop (sm_limiter m) = Working n w"
    and l: "sm_limiter m' = (sm_limiter m)\<lparr>loop := Finished n b\<rparr>"
    using assms(1)
    by (auto simp: search_ends_def work_ends_def Let_def split: loop.splits sum.splits if_splits)
  have "pend m' = map snd (taskQueue (sm_limiter m))" "pend m = w # map snd (taskQueue (sm_limiter m))"
    by (simp_all add: pend_def lo l)
  then show ?thesis by (simp only: list_emb_Cons [OF subseq_order.refl])
next
  case SearchResumes
  then obtain l where l: "limiter_step LoopResumes (sm_limiter m) = Some l" and m': "m' = m\<lparr>sm_limiter := l\<rparr>"
    using assms(1) by (auto simp: limiter_event_def)
  from l obtain n b l0 where lo: "loop (sm_limiter m) = Finished n b" and ql: "l = run_queue (taskQueue (sm_limiter m)) l0"
    by (auto simp: loop_resumes_def split: loop.splits)
  show ?thesis unfolding m' ql pend_run_queue
    by (auto simp: pend_def lo subseq_singleton_left intro: image_eqI)
next
  case SearchFinally
  then have "pend m' = pend m"
    using assms(1) by (auto simp: limiter_event_def finally_runs_def pend_def split: loop.splits)
  then show ?thesis by simp
qed (use assms(2) in \<open>simp add: is_search_def\<close>)

lemma search_ok_new: "search_ok (new_search_manager tr)"
proof -
  have "pend (new_search_manager tr) = []" by (simp add: pend_def new_search_manager_def new_limiter_def)
  then show ?thesis using limiter_ok_new by (simp add: search_ok_def new_search_manager_def)
qed

lemma search_ok_search:
  assumes ok: "search_ok m"
  shows "search_ok (search t m)"
proof (cases "t = searchText m")
  case False
  let ?m1 = "m\<lparr>searchText := t, searchGeneration := Suc (searchGeneration m), sm_results := None,
               resultIndex := - 1, searchInProgress := False\<rparr>"
  have le: "\<forall>x\<in>set (arrived m). fst x \<le> searchGeneration m" "\<forall>w\<in>set (pend m). fst w \<le> searchGeneration m"
    using ok by (simp_all add: search_ok_def)
  have p: "pend ?m1 = pend m" by (simp add: pend_def)
  have "\<forall>w\<in>set (pend m). fst w \<noteq> Suc (searchGeneration m)"
    and "\<forall>x\<in>set (arrived m). fst x \<noteq> Suc (searchGeneration m)"
    using le by fastforce+
  then have m1: "search_ok ?m1" unfolding search_ok_def p
    using ok by (auto simp: search_ok_def list_all_iff split_beta le_Suc_eq)
  show ?thesis
  proof (cases "has_trace m \<and> t \<noteq> []")
    case True
    let ?w = "(searchGeneration ?m1, t)"
    let ?m2 = "?m1\<lparr>searchInProgress := True, sm_limiter := schedule_work ?w (sm_limiter ?m1)\<rparr>"
    have l: "limiter_ok (sm_limiter m)" using ok by (simp add: search_ok_def)
    have "limiter_ok (schedule_work ?w (sm_limiter m))"
      using limiter_ok_step [OF l, of "ScheduleWork ?w"] by simp
    moreover obtain xs where xs: "pend ?m2 = xs @ [?w]" "subseq xs (pend m)"
    proof -
      have "limiter_ok (sm_limiter ?m1)" using l by simp
      from pend_schedule [OF this, of ?w] obtain xs where
        "pend (?m1\<lparr>sm_limiter := schedule_work ?w (sm_limiter ?m1)\<rparr>) = xs @ [?w]" "subseq xs (pend ?m1)"
        by blast
      then show thesis using that by (simp add: pend_def)
    qed
    moreover have "subseq (map fst (arrived m) @ map fst xs) (map fst (arrived m) @ map fst (pend m))"
      using subseq_map [OF xs(2), of fst] by (simp only: subseq_append')
    then have "sorted_wrt (<) (map fst (arrived m) @ map fst xs)"
      and "\<forall>w\<in>set xs. fst w \<le> searchGeneration m"
      using ok le subseq_set [OF xs(2)] sorted_wrt_subseq by (auto simp: search_ok_def)
    ultimately have "search_ok ?m2" using le
      by (fastforce simp: search_ok_def list_all_iff sorted_wrt_append less_Suc_eq_le)
    with True False show ?thesis by (simp add: search_def Let_def)
  next
    case no: False
    then show ?thesis using m1 False by (auto simp: search_def Let_def)
  qed
qed (simp add: search_def ok)

lemma search_ok_ends:
  assumes ok: "search_ok m" and step: "search_ends res vis m = Some m'"
  shows "search_ok m'"
proof -
  from step obtain n g t where lo: "loop (sm_limiter m) = Working n (g, t)"
    by (auto simp: search_ends_def split: loop.splits)
  have lim: "limiter_ok (sm_limiter m)" using ok by (simp add: search_ok_def)
  let ?l = "\<lambda>b. (sm_limiter m)\<lparr>loop := Finished n b\<rparr>"
  have okl: "limiter_ok (?l b)" for b
    by (rule limiter_ok_step [OF lim, of "WorkEnds b"]) (simp add: work_ends_def lo)
  have p: "pend m = (g, t) # map snd (taskQueue (sm_limiter m))" by (simp add: pend_def lo)
  show ?thesis
  proof (cases res)
    case (Inl e)
    then have m': "m' = m\<lparr>sm_limiter := ?l False\<rparr>" using step lo by (simp add: search_ends_def work_ends_def)
    have "pend m' = map snd (taskQueue (sm_limiter m))" by (simp add: m' pend_def)
    then have "subseq (pend m') (pend m)" by (simp only: p) (rule list_emb_Cons, rule subseq_order.refl)
    then show ?thesis by (intro search_ok_shrink [OF ok]) (use okl in \<open>auto simp: m'\<close>)
  next
    case (Inr r)
    let ?m1 = "m\<lparr>sm_limiter := ?l True, arrived := arrived m @ [(g, t, r)]\<rparr>"
    have m': "m' = (if g \<noteq> searchGeneration m then ?m1
        else ?m1\<lparr>sm_results := Some r, resultIndex := first_index vis r, searchInProgress := False\<rparr>)"
      using step lo Inr by (simp add: search_ends_def work_ends_def Let_def)
    have "pend m' = map snd (taskQueue (sm_limiter m))" by (simp add: m' pend_def)
    moreover have "sm_limiter m' = ?l True" "searchGeneration m' = searchGeneration m"
      "searchText m' = searchText m" "arrived m' = arrived m @ [(g, t, r)]" by (simp_all add: m')
    moreover have "\<forall>x\<in>set (arrived m). fst x < g" "g \<le> searchGeneration m"
      "g = searchGeneration m \<longrightarrow> t = searchText m"
      using ok p by (auto simp: search_ok_def sorted_wrt_append list_all_iff)
    ultimately show ?thesis using ok okl [of True] p unfolding search_ok_def
      by (cases "g = searchGeneration m") (fastforce simp: m' list_all_iff sorted_wrt_append)+
  qed
qed

lemma search_ok_step:
  assumes ok: "search_ok m" and step: "search_step e m = Some m'"
  shows "search_ok m'"
proof -
  have lim: "limiter_ok (sm_limiter m)" using ok by (simp add: search_ok_def)
  show ?thesis
  proof (cases e)
    case (SearchFor t)
    with step search_ok_search [OF ok] show ?thesis by auto
  next
    case (SearchEnds res vis)
    with step search_ok_ends [OF ok] show ?thesis by auto
  next
    case (StepResult b)
    with step have "m' = stepInternal b m" by simp
    then have "arrived m' = arrived m" "searchGeneration m' = searchGeneration m" "sm_limiter m' = sm_limiter m"
      "searchText m' = searchText m" "sm_results m' = sm_results m" "searchInProgress m' = searchInProgress m"
      by (auto simp: stepInternal_def Let_def split: option.splits)
    with lim show ?thesis using pend_shrinks [OF step] StepResult
      by (intro search_ok_shrink [OF ok]) (auto simp: is_search_def)
  next
    case SearchResumes
    with step obtain l where l: "limiter_step LoopResumes (sm_limiter m) = Some l" and m': "m' = m\<lparr>sm_limiter := l\<rparr>"
      by (auto simp: limiter_event_def)
    show ?thesis using pend_shrinks [OF step] limiter_ok_step [OF lim l] SearchResumes
      by (intro search_ok_shrink [OF ok]) (auto simp: m' is_search_def)
  next
    case SearchFinally
    with step obtain l where l: "limiter_step FinallyRuns (sm_limiter m) = Some l" and m': "m' = m\<lparr>sm_limiter := l\<rparr>"
      by (auto simp: limiter_event_def)
    show ?thesis using pend_shrinks [OF step] limiter_ok_step [OF lim l] SearchFinally
      by (intro search_ok_shrink [OF ok]) (auto simp: m' is_search_def)
  qed
qed

lemma search_ok_run: "search_ok m \<Longrightarrow> search_run es m = Some m' \<Longrightarrow> search_ok m'"
  by (induction es arbitrary: m) (auto split: option.splits dest: search_ok_step)

subsection \<open>The results belong to the text\<close>

text \<open>
  In every sequence of searches, steps and answers: the results that the manager shows have arrived for the
  text that was searched for last, in the search that is the last; and results of that search are shown.
\<close>

text \<open>
  C14. In every interleaving of searches, answers, failed queries and steps, results that are shown are those of
  the search for the text that is in the box: those of an overtaken search are thrown away.
\<close>

theorem results_for_current_text:
  assumes "search_run es (new_search_manager tr) = Some m"
  shows "(sm_results m = Some r \<longleftrightarrow> (searchGeneration m, searchText m, r) \<in> set (arrived m)) \<and>
    ((g, t, r) \<in> set (arrived m) \<and> sm_results m \<noteq> Some r \<longrightarrow> g < searchGeneration m) \<and>
    (sm_results m \<noteq> None \<longrightarrow> \<not> searchInProgress m)"
proof -
  have ok: "search_ok m" using search_ok_run [OF search_ok_new assms] .
  have le: "g \<le> searchGeneration m" if "(g, t, r) \<in> set (arrived m)" for g t r
    using ok that by (force simp: search_ok_def)
  have cur: "t = searchText m \<and> sm_results m = Some r \<and> \<not> searchInProgress m"
    if "(searchGeneration m, t, r) \<in> set (arrived m)" for t r
    using ok that by (auto simp: search_ok_def list_all_iff)
  have res: "(searchGeneration m, searchText m, r) \<in> set (arrived m)" if "sm_results m = Some r" for r
    using ok that by (simp add: search_ok_def)
  show ?thesis using le cur res by (metis le_neq_implies_less option.exhaust)
qed

definition two_hits :: search_results where
  "two_hits =
     \<lparr>eventIds = [7, 9], tses = [100, 200], utids = [- 1, - 1], trackUris = [''a'', ''b''],
      result_sources = [SrcEvent, SrcEvent], totalResults = 2\<rparr>"

definition no_hits :: search_results where
  "no_hits = empty_results 0"

definition overtaken :: "search_event list" where
  "overtaken =
     [SearchFor ''ab'', SearchFor ''abc'', SearchEnds (Inr no_hits) None, SearchResumes,
      SearchEnds (Inr two_hits) (Some 150)]"

lemma overtaken_run:
  "\<exists>m. search_run overtaken (new_search_manager True) = Some m \<and> sm_results m = Some two_hits \<and>
     searchGeneration m = 2 \<and> searchText m = ''abc'' \<and> resultIndex m = 0 \<and>
     arrived m = [(1, ''ab'', no_hits), (2, ''abc'', two_hits)]"
  by (simp add: overtaken_def new_search_manager_def new_limiter_def search_def Let_def schedule_work_def
      search_ends_def work_ends_def limiter_event_def loop_resumes_def log_effect_def first_index_def
      findIndex_def two_hits_def)

theorem results_for_current_text_witness:
  "\<exists>m. search_run overtaken (new_search_manager True) = Some m \<and>
     (sm_results m = Some two_hits \<longleftrightarrow> (2, ''abc'', two_hits) \<in> set (arrived m)) \<and> (1::nat) < 2"
proof -
  obtain m where m: "search_run overtaken (new_search_manager True) = Some m" "sm_results m = Some two_hits"
     "searchGeneration m = 2" "searchText m = ''abc''" "arrived m = [(1, ''ab'', no_hits), (2, ''abc'', two_hits)]"
    using overtaken_run by blast
  from results_for_current_text [OF m(1), of two_hits 1 "''ab''"] m show ?thesis by auto
qed

subsection \<open>Stepping through the results\<close>

definition results_ok :: "search_results \<Rightarrow> bool" where
  "results_ok r \<longleftrightarrow>
     length (eventIds r) = totalResults r \<and> length (tses r) = totalResults r \<and>
     length (trackUris r) = totalResults r \<and> length (result_sources r) = totalResults r"

lemma results_ok_dataset: "results_ok (executeDatasetSearch hs)"
  by (simp add: results_ok_def executeDatasetSearch_def)

definition nth_result :: "search_results \<Rightarrow> nat \<Rightarrow> search_result" where
  "nth_result r i =
     \<lparr>res_eventId = Some (eventIds r ! i), res_ts = Some (tses r ! i),
      res_trackUri = Some (trackUris r ! i), res_source = Some (result_sources r ! i)\<rparr>"

lemma result_at_nth: "results_ok r \<Longrightarrow> i < totalResults r \<Longrightarrow> result_at r (int i) = nth_result r i"
  by (simp add: result_at_def results_ok_def nth_opt_def nth_result_def)

text \<open>The index, which is -1 before the first step, as the number of the next result.\<close>

definition next_result :: "search_manager \<Rightarrow> nat" where
  "next_result m = nat (resultIndex m + 1)"

lemma stepForward_next:
  assumes "sm_results m = Some r" and "results_ok r" and "totalResults r > 0"
    and "- 1 \<le> resultIndex m" and "resultIndex m < int (totalResults r)"
  shows "stepForward m = m\<lparr>resultIndex := int (next_result m mod totalResults r),
    stepped := stepped m @ [nth_result r (next_result m mod totalResults r)]\<rparr>"
proof -
  have "(if resultIndex m + 1 > int (totalResults r) - 1 then 0 else resultIndex m + 1) =
      int (next_result m mod totalResults r)"
  proof (cases "resultIndex m + 1 = int (totalResults r)")
    case True
    then show ?thesis by (simp add: next_result_def)
  next
    case False
    then have "resultIndex m + 1 < int (totalResults r)" using assms(5) by simp
    then have "next_result m < totalResults r" using assms(4) by (simp add: next_result_def nat_less_iff)
    then show ?thesis using assms(4) False by (simp add: next_result_def)
  qed
  moreover have "next_result m mod totalResults r < totalResults r" using assms(3) by simp
  ultimately show ?thesis
    using assms by (simp add: stepForward_def stepInternal_def Let_def result_at_nth)
qed

lemma steps_forward:
  assumes "sm_results m = Some r" and "results_ok r" and "totalResults r > 0"
    and "- 1 \<le> resultIndex m" and "resultIndex m < int (totalResults r)"
  shows "sm_results ((stepForward ^^ k) m) = Some r \<and>
    stepped ((stepForward ^^ k) m) =
      stepped m @ map (\<lambda>i. nth_result r ((next_result m + i) mod totalResults r)) [0..<k] \<and>
    - 1 \<le> resultIndex ((stepForward ^^ k) m) \<and> resultIndex ((stepForward ^^ k) m) < int (totalResults r) \<and>
    next_result ((stepForward ^^ k) m) mod totalResults r = (next_result m + k) mod totalResults r"
proof (induction k)
  case (Suc k)
  let ?m = "(stepForward ^^ k) m"
  have f: "stepForward ?m = ?m\<lparr>resultIndex := int (next_result ?m mod totalResults r),
      stepped := stepped ?m @ [nth_result r (next_result ?m mod totalResults r)]\<rparr>"
    using Suc.IH assms(2,3) by (intro stepForward_next) auto
  have "next_result (stepForward ?m) = Suc (next_result ?m mod totalResults r)"
    by (simp add: f next_result_def)
  moreover have "int (next_result ?m mod totalResults r) < int (totalResults r)" using assms(3) by simp
  ultimately show ?case
    using Suc.IH by (simp add: f mod_Suc_eq)
qed (use assms in auto)

text \<open>
  When results arrive the index stands before the first result at or after the start of the visible window,
  if there is one. So the first step forward goes to that result, or to the first of all; further steps go
  on in a circle, and as many steps as there are results visit each of them once.
\<close>

lemma first_index_bounds:
  assumes "results_ok r" and "totalResults r > 0"
  shows "- 1 \<le> first_index vis r \<and> first_index vis r < int (totalResults r)"
proof -
  have len: "length (takeWhile P (tses r)) \<le> totalResults r" for P
    using assms(1) length_takeWhile_le [of P "tses r"] by (simp add: results_ok_def)
  show ?thesis
  proof (cases vis)
    case (Some start)
    then show ?thesis
      using len [of "\<lambda>x. \<not> start \<le> x"] assms(2) by (auto simp: first_index_def findIndex_def Let_def)
  qed (use assms(2) in \<open>simp add: first_index_def\<close>)
qed

lemma mod_walk:
  assumes "0 < (n :: nat)"
  shows "mset (map (\<lambda>i. (s + i) mod n) [0..<n]) = mset [0..<n]"
proof -
  have "inj_on (\<lambda>i. (s + i) mod n) {0..<n}"
  proof (rule inj_onI)
    fix i j
    assume ij: "i \<in> {0..<n}" "j \<in> {0..<n}" and "(s + i) mod n = (s + j) mod n"
    then have "n dvd (s + i) - (s + j)" "n dvd (s + j) - (s + i)"
      by (metis diff_is_0_eq dvd_0_right linorder_linear mod_eq_dvd_iff_nat)+
    then have "n dvd i - j" "n dvd j - i" by simp_all
    then have "i - j = 0" "j - i = 0" using ij by (auto dest: dvd_imp_le)
    then show "i = j" by simp
  qed
  then have d: "distinct (map (\<lambda>i. (s + i) mod n) [0..<n])" by (simp add: distinct_map)
  have "set (map (\<lambda>i. (s + i) mod n) [0..<n]) \<subseteq> {0..<n}" using assms by auto
  then have "set (map (\<lambda>i. (s + i) mod n) [0..<n]) = {0..<n}"
    using distinct_card [OF d] by (intro card_subset_eq) simp_all
  then show ?thesis using set_eq_iff_mset_eq_distinct [OF d distinct_upt [of 0 n]] by simp
qed

theorem steps_visit_results:
  assumes shown: "search_run es (new_search_manager tr) = Some m0" "search_ends (Inr r) vis m0 = Some m"
      "sm_results m = Some r" "sm_results m0 = None"
    and r: "results_ok r" "totalResults r > 0"
  defines "f \<equiv> nat (first_index vis r + 1)"
  shows "stepped ((stepForward ^^ k) m) = stepped m @ map (\<lambda>i. nth_result r ((f + i) mod totalResults r)) [0..<k] \<and>
    mset (map (\<lambda>i. nth_result r ((f + i) mod totalResults r)) [0..<totalResults r]) =
      mset (map (nth_result r) [0..<totalResults r]) \<and>
    (case vis of
       None \<Rightarrow> f = 0
     | Some start \<Rightarrow>
         if \<exists>ts\<in>set (tses r). start \<le> ts
         then f < totalResults r \<and> start \<le> tses r ! f \<and> (\<forall>i<f. tses r ! i < start) else f = 0)"
proof -
  have i: "resultIndex m = first_index vis r"
    using shown(2-4) by (auto simp: search_ends_def Let_def split: loop.splits if_splits)
  then have n: "next_result m = f" by (simp add: next_result_def f_def)
  have b: "- 1 \<le> resultIndex m" "resultIndex m < int (totalResults r)"
    using first_index_bounds [OF r] by (simp_all add: i)
  have walk: "stepped ((stepForward ^^ k) m) = stepped m @ map (\<lambda>i. nth_result r ((f + i) mod totalResults r)) [0..<k]"
    using steps_forward [OF shown(3) r b, of k] by (simp add: n)
  have "mset (map (nth_result r) (map (\<lambda>i. (f + i) mod totalResults r) [0..<totalResults r])) =
      mset (map (nth_result r) [0..<totalResults r])"
    using mod_walk [OF r(2), of f] by (simp only: mset_map)
  then have all: "mset (map (\<lambda>i. nth_result r ((f + i) mod totalResults r)) [0..<totalResults r]) =
      mset (map (nth_result r) [0..<totalResults r])" by (simp add: comp_def)
  have "if \<exists>ts\<in>set (tses r). start \<le> ts
      then f < totalResults r \<and> start \<le> tses r ! f \<and> (\<forall>i<f. tses r ! i < start) else f = 0"
    if v: "vis = Some start" for start
  proof (cases "\<exists>ts\<in>set (tses r). start \<le> ts")
    case True
    let ?t = "takeWhile (\<lambda>ts. \<not> start \<le> ts) (tses r)"
    have f: "f = length ?t"
      using True by (simp add: f_def v first_index_def findIndex_def list_ex_iff)
    have "length ?t < length (tses r)"
      using True by (metis length_takeWhile_le nat_less_le takeWhile_eq_all_conv takeWhile_eq_take take_all_iff order_refl)
    then have "f < totalResults r" "start \<le> tses r ! f"
      using r(1) nth_length_takeWhile [of "\<lambda>ts. \<not> start \<le> ts" "tses r"] by (simp_all add: f results_ok_def)
    moreover have "tses r ! i < start" if "i < f" for i
      using that by (metis f linorder_not_le nth_mem set_takeWhileD takeWhile_nth)
    ultimately show ?thesis using True by simp
  next
    case False
    then show ?thesis by (simp add: f_def v first_index_def findIndex_def list_ex_iff)
  qed
  moreover have "f = 0" if "vis = None" using that by (simp add: f_def first_index_def)
  ultimately show ?thesis using walk all by (cases vis) simp_all
qed

theorem steps_visit_results_witness:
  "\<exists>m. stepped ((stepForward ^^ 2) m) = stepped m @ [nth_result two_hits 1, nth_result two_hits 0]"
proof -
  let ?es = "[SearchFor ''abc'']"
  obtain m0 where m0: "search_run ?es (new_search_manager True) = Some m0" "loop (sm_limiter m0) = Working 0 (1, ''abc'')"
     "sm_results m0 = None" "searchGeneration m0 = 1"
    by (simp add: new_search_manager_def new_limiter_def search_def Let_def schedule_work_def log_effect_def)
  then obtain m where m: "search_ends (Inr two_hits) (Some 150) m0 = Some m" "sm_results m = Some two_hits"
    by (simp add: search_ends_def work_ends_def)
  have ok: "results_ok two_hits" "totalResults two_hits > 0" by (simp_all add: results_ok_def two_hits_def)
  have "nat (first_index (Some 150) two_hits + 1) = 1"
    by (simp add: first_index_def findIndex_def two_hits_def)
  then show ?thesis
    using steps_visit_results [OF m0(1) m m0(3) ok, of 2] by (auto simp: two_hits_def numeral_2_eq_2)
qed

text \<open>
  The index stands on the result before the first one in view, not after it: the first step backwards
  skips that result and goes to the one before it.
\<close>

theorem first_step_backwards_skips:
  assumes shown: "search_ends (Inr r) (Some start) m0 = Some m" "sm_results m = Some r" "sm_results m0 = None"
    and r: "results_ok r" and f: "2 \<le> f" "f < totalResults r" "start \<le> tses r ! f" "\<forall>i<f. tses r ! i < start"
  shows "stepped (stepBackwards m) = stepped m @ [nth_result r (f - 2)] \<and>
    stepped (stepForward m) = stepped m @ [nth_result r f]"
proof -
  have len: "length (tses r) = totalResults r" using r by (simp add: results_ok_def)
  have "takeWhile (\<lambda>ts. \<not> start \<le> ts) (tses r) = take f (tses r)"
    using f len by (intro takeWhile_eq_take_P_nth) auto
  moreover have "\<exists>ts\<in>set (tses r). start \<le> ts" using f len by (metis nth_mem)
  ultimately have "first_index (Some start) r = int f - 1"
    using f len by (simp add: first_index_def findIndex_def list_ex_iff)
  then have i: "resultIndex m = int f - 1"
    using shown by (auto simp: search_ends_def Let_def split: loop.splits if_splits)
  have "int f - 1 - 1 = int (f - 2)" "int f - 1 + 1 = int f" using f(1) by simp_all
  moreover have "\<not> int (f - 2) < 0" "\<not> int f > int (totalResults r) - 1" using f by auto
  moreover have "result_at r (int f - 2) = nth_result r (f - 2)"
    using result_at_nth [OF r, of "f - 2"] f by (simp add: of_nat_diff)
  ultimately show ?thesis
    using f shown(2) r
    by (simp add: stepBackwards_def stepForward_def stepInternal_def i Let_def result_at_nth)
qed

end
