(* ===== verification/Search_Liveness.thy ===== *)
theory Search_Liveness
  imports Search_Correct
begin

text \<open>
  When a search ends: after its queries, if none of them fails and no search starts in the microtask that
  separates the end of the limiter's loop from its \<open>finally\<close>; never, if one fails. Also what the dataset search
  finds: each event of a track once, in the order of time, on the tracks whose datasets have it.
\<close>

subsection \<open>The limiter of the manager\<close>

definition lim_event :: "search_event \<Rightarrow> search_manager \<Rightarrow> (nat \<times> string) limiter_event list" where
  "lim_event e m =
     (case e of
        SearchFor t \<Rightarrow>
          if t \<noteq> searchText m \<and> has_trace m \<and> t \<noteq> [] then [ScheduleWork (Suc (searchGeneration m), t)] else []
      | StepResult b \<Rightarrow> []
      | SearchEnds res vis \<Rightarrow> [WorkEnds (\<not> isl res)]
      | SearchResumes \<Rightarrow> [LoopResumes]
      | SearchFinally \<Rightarrow> [FinallyRuns])"

fun lim_events :: "search_event list \<Rightarrow> search_manager \<Rightarrow> (nat \<times> string) limiter_event list" where
  "lim_events [] m = []"
| "lim_events (e # es) m =
     lim_event e m @ (case search_step e m of None \<Rightarrow> [] | Some m' \<Rightarrow> lim_events es m')"

lemma lim_event_run:
  "search_step e m = Some m' \<Longrightarrow> limiter_run (lim_event e m) (sm_limiter m) = Some (sm_limiter m')"
  by (cases e)
    (auto simp: lim_event_def search_def Let_def stepInternal_def limiter_event_def search_ends_def
      work_ends_def split: option.splits loop.splits sum.splits if_splits)

lemma lim_events_run:
  "search_run es m = Some m' \<Longrightarrow> limiter_run (lim_events es m) (sm_limiter m) = Some (sm_limiter m')"
proof (induction es arbitrary: m)
  case (Cons e es)
  then obtain m1 where "search_step e m = Some m1" "search_run es m1 = Some m'"
    by (auto split: option.splits)
  with Cons.IH lim_event_run show ?case by (simp add: limiter_run_append)
qed simp

lemma search_run_append:
  "search_run (es @ fs) m = (case search_run es m of None \<Rightarrow> None | Some m' \<Rightarrow> search_run fs m')"
  by (induction es arbitrary: m) (auto split: option.split)

lemma lim_events_append:
  "search_run es m = Some m' \<Longrightarrow> lim_events (es @ fs) m = lim_events es m @ lim_events fs m'"
proof (induction es arbitrary: m)
  case (Cons e es)
  then obtain m1 where "search_step e m = Some m1" "search_run es m1 = Some m'"
    by (auto split: option.splits)
  with Cons.IH show ?case by simp
qed simp

lemma search_step_keeps:
  "search_step e m = Some m' \<Longrightarrow> \<not> is_search e \<Longrightarrow>
   searchGeneration m' = searchGeneration m \<and> searchText m' = searchText m \<and> has_trace m' = has_trace m"
  by (cases e)
    (auto simp: is_search_def stepInternal_def Let_def limiter_event_def search_ends_def
      split: option.splits loop.splits sum.splits if_splits)

lemma search_run_keeps:
  "search_run es m = Some m' \<Longrightarrow> list_all (\<lambda>e. \<not> is_search e) es \<Longrightarrow>
   searchGeneration m' = searchGeneration m \<and> searchText m' = searchText m \<and> has_trace m' = has_trace m"
  by (induction es arbitrary: m) (auto split: option.splits dest: search_step_keeps)

lemma has_trace_run: "search_run es m = Some m' \<Longrightarrow> has_trace m' = has_trace m"
proof (induction es arbitrary: m)
  case (Cons e es)
  then obtain m1 where s: "search_step e m = Some m1" "search_run es m1 = Some m'"
    by (auto split: option.splits)
  have "has_trace m1 = has_trace m"
  proof (cases "is_search e")
    case True
    then obtain t where "e = SearchFor t" by (cases e) (simp_all add: is_search_def)
    with s(1) show ?thesis by (auto simp: search_def Let_def split: if_splits)
  qed (use search_step_keeps [OF s(1)] in blast)
  with Cons.IH [OF s(2)] show ?case by simp
qed simp

lemma scheduled_lim_events:
  "list_all (\<lambda>e. \<not> is_search e) es \<Longrightarrow> scheduled (lim_events es m) = []"
proof (induction es arbitrary: m)
  case (Cons e es)
  then have "scheduled (lim_event e m) = []" by (cases e) (simp_all add: lim_event_def is_search_def)
  with Cons show ?case by (auto split: option.split)
qed simp

subsection \<open>Every started search is in work or has its results\<close>

definition succeeds :: "search_event \<Rightarrow> bool" where
  "succeeds e = (case e of SearchFor t \<Rightarrow> False | SearchEnds res vis \<Rightarrow> \<not> isl res | _ \<Rightarrow> True)"

lemma succeeds_no_search: "succeeds e \<Longrightarrow> \<not> is_search e"
  by (cases e) (simp_all add: succeeds_def is_search_def)

definition started_le :: "search_manager \<Rightarrow> bool" where
  "started_le m \<longleftrightarrow> (\<forall>w\<in>set (started (sm_limiter m)). fst w \<le> searchGeneration m)"

definition answered :: "search_manager \<Rightarrow> bool" where
  "answered m \<longleftrightarrow>
     (\<exists>w\<in>set (started (sm_limiter m)). fst w = searchGeneration m) \<longrightarrow>
     sm_results m \<noteq> None \<or> (\<exists>n w. loop (sm_limiter m) = Working n w \<and> fst w = searchGeneration m)"

lemma started_field: "limiter_effects l = limiter_effects l' \<Longrightarrow> started l = started l'"
  by (simp add: started_def)

lemma started_schedule:
  "started (schedule_work w l) = started l @ (if isRunning l then [] else [w])"
  by (auto simp: schedule_work_def run_queue_started intro!: started_field)

lemma schedule_loop:
  "loop (schedule_work w l) = (if isRunning l then loop l else Working (deferreds l) w)"
  by (simp add: schedule_work_def run_queue_loop)

lemma started_run_queue_log:
  "started (run_queue q (log_effect (if b then DeferredResolved n else DeferredRejected n) l)) =
     started l @ (if q = [] then [] else [snd (last q)])"
  by (simp add: run_queue_started settled_log)

lemma started_ends:
  assumes "search_ends res vis m = Some m'"
  shows "started (sm_limiter m') = started (sm_limiter m)"
  using assms
  by (auto simp: search_ends_def work_ends_def Let_def started_def split: loop.splits sum.splits if_splits)

lemma started_le_step:
  assumes "started_le m" and ok: "search_ok m" and step: "search_step e m = Some m'"
  shows "started_le m'"
proof (cases e)
  case (SearchFor t)
  then have m': "m' = search t m" using step by simp
  show ?thesis unfolding m' started_le_def
    using assms(1) by (auto simp: search_def Let_def started_schedule started_le_def)
next
  case (StepResult b)
  with step have "sm_limiter m' = sm_limiter m" "searchGeneration m' = searchGeneration m"
    by (auto simp: stepInternal_def Let_def split: option.splits)
  with assms(1) show ?thesis by (simp add: started_le_def)
next
  case (SearchEnds res vis)
  with step started_ends [of res vis m m'] search_step_keeps [OF step] assms(1) show ?thesis
    by (simp add: started_le_def is_search_def)
next
  case SearchResumes
  then obtain n b where lo: "loop (sm_limiter m) = Finished n b"
    and m': "m' = m\<lparr>sm_limiter := run_queue (taskQueue (sm_limiter m))
      (log_effect (if b then DeferredResolved n else DeferredRejected n) (sm_limiter m))\<rparr>"
    using step by (auto simp: limiter_event_def loop_resumes_def split: loop.splits)
  have "\<forall>w\<in>set (taskQueue (sm_limiter m)). fst (snd w) \<le> searchGeneration m"
    using ok by (auto simp: search_ok_def pend_def)
  then show ?thesis using assms(1) unfolding m' started_le_def by (auto simp: started_run_queue_log)
next
  case SearchFinally
  with step assms(1) show ?thesis
    by (auto simp: started_le_def limiter_event_def finally_runs_def started_def split: loop.splits)
qed

lemma answered_step:
  assumes a: "answered m" and ok: "search_ok m" and step: "search_step e m = Some m'" and s: "succeeds e"
  shows "answered m'"
proof (cases e)
  case (SearchFor t)
  with s show ?thesis by (simp add: succeeds_def)
next
  case (StepResult b)
  with step have "sm_limiter m' = sm_limiter m" "sm_results m' = sm_results m" "searchGeneration m' = searchGeneration m"
    by (auto simp: stepInternal_def Let_def split: option.splits)
  with a show ?thesis by (simp add: answered_def)
next
  case (SearchEnds res vis)
  then obtain r where r: "res = Inr r" using s by (cases res) (simp_all add: succeeds_def)
  with step SearchEnds obtain n w where lo: "loop (sm_limiter m) = Working n w"
    and res: "sm_results m' = (if fst w = searchGeneration m then Some r else sm_results m)"
    by (auto simp: search_ends_def work_ends_def Let_def split: loop.splits)
  have "searchGeneration m' = searchGeneration m"
    using search_step_keeps [OF step succeeds_no_search [OF s]] by simp
  moreover have "started (sm_limiter m') = started (sm_limiter m)" using SearchEnds step started_ends by simp
  ultimately show ?thesis using a lo res by (auto simp: answered_def)
next
  case SearchResumes
  then obtain n b where lo: "loop (sm_limiter m) = Finished n b"
    and m': "m' = m\<lparr>sm_limiter := run_queue (taskQueue (sm_limiter m))
      (log_effect (if b then DeferredResolved n else DeferredRejected n) (sm_limiter m))\<rparr>"
    using step by (auto simp: limiter_event_def loop_resumes_def split: loop.splits)
  show ?thesis using a unfolding m'
    by (auto simp: answered_def started_run_queue_log run_queue_loop lo split: prod.split)
next
  case SearchFinally
  with step obtain lo: "loop (sm_limiter m) = Returned"
    and m': "m' = m\<lparr>sm_limiter := (sm_limiter m)\<lparr>isRunning := False, loop := Stopped\<rparr>\<rparr>"
    by (auto simp: limiter_event_def finally_runs_def split: loop.splits)
  have "started (sm_limiter m') = started (sm_limiter m)" by (simp add: m' started_def)
  with a lo show ?thesis by (auto simp: answered_def m')
qed

lemma started_le_run:
  "search_run es m = Some m' \<Longrightarrow> search_ok m \<Longrightarrow> started_le m \<Longrightarrow> started_le m'"
  by (induction es arbitrary: m) (auto split: option.splits dest: search_ok_step started_le_step)

lemma answered_run:
  "search_run es m = Some m' \<Longrightarrow> search_ok m \<Longrightarrow> answered m \<Longrightarrow> list_all succeeds es \<Longrightarrow> answered m'"
  by (induction es arbitrary: m) (auto split: option.splits dest: search_ok_step answered_step)

lemma answered_search:
  assumes "started_le m" and "search_ok m" and "t \<noteq> searchText m" and "has_trace m" and "t \<noteq> []"
  shows "answered (search t m)"
proof -
  let ?w = "(Suc (searchGeneration m), t)"
  have old: "\<forall>w\<in>set (started (sm_limiter m)). fst w \<noteq> Suc (searchGeneration m)"
    using assms(1) by (fastforce simp: started_le_def)
  have s: "sm_limiter (search t m) = schedule_work ?w (sm_limiter m)"
      "searchGeneration (search t m) = Suc (searchGeneration m)"
    using assms(3-5) by (simp_all add: search_def Let_def)
  show ?thesis using old unfolding answered_def s by (auto simp: started_schedule schedule_loop)
qed

subsection \<open>The last search ends\<close>

definition limiter_move :: "search_event \<Rightarrow> bool" where
  "limiter_move e = (case e of SearchFor t \<Rightarrow> False | StepResult b \<Rightarrow> False | _ \<Rightarrow> True)"

lemma lim_events_length: 
  "search_run es m = Some m' \<Longrightarrow> list_all (\<lambda>e. \<not> is_search e) es \<Longrightarrow>
   length (lim_events es m) = length (filter limiter_move es)"
proof (induction es arbitrary: m)
  case (Cons e es)
  then obtain m1 where m1: "search_step e m = Some m1" "search_run es m1 = Some m'"
    by (auto split: option.splits)
  have "length (lim_event e m) = (if limiter_move e then 1 else 0)"
    using Cons.prems(2) by (cases e) (simp_all add: lim_event_def limiter_move_def is_search_def)
  with Cons.IH [OF m1(2)] Cons.prems(2) m1(1) show ?case by simp
qed simp

text \<open>
  After the last search, while its queries and those before it succeed and unless a search started in the
  window of the limiter: at most five events of the limiter follow, another one is possible until it is quiet,
  and then the results are there and nothing is in progress, whatever steps happen in between.
\<close>

text \<open>
  C13. A search ends. In a manager with a trace, take a search for a non-empty new text, where no search of the
  whole history, this one included, was scheduled in the gap in which the limiter loses a task, and where every
  answer after it, also one to an older search, is a success. Then as long as no other search is started at most five
  events of the limiter happen; until it stops it can move, and when it has stopped there are results and
  no search is in progress.
\<close>

theorem last_search_ends:
  assumes start: "search_run es (new_search_manager True) = Some m0" and t: "t \<noteq> []" "t \<noteq> searchText m0"
    and run: "search_run fs (search t m0) = Some m" and fs: "list_all succeeds fs"
    and window: "outside_window (lim_events (es @ SearchFor t # fs) (new_search_manager True)) new_limiter"
  shows "searchText m = t \<and> length (filter limiter_move fs) \<le> 5 \<and>
    (loop (sm_limiter m) = Stopped \<longrightarrow> sm_results m \<noteq> None \<and> \<not> searchInProgress m) \<and>
    (loop (sm_limiter m) \<noteq> Stopped \<longrightarrow> (\<exists>e m'. limiter_move e \<and> search_step e m = Some m'))"
proof -
  let ?m1 = "search t m0" and ?w = "(Suc (searchGeneration m0), t)"
  let ?es = "lim_events es (new_search_manager True) @ [ScheduleWork ?w]" and ?fs = "lim_events fs ?m1"
  have ns: "list_all (\<lambda>e. \<not> is_search e) fs" using fs succeeds_no_search by (auto simp: list_all_iff)
  have tr: "has_trace m0" using has_trace_run [OF start] by (simp add: new_search_manager_def)
  have ok0: "search_ok m0" using search_ok_run [OF search_ok_new start] .
  have le0: "started_le m0"
    by (rule started_le_run [OF start search_ok_new])
      (simp add: started_le_def new_search_manager_def new_limiter_def started_def)
  have m1: "searchText ?m1 = t" "searchGeneration ?m1 = Suc (searchGeneration m0)"
    using t tr by (simp_all add: search_def Let_def)
  note keep = search_run_keeps [OF run ns]
  have all: "lim_events (es @ SearchFor t # fs) (new_search_manager True) = ?es @ ?fs"
    using t tr by (simp add: lim_events_append [OF start] lim_event_def)
  have whole: "search_run (es @ SearchFor t # fs) (new_search_manager True) = Some m"
    using start run by (simp add: search_run_append)
  have lim: "limiter_run (?es @ ?fs) new_limiter = Some (sm_limiter m)"
    using lim_events_run [OF whole] unfolding all by (simp add: new_search_manager_def)
  have sch: "scheduled ?es \<noteq> []" "last (scheduled ?es) = ?w" by simp_all
  note latest = latest_task_runs [OF lim window [unfolded all] sch(1) scheduled_lim_events [OF ns]]
  have "answered m"
    by (rule answered_run [OF run search_ok_search [OF ok0] answered_search [OF le0 ok0 t(2) tr t(1)] fs])
  have res: "sm_results m \<noteq> None" if q: "loop (sm_limiter m) = Stopped"
  proof -
    have "?w \<in> set (started (sm_limiter m))" using latest q sch(2) by (metis last_in_set)
    moreover have "fst ?w = searchGeneration m" using keep m1 by simp
    ultimately show ?thesis using \<open>answered m\<close> q unfolding answered_def by fastforce
  qed
  then have "\<not> searchInProgress m" if "loop (sm_limiter m) = Stopped"
    using that results_for_current_text [OF whole] by blast
  moreover have "\<exists>e m'. limiter_move e \<and> search_step e m = Some m'" if "loop (sm_limiter m) \<noteq> Stopped"
  proof (cases "loop (sm_limiter m)")
    case (Working n w)
    then have "search_step (SearchEnds (Inl RangeErr) None) m \<noteq> None"
      by (cases w) (simp add: search_ends_def work_ends_def)
    moreover have "limiter_move (SearchEnds (Inl RangeErr) None)" by (simp add: limiter_move_def)
    ultimately show ?thesis by blast
  next
    case (Finished n b)
    then have "search_step SearchResumes m \<noteq> None" by (simp add: limiter_event_def loop_resumes_def)
    moreover have "limiter_move SearchResumes" by (simp add: limiter_move_def)
    ultimately show ?thesis by blast
  next
    case Returned
    then have "search_step SearchFinally m \<noteq> None" by (simp add: limiter_event_def finally_runs_def)
    moreover have "limiter_move SearchFinally" by (simp add: limiter_move_def)
    ultimately show ?thesis by blast
  qed (use that in simp)
  ultimately show ?thesis
    using res latest keep m1 lim_events_length [OF run ns] by simp
qed

text \<open>The results of an overtaken search do not count; the last one ends with its own.\<close>

theorem last_search_ends_witness:
  "\<exists>m0 m. search_run [SearchFor ''ab''] (new_search_manager True) = Some m0 \<and>
     search_run [SearchEnds (Inr no_hits) None, SearchResumes, StepResult False, SearchEnds (Inr two_hits) None,
       SearchResumes, SearchFinally] (search ''abc'' m0) = Some m \<and> sm_results m \<noteq> None \<and> searchText m = ''abc''"
proof -
  let ?es = "[SearchFor ''ab'']"
  let ?fs = "[SearchEnds (Inr no_hits) None, SearchResumes, StepResult False, SearchEnds (Inr two_hits) None,
       SearchResumes, SearchFinally]"
  note defs = new_search_manager_def new_limiter_def search_def Let_def schedule_work_def search_ends_def
    work_ends_def limiter_event_def loop_resumes_def finally_runs_def log_effect_def stepInternal_def
  obtain m0 where m0: "search_run ?es (new_search_manager True) = Some m0" "searchText m0 = ''ab''"
      "m0 = search ''ab'' (new_search_manager True)"
    by (simp add: defs)
  obtain m where m: "search_run ?fs (search ''abc'' m0) = Some m" "loop (sm_limiter m) = Stopped"
    unfolding m0(3) by (simp add: defs)
  have w: "outside_window (lim_events (?es @ SearchFor ''abc'' # ?fs) (new_search_manager True)) new_limiter"
    by (simp add: defs lim_event_def)
  have "list_all succeeds ?fs" by (simp add: succeeds_def)
  from last_search_ends [OF m0(1) _ _ m(1) this w] m0 m show ?thesis by auto
qed

subsection \<open>A search that fails\<close>

lemma stuck_run:
  assumes "search_run fs m = Some m'" and "list_all (\<lambda>e. \<not> is_search e) fs" and "search_ok m"
    and "searchInProgress m" and "sm_results m = None" and "\<forall>w\<in>set (pend m). fst w \<noteq> searchGeneration m"
  shows "searchInProgress m' \<and> sm_results m' = None"
  using assms
proof (induction fs arbitrary: m)
  case (Cons e fs)
  then obtain m1 where m1: "search_step e m = Some m1" "search_run fs m1 = Some m'"
    by (auto split: option.splits)
  have e: "\<not> is_search e" using Cons.prems(2) by simp
  have "searchInProgress m1 \<and> sm_results m1 = None"
  proof (cases e)
    case (SearchEnds res vis)
    with m1(1) Cons.prems(4-6) show ?thesis
      by (auto simp: search_ends_def work_ends_def pend_def Let_def split: loop.splits sum.splits if_splits)
  qed (use m1(1) Cons.prems(4-5) e in
      \<open>auto simp: is_search_def stepInternal_def limiter_event_def\<close>)
  moreover have "\<forall>w\<in>set (pend m1). fst w \<noteq> searchGeneration m1"
    using subseq_set [OF pend_shrinks [OF m1(1) e]] search_step_keeps [OF m1(1) e] Cons.prems(6) by auto
  ultimately show ?case
    using Cons.IH [OF m1(2)] Cons.prems(2) search_ok_step [OF Cons.prems(3) m1(1)] by simp
qed simp

text \<open>
  When a query of the last search fails, the search is in progress for ever: until another text is
  searched for, there are no results and the flag stays set.
\<close>

text \<open>
  C31. When the query of the current search fails, the search stays in progress, without results, whatever
  happens until the next search.
\<close>

theorem failed_search_in_progress:
  assumes "search_run es (new_search_manager tr) = Some m0"
    and "loop (sm_limiter m0) = Working n (searchGeneration m0, t)"
    and "search_run (SearchEnds (Inl e) vis # fs) m0 = Some m" and "list_all (\<lambda>e. \<not> is_search e) fs"
  shows "searchInProgress m \<and> sm_results m = None \<and> searchText m = searchText m0"
proof -
  have ok: "search_ok m0" using search_ok_run [OF search_ok_new assms(1)] .
  obtain m1 where m1: "search_step (SearchEnds (Inl e) vis) m0 = Some m1" "search_run fs m1 = Some m"
    using assms(3) by (auto split: option.splits)
  have p: "pend m0 = (searchGeneration m0, t) # map snd (taskQueue (sm_limiter m0))"
    by (simp add: pend_def assms(2))
  have m1': "m1 = m0\<lparr>sm_limiter := (sm_limiter m0)\<lparr>loop := Finished n False\<rparr>\<rparr>"
    using m1(1) assms(2) by (simp add: search_ends_def work_ends_def)
  have "searchInProgress m0" using ok p by (simp add: search_ok_def)
  moreover have "\<forall>x\<in>set (arrived m0). fst x < searchGeneration m0"
    using ok p by (auto simp: search_ok_def sorted_wrt_append)
  then have "sm_results m0 = None" using ok by (cases "sm_results m0") (auto simp: search_ok_def)
  moreover have "sorted_wrt (<) (map fst (pend m0))" using ok by (simp add: search_ok_def sorted_wrt_append)
  then have "\<forall>w\<in>set (map snd (taskQueue (sm_limiter m0))). fst w \<noteq> searchGeneration m0"
    unfolding p by fastforce
  then have "\<forall>w\<in>set (pend m1). fst w \<noteq> searchGeneration m1" by (simp add: m1' pend_def)
  ultimately show ?thesis
    using stuck_run [OF m1(2) assms(4) search_ok_step [OF ok m1(1)]] search_run_keeps [OF m1(2) assms(4)]
    by (simp add: m1')
qed

theorem failed_search_in_progress_witness:
  "\<exists>m. search_run (SearchEnds (Inl (Thrown ''no such column'')) None # [StepResult False, SearchResumes, SearchFinally])
      (search ''abc'' (new_search_manager True)) = Some m \<and> searchInProgress m"
proof -
  let ?e = "Thrown ''no such column''" and ?fs = "[StepResult False, SearchResumes, SearchFinally]"
  note defs = new_search_manager_def new_limiter_def search_def Let_def schedule_work_def search_ends_def
    work_ends_def limiter_event_def loop_resumes_def finally_runs_def log_effect_def stepInternal_def
  let ?m0 = "search ''abc'' (new_search_manager True)"
  have m0: "search_run [SearchFor ''abc''] (new_search_manager True) = Some ?m0"
      "loop (sm_limiter ?m0) = Working 0 (searchGeneration ?m0, ''abc'')" by (simp_all add: defs)
  obtain m where "search_run (SearchEnds (Inl ?e) None # ?fs) ?m0 = Some m" by (simp add: defs)
  with failed_search_in_progress [OF m0 this] show ?thesis by (simp add: is_search_def)
qed

subsection \<open>What the dataset search finds\<close>

lemma show_nat_digits: "c \<in> set (show_nat n) \<Longrightarrow> c \<noteq> CHR ''-''"
proof (induction n rule: show_nat.induct)
  case (1 n)
  have digit: "char_of (48 + d) \<noteq> CHR ''-''" if "d < (10 :: nat)" for d
  proof
    assume "char_of (48 + d) = CHR ''-''"
    then have "(of_char (char_of (48 + d)) :: nat) = of_char (CHR ''-'')" by simp
    with that show False by simp
  qed
  show ?case
    using 1 digit [of n] digit [of "n mod 10"]
    by (cases "n < 10") (auto simp: show_nat.simps [of n])
qed

lemma split_first:
  assumes "xs @ c # us = ys @ c # vs" and "c \<notin> set xs" and "c \<notin> set ys"
  shows "xs = ys \<and> us = vs"
proof -
  have "takeWhile (\<lambda>x. x \<noteq> c) (xs @ c # us) = xs" "takeWhile (\<lambda>x. x \<noteq> c) (ys @ c # vs) = ys"
    using assms(2,3) by (auto simp: takeWhile_append)
  then have "xs = ys" using assms(1) by metis
  with assms(1) show ?thesis by simp
qed

lemma hit_key_inj: "hit_key (i, t, tr) = hit_key (j, t', tr') \<longleftrightarrow> i = j \<and> track_uri tr = track_uri tr'"
proof
  have no: "CHR ''-'' \<notin> set (show_nat n)" for n using show_nat_digits by blast
  have hd: "hd (show_nat n @ xs) \<noteq> CHR ''-''" for n xs
    using no [of n] by (cases "show_nat n") auto
  assume "hit_key (i, t, tr) = hit_key (j, t', tr')"
  then have eq: "show_int i @ ''-'' @ track_uri tr = show_int j @ ''-'' @ track_uri tr'" by (simp add: hit_key_def)
  have "hd (show_int k @ xs) = CHR ''-'' \<longleftrightarrow> k < 0" for k xs
    using hd by (simp add: show_int_def)
  then have "(i < 0) = (j < 0)" using arg_cong [OF eq, of hd] by metis
  then have "show_nat (nat \<bar>i\<bar>) @ CHR ''-'' # track_uri tr = show_nat (nat \<bar>j\<bar>) @ CHR ''-'' # track_uri tr'"
    using eq by (auto simp: show_int_def split: if_splits)
  from split_first [OF this no no] have "nat \<bar>i\<bar> = nat \<bar>j\<bar>" "track_uri tr = track_uri tr'" by auto
  with \<open>(i < 0) = (j < 0)\<close> show "i = j \<and> track_uri tr = track_uri tr'" by auto
qed (simp add: hit_key_def)

lemma unique_hits_snoc:
  "unique_hits (hs @ [h]) = (if hit_key h \<in> hit_key ` set (unique_hits hs) then unique_hits hs else unique_hits hs @ [h])"
  by (simp add: unique_hits_def)

lemma unique_hits_spec:
  "distinct (map hit_key (unique_hits hs)) \<and> set (unique_hits hs) \<subseteq> set hs \<and>
   hit_key ` set (unique_hits hs) = hit_key ` set hs"
proof (induction hs rule: rev_induct)
  case Nil
  show ?case by (simp add: unique_hits_def)
qed (auto simp: unique_hits_snoc)

text \<open>
  The dataset search reports the hits of all providers in the order of time, each event of a track once; it
  leaves out only a hit with the id and the track of another.
\<close>

theorem dataset_search_hits:
  assumes "search_providers num answer ts searchTerm ps = Inr all"
    and "searchTrackEvents num answer ts ps searchTerm = Inr hs"
  shows "sorted (map (\<lambda>h. fst (snd h)) hs) \<and> distinct (map (\<lambda>(i, t, tr). (i, track_uri tr)) hs) \<and>
    set hs \<subseteq> set all \<and>
    (\<forall>(i, t, tr)\<in>set all. \<exists>t' tr'. (i, t', tr') \<in> set hs \<and> track_uri tr' = track_uri tr) \<and>
    results_ok (executeDatasetSearch hs)"
proof -
  have hs: "hs = sort_key (\<lambda>h. fst (snd h)) (unique_hits all)"
    using assms by (simp add: searchTrackEvents_def)
  note u = unique_hits_spec [of all]
  have key: "hit_key h = hit_key h' \<longleftrightarrow> (case h of (i, t, tr) \<Rightarrow> (i, track_uri tr)) = (case h' of (i, t, tr) \<Rightarrow> (i, track_uri tr))"
    for h h' using hit_key_inj by (cases h; cases h') simp
  have "distinct (map (\<lambda>(i, t, tr). (i, track_uri tr)) (unique_hits all))"
    using conjunct1 [OF u] key unfolding distinct_map inj_on_def by metis
  then have "distinct (map (\<lambda>(i, t, tr). (i, track_uri tr)) hs)"
    by (auto simp: hs distinct_map)
  moreover have "\<exists>t' tr'. (i, t', tr') \<in> set hs \<and> track_uri tr' = track_uri tr"
    if "(i, t, tr) \<in> set all" for i t tr
  proof -
    have "hit_key (i, t, tr) \<in> hit_key ` set (unique_hits all)" using u that by auto
    then obtain h where "h \<in> set (unique_hits all)" "hit_key h = hit_key (i, t, tr)" by auto
    then have "h \<in> set hs" by (simp add: hs)
    with \<open>hit_key h = _\<close> show ?thesis by (cases h) (auto simp: hit_key_inj)
  qed
  moreover have "sorted (map (\<lambda>h. fst (snd h)) hs)" "set hs \<subseteq> set all" using u by (auto simp: hs)
  ultimately show ?thesis using results_ok_dataset by blast
qed

text \<open>
  A row counts for the tracks of its group whose datasets have it, when no two tracks share a dataset and
  the filters of the group are numbers of one column.
\<close>

lemma find_pair:
  assumes "distinct (map snd pairs)" and "p \<in> set pairs"
  shows "List.find (\<lambda>q. snd q = snd p) pairs = Some p"
  using assms by (induction pairs) (auto simp: image_iff)

theorem row_hits:
  fixes db :: "('r, 'v) sql_db"
  assumes "distinct (map snd pairs)"
    and "g < length (sourceGroupArray (map snd pairs))" and "snd (sourceGroupArray (map snd pairs) ! g) = grp"
    and "list_all (\<lambda>d. case dataset_filter d of None \<Rightarrow> True
      | Some f \<Rightarrow> filter_col f = c \<and> list_all (\<lambda>v. \<exists>m. v = LNum m) (snd (in_filter f))) grp"
    and "\<forall>m. db_equals db row c (LNum m) \<longleftrightarrow> m = n"
  shows "\<exists>hs. hits_of_row num pairs (i, t, int g, LNum n) = Inr hs \<and>
    set hs = {(i, t, fst p) |p. p \<in> set pairs \<and> snd p \<in> set grp \<and> filter_accepts db (dataset_filter (snd p)) row}"
proof -
  let ?ds = "resolveLineage num (map snd pairs) (int g) (LNum n)"
  have ds: "set ?ds = {d \<in> set grp. filter_accepts db (dataset_filter d) row}"
    using resolveLineage_numbers [OF assms(2-5), of "LNum n" num] by simp
  have sub: "set grp \<subseteq> snd ` set pairs"
    using sourceGroupArray_members [of g "map snd pairs"] assms(2,3) by simp
  have f: "map_option (\<lambda>p. (i, t, fst p)) (List.find (\<lambda>q. snd q = d) pairs) = Some h \<longleftrightarrow>
      (\<exists>p\<in>set pairs. snd p = d \<and> h = (i, t, fst p))" if d: "d \<in> set grp" for d h
  proof -
    obtain p where p: "p \<in> set pairs" "snd p = d" using sub d by blast
    have uniq: "q = p" if "q \<in> set pairs" "snd q = d" for q
      by (rule inj_onD [of snd "set pairs"]) (use that p assms(1) in \<open>auto simp: distinct_map\<close>)
    have "(\<exists>q\<in>set pairs. snd q = d \<and> h = (i, t, fst q)) \<longleftrightarrow> (i, t, fst p) = h" using uniq p by blast
    moreover have "List.find (\<lambda>q. snd q = d) pairs = Some p" using find_pair [OF assms(1) p(1)] p(2) by simp
    ultimately show ?thesis by simp
  qed
  have "set (List.map_filter (\<lambda>d. map_option (\<lambda>p. (i, t, fst p)) (List.find (\<lambda>p. snd p = d) pairs)) ?ds) =
      {h. \<exists>d\<in>set ?ds. map_option (\<lambda>p. (i, t, fst p)) (List.find (\<lambda>p. snd p = d) pairs) = Some h}"
    by (force simp: List.map_filter_def)
  also have "\<dots> = {h. \<exists>d\<in>set ?ds. \<exists>p\<in>set pairs. snd p = d \<and> h = (i, t, fst p)}"
    using ds f by (intro Collect_cong bex_cong) auto
  also have "\<dots> = {(i, t, fst p) |p. p \<in> set pairs \<and> snd p \<in> set grp \<and> filter_accepts db (dataset_filter (snd p)) row}"
    unfolding ds by blast
  finally show ?thesis by (simp add: hits_of_row_def)
qed

text \<open>
  A track whose dataset is filtered by a string breaks the search: its rows come with a string as
  partition value, which is read as \<open>NUM_NULL\<close>. The search of the first provider throws, and then the manager
  is in progress for ever.
\<close>

lemma traverse_fails: "x \<in> set xs \<Longrightarrow> isl (f x) \<Longrightarrow> isl (traverse f xs)"
  by (induction xs) (auto split: sum.split simp: isl_def)

theorem string_partition_breaks_search:
  assumes "trackDatasetPairs (fst p ts) \<noteq> []" and "snd p searchTerm = Inr (Some f)"
    and "\<forall>q. \<exists>rows. answer q = Inr rows \<and> (i, t, g, LStr s) \<in> set rows"
  shows "isl (map_sum id executeDatasetSearch (searchTrackEvents num answer ts (p # ps) searchTerm))"
proof -
  have ne: "fst p ts \<noteq> []" using assms(1) by (auto simp: trackDatasetPairs_def List.map_filter_def)
  have bad: "isl (traverse (hits_of_row num (trackDatasetPairs (fst p ts))) rows)"
    if "(i, t, g, LStr s) \<in> set rows" for rows
    by (rule traverse_fails [OF that]) (simp add: hits_of_row_def)
  have "isl (case answer q of Inl e \<Rightarrow> Inl e
      | Inr rows \<Rightarrow> map_sum id concat (traverse (hits_of_row num (trackDatasetPairs (fst p ts))) rows))" for q
  proof -
    obtain rows where "answer q = Inr rows" "(i, t, g, LStr s) \<in> set rows" using assms(3) by blast
    with bad show ?thesis by (simp add: isl_map_sum)
  qed
  then have "isl (searchTracksUsingProvider num answer (fst p ts) f)"
    using assms(1) by (simp add: searchTracksUsingProvider_def Let_def split: sum.split)
  then obtain e where "searchTracksUsingProvider num answer (fst p ts) f = Inl e" by (auto simp: isl_def)
  with ne assms(2) show ?thesis by (simp add: searchTrackEvents_def)
qed

end
