(* ===== verification/Selection_Manager.thy ===== *)
theory Selection_Manager
  imports Async_Limiter Track_Manager
begin

text \<open>
  What is selected: \<^verbatim>\<open>core/selection_manager.ts\<close>, with the notes of \<^verbatim>\<open>core/note_manager.ts\<close> and the time spans of
  \<^verbatim>\<open>base/time.ts\<close>. Selecting an event of a track asks the track for details and looking up an event of a table
  asks the trace processor, both asynchronously; the code after an \<open>await\<close> is a separate operation, and what
  the awaited promise gives is its argument.
\<close>

subsection \<open>Notes\<close>

text \<open>A note is a flag at one time or a span; it has a colour and a text.\<close>

datatype note_kind = DefaultNote int | SpanNote int int

record trace_note =
  note_kind :: note_kind
  note_color :: string
  note_text :: string

record note_manager =
  lastNodeId :: nat
  nm_notes :: "(string \<times> trace_note) list"

definition new_note_manager :: note_manager where
  "new_note_manager = \<lparr>lastNodeId = 0, nm_notes = []\<rparr>"

definition getNote :: "string \<Rightarrow> note_manager \<Rightarrow> trace_note option" where
  "getNote i m = map_of (nm_notes m) i"

text \<open>
  \<open>addNote\<close> and \<open>addSpanNote\<close>: an id that is given overrides a note, and otherwise the counter makes one.
  \<open>randomColor()\<close> is an argument.
\<close>

definition addNote ::
  "string \<Rightarrow> note_kind \<Rightarrow> string option \<Rightarrow> string option \<Rightarrow> string option \<Rightarrow> note_manager \<Rightarrow> string \<times> note_manager" where
  "addNote randomColor k color txt i m =
     (let (i', m') = (case i of
            Some x \<Rightarrow> (x, m)
          | None \<Rightarrow> (''note_'' @ show_nat (Suc (lastNodeId m)), m\<lparr>lastNodeId := Suc (lastNodeId m)\<rparr>));
          n = \<lparr>note_kind = k, note_color = (case color of None \<Rightarrow> randomColor | Some c \<Rightarrow> c),
               note_text = (case txt of None \<Rightarrow> [] | Some t \<Rightarrow> t)\<rparr>
      in (i', m'\<lparr>nm_notes := AList.update i' n (nm_notes m')\<rparr>))"

definition changeNote :: "string \<Rightarrow> string option \<Rightarrow> string option \<Rightarrow> note_manager \<Rightarrow> note_manager" where
  "changeNote i color txt m =
     (case getNote i m of
        None \<Rightarrow> m
      | Some n \<Rightarrow>
          m\<lparr>nm_notes := AList.update i
              (n\<lparr>note_color := (case color of None \<Rightarrow> note_color n | Some c \<Rightarrow> c),
                 note_text := (case txt of None \<Rightarrow> note_text n | Some t \<Rightarrow> t)\<rparr>) (nm_notes m)\<rparr>)"

definition removeNote :: "string \<Rightarrow> note_manager \<Rightarrow> note_manager" where
  "removeNote i m = m\<lparr>nm_notes := AList.delete i (nm_notes m)\<rparr>"

subsection \<open>Selections\<close>

text \<open>A selected event has its track, its id, its time and its duration, if any.\<close>

record area =
  area_start :: int
  area_end :: int
  area_trackUris :: "string list"

datatype selection =
    EmptySelection
  | TrackEventSelection string int int "int option"
  | TrackSelection string
  | AreaSelection area "track list"
  | NoteSelection string

record selection_opts =
  opt_clearSearch :: "bool option"
  opt_switchToCurrentSelectionTab :: "bool option"
  opt_scrollToSelection :: "bool option"

definition no_opts :: selection_opts where
  "no_opts = \<lparr>opt_clearSearch = None, opt_switchToCurrentSelectionTab = None, opt_scrollToSelection = None\<rparr>"

text \<open>\<open>new TimeSpan(start, end)\<close> asserts that the span does not end before it starts.\<close>

definition TimeSpan :: "int \<Rightarrow> int \<Rightarrow> js_error + int \<times> int" where
  "TimeSpan start end' = (if start \<le> end' then Inr (start, end') else Inl AssertionFailed)"

definition fromTimeAndDuration :: "int \<Rightarrow> int \<Rightarrow> js_error + int \<times> int" where
  "fromTimeAndDuration start dur = TimeSpan start (start + dur)"

definition getTimeSpanOfSelection :: "note_manager \<Rightarrow> selection \<Rightarrow> js_error + (int \<times> int) option" where
  "getTimeSpanOfSelection nm sel =
     (case sel of
        AreaSelection a ts \<Rightarrow> map_sum id Some (TimeSpan (area_start a) (area_end a))
      | NoteSelection i \<Rightarrow>
          (case getNote i nm of
             None \<Rightarrow> Inr None
           | Some n \<Rightarrow>
               (case note_kind n of
                  SpanNote s e \<Rightarrow> map_sum id Some (TimeSpan s e)
                | DefaultNote t \<Rightarrow> map_sum id Some (TimeSpan t t)))
      | TrackEventSelection u i ts dur \<Rightarrow>
          map_sum id Some
            (case dur of
               None \<Rightarrow> fromTimeAndDuration ts 0
             | Some d \<Rightarrow> if d = - 1 then fromTimeAndDuration ts 0 else fromTimeAndDuration ts d)
      | _ \<Rightarrow> Inr None)"

text \<open>The track that \<open>scrollToSelection\<close> scrolls to.\<close>

definition scroll_uri :: "selection \<Rightarrow> string option" where
  "scroll_uri sel =
     (case sel of
        TrackEventSelection u i ts dur \<Rightarrow> Some u
      | TrackSelection u \<Rightarrow> Some u
      | AreaSelection a ts \<Rightarrow> (case area_trackUris a of [] \<Rightarrow> None | u # us \<Rightarrow> Some u)
      | _ \<Rightarrow> None)"

subsection \<open>The manager\<close>

text \<open>
  A request waits for the details of an event; it knows the state of the details panel that a permalink
  carries, and a rejection of it is shown in a modal dialog when it restores a selection. A look-up waits for
  the trace processor, with the tracks there were when it began. Selections have numbers, so that a
  details panel belongs to one of them; \<open>load\<close> of a panel is run by an \<open>AsyncLimiter\<close>. What the manager told
  others is logged: the selections and options, and the places to scroll to.
\<close>

record details_request =
  dr_trackUri :: string
  dr_eventId :: int
  dr_opts :: selection_opts
  dr_panelState :: "nat option"
  dr_modal :: bool

record sql_lookup =
  lu_table :: string
  lu_id :: int
  lu_opts :: selection_opts
  lu_tracks :: "track list"

record details_panel =
  panel_loading :: bool
  panel_state :: "nat option"

record selection_manager =
  selected :: selection
  selected_nr :: nat
  selection_count :: nat
  detailsPanels :: "(nat \<times> details_panel) list"
  panelLimiter :: "nat limiter"
  details_requests :: "details_request list"
  sql_lookups :: "sql_lookup list"
  areaSelectionTabs :: "nat list"
  currentSelectionSubTab :: "string option"
  changes :: "(selection \<times> selection_opts) list"
  scrolls :: "((int \<times> int) option \<times> string option) list"
  modals :: nat

definition new_selection_manager :: selection_manager where
  "new_selection_manager =
     \<lparr>selected = EmptySelection, selected_nr = 0, selection_count = 1, detailsPanels = [],
      panelLimiter = new_limiter, details_requests = [], sql_lookups = [], areaSelectionTabs = [],
      currentSelectionSubTab = None, changes = [], scrolls = [], modals = 0\<rparr>"

text \<open>An operation that may throw returns the error, if any, and the manager as it is then.\<close>

definition scrollToSelection :: "note_manager \<Rightarrow> selection_manager \<Rightarrow> js_error option \<times> selection_manager" where
  "scrollToSelection nm m =
     (case getTimeSpanOfSelection nm (selected m) of
        Inl e \<Rightarrow> (Some e, m)
      | Inr rng \<Rightarrow> (None, m\<lparr>scrolls := scrolls m @ [(rng, scroll_uri (selected m))]\<rparr>))"

text \<open>\<open>setSelection\<close> with a new selection object, which gets the next number.\<close>

definition setSelection ::
  "note_manager \<Rightarrow> selection \<Rightarrow> selection_opts \<Rightarrow> selection_manager \<Rightarrow> js_error option \<times> selection_manager" where
  "setSelection nm sel opts m =
     (let m1 = m\<lparr>selected := sel, selected_nr := selection_count m, selection_count := Suc (selection_count m),
                 changes := changes m @ [(sel, opts)]\<rparr>
      in if opt_scrollToSelection opts = Some True then scrollToSelection nm m1 else (None, m1))"

definition clearSelection :: "note_manager \<Rightarrow> selection_manager \<Rightarrow> js_error option \<times> selection_manager" where
  "clearSelection nm m = setSelection nm EmptySelection no_opts m"

definition selectTrack ::
  "note_manager \<Rightarrow> string \<Rightarrow> selection_opts \<Rightarrow> selection_manager \<Rightarrow> js_error option \<times> selection_manager" where
  "selectTrack nm uri opts m = setSelection nm (TrackSelection uri) opts m"

definition selectNote ::
  "note_manager \<Rightarrow> string \<Rightarrow> selection_opts \<Rightarrow> selection_manager \<Rightarrow> js_error option \<times> selection_manager" where
  "selectNote nm i opts m = setSelection nm (NoteSelection i) opts m"

definition resolve_tracks :: "track_manager \<Rightarrow> string list \<Rightarrow> track list" where
  "resolve_tracks tm uris = List.map_filter (\<lambda>u. getTrack u tm) uris"

definition selectArea ::
  "track_manager \<Rightarrow> note_manager \<Rightarrow> area \<Rightarrow> selection_opts \<Rightarrow> selection_manager \<Rightarrow> js_error option \<times> selection_manager" where
  "selectArea tm nm a opts m =
     (if area_start a \<le> area_end a
      then setSelection nm (AreaSelection a (resolve_tracks tm (area_trackUris a))) opts m
      else (Some AssertionFailed, m))"

definition toggle_uri :: "string \<Rightarrow> string list \<Rightarrow> string list" where
  "toggle_uri u uris = (if u \<notin> set uris then uris @ [u] else filter (\<lambda>t. t \<noteq> u) uris)"

definition toggle_uris :: "string list \<Rightarrow> string list \<Rightarrow> string list" where
  "toggle_uris us uris =
     (if list_all (\<lambda>t. t \<in> set uris) us then filter (\<lambda>t. t \<notin> set us) uris
      else foldl (\<lambda>acc t. if t \<notin> set acc then acc @ [t] else acc) uris us)"

definition toggle_area ::
  "(string list \<Rightarrow> string list) \<Rightarrow> track_manager \<Rightarrow> note_manager \<Rightarrow> selection_manager \<Rightarrow> js_error option \<times> selection_manager" where
  "toggle_area f tm nm m =
     (case selected m of
        AreaSelection a ts \<Rightarrow> selectArea tm nm (a\<lparr>area_trackUris := f (area_trackUris a)\<rparr>) no_opts m
      | _ \<Rightarrow> (None, m))"

definition toggleTrackAreaSelection ::
  "track_manager \<Rightarrow> note_manager \<Rightarrow> string \<Rightarrow> selection_manager \<Rightarrow> js_error option \<times> selection_manager" where
  "toggleTrackAreaSelection tm nm u m = toggle_area (toggle_uri u) tm nm m"

definition toggleGroupAreaSelection ::
  "track_manager \<Rightarrow> note_manager \<Rightarrow> string list \<Rightarrow> selection_manager \<Rightarrow> js_error option \<times> selection_manager" where
  "toggleGroupAreaSelection tm nm us m = toggle_area (toggle_uris us) tm nm m"

subsection \<open>Selecting an event of a track\<close>

text \<open>\<open>selectTrackEventInternal\<close> up to its \<open>await\<close>. A rejection that is not awaited only reaches the console.\<close>

definition reject_event :: "bool \<Rightarrow> selection_manager \<Rightarrow> selection_manager" where
  "reject_event modal m = (if modal then m\<lparr>modals := Suc (modals m)\<rparr> else m)"

definition selectTrackEventInternal ::
  "track_manager \<Rightarrow> details_request \<Rightarrow> selection_manager \<Rightarrow> selection_manager" where
  "selectTrackEventInternal tm r m =
     (case getTrack (dr_trackUri r) tm of
        None \<Rightarrow> reject_event (dr_modal r) m
      | Some t \<Rightarrow>
          if has_selection_details t then m\<lparr>details_requests := details_requests m @ [r]\<rparr>
          else reject_event (dr_modal r) m)"

definition selectTrackEvent ::
  "track_manager \<Rightarrow> string \<Rightarrow> int \<Rightarrow> selection_opts \<Rightarrow> selection_manager \<Rightarrow> selection_manager" where
  "selectTrackEvent tm uri i opts m =
     selectTrackEventInternal tm
       \<lparr>dr_trackUri = uri, dr_eventId = i, dr_opts = opts, dr_panelState = None, dr_modal = False\<rparr> m"

text \<open>
  \<open>createTrackEventDetailsPanel\<close> for the selection that is about to be set, when its track still exists and has a
  panel. Whether the panel accepts the serialized state is an argument.
\<close>

definition createTrackEventDetailsPanel ::
  "(nat \<Rightarrow> nat option) \<Rightarrow> track_manager \<Rightarrow> string \<Rightarrow> nat option \<Rightarrow> selection_manager \<Rightarrow> selection_manager" where
  "createTrackEventDetailsPanel parse tm uri st m =
     (case getTrack uri tm of
        None \<Rightarrow> m
      | Some t \<Rightarrow>
          if has_details_panel t
          then m\<lparr>detailsPanels := AList.update (selection_count m)
                   \<lparr>panel_loading = True, panel_state = Option.bind st parse\<rparr> (detailsPanels m),
                 panelLimiter := schedule_work (selection_count m) (panelLimiter m)\<rparr>
          else m)"

text \<open>
  The promise of the \<open>i\<close>-th request settles: \<open>Some (Some d)\<close> with details, \<open>Some None\<close> with
  \<open>undefined\<close> or \<open>null\<close>, and \<open>None\<close> when it rejects.
\<close>

definition remove_nth :: "nat \<Rightarrow> 'a list \<Rightarrow> 'a list" where
  "remove_nth i xs = take i xs @ drop (Suc i) xs"

definition details_settle ::
  "(nat \<Rightarrow> nat option) \<Rightarrow> track_manager \<Rightarrow> note_manager \<Rightarrow> nat \<Rightarrow> (int \<times> int option) option option \<Rightarrow>
   selection_manager \<Rightarrow> selection_manager option" where
  "details_settle parse tm nm i res m =
     (case nth_opt (details_requests m) i of
        None \<Rightarrow> None
      | Some r \<Rightarrow>
          (let m1 = m\<lparr>details_requests := remove_nth i (details_requests m)\<rparr>
           in case res of
                Some (Some (ts, dur)) \<Rightarrow>
                  (let m2 = createTrackEventDetailsPanel parse tm (dr_trackUri r) (dr_panelState r) m1
                   in case setSelection nm (TrackEventSelection (dr_trackUri r) (dr_eventId r) ts dur) (dr_opts r) m2 of
                        (None, m3) \<Rightarrow> Some m3
                      | (Some e, m3) \<Rightarrow> Some (reject_event (dr_modal r) m3))
              | _ \<Rightarrow> Some (reject_event (dr_modal r) m1)))"

text \<open>
  Restoring a selection from a permalink: \<open>deserialize\<close>. An error, also one of \<open>selectArea\<close>, is caught and
  shown. The id of an event is read by \<open>parseInt\<close>; a text that is no number gives \<open>NaN\<close>, which is the id
  of no event.
\<close>

datatype serialized_selection = SerializedEvent string string "nat option" | SerializedArea area "string option"

fun read_digits :: "nat \<Rightarrow> string \<Rightarrow> nat" where
  "read_digits acc [] = acc"
| "read_digits acc (c # cs) =
     (let d = of_char c :: nat in
      if 48 \<le> d \<and> d \<le> 57 then read_digits (10 * acc + (d - 48)) cs else acc)"

definition starts_digit :: "string \<Rightarrow> bool" where
  "starts_digit s = (case s of [] \<Rightarrow> False | c # cs \<Rightarrow> 48 \<le> (of_char c :: nat) \<and> of_char c \<le> (57 :: nat))"

definition parseInt :: "string \<Rightarrow> int option" where
  "parseInt s0 =
     (let s = dropWhile is_white s0;
          (neg, ds) = (case s of [] \<Rightarrow> (False, []) | c # cs \<Rightarrow>
            if c = CHR ''-'' then (True, cs) else if c = CHR ''+'' then (False, cs) else (False, c # cs))
      in if starts_digit ds then Some (if neg then - int (read_digits 0 ds) else int (read_digits 0 ds)) else None)"

definition deserialize ::
  "track_manager \<Rightarrow> note_manager \<Rightarrow> serialized_selection option \<Rightarrow> selection_manager \<Rightarrow> selection_manager" where
  "deserialize tm nm ser m =
     (case ser of
        None \<Rightarrow> m
      | Some (SerializedEvent uri i st) \<Rightarrow>
          (case parseInt i of
             None \<Rightarrow> reject_event True m
           | Some n \<Rightarrow>
               selectTrackEventInternal tm
                 \<lparr>dr_trackUri = uri, dr_eventId = n, dr_opts = no_opts, dr_panelState = st, dr_modal = True\<rparr> m)
      | Some (SerializedArea a tab) \<Rightarrow>
          (case selectArea tm nm a no_opts m of
             (None, m') \<Rightarrow> m'
           | (Some e, m') \<Rightarrow> reject_event True m'))"

text \<open>The task of the limiter: the panel has loaded, or its \<open>load\<close> has thrown.\<close>

definition panel_settles :: "bool \<Rightarrow> selection_manager \<Rightarrow> selection_manager option" where
  "panel_settles ok m =
     (case loop (panelLimiter m) of
        Working n nr \<Rightarrow>
          map_option (\<lambda>l. m\<lparr>panelLimiter := l,
              detailsPanels :=
                (if ok then map (\<lambda>(k, p). (k, if k = nr then p\<lparr>panel_loading := False\<rparr> else p)) (detailsPanels m)
                 else detailsPanels m)\<rparr>)
            (work_ends ok (panelLimiter m))
      | _ \<Rightarrow> None)"

definition getDetailsPanelForSelection :: "selection_manager \<Rightarrow> details_panel option" where
  "getDetailsPanelForSelection m = map_of (detailsPanels m) (selected_nr m)"

definition registerAreaSelectionTab :: "nat \<Rightarrow> selection_manager \<Rightarrow> selection_manager" where
  "registerAreaSelectionTab tab m = m\<lparr>areaSelectionTabs := areaSelectionTabs m @ [tab]\<rparr>"

definition setCurrentSelectionSubTab :: "string option \<Rightarrow> selection_manager \<Rightarrow> selection_manager" where
  "setCurrentSelectionSubTab i m = m\<lparr>currentSelectionSubTab := i\<rparr>"

subsection \<open>Looking up events of a table\<close>

text \<open>The tracks of the table with a dataset that has an id, by the column of the filter.\<close>

definition table_tracks :: "track list \<Rightarrow> string \<Rightarrow> (track \<times> nat \<times> source_dataset) list" where
  "table_tracks ts table =
     List.map_filter (\<lambda>t. if rootTableName t = Some table
        then (case track_dataset t of
                Some (r, sd) \<Rightarrow> if dataset_implements (Source r sd) [(''id'', T_NUM)] then Some (t, r, sd) else None
              | None \<Rightarrow> None)
        else None) ts"

text \<open>An empty column name is falsy and counts as no filter.\<close>

definition filter_column :: "source_dataset \<Rightarrow> string option" where
  "filter_column sd =
     (case sd_filter sd of None \<Rightarrow> None | Some f \<Rightarrow> if filter_col f = [] then None else Some (filter_col f))"

definition tracksWithNoFilter :: "(track \<times> nat \<times> source_dataset) list \<Rightarrow> (track \<times> nat \<times> source_dataset) list" where
  "tracksWithNoFilter ps = filter (\<lambda>(t, r, sd). filter_column sd = None) ps"

definition filter_groups ::
  "(track \<times> nat \<times> source_dataset) list \<Rightarrow> (string \<times> (track \<times> nat \<times> source_dataset) list) list" where
  "filter_groups ps =
     foldl (\<lambda>g (t, r, sd). case filter_column sd of None \<Rightarrow> g | Some c \<Rightarrow> add_to_group c (t, r, sd) g) [] ps"

definition ids_text :: "int list \<Rightarrow> string" where
  "ids_text ids = join_with '','' (map show_int ids)"

text \<open>A later track takes over the values of an earlier one.\<close>

definition value_tracks :: "(track \<times> nat \<times> source_dataset) list \<Rightarrow> (sql_lit \<times> string) list" where
  "value_tracks grp =
     foldl (\<lambda>m (t, r, sd). case sd_filter sd of None \<Rightarrow> m
        | Some f \<Rightarrow> foldl (\<lambda>m' v. AList.update v (track_uri t) m') m (snd (in_filter f))) [] grp"

definition getTrackFromFilterValue :: "(sql_lit \<Rightarrow> int option) \<Rightarrow> (sql_lit \<times> string) list \<Rightarrow> sql_lit \<Rightarrow> string option" where
  "getTrackFromFilterValue num m v =
     (case map_of m v of
        Some u \<Rightarrow> Some u
      | None \<Rightarrow> (case v of
            LBig n \<Rightarrow> (case to_number num v of Some k \<Rightarrow> map_of m k | None \<Rightarrow> None)
          | _ \<Rightarrow> None))"

text \<open>
  The loops over the queries, which are awaited one after the other. An answer to the query of an unfiltered
  track is a list of ids, of which the first is taken; an answer to the query of a group is a list of
  ids and filter values. A track with an empty URI is falsy and is left out.
\<close>

record sql_answers =
  ans_ids :: "string \<Rightarrow> js_error + int list"
  ans_rows :: "string \<Rightarrow> js_error + (int \<times> sql_lit) list"

definition unfiltered_match ::
  "sql_answers \<Rightarrow> int list \<Rightarrow> track \<times> nat \<times> source_dataset \<Rightarrow> js_error + (int \<times> string) list" where
  "unfiltered_match ans ids p =
     (case p of (t, r, sd) \<Rightarrow>
        (case source_query sd None of
           Inl e \<Rightarrow> Inl e
         | Inr q \<Rightarrow>
             (case ans_ids ans (''select id from ('' @ q @ '') where id IN ('' @ ids_text ids @ '')'') of
                Inl e \<Rightarrow> Inl e
              | Inr is \<Rightarrow> Inr (case is of [] \<Rightarrow> [] | i # _ \<Rightarrow> [(i, track_uri t)]))))"

definition group_matches ::
  "(sql_lit \<Rightarrow> int option) \<Rightarrow> sql_answers \<Rightarrow> int list \<Rightarrow> string \<times> (track \<times> nat \<times> source_dataset) list \<Rightarrow>
   js_error + (int \<times> string) list" where
  "group_matches num ans ids g =
     (case g of (col, values) \<Rightarrow>
        (let union = Union 0 (map (\<lambda>(t, r, sd). Source r sd) values);
             schema = AList.update col T_UNKNOWN (dataset_schema union)
         in case dataset_query union (Some schema) of
              Inl e \<Rightarrow> Inl e
            | Inr q \<Rightarrow>
                (case ans_rows ans (''select * from ('' @ q @ '') where id IN ('' @ ids_text ids @ '')'') of
                   Inl e \<Rightarrow> Inl e
                 | Inr rows \<Rightarrow> Inr (List.map_filter (\<lambda>(i, v).
                     case getTrackFromFilterValue num (value_tracks values) v of
                       Some u \<Rightarrow> if u = [] then None else Some (i, u)
                     | None \<Rightarrow> None) rows))))"

definition resolveSqlEvents ::
  "(sql_lit \<Rightarrow> int option) \<Rightarrow> sql_answers \<Rightarrow> track list \<Rightarrow> string \<Rightarrow> int list \<Rightarrow> js_error + (int \<times> string) list" where
  "resolveSqlEvents num ans ts table ids =
     (let ps = table_tracks ts table in
      case traverse (unfiltered_match ans ids) (tracksWithNoFilter ps) of
        Inl e \<Rightarrow> Inl e
      | Inr ms \<Rightarrow>
          (case traverse (group_matches num ans ids) (filter_groups ps) of
             Inl e \<Rightarrow> Inl e
           | Inr ms' \<Rightarrow> Inr (concat ms @ concat ms')))"

definition selectSqlEvent ::
  "track_manager \<Rightarrow> string \<Rightarrow> int \<Rightarrow> selection_opts \<Rightarrow> selection_manager \<Rightarrow> selection_manager" where
  "selectSqlEvent tm table i opts m =
     m\<lparr>sql_lookups := sql_lookups m @
         [\<lparr>lu_table = table, lu_id = i, lu_opts = opts, lu_tracks = getAllTracks tm\<rparr>]\<rparr>"

text \<open>The \<open>i\<close>-th look-up has all its answers.\<close>

definition lookup_settle ::
  "(sql_lit \<Rightarrow> int option) \<Rightarrow> sql_answers \<Rightarrow> track_manager \<Rightarrow> nat \<Rightarrow> selection_manager \<Rightarrow> selection_manager option" where
  "lookup_settle num ans tm i m =
     (case nth_opt (sql_lookups m) i of
        None \<Rightarrow> None
      | Some l \<Rightarrow>
          (let m1 = m\<lparr>sql_lookups := remove_nth i (sql_lookups m)\<rparr>
           in case resolveSqlEvents num ans (lu_tracks l) (lu_table l) [lu_id l] of
                Inr ((ev, u) # _) \<Rightarrow> Some (selectTrackEvent tm u ev (lu_opts l) m1)
              | _ \<Rightarrow> Some m1))"

end
