(* ===== verification/Selection_Correct.thy ===== *)
theory Selection_Correct
  imports Selection_Manager
begin

text \<open>
  Properties of the selection: toggling the tracks of an area, which selection wins when details arrive late,
  and the tracks on which the events of a table are found.
\<close>

subsection \<open>Areas\<close>

lemma foldl_add_set:
  "set (foldl (\<lambda>acc t. if t \<notin> set acc then acc @ [t] else acc) uris us) = set uris \<union> set us"
  by (induction us arbitrary: uris) auto

lemma set_toggle_uris:
  "set (toggle_uris us uris) = (if set us \<subseteq> set uris then set uris - set us else set uris \<union> set us)"
  by (auto simp: toggle_uris_def foldl_add_set list_all_iff)

lemma resolve_tracks_spec:
  "tracks_ok tm \<Longrightarrow> set (resolve_tracks tm uris) = {t \<in> set (getAllTracks tm). track_uri t \<in> set uris}"
proof -
  assume ok: "tracks_ok tm"
  have "set (resolve_tracks tm uris) = {t. \<exists>u\<in>set uris. getTrack u tm = Some t}"
    by (force simp: resolve_tracks_def List.map_filter_def)
  also have "\<dots> = {t \<in> set (getAllTracks tm). track_uri t \<in> set uris}"
    using getTrack_uri [OF ok] getTrack_all [OF ok] by blast
  finally show ?thesis .
qed

text \<open>
  Toggling a group of tracks in an area selection takes them all out when all are in, and adds those that
  are missing otherwise; the area stays, its tracks are the registered ones among them, and toggling
  again goes back whenever the group was wholly in or wholly out.
\<close>

theorem toggle_group_in_area:
  assumes "selected m = AreaSelection a ts" and "area_start a \<le> area_end a" and "tracks_ok tm"
  shows "\<exists>a' ts' m'. toggleGroupAreaSelection tm nm us m = (None, m') \<and> selected m' = AreaSelection a' ts' \<and>
    area_start a' = area_start a \<and> area_end a' = area_end a \<and>
    set (area_trackUris a') =
      (if set us \<subseteq> set (area_trackUris a) then set (area_trackUris a) - set us
       else set (area_trackUris a) \<union> set us) \<and>
    set ts' = {t \<in> set (getAllTracks tm). track_uri t \<in> set (area_trackUris a')} \<and>
    changes m' = changes m @ [(selected m', no_opts)] \<and>
    (us \<noteq> [] \<and> (set us \<subseteq> set (area_trackUris a) \<or> set us \<inter> set (area_trackUris a) = {}) \<longrightarrow>
       (\<exists>a'' ts'' m''. toggleGroupAreaSelection tm nm us m' = (None, m'') \<and> selected m'' = AreaSelection a'' ts'' \<and>
          set (area_trackUris a'') = set (area_trackUris a)))"
proof -
  have one: "\<exists>m'. toggleGroupAreaSelection tm nm us m = (None, m') \<and>
      selected m' = AreaSelection (a\<lparr>area_trackUris := toggle_uris us (area_trackUris a)\<rparr>)
        (resolve_tracks tm (toggle_uris us (area_trackUris a))) \<and>
      changes m' = changes m @ [(selected m', no_opts)]"
    if "selected m = AreaSelection a ts" "area_start a \<le> area_end a" for m a ts
    using that by (simp add: toggleGroupAreaSelection_def toggle_area_def selectArea_def setSelection_def no_opts_def)
  from one [OF assms(1,2)] obtain m' where m': "toggleGroupAreaSelection tm nm us m = (None, m')"
      "selected m' = AreaSelection (a\<lparr>area_trackUris := toggle_uris us (area_trackUris a)\<rparr>)
        (resolve_tracks tm (toggle_uris us (area_trackUris a)))"
      "changes m' = changes m @ [(selected m', no_opts)]" by blast
  from one [OF m'(2)] assms(2) obtain m'' where m'': "toggleGroupAreaSelection tm nm us m' = (None, m'')"
      "selected m'' = AreaSelection (a\<lparr>area_trackUris := toggle_uris us (toggle_uris us (area_trackUris a))\<rparr>)
        (resolve_tracks tm (toggle_uris us (toggle_uris us (area_trackUris a))))" by auto
  have "set (toggle_uris us (toggle_uris us (area_trackUris a))) = set (area_trackUris a)"
    if p: "us \<noteq> []" "set us \<subseteq> set (area_trackUris a) \<or> set us \<inter> set (area_trackUris a) = {}"
  proof -
    obtain u where "u \<in> set us" using p(1) by (cases us) auto
    then show ?thesis using p(2) by (auto simp: set_toggle_uris)
  qed
  then show ?thesis
    using m' m'' resolve_tracks_spec [OF assms(3)]
    by (intro exI [of _ "a\<lparr>area_trackUris := toggle_uris us (area_trackUris a)\<rparr>"]
        exI [of _ "resolve_tracks tm (toggle_uris us (area_trackUris a))"] exI [of _ m'])
      (auto simp: set_toggle_uris)
qed

definition two_tracks :: track_manager where
  "two_tracks = new_track_manager\<lparr>tracks :=
     map (\<lambda>u. (u, \<lparr>track_uri = u, rootTableName = Some ''slice'', track_dataset = None, tag_trackIds = None,
       tag_cpu = None, tag_kinds = None, has_selection_details = True, has_details_panel = False\<rparr>))
     [''a'', ''b'']\<rparr>"

lemma two_tracks_ok: "tracks_ok two_tracks"
  by (simp add: tracks_ok_def two_tracks_def)

theorem toggle_group_in_area_witness:
  "\<exists>m'. toggleGroupAreaSelection two_tracks new_note_manager [''a'', ''b'']
      (new_selection_manager\<lparr>selected := AreaSelection \<lparr>area_start = 1, area_end = 9, area_trackUris = [''b'']\<rparr> []\<rparr>) =
    (None, m') \<and> selected m' \<noteq> EmptySelection"
proof -
  let ?a = "\<lparr>area_start = 1, area_end = 9, area_trackUris = [''b'']\<rparr>"
  have "selected (new_selection_manager\<lparr>selected := AreaSelection ?a []\<rparr>) = AreaSelection ?a []" by simp
  from toggle_group_in_area [OF this _ two_tracks_ok, of new_note_manager "[''a'', ''b'']"]
  obtain m' where "toggleGroupAreaSelection two_tracks new_note_manager [''a'', ''b'']
      (new_selection_manager\<lparr>selected := AreaSelection ?a []\<rparr>) = (None, m')" "\<exists>a' ts'. selected m' = AreaSelection a' ts'"
    by fastforce
  then show ?thesis by (intro exI [of _ m']) auto
qed

subsection \<open>Late details\<close>

text \<open>
  The selection is that of the operation that settled last, not of the one that was asked for last: of two
  events that were selected one after the other, the details of the second may arrive first, and then the
  first one takes its place; and it takes the place of anything the user selects meanwhile.
\<close>

lemma details_settle_selects:
  assumes "nth_opt (details_requests m) i = Some r" and "dr_opts r = no_opts"
  shows "\<exists>m'. details_settle parse tm nm i (Some (Some (ts, dur))) m = Some m' \<and>
    selected m' = TrackEventSelection (dr_trackUri r) (dr_eventId r) ts dur \<and>
    details_requests m' = remove_nth i (details_requests m) \<and>
    changes m' = changes m @ [(selected m', no_opts)]"
  using assms
  by (auto simp: details_settle_def createTrackEventDetailsPanel_def setSelection_def no_opts_def Let_def
      split: option.split)

definition plain_request :: "string \<Rightarrow> int \<Rightarrow> details_request" where
  "plain_request u i = \<lparr>dr_trackUri = u, dr_eventId = i, dr_opts = no_opts, dr_panelState = None, dr_modal = False\<rparr>"

lemma selectTrackEvent_pending:
  "getTrack u tm = Some t \<Longrightarrow> has_selection_details t \<Longrightarrow>
   selectTrackEvent tm u i no_opts m = m\<lparr>details_requests := details_requests m @ [plain_request u i]\<rparr>"
  by (simp add: selectTrackEvent_def selectTrackEventInternal_def plain_request_def)

text \<open>
  C17. The selection is not the last one asked for: when the details of an event arrive late, the event takes
  the place of a later selected event and of whatever the user has selected meanwhile.
\<close>

theorem late_details_win:
  assumes "getTrack u tm = Some t" "has_selection_details t" "getTrack v tm = Some t'" "has_selection_details t'"
    and "details_requests m = []"
  shows "\<exists>m1 m2 m3. details_settle parse tm nm 1 (Some (Some (ts2, d2)))
           (selectTrackEvent tm v j no_opts (selectTrackEvent tm u i no_opts m)) = Some m1 \<and>
    selected m1 = TrackEventSelection v j ts2 d2 \<and>
    selectTrack nm w no_opts m1 = (None, m2) \<and> selected m2 = TrackSelection w \<and>
    details_settle parse tm nm 0 (Some (Some (ts1, d1))) m2 = Some m3 \<and>
    selected m3 = TrackEventSelection u i ts1 d1 \<and> details_requests m3 = [] \<and>
    map fst (changes m3) = map fst (changes m) @
      [TrackEventSelection v j ts2 d2, TrackSelection w, TrackEventSelection u i ts1 d1]"
proof -
  let ?r = "plain_request u i" and ?r' = "plain_request v j"
  let ?m0 = "selectTrackEvent tm v j no_opts (selectTrackEvent tm u i no_opts m)"
  have m0: "details_requests ?m0 = [?r, ?r']" "changes ?m0 = changes m"
    using assms by (simp_all add: selectTrackEvent_pending)
  have "nth_opt (details_requests ?m0) 1 = Some ?r'" by (simp add: m0 nth_opt_def)
  from details_settle_selects [OF this, of parse tm nm ts2 d2] obtain m1 where m1:
    "details_settle parse tm nm 1 (Some (Some (ts2, d2))) ?m0 = Some m1" "selected m1 = TrackEventSelection v j ts2 d2"
    "details_requests m1 = [?r]" "changes m1 = changes m @ [(selected m1, no_opts)]"
    by (auto simp: m0 plain_request_def remove_nth_def)
  define m2 where "m2 = snd (selectTrack nm w no_opts m1)"
  have m2: "selectTrack nm w no_opts m1 = (None, m2)" "selected m2 = TrackSelection w" "details_requests m2 = [?r]"
    "changes m2 = changes m1 @ [(TrackSelection w, no_opts)]"
    using m1(3) by (simp_all add: m2_def selectTrack_def setSelection_def no_opts_def)
  have "nth_opt (details_requests m2) 0 = Some ?r" by (simp add: m2 nth_opt_def)
  from details_settle_selects [OF this, of parse tm nm ts1 d1] obtain m3 where
    "details_settle parse tm nm 0 (Some (Some (ts1, d1))) m2 = Some m3" "selected m3 = TrackEventSelection u i ts1 d1"
    "details_requests m3 = []" "changes m3 = changes m2 @ [(selected m3, no_opts)]"
    by (auto simp: m2 plain_request_def remove_nth_def)
  with m1 m2 show ?thesis by (intro exI [of _ m1] exI [of _ m2] exI [of _ m3]) simp
qed

theorem late_details_win_witness:
  "\<exists>m1 m2 m3. details_settle Some two_tracks new_note_manager 1 (Some (Some (50, None)))
      (selectTrackEvent two_tracks ''b'' 8 no_opts (selectTrackEvent two_tracks ''a'' 7 no_opts new_selection_manager)) = Some m1 \<and>
    selectTrack new_note_manager ''b'' no_opts m1 = (None, m2) \<and>
    details_settle Some two_tracks new_note_manager 0 (Some (Some (40, Some 3))) m2 = Some m3 \<and>
    selected m3 = TrackEventSelection ''a'' 7 40 (Some 3)"
proof -
  have a: "getTrack ''a'' two_tracks = Some (the (getTrack ''a'' two_tracks))"
    "has_selection_details (the (getTrack ''a'' two_tracks))"
    and b: "getTrack ''b'' two_tracks = Some (the (getTrack ''b'' two_tracks))"
    "has_selection_details (the (getTrack ''b'' two_tracks))"
    by (simp_all add: two_tracks_def getTrack_def registry_tryGet_def)
  have "details_requests new_selection_manager = []" by (simp add: new_selection_manager_def)
  from late_details_win [OF a b this, of Some new_note_manager 50 None 8 7 "''b''" 40 "Some 3"]
  show ?thesis by blast
qed

subsection \<open>Events of a table\<close>

definition track_lists :: "sql_lit \<Rightarrow> track \<times> nat \<times> source_dataset \<Rightarrow> bool" where
  "track_lists v p \<longleftrightarrow> (case sd_filter (snd (snd p)) of None \<Rightarrow> False | Some f \<Rightarrow> v \<in> set (snd (in_filter f)))"

text \<open>The track that stands for a value: the last one that lists it.\<close>

definition last_track :: "sql_lit \<Rightarrow> (track \<times> nat \<times> source_dataset) list \<Rightarrow> track option" where
  "last_track v ps = map_option fst (List.find (track_lists v) (rev ps))"

lemma find_SomeD: "List.find P xs = Some x \<Longrightarrow> x \<in> set xs \<and> P x"
  by (induction xs) (auto split: if_splits)

lemma map_filter_eqI: "(\<And>x. x \<in> set xs \<Longrightarrow> f x = g x) \<Longrightarrow> List.map_filter f xs = List.map_filter g xs"
proof (induction xs)
  case (Cons x xs)
  then have "f x = g x" "List.map_filter f xs = List.map_filter g xs" by simp_all
  then show ?case by (simp add: List.map_filter_simps split: option.split)
qed (simp add: List.map_filter_simps)

lemma fold_update_map_of:
  "map_of (foldl (\<lambda>m v. AList.update v u m) m vs) x = (if x \<in> set vs then Some u else map_of m x)"
  by (induction vs arbitrary: m) (auto simp: update_conv')

lemma value_tracks_snoc:
  "map_of (value_tracks (ps @ [p])) v = (if track_lists v p then Some (track_uri (fst p)) else map_of (value_tracks ps) v)"
  by (cases p) (auto simp: value_tracks_def track_lists_def fold_update_map_of split: option.split)

lemma value_tracks_spec: "map_of (value_tracks ps) v = map_option track_uri (last_track v ps)"
proof (induction ps rule: rev_induct)
  case Nil
  show ?case by (simp add: value_tracks_def last_track_def)
next
  case (snoc p ps)
  show ?case by (simp add: value_tracks_snoc snoc last_track_def)
qed

lemma filter_groups_one:
  assumes "\<forall>p\<in>set ps. filter_column (snd (snd p)) = Some c" and "ps \<noteq> []"
  shows "filter_groups ps = [(c, ps)]"
  using assms
proof (induction ps rule: rev_induct)
  case (snoc p ps)
  show ?case
  proof (cases "ps = []")
    case True
    with snoc.prems show ?thesis by (cases p) (simp add: filter_groups_def)
  next
    case False
    with snoc have "filter_groups ps = [(c, ps)]" by simp
    with snoc.prems show ?thesis by (cases p) (simp add: filter_groups_def)
  qed
qed simp

definition number_of :: "sql_lit \<Rightarrow> int" where
  "number_of v = (case v of LNum n \<Rightarrow> n | LBig n \<Rightarrow> n | _ \<Rightarrow> 0)"

definition safe_number :: "sql_lit \<Rightarrow> bool" where
  "safe_number v \<longleftrightarrow> (case v of LNum n \<Rightarrow> True | LBig n \<Rightarrow> \<bar>n\<bar> \<le> 2 ^ 53 | _ \<Rightarrow> False)"

lemma getTrackFromFilterValue_number:
  assumes "\<forall>p\<in>set ps. \<forall>v. track_lists v p \<longrightarrow> (\<exists>n. v = LNum n)" and "safe_number v"
  shows "getTrackFromFilterValue num (value_tracks ps) v = map_option track_uri (last_track (LNum (number_of v)) ps)"
proof (cases v)
  case (LBig n)
  have "List.find (track_lists (LBig n)) (rev ps) = None" using assms(1) by (auto simp: find_None_iff)
  then have "last_track (LBig n) ps = None" by (simp add: last_track_def)
  with LBig assms(2) show ?thesis
    by (simp add: getTrackFromFilterValue_def value_tracks_spec to_number_def safe_number_def number_of_def)
qed (use assms(2) in \<open>auto simp: safe_number_def getTrackFromFilterValue_def value_tracks_spec number_of_def
    split: option.split\<close>)

definition unique_tracks :: "(track \<times> nat \<times> source_dataset) list \<Rightarrow> bool" where
  "unique_tracks ps \<longleftrightarrow>
     (\<forall>n. \<forall>p\<in>set ps. \<forall>p'\<in>set ps. track_lists (LNum n) p \<and> track_lists (LNum n) p' \<longrightarrow> fst p = fst p')"

lemma last_track_in:
  assumes "last_track v ps = Some t" shows "\<exists>p\<in>set ps. t = fst p \<and> track_lists v p"
  using assms by (force simp: last_track_def dest!: find_SomeD)

lemma last_track_unique:
  assumes "unique_tracks ps"
  shows "last_track (LNum n) ps = Some t \<longleftrightarrow> (\<exists>p\<in>set ps. t = fst p \<and> track_lists (LNum n) p)"
proof
  assume "\<exists>p\<in>set ps. t = fst p \<and> track_lists (LNum n) p"
  then obtain p where p: "p \<in> set ps" "t = fst p" "track_lists (LNum n) p" by blast
  then have "last_track (LNum n) ps \<noteq> None"
    using p(1,3) unfolding last_track_def map_option_is_None find_None_iff set_rev by blast
  then obtain t' where t': "last_track (LNum n) ps = Some t'" by blast
  from last_track_in [OF t'] assms p have "t' = t" unfolding unique_tracks_def by blast
  with t' show "last_track (LNum n) ps = Some t" by simp
qed (use last_track_in in blast)

lemma matched_events:
  assumes "unique_tracks ps"
  shows "set (List.map_filter (\<lambda>(i, v). map_option (\<lambda>t. (i, track_uri t)) (last_track (LNum (number_of v)) ps)) rows) =
    {(i, track_uri (fst p)) |i p v. (i, v) \<in> set rows \<and> p \<in> set ps \<and> track_lists (LNum (number_of v)) p}"
    (is "set (List.map_filter ?g rows) = ?S")
proof -
  have one: "map_option (\<lambda>t. (i, track_uri t)) (last_track (LNum n) ps) = Some e \<longleftrightarrow>
      (\<exists>p\<in>set ps. track_lists (LNum n) p \<and> e = (i, track_uri (fst p)))" for i n e
    unfolding map_option_eq_Some last_track_unique [OF assms] by metis
  show ?thesis
  proof (intro set_eqI iffI)
    fix e
    assume "e \<in> set (List.map_filter ?g rows)"
    then obtain i v where iv: "(i, v) \<in> set rows"
        "map_option (\<lambda>t. (i, track_uri t)) (last_track (LNum (number_of v)) ps) = Some e"
      unfolding set_map_filter_iff by (auto simp del: map_option_eq_Some)
    from iv(2) obtain p where "p \<in> set ps" "track_lists (LNum (number_of v)) p" "e = (i, track_uri (fst p))"
      unfolding one by blast
    with iv(1) show "e \<in> ?S" by blast
  next
    fix e
    assume "e \<in> ?S"
    then obtain i p v where p: "e = (i, track_uri (fst p))" "(i, v) \<in> set rows" "p \<in> set ps"
        "track_lists (LNum (number_of v)) p" by blast
    then have "map_option (\<lambda>t. (i, track_uri t)) (last_track (LNum (number_of v)) ps) = Some e"
      unfolding one by blast
    then have "?g (i, v) = Some e" by (simp only: prod.case)
    with p(2) show "e \<in> set (List.map_filter ?g rows)" unfolding set_map_filter_iff by blast
  qed
qed

text \<open>
  When the tracks of a table are filtered by numbers of one column, every event that the query finds is
  matched with the last track that lists the value of its column, in the order of the rows; and so with
  the only such track, where the tracks list different values.
\<close>

text \<open>
  C36. Looking up events of a table: when its tracks are filtered by numbers of one column, each row is matched,
  in order, with the last track that lists the value of its column, rows of no track are dropped, and
  where the tracks list different values exactly the pairs of rows and tracks that accept them are found.
\<close>

theorem sql_events_on_tracks:
  assumes ps: "table_tracks ts table = ps" "ps \<noteq> []" "\<forall>p\<in>set ps. filter_column (snd (snd p)) = Some c"
    and numbers: "\<forall>p\<in>set ps. (\<forall>v. track_lists v p \<longrightarrow> (\<exists>n. v = LNum n)) \<and> track_uri (fst p) \<noteq> []"
    and rows: "\<forall>q. ans_rows ans q = Inr rows" "\<forall>(i, v)\<in>set rows. safe_number v"
    and ms: "resolveSqlEvents num ans ts table ids = Inr ms"
  shows "ms = List.map_filter (\<lambda>(i, v). map_option (\<lambda>t. (i, track_uri t)) (last_track (LNum (number_of v)) ps)) rows \<and>
    (unique_tracks ps \<longrightarrow>
      set ms = {(i, track_uri (fst p)) |i p v. (i, v) \<in> set rows \<and> p \<in> set ps \<and> track_lists (LNum (number_of v)) p})"
proof -
  have none: "tracksWithNoFilter ps = []" using ps(3) by (auto simp: tracksWithNoFilter_def filter_empty_conv)
  have one: "getTrackFromFilterValue num (value_tracks ps) v = map_option track_uri (last_track (LNum (number_of v)) ps)"
    if "(i, v) \<in> set rows" for i v
    by (rule getTrackFromFilterValue_number) (use numbers rows(2) that in auto)
  let ?f = "\<lambda>(i, v). case getTrackFromFilterValue num (value_tracks ps) v of
      Some u \<Rightarrow> if u = [] then None else Some (i, u) | None \<Rightarrow> None"
  let ?g = "\<lambda>(i, v). map_option (\<lambda>t. (i, track_uri t)) (last_track (LNum (number_of v)) ps)"
  have "?f x = ?g x" if "x \<in> set rows" for x
  proof (cases x)
    case (Pair i v)
    show ?thesis
    proof (cases "last_track (LNum (number_of v)) ps")
      case (Some t)
      then have "track_uri t \<noteq> []" using last_track_in [OF Some] numbers by auto
      with one [of i v] that Some show ?thesis by (simp add: Pair)
    qed (use one [of i v] that in \<open>simp add: Pair\<close>)
  qed
  then have "List.map_filter ?f rows = List.map_filter ?g rows"
    by (rule map_filter_eqI)
  moreover have "ms = List.map_filter ?f rows"
    using ms ps(1) rows(1) unfolding resolveSqlEvents_def none [folded ps(1)]
    by (auto simp: none filter_groups_one [OF ps(3,2)] group_matches_def Let_def split: sum.splits)
  ultimately have "ms = List.map_filter ?g rows" by simp
  then show ?thesis using matched_events [of ps rows] by blast
qed

definition slices_of :: "string \<Rightarrow> int list \<Rightarrow> track" where
  "slices_of u ns =
     \<lparr>track_uri = u, rootTableName = Some ''slice'',
      track_dataset = Some (1, \<lparr>sd_src = ''slice'', sd_schema = [(''id'', T_NUM)],
        sd_filter = Some (InFilter ''track_id'' (map LNum ns)), sd_select = None, sd_joins = None\<rparr>),
      tag_trackIds = None, tag_cpu = None, tag_kinds = None, has_selection_details = True, has_details_panel = False\<rparr>"

theorem sql_events_on_tracks_witness:
  "resolveSqlEvents (\<lambda>v. None) \<lparr>ans_ids = \<lambda>q. Inr [], ans_rows = \<lambda>q. Inr [(5, LNum 1), (6, LBig 3), (7, LNum 9)]\<rparr>
     [slices_of ''a'' [1, 2], slices_of ''b'' [3]] ''slice'' [5, 6, 7] = Inr [(5, ''a''), (6, ''b'')]"
proof -
  let ?ts = "[slices_of ''a'' [1, 2], slices_of ''b'' [3]]"
  let ?rows = "[(5, LNum 1), (6, LBig 3), (7, LNum 9)]"
  let ?ans = "\<lparr>ans_ids = \<lambda>q. Inr [], ans_rows = \<lambda>q. Inr ?rows\<rparr>"
  let ?ps = "map (\<lambda>t. (t, fst (the (track_dataset t)), snd (the (track_dataset t)))) ?ts"
  have ps: "table_tracks ?ts ''slice'' = ?ps" "?ps \<noteq> []" "\<forall>p\<in>set ?ps. filter_column (snd (snd p)) = Some ''track_id''"
    by (simp_all add: table_tracks_def slices_of_def dataset_implements_def checkExtends_def filter_column_def
        List.map_filter_simps)
  have numbers: "\<forall>p\<in>set ?ps. (\<forall>v. track_lists v p \<longrightarrow> (\<exists>n. v = LNum n)) \<and> track_uri (fst p) \<noteq> []"
    by (simp add: slices_of_def track_lists_def)
  have rows: "\<forall>q. ans_rows ?ans q = Inr ?rows" "\<forall>(i, v)\<in>set ?rows. safe_number v"
    by (simp_all add: safe_number_def)
  have "\<not> isl (resolveSqlEvents (\<lambda>v. None) ?ans ?ts ''slice'' [5, 6, 7])" by code_simp
  then obtain ms where ms: "resolveSqlEvents (\<lambda>v. None) ?ans ?ts ''slice'' [5, 6, 7] = Inr ms"
    by (cases "resolveSqlEvents (\<lambda>v. None) ?ans ?ts ''slice'' [5, 6, 7]") auto
  from sql_events_on_tracks [OF ps numbers rows ms] ms show ?thesis
    by (simp add: slices_of_def track_lists_def last_track_def number_of_def List.map_filter_simps)
qed

text \<open>
  An unfiltered track gives at most one event: of all the events that its query finds only the first is
  matched, although \<open>resolveSqlEvents\<close> is asked for a list of ids.
\<close>

theorem unfiltered_track_one_event:
  assumes "table_tracks ts table = [(t, r, sd)]" and "filter_column sd = None"
    and "\<forall>q. ans_ids ans q = Inr (i # is)" and "source_query sd None = Inr q"
  shows "resolveSqlEvents num ans ts table ids = Inr [(i, track_uri t)]"
  using assms by (simp add: resolveSqlEvents_def tracksWithNoFilter_def filter_groups_def unfiltered_match_def Let_def)

definition slices_track :: track where
  "slices_track =
     \<lparr>track_uri = ''all'', rootTableName = Some ''slice'',
      track_dataset = Some (1, \<lparr>sd_src = ''slice'', sd_schema = [(''id'', T_NUM)], sd_filter = None,
        sd_select = None, sd_joins = None\<rparr>),
      tag_trackIds = None, tag_cpu = None, tag_kinds = None, has_selection_details = True, has_details_panel = False\<rparr>"

theorem unfiltered_track_one_event_witness:
  "resolveSqlEvents (\<lambda>v. None) \<lparr>ans_ids = \<lambda>q. Inr [5, 6, 7], ans_rows = \<lambda>q. Inr []\<rparr> [slices_track] ''slice'' [5, 6, 7] =
     Inr [(5, ''all'')]"
proof -
  let ?sd = "snd (the (track_dataset slices_track))"
  have "table_tracks [slices_track] ''slice'' = [(slices_track, 1, ?sd)]" "filter_column ?sd = None"
    by (simp_all add: table_tracks_def slices_track_def dataset_implements_def checkExtends_def filter_column_def
        List.map_filter_simps)
  moreover have "\<not> isl (source_query ?sd None)" by code_simp
  then obtain q where "source_query ?sd None = Inr q" by (cases "source_query ?sd None") auto
  ultimately show ?thesis
    using unfiltered_track_one_event [of "[slices_track]" "''slice''" slices_track 1 ?sd
        "\<lparr>ans_ids = \<lambda>q. Inr [5, 6, 7], ans_rows = \<lambda>q. Inr []\<rparr>" 5 "[6, 7]" q]
    by (simp add: slices_track_def)
qed

subsection \<open>Notes\<close>

text \<open>
  A note without an id gets one from the counter, which knows nothing of the ids that were given: it replaces
  the note of a permalink that has the same one.
\<close>

theorem new_note_replaces_restored:
  assumes "i = ''note_'' @ show_nat (Suc (lastNodeId m))"
  shows "let m1 = snd (addNote c k (Some col) (Some txt) (Some i) m); (i', m2) = addNote c' k' None None None m1
    in getNote i m1 = Some \<lparr>note_kind = k, note_color = col, note_text = txt\<rparr> \<and> i' = i \<and>
       getNote i m2 = Some \<lparr>note_kind = k', note_color = c', note_text = []\<rparr> \<and>
       fst ` set (nm_notes m2) = fst ` set (nm_notes m1)"
  by (simp add: addNote_def getNote_def Let_def update_conv' dom_map_of_conv_image_fst [symmetric] assms)

theorem new_note_replaces_restored_witness:
  "getNote ''note_1'' (snd (addNote ''red'' (SpanNote 5 6) None None None
     (snd (addNote ''red'' (DefaultNote 1) (Some ''blue'') (Some ''start'') (Some ''note_1'') new_note_manager)))) =
   Some \<lparr>note_kind = SpanNote 5 6, note_color = ''red'', note_text = []\<rparr>"
proof -
  have "''note_1'' = ''note_'' @ show_nat (Suc (lastNodeId new_note_manager))" by code_simp
  from new_note_replaces_restored [OF this, of "''red''" "DefaultNote 1" "''blue''" "''start''" "''red''" "SpanNote 5 6"]
  show ?thesis by (simp add: Let_def split_beta)
qed

end
