(* ===== verification/Pivot_Tree.thy ===== *)
theory Pivot_Tree
  imports Dataset
begin

text \<open>
  The tree of a pivot table: \<^verbatim>\<open>pivot_tree_node.ts\<close>, \<^verbatim>\<open>aggregations.ts\<close> and \<^verbatim>\<open>ids.ts\<close> of
  \<^verbatim>\<open>ui/src/components/widgets/sql/pivot_table\<close>. Rows that SQLite has grouped by all pivots are put into a
  tree with one level per pivot, whose nodes combine the aggregates of the rows below them.

  A column is its id (\<open>sqlColumnId\<close>). A row is an object with a value, or \<open>undefined\<close>, for every id it is
  asked for. Numbers are integers without rounding, a blob is the reference to its object. A node is known by
  its path, the pivot values from the root; its depth is the length of the path and its parent the node at the
  path without the last value.
\<close>

datatype pivot_value = Undefined | PNull | PNum int | PBig int | PStr string | PBlob nat

fun as_value :: "sql_lit \<Rightarrow> pivot_value" where
  "as_value LNull = PNull"
| "as_value (LNum n) = PNum n"
| "as_value (LBig n) = PBig n"
| "as_value (LStr s) = PStr s"
| "as_value (LBlob b) = PBlob b"

lemma as_value_defined [simp]: "as_value v \<noteq> Undefined"
  by (cases v) simp_all

subsection \<open>Aggregations\<close>

datatype basic_op = OpSum | OpCount | OpMin | OpMax

type_synonym basic_aggregation = "basic_op \<times> string"

datatype aggregation = Average string | Basic basic_op string

fun op_name :: "basic_op \<Rightarrow> string" where
  "op_name OpSum = ''sum''"
| "op_name OpCount = ''count''"
| "op_name OpMin = ''min''"
| "op_name OpMax = ''max''"

definition basic_id :: "basic_aggregation \<Rightarrow> string" where
  "basic_id a = op_name (fst a) @ ''('' @ snd a @ '')''"

fun aggregationId :: "aggregation \<Rightarrow> string" where
  "aggregationId (Average c) = ''average('' @ c @ '')''"
| "aggregationId (Basic op c) = basic_id (op, c)"

definition aggregationLabel :: "aggregation \<Rightarrow> string" where
  "aggregationLabel a = (let i = aggregationId a in if i = ''count(1)'' then ''count'' else i)"

definition expandAggregations :: "aggregation list \<Rightarrow> basic_aggregation list" where
  "expandAggregations aggs =
     concat (map (\<lambda>a. case a of Average c \<Rightarrow> [(OpSum, c), (OpCount, c)] | Basic op c \<Rightarrow> [(op, c)]) aggs)"

text \<open>
  \<open>a < b\<close> of JavaScript: strings by code units, numbers and \<open>bigint\<close>s by value. The coercions that it makes on a
  string and a number, or on a blob, are an argument.
\<close>

type_synonym coerced_less = "pivot_value \<Rightarrow> pivot_value \<Rightarrow> bool"

fun js_less :: "coerced_less \<Rightarrow> pivot_value \<Rightarrow> pivot_value \<Rightarrow> bool" where
  "js_less oth (PStr a) (PStr b) = (a < b)"
| "js_less oth (PNum a) (PNum b) = (a < b)"
| "js_less oth (PNum a) (PBig b) = (a < b)"
| "js_less oth (PBig a) (PNum b) = (a < b)"
| "js_less oth (PBig a) (PBig b) = (a < b)"
| "js_less oth Undefined b = False"
| "js_less oth a Undefined = False"
| "js_less oth a b = oth a b"

fun add_values :: "pivot_value \<Rightarrow> pivot_value \<Rightarrow> pivot_value" where
  "add_values PNull b = b"
| "add_values a PNull = a"
| "add_values (PNum a) (PNum b) = PNum (a + b)"
| "add_values (PBig a) (PBig b) = PBig (a + b)"
| "add_values a b = PNull"

definition basicAggregation :: "coerced_less \<Rightarrow> basic_op \<Rightarrow> pivot_value \<Rightarrow> pivot_value \<Rightarrow> pivot_value" where
  "basicAggregation oth op a b =
     (case op of
        OpSum \<Rightarrow> add_values a b
      | OpCount \<Rightarrow> add_values a b
      | OpMin \<Rightarrow> if a = PNull then b else if b = PNull then a else if js_less oth b a then b else a
      | OpMax \<Rightarrow> if a = PNull then b else if b = PNull then a else if js_less oth a b then b else a)"

text \<open>The value to show; an average is a fraction, whose denominator is positive.\<close>

datatype agg_value = Value pivot_value | Ratio int int

fun sqlValueAsNumber :: "pivot_value \<Rightarrow> int option" where
  "sqlValueAsNumber (PNum n) = Some n"
| "sqlValueAsNumber (PBig n) = Some n"
| "sqlValueAsNumber _ = None"

fun getAggregationValue :: "aggregation \<Rightarrow> (string \<Rightarrow> pivot_value) \<Rightarrow> agg_value" where
  "getAggregationValue (Basic op c) row = Value (row (basic_id (op, c)))"
| "getAggregationValue (Average c) row =
     (case (sqlValueAsNumber (row (basic_id (OpSum, c))), sqlValueAsNumber (row (basic_id (OpCount, c)))) of
        (Some s, Some n) \<Rightarrow> Ratio s n
      | _ \<Rightarrow> Value PNull)"

subsection \<open>The tree\<close>

record pivot_config =
  cfg_pivots :: "string list"
  cfg_aggregations :: "aggregation list"
  cfg_basic :: "basic_aggregation list"

type_synonym agg_object = "(string \<times> pivot_value) list"

datatype pivot_tree =
  Node (aggregationValuesSelf: agg_object) (aggregationValues: agg_object) (collapsed: bool)
    (kids: "(pivot_value \<times> pivot_tree) list")

definition agg_get :: "agg_object \<Rightarrow> string \<Rightarrow> pivot_value" where
  "agg_get obj i = (case map_of obj i of None \<Rightarrow> Undefined | Some v \<Rightarrow> v)"

definition new_pivot_node :: "pivot_config \<Rightarrow> nat \<Rightarrow> pivot_tree" where
  "new_pivot_node cfg depth =
     (let nulls = assign [] (map (\<lambda>a. (basic_id a, PNull)) (cfg_basic cfg)) in Node nulls nulls (0 < depth) [])"

text \<open>
  One pass over the basic aggregations, which combines the values of \<open>cur\<close> with those of \<open>other\<close>; \<open>lhs\<close> is what
  is done to the value before, nothing for a row and \<open>?? null\<close> for a child.
\<close>

definition nullish :: "pivot_value \<Rightarrow> pivot_value" where
  "nullish v = (if v = Undefined then PNull else v)"

definition apply_aggs ::
  "coerced_less \<Rightarrow> basic_aggregation list \<Rightarrow> (pivot_value \<Rightarrow> pivot_value) \<Rightarrow> agg_object \<Rightarrow>
     (string \<Rightarrow> pivot_value) \<Rightarrow> agg_object" where
  "apply_aggs oth basics lhs cur other =
     foldl (\<lambda>acc a. AList.update (basic_id a)
       (basicAggregation oth (fst a) (lhs (agg_get acc (basic_id a))) (other (basic_id a))) acc) cur basics"

text \<open>\<open>getOrCreateChild\<close> and what is then done to the child.\<close>

fun with_child ::
  "pivot_value \<Rightarrow> pivot_tree \<Rightarrow> (pivot_tree \<Rightarrow> pivot_tree) \<Rightarrow> (pivot_value \<times> pivot_tree) list \<Rightarrow> (pivot_value \<times> pivot_tree) list" where
  "with_child v fresh f [] = [(v, f fresh)]"
| "with_child v fresh f (c # cs) = (if fst c = v then (v, f (snd c)) # cs else c # with_child v fresh f cs)"

text \<open>The walk down the pivots of a row, which ends by aggregating the row at the node it reaches.\<close>

fun add_row ::
  "coerced_less \<Rightarrow> pivot_config \<Rightarrow> (string \<Rightarrow> pivot_value) \<Rightarrow> nat \<Rightarrow> string list \<Rightarrow> pivot_tree \<Rightarrow> pivot_tree" where
  "add_row oth cfg row depth [] (Node self agg c ks) = Node (apply_aggs oth (cfg_basic cfg) id self row) agg c ks"
| "add_row oth cfg row depth (p # ps) (Node self agg c ks) =
     Node self agg c (with_child (row p) (new_pivot_node cfg (Suc depth)) (add_row oth cfg row (Suc depth) ps) ks)"

fun update_tree :: "coerced_less \<Rightarrow> pivot_config \<Rightarrow> pivot_tree \<Rightarrow> pivot_tree" where
  "update_tree oth cfg (Node self agg c ks) =
     (let ks' = map (\<lambda>(v, t). (v, update_tree oth cfg t)) ks
      in Node self
           (foldl (\<lambda>acc t. apply_aggs oth (cfg_basic cfg) nullish acc (agg_get (aggregationValues t))) self (map snd ks'))
           c ks')"

definition pivot_config_of :: "string list \<Rightarrow> aggregation list \<Rightarrow> pivot_config" where
  "pivot_config_of pivots aggs =
     \<lparr>cfg_pivots = pivots, cfg_aggregations = aggs, cfg_basic = expandAggregations aggs\<rparr>"

definition buildTree ::
  "coerced_less \<Rightarrow> (string \<Rightarrow> pivot_value) list \<Rightarrow> string list \<Rightarrow> aggregation list \<Rightarrow> pivot_tree" where
  "buildTree oth rows pivots aggs =
     (let cfg = pivot_config_of pivots aggs
      in update_tree oth cfg
           (foldl (\<lambda>t row. add_row oth cfg row 0 pivots t) (new_pivot_node cfg 0) rows))"

subsection \<open>Nodes\<close>

fun node_at :: "pivot_tree \<Rightarrow> pivot_value list \<Rightarrow> pivot_tree option" where
  "node_at t [] = Some t"
| "node_at t (v # vs) = (case map_of (kids t) v of None \<Rightarrow> None | Some u \<Rightarrow> node_at u vs)"

text \<open>\<open>getPivotIndex\<close> of a node is its depth less one, so \<open>index > getPivotIndex()\<close> is \<open>depth \<le> index\<close>.\<close>

definition getPivotValue :: "pivot_value list \<Rightarrow> nat \<Rightarrow> pivot_value option" where
  "getPivotValue path index = nth_opt path index"

datatype display_status =
  Expanded | Collapsed | LastPivot | PivotedValue | AutoExpanded | HiddenBehindCollapsed | EmptyCell

definition getPivotDisplayStatus :: "pivot_config \<Rightarrow> pivot_tree \<Rightarrow> pivot_value list \<Rightarrow> nat \<Rightarrow> display_status" where
  "getPivotDisplayStatus cfg root path pivotIndex =
     (let this = the (node_at root path) in
      if Suc pivotIndex = length path then
        (if Suc pivotIndex = length (cfg_pivots cfg) then LastPivot
         else if collapsed this then Collapsed else Expanded)
      else if length path \<le> pivotIndex then
        (if collapsed this then HiddenBehindCollapsed else EmptyCell)
      else if list_all (\<lambda>i. length (kids (the (node_at root (take i path)))) = 1) [Suc pivotIndex..<length path]
      then AutoExpanded else PivotedValue)"

text \<open>\<open>listDescendants\<close>: the paths of the nodes it yields, in order.\<close>

fun listDescendants :: "pivot_value list \<Rightarrow> pivot_tree \<Rightarrow> pivot_value list list" where
  "listDescendants path (Node self agg c ks) =
     (let below = concat (map (\<lambda>(v, t). listDescendants (path @ [v]) t) ks)
      in if length ks \<noteq> 1 then path # (if c then [] else below) else below)"

text \<open>
  \<open>getFilters\<close>: the columns and values that the rows of the node have. \<open>getFilter\<close> asserts that a value is
  defined.
\<close>

definition getFilters :: "pivot_config \<Rightarrow> pivot_value list \<Rightarrow> js_error + (string \<times> pivot_value) list" where
  "getFilters cfg path = (if Undefined \<in> set path then Inl AssertionFailed else Inr (zip (cfg_pivots cfg) path))"

text \<open>\<open>getPivotId\<close>: the pivot that made a node of this depth, \<open>undefined\<close> at the root.\<close>

definition getPivotId :: "string list \<Rightarrow> nat \<Rightarrow> string option" where
  "getPivotId pivots depth = (if depth = 0 then None else nth_opt pivots (depth - 1))"

fun copyExpandedState :: "string list \<Rightarrow> string list \<Rightarrow> nat \<Rightarrow> pivot_tree \<Rightarrow> pivot_tree option \<Rightarrow> pivot_tree" where
  "copyExpandedState pivots oldPivots depth (Node self agg c ks) oldNode =
     (case oldNode of
        None \<Rightarrow> Node self agg c ks
      | Some old \<Rightarrow>
          if getPivotId pivots depth \<noteq> getPivotId oldPivots depth then Node self agg c ks
          else
            Node self agg (collapsed old)
              (map (\<lambda>(v, t). (v, copyExpandedState pivots oldPivots (Suc depth) t (map_of (kids old) v))) ks))"

subsection \<open>Sorting\<close>

datatype sort_direction = ASC | DESC

datatype sort_item = SortPivot string sort_direction | SortAggregation string sort_direction

fun value_eq :: "agg_value \<Rightarrow> agg_value \<Rightarrow> bool" where
  "value_eq (Ratio a b) (Ratio c d) = (a * d = c * b)"
| "value_eq v w = (v = w)"

fun value_less :: "coerced_less \<Rightarrow> agg_value \<Rightarrow> agg_value \<Rightarrow> bool" where
  "value_less oth (Ratio a b) (Ratio c d) = (a * d < c * b)"
| "value_less oth (Value a) (Value b) = js_less oth a b"
| "value_less oth _ _ = False"

definition compareSqlValues :: "coerced_less \<Rightarrow> agg_value \<Rightarrow> agg_value \<Rightarrow> int" where
  "compareSqlValues oth lhs rhs =
     (if value_eq lhs rhs then 0
      else if lhs = Value PNull then - 1
      else if rhs = Value PNull then 1
      else if value_less oth lhs rhs then - 1 else 1)"

definition directed :: "sort_direction \<Rightarrow> int \<Rightarrow> int" where
  "directed dir cmp = (case dir of ASC \<Rightarrow> cmp | DESC \<Rightarrow> - cmp)"

text \<open>\<open>compare\<close> of two siblings of the given depth, which are a pivot value and a node each.\<close>

fun compare_nodes ::
  "coerced_less \<Rightarrow> pivot_config \<Rightarrow> nat \<Rightarrow> sort_item list \<Rightarrow> pivot_value \<times> pivot_tree \<Rightarrow> pivot_value \<times> pivot_tree \<Rightarrow>
     js_error + int" where
  "compare_nodes oth cfg depth [] lhs rhs = Inr 0"
| "compare_nodes oth cfg depth (SortAggregation i dir # order) lhs rhs =
     (case find (\<lambda>a. aggregationId a = i) (cfg_aggregations cfg) of
        None \<Rightarrow> Inl AssertionFailed
      | Some a \<Rightarrow>
          (let cmp = compareSqlValues oth (getAggregationValue a (agg_get (aggregationValues (snd lhs))))
                 (getAggregationValue a (agg_get (aggregationValues (snd rhs))))
           in if cmp \<noteq> 0 then Inr (directed dir cmp) else compare_nodes oth cfg depth order lhs rhs))"
| "compare_nodes oth cfg depth (SortPivot i dir # order) lhs rhs =
     (case find (\<lambda>n. cfg_pivots cfg ! n = i) [0..<length (cfg_pivots cfg)] of
        None \<Rightarrow> Inl AssertionFailed
      | Some index \<Rightarrow>
          if Suc index \<noteq> depth then compare_nodes oth cfg depth order lhs rhs
          else if fst lhs = Undefined \<or> fst rhs = Undefined then Inl AssertionFailed
          else
            (let cmp = compareSqlValues oth (Value (fst lhs)) (Value (fst rhs))
             in if cmp \<noteq> 0 then Inr (directed dir cmp) else compare_nodes oth cfg depth order lhs rhs))"

text \<open>
  \<open>Array.prototype.sort\<close> is stable, and for a comparison that is a total preorder the result does not
  depend on the algorithm: insertion after the elements that are not greater.
\<close>

fun insert_sorted :: "('a \<Rightarrow> 'a \<Rightarrow> js_error + int) \<Rightarrow> 'a \<Rightarrow> 'a list \<Rightarrow> js_error + 'a list" where
  "insert_sorted cmp x [] = Inr [x]"
| "insert_sorted cmp x (y # ys) =
     (case cmp y x of Inl e \<Rightarrow> Inl e
      | Inr c \<Rightarrow> if 0 < c then Inr (x # y # ys)
                 else (case insert_sorted cmp x ys of Inl e \<Rightarrow> Inl e | Inr zs \<Rightarrow> Inr (y # zs)))"

fun sort_from :: "('a \<Rightarrow> 'a \<Rightarrow> js_error + int) \<Rightarrow> 'a list \<Rightarrow> 'a list \<Rightarrow> js_error + 'a list" where
  "sort_from cmp acc [] = Inr acc"
| "sort_from cmp acc (x # xs) =
     (case insert_sorted cmp x acc of Inl e \<Rightarrow> Inl e | Inr acc' \<Rightarrow> sort_from cmp acc' xs)"

text \<open>
  \<open>sort\<close> asserts that the pivot value of a child is defined when it puts it back. A throw ends the sort; what it
  leaves of the tree is not modelled.
\<close>

lemma kid_size: "(v, t) \<in> set ks \<Longrightarrow> size t < size (Node self agg c ks)"
  by (induction ks) auto

function sort_tree :: "coerced_less \<Rightarrow> pivot_config \<Rightarrow> nat \<Rightarrow> sort_item list \<Rightarrow> pivot_tree \<Rightarrow> js_error + pivot_tree" where
  "sort_tree oth cfg depth order (Node self agg c ks) =
     (if order = [] then Inr (Node self agg c ks)
      else
        (case traverse (\<lambda>(v, t). map_sum id (Pair v) (sort_tree oth cfg (Suc depth) order t)) ks of
           Inl e \<Rightarrow> Inl e
         | Inr ks' \<Rightarrow>
             (case sort_from (compare_nodes oth cfg (Suc depth) order) [] ks' of
                Inl e \<Rightarrow> Inl e
              | Inr ordered \<Rightarrow>
                  if Undefined \<in> fst ` set ordered then Inl AssertionFailed
                  else Inr (Node self agg c ordered))))"
  by pat_completeness auto
termination
  by (relation "measure (\<lambda>(oth, cfg, depth, order, t). size t)") (auto dest: kid_size)

declare sort_tree.simps [simp del]

end
