(* ===== verification/Pivot_Tree_Correct.thy ===== *)
theory Pivot_Tree_Correct
  imports Pivot_Tree
begin

text \<open>
  What the nodes of a pivot tree show: the aggregates of the rows that satisfy the filters of the node.
  The tree is compared with the filtered rows level by level, for any operation that combines
  values like a commutative monoid; a column that is aggregated more than once in the same way is
  counted too often.
\<close>

subsection \<open>The shape of the tree\<close>

lemma with_child_map_of:
  "map_of (with_child v fresh f ks) w =
     (if w = v then Some (f (case map_of ks v of None \<Rightarrow> fresh | Some t \<Rightarrow> t)) else map_of ks w)"
  by (induction ks) auto

lemma with_child_keys: "fst ` set (with_child v fresh f ks) = insert v (fst ` set ks)"
  by (induction ks) auto

lemma with_child_distinct: "distinct (map fst ks) \<Longrightarrow> distinct (map fst (with_child v fresh f ks))"
  by (induction ks) (auto simp: with_child_keys)

definition grow ::
  "coerced_less \<Rightarrow> pivot_config \<Rightarrow> nat \<Rightarrow> string list \<Rightarrow> (string \<Rightarrow> pivot_value) list \<Rightarrow> pivot_tree \<Rightarrow> pivot_tree" where
  "grow oth cfg d ps rows t = foldl (\<lambda>t row. add_row oth cfg row d ps t) t rows"

lemma grow_simps [simp]:
  "grow oth cfg d ps [] t = t"
  "grow oth cfg d ps (row # rows) t = grow oth cfg d ps rows (add_row oth cfg row d ps t)"
  by (simp_all add: grow_def)

lemma grow_leaf:
  "grow oth cfg d [] rows (Node s a c ks) =
     Node (foldl (\<lambda>s row. apply_aggs oth (cfg_basic cfg) id s row) s rows) a c ks"
  by (induction rows arbitrary: s) simp_all

text \<open>The children of an inner node split the rows by the pivot of their level.\<close>

lemma grow_inner:
  assumes "distinct (map fst ks)"
  shows "\<exists>ks'. grow oth cfg d (p # ps) rows (Node s a c ks) = Node s a c ks' \<and> distinct (map fst ks') \<and>
    (\<forall>v. map_of ks' v =
      (if map_of ks v = None \<and> filter (\<lambda>r. r p = v) rows = [] then None
       else Some (grow oth cfg (Suc d) ps (filter (\<lambda>r. r p = v) rows)
         (case map_of ks v of None \<Rightarrow> new_pivot_node cfg (Suc d) | Some t \<Rightarrow> t))))"
  using assms
proof (induction rows arbitrary: ks)
  case Nil
  show ?case by (rule exI [of _ ks]) (use Nil in \<open>auto split: option.split\<close>)
next
  case (Cons row rows)
  let ?ks = "with_child (row p) (new_pivot_node cfg (Suc d)) (add_row oth cfg row (Suc d) ps) ks"
  from Cons.IH [OF with_child_distinct [OF Cons.prems], of "row p" "new_pivot_node cfg (Suc d)"
      "add_row oth cfg row (Suc d) ps"]
  obtain ks' where "grow oth cfg d (p # ps) rows (Node s a c ?ks) = Node s a c ks'" "distinct (map fst ks')" and
    get: "\<forall>v. map_of ks' v = (if map_of ?ks v = None \<and> filter (\<lambda>r. r p = v) rows = [] then None
       else Some (grow oth cfg (Suc d) ps (filter (\<lambda>r. r p = v) rows)
         (case map_of ?ks v of None \<Rightarrow> new_pivot_node cfg (Suc d) | Some t \<Rightarrow> t)))"
    by blast
  moreover have "map_of ks' v =
      (if map_of ks v = None \<and> filter (\<lambda>r. r p = v) (row # rows) = [] then None
       else Some (grow oth cfg (Suc d) ps (filter (\<lambda>r. r p = v) (row # rows))
         (case map_of ks v of None \<Rightarrow> new_pivot_node cfg (Suc d) | Some t \<Rightarrow> t)))" for v
    using get by (auto simp: with_child_map_of)
  ultimately show ?case by auto
qed

text \<open>The tree that rows make below a fresh node.\<close>

definition fresh_tree ::
  "coerced_less \<Rightarrow> pivot_config \<Rightarrow> nat \<Rightarrow> string list \<Rightarrow> (string \<Rightarrow> pivot_value) list \<Rightarrow> pivot_tree" where
  "fresh_tree oth cfg d ps rows = grow oth cfg d ps rows (new_pivot_node cfg d)"

definition null_aggs :: "pivot_config \<Rightarrow> agg_object" where
  "null_aggs cfg = assign [] (map (\<lambda>a. (basic_id a, PNull)) (cfg_basic cfg))"

lemma fresh_tree_leaf:
  "fresh_tree oth cfg d [] rows =
     Node (foldl (\<lambda>s row. apply_aggs oth (cfg_basic cfg) id s row) (null_aggs cfg) rows) (null_aggs cfg) (0 < d) []"
  by (simp add: fresh_tree_def new_pivot_node_def Let_def grow_leaf null_aggs_def)

lemma fresh_tree_inner:
  "\<exists>ks. fresh_tree oth cfg d (p # ps) rows = Node (null_aggs cfg) (null_aggs cfg) (0 < d) ks \<and>
     distinct (map fst ks) \<and>
     (\<forall>v. map_of ks v = (if filter (\<lambda>r. r p = v) rows = [] then None
        else Some (fresh_tree oth cfg (Suc d) ps (filter (\<lambda>r. r p = v) rows))))"
  using grow_inner [of "[]" oth cfg d p ps rows "null_aggs cfg" "null_aggs cfg" "0 < d"]
  by (auto simp: fresh_tree_def new_pivot_node_def Let_def null_aggs_def)

lemma null_aggs_get:
  assumes "a \<in> set (cfg_basic cfg)"
  shows "agg_get (null_aggs cfg) (basic_id a) = PNull"
proof -
  have "map_of (assign acc (map (\<lambda>a. (basic_id a, PNull)) as)) i =
      (if i \<in> basic_id ` set as then Some PNull else map_of acc i)" for acc as i
  proof (induction as arbitrary: acc)
    case (Cons b as)
    then show ?case by (auto simp: assign_def update_conv')
  qed (simp add: assign_def)
  with assms show ?thesis by (simp add: agg_get_def null_aggs_def)
qed

subsection \<open>One pass of the aggregations\<close>

lemma basic_id_inj: "basic_id a = basic_id b \<longleftrightarrow> a = b"
  by (cases "fst a"; cases "fst b"; cases a; cases b) (auto simp: basic_id_def)

lemma agg_get_update: "agg_get (AList.update i v obj) j = (if j = i then v else agg_get obj j)"
  by (simp add: agg_get_def update_conv')

text \<open>An aggregation that is listed \<open>k\<close> times is applied \<open>k\<close> times.\<close>

lemma apply_aggs_get:
  "agg_get (apply_aggs oth basics lhs cur other) (basic_id a) =
     ((\<lambda>x. basicAggregation oth (fst a) (lhs x) (other (basic_id a))) ^^ count_list basics a) (agg_get cur (basic_id a))"
proof (induction basics arbitrary: cur)
  case (Cons b basics)
  let ?f = "\<lambda>x. basicAggregation oth (fst a) (lhs x) (other (basic_id a))"
  from Cons show ?case
    using funpow_swap1 [of ?f "count_list basics a" "agg_get cur (basic_id a)"]
    by (cases "b = a") (auto simp: apply_aggs_def agg_get_update basic_id_inj)
qed (simp add: apply_aggs_def)

text \<open>
  An operation that combines the values of a set \<open>K\<close> like a commutative monoid with \<open>null\<close> as its
  unit; \<open>sc k v\<close> is what combining with \<open>v\<close> \<open>k\<close> times amounts to.
\<close>

locale pivot_operation =
  fixes f :: "pivot_value \<Rightarrow> pivot_value \<Rightarrow> pivot_value" and K :: "pivot_value set" and sc :: "nat \<Rightarrow> pivot_value \<Rightarrow> pivot_value"
  assumes unit_K: "PNull \<in> K"
    and defined: "Undefined \<notin> K"
    and closed: "a \<in> K \<Longrightarrow> b \<in> K \<Longrightarrow> f a b \<in> K"
    and assoc: "a \<in> K \<Longrightarrow> b \<in> K \<Longrightarrow> c \<in> K \<Longrightarrow> f (f a b) c = f a (f b c)"
    and comm: "a \<in> K \<Longrightarrow> b \<in> K \<Longrightarrow> f a b = f b a"
    and unit: "a \<in> K \<Longrightarrow> f PNull a = a"
    and sc_closed: "a \<in> K \<Longrightarrow> sc k a \<in> K"
    and sc_unit: "sc k PNull = PNull"
    and sc_hom: "a \<in> K \<Longrightarrow> b \<in> K \<Longrightarrow> sc k (f a b) = f (sc k a) (sc k b)"
    and iterate: "a \<in> K \<Longrightarrow> v \<in> K \<Longrightarrow> 0 < k \<Longrightarrow> ((\<lambda>x. f x v) ^^ k) a = f a (sc k v)"
begin

definition total :: "pivot_value list \<Rightarrow> pivot_value" where
  "total vs = foldr f vs PNull"

lemma total_simps [simp]: "total [] = PNull" "total (v # vs) = f v (total vs)"
  by (simp_all add: total_def)

lemma total_closed [simp]: "set vs \<subseteq> K \<Longrightarrow> total vs \<in> K"
  by (induction vs) (auto simp: unit_K closed)

lemma total_append: "set us \<subseteq> K \<Longrightarrow> set vs \<subseteq> K \<Longrightarrow> total (us @ vs) = f (total us) (total vs)"
  by (induction us) (auto simp: unit assoc)

lemma total_scaled: "set vs \<subseteq> K \<Longrightarrow> total (map (sc k) vs) = sc k (total vs)"
  by (induction vs) (auto simp: sc_unit sc_hom)

lemma fold_lhs:
  assumes "lhs = id \<or> lhs = nullish"
  shows "set vs \<subseteq> K \<Longrightarrow> a \<in> K \<Longrightarrow>
     foldl (\<lambda>acc v. ((\<lambda>x. f (lhs x) v) ^^ k) acc) a vs = foldl (\<lambda>acc v. ((\<lambda>x. f x v) ^^ k) acc) a vs"
proof (induction vs arbitrary: a)
  case (Cons v vs)
  have lhs: "lhs x = x" if "x \<in> K" for x using assms that defined by (auto simp: nullish_def)
  have "((\<lambda>x. f (lhs x) v) ^^ n) a = ((\<lambda>x. f x v) ^^ n) a \<and> ((\<lambda>x. f x v) ^^ n) a \<in> K" for n
    using Cons.prems by (induction n) (auto simp: lhs closed)
  with Cons show ?case by simp
qed simp

lemma fold_scaled:
  "set vs \<subseteq> K \<Longrightarrow> a \<in> K \<Longrightarrow> 0 < k \<Longrightarrow>
     foldl (\<lambda>acc v. ((\<lambda>x. f x v) ^^ k) acc) a vs = f a (sc k (total vs))"
proof (induction vs arbitrary: a)
  case Nil
  then show ?case by (metis comm foldl_Nil sc_unit total_simps(1) unit unit_K)
next
  case (Cons v vs)
  then have "foldl (\<lambda>acc v. ((\<lambda>x. f x v) ^^ k) acc) a (v # vs) = f (f a (sc k v)) (sc k (total vs))"
    by (simp add: iterate closed sc_closed)
  also have "\<dots> = f a (sc k (f v (total vs)))"
    using Cons.prems by (simp add: assoc sc_closed sc_hom)
  finally show ?case by simp
qed

text \<open>Rows that are split by a key total up to the same value.\<close>

lemma total_split_one:
  assumes "set (map g rows) \<subseteq> K"
  shows "total (map g rows) =
    f (total (map g (filter P rows))) (total (map g (filter (\<lambda>r. \<not> P r) rows)))"
  using assms
proof (induction rows)
  case (Cons r rows)
  let ?a = "total (map g (filter P rows))" and ?b = "total (map g (filter (\<lambda>r. \<not> P r) rows))"
  have K: "?a \<in> K" "?b \<in> K" "g r \<in> K"
    using Cons.prems by (auto intro!: total_closed simp: subset_iff)
  have "total (map g (r # rows)) = f (g r) (f ?a ?b)" using Cons by simp
  moreover have "f (g r) (f ?a ?b) = f ?a (f (g r) ?b)" using K by (metis assoc comm)
  ultimately show ?case using K by (simp add: assoc)
qed (simp add: unit unit_K)

lemma total_split:
  "set (map g rows) \<subseteq> K \<Longrightarrow> distinct vs \<Longrightarrow> h ` set rows \<subseteq> set vs \<Longrightarrow>
     total (map (\<lambda>v. total (map g (filter (\<lambda>r. h r = v) rows))) vs) = total (map g rows)"
proof (induction vs arbitrary: rows)
  case (Cons v vs)
  let ?rest = "filter (\<lambda>r. h r \<noteq> v) rows"
  have rest: "filter (\<lambda>r. h r = w) rows = filter (\<lambda>r. h r = w) ?rest" if "w \<in> set vs" for w
  proof -
    from that Cons.prems(2) have "w \<noteq> v" by auto
    then show ?thesis by (induction rows) auto
  qed
  have "total (map (\<lambda>w. total (map g (filter (\<lambda>r. h r = w) rows))) vs) =
      total (map (\<lambda>w. total (map g (filter (\<lambda>r. h r = w) ?rest))) vs)"
    by (intro arg_cong [where f = total] map_cong [OF refl] arg_cong [where f = "map g"]) (rule rest)
  also have "\<dots> = total (map g ?rest)"
    by (rule Cons.IH) (use Cons.prems in auto)
  finally show ?case
    using total_split_one [OF Cons.prems(1), of "\<lambda>r. h r = v"] by simp
qed simp

lemma total_scaled_pow:
  "set vs \<subseteq> K \<Longrightarrow> set (map (sc k ^^ n) vs) \<subseteq> K \<and> total (map (sc k ^^ n) vs) = (sc k ^^ n) (total vs)"
proof (induction n)
  case (Suc n)
  then have IH: "set (map (sc k ^^ n) vs) \<subseteq> K" "total (map (sc k ^^ n) vs) = (sc k ^^ n) (total vs)" by auto
  have "map (sc k ^^ Suc n) vs = map (sc k) (map (sc k ^^ n) vs)" by simp
  then have "total (map (sc k ^^ Suc n) vs) = (sc k ^^ Suc n) (total vs)"
    using total_scaled [OF IH(1), of k] by (simp only: IH(2)) simp
  moreover have "set (map (sc k ^^ Suc n) vs) \<subseteq> K" using IH(1) by (auto intro: sc_closed)
  ultimately show ?case by blast
qed simp

lemma update_fresh_value:
  assumes op: "basicAggregation oth (fst a) = f" and listed: "a \<in> set (cfg_basic cfg)"
    and k: "k = count_list (cfg_basic cfg) a"
  shows "set (map (\<lambda>r. r (basic_id a)) rows) \<subseteq> K \<Longrightarrow>
    agg_get (aggregationValues (update_tree oth cfg (fresh_tree oth cfg d ps rows))) (basic_id a) =
      (sc k ^^ Suc (length ps)) (total (map (\<lambda>r. r (basic_id a)) rows))"
proof (induction ps arbitrary: d rows)
  let ?i = "basic_id a"
  have kpos: "0 < k" using listed count_list_0_iff [of "cfg_basic cfg" a] by (simp add: k)
  have nulls: "agg_get (null_aggs cfg) ?i = PNull" by (rule null_aggs_get [OF listed])
  have pass: "agg_get (foldl (\<lambda>s x. apply_aggs oth (cfg_basic cfg) lhs s (h x)) s xs) ?i =
      f (agg_get s ?i) (sc k (total (map (\<lambda>x. h x ?i) xs)))"
    if "set (map (\<lambda>x. h x ?i) xs) \<subseteq> K" and "agg_get s ?i \<in> K" and lhs: "lhs = id \<or> lhs = nullish"
    for h s lhs and xs :: "'c list"
  proof -
    have "agg_get (foldl (\<lambda>s x. apply_aggs oth (cfg_basic cfg) lhs s (h x)) s xs) ?i =
        foldl (\<lambda>acc v. ((\<lambda>x. f (lhs x) v) ^^ k) acc) (agg_get s ?i) (map (\<lambda>x. h x ?i) xs)"
      by (induction xs arbitrary: s) (simp_all add: apply_aggs_get op k)
    with fold_lhs [OF lhs that(1,2)] fold_scaled [OF that(1,2) kpos] show ?thesis by simp
  qed
  {
    case Nil
    then show ?case
      using pass [of "\<lambda>r. r" rows "null_aggs cfg" id] by (simp add: fresh_tree_leaf nulls unit_K unit sc_closed)
  next
    case (Cons p ps)
    obtain ks where t: "fresh_tree oth cfg d (p # ps) rows = Node (null_aggs cfg) (null_aggs cfg) (0 < d) ks"
      and dist: "distinct (map fst ks)"
      and get: "\<forall>v. map_of ks v = (if filter (\<lambda>r. r p = v) rows = [] then None
        else Some (fresh_tree oth cfg (Suc d) ps (filter (\<lambda>r. r p = v) rows)))"
      using fresh_tree_inner [of oth cfg d p ps rows] by blast
    let ?part = "\<lambda>v. map (\<lambda>r. r ?i) (filter (\<lambda>r. r p = v) rows)"
    let ?kid = "\<lambda>(v, u). agg_get (aggregationValues (update_tree oth cfg u)) ?i"
    have inK: "set (?part v) \<subseteq> K" for v using Cons.prems by auto
    have kid: "?kid (v, u) = (sc k ^^ Suc (length ps)) (total (?part v))" if "(v, u) \<in> set ks" for v u
    proof -
      have "map_of ks v = Some u" using dist that by simp
      with get have "u = fresh_tree oth cfg (Suc d) ps (filter (\<lambda>r. r p = v) rows)"
        by (simp split: if_splits)
      with Cons.IH [OF inK] show ?thesis by simp
    qed
    let ?vs = "map (\<lambda>v. total (?part v)) (map fst ks)"
    have eq: "map ?kid ks = map (sc k ^^ Suc (length ps)) ?vs"
      using kid by (auto simp del: funpow.simps)
    have vsK: "set ?vs \<subseteq> K" using inK by (auto intro: total_closed)
    have cover: "(\<lambda>r. r p) ` set rows \<subseteq> set (map fst ks)"
    proof
      fix v assume "v \<in> (\<lambda>r. r p) ` set rows"
      then have "filter (\<lambda>r. r p = v) rows \<noteq> []" by (auto simp: filter_empty_conv)
      with get have "map_of ks v \<noteq> None" by simp
      then show "v \<in> set (map fst ks)" by (metis map_of_eq_None_iff list.set_map)
    qed
    have split: "total ?vs = total (map (\<lambda>r. r ?i) rows)"
      by (rule total_split [OF Cons.prems dist cover])
    have pow: "set (map (sc k ^^ Suc (length ps)) ?vs) \<subseteq> K \<and>
        total (map (sc k ^^ Suc (length ps)) ?vs) = (sc k ^^ Suc (length ps)) (total ?vs)"
      by (rule total_scaled_pow [OF vsK])
    have kids: "total (map ?kid ks) = (sc k ^^ Suc (length ps)) (total (map (\<lambda>r. r ?i) rows))"
      unfolding eq split [symmetric] by (rule pow [THEN conjunct2])
    have kidsK: "set (map ?kid ks) \<subseteq> K" unfolding eq by (rule pow [THEN conjunct1])
    have "agg_get (aggregationValues (update_tree oth cfg (fresh_tree oth cfg d (p # ps) rows))) ?i =
        agg_get (foldl (\<lambda>s x. apply_aggs oth (cfg_basic cfg) nullish s (agg_get (aggregationValues x))) (null_aggs cfg)
          (map (\<lambda>(v, u). update_tree oth cfg u) ks)) ?i"
      by (simp add: t Let_def o_def case_prod_unfold)
    also have "\<dots> = f PNull (sc k (total (map ?kid ks)))"
      using kidsK by (subst pass) (auto simp: nulls unit_K o_def case_prod_unfold)
    also have "\<dots> = (sc k ^^ Suc (length (p # ps))) (total (map (\<lambda>r. r ?i) rows))"
      using unit [OF sc_closed [OF total_closed [OF kidsK]], of k] by (simp add: kids)
    finally show ?case .
  }
qed

end

subsection \<open>The four operations\<close>

text \<open>The values that SQL aggregates to when it is given numbers: numbers and \<open>null\<close>.\<close>

definition numbers :: "pivot_value set" where
  "numbers = insert PNull (range PNum)"

fun scale :: "nat \<Rightarrow> pivot_value \<Rightarrow> pivot_value" where
  "scale k (PNum n) = PNum (int k * n)"
| "scale k v = v"

definition number_of :: "pivot_value \<Rightarrow> int option" where
  "number_of v = (case v of PNum n \<Rightarrow> Some n | _ \<Rightarrow> None)"

text \<open>The aggregate of a list of values, over the numbers among them.\<close>

definition aggregate :: "basic_op \<Rightarrow> pivot_value list \<Rightarrow> pivot_value" where
  "aggregate op vs =
     (case List.map_filter number_of vs of
        [] \<Rightarrow> PNull
      | n # ns \<Rightarrow> PNum (case op of OpMin \<Rightarrow> Min (set (n # ns)) | OpMax \<Rightarrow> Max (set (n # ns)) | _ \<Rightarrow> sum_list (n # ns)))"

lemma numbers_cases:
  assumes "v \<in> numbers"
  obtains "v = PNull" | n where "v = PNum n"
  using assms by (auto simp: numbers_def)

lemma numbers_simps [simp]: "PNull \<in> numbers" "PNum n \<in> numbers"
  by (auto simp: numbers_def)

interpretation sums: pivot_operation add_values numbers scale
proof
  fix a v :: pivot_value and k :: nat
  assume "a \<in> numbers" "v \<in> numbers" "0 < k"
  then have "((\<lambda>x. add_values x v) ^^ Suc (k - 1)) a = add_values a (scale (Suc (k - 1)) v)"
  proof (induction "k - 1" arbitrary: k)
    case 0
    then show ?case by (auto elim!: numbers_cases)
  next
    case (Suc m)
    have "((\<lambda>x. add_values x v) ^^ Suc m) a = add_values a (scale (Suc m) v)"
      using Suc.hyps(1) [of "Suc m"] Suc.prems by simp
    with Suc.hyps(2) [symmetric] Suc.prems show ?case
      by (auto elim!: numbers_cases simp: algebra_simps)
  qed
  with \<open>0 < k\<close> show "((\<lambda>x. add_values x v) ^^ k) a = add_values a (scale k v)" by simp
qed (auto elim!: numbers_cases simp: algebra_simps)

lemma iterate_idem:
  assumes "f (f a v) v = f a v" and "0 < k"
  shows "((\<lambda>x. f x v) ^^ k) a = f a v"
proof -
  have "((\<lambda>x. f x v) ^^ Suc n) a = f a v" for n
    by (induction n) (simp_all add: assms(1))
  with assms(2) show ?thesis by (metis Suc_pred)
qed

interpretation mins: pivot_operation "basicAggregation oth OpMin" numbers "\<lambda>k v. v" for oth
proof
  fix a v :: pivot_value and k :: nat
  assume "a \<in> numbers" "v \<in> numbers" and k: "0 < k"
  then have "basicAggregation oth OpMin (basicAggregation oth OpMin a v) v = basicAggregation oth OpMin a v"
    by (auto elim!: numbers_cases simp: basicAggregation_def)
  from iterate_idem [of "basicAggregation oth OpMin", OF this k]
  show "((\<lambda>x. basicAggregation oth OpMin x v) ^^ k) a = basicAggregation oth OpMin a v" .
qed (auto elim!: numbers_cases simp: basicAggregation_def)

interpretation maxs: pivot_operation "basicAggregation oth OpMax" numbers "\<lambda>k v. v" for oth
proof
  fix a v :: pivot_value and k :: nat
  assume "a \<in> numbers" "v \<in> numbers" and k: "0 < k"
  then have "basicAggregation oth OpMax (basicAggregation oth OpMax a v) v = basicAggregation oth OpMax a v"
    by (auto elim!: numbers_cases simp: basicAggregation_def)
  from iterate_idem [of "basicAggregation oth OpMax", OF this k]
  show "((\<lambda>x. basicAggregation oth OpMax x v) ^^ k) a = basicAggregation oth OpMax a v" .
qed (auto elim!: numbers_cases simp: basicAggregation_def)

lemma number_of_simps [simp]: "number_of PNull = None" "number_of (PNum n) = Some n"
  by (simp_all add: number_of_def)

lemma aggregate_Nil [simp]: "aggregate op [] = PNull"
  by (simp add: aggregate_def List.map_filter_simps)

lemma total_sum:
  "set vs \<subseteq> numbers \<Longrightarrow> op = OpSum \<or> op = OpCount \<Longrightarrow> sums.total vs = aggregate op vs"
  by (induction vs)
    (auto elim!: numbers_cases simp: aggregate_def List.map_filter_simps split: list.splits)

lemma minmax_simps:
  "basicAggregation oth OpMin PNull v = v" "basicAggregation oth OpMin v PNull = v"
  "basicAggregation oth OpMin (PNum m) (PNum n) = PNum (min m n)"
  "basicAggregation oth OpMax PNull v = v" "basicAggregation oth OpMax v PNull = v"
  "basicAggregation oth OpMax (PNum m) (PNum n) = PNum (max m n)"
  by (auto simp: basicAggregation_def min_def max_def)

lemma aggregate_Cons:
  "aggregate op (PNull # vs) = aggregate op vs"
  "List.map_filter number_of vs = [] \<Longrightarrow> aggregate op (PNum n # vs) = PNum n \<and> aggregate op vs = PNull"
  "List.map_filter number_of vs = m # ms \<Longrightarrow>
     aggregate OpMin (PNum n # vs) = PNum (min n (Min (set (m # ms)))) \<and>
     aggregate OpMin vs = PNum (Min (set (m # ms)))"
  "List.map_filter number_of vs = m # ms \<Longrightarrow>
     aggregate OpMax (PNum n # vs) = PNum (max n (Max (set (m # ms)))) \<and>
     aggregate OpMax vs = PNum (Max (set (m # ms)))"
  by (auto simp: aggregate_def List.map_filter_simps split: basic_op.split)

lemma total_minmax:
  "set vs \<subseteq> numbers \<Longrightarrow> mins.total oth vs = aggregate OpMin vs \<and> maxs.total oth vs = aggregate OpMax vs"
proof (induction vs)
  case (Cons v vs)
  then have "v \<in> numbers" and
    IH: "mins.total oth vs = aggregate OpMin vs" "maxs.total oth vs = aggregate OpMax vs" by auto
  then show ?case
    by (cases v rule: numbers_cases; cases "List.map_filter number_of vs")
      (simp_all add: aggregate_Cons minmax_simps)
qed simp

subsection \<open>The nodes of the table\<close>

lemma update_tree_kids: "kids (update_tree oth cfg t) = map (\<lambda>(v, u). (v, update_tree oth cfg u)) (kids t)"
  by (cases t) (simp add: Let_def)

definition satisfies :: "(string \<times> pivot_value) list \<Rightarrow> (string \<Rightarrow> pivot_value) \<Rightarrow> bool" where
  "satisfies fs row = list_all (\<lambda>(c, v). row c = v) fs"

lemma node_at_fresh:
  "node_at (update_tree oth cfg (fresh_tree oth cfg d ps rows)) path = Some t \<Longrightarrow>
     length path \<le> length ps \<and>
     t = update_tree oth cfg (fresh_tree oth cfg (d + length path) (drop (length path) ps)
           (filter (satisfies (zip ps path)) rows))"
proof (induction path arbitrary: d ps rows)
  case Nil
  then show ?case by (simp add: satisfies_def)
next
  case (Cons v path)
  show ?case
  proof (cases ps)
    case Nil
    with Cons.prems show ?thesis by (simp add: update_tree_kids fresh_tree_leaf)
  next
    case (Cons p qs)
    obtain ks where t: "fresh_tree oth cfg d (p # qs) rows = Node (null_aggs cfg) (null_aggs cfg) (0 < d) ks"
      and get: "\<forall>v. map_of ks v = (if filter (\<lambda>r. r p = v) rows = [] then None
        else Some (fresh_tree oth cfg (Suc d) qs (filter (\<lambda>r. r p = v) rows)))"
      using fresh_tree_inner [of oth cfg d p qs rows] by blast
    have "map_of (map (\<lambda>(v, u). (v, update_tree oth cfg u)) ks) v = map_option (update_tree oth cfg) (map_of ks v)"
      by (induction ks) auto
    with Cons.prems get have
      "node_at (update_tree oth cfg (fresh_tree oth cfg (Suc d) qs (filter (\<lambda>r. r p = v) rows))) path = Some t"
      by (simp add: Cons t Let_def split: if_splits)
    from Cons.IH [OF this] show ?thesis
      by (simp add: Cons satisfies_def conj_commute)
  qed
qed

lemma buildTree_fresh:
  "buildTree oth rows pivots aggs =
     update_tree oth (pivot_config_of pivots aggs) (fresh_tree oth (pivot_config_of pivots aggs) 0 pivots rows)"
  by (simp add: buildTree_def fresh_tree_def grow_def Let_def)

lemma node_value:
  assumes "node_at (buildTree oth rows pivots aggs) path = Some t" and "(op, c) \<in> set (expandAggregations aggs)"
    and vals: "\<forall>row\<in>set rows. row (basic_id (op, c)) \<in> numbers"
  shows "agg_get (aggregationValues t) (basic_id (op, c)) =
    (let v = aggregate op (map (\<lambda>row. row (basic_id (op, c)))
           (filter (satisfies (zip pivots path)) rows))
     in if op = OpSum \<or> op = OpCount
        then (scale (count_list (expandAggregations aggs) (op, c)) ^^ Suc (length pivots - length path)) v
        else v)"
proof -
  let ?cfg = "pivot_config_of pivots aggs"
  let ?rows = "filter (satisfies (zip pivots path)) rows"
  have t: "t = update_tree oth ?cfg (fresh_tree oth ?cfg (length path) (drop (length path) pivots) ?rows)"
    using node_at_fresh [of oth ?cfg 0 pivots rows path t] assms(1) by (simp add: buildTree_fresh)
  have mem: "(op, c) \<in> set (cfg_basic ?cfg)" using assms(2) by (simp add: pivot_config_of_def)
  have K: "set (map (\<lambda>row. row (basic_id (op, c))) ?rows) \<subseteq> numbers" using vals by auto
  have id: "((\<lambda>v. v) ^^ n) = (\<lambda>v. v)" for n and v :: pivot_value by (induction n) auto
  show ?thesis
  proof (cases op)
    case OpSum
    have "basicAggregation oth (fst (op, c)) = add_values" by (simp add: OpSum basicAggregation_def fun_eq_iff)
    from sums.update_fresh_value [OF this mem refl K, of "length path" "drop (length path) pivots"]
    show ?thesis
      by (simp add: t OpSum pivot_config_of_def total_sum [OF K [unfolded OpSum], where op = OpSum] del: funpow.simps)
  next
    case OpCount
    have "basicAggregation oth (fst (op, c)) = add_values" by (simp add: OpCount basicAggregation_def fun_eq_iff)
    from sums.update_fresh_value [OF this mem refl K, of "length path" "drop (length path) pivots"]
    show ?thesis
      by (simp add: t OpCount pivot_config_of_def total_sum [OF K [unfolded OpCount], where op = OpCount] del: funpow.simps)
  next
    case OpMin
    have "basicAggregation oth (fst (op, c)) = basicAggregation oth OpMin" by (simp add: OpMin)
    from mins.update_fresh_value [OF this mem refl K, of "length path" "drop (length path) pivots"]
    show ?thesis
      using total_minmax [OF K] by (simp add: t OpMin pivot_config_of_def id del: funpow.simps)
  next
    case OpMax
    have "basicAggregation oth (fst (op, c)) = basicAggregation oth OpMax" by (simp add: OpMax)
    from maxs.update_fresh_value [OF this mem refl K, of "length path" "drop (length path) pivots"]
    show ?thesis
      using total_minmax [OF K] by (simp add: t OpMax pivot_config_of_def id del: funpow.simps)
  qed
qed

lemma scale_pow: "(scale k ^^ n) v = scale (k ^ n) v"
  by (induction n; cases v) (auto simp: algebra_simps)

lemma scale_one [simp]: "scale (Suc 0) v = v"
  by (cases v) simp_all

lemma count_list_distinct: "distinct xs \<Longrightarrow> x \<in> set xs \<Longrightarrow> count_list xs x = 1"
  by (induction xs) auto

theorem pivot_node_value:
  assumes "node_at (buildTree oth rows pivots aggs) path = Some t"
    and "distinct (expandAggregations aggs)" and "(op, c) \<in> set (expandAggregations aggs)"
    and "list_all (\<lambda>row. row (basic_id (op, c)) \<in> numbers) rows"
  shows "agg_get (aggregationValues t) (basic_id (op, c)) =
    aggregate op (map (\<lambda>row. row (basic_id (op, c)))
      (filter (satisfies (zip pivots path)) rows))"
  using node_value [OF assms(1,3)] assms(4) count_list_distinct [OF assms(2,3)]
  by (simp add: list_all_iff Let_def scale_pow)

text \<open>
  A sum that is listed \<open>k\<close> times, because the menu has duplicated it or an average of the same column needs
  it too, is not the sum of the rows of a node: it is multiplied by \<open>k\<close> at the leaves and by \<open>k\<close> again at
  every level above.
\<close>

theorem repeated_sum_inflated:
  assumes "node_at (buildTree oth rows pivots aggs) path = Some t"
    and "count_list (expandAggregations aggs) (OpSum, c) = Suc k"
    and "list_all (\<lambda>row. row (basic_id (OpSum, c)) \<in> numbers) rows"
  shows "agg_get (aggregationValues t) (basic_id (OpSum, c)) =
    scale (Suc k ^ Suc (length pivots - length path))
      (aggregate OpSum (map (\<lambda>row. row (basic_id (OpSum, c)))
        (filter (satisfies (zip pivots path)) rows)))"
proof -
  have "(OpSum, c) \<in> set (expandAggregations aggs)"
    using assms(2) count_list_0_iff [of "expandAggregations aggs" "(OpSum, c)"] by auto
  from node_value [OF assms(1) this] assms(3) show ?thesis
    by (simp add: list_all_iff Let_def scale_pow assms(2) del: power_Suc funpow.simps)
qed

text \<open>Three rows of slices by process and thread, with the sum of their durations.\<close>

definition dur_rows :: "(string \<Rightarrow> pivot_value) list" where
  "dur_rows = map (\<lambda>(p, t, d) c. if c = ''pid'' then PNum p else if c = ''tid'' then PNum t else PNum d)
     [(1, 10, 5), (1, 11, 6), (2, 20, 8)]"

theorem pivot_node_value_witness:
  "\<exists>t. node_at (buildTree (\<lambda>a b. False) dur_rows [''pid'', ''tid''] [Basic OpSum ''dur'']) [PNum 1] = Some t \<and>
     agg_get (aggregationValues t) (basic_id (OpSum, ''dur'')) = PNum 11"
proof -
  let ?tree = "buildTree (\<lambda>a b. False) dur_rows [''pid'', ''tid''] [Basic OpSum ''dur'']"
  have "\<not> Option.is_none (node_at ?tree [PNum 1])" by code_simp
  then obtain t where t: "node_at ?tree [PNum 1] = Some t" by (cases "node_at ?tree [PNum 1]") auto
  have dist: "distinct (expandAggregations [Basic OpSum ''dur''])"
    and mem: "(OpSum, ''dur'') \<in> set (expandAggregations [Basic OpSum ''dur''])"
    by (simp_all add: expandAggregations_def)
  have nums: "list_all (\<lambda>row. row (basic_id (OpSum, ''dur'')) \<in> numbers) dur_rows"
    by (simp add: dur_rows_def basic_id_def)
  have "aggregate OpSum (map (\<lambda>row. row (basic_id (OpSum, ''dur'')))
      (filter (satisfies (zip [''pid'', ''tid''] [PNum 1])) dur_rows)) =
    PNum 11"
    by (simp add: dur_rows_def basic_id_def satisfies_def aggregate_def
        List.map_filter_simps)
  with pivot_node_value [OF t dist mem nums] t show ?thesis by simp
qed

theorem repeated_sum_inflated_witness:
  "\<exists>t. node_at (buildTree (\<lambda>a b. False) dur_rows [''pid'', ''tid''] [Basic OpSum ''dur'', Average ''dur'']) [] = Some t \<and>
     agg_get (aggregationValues t) (basic_id (OpSum, ''dur'')) = PNum (8 * 19)"
proof -
  let ?aggs = "[Basic OpSum ''dur'', Average ''dur'']"
  let ?tree = "buildTree (\<lambda>a b. False) dur_rows [''pid'', ''tid''] ?aggs"
  have t: "node_at ?tree [] = Some ?tree" by simp
  have two: "count_list (expandAggregations ?aggs) (OpSum, ''dur'') = Suc 1"
    by (simp add: expandAggregations_def)
  have nums: "list_all (\<lambda>row. row (basic_id (OpSum, ''dur'')) \<in> numbers) dur_rows"
    by (simp add: dur_rows_def basic_id_def)
  have "aggregate OpSum (map (\<lambda>row. row (basic_id (OpSum, ''dur'')))
      (filter (satisfies (zip [''pid'', ''tid''] [])) dur_rows)) = PNum 19"
    by (simp add: dur_rows_def basic_id_def satisfies_def aggregate_def List.map_filter_simps)
  with repeated_sum_inflated [OF t two nums] t show ?thesis by simp
qed

end
