(* ===== verification/Pivot_State.thy ===== *)
theory Pivot_State
  imports Pivot_Tree_Correct
begin

text \<open>
  The state of a pivot table, \<^verbatim>\<open>pivot_table_state.ts\<close>: its pivots, aggregations and sort order, the operations
  of its menus, and the reload that rebuilds the tree. A reload is run by the limiter some time after an
  operation, one at a time, and has two steps: up to \<open>await this.loadData(...)\<close> and from there on, with the
  operations of the menus in between. The rows that the trace processor returns, or its error, are arguments,
  and so is the answer whether the filters have changed.
\<close>

subsection \<open>State\<close>

text \<open>\<open>loading\<close> holds the aliases and the ids (\<open>aliasToIds\<close>) of the query that a reload is waiting for.\<close>

type_synonym pivot_row = "string \<Rightarrow> pivot_value"

record requested_data =
  data_columnIds :: "string list"
  data_result :: "(pivot_row list \<times> pivot_config \<times> pivot_tree) option"
  data_error :: "string option"

record pivot_state =
  pivots :: "string list"
  aggregations :: "aggregation list"
  orderBy :: "sort_item list"
  pivot_data :: requested_data
  oldTree :: "(pivot_config \<times> pivot_tree) option"
  loading :: "(string \<times> string) list option"

definition count_aggregation :: aggregation where
  "count_aggregation = Basic OpCount ''1''"

definition new_pivot_state :: "string list \<Rightarrow> aggregation list \<Rightarrow> pivot_state" where
  "new_pivot_state ps aggs =
     \<lparr>pivots = ps, aggregations = aggs @ [count_aggregation],
      orderBy = [SortAggregation (aggregationId count_aggregation) DESC],
      pivot_data = \<lparr>data_columnIds = [], data_result = None, data_error = None\<rparr>, oldTree = None, loading = None\<rparr>"

subsection \<open>The operations\<close>

text \<open>\<open>array.splice(i, 0, x)\<close>, \<open>array.splice(i, 1)\<close> and \<open>moveArrayItem\<close> for indices of the array.\<close>

definition insert_at :: "nat \<Rightarrow> 'a \<Rightarrow> 'a list \<Rightarrow> 'a list" where
  "insert_at i x xs = take i xs @ [x] @ drop i xs"

definition remove_at :: "nat \<Rightarrow> 'a list \<Rightarrow> 'a list" where
  "remove_at i xs = take i xs @ drop (Suc i) xs"

definition moveArrayItem :: "'a list \<Rightarrow> nat \<Rightarrow> nat \<Rightarrow> 'a list" where
  "moveArrayItem xs from_i to_i =
     (if from_i = to_i then xs
      else insert_at (if from_i < to_i then to_i - 1 else to_i) (xs ! from_i) (remove_at from_i xs))"

text \<open>\<open>this.oldTree = this.data.result?.tree ?? this.oldTree\<close>, the part of \<open>reload\<close> that runs at once.\<close>

definition request_reload :: "pivot_state \<Rightarrow> pivot_state" where
  "request_reload s =
     s\<lparr>oldTree := (case data_result (pivot_data s) of Some (rows, tree) \<Rightarrow> Some tree | None \<Rightarrow> oldTree s)\<rparr>"

text \<open>\<open>this.data.result?.tree.sort(this.orderBy)\<close>, in place. The tree that a throw leaves half sorted is not modelled.\<close>

definition sort_result :: "coerced_less \<Rightarrow> pivot_state \<Rightarrow> js_error + pivot_state" where
  "sort_result oth s =
     (case data_result (pivot_data s) of
        None \<Rightarrow> Inr s
      | Some (rows, cfg, tree) \<Rightarrow>
          (case sort_tree oth cfg 0 (orderBy s) tree of
             Inl e \<Rightarrow> Inl e
           | Inr tree' \<Rightarrow> Inr (s\<lparr>pivot_data := (pivot_data s)\<lparr>data_result := Some (rows, cfg, tree')\<rparr>\<rparr>)))"

fun is_pivot_item :: "string \<Rightarrow> sort_item \<Rightarrow> bool" where
  "is_pivot_item i (SortPivot j dir) = (j = i)"
| "is_pivot_item i (SortAggregation j dir) = False"

fun is_aggregation_item :: "string \<Rightarrow> sort_item \<Rightarrow> bool" where
  "is_aggregation_item i (SortAggregation j dir) = (j = i)"
| "is_aggregation_item i (SortPivot j dir) = False"

definition sortByPivot :: "coerced_less \<Rightarrow> string \<Rightarrow> sort_direction option \<Rightarrow> pivot_state \<Rightarrow> js_error + pivot_state" where
  "sortByPivot oth pivot direction s =
     (let others = filter (\<lambda>c. \<not> is_pivot_item pivot c) (orderBy s) in
      case direction of None \<Rightarrow> Inr (s\<lparr>orderBy := others\<rparr>)
      | Some dir \<Rightarrow> sort_result oth (s\<lparr>orderBy := SortPivot pivot dir # others\<rparr>))"

definition sortByAggregation ::
  "coerced_less \<Rightarrow> aggregation \<Rightarrow> sort_direction option \<Rightarrow> pivot_state \<Rightarrow> js_error + pivot_state" where
  "sortByAggregation oth agg direction s =
     (let i = aggregationId agg; others = filter (\<lambda>c. \<not> is_aggregation_item i c) (orderBy s) in
      case direction of None \<Rightarrow> Inr (s\<lparr>orderBy := others\<rparr>)
      | Some dir \<Rightarrow> sort_result oth (s\<lparr>orderBy := SortAggregation i dir # others\<rparr>))"

definition clearPivotSort :: "coerced_less \<Rightarrow> string \<Rightarrow> pivot_state \<Rightarrow> js_error + pivot_state" where
  "clearPivotSort oth pivot s =
     sort_result oth (s\<lparr>orderBy := filter (\<lambda>c. \<not> is_pivot_item pivot c) (orderBy s)\<rparr>)"

definition clearAggregationSort :: "coerced_less \<Rightarrow> aggregation \<Rightarrow> pivot_state \<Rightarrow> js_error + pivot_state" where
  "clearAggregationSort oth agg s =
     sort_result oth (s\<lparr>orderBy := filter (\<lambda>c. \<not> is_aggregation_item (aggregationId agg) c) (orderBy s)\<rparr>)"

definition isSortedByPivot :: "string \<Rightarrow> pivot_state \<Rightarrow> sort_direction option" where
  "isSortedByPivot pivot s =
     (case orderBy s of SortPivot i dir # _ \<Rightarrow> if i = pivot then Some dir else None | _ \<Rightarrow> None)"

definition isSortedByAggregation :: "aggregation \<Rightarrow> pivot_state \<Rightarrow> sort_direction option" where
  "isSortedByAggregation agg s =
     (case orderBy s of SortAggregation i dir # _ \<Rightarrow> if i = aggregationId agg then Some dir else None | _ \<Rightarrow> None)"

definition addPivot :: "string \<Rightarrow> nat \<Rightarrow> pivot_state \<Rightarrow> pivot_state" where
  "addPivot pivot index s = request_reload (s\<lparr>pivots := insert_at (Suc index) pivot (pivots s)\<rparr>)"

definition addAggregation :: "aggregation \<Rightarrow> nat \<Rightarrow> pivot_state \<Rightarrow> pivot_state" where
  "addAggregation agg index s = request_reload (s\<lparr>aggregations := insert_at (Suc index) agg (aggregations s)\<rparr>)"

definition removePivot :: "coerced_less \<Rightarrow> nat \<Rightarrow> pivot_state \<Rightarrow> js_error + pivot_state" where
  "removePivot oth index s =
     map_sum id (\<lambda>s'. request_reload (s'\<lparr>pivots := remove_at index (pivots s')\<rparr>))
       (sortByPivot oth (pivots s ! index) None s)"

definition removeAggregation :: "coerced_less \<Rightarrow> nat \<Rightarrow> pivot_state \<Rightarrow> js_error + pivot_state" where
  "removeAggregation oth index s =
     map_sum id (\<lambda>s'. request_reload (s'\<lparr>aggregations := remove_at index (aggregations s')\<rparr>))
       (sortByAggregation oth (aggregations s ! index) None s)"

definition movePivot :: "nat \<Rightarrow> nat \<Rightarrow> pivot_state \<Rightarrow> pivot_state" where
  "movePivot from_i to_i s = request_reload (s\<lparr>pivots := moveArrayItem (pivots s) from_i to_i\<rparr>)"

definition moveAggregation :: "nat \<Rightarrow> nat \<Rightarrow> pivot_state \<Rightarrow> pivot_state" where
  "moveAggregation from_i to_i s = request_reload (s\<lparr>aggregations := moveArrayItem (aggregations s) from_i to_i\<rparr>)"

definition replaceAggregation :: "nat \<Rightarrow> aggregation \<Rightarrow> pivot_state \<Rightarrow> pivot_state" where
  "replaceAggregation index agg s = request_reload (s\<lparr>aggregations := (aggregations s)[index := agg]\<rparr>)"

subsection \<open>Reloading\<close>

text \<open>\<open>replace(/[^a-zA-Z0-9_]/g, '__')\<close> and the aliases.\<close>

definition word_char :: "char \<Rightarrow> bool" where
  "word_char c \<longleftrightarrow>
     (let n = of_char c :: nat in 97 \<le> n \<and> n \<le> 122 \<or> 65 \<le> n \<and> n \<le> 90 \<or> 48 \<le> n \<and> n \<le> 57 \<or> n = 95)"

definition sqlite_word :: "string \<Rightarrow> string" where
  "sqlite_word s = concat (map (\<lambda>c. if word_char c then [c] else ''__'') s)"

definition pivotSqliteAlias :: "string \<Rightarrow> string" where
  "pivotSqliteAlias p = sqlite_word p"

definition aggregationSqliteAlias :: "basic_aggregation \<Rightarrow> string" where
  "aggregationSqliteAlias a = ''__'' @ sqlite_word (snd a) @ ''__'' @ op_name (fst a)"

text \<open>The ids and the map from aliases to ids that \<open>buildQuery\<close> makes beside the text.\<close>

definition query_columnIds :: "pivot_state \<Rightarrow> string list" where
  "query_columnIds s = pivots s @ map basic_id (expandAggregations (aggregations s))"

definition query_aliases :: "pivot_state \<Rightarrow> (string \<times> string) list" where
  "query_aliases s =
     assign [] (map (\<lambda>p. (pivotSqliteAlias p, p)) (pivots s) @
       map (\<lambda>a. (aggregationSqliteAlias a, basic_id a)) (expandAggregations (aggregations s)))"

definition needs_reload :: "bool \<Rightarrow> pivot_state \<Rightarrow> bool" where
  "needs_reload filtersEqual s \<longleftrightarrow>
     data_error (pivot_data s) \<noteq> None \<or> \<not> filtersEqual \<or>
     \<not> list_all (\<lambda>i. i \<in> set (data_columnIds (pivot_data s))) (query_columnIds s)"

text \<open>
  What the answer of the trace processor is: an error that \<open>loadData\<close> throws (\<open>engine.query\<close> rejects a query that
  fails), or a result, with the values of the columns by their alias. \<open>loadData\<close> maps the aliases back to ids;
  what is no id of the query is \<open>undefined\<close> in the row.
\<close>

datatype load_answer = Rejected js_error | Returned "string option" "(string \<Rightarrow> sql_lit) list"

definition loaded_row :: "(string \<times> string) list \<Rightarrow> (string \<Rightarrow> sql_lit) \<Rightarrow> pivot_row" where
  "loaded_row aliases raw = foldl (\<lambda>row (alias, i). row(i := as_value (raw alias))) (\<lambda>_. Undefined) aliases"

text \<open>
  The last part of a reload, with the pivots, the aggregations and the sort order that the table has by then.
  When the sort throws, the data have no result, and the old tree is gone.
\<close>

definition build_result :: "coerced_less \<Rightarrow> pivot_row list \<Rightarrow> pivot_state \<Rightarrow> js_error option \<times> pivot_state" where
  "build_result oth rows s =
     (let cfg = pivot_config_of (pivots s) (aggregations s);
          built = buildTree oth rows (pivots s) (aggregations s);
          tree = (case oldTree s of None \<Rightarrow> built
            | Some (oldCfg, old) \<Rightarrow> copyExpandedState (pivots s) (cfg_pivots oldCfg) 0 built (Some old));
          s' = s\<lparr>oldTree := None\<rparr>
      in case sort_tree oth cfg 0 (orderBy s) tree of
           Inl e \<Rightarrow> (Some e, s')
         | Inr tree' \<Rightarrow>
             (None, s'\<lparr>pivot_data := (pivot_data s')\<lparr>data_result := Some (rows, cfg, tree')\<rparr>\<rparr>))"

text \<open>
  The task that \<open>reload\<close> schedules, up to the query: rows that can be kept make a tree at once. Then what follows
  the query, where \<open>aliases\<close> is \<open>aliasToIds\<close> from before it.
\<close>

definition start_reload :: "coerced_less \<Rightarrow> bool \<Rightarrow> pivot_state \<Rightarrow> js_error option \<times> pivot_state" where
  "start_reload oth filtersEqual s =
     (let kept = (if needs_reload filtersEqual s then None else map_option fst (data_result (pivot_data s)));
          s1 = s\<lparr>pivot_data := \<lparr>data_columnIds = map snd (query_aliases s), data_result = None, data_error = None\<rparr>\<rparr>
      in case kept of
           Some rows \<Rightarrow> build_result oth rows s1
         | None \<Rightarrow> (None, s1\<lparr>loading := Some (query_aliases s)\<rparr>))"

definition finish_reload ::
  "coerced_less \<Rightarrow> (string \<times> string) list \<Rightarrow> load_answer \<Rightarrow> pivot_state \<Rightarrow> js_error option \<times> pivot_state" where
  "finish_reload oth aliases answer s =
     (let s1 = s\<lparr>loading := None\<rparr> in
      case answer of
        Rejected e \<Rightarrow> (Some e, s1)
      | Returned err raws \<Rightarrow>
          (let s2 = s1\<lparr>pivot_data := (pivot_data s1)\<lparr>data_error := err\<rparr>\<rparr>
           in if err \<noteq> None then (None, s2) else build_result oth (map (loaded_row aliases) raws) s2))"

subsection \<open>Which keys a tree has\<close>

text \<open>No node of the tree below the root has an \<open>undefined\<close> pivot value.\<close>

fun keys_defined :: "pivot_tree \<Rightarrow> bool" where
  "keys_defined (Node self agg c ks) = list_all (\<lambda>(v, t). v \<noteq> Undefined \<and> keys_defined t) ks"

lemma keys_defined_update [simp]: "keys_defined (update_tree oth cfg t) = keys_defined t"
proof (induction oth cfg t rule: update_tree.induct)
  case (1 oth cfg self agg c ks)
  then show ?case by (auto simp: Let_def list_all_iff)
qed

lemma keys_defined_copy [simp]: "keys_defined (copyExpandedState ps ops d t old) = keys_defined t"
proof (induction ps ops d t old rule: copyExpandedState.induct)
  case (1 ps ops d self agg c ks old)
  show ?case
  proof (cases "old = None \<or> getPivotId ps d \<noteq> getPivotId ops d")
    case True
    then show ?thesis by (auto split: option.split)
  next
    case False
    then obtain x where x: "old = Some x" "getPivotId ps d = getPivotId ops d" by auto
    have "keys_defined (copyExpandedState ps ops (Suc d) t (map_of (kids x) v)) = keys_defined t"
      if "(v, t) \<in> set ks" for v t
      using "1.IH" [OF x(1) _ that refl] x(2) by simp
    with x show ?thesis by (auto simp: list_all_iff)
  qed
qed

lemma keys_defined_fresh:
  "keys_defined (fresh_tree oth cfg d ps rows) \<longleftrightarrow> (\<forall>p\<in>set ps. \<forall>r\<in>set rows. r p \<noteq> Undefined)"
proof (induction ps arbitrary: d rows)
  case Nil
  show ?case by (simp add: fresh_tree_leaf)
next
  case (Cons p ps)
  obtain ks where t: "fresh_tree oth cfg d (p # ps) rows = Node (null_aggs cfg) (null_aggs cfg) (0 < d) ks"
    and dist: "distinct (map fst ks)"
    and get: "\<forall>v. map_of ks v = (if filter (\<lambda>r. r p = v) rows = [] then None
      else Some (fresh_tree oth cfg (Suc d) ps (filter (\<lambda>r. r p = v) rows)))"
    using fresh_tree_inner [of oth cfg d p ps rows] by blast
  have kid: "(v, u) \<in> set ks \<longleftrightarrow>
      (\<exists>r\<in>set rows. r p = v) \<and> u = fresh_tree oth cfg (Suc d) ps (filter (\<lambda>r. r p = v) rows)" for v u
    using get dist map_of_eq_Some_iff [of ks v u] by (auto simp: filter_empty_conv split: if_splits)
  have "keys_defined (fresh_tree oth cfg d (p # ps) rows) \<longleftrightarrow>
      (\<forall>v. (\<exists>r\<in>set rows. r p = v) \<longrightarrow> v \<noteq> Undefined \<and>
        keys_defined (fresh_tree oth cfg (Suc d) ps (filter (\<lambda>r. r p = v) rows)))"
  proof -
    have "keys_defined (fresh_tree oth cfg d (p # ps) rows) \<longleftrightarrow>
        (\<forall>v u. (v, u) \<in> set ks \<longrightarrow> v \<noteq> Undefined \<and> keys_defined u)"
      by (auto simp: t list_all_iff)
    then show ?thesis unfolding kid by blast
  qed
  also have "\<dots> \<longleftrightarrow> (\<forall>r\<in>set rows. r p \<noteq> Undefined) \<and> (\<forall>q\<in>set ps. \<forall>r\<in>set rows. r q \<noteq> Undefined)"
    by (auto simp: Cons.IH)
  finally show ?case by auto
qed

lemma loaded_row_defined: "loaded_row aliases raw i \<noteq> Undefined \<longleftrightarrow> i \<in> snd ` set aliases"
proof -
  have "foldl (\<lambda>row (alias, i). row(i := as_value (raw alias))) r aliases i \<noteq> Undefined \<longleftrightarrow>
      r i \<noteq> Undefined \<or> i \<in> snd ` set aliases" for r
    by (induction aliases arbitrary: r) (auto split: if_splits)
  then show ?thesis by (simp add: loaded_row_def)
qed

subsection \<open>Sorting never fails while the sort order is known\<close>

definition known_item :: "pivot_config \<Rightarrow> sort_item \<Rightarrow> bool" where
  "known_item cfg it =
     (case it of SortPivot i dir \<Rightarrow> i \<in> set (cfg_pivots cfg)
      | SortAggregation i dir \<Rightarrow> i \<in> aggregationId ` set (cfg_aggregations cfg))"

lemma find_id: "i \<in> h ` set xs \<Longrightarrow> \<exists>x. find (\<lambda>x. h x = i) xs = Some x"
  by (induction xs) auto

lemma compare_nodes_known:
  assumes "fst a \<noteq> Undefined" "fst b \<noteq> Undefined"
  shows "list_all (known_item cfg) order \<Longrightarrow> \<exists>c. compare_nodes oth cfg d order a b = Inr c"
proof (induction order)
  case (Cons it order)
  then obtain c where c: "compare_nodes oth cfg d order a b = Inr c" by auto
  show ?case
  proof (cases it)
    case (SortPivot i dir)
    with Cons.prems have "i \<in> (\<lambda>n. cfg_pivots cfg ! n) ` set [0..<length (cfg_pivots cfg)]"
      by (auto simp: known_item_def in_set_conv_nth)
    from find_id [OF this] c SortPivot assms show ?thesis by (auto simp: Let_def)
  next
    case (SortAggregation i dir)
    with Cons.prems have "i \<in> aggregationId ` set (cfg_aggregations cfg)" by (simp add: known_item_def)
    from find_id [OF this] c SortAggregation show ?thesis by (auto simp: Let_def)
  qed
qed simp

lemma insert_sorted_total:
  "\<forall>y\<in>set ys. \<exists>c. cmp y x = Inr c \<Longrightarrow> \<exists>zs. insert_sorted cmp x ys = Inr zs \<and> set zs = insert x (set ys)"
proof (induction ys)
  case (Cons y ys)
  then obtain c zs where "cmp y x = Inr c" "insert_sorted cmp x ys = Inr zs" "set zs = insert x (set ys)"
    by auto
  then show ?case by auto
qed simp

lemma sort_from_total:
  "\<forall>x\<in>set acc \<union> set xs. \<forall>y\<in>set acc \<union> set xs. \<exists>c. cmp x y = Inr c \<Longrightarrow>
     \<exists>zs. sort_from cmp acc xs = Inr zs \<and> set zs = set acc \<union> set xs"
proof (induction xs arbitrary: acc)
  case (Cons x xs)
  have "\<forall>y\<in>set acc. \<exists>c. cmp y x = Inr c" using Cons.prems by simp
  from insert_sorted_total [of acc cmp x, OF this] obtain acc' where
    acc': "insert_sorted cmp x acc = Inr acc'" "set acc' = insert x (set acc)" by blast
  have eq: "set acc' \<union> set xs = set acc \<union> set (x # xs)" using acc'(2) by auto
  have "\<exists>zs. sort_from cmp acc' xs = Inr zs \<and> set zs = set acc' \<union> set xs"
    using Cons.prems unfolding eq [symmetric] by (rule Cons.IH)
  with acc' show ?case by auto
qed simp

lemma insert_sorted_set: "insert_sorted cmp x ys = Inr zs \<Longrightarrow> set zs = insert x (set ys)"
proof (induction ys arbitrary: zs)
  case (Cons y ys)
  then obtain c where c: "cmp y x = Inr c" by (cases "cmp y x") simp_all
  show ?case
  proof (cases "0 < c")
    case True
    with Cons.prems c have "zs = x # y # ys" by simp
    then show ?thesis by simp
  next
    case False
    with Cons.prems c obtain us where us: "insert_sorted cmp x ys = Inr us" "zs = y # us"
      by (cases "insert_sorted cmp x ys") simp_all
    with Cons.IH [OF us(1)] show ?thesis by auto
  qed
qed simp

lemma sort_from_set: "sort_from cmp acc xs = Inr zs \<Longrightarrow> set zs = set acc \<union> set xs"
proof (induction xs arbitrary: acc)
  case (Cons x xs)
  then obtain acc' where acc': "insert_sorted cmp x acc = Inr acc'" "sort_from cmp acc' xs = Inr zs"
    by (cases "insert_sorted cmp x acc") simp_all
  with Cons.IH [OF acc'(2)] insert_sorted_set [OF acc'(1)] show ?case by simp
qed simp

lemma traverse_total: "\<forall>x\<in>set xs. \<exists>y. f x = Inr y \<Longrightarrow> \<exists>ys. traverse f xs = Inr ys"
  by (induction xs) auto

lemma traverse_keys:
  "traverse (\<lambda>(v, t). map_sum id (Pair v) (f t)) ks = Inr ks' \<Longrightarrow>
     fst ` set ks' = fst ` set ks \<and> ((v, t) \<in> set ks \<longrightarrow> (\<exists>t'. f t = Inr t'))"
proof (induction ks arbitrary: ks')
  case (Cons k ks)
  obtain w u where k: "k = (w, u)" by (cases k)
  from Cons.prems obtain u' ks'' where u: "f u = Inr u'" "ks' = (w, u') # ks''"
      and tr: "traverse (\<lambda>(v, t). map_sum id (Pair v) (f t)) ks = Inr ks''"
    by (cases "f u") (auto simp: k id_def split: sum.splits)
  from u Cons.IH [OF tr] show ?case by (auto simp: k)
qed simp

text \<open>A sort by known columns goes through exactly if no node has an \<open>undefined\<close> pivot value.\<close>

lemma sort_tree_known:
  "list_all (known_item cfg) order \<Longrightarrow> keys_defined t \<Longrightarrow> \<exists>t'. sort_tree oth cfg d order t = Inr t'"
proof (induction oth cfg d order t rule: sort_tree.induct)
  case (1 oth cfg d order self agg c ks)
  show ?case
  proof (cases "order = []")
    case False
    let ?f = "sort_tree oth cfg (Suc d) order"
    have "\<exists>ys. traverse (\<lambda>(v, t). map_sum id (Pair v) (?f t)) ks = Inr ys"
    proof (rule traverse_total, rule ballI)
      fix p assume p: "p \<in> set ks"
      obtain v t where vt: "p = (v, t)" by (cases p)
      with p "1.prems"(2) have "keys_defined t" by (auto simp: list_all_iff)
      from "1.IH" [OF False p vt [symmetric] "1.prems"(1) this] obtain t' where "?f t = Inr t'" by blast
      with vt show "\<exists>y. (case p of (v, t) \<Rightarrow> map_sum id (Pair v) (?f t)) = Inr y" by simp
    qed
    then obtain ys where ys: "traverse (\<lambda>(v, t). map_sum id (Pair v) (?f t)) ks = Inr ys" by blast
    have "Undefined \<notin> fst ` set ks" using "1.prems"(2) by (force simp: list_all_iff)
    then have keys: "Undefined \<notin> fst ` set ys" using traverse_keys [OF ys] by simp
    then have defined: "\<forall>y\<in>set ys. fst y \<noteq> Undefined" by force
    have "\<exists>zs. sort_from (compare_nodes oth cfg (Suc d) order) [] ys = Inr zs \<and> set zs = set [] \<union> set ys"
      using defined compare_nodes_known [OF _ _ "1.prems"(1)] by (intro sort_from_total) simp
    then obtain zs where "sort_from (compare_nodes oth cfg (Suc d) order) [] ys = Inr zs" "set zs = set ys" by auto
    with ys keys False show ?thesis by (simp add: sort_tree.simps)
  qed (simp add: sort_tree.simps)
qed

lemma sort_tree_defined:
  "sort_tree oth cfg d order t = Inr t' \<Longrightarrow> order \<noteq> [] \<Longrightarrow> keys_defined t"
proof (induction oth cfg d order t arbitrary: t' rule: sort_tree.induct)
  case (1 oth cfg d order self agg c ks)
  let ?f = "sort_tree oth cfg (Suc d) order"
  from "1.prems" obtain ys zs where ys: "traverse (\<lambda>(v, t). map_sum id (Pair v) (?f t)) ks = Inr ys"
    and zs: "sort_from (compare_nodes oth cfg (Suc d) order) [] ys = Inr zs" "Undefined \<notin> fst ` set zs"
    by (auto simp: sort_tree.simps split: sum.splits if_splits)
  have "Undefined \<notin> fst ` set ks" using traverse_keys [OF ys] sort_from_set [OF zs(1)] zs(2) by simp
  moreover have "keys_defined t" if kid: "(v, t) \<in> set ks" for v t
  proof -
    obtain u where "?f t = Inr u" using traverse_keys [OF ys, of v t] kid by auto
    from "1.IH" [OF "1.prems"(2) kid refl this "1.prems"(2)] show ?thesis .
  qed
  ultimately show ?case by (force simp: list_all_iff)
qed

text \<open>Every item of the sort order is a pivot or an aggregation of the table.\<close>

definition order_known :: "pivot_state \<Rightarrow> bool" where
  "order_known s = list_all (known_item (pivot_config_of (pivots s) (aggregations s))) (orderBy s)"

lemma order_known_iff:
  "order_known s \<longleftrightarrow>
     (\<forall>i dir. SortPivot i dir \<in> set (orderBy s) \<longrightarrow> i \<in> set (pivots s)) \<and>
     (\<forall>i dir. SortAggregation i dir \<in> set (orderBy s) \<longrightarrow> i \<in> aggregationId ` set (aggregations s))"
proof -
  have "known_item (pivot_config_of ps as) it \<longleftrightarrow>
      (\<forall>i dir. it = SortPivot i dir \<longrightarrow> i \<in> set ps) \<and>
      (\<forall>i dir. it = SortAggregation i dir \<longrightarrow> i \<in> aggregationId ` set as)" for ps as it
    by (cases it) (auto simp: known_item_def pivot_config_of_def)
  then show ?thesis by (auto simp: order_known_def list_all_iff)
qed

text \<open>
  The operations of the menus, on columns that are shown, and the two steps of a reload, one reload at a time.
  An aggregation is replaced only when the table is not sorted by it, and the sorts of the menus are ones that
  do not throw.
\<close>

inductive pivot_step :: "coerced_less \<Rightarrow> pivot_state \<Rightarrow> pivot_state \<Rightarrow> bool" for oth where
  "pivot_step oth s (addPivot p i s)"
| "pivot_step oth s (addAggregation a i s)"
| "i < length (pivots s) \<Longrightarrow> removePivot oth i s = Inr s' \<Longrightarrow> pivot_step oth s s'"
| "i < length (aggregations s) \<Longrightarrow> removeAggregation oth i s = Inr s' \<Longrightarrow> pivot_step oth s s'"
| "i < length (pivots s) \<Longrightarrow> j \<le> length (pivots s) \<Longrightarrow> pivot_step oth s (movePivot i j s)"
| "i < length (aggregations s) \<Longrightarrow> j \<le> length (aggregations s) \<Longrightarrow> pivot_step oth s (moveAggregation i j s)"
| "i < length (aggregations s) \<Longrightarrow> \<forall>dir. SortAggregation (aggregationId (aggregations s ! i)) dir \<notin> set (orderBy s) \<Longrightarrow>
     pivot_step oth s (replaceAggregation i a s)"
| "p \<in> set (pivots s) \<Longrightarrow> sortByPivot oth p dir s = Inr s' \<Longrightarrow> pivot_step oth s s'"
| "a \<in> set (aggregations s) \<Longrightarrow> sortByAggregation oth a dir s = Inr s' \<Longrightarrow> pivot_step oth s s'"
| "clearPivotSort oth p s = Inr s' \<Longrightarrow> pivot_step oth s s'"
| "clearAggregationSort oth a s = Inr s' \<Longrightarrow> pivot_step oth s s'"
| "loading s = None \<Longrightarrow> start_reload oth filtersEqual s = (e, s') \<Longrightarrow> pivot_step oth s s'"
| "loading s = Some aliases \<Longrightarrow> finish_reload oth aliases answer s = (e, s') \<Longrightarrow> pivot_step oth s s'"

lemma request_reload_fields [simp]:
  "pivots (request_reload s) = pivots s" "aggregations (request_reload s) = aggregations s"
  "orderBy (request_reload s) = orderBy s" "pivot_data (request_reload s) = pivot_data s"
  "loading (request_reload s) = loading s"
  by (simp_all add: request_reload_def)

lemma sort_result_fields:
  "sort_result oth s = Inr s' \<Longrightarrow> pivots s' = pivots s \<and> aggregations s' = aggregations s \<and> orderBy s' = orderBy s"
  by (auto simp: sort_result_def split: option.splits sum.splits prod.splits)

lemma build_result_fields:
  "build_result oth rows s = (e, s') \<Longrightarrow>
     pivots s' = pivots s \<and> aggregations s' = aggregations s \<and> orderBy s' = orderBy s \<and> loading s' = loading s \<and>
     data_columnIds (pivot_data s') = data_columnIds (pivot_data s)"
  by (auto simp: build_result_def Let_def split: sum.splits)

lemma start_reload_fields:
  "start_reload oth fe s = (e, s') \<Longrightarrow>
     pivots s' = pivots s \<and> aggregations s' = aggregations s \<and> orderBy s' = orderBy s"
  by (auto simp: start_reload_def Let_def split: option.splits dest!: build_result_fields)

lemma finish_reload_fields:
  "finish_reload oth al answer s = (e, s') \<Longrightarrow>
     pivots s' = pivots s \<and> aggregations s' = aggregations s \<and> orderBy s' = orderBy s"
  by (auto simp: finish_reload_def Let_def split: load_answer.splits if_splits dest!: build_result_fields)

lemma insert_at_set [simp]: "set (insert_at i x xs) = insert x (set xs)"
proof -
  have "set xs = set (take i xs) \<union> set (drop i xs)" by (metis append_take_drop_id set_append)
  then show ?thesis by (auto simp: insert_at_def)
qed

lemma remove_at_set: "i < length xs \<Longrightarrow> set xs = insert (xs ! i) (set (remove_at i xs))"
proof -
  assume "i < length xs"
  then have "set xs = set (take i xs @ xs ! i # drop (Suc i) xs)" by (simp add: id_take_nth_drop [symmetric])
  then show ?thesis by (auto simp: remove_at_def)
qed

lemma moveArrayItem_set: "i < length xs \<Longrightarrow> set (moveArrayItem xs i j) = set xs"
  using remove_at_set [of i xs] by (auto simp: moveArrayItem_def)

lemma list_update_ids:
  assumes "i < length xs" and "j \<in> f ` set xs" and "j \<noteq> f (xs ! i)"
  shows "j \<in> f ` set (xs[i := a])"
proof -
  from assms(2) obtain n where n: "n < length xs" "j = f (xs ! n)" by (auto simp: in_set_conv_nth)
  with assms(3) have "n \<noteq> i" by auto
  with n have "xs[i := a] ! n = xs ! n" and "n < length (xs[i := a])" by auto
  with n(2) show ?thesis by (metis image_eqI nth_mem)
qed

lemma pivot_step_known: "pivot_step oth s s' \<Longrightarrow> order_known s \<Longrightarrow> order_known s'"
proof (induction rule: pivot_step.induct)
  case (3 i s s')
  then show ?case
    using remove_at_set [of i "pivots s"]
    by (auto simp: order_known_iff removePivot_def sortByPivot_def Let_def; blast)
next
  case (4 i s s')
  then show ?case
    using remove_at_set [of i "aggregations s"]
    by (auto simp: order_known_iff removeAggregation_def sortByAggregation_def Let_def; blast)
next
  case (7 i s a)
  then show ?case
    by (auto simp: order_known_iff replaceAggregation_def) (rule list_update_ids; blast)
next
  case (8 p s dir s')
  then show ?case
    by (cases dir; auto simp: order_known_iff sortByPivot_def Let_def dest!: sort_result_fields; blast)
next
  case (9 a s dir s')
  then show ?case
    by (cases dir; auto simp: order_known_iff sortByAggregation_def Let_def dest!: sort_result_fields; blast)
next
  case (10 p s s')
  then show ?case by (auto simp: order_known_iff clearPivotSort_def dest!: sort_result_fields; blast)
next
  case (11 a s s')
  then show ?case by (auto simp: order_known_iff clearAggregationSort_def dest!: sort_result_fields; blast)
next
  case (12 s fe e s')
  then show ?case using start_reload_fields [OF 12(2)] by (simp add: order_known_def)
next
  case (13 s al answer e s')
  then show ?case using finish_reload_fields [OF 13(2)] by (simp add: order_known_def)
qed (auto simp: order_known_iff addPivot_def addAggregation_def movePivot_def moveAggregation_def moveArrayItem_set)

text \<open>
  The rows of a table have a value for every column of its last query, and while a reload waits for its query,
  there are no rows.
\<close>

definition rows_defined :: "requested_data \<Rightarrow> (string \<times> string) list option \<Rightarrow> bool" where
  "rows_defined data l \<longleftrightarrow>
     (case data_result data of None \<Rightarrow> True
      | Some (rows, tree) \<Rightarrow> \<forall>row\<in>set rows. \<forall>i\<in>set (data_columnIds data). row i \<noteq> Undefined) \<and>
     (case l of None \<Rightarrow> True | Some al \<Rightarrow> data_result data = None \<and> data_columnIds data = map snd al)"

definition rows_inv :: "pivot_state \<Rightarrow> bool" where
  "rows_inv s \<longleftrightarrow> rows_defined (pivot_data s) (loading s)"

lemma sort_result_rows: "sort_result oth s = Inr s' \<Longrightarrow> rows_inv s' = rows_inv s"
  by (auto simp: sort_result_def rows_inv_def rows_defined_def split: option.splits sum.splits prod.splits)

lemma build_result_rows:
  assumes "build_result oth rows s = (e, s')" and "loading s = None"
    and "data_result (pivot_data s) = None"
    and "\<forall>row\<in>set rows. \<forall>i\<in>set (data_columnIds (pivot_data s)). row i \<noteq> Undefined"
  shows "rows_inv s'"
proof -
  let ?tree = "case oldTree s of None \<Rightarrow> buildTree oth rows (pivots s) (aggregations s)
    | Some (oldCfg, old) \<Rightarrow> copyExpandedState (pivots s) (cfg_pivots oldCfg) 0
        (buildTree oth rows (pivots s) (aggregations s)) (Some old)"
  let ?sorted = "sort_tree oth (pivot_config_of (pivots s) (aggregations s)) 0 (orderBy s) ?tree"
  have "data_result (pivot_data s') = None \<or> (\<exists>tree. data_result (pivot_data s') = Some (rows, tree))"
    using assms(1,3) by (cases ?sorted) (auto simp: build_result_def Let_def)
  with build_result_fields [OF assms(1)] assms(2,4) show ?thesis
    by (auto simp: rows_inv_def rows_defined_def)
qed

lemma query_aliases_ids: "snd ` set (query_aliases s) \<subseteq> set (query_columnIds s)"
proof -
  have gen: "snd ` set (assign acc xs) \<subseteq> snd ` set acc \<union> snd ` set xs" for acc xs :: "(string \<times> string) list"
  proof (induction xs arbitrary: acc)
    case (Cons x xs)
    have "snd ` set (AList.update (fst x) (snd x) acc) \<subseteq> insert (snd x) (snd ` set acc)"
      by (induction acc) auto
    with Cons.IH [of "AList.update (fst x) (snd x) acc"] show ?case
      by (cases x) (auto simp: assign_def)
  qed (simp add: assign_def)
  have sub: "snd ` set (assign [] xs) \<subseteq> snd ` set xs" for xs :: "(string \<times> string) list"
    using gen [of "[]" xs] by simp
  show ?thesis unfolding query_aliases_def query_columnIds_def by (rule order_trans [OF sub]) auto
qed

text \<open>Rows that are kept have a value for every column of the new query.\<close>

lemma kept_rows_defined:
  assumes "rows_inv s" and "\<not> needs_reload fe s" and "data_result (pivot_data s) = Some (rows, tree)"
    and "row \<in> set rows" and "i \<in> set (query_columnIds s)"
  shows "row i \<noteq> Undefined"
  using assms by (auto simp: rows_inv_def rows_defined_def needs_reload_def list_all_iff)

lemma start_reload_rows:
  assumes "start_reload oth fe s = (e, s')" and inv: "rows_inv s" and idle: "loading s = None"
  shows "rows_inv s'"
proof (cases "if needs_reload fe s then None else map_option fst (data_result (pivot_data s))")
  case None
  with assms(1) show ?thesis by (auto simp: start_reload_def rows_inv_def rows_defined_def)
next
  case (Some rows)
  then obtain tree where keep: "\<not> needs_reload fe s" "data_result (pivot_data s) = Some (rows, tree)"
    by (auto split: if_splits)
  let ?s = "s\<lparr>pivot_data := \<lparr>data_columnIds = map snd (query_aliases s), data_result = None, data_error = None\<rparr>\<rparr>"
  have b: "build_result oth rows ?s = (e, s')" using assms(1) keep by (simp add: start_reload_def)
  show ?thesis
    by (rule build_result_rows [OF b])
      (use idle kept_rows_defined [OF inv keep] query_aliases_ids [of s] in auto)
qed

lemma finish_reload_rows:
  assumes "finish_reload oth al answer s = (e, s')" and "rows_inv s" and "loading s = Some al"
  shows "rows_inv s'"
proof (cases answer)
  case (Rejected x)
  with assms show ?thesis by (auto simp: finish_reload_def rows_inv_def rows_defined_def)
next
  case (Returned err raws)
  show ?thesis
  proof (cases err)
    case (Some x)
    with assms Returned show ?thesis by (auto simp: finish_reload_def rows_inv_def rows_defined_def)
  next
    case None
    let ?s = "s\<lparr>loading := None, pivot_data := (pivot_data s)\<lparr>data_error := None\<rparr>\<rparr>"
    have b: "build_result oth (map (loaded_row al) raws) ?s = (e, s')"
      using assms(1) Returned None by (simp add: finish_reload_def)
    show ?thesis
      by (rule build_result_rows [OF b]) (use assms(2,3) in \<open>auto simp: rows_inv_def rows_defined_def loaded_row_defined\<close>)
  qed
qed

lemma pivot_step_rows: "pivot_step oth s s' \<Longrightarrow> rows_inv s \<Longrightarrow> rows_inv s'"
proof (induction rule: pivot_step.induct)
  case (12 s fe e s')
  then show ?case by (blast intro: start_reload_rows)
next
  case (13 s al answer e s')
  then show ?case by (blast intro: finish_reload_rows)
next
  case (3 i s s')
  then show ?case
    by (auto simp: removePivot_def sortByPivot_def Let_def rows_inv_def)
next
  case (4 i s s')
  then show ?case
    by (auto simp: removeAggregation_def sortByAggregation_def Let_def rows_inv_def)
next
  case (8 p s dir s')
  then show ?case
    by (cases dir; auto simp: sortByPivot_def Let_def dest!: sort_result_rows; simp add: rows_inv_def)
next
  case (9 a s dir s')
  then show ?case
    by (cases dir; auto simp: sortByAggregation_def Let_def dest!: sort_result_rows; simp add: rows_inv_def)
next
  case (10 p s s')
  then show ?case by (auto simp: clearPivotSort_def dest!: sort_result_rows) (simp_all add: rows_inv_def)
next
  case (11 a s s')
  then show ?case by (auto simp: clearAggregationSort_def dest!: sort_result_rows) (simp_all add: rows_inv_def)
qed (auto simp: rows_inv_def addPivot_def addAggregation_def movePivot_def moveAggregation_def replaceAggregation_def)

lemma compare_nodes_error: "compare_nodes oth cfg d order a b = Inl e \<Longrightarrow> e = AssertionFailed"
  by (induction oth cfg d order a b rule: compare_nodes.induct) (auto split: option.splits if_splits simp: Let_def)

lemma insert_sorted_error:
  "insert_sorted cmp x ys = Inl e \<Longrightarrow> \<forall>a b e. cmp a b = Inl e \<longrightarrow> e = E \<Longrightarrow> e = E"
  by (induction ys arbitrary: e) (auto split: sum.splits if_splits)

lemma sort_from_error: "sort_from cmp acc xs = Inl e \<Longrightarrow> \<forall>a b e. cmp a b = Inl e \<longrightarrow> e = E \<Longrightarrow> e = E"
proof (induction xs arbitrary: acc)
  case (Cons x xs)
  show ?case
  proof (cases "insert_sorted cmp x acc")
    case (Inl y)
    with Cons.prems insert_sorted_error [OF Inl Cons.prems(2)] show ?thesis by simp
  next
    case (Inr acc')
    with Cons show ?thesis by simp
  qed
qed simp

lemma traverse_error: "traverse f xs = Inl e \<Longrightarrow> \<exists>x\<in>set xs. f x = Inl e"
  by (induction xs) (auto split: sum.splits)

lemma traverse_length: "traverse f xs = Inr ys \<Longrightarrow> length ys = length xs"
  by (induction xs arbitrary: ys) (auto split: sum.splits)

lemma sort_tree_error: "sort_tree oth cfg d order t = Inl e \<Longrightarrow> e = AssertionFailed"
proof (induction oth cfg d order t arbitrary: e rule: sort_tree.induct)
  case (1 oth cfg d order self agg c ks)
  have ne: "order \<noteq> []" using "1.prems" by (auto simp: sort_tree.simps)
  show ?case
  proof (cases "traverse (\<lambda>(v, t). map_sum id (Pair v) (sort_tree oth cfg (Suc d) order t)) ks")
    case (Inl x)
    then obtain v t where vt: "(v, t) \<in> set ks" "sort_tree oth cfg (Suc d) order t = Inl x"
      using traverse_error [OF Inl] by (auto simp: map_sum_def split: sum.splits)
    from "1.IH" [OF ne vt(1) refl vt(2)] Inl "1.prems" ne show ?thesis by (simp add: sort_tree.simps)
  next
    case (Inr ys)
    show ?thesis
    proof (cases "sort_from (compare_nodes oth cfg (Suc d) order) [] ys")
      case (Inl x)
      have "x = AssertionFailed" using Inl by (rule sort_from_error) (use compare_nodes_error in blast)
      with Inl Inr "1.prems" ne show ?thesis by (simp add: sort_tree.simps)
    next
      case sorted: (Inr zs)
      with Inr "1.prems" ne show ?thesis by (simp add: sort_tree.simps split: if_splits)
    qed
  qed
qed

lemma build_result_throws:
  assumes "order_known s" and "build_result oth rows s = (e, s')"
  shows "e = (if orderBy s \<noteq> [] \<and> (\<exists>p\<in>set (pivots s). \<exists>r\<in>set rows. r p = Undefined)
      then Some AssertionFailed else None) \<and> (e = None \<longrightarrow> data_result (pivot_data s') \<noteq> None)"
proof -
  let ?cfg = "pivot_config_of (pivots s) (aggregations s)"
  let ?built = "buildTree oth rows (pivots s) (aggregations s)"
  let ?tree = "case oldTree s of None \<Rightarrow> ?built
    | Some (oldCfg, old) \<Rightarrow> copyExpandedState (pivots s) (cfg_pivots oldCfg) 0 ?built (Some old)"
  have keys: "keys_defined ?tree \<longleftrightarrow> (\<forall>p\<in>set (pivots s). \<forall>r\<in>set rows. r p \<noteq> Undefined)"
    by (auto simp: buildTree_fresh keys_defined_fresh split: option.split)
  show ?thesis
  proof (cases "sort_tree oth ?cfg 0 (orderBy s) ?tree")
    case (Inl x)
    have "x = AssertionFailed" by (rule sort_tree_error [OF Inl])
    moreover have "\<not> keys_defined ?tree"
      using sort_tree_known [of ?cfg "orderBy s" ?tree oth 0] assms(1) Inl by (auto simp: order_known_def)
    moreover have "orderBy s \<noteq> []" using Inl by (cases ?tree) (auto simp: sort_tree.simps)
    ultimately show ?thesis using assms(2) Inl keys by (auto simp: build_result_def Let_def)
  next
    case (Inr t)
    have "orderBy s \<noteq> [] \<longrightarrow> keys_defined ?tree" using sort_tree_defined [OF Inr] by blast
    with assms(2) Inr keys show ?thesis by (auto simp: build_result_def Let_def)
  qed
qed

lemma start_reload_ok:
  assumes "order_known s \<and> rows_inv s"
  shows "fst (start_reload oth fe s) = None"
proof (cases "if needs_reload fe s then None else map_option fst (data_result (pivot_data s))")
  case None
  then show ?thesis by (simp add: start_reload_def)
next
  case (Some rows)
  then obtain tree where keep: "\<not> needs_reload fe s" "data_result (pivot_data s) = Some (rows, tree)"
    by (auto split: if_splits)
  let ?s = "s\<lparr>pivot_data := \<lparr>data_columnIds = map snd (query_aliases s), data_result = None, data_error = None\<rparr>\<rparr>"
  obtain e s' where b: "build_result oth rows ?s = (e, s')" by (cases "build_result oth rows ?s")
  have "order_known ?s" using assms by (simp add: order_known_def)
  moreover have "r p \<noteq> Undefined" if "p \<in> set (pivots s)" "r \<in> set rows" for p r
    using kept_rows_defined [OF _ keep that(2)] assms that(1) by (simp add: query_columnIds_def)
  ultimately have "e = None" using build_result_throws [OF _ b] by (auto split: if_splits)
  with b keep show ?thesis by (simp add: start_reload_def)
qed

lemma finish_reload_throws:
  assumes "order_known s \<and> rows_inv s"
  shows "case finish_reload oth aliases (Returned None raws) s of (e, s') \<Rightarrow>
      e = (if orderBy s \<noteq> [] \<and> raws \<noteq> [] \<and> \<not> set (pivots s) \<subseteq> snd ` set aliases
           then Some AssertionFailed else None) \<and>
      (e = None \<longrightarrow> data_result (pivot_data s') \<noteq> None)"
proof -
  let ?rows = "map (loaded_row aliases) raws"
  let ?s = "s\<lparr>loading := None, pivot_data := (pivot_data s)\<lparr>data_error := None\<rparr>\<rparr>"
  obtain e s' where b: "build_result oth ?rows ?s = (e, s')" by (cases "build_result oth ?rows ?s")
  have "order_known ?s" using assms by (simp add: order_known_def)
  note t = build_result_throws [OF this b]
  have "loaded_row aliases raw i = Undefined \<longleftrightarrow> i \<notin> snd ` set aliases" for raw i
    using loaded_row_defined [of aliases raw i] by blast
  then have "(\<exists>p\<in>set (pivots s). \<exists>r\<in>set ?rows. r p = Undefined) \<longleftrightarrow>
      raws \<noteq> [] \<and> \<not> set (pivots s) \<subseteq> snd ` set aliases"
    by (cases raws) (auto simp del: image_iff)
  with t b show ?thesis by (simp add: finish_reload_def)
qed

text \<open>
  C7. When a reload throws. From a new table, through every sequence of the operations of its menus and of the
  two steps of its reloads, in which the aggregation that the table is sorted by is not replaced: a reload
  never throws before its query; and when the query returns rows, it throws exactly if the table is sorted by
  something, there is a row, and one of the pivots that the table has by then was not loaded (it was added
  while the query ran, or another pivot has its alias). A reload that gets rows and does not throw makes a tree.
\<close>

theorem reload_throws_iff:
  assumes "(pivot_step oth)\<^sup>*\<^sup>* (new_pivot_state ps aggs) s"
  shows "(loading s = None \<longrightarrow> fst (start_reload oth filtersEqual s) = None) \<and>
    (\<forall>aliases. loading s = Some aliases \<longrightarrow>
       (case finish_reload oth aliases (Returned None raws) s of (e, s') \<Rightarrow>
          e = (if orderBy s \<noteq> [] \<and> raws \<noteq> [] \<and> \<not> set (pivots s) \<subseteq> snd ` set aliases
               then Some AssertionFailed else None) \<and>
          (e = None \<longrightarrow> data_result (pivot_data s') \<noteq> None)))"
proof -
  from assms have inv: "order_known s \<and> rows_inv s"
  proof (induction rule: rtranclp_induct)
    case base
    show ?case by (simp add: order_known_iff new_pivot_state_def rows_inv_def rows_defined_def)
  next
    case (step s1 s2)
    then show ?case using pivot_step_known pivot_step_rows by blast
  qed
  have start: "fst (start_reload oth filtersEqual s) = None"
    by (rule start_reload_ok [OF inv])
  have finish: "case finish_reload oth aliases (Returned None raws) s of (e, s') \<Rightarrow>
      e = (if orderBy s \<noteq> [] \<and> raws \<noteq> [] \<and> \<not> set (pivots s) \<subseteq> snd ` set aliases
           then Some AssertionFailed else None) \<and>
      (e = None \<longrightarrow> data_result (pivot_data s') \<noteq> None)" for aliases
    by (rule finish_reload_throws [OF inv])
  show ?thesis by (intro conjI allI impI start finish)
qed

subsection \<open>Replacing the aggregation a table is sorted by\<close>

lemma sort_tree_unknown:
  assumes "order = SortAggregation i dir # rest" and "i \<notin> aggregationId ` set (cfg_aggregations cfg)"
    and "Suc 0 < length (kids t)"
  shows "sort_tree oth cfg d order t = Inl AssertionFailed"
proof (cases t)
  case (Node self agg c ks)
  have none: "find (\<lambda>a. aggregationId a = i) (cfg_aggregations cfg) = None"
    using assms(2) by (auto simp: find_None_iff)
  then have cmp: "compare_nodes oth cfg (Suc d) order a b = Inl AssertionFailed" for a b
    by (simp add: assms(1))
  have "\<exists>e. sort_tree oth cfg d order t = Inl e"
  proof (cases "traverse (\<lambda>(v, t). map_sum id (Pair v) (sort_tree oth cfg (Suc d) order t)) ks")
    case (Inl x)
    then show ?thesis by (simp add: Node sort_tree.simps assms(1))
  next
    case (Inr ys)
    with assms(3) traverse_length [OF Inr] obtain x y zs where "ys = x # y # zs"
      by (cases ys; cases "tl ys") (auto simp: Node)
    with Inr cmp show ?thesis by (auto simp: Node sort_tree.simps assms(1) simp del: compare_nodes.simps)
  qed
  with sort_tree_error show ?thesis by blast
qed

lemma copyExpandedState_length: "length (kids (copyExpandedState ps ops d t old)) = length (kids t)"
  by (cases t) (simp split: option.split)

lemma buildTree_kids:
  assumes "r \<in> set rows" "r' \<in> set rows" "r p \<noteq> r' p"
  shows "Suc 0 < length (kids (buildTree oth rows (p # ps) aggs))"
proof -
  let ?cfg = "pivot_config_of (p # ps) aggs"
  obtain ks where t: "fresh_tree oth ?cfg 0 (p # ps) rows = Node (null_aggs ?cfg) (null_aggs ?cfg) (0 < (0::nat)) ks"
    and get: "\<forall>v. map_of ks v = (if filter (\<lambda>r. r p = v) rows = [] then None
      else Some (fresh_tree oth ?cfg (Suc 0) ps (filter (\<lambda>r. r p = v) rows)))"
    using fresh_tree_inner [of oth ?cfg 0 p ps rows] by blast
  have "x p \<in> fst ` set ks" if "x \<in> set rows" for x
  proof -
    have "filter (\<lambda>r. r p = x p) rows \<noteq> []" using that by (auto simp: filter_empty_conv)
    with get have "map_of ks (x p) \<noteq> None" by simp
    then show ?thesis by (metis map_of_eq_None_iff)
  qed
  with assms have "card {r p, r' p} \<le> card (fst ` set ks)" by (intro card_mono) auto
  also have "\<dots> \<le> length ks" by (metis card_length length_map list.set_map)
  finally have "Suc 0 < length ks" using assms(3) by simp
  then show ?thesis by (simp add: buildTree_fresh t Let_def)
qed

lemma build_result_error:
  "sort_tree oth (pivot_config_of (pivots s) (aggregations s)) 0 (orderBy s)
     (case oldTree s of None \<Rightarrow> buildTree oth rows (pivots s) (aggregations s)
      | Some (oldCfg, old) \<Rightarrow> copyExpandedState (pivots s) (cfg_pivots oldCfg) 0
          (buildTree oth rows (pivots s) (aggregations s)) (Some old)) = Inl e \<Longrightarrow>
     build_result oth rows s = (Some e, s\<lparr>oldTree := None\<rparr>)"
  by (simp add: build_result_def Let_def)

text \<open>
  Replacing the aggregation by which a table is sorted breaks the table: the sort order still names it, and
  the next reload that fetches rows with two values of the first pivot throws, with no result and the old
  tree lost.
\<close>

theorem replaced_sort_throws:
  assumes "orderBy s = SortAggregation (aggregationId a) dir # rest" and "pivots s = p # ps"
    and "aggregationId a \<notin> aggregationId ` set ((aggregations s)[i := b])"
    and "r \<in> set raws" "r' \<in> set raws" "loaded_row aliases r p \<noteq> loaded_row aliases r' p"
  shows "\<exists>s'. finish_reload oth aliases (Returned None raws) (replaceAggregation i b s) = (Some AssertionFailed, s') \<and>
    oldTree s' = None \<and> orderBy s' = orderBy s"
proof -
  let ?s1 = "replaceAggregation i b s" and ?rows = "map (loaded_row aliases) raws"
  let ?s = "?s1\<lparr>loading := None, pivot_data := (pivot_data ?s1)\<lparr>data_error := None\<rparr>\<rparr>"
  let ?cfg = "pivot_config_of (pivots ?s) (aggregations ?s)"
  let ?built = "buildTree oth ?rows (pivots ?s) (aggregations ?s)"
  let ?tree = "case oldTree ?s of None \<Rightarrow> ?built
    | Some (oldCfg, old) \<Rightarrow> copyExpandedState (pivots ?s) (cfg_pivots oldCfg) 0 ?built (Some old)"
  have "Suc 0 < length (kids ?built)"
    using buildTree_kids [of "loaded_row aliases r" ?rows "loaded_row aliases r'" p oth ps] assms(4-6)
    by (simp add: replaceAggregation_def assms(2))
  then have "Suc 0 < length (kids ?tree)"
    by (simp add: copyExpandedState_length split: option.split prod.split)
  moreover have "orderBy ?s = SortAggregation (aggregationId a) dir # rest"
    and "aggregationId a \<notin> aggregationId ` set (cfg_aggregations ?cfg)"
    using assms(1,3) by (simp_all add: replaceAggregation_def pivot_config_of_def)
  ultimately have "sort_tree oth ?cfg 0 (orderBy ?s) ?tree = Inl AssertionFailed"
    using sort_tree_unknown by blast
  from build_result_error [OF this] have
    "finish_reload oth aliases (Returned None raws) ?s1 = (Some AssertionFailed, ?s\<lparr>oldTree := None\<rparr>)"
    by (simp add: finish_reload_def del: pivot_state.simps)
  moreover have "orderBy ?s = orderBy s" by (simp add: replaceAggregation_def)
  ultimately show ?thesis by simp
qed

definition by_dur :: pivot_state where
  "by_dur = (new_pivot_state [''pid''] [Basic OpSum ''dur''])\<lparr>orderBy := [SortAggregation ''sum(dur)'' DESC]\<rparr>"

text \<open>Two rows as the trace processor returns them, and the aliases of their query.\<close>

definition dur_raws :: "(string \<Rightarrow> sql_lit) list" where
  "dur_raws = map (\<lambda>(p, d) c. if c = ''pid'' then LNum p else LNum d) [(1, 11), (2, 8)]"

definition dur_aliases :: "(string \<times> string) list" where
  "dur_aliases = [(''pid'', ''pid''), (''__dur__sum'', ''sum(dur)''), (''__1__count'', ''count(1)'')]"

text \<open>A table whose first rows arrive, and one to which a pivot has been added in the meantime.\<close>

theorem reload_throws_iff_witness:
  "\<exists>s s'. start_reload (\<lambda>a b. False) True (new_pivot_state [''pid''] [Basic OpSum ''dur'']) = (None, s) \<and>
     loading s = Some dur_aliases \<and>
     finish_reload (\<lambda>a b. False) dur_aliases (Returned None dur_raws) s = (None, s') \<and>
     data_result (pivot_data s') \<noteq> None \<and>
     fst (finish_reload (\<lambda>a b. False) dur_aliases (Returned None dur_raws) (addPivot ''tid'' 0 s)) =
       Some AssertionFailed"
proof -
  let ?oth = "\<lambda>a b. False" and ?s0 = "new_pivot_state [''pid''] [Basic OpSum ''dur'']"
  have al: "query_aliases ?s0 = dur_aliases" by code_simp
  define s where "s = snd (start_reload ?oth True ?s0)"
  have s0: "data_result (pivot_data ?s0) = None" "pivots ?s0 = [''pid'']" "orderBy ?s0 \<noteq> []"
    by (simp_all add: new_pivot_state_def)
  have start: "start_reload ?oth True ?s0 = (None, s)" and load: "loading s = Some dur_aliases"
    and ps: "pivots s = [''pid'']" "orderBy s \<noteq> []"
    by (simp_all add: s_def start_reload_def al s0)
  have one: "pivot_step ?oth ?s0 s"
    using start by (intro pivot_step.intros(12)) (simp_all add: new_pivot_state_def)
  have two: "pivot_step ?oth s (addPivot ''tid'' 0 s)" by (rule pivot_step.intros)
  have load': "loading (addPivot ''tid'' 0 s) = Some dur_aliases" and
    ps': "set (pivots (addPivot ''tid'' 0 s)) = {''pid'', ''tid''}" "orderBy (addPivot ''tid'' 0 s) \<noteq> []"
    using load ps by (auto simp: addPivot_def)
  have ids: "snd ` set dur_aliases = {''pid'', ''sum(dur)'', ''count(1)''}" and raws: "dur_raws \<noteq> []"
    by (simp_all add: dur_aliases_def dur_raws_def)
  have reach: "(pivot_step ?oth)\<^sup>*\<^sup>* ?s0 s" using one by (rule r_into_rtranclp)
  then have reach': "(pivot_step ?oth)\<^sup>*\<^sup>* ?s0 (addPivot ''tid'' 0 s)"
    using two by (rule rtranclp.rtrancl_into_rtrancl)
  obtain e s' where run: "finish_reload ?oth dur_aliases (Returned None dur_raws) s = (e, s')"
    by (cases "finish_reload ?oth dur_aliases (Returned None dur_raws) s")
  obtain e2 s2 where run': "finish_reload ?oth dur_aliases (Returned None dur_raws) (addPivot ''tid'' 0 s) = (e2, s2)"
    by (cases "finish_reload ?oth dur_aliases (Returned None dur_raws) (addPivot ''tid'' 0 s)")
  have "e = None \<and> data_result (pivot_data s') \<noteq> None"
    using reload_throws_iff [OF reach, of True dur_raws, THEN conjunct2, rule_format, OF load] run ps
    by (simp add: ids)
  moreover have "e2 = Some AssertionFailed"
    using reload_throws_iff [OF reach', of True dur_raws, THEN conjunct2, rule_format, OF load'] run' ps' raws
    by (simp add: ids)
  ultimately show ?thesis using start load run run' by (intro exI [of _ s] exI [of _ s']) simp
qed

theorem replaced_sort_throws_witness:
  "\<exists>s'. finish_reload (\<lambda>a b. False) dur_aliases (Returned None dur_raws)
     (replaceAggregation 0 (Basic OpMax ''dur'') by_dur) = (Some AssertionFailed, s')"
proof -
  have "dur_raws ! 0 \<in> set dur_raws" "dur_raws ! 1 \<in> set dur_raws" by (simp_all add: dur_raws_def)
  moreover have "loaded_row dur_aliases (dur_raws ! 0) ''pid'' \<noteq> loaded_row dur_aliases (dur_raws ! 1) ''pid''"
    by (simp add: dur_raws_def dur_aliases_def loaded_row_def)
  moreover have "orderBy by_dur = SortAggregation (aggregationId (Basic OpSum ''dur'')) DESC # []"
    and "pivots by_dur = ''pid'' # []"
    by (simp_all add: by_dur_def new_pivot_state_def basic_id_def)
  moreover have "aggregationId (Basic OpSum ''dur'') \<notin>
      aggregationId ` set ((aggregations by_dur)[0 := Basic OpMax ''dur''])"
    by (simp add: by_dur_def new_pivot_state_def basic_id_def count_aggregation_def)
  ultimately show ?thesis
    using replaced_sort_throws [of by_dur "Basic OpSum ''dur''" DESC "[]" "''pid''" "[]" 0 "Basic OpMax ''dur''"
        "dur_raws ! 0" dur_raws "dur_raws ! 1" dur_aliases "\<lambda>a b. False"] by blast
qed

end
