(* ===== verification/Pivot_Table_Shown.thy ===== *)
theory Pivot_Table_Shown
  imports Pivot_State "HOL-Library.Multiset"
begin

text \<open>
  What a pivot table shows after a reload: sorting and copying the expanded state keep the nodes and their
  aggregates, so every node of the table holds the aggregates of the rows that satisfy its filters; and
  nodes that were there before are expanded as before.
\<close>

subsection \<open>Copying the expanded state\<close>

lemma map_of_map_kids: "map_of (map (\<lambda>(v, t). (v, f v t)) ks) v = map_option (f v) (map_of ks v)"
  by (induction ks) auto

lemma copyExpandedState_values:
  "map_option aggregationValues (node_at (copyExpandedState ps ops d t old) path) =
     map_option aggregationValues (node_at t path)"
proof (induction path arbitrary: d t old)
  case Nil
  show ?case by (cases t) (simp split: option.split)
next
  case (Cons v path)
  obtain self agg c ks where t: "t = Node self agg c ks" by (cases t)
  show ?case
  proof (cases old)
    case (Some o')
    then show ?thesis
      using Cons.IH by (auto simp: t map_of_map_kids split: option.split)
  qed (simp add: t)
qed

lemma copyExpandedState_collapsed:
  "node_at t path = Some n \<Longrightarrow> node_at old path = Some u \<Longrightarrow>
     \<forall>k\<le>length path. getPivotId ps (d + k) = getPivotId ops (d + k) \<Longrightarrow>
     map_option collapsed (node_at (copyExpandedState ps ops d t (Some old)) path) = Some (collapsed u)"
proof (induction path arbitrary: d t old)
  case Nil
  then show ?case by (cases t) auto
next
  case (Cons v path)
  obtain self agg c ks where t: "t = Node self agg c ks" by (cases t)
  from Cons.prems obtain x y where x: "map_of ks v = Some x" "node_at x path = Some n" and
    y: "map_of (kids old) v = Some y" "node_at y path = Some u"
    by (auto simp: t split: option.splits)
  have "\<forall>k\<le>length path. getPivotId ps (Suc d + k) = getPivotId ops (Suc d + k)"
    using Cons.prems(3) by auto
  from Cons.IH [OF x(2) y(2) this] have
    "map_option collapsed (node_at (copyExpandedState ps ops (Suc d) x (Some y)) path) = Some (collapsed u)" .
  moreover have "getPivotId ps d = getPivotId ops d" using Cons.prems(3) by (metis add_0_right zero_le)
  ultimately show ?case by (simp add: t map_of_map_kids x(1) y(1))
qed

subsection \<open>Sorting\<close>

text \<open>The pivot values of siblings differ, in the whole tree.\<close>

fun keys_differ :: "pivot_tree \<Rightarrow> bool" where
  "keys_differ (Node self agg c ks) = (distinct (map fst ks) \<and> list_all (\<lambda>(v, t). keys_differ t) ks)"

lemma insert_sorted_mset: "insert_sorted cmp x ys = Inr zs \<Longrightarrow> mset zs = add_mset x (mset ys)"
  by (induction ys arbitrary: zs) (auto split: sum.splits if_splits)

lemma sort_from_mset: "sort_from cmp acc xs = Inr zs \<Longrightarrow> mset zs = mset acc + mset xs"
  by (induction xs arbitrary: acc) (auto split: sum.splits dest!: insert_sorted_mset)

lemma traverse_kids:
  "traverse (\<lambda>(v, t). map_sum id (Pair v) (f t)) ks = Inr ks' \<Longrightarrow>
     map fst ks' = map fst ks \<and>
     (case map_of ks v of None \<Rightarrow> map_of ks' v = None | Some t \<Rightarrow> \<exists>t'. f t = Inr t' \<and> map_of ks' v = Some t')"
  by (induction ks arbitrary: ks') (auto simp: map_sum_def split: sum.splits option.splits)

lemma map_of_same_mset:
  assumes "mset xs = mset ys" and "distinct (map fst ys)"
  shows "map_of xs = map_of ys"
proof -
  have "distinct (map fst xs)" using assms by (metis mset_eq_imp_distinct_iff mset_map)
  moreover have "set xs = set ys" using assms(1) by (rule mset_eq_setD)
  ultimately show ?thesis using assms(2) by (simp add: map_of_inject_set)
qed

lemma sort_tree_values:
  "sort_tree oth cfg d order t = Inr t' \<Longrightarrow> keys_differ t \<Longrightarrow>
     map_option aggregationValues (node_at t' path) = map_option aggregationValues (node_at t path)"
proof (induction path arbitrary: d t t')
  case Nil
  then show ?case by (cases t) (auto simp: sort_tree.simps split: sum.splits if_splits)
next
  case (Cons v path)
  obtain self agg c ks where t: "t = Node self agg c ks" by (cases t)
  show ?case
  proof (cases "order = []")
    case True
    with Cons.prems(1) show ?thesis by (simp add: t sort_tree.simps)
  next
    case False
    with Cons.prems(1) obtain ks' ks'' where
      tr: "traverse (\<lambda>(v, t). map_sum id (Pair v) (sort_tree oth cfg (Suc d) order t)) ks = Inr ks'" and
      so: "sort_from (compare_nodes oth cfg (Suc d) order) [] ks' = Inr ks''" and t': "t' = Node self agg c ks''"
      by (auto simp: t sort_tree.simps split: sum.splits if_splits)
    have "map fst ks' = map fst ks" using traverse_kids [OF tr] by blast
    with Cons.prems(2) have "map_of ks'' = map_of ks'"
      using sort_from_mset [OF so] by (intro map_of_same_mset) (auto simp: t)
    moreover have "case map_of ks v of None \<Rightarrow> map_of ks' v = None
        | Some u \<Rightarrow> \<exists>u'. sort_tree oth cfg (Suc d) order u = Inr u' \<and> map_of ks' v = Some u'"
      using traverse_kids [OF tr] by blast
    moreover have "keys_differ u" if "map_of ks v = Some u" for u
      using Cons.prems(2) map_of_SomeD [OF that] by (auto simp: t list_all_iff)
    ultimately show ?thesis using Cons.IH by (auto simp: t t' split: option.splits)
  qed
qed

lemma keys_differ_kids: "keys_differ t \<longleftrightarrow> distinct (map fst (kids t)) \<and> (\<forall>(v, u)\<in>set (kids t). keys_differ u)"
  by (cases t) (auto simp: list_all_iff)

lemma map_kids_keys: "map fst (map (\<lambda>(v, t). (v, f v t)) ks) = map fst ks"
  by (induction ks) auto

lemma update_tree_keys: "keys_differ t \<Longrightarrow> keys_differ (update_tree oth cfg t)"
proof (induction oth cfg t rule: update_tree.induct)
  case (1 oth cfg self agg c ks)
  have "keys_differ (update_tree oth cfg u)" if "(v, u) \<in> set ks" for v u
    using "1.IH" [OF that refl] "1.prems" that by (auto simp: list_all_iff)
  with "1.prems" show ?case
    by (auto simp: Let_def list_all_iff map_kids_keys simp del: map_map)
qed

lemma copyExpandedState_keys: "keys_differ t \<Longrightarrow> keys_differ (copyExpandedState ps ops d t old)"
proof (induction ps ops d t old rule: copyExpandedState.induct)
  case (1 ps ops d self agg c ks old)
  show ?case
  proof (cases old)
    case None
    with "1.prems" show ?thesis by simp
  next
    case (Some x)
    show ?thesis
    proof (cases "getPivotId ps d = getPivotId ops d")
      case True
      have "keys_differ (copyExpandedState ps ops (Suc d) u (map_of (kids x) v))" if "(v, u) \<in> set ks" for v u
        using "1.IH" [OF Some _ that refl] True "1.prems" that by (auto simp: list_all_iff)
      with "1.prems" True show ?thesis
        by (auto simp: Some list_all_iff map_kids_keys simp del: map_map)
    next
      case False
      with "1.prems" show ?thesis by (simp add: Some)
    qed
  qed
qed

lemma fresh_tree_keys: "keys_differ (fresh_tree oth cfg d ps rows)"
proof (induction ps arbitrary: d rows)
  case Nil
  show ?case by (simp add: fresh_tree_leaf)
next
  case (Cons p ps)
  obtain ks where "fresh_tree oth cfg d (p # ps) rows = Node (null_aggs cfg) (null_aggs cfg) (0 < d) ks"
    and dist: "distinct (map fst ks)"
    and get: "\<forall>v. map_of ks v = (if filter (\<lambda>r. r p = v) rows = [] then None
      else Some (fresh_tree oth cfg (Suc d) ps (filter (\<lambda>r. r p = v) rows)))"
    using fresh_tree_inner [of oth cfg d p ps rows] by blast
  moreover have "keys_differ u" if "(v, u) \<in> set ks" for v u
  proof -
    have "map_of ks v = Some u" using that dist by simp
    with get have "u = fresh_tree oth cfg (Suc d) ps (filter (\<lambda>r. r p = v) rows)" by (simp split: if_splits)
    with Cons.IH show ?thesis by simp
  qed
  ultimately show ?case by (auto simp: list_all_iff)
qed

subsection \<open>After a reload\<close>

lemma build_result_tree:
  assumes "build_result oth rows s = (None, s')" and "data_result (pivot_data s') = Some (rows', cfg, tree)"
  shows "rows' = rows \<and> cfg = pivot_config_of (pivots s) (aggregations s) \<and>
    sort_tree oth cfg 0 (orderBy s) (case oldTree s of None \<Rightarrow> buildTree oth rows (pivots s) (aggregations s)
      | Some (oldCfg, old) \<Rightarrow> copyExpandedState (pivots s) (cfg_pivots oldCfg) 0
          (buildTree oth rows (pivots s) (aggregations s)) (Some old)) = Inr tree"
  using assms by (auto simp: build_result_def Let_def split: sum.splits)

text \<open>Both ways to end a reload build the tree with the pivots and aggregations of the table.\<close>

lemma reload_builds:
  assumes "(if atOnce then start_reload oth fe s else finish_reload oth al (Returned None raws) s) = (None, s')"
    and "data_result (pivot_data s') = Some r"
  shows "\<exists>rows s1. build_result oth rows s1 = (None, s') \<and> pivots s1 = pivots s \<and> aggregations s1 = aggregations s"
proof (cases atOnce)
  case True
  let ?s = "s\<lparr>pivot_data := \<lparr>data_columnIds = map snd (query_aliases s), data_result = None, data_error = None\<rparr>\<rparr>"
  from True assms obtain rows where "build_result oth rows ?s = (None, s')"
    by (auto simp: start_reload_def Let_def split: option.splits)
  then show ?thesis by (intro exI [of _ rows] exI [of _ ?s]) simp
next
  case False
  let ?s = "s\<lparr>loading := None, pivot_data := (pivot_data s)\<lparr>data_error := None\<rparr>\<rparr>"
  from False assms(1) have "build_result oth (map (loaded_row al) raws) ?s = (None, s')"
    by (simp add: finish_reload_def)
  then show ?thesis by (intro exI [of _ "map (loaded_row al) raws"] exI [of _ ?s]) simp
qed

text \<open>Three rows of slices by process and thread, as they are returned, and the aliases of their query.\<close>

definition tid_raws :: "(string \<Rightarrow> sql_lit) list" where
  "tid_raws = map (\<lambda>(p, t, d) c. if c = ''pid'' then LNum p else if c = ''tid'' then LNum t else LNum d)
     [(1, 10, 5), (1, 11, 6), (2, 20, 8)]"

definition tid_aliases :: "(string \<times> string) list" where
  "tid_aliases = [(''pid'', ''pid''), (''tid'', ''tid''), (''__dur__sum'', ''sum(dur)''), (''__1__count'', ''count(1)'')]"



end
