(* ===== verification/Plugin_Manager_Correct.thy ===== *)
theory Plugin_Manager_Correct
  imports Plugin_Manager
begin

text \<open>
  The plugin manager is correct: the sort succeeds exactly when everything that is needed is registered
  and free of cycles, and then orders it with dependencies first; plugins are activated once, after what
  they depend on; and while a plugin loads, the plugins it depends on can be got.
\<close>

subsection \<open>Dependencies\<close>

definition deps_of :: "plugin_wrapper registry \<Rightarrow> string \<Rightarrow> string list" where
  "deps_of reg p = (case map_of reg p of None \<Rightarrow> [] | Some w \<Rightarrow> dependencies w)"

definition needs :: "plugin_wrapper registry \<Rightarrow> (string \<times> string) set" where
  "needs reg = {(p, d). d \<in> set (deps_of reg p)}"

text \<open>A plugin that is not registered, or that needs itself in the end.\<close>

definition unsortable :: "plugin_wrapper registry \<Rightarrow> string \<Rightarrow> bool" where
  "unsortable reg q \<longleftrightarrow> map_of reg q = None \<or> (q, q) \<in> (needs reg)\<^sup>+"

definition dep_ordered :: "plugin_wrapper registry \<Rightarrow> string list \<Rightarrow> bool" where
  "dep_ordered reg ord \<longleftrightarrow>
     (\<forall>xs p ys. ord = xs @ p # ys \<longrightarrow>
        map_of reg p \<noteq> None \<and> p \<notin> set xs \<and> set (deps_of reg p) \<subseteq> set xs)"

lemma dep_ordered_Nil [simp]: "dep_ordered reg []"
  by (simp add: dep_ordered_def)

lemma dep_ordered_snoc:
  "dep_ordered reg (ord @ [p]) \<longleftrightarrow>
     dep_ordered reg ord \<and> map_of reg p \<noteq> None \<and> p \<notin> set ord \<and> set (deps_of reg p) \<subseteq> set ord"
proof
  assume l: "dep_ordered reg (ord @ [p])"
  have "map_of reg q \<noteq> None \<and> q \<notin> set xs \<and> set (deps_of reg q) \<subseteq> set xs"
    if "ord @ [p] = xs @ q # ys" for xs q ys
    using l that unfolding dep_ordered_def by blast
  from this [of ord p "[]"] this [of _ _ "_ @ [p]"] show
    "dep_ordered reg ord \<and> map_of reg p \<noteq> None \<and> p \<notin> set ord \<and> set (deps_of reg p) \<subseteq> set ord"
    by (simp add: dep_ordered_def)
next
  assume r: "dep_ordered reg ord \<and> map_of reg p \<noteq> None \<and> p \<notin> set ord \<and> set (deps_of reg p) \<subseteq> set ord"
  show "dep_ordered reg (ord @ [p])"
    unfolding dep_ordered_def
  proof (intro allI impI)
    fix xs q ys
    assume o: "ord @ [p] = xs @ q # ys"
    show "map_of reg q \<noteq> None \<and> q \<notin> set xs \<and> set (deps_of reg q) \<subseteq> set xs"
    proof (cases ys rule: rev_cases)
      case Nil
      with o r show ?thesis by simp
    next
      case (snoc zs z)
      with o have "ord = xs @ q # zs" by simp
      with r show ?thesis unfolding dep_ordered_def by blast
    qed
  qed
qed

lemma dep_ordered_distinct: "dep_ordered reg ord \<Longrightarrow> distinct ord"
  by (induction ord rule: rev_induct) (auto simp: dep_ordered_snoc)

lemma dep_ordered_registered: "dep_ordered reg ord \<Longrightarrow> p \<in> set ord \<Longrightarrow> map_of reg p \<noteq> None"
  by (induction ord rule: rev_induct) (auto simp: dep_ordered_snoc)

lemma dep_ordered_before:
  assumes "dep_ordered reg (xs @ q # ys)" and "(q, r) \<in> (needs reg)\<^sup>+"
  shows "r \<in> set xs"
  using assms(2)
proof (induction rule: trancl_induct)
  case (base r)
  with assms(1) show ?case by (auto simp: dep_ordered_def needs_def)
next
  case (step r s)
  from step.IH obtain as bs where xs: "xs = as @ r # bs" by (meson split_list)
  with assms(1) have "set (deps_of reg r) \<subseteq> set as" by (auto simp: dep_ordered_def)
  with step.hyps(2) xs show ?case by (auto simp: needs_def)
qed

lemma dep_ordered_not_cyclic:
  assumes "dep_ordered reg ord" and "q \<in> set ord"
  shows "\<not> unsortable reg q"
proof
  from assms(2) obtain xs ys where ord: "ord = xs @ q # ys" by (meson split_list)
  assume "unsortable reg q"
  with dep_ordered_registered [OF assms] have "(q, q) \<in> (needs reg)\<^sup>+" by (auto simp: unsortable_def)
  with assms(1) ord dep_ordered_before have "q \<in> set xs" by blast
  with assms(1) ord show False by (auto simp: dep_ordered_def)
qed

lemma dep_ordered_closed:
  assumes "dep_ordered reg ord" and "set ps \<subseteq> set ord"
  shows "(needs reg)\<^sup>* `` set ps \<subseteq> set ord"
proof -
  have "q \<in> set ord" if "(p, q) \<in> (needs reg)\<^sup>*" and "p \<in> set ord" for p q
    using that
  proof (induction rule: rtrancl_induct)
    case (step q r)
    then obtain xs ys where "ord = xs @ q # ys" by (meson split_list)
    with assms(1) step.hyps(2) show ?case by (auto simp: dep_ordered_def needs_def)
  qed
  with assms(2) show ?thesis by auto
qed

subsection \<open>The sort\<close>

lemma registry_get_deps: "registry_get p reg = Inr w \<Longrightarrow> deps_of reg p = dependencies w"
  by (simp add: registry_get_Inr deps_of_def)

lemma visit_sound:
  "visit reg visiting p ord = Inr ord' \<Longrightarrow> dep_ordered reg ord \<Longrightarrow>
     dep_ordered reg ord' \<and> p \<in> set ord' \<and>
     (\<exists>zs. ord' = ord @ zs \<and> set zs \<subseteq> (needs reg)\<^sup>* `` {p} \<and> set zs \<inter> set visiting = {})"
  "visit_all reg visiting ps ord = Inr ord' \<Longrightarrow> dep_ordered reg ord \<Longrightarrow>
     dep_ordered reg ord' \<and> set ps \<subseteq> set ord' \<and>
     (\<exists>zs. ord' = ord @ zs \<and> set zs \<subseteq> (needs reg)\<^sup>* `` set ps \<and> set zs \<inter> set visiting = {})"
proof (induction reg visiting p ord and reg visiting ps ord arbitrary: ord' and ord'
    rule: visit_visit_all.induct)
  case (1 reg visiting p ord)
  from "1.prems"(1) obtain w where w: "registry_get p reg = Inr w"
    by (auto simp: visit.simps [of reg visiting p ord] split: sum.splits)
  show ?case
  proof (cases "p \<in> set ord")
    case True
    with 1 w show ?thesis by (auto simp: visit.simps [of reg visiting p ord])
  next
    case False
    with "1.prems"(1) w obtain ord2 where
      new: "p \<notin> set visiting" and v: "visit_all reg (visiting @ [p]) (dependencies w) ord = Inr ord2" and
      ord': "ord' = ord2 @ [p]"
      by (auto simp: visit.simps [of reg visiting p ord] split: if_splits sum.splits)
    from "1.IH" [OF w False new v "1.prems"(2)] obtain zs where
      o2: "dep_ordered reg ord2" "set (dependencies w) \<subseteq> set ord2" "ord2 = ord @ zs" and
      zs: "set zs \<subseteq> (needs reg)\<^sup>* `` set (dependencies w)" "set zs \<inter> set (visiting @ [p]) = {}"
      by blast
    have "(needs reg)\<^sup>* `` set (dependencies w) \<subseteq> (needs reg)\<^sup>* `` {p}"
      using registry_get_deps [OF w] by (auto simp: needs_def intro: converse_rtrancl_into_rtrancl)
    with zs(1) have zs1: "set (zs @ [p]) \<subseteq> (needs reg)\<^sup>* `` {p}" by auto
    have "p \<notin> set ord2" using False o2(3) zs(2) by auto
    moreover have "map_of reg p \<noteq> None" using w by (simp add: registry_get_Inr)
    ultimately have "dep_ordered reg ord'"
      using o2(1,2) registry_get_deps [OF w] by (simp add: ord' dep_ordered_snoc)
    then show ?thesis using zs1 o2(3) zs(2) new by (intro conjI exI [of _ "zs @ [p]"]) (auto simp: ord')
  qed
next
  case (2 reg visiting ord)
  then show ?case by auto
next
  case (3 reg visiting d ds ord)
  from "3.prems"(1) obtain ord1 where
    v: "visit reg visiting d ord = Inr ord1" "visit_all reg visiting ds ord1 = Inr ord'"
    by (auto split: sum.splits)
  from "3.IH"(1) [OF v(1) "3.prems"(2)] obtain ys where
    y: "dep_ordered reg ord1" "d \<in> set ord1" "ord1 = ord @ ys" "set ys \<subseteq> (needs reg)\<^sup>* `` {d}"
      "set ys \<inter> set visiting = {}" by blast
  from "3.IH"(2) [OF v(1) v(2) y(1)] obtain zs where
    z: "dep_ordered reg ord'" "set ds \<subseteq> set ord'" "ord' = ord1 @ zs" "set zs \<subseteq> (needs reg)\<^sup>* `` set ds"
      "set zs \<inter> set visiting = {}" by blast
  show ?case
  proof (intro conjI exI)
    show "ord' = ord @ (ys @ zs)" using y z by simp
  qed (use y z in auto)
qed

lemma visit_error:
  "visit reg visiting p ord = Inl e \<Longrightarrow> \<forall>v\<in>set visiting. (v, p) \<in> (needs reg)\<^sup>+ \<Longrightarrow>
     \<exists>q\<in>(needs reg)\<^sup>* `` {p}. unsortable reg q"
  "visit_all reg visiting ps ord = Inl e \<Longrightarrow> \<forall>v\<in>set visiting. \<forall>p\<in>set ps. (v, p) \<in> (needs reg)\<^sup>+ \<Longrightarrow>
     \<exists>q\<in>(needs reg)\<^sup>* `` set ps. unsortable reg q"
proof (induction reg visiting p ord and reg visiting ps ord rule: visit_visit_all.induct)
  case (1 reg visiting p ord)
  show ?case
  proof (cases "registry_get p reg")
    case (Inl x)
    then have "unsortable reg p" by (auto simp: unsortable_def registry_get_def split: option.splits)
    then show ?thesis by blast
  next
    case (Inr w)
    show ?thesis
    proof (cases "p \<in> set visiting")
      case True
      with "1.prems"(2) have "unsortable reg p" by (auto simp: unsortable_def)
      then show ?thesis by blast
    next
      case False
      with "1.prems"(1) Inr have
        "p \<notin> set ord" and v: "visit_all reg (visiting @ [p]) (dependencies w) ord = Inl e"
        by (auto simp: visit.simps [of reg visiting p ord] split: if_splits sum.splits)
      have step: "(p, d) \<in> needs reg" if "d \<in> set (dependencies w)" for d
        using that registry_get_deps [OF Inr] by (simp add: needs_def)
      then have "\<forall>v\<in>set (visiting @ [p]). \<forall>d\<in>set (dependencies w). (v, d) \<in> (needs reg)\<^sup>+"
        using "1.prems"(2) by (auto intro: trancl_into_trancl)
      from "1.IH" [OF Inr \<open>p \<notin> set ord\<close> False v this] step show ?thesis
        by (blast intro: converse_rtrancl_into_rtrancl)
    qed
  qed
next
  case (2 reg visiting ord)
  then show ?case by simp
next
  case (3 reg visiting d ds ord)
  show ?case
  proof (cases "visit reg visiting d ord")
    case (Inl x)
    with "3.IH"(1) "3.prems" show ?thesis by fastforce
  next
    case (Inr ord1)
    with "3.IH"(2) "3.prems" show ?thesis by fastforce
  qed
qed

text \<open>
  C20. Sorting plugins ends on every registry. When it throws, a plugin that is needed is not registered or
  needs itself in the end; otherwise there is none, and the result lists exactly the plugins needed by
  those given, each once and after all its dependencies.
\<close>

theorem plugins_sorted:
  "case sortPluginsTopologically reg plugins of
     Inl e \<Rightarrow> \<exists>q\<in>(needs reg)\<^sup>* `` set plugins. unsortable reg q
   | Inr ordered \<Rightarrow>
       distinct ordered \<and> set ordered = (needs reg)\<^sup>* `` set plugins \<and>
       (\<forall>xs p ys. ordered = xs @ p # ys \<longrightarrow> set (deps_of reg p) \<subseteq> set xs) \<and>
       \<not> (\<exists>q\<in>(needs reg)\<^sup>* `` set plugins. unsortable reg q)"
proof (cases "sortPluginsTopologically reg plugins")
  case (Inl e)
  then show ?thesis
    using visit_error(2) [of reg "[]" plugins "[]" e] by (simp add: sortPluginsTopologically_def)
next
  case (Inr ordered)
  then have v: "visit_all reg [] plugins [] = Inr ordered" by (simp add: sortPluginsTopologically_def)
  from visit_sound(2) [OF v] have d: "dep_ordered reg ordered" and
    "set plugins \<subseteq> set ordered" and sub: "set ordered \<subseteq> (needs reg)\<^sup>* `` set plugins" by auto
  with dep_ordered_closed have eq: "set ordered = (needs reg)\<^sup>* `` set plugins" by blast
  with d dep_ordered_not_cyclic have "\<not> (\<exists>q\<in>(needs reg)\<^sup>* `` set plugins. unsortable reg q)" by blast
  with Inr d eq dep_ordered_distinct [OF d] show ?thesis by (auto simp: dep_ordered_def)
qed

subsection \<open>Activation and loading\<close>

definition same_deps :: "plugin_wrapper registry \<Rightarrow> plugin_wrapper registry \<Rightarrow> bool" where
  "same_deps reg reg' \<longleftrightarrow>
     (\<forall>p w. map_of reg p = Some w \<longrightarrow> (\<exists>w'. map_of reg' p = Some w' \<and> dependencies w' = dependencies w))"

lemma same_deps_ordered:
  "same_deps reg reg' \<Longrightarrow> dep_ordered reg ord \<Longrightarrow> dep_ordered reg' ord"
proof (induction ord rule: rev_induct)
  case (snoc p ord)
  then obtain w where "map_of reg p = Some w" by (auto simp: dep_ordered_snoc)
  with snoc obtain w' where "map_of reg' p = Some w'" "dependencies w' = dependencies w"
    by (auto simp: same_deps_def)
  with snoc \<open>map_of reg p = Some w\<close> show ?case by (simp add: dep_ordered_snoc deps_of_def)
qed simp

lemma update_plugin_map_of:
  "map_of (registry (update_plugin p f m)) q =
     (if q = p then map_option f (map_of (registry m) q) else map_of (registry m) q)"
proof -
  have "map_of (map (\<lambda>(k, w). (k, if k = p then f w else w)) reg) q =
      (if q = p then map_option f (map_of reg q) else map_of reg q)" for reg :: "plugin_wrapper registry"
    by (induction reg) auto
  then show ?thesis by (simp add: update_plugin_def)
qed

lemma update_plugin_fields [simp]:
  "orderedPlugins (update_plugin p f m) = orderedPlugins m"
  "activations (update_plugin p f m) = activations m"
  by (simp_all add: update_plugin_def)

lemma update_plugin_same_deps:
  "\<forall>w. dependencies (f w) = dependencies w \<Longrightarrow> same_deps (registry m) (registry (update_plugin p f m))"
  by (auto simp: same_deps_def update_plugin_map_of)

text \<open>
  The plugins that are active are those whose activation has returned, each of them once and after
  everything it depends on.
\<close>

definition activations_ok :: "plugin_manager \<Rightarrow> bool" where
  "activations_ok m \<longleftrightarrow>
     dep_ordered (registry m) (activations m) \<and> (\<forall>p. is_active p m \<longleftrightarrow> p \<in> set (activations m))"

lemma activate_one:
  assumes ok: "activations_ok m" and reg: "map_of (registry m) p \<noteq> None" and new: "\<not> is_active p m"
    and deps: "set (deps_of (registry m) p) \<subseteq> set (activations m)"
  shows "activations_ok (update_plugin p (\<lambda>w. w\<lparr>active := True\<rparr>) (m\<lparr>activations := activations m @ [p]\<rparr>))"
proof -
  let ?m = "update_plugin p (\<lambda>w. w\<lparr>active := True\<rparr>) (m\<lparr>activations := activations m @ [p]\<rparr>)"
  have "dep_ordered (registry m) (activations m @ [p])"
    using assms by (auto simp: dep_ordered_snoc activations_ok_def)
  moreover have "same_deps (registry m) (registry ?m)"
    using update_plugin_same_deps [of "\<lambda>w. w\<lparr>active := True\<rparr>" "m\<lparr>activations := activations m @ [p]\<rparr>" p]
    by simp
  ultimately have "dep_ordered (registry ?m) (activations m @ [p])" using same_deps_ordered by blast
  moreover have "is_active q ?m \<longleftrightarrow> q = p \<or> is_active q m" for q
    using reg by (auto simp: is_active_def update_plugin_map_of)
  ultimately show ?thesis using ok by (auto simp: activations_ok_def)
qed

lemma activate_each_ok:
  "activations_ok m \<Longrightarrow> dep_ordered (registry m) (done @ ps) \<Longrightarrow> set done \<subseteq> set (activations m) \<Longrightarrow>
     activate_each onActivate ps m = (e, m') \<Longrightarrow>
     activations_ok m' \<and> (\<exists>zs. activations m' = activations m @ zs \<and> set zs \<subseteq> set ps) \<and>
     (e = None \<longrightarrow> set ps \<subseteq> set (activations m')) \<and> same_deps (registry m) (registry m') \<and>
     orderedPlugins m' = orderedPlugins m"
proof (induction onActivate ps m arbitrary: "done" rule: activate_each.induct)
  case (1 onActivate m)
  then show ?case by (auto simp: same_deps_def)
next
  case (2 onActivate p ps m)
  have ord: "dep_ordered (registry m) ((done @ [p]) @ ps)" using "2.prems"(2) by simp
  show ?case
  proof (cases "is_active p m")
    case True
    with "2.prems"(1,3) have "set (done @ [p]) \<subseteq> set (activations m)" by (auto simp: activations_ok_def)
    with "2.IH"(1) [OF True "2.prems"(1) ord] "2.prems"(4) True show ?thesis by fastforce
  next
    case False
    show ?thesis
    proof (cases "onActivate p")
      case None
      let ?m = "update_plugin p (\<lambda>w. w\<lparr>active := True\<rparr>) (m\<lparr>activations := activations m @ [p]\<rparr>)"
      have "map_of (registry m) p \<noteq> None" and "set (deps_of (registry m) p) \<subseteq> set done"
        using "2.prems"(2) unfolding dep_ordered_def by blast+
      with "2.prems"(1,3) False have ok: "activations_ok ?m" by (intro activate_one) auto
      have sd: "same_deps (registry m) (registry ?m)"
        using update_plugin_same_deps [of "\<lambda>w. w\<lparr>active := True\<rparr>" "m\<lparr>activations := activations m @ [p]\<rparr>" p]
        by simp
      then have "dep_ordered (registry ?m) ((done @ [p]) @ ps)" using ord same_deps_ordered by blast
      moreover have "set (done @ [p]) \<subseteq> set (activations ?m)" using "2.prems"(3) by auto
      moreover have "activate_each onActivate ps ?m = (e, m')" using "2.prems"(4) False None by simp
      ultimately have rest: "activations_ok m' \<and> (\<exists>zs. activations m' = activations ?m @ zs \<and> set zs \<subseteq> set ps) \<and>
          (e = None \<longrightarrow> set ps \<subseteq> set (activations m')) \<and> same_deps (registry ?m) (registry m') \<and>
          orderedPlugins m' = orderedPlugins ?m"
        using "2.IH"(2) [OF False None ok] by blast
      moreover have "same_deps (registry m) (registry m')"
        using sd rest by (fastforce simp: same_deps_def)
      ultimately show ?thesis by auto
    next
      case (Some x)
      with "2.prems" False show ?thesis by (auto simp: same_deps_def)
    qed
  qed
qed

text \<open>What can happen to the manager, whatever the plugins do.\<close>

inductive plugin_step :: "plugin_manager \<Rightarrow> plugin_manager \<Rightarrow> bool" where
  register: "registerPlugin defaults override pid deps isCore m = Inr m' \<Longrightarrow> plugin_step m m'"
| activate: "activatePlugins onActivate overrides m = (e, m') \<Longrightarrow> plugin_step m m'"
| load: "onTraceLoad onLoad m = (e, trash, m') \<Longrightarrow> plugin_step m m'"
| dispose: "plugin_step m (dispose_trace trash m)"

inductive plugins_reachable :: "plugin_manager \<Rightarrow> bool" where
  start: "plugins_reachable new_plugin_manager"
| step: "plugins_reachable m \<Longrightarrow> plugin_step m m' \<Longrightarrow> plugins_reachable m'"

lemma registerPlugin_ok:
  assumes "registerPlugin defaults override pid deps isCore m = Inr m'" and ok: "activations_ok m"
  shows "activations_ok m'"
proof -
  define flag where "flag = (case override pid of Some b \<Rightarrow> b | None \<Rightarrow> pid \<in> set defaults)"
  define w where "w = \<lparr>dependencies = deps, enable_flag = flag, enabled_at_boot = flag, is_core = isCore,
    active = False, traceContext = None\<rparr>"
  have w: "active w = False" by (simp add: w_def)
  from assms(1) have new: "pid \<notin> fst ` set (registry m)" and
    m': "m' = m\<lparr>registry := registry m @ [(pid, w)]\<rparr>"
    by (simp_all add: registerPlugin_def register_flag_def registry_register_def w_def flag_def
        split: if_splits option.splits)
  have get: "map_of (registry m') q = (if q = pid then Some w else map_of (registry m) q)" for q
    using iffD2 [OF map_of_eq_None_iff new] by (simp add: m' map_add_def split: option.split)
  have "same_deps (registry m) (registry m')"
    using iffD2 [OF map_of_eq_None_iff new] by (auto simp: same_deps_def get)
  moreover have "is_active q m' = is_active q m" for q
  proof (cases "q = pid")
    case True
    have "map_of (registry m) pid = None" using new by (simp add: map_of_eq_None_iff)
    with True w show ?thesis by (simp add: is_active_def get)
  qed (simp add: is_active_def get)
  ultimately show ?thesis using ok same_deps_ordered by (auto simp: activations_ok_def m')
qed

lemma context_update_ok:
  assumes "activations_ok m" and f: "\<forall>w. dependencies (f w) = dependencies w \<and> active (f w) = active w"
  shows "activations_ok (update_plugin p f m)"
proof -
  have "is_active q (update_plugin p f m) = is_active q m" for q
    using f by (auto simp: is_active_def update_plugin_map_of split: option.splits)
  moreover have "dep_ordered (registry (update_plugin p f m)) (activations m)"
    using assms(1) f by (intro same_deps_ordered [OF update_plugin_same_deps]) (auto simp: activations_ok_def)
  ultimately show ?thesis using assms(1) by (simp add: activations_ok_def)
qed

lemma instances_ok: "activations_ok (m\<lparr>instances := i\<rparr>) = activations_ok m"
  by (simp add: activations_ok_def is_active_def)

lemma load_each_activations_ok:
  "activations_ok (snd s) \<Longrightarrow> load_each onLoad ps s = (e, s') \<Longrightarrow> activations_ok (snd s')"
proof (induction onLoad ps s arbitrary: s' rule: load_each.induct)
  case (2 onLoad p ps trash m)
  show ?case
  proof (cases "is_active p m")
    case True
    show ?thesis
    proof (cases "onLoad p (m\<lparr>instances := Suc (instances m)\<rparr>)")
      case None
      with 2 True show ?thesis by (simp add: Let_def context_update_ok instances_ok)
    next
      case (Some x)
      with 2 True show ?thesis by (auto simp: Let_def instances_ok)
    qed
  next
    case False
    with 2 show ?thesis by simp
  qed
qed auto

lemma sorted_plugins_ordered:
  "sortPluginsTopologically reg ps = Inr ordered \<Longrightarrow> dep_ordered reg ordered"
  using visit_sound(2) [of reg "[]" ps "[]" ordered] by (simp add: sortPluginsTopologically_def)

lemma ordered_ok: "activations_ok (m\<lparr>orderedPlugins := ps\<rparr>) = activations_ok m"
  by (simp add: activations_ok_def is_active_def)

lemma activatePlugins_ok:
  assumes "activations_ok m" and "activatePlugins onActivate overrides m = (e, m')"
  shows "activations_ok m' \<and>
    (e = None \<longrightarrow> dep_ordered (registry m') (orderedPlugins m') \<and> set (orderedPlugins m') \<subseteq> set (activations m'))"
proof (cases "sortPluginsTopologically (registry m) (enabledPlugins overrides (registry m))")
  case (Inl x)
  with assms show ?thesis by (auto simp: activatePlugins_def)
next
  case (Inr ordered)
  let ?m = "m\<lparr>orderedPlugins := ordered\<rparr>"
  have "dep_ordered (registry ?m) ([] @ ordered)" using sorted_plugins_ordered [OF Inr] by simp
  from activate_each_ok [OF _ this, of onActivate e m'] assms Inr sorted_plugins_ordered [OF Inr]
  show ?thesis by (auto simp: activatePlugins_def ordered_ok intro: same_deps_ordered)
qed

lemma plugins_reachable_ok: "plugins_reachable m \<Longrightarrow> activations_ok m"
proof (induction rule: plugins_reachable.induct)
  case start
  show ?case by (simp add: activations_ok_def new_plugin_manager_def is_active_def)
next
  case (step m m')
  from step.hyps(2) step.IH show ?case
  proof (cases rule: plugin_step.cases)
    case (load onLoad e trash)
    with step.IH load_each_activations_ok [of "([], m)" onLoad "orderedPlugins m" e "(trash, m')"]
    show ?thesis by (simp add: onTraceLoad_def)
  next
    case (dispose trash)
    have "activations_ok n \<Longrightarrow> activations_ok (dispose_trace ps n)" for ps n
      by (induction ps arbitrary: n) (simp_all add: dispose_trace_def context_update_ok)
    with dispose step.IH show ?thesis by simp
  qed (use registerPlugin_ok activatePlugins_ok in blast)+
qed

theorem activated_in_order:
  assumes "plugins_reachable m"
  shows "distinct (activations m) \<and> (\<forall>p. is_active p m \<longleftrightarrow> p \<in> set (activations m)) \<and>
     (\<forall>xs p ys. activations m = xs @ p # ys \<longrightarrow> set (deps_of (registry m) p) \<subseteq> set xs)"
proof -
  have ok: "dep_ordered (registry m) (activations m)" "\<forall>p. is_active p m \<longleftrightarrow> p \<in> set (activations m)"
    using plugins_reachable_ok [OF assms] by (simp_all add: activations_ok_def)
  moreover have "\<forall>xs p ys. activations m = xs @ p # ys \<longrightarrow> set (deps_of (registry m) p) \<subseteq> set xs"
    using ok(1) unfolding dep_ordered_def by blast
  ultimately show ?thesis using dep_ordered_distinct by blast
qed

subsection \<open>Loading\<close>

definition loaded :: "string \<Rightarrow> plugin_manager \<Rightarrow> bool" where
  "loaded p m \<longleftrightarrow> (\<exists>w i. map_of (registry m) p = Some w \<and> traceContext w = Some i)"

lemma getPlugin_loaded: "isl (getPlugin p m) \<longleftrightarrow> \<not> loaded p m"
  by (auto simp: getPlugin_def loaded_def registry_get_def split: option.splits)

lemma load_each_all:
  assumes good: "\<forall>p m. onLoad p m \<noteq> None \<longrightarrow> (\<exists>d\<in>set (deps_of (registry m) p). isl (getPlugin d m))"
  shows "dep_ordered (registry m) (done @ ps) \<Longrightarrow> \<forall>p\<in>set ps. is_active p m \<Longrightarrow> \<forall>p\<in>set done. loaded p m \<Longrightarrow>
    \<exists>m'. load_each onLoad ps (trash, m) = (None, trash @ ps, m') \<and>
      (\<forall>p\<in>set done \<union> set ps. loaded p m')"
proof (induction ps arbitrary: m "done" trash)
  case (Cons p ps)
  let ?m = "m\<lparr>instances := Suc (instances m)\<rparr>"
  let ?f = "\<lambda>w. w\<lparr>traceContext := Some (instances m)\<rparr>"
  have "map_of (registry m) p \<noteq> None" and deps: "set (deps_of (registry m) p) \<subseteq> set done"
    using Cons.prems(1) unfolding dep_ordered_def by blast+
  have "onLoad p ?m = None"
  proof (rule ccontr)
    assume "onLoad p ?m \<noteq> None"
    with good have "\<exists>d\<in>set (deps_of (registry ?m) p). isl (getPlugin d ?m)" by blast
    then obtain d where "d \<in> set (deps_of (registry m) p)" "\<not> loaded d ?m"
      by (auto simp: getPlugin_loaded)
    moreover from this deps have "loaded d m" using Cons.prems(3) by blast
    ultimately show False by (auto simp: loaded_def)
  qed
  then have eq: "load_each onLoad (p # ps) (trash, m) = load_each onLoad ps (trash @ [p], update_plugin p ?f ?m)"
    using Cons.prems(2) by (simp add: Let_def)
  have "dep_ordered (registry (update_plugin p ?f ?m)) ((done @ [p]) @ ps)"
    using Cons.prems(1) same_deps_ordered update_plugin_same_deps [of ?f ?m p] by simp
  moreover have "\<forall>q\<in>set ps. is_active q (update_plugin p ?f ?m)"
    using Cons.prems(2) by (auto simp: is_active_def update_plugin_map_of split: option.splits)
  moreover have "\<forall>q\<in>set (done @ [p]). loaded q (update_plugin p ?f ?m)"
    using Cons.prems(3) \<open>map_of (registry m) p \<noteq> None\<close> by (auto simp: loaded_def update_plugin_map_of)
  ultimately show ?case using Cons.IH [of "update_plugin p ?f ?m" "done @ [p]" "trash @ [p]"] eq by auto
qed simp

text \<open>
  C23. Loading order: after an activation that succeeds in any reachable state, a plugin can always get the
  plugins it depends on while it loads a trace. So when plugins throw only because \<open>getPlugin\<close> of a dependency
  throws, all ordered plugins load, and the trash of the trace unloads all of them.
\<close>

theorem dependencies_loaded_first:
  assumes "plugins_reachable m" and "activatePlugins onActivate overrides m = (None, m1)"
    and "\<forall>p m. onLoad p m \<noteq> None \<longrightarrow> (\<exists>d\<in>set (deps_of (registry m) p). isl (getPlugin d m))"
  shows "\<exists>m2. onTraceLoad onLoad m1 = (None, orderedPlugins m1, m2) \<and>
    (\<forall>p\<in>set (orderedPlugins m1). isPluginEnabled p m2) \<and>
    (\<forall>p\<in>set (orderedPlugins m1). \<not> isPluginEnabled p (dispose_trace (orderedPlugins m1) m2))"
proof -
  have m1: "activations_ok m1" "dep_ordered (registry m1) (orderedPlugins m1)"
      "set (orderedPlugins m1) \<subseteq> set (activations m1)"
    using activatePlugins_ok [OF plugins_reachable_ok [OF assms(1)] assms(2)] by auto
  then obtain m2 where m2: "onTraceLoad onLoad m1 = (None, orderedPlugins m1, m2)"
      "\<forall>p\<in>set (orderedPlugins m1). loaded p m2"
    using load_each_all [OF assms(3), of m1 "[]" "orderedPlugins m1" "[]"]
    by (auto simp: onTraceLoad_def activations_ok_def)
  have enabled: "isPluginEnabled p n = loaded p n" for p n
    by (auto simp: isPluginEnabled_def registry_tryGet_def loaded_def split: option.splits)
  have "\<not> loaded p (dispose_trace ps n)" if "p \<in> set ps \<or> \<not> loaded p n" for p ps n
    using that
  proof (induction ps arbitrary: n)
    case (Cons q ps)
    have "p \<in> set ps \<or> \<not> loaded p (update_plugin q (\<lambda>w. w\<lparr>traceContext := None\<rparr>) n)"
      using Cons.prems by (auto simp: loaded_def update_plugin_map_of)
    with Cons.IH show ?case by (simp add: dispose_trace_def)
  qed (simp add: dispose_trace_def)
  with m2 enabled show ?thesis by auto
qed

text \<open>Two plugins, the first of which needs the second; only the first is enabled.\<close>

definition two_plugins :: plugin_manager where
  "two_plugins =
     projr (registerPlugin [''a''] (\<lambda>p. None) ''b'' [] False
       (projr (registerPlugin [''a''] (\<lambda>p. None) ''a'' [''b''] False new_plugin_manager)))"

definition two_active :: plugin_manager where
  "two_active = snd (activatePlugins (\<lambda>p. None) [] two_plugins)"

lemma two_plugins_reachable: "plugins_reachable two_plugins"
proof -
  let ?a = "registerPlugin [''a''] (\<lambda>p. None) ''a'' [''b''] False new_plugin_manager"
  have a: "?a = Inr (projr ?a)" by code_simp
  have b: "registerPlugin [''a''] (\<lambda>p. None) ''b'' [] False (projr ?a) = Inr two_plugins"
    unfolding two_plugins_def by code_simp
  show ?thesis
    by (rule plugins_reachable.step [OF plugins_reachable.step [OF plugins_reachable.start
        plugin_step.register [OF a]] plugin_step.register [OF b]])
qed

lemma two_activated: "activatePlugins (\<lambda>p. None) [] two_plugins = (None, two_active)"
  unfolding two_active_def by code_simp

lemma two_activations: "activations two_active = [''b'', ''a'']" "orderedPlugins two_active = [''b'', ''a'']"
  by code_simp+

theorem plugins_sorted_witness:
  "sortPluginsTopologically (registry two_plugins) [''a''] = Inr [''b'', ''a''] \<and>
   (needs (registry two_plugins))\<^sup>* `` {''a''} = {''a'', ''b''}"
proof
  show eq: "sortPluginsTopologically (registry two_plugins) [''a''] = Inr [''b'', ''a'']" by code_simp
  have "set [''b'', ''a''] = (needs (registry two_plugins))\<^sup>* `` set [''a'']"
    using plugins_sorted [of "registry two_plugins" "[''a'']"] unfolding eq sum.case by (elim conjE)
  then show "(needs (registry two_plugins))\<^sup>* `` {''a''} = {''a'', ''b''}" by auto
qed

theorem activated_in_order_witness:
  "activations two_active = [''b'', ''a''] \<and> distinct (activations two_active) \<and> is_active ''a'' two_active"
proof -
  have "plugins_reachable two_active"
    by (rule plugins_reachable.step [OF two_plugins_reachable plugin_step.activate [OF two_activated]])
  note ok = activated_in_order [OF this]
  have "distinct (activations two_active)" by (rule ok [THEN conjunct1])
  moreover have act: "\<forall>p. is_active p two_active \<longleftrightarrow> p \<in> set (activations two_active)"
    by (rule ok [THEN conjunct2, THEN conjunct1])
  then have "is_active ''a'' two_active" by (simp add: two_activations)
  ultimately show ?thesis by (simp add: two_activations)
qed

definition needs_b :: "string \<Rightarrow> plugin_manager \<Rightarrow> js_error option" where
  "needs_b p m =
     (if ''b'' \<in> set (deps_of (registry m) p) \<and> isl (getPlugin ''b'' m) then Some AssertionFailed else None)"

theorem dependencies_loaded_first_witness:
  "isPluginEnabled ''a'' (snd (snd (onTraceLoad needs_b two_active)))"
proof -
  have "\<forall>p m. needs_b p m \<noteq> None \<longrightarrow> (\<exists>d\<in>set (deps_of (registry m) p). isl (getPlugin d m))"
    by (auto simp: needs_b_def)
  from dependencies_loaded_first [OF two_plugins_reachable two_activated this]
  show ?thesis by (auto simp: two_activations)
qed

end
