(* ===== verification/Query_Graph.thy ===== *)
theory Query_Graph
  imports Prelude "HOL-Library.AList"
begin

text \<open>
  The query graph of the Data Explorer: \<^verbatim>\<open>plugins/dev.perfetto.DataExplorer/query_node.ts\<close> (node types),
  \<^verbatim>\<open>query_builder/graph_utils.ts\<close> (traversals, connections, layouts, groups) and the graph part of
  \<^verbatim>\<open>node_crud_operations.ts\<close>, with the graph part of \<open>GroupNode\<close> (\<^verbatim>\<open>query_builder/nodes/group_node/index.ts\<close>).
  Nodes are mutable objects linked in both directions, so the model is a
  heap from object identities to node records; a traversal is a \<open>partial_function (option)\<close>.
\<close>

subsection \<open>Nodes\<close>

datatype node_type =
  kTable | kSimpleSlices | kSqlSource | kTimeRangeSource
| kAggregation | kModifyColumns | kAddColumns | kFilterDuring | kFilterIn | kLimitAndOffset | kSort | kFilter
| kCounterToIntervals
| kIntervalIntersect | kUnion | kJoin | kCreateSlices
| kVisualisation | kDashboard | kGroup | kMetrics | kTraceSummary

fun singleNodeOperation :: "node_type \<Rightarrow> bool" where
  "singleNodeOperation kAggregation = True"
| "singleNodeOperation kModifyColumns = True"
| "singleNodeOperation kAddColumns = True"
| "singleNodeOperation kFilterDuring = True"
| "singleNodeOperation kFilterIn = True"
| "singleNodeOperation kLimitAndOffset = True"
| "singleNodeOperation kSort = True"
| "singleNodeOperation kFilter = True"
| "singleNodeOperation kCounterToIntervals = True"
| "singleNodeOperation kMetrics = True"
| "singleNodeOperation kVisualisation = True"
| "singleNodeOperation kDashboard = True"
| "singleNodeOperation _ = False"

text \<open>A \<open>Map\<close> is an association list in insertion order; \<open>spec_max = None\<close> is \<open>'unbounded'\<close>.\<close>

record secondary_spec =
  connections :: "(nat \<times> nat) list"
  spec_min :: nat
  spec_max :: "nat option"

record ext_conn =
  sourceNode :: nat
  innerTargetNode :: nat
  innerTargetPort :: "nat option"
  groupPort :: nat

record group_info =
  innerNodes :: "nat list"
  endNode :: "nat option"
  externalConnections :: "ext_conn list"

text \<open>
  \<open>group_of\<close> holds the fields of a \<open>GroupNode\<close>, \<open>has_update\<close> says whether the node has an
  \<open>onPrevNodesUpdated\<close> method. That of a group is below; those of the other classes change the attributes
  of their node only.
\<close>

record qnode =
  nodeId :: string
  ntype :: node_type
  nextNodes :: "nat list"
  primaryInput :: "nat option"
  secondaryInputs :: "secondary_spec option"
  group_of :: "group_info option"
  has_update :: bool

text \<open>\<open>g_updates\<close> records the calls of \<open>onPrevNodesUpdated\<close>, for what they do outside the graph.\<close>

record qgraph =
  g_size :: nat
  g_node :: "nat \<Rightarrow> qnode"
  g_updates :: "nat list"

definition upd_node :: "nat \<Rightarrow> (qnode \<Rightarrow> qnode) \<Rightarrow> qgraph \<Rightarrow> qgraph" where
  "upd_node n f g = g\<lparr>g_node := (g_node g)(n := f (g_node g n))\<rparr>"

definition sec_conns :: "qnode \<Rightarrow> (nat \<times> nat) list" where
  "sec_conns n = (case secondaryInputs n of None \<Rightarrow> [] | Some s \<Rightarrow> connections s)"

text \<open>The field updates of a node; a \<open>Map\<close> is changed by a function on its entries.\<close>

definition set_conns :: "((nat \<times> nat) list \<Rightarrow> (nat \<times> nat) list) \<Rightarrow> nat \<Rightarrow> qgraph \<Rightarrow> qgraph" where
  "set_conns f n = upd_node n (\<lambda>q. q\<lparr>secondaryInputs :=
     map_option (\<lambda>s. s\<lparr>connections := f (connections s)\<rparr>) (secondaryInputs q)\<rparr>)"

definition set_next :: "(nat list \<Rightarrow> nat list) \<Rightarrow> nat \<Rightarrow> qgraph \<Rightarrow> qgraph" where
  "set_next f n = upd_node n (\<lambda>q. q\<lparr>nextNodes := f (nextNodes q)\<rparr>)"

definition set_primary :: "nat option \<Rightarrow> nat \<Rightarrow> qgraph \<Rightarrow> qgraph" where
  "set_primary p n = upd_node n (\<lambda>q. q\<lparr>primaryInput := p\<rparr>)"

subsection \<open>Group nodes\<close>

text \<open>The constructor of \<open>GroupNode\<close>; \<open>nid\<close> is what \<open>nextNodeId()\<close> returns.\<close>

definition new_GroupNode :: "string \<Rightarrow> nat list \<Rightarrow> nat option \<Rightarrow> ext_conn list \<Rightarrow> qnode" where
  "new_GroupNode nid inner e conns = \<lparr>nodeId = nid, ntype = kGroup, nextNodes = [], primaryInput = None,
     secondaryInputs = Some \<lparr>connections = foldl (\<lambda>m c. AList.update (groupPort c) (sourceNode c) m) [] conns,
       spec_min = 0, spec_max = Some (length conns)\<rparr>,
     group_of = Some \<lparr>innerNodes = inner, endNode = e, externalConnections = conns\<rparr>, has_update = True\<rparr>"

text \<open>
  \<open>GroupNode.onPrevNodesUpdated\<close>: what a port of the group holds is written to the input slot of the inner
  node behind it, and a source to the entry of the port in \<open>externalConnections\<close> too.
\<close>

definition set_input :: "nat \<Rightarrow> nat option \<Rightarrow> nat option \<Rightarrow> qgraph \<Rightarrow> qgraph" where
  "set_input t port v g =
     (case port of
        None \<Rightarrow> set_primary v t g
      | Some p \<Rightarrow> set_conns (case v of None \<Rightarrow> AList.delete p | Some src \<Rightarrow> AList.update p src) t g)"

definition set_source :: "nat \<Rightarrow> ext_conn \<Rightarrow> nat \<Rightarrow> qgraph \<Rightarrow> qgraph" where
  "set_source n c src = upd_node n (\<lambda>q. q\<lparr>group_of := map_option (\<lambda>i. i\<lparr>externalConnections :=
     map (\<lambda>d. if d = c then d\<lparr>sourceNode := src\<rparr> else d) (externalConnections i)\<rparr>) (group_of q)\<rparr>)"

definition sync_port :: "nat \<Rightarrow> ext_conn \<Rightarrow> qgraph \<Rightarrow> qgraph" where
  "sync_port n c g =
     (case map_of (sec_conns (g_node g n)) (groupPort c) of
        None \<Rightarrow> set_input (innerTargetNode c) (innerTargetPort c) None g
      | Some src \<Rightarrow> set_input (innerTargetNode c) (innerTargetPort c) (Some src) (set_source n c src g))"

definition onPrevNodesUpdated :: "nat \<Rightarrow> qgraph \<Rightarrow> qgraph" where
  "onPrevNodesUpdated n g =
     (if has_update (g_node g n) then
        (let g1 = g\<lparr>g_updates := g_updates g @ [n]\<rparr> in
         case group_of (g_node g n) of
           None \<Rightarrow> g1 | Some i \<Rightarrow> fold (sync_port n) (externalConnections i) g1)
      else g)"

subsection \<open>Traversals\<close>

text \<open>The loop that the three traversals share: a queue, the visited node ids, and the result.\<close>

partial_function (option) bfs ::
  "(nat \<Rightarrow> string) \<Rightarrow> (nat \<Rightarrow> nat list) \<Rightarrow> nat list \<Rightarrow> string list \<Rightarrow> nat list \<Rightarrow> nat list option" where
  "bfs ids succs queue visited result =
     (case queue of
        [] \<Rightarrow> Some result
      | n # rest \<Rightarrow>
          (if ids n \<in> set visited then bfs ids succs rest visited result
           else bfs ids succs (rest @ succs n) (visited @ [ids n]) (result @ [n])))"

definition getAllInputNodes :: "nat \<Rightarrow> qgraph \<Rightarrow> nat list" where
  "getAllInputNodes n g =
     (case primaryInput (g_node g n) of None \<Rightarrow> [] | Some p \<Rightarrow> [p]) @ map snd (sec_conns (g_node g n))"

definition all_edges :: "bool \<Rightarrow> qgraph \<Rightarrow> nat \<Rightarrow> nat list" where
  "all_edges traverseGroups g n = nextNodes (g_node g n) @ getAllInputNodes n g @
     (case group_of (g_node g n) of
        Some i \<Rightarrow> (if traverseGroups then innerNodes i else []) | None \<Rightarrow> [])"

definition getAllNodes :: "nat list \<Rightarrow> bool \<Rightarrow> qgraph \<Rightarrow> nat list option" where
  "getAllNodes rootNodes traverseGroups g =
     bfs (\<lambda>n. nodeId (g_node g n)) (all_edges traverseGroups g) rootNodes [] []"

definition getAllDownstreamNodes :: "nat \<Rightarrow> qgraph \<Rightarrow> nat list option" where
  "getAllDownstreamNodes n g = bfs (\<lambda>m. nodeId (g_node g m)) (\<lambda>m. nextNodes (g_node g m)) [n] [] []"

definition getAllUpstreamNodes :: "nat \<Rightarrow> qgraph \<Rightarrow> nat list option" where
  "getAllUpstreamNodes n g =
     bfs (\<lambda>m. nodeId (g_node g m)) (\<lambda>m. getAllInputNodes m g) (getAllInputNodes n g) [] []"

definition findNodeById :: "string \<Rightarrow> nat list \<Rightarrow> qgraph \<Rightarrow> nat option option" where
  "findNodeById i rootNodes g =
     map_option (find (\<lambda>n. nodeId (g_node g n) = i)) (getAllNodes rootNodes True g)"

text \<open>Reads the whole chain downstream, then looks for the source of the new connection in it.\<close>

definition wouldCreateCycle :: "nat \<Rightarrow> nat \<Rightarrow> qgraph \<Rightarrow> bool option" where
  "wouldCreateCycle fromNode toNode g =
     (if fromNode = toNode then Some True
      else map_option (\<lambda>ds. fromNode \<in> set ds) (getAllDownstreamNodes toNode g))"

subsection \<open>Connections\<close>

definition getSecondaryInput :: "nat \<Rightarrow> nat \<Rightarrow> qgraph \<Rightarrow> nat option" where
  "getSecondaryInput n port g = map_of (sec_conns (g_node g n)) port"

definition getInputNodeAtPort :: "nat \<Rightarrow> nat \<Rightarrow> qgraph \<Rightarrow> nat option" where
  "getInputNodeAtPort n port g =
     (case secondaryInputs (g_node g n) of None \<Rightarrow> None | Some s \<Rightarrow> map_of (connections s) port)"

definition setSecondaryInput :: "nat \<Rightarrow> nat \<Rightarrow> nat \<Rightarrow> qgraph \<Rightarrow> js_error + qgraph" where
  "setSecondaryInput n port input g =
     (if secondaryInputs (g_node g n) = None then Inl (Thrown ''Node does not support secondary inputs'')
      else Inr (set_conns (AList.update port input) n g))"

definition removeSecondaryInput :: "nat \<Rightarrow> nat \<Rightarrow> qgraph \<Rightarrow> qgraph" where
  "removeSecondaryInput n port g = set_conns (AList.delete port) n g"

definition plural :: "nat \<Rightarrow> string" where
  "plural n = (if n = 1 then '''' else ''s'')"

definition validateSecondaryInputs :: "nat \<Rightarrow> qgraph \<Rightarrow> string option" where
  "validateSecondaryInputs n g =
     (case secondaryInputs (g_node g n) of
        None \<Rightarrow> None
      | Some s \<Rightarrow>
          (let count = length (connections s) in
           if count < spec_min s then
             Some (''Requires at least '' @ show_nat (spec_min s) @ '' input'' @ plural (spec_min s) @
               '', but only '' @ show_nat count @ '' connected'')
           else (case spec_max s of
               None \<Rightarrow> None
             | Some m \<Rightarrow>
                 (if count > m then
                    Some (''Allows at most '' @ show_nat m @ '' input'' @ plural m @ '', but '' @
                      show_nat count @ '' connected'')
                  else None))))"

text \<open>The first port without a connection.\<close>

function first_free :: "(nat \<times> nat) list \<Rightarrow> nat \<Rightarrow> nat" where
  "first_free cs port = (if port \<in> fst ` set cs then first_free cs (port + 1) else port)"
  by pat_completeness auto
termination
proof (relation "measure (\<lambda>(cs, port). card {p \<in> fst ` set cs. port \<le> p})")
  fix cs :: "(nat \<times> nat) list" and port :: nat
  assume "port \<in> fst ` set cs"
  then have "port \<in> {p \<in> fst ` set cs. port \<le> p}" by blast
  moreover have "port \<notin> {p \<in> fst ` set cs. port + 1 \<le> p}" by simp
  moreover have "{p \<in> fst ` set cs. port + 1 \<le> p} \<subseteq> {p \<in> fst ` set cs. port \<le> p}" by auto
  ultimately have "{p \<in> fst ` set cs. port + 1 \<le> p} \<subset> {p \<in> fst ` set cs. port \<le> p}" by blast
  then have "card {p \<in> fst ` set cs. port + 1 \<le> p} < card {p \<in> fst ` set cs. port \<le> p}"
    by (intro psubset_card_mono) auto
  then show "((cs, port + 1), (cs, port)) \<in> measure (\<lambda>(cs, port). card {p \<in> fst ` set cs. port \<le> p})" by simp
qed simp

declare first_free.simps [simp del]

text \<open>\<open>if (!a.includes(x)) a.push(x)\<close>\<close>

definition push_new :: "'a \<Rightarrow> 'a list \<Rightarrow> 'a list" where
  "push_new x xs = (if x \<in> set xs then xs else xs @ [x])"

text \<open>
  \<open>addConnection\<close> returns the graph also when it throws: the forward link has been added by then.
\<close>

definition connect_port :: "nat \<Rightarrow> nat \<Rightarrow> nat \<Rightarrow> qgraph \<Rightarrow> js_error option \<times> qgraph" where
  "connect_port fromNode toNode port g =
     (case setSecondaryInput toNode port fromNode g of
        Inl e \<Rightarrow> (Some e, g) | Inr g' \<Rightarrow> (None, onPrevNodesUpdated toNode g'))"

definition addConnection :: "nat \<Rightarrow> nat \<Rightarrow> nat option \<Rightarrow> qgraph \<Rightarrow> js_error option \<times> qgraph" where
  "addConnection fromNode toNode portIndex g =
     (let g1 = set_next (push_new toNode) fromNode g; q = g_node g1 toNode in
      if singleNodeOperation (ntype q) then
        (case portIndex of
           Some p \<Rightarrow>
             (if secondaryInputs q = None then
                (Some (Thrown (''Node '' @ nodeId q @ '' does not support secondary inputs'')), g1)
              else connect_port fromNode toNode p g1)
         | None \<Rightarrow> (None, onPrevNodesUpdated toNode (set_primary (Some fromNode) toNode g1)))
      else
        (case secondaryInputs q of
           None \<Rightarrow> (None, g1)
         | Some s \<Rightarrow>
             connect_port fromNode toNode
               (case portIndex of Some p \<Rightarrow> p | None \<Rightarrow> first_free (connections s) 0) g1))"

definition clear_primary :: "nat \<Rightarrow> nat \<Rightarrow> qgraph \<Rightarrow> qgraph" where
  "clear_primary fromNode toNode g =
     (if primaryInput (g_node g toNode) = Some fromNode
      then onPrevNodesUpdated toNode (set_primary None toNode g) else g)"

definition ports_of :: "nat \<Rightarrow> (nat \<times> nat) list \<Rightarrow> nat list" where
  "ports_of fromNode cs = map fst (filter (\<lambda>(p, n). n = fromNode) cs)"

definition clear_secondary :: "nat \<Rightarrow> nat \<Rightarrow> nat option \<Rightarrow> qgraph \<Rightarrow> qgraph" where
  "clear_secondary fromNode toNode specificPort g =
     (case secondaryInputs (g_node g toNode) of
        None \<Rightarrow> g
      | Some s \<Rightarrow>
          (case specificPort of
             Some p \<Rightarrow>
               (if map_of (connections s) p = Some fromNode
                then onPrevNodesUpdated toNode (removeSecondaryInput toNode p g) else g)
           | None \<Rightarrow>
               (let ports = ports_of fromNode (connections s);
                    g1 = fold (removeSecondaryInput toNode) ports g
                in if ports = [] then g1 else onPrevNodesUpdated toNode g1)))"

definition removeConnection :: "nat \<Rightarrow> nat \<Rightarrow> nat option \<Rightarrow> qgraph \<Rightarrow> qgraph" where
  "removeConnection fromNode toNode specificPort g =
     (let g1 = clear_secondary fromNode toNode specificPort (clear_primary fromNode toNode g)
      in if fromNode \<in> set (getAllInputNodes toNode g1) then g1 else set_next (remove1 toNode) fromNode g1)"

definition notifyNextNodes :: "nat \<Rightarrow> qgraph \<Rightarrow> qgraph" where
  "notifyNextNodes n g = fold onPrevNodesUpdated (nextNodes (g_node g n)) g"

subsection \<open>Rewiring\<close>

text \<open>The connections of a parent to its children; \<open>None\<close> is the primary input.\<close>

definition captureAllChildConnections :: "nat \<Rightarrow> qgraph \<Rightarrow> (nat \<times> nat option) list" where
  "captureAllChildConnections parentNode g =
     concat (map (\<lambda>child.
       (if primaryInput (g_node g child) = Some parentNode then [(child, None)] else []) @
       map (\<lambda>p. (child, Some p)) (ports_of parentNode (sec_conns (g_node g child))))
     (nextNodes (g_node g parentNode)))"

text \<open>A sequence of \<open>addConnection\<close> calls stops at the first one that throws.\<close>

definition then_do ::
  "(qgraph \<Rightarrow> js_error option \<times> qgraph) \<Rightarrow> js_error option \<times> qgraph \<Rightarrow> js_error option \<times> qgraph" where
  "then_do f r = (case r of (None, g) \<Rightarrow> f g | (Some e, g) \<Rightarrow> (Some e, g))"

definition move_child :: "nat \<Rightarrow> nat \<Rightarrow> nat \<times> nat option \<Rightarrow> qgraph \<Rightarrow> js_error option \<times> qgraph" where
  "move_child parentNode newNode c g =
     addConnection newNode (fst c) (snd c) (removeConnection parentNode (fst c) None g)"

definition insertNodeBetween :: "nat \<Rightarrow> nat \<Rightarrow> qgraph \<Rightarrow> js_error option \<times> qgraph" where
  "insertNodeBetween parentNode newNode g =
     (if parentNode = newNode then (Some (Thrown ''Cannot insert a node between itself''), g)
      else fold (\<lambda>c. then_do (move_child parentNode newNode c)) (captureAllChildConnections parentNode g)
        (addConnection parentNode newNode None (set_next (\<lambda>_. []) parentNode g)))"

definition reconnectParentsToChildren ::
  "nat list \<Rightarrow> (nat \<times> nat option) list \<Rightarrow> qgraph \<Rightarrow> js_error option \<times> qgraph" where
  "reconnectParentsToChildren parents cs g =
     fold (\<lambda>p. fold (\<lambda>c. then_do (addConnection p (fst c) (snd c))) cs) parents (None, g)"

definition insertNodeAtPort :: "nat \<Rightarrow> nat \<Rightarrow> nat \<Rightarrow> qgraph \<Rightarrow> js_error option \<times> qgraph" where
  "insertNodeAtPort newNode targetNode portIndex g =
     (case getInputNodeAtPort targetNode portIndex g of
        None \<Rightarrow> (None, g)
      | Some inputNode \<Rightarrow>
          then_do (addConnection newNode targetNode (Some portIndex))
            (addConnection inputNode newNode None (removeConnection inputNode targetNode None g)))"

definition disconnectNodeFromGraph :: "nat \<Rightarrow> qgraph \<Rightarrow> qgraph" where
  "disconnectNodeFromGraph n g =
     (let g1 = fold (\<lambda>p. removeConnection p n None) (getAllInputNodes n g) g
      in fold (\<lambda>c. removeConnection n c None) (nextNodes (g_node g1 n)) g1)"

text \<open>The graph part of \<open>removeNodeConnection\<close>, which runs after the connection itself has been removed.\<close>

definition reconnect_children :: "nat \<Rightarrow> nat \<Rightarrow> bool \<Rightarrow> qgraph \<Rightarrow> js_error option \<times> qgraph" where
  "reconnect_children fromNode toNode isSecondaryInput g =
     (if \<not> isSecondaryInput \<and> nextNodes (g_node g fromNode) = [] \<and> nextNodes (g_node g toNode) \<noteq> [] then
        fold (\<lambda>c. then_do (addConnection fromNode c None)) (nextNodes (g_node g toNode)) (None, g)
      else (None, g))"

subsection \<open>Layouts\<close>

text \<open>Layout maps are keyed by node id; coordinates are integers.\<close>

type_synonym layouts = "string \<rightharpoonup> int \<times> int"

definition isNodeUndocked :: "nat \<Rightarrow> layouts \<Rightarrow> qgraph \<Rightarrow> bool" where
  "isNodeUndocked n ls g \<longleftrightarrow> ls (nodeId (g_node g n)) \<noteq> None"

definition findDockedChildren :: "nat \<Rightarrow> layouts \<Rightarrow> qgraph \<Rightarrow> nat list" where
  "findDockedChildren parentNode ls g =
     filter (\<lambda>c. singleNodeOperation (ntype (g_node g c)) \<and> primaryInput (g_node g c) = Some parentNode \<and>
       ls (nodeId (g_node g c)) = None) (nextNodes (g_node g parentNode))"

partial_function (option) getEffectiveLayout :: "nat \<Rightarrow> layouts \<Rightarrow> qgraph \<Rightarrow> (int \<times> int) option option" where
  "getEffectiveLayout n ls g =
     (case ls (nodeId (g_node g n)) of
        Some l \<Rightarrow> Some (Some l)
      | None \<Rightarrow>
          (case primaryInput (g_node g n) of None \<Rightarrow> Some None | Some p \<Rightarrow> getEffectiveLayout p ls g))"

definition UNDOCK_X_OFFSET :: int where "UNDOCK_X_OFFSET = 250"
definition UNDOCK_STAGGER :: int where "UNDOCK_STAGGER = 30"

definition calculateUndockLayouts :: "nat list \<Rightarrow> int \<times> int \<Rightarrow> qgraph \<Rightarrow> layouts" where
  "calculateUndockLayouts cs l g =
     fold (\<lambda>(i, c) m. m(nodeId (g_node g c) \<mapsto>
         (fst l + UNDOCK_X_OFFSET + int i * UNDOCK_STAGGER, snd l + int i * UNDOCK_STAGGER)))
       (enumerate 0 cs) Map.empty"

definition applyUndockLayouts :: "nat \<Rightarrow> nat list \<Rightarrow> layouts \<Rightarrow> qgraph \<Rightarrow> layouts option" where
  "applyUndockLayouts parentNode cs ls g =
     (if cs = [] then Some ls
      else map_option (\<lambda>eff. case eff of None \<Rightarrow> ls | Some l \<Rightarrow> ls ++ calculateUndockLayouts cs l g)
        (getEffectiveLayout parentNode ls g))"

subsection \<open>Groups\<close>

text \<open>\<open>new Set(xs)\<close> in insertion order.\<close>

definition js_set :: "'a list \<Rightarrow> 'a list" where
  "js_set xs = fold push_new xs []"

definition external_inputs :: "string list \<Rightarrow> qgraph \<Rightarrow> nat \<Rightarrow> (nat \<times> nat \<times> nat option) list" where
  "external_inputs innerSet g inner =
     map (\<lambda>(port, src). (src, inner, port))
       (filter (\<lambda>(port, src). nodeId (g_node g src) \<notin> set innerSet)
         ((case primaryInput (g_node g inner) of None \<Rightarrow> [] | Some p \<Rightarrow> [(None, p)]) @
          map (\<lambda>(port, src). (Some port, src)) (sec_conns (g_node g inner))))"

definition number_ports :: "(nat \<times> nat \<times> nat option) list \<Rightarrow> ext_conn list" where
  "number_ports xs = map (\<lambda>(i, src, inner, port).
     \<lparr>sourceNode = src, innerTargetNode = inner, innerTargetPort = port, groupPort = i\<rparr>) (enumerate 0 xs)"

text \<open>
  A successful call returns a new object, the node \<open>g_size g\<close>; \<open>nid\<close> is the id that it gets.
\<close>

definition createGroupFromSelection ::
  "string \<Rightarrow> string list \<Rightarrow> nat list \<Rightarrow> qgraph \<Rightarrow> string + nat \<times> qgraph" where
  "createGroupFromSelection nid selected allNodes g =
     (let idOf = (\<lambda>n. nodeId (g_node g n));
          inner = filter (\<lambda>n. idOf n \<in> set selected) allNodes
      in if length inner < 2 then Inl ''Select at least 2 nodes to create a group.''
      else if list_ex (\<lambda>n. ntype (g_node g n) = kGroup) inner then
        Inl ''Cannot create group: selection contains an existing group. Ungroup it first.''
      else
        (let innerSet = map idOf inner;
             ends = filter (\<lambda>n. \<not> list_ex (\<lambda>m. idOf m \<in> set innerSet) (nextNodes (g_node g n))) inner
         in case ends of
              [] \<Rightarrow> Inl ''Cannot create group: the selected nodes form a cycle with no output.''
            | [e] \<Rightarrow>
                (let conns = number_ports (concat (map (external_inputs innerSet g) inner));
                     outer = filter (\<lambda>n. idOf n \<notin> set innerSet) (nextNodes (g_node g e));
                     q = (new_GroupNode nid inner (Some e) conns)\<lparr>nextNodes := outer\<rparr>
                 in Inr (g_size g, g\<lparr>g_size := g_size g + 1, g_node := (g_node g)(g_size g := q)\<rparr>))
            | _ \<Rightarrow> Inl (''Cannot create group: found '' @ show_nat (length ends) @ '' output nodes. '' @
                     ''The group must have exactly one output node.'')))"

text \<open>Every input of \<open>n\<close> that is \<open>a\<close> becomes \<open>b\<close>.\<close>

definition replace_input :: "nat \<Rightarrow> nat \<Rightarrow> nat \<Rightarrow> qgraph \<Rightarrow> qgraph" where
  "replace_input a b n g =
     set_conns (map (\<lambda>(p, s). (p, if s = a then b else s))) n
       (if primaryInput (g_node g n) = Some a then set_primary (Some b) n g else g)"

definition applyGroupRewiring :: "nat \<Rightarrow> qgraph \<Rightarrow> qgraph" where
  "applyGroupRewiring groupNode g =
     (case group_of (g_node g groupNode) of
        None \<Rightarrow> g
      | Some i \<Rightarrow>
          (case endNode i of
             None \<Rightarrow> g
           | Some e \<Rightarrow>
               (let innerSet = map (\<lambda>n. nodeId (g_node g n)) (innerNodes i);
                    sources = js_set (map sourceNode (externalConnections i));
                    targets = map innerTargetNode (externalConnections i);
                    g1 = fold (set_next (\<lambda>ns. push_new groupNode (filter (\<lambda>n. n \<notin> set targets) ns))) sources g;
                    g2 = fold (replace_input e groupNode) (nextNodes (g_node g1 groupNode)) g1
                in set_next (filter (\<lambda>n. nodeId (g_node g n) \<in> set innerSet)) e g2)))"

definition ungroupNode :: "nat \<Rightarrow> qgraph \<Rightarrow> qgraph" where
  "ungroupNode groupNode g =
     (case group_of (g_node g groupNode) of
        None \<Rightarrow> g
      | Some i \<Rightarrow>
          (let conns = externalConnections i;
               targets = (\<lambda>s. map innerTargetNode (filter (\<lambda>c. sourceNode c = s) conns));
               g1 = fold (\<lambda>s. set_next (\<lambda>ns. fold push_new (targets s) (filter (\<lambda>n. n \<noteq> groupNode) ns)) s)
                 (js_set (map sourceNode conns)) g
           in case endNode i of
                None \<Rightarrow> g1
              | Some e \<Rightarrow>
                  (let g2 = fold (replace_input groupNode e) (nextNodes (g_node g1 groupNode)) g1
                   in set_next (fold push_new (nextNodes (g_node g2 groupNode))) e g2)))"

subsection \<open>Deleting a node\<close>

record explorer_state =
  rootNodes :: "nat list"
  selectedNodes :: "string set"
  nodeLayouts :: layouts

text \<open>
  The children that take over a layout, each offset from the one before: used for reconnected and for
  orphaned children.
\<close>

definition transfer_layout ::
  "(int \<times> int) option \<Rightarrow> layouts \<Rightarrow> qgraph \<Rightarrow> nat \<Rightarrow> int \<times> layouts \<Rightarrow> int \<times> layouts" where
  "transfer_layout deleted known g child r =
     (case (known (nodeId (g_node g child)), deleted) of
        (None, Some l) \<Rightarrow>
          (fst r + 1, (snd r)(nodeId (g_node g child) \<mapsto> (fst l + fst r * 30, snd l + fst r * 30)))
      | _ \<Rightarrow> r)"

text \<open>\<open>(reconnected children, graph, offset count, layouts)\<close> while the children are reconnected.\<close>

type_synonym reconnect_state = "nat list \<times> qgraph \<times> int \<times> layouts"

definition reconnect_child ::
  "nat \<Rightarrow> layouts \<Rightarrow> (int \<times> int) option \<Rightarrow> nat \<times> nat option \<Rightarrow>
   js_error option \<times> reconnect_state \<Rightarrow> js_error option \<times> reconnect_state" where
  "reconnect_child parent known deleted c r =
     (case r of
        (Some e, st) \<Rightarrow> r
      | (None, done, g, off, ls) \<Rightarrow>
          (if snd c \<noteq> None \<or> fst c \<in> set (nextNodes (g_node g parent)) then r
           else (case addConnection parent (fst c) (snd c) g of
               (Some e, g') \<Rightarrow> (Some e, done, g', off, ls)
             | (None, g') \<Rightarrow> (None, done @ [fst c], g', transfer_layout deleted known g' (fst c) (off, ls)))))"

definition promote_children ::
  "(int \<times> int) option \<Rightarrow> nat list \<Rightarrow> qgraph \<Rightarrow> layouts \<Rightarrow> layouts" where
  "promote_children deleted orphans g ls =
     snd (fold (\<lambda>c r. transfer_layout deleted (snd r) g c r) orphans (0, ls))"

text \<open>
  \<open>deleteNode\<close> from its second step on (the first one releases resources of the node). \<open>st\<close> is the state
  that was passed in, \<open>cur\<close> the one that the update callback receives.
\<close>

definition deleteNode ::
  "nat \<Rightarrow> explorer_state \<Rightarrow> explorer_state \<Rightarrow> qgraph \<Rightarrow> (js_error \<times> qgraph) + (explorer_state \<times> qgraph)" where
  "deleteNode n st cur g =
     (let nid = nodeId (g_node g n);
          parent = primaryInput (g_node g n);
          cs = captureAllChildConnections n g;
          inputs = getAllInputNodes n g;
          g1 = disconnectNodeFromGraph n g;
          deleted = nodeLayouts st nid;
          (err, reconnected, g2, off, ls) =
            (case parent of
               None \<Rightarrow> (None, [], g1, 0, nodeLayouts st)
             | Some p \<Rightarrow> fold (reconnect_child p (nodeLayouts st) deleted) cs (None, [], g1, 0, nodeLayouts st))
      in case err of
           Some e \<Rightarrow> Inl (e, g2)
         | None \<Rightarrow>
             (let unrenderable =
                    (case parent of
                       None \<Rightarrow> []
                     | Some p \<Rightarrow> filter (\<lambda>c. ls (nodeId (g_node g2 c)) = None \<and> length (nextNodes (g_node g2 p)) > 1)
                         reconnected);
                  orphans = (if parent = None then map fst (filter (\<lambda>c. snd c = None) cs) else []);
                  ls2 = promote_children deleted orphans g2 ls;
                  orphanedInputs = filter (\<lambda>i. i \<notin> set (rootNodes st) \<and> nextNodes (g_node g2 i) = []) inputs;
                  roots = fold push_new (orphans @ unrenderable @ orphanedInputs)
                    (js_set (filter (\<lambda>m. m \<noteq> n) (rootNodes st)));
                  g3 = fold onPrevNodesUpdated (map fst cs) g2;
                  g4 = fold notifyNextNodes orphanedInputs g3
              in Inr (cur\<lparr>rootNodes := roots, selectedNodes := selectedNodes cur - {nid},
                        nodeLayouts := ls2(nid := None)\<rparr>, g4)))"

end
