(* ===== verification/Query_Graph_Correct.thy ===== *)
theory Query_Graph_Correct
  imports Query_Graph
begin

text \<open>
  Correctness of the query graph: the traversals visit exactly the reachable nodes; the inputs of a node
  as a map of slots, and what adding and removing one connection does to the slots and to the forward
  links.
\<close>

subsection \<open>Breadth-first search\<close>

definition edges_of :: "(nat \<Rightarrow> nat list) \<Rightarrow> (nat \<times> nat) set" where
  "edges_of succs = {(a, b). b \<in> set (succs a)}"

definition reach_from :: "(nat \<Rightarrow> nat list) \<Rightarrow> nat list \<Rightarrow> nat set" where
  "reach_from succs roots = (edges_of succs)\<^sup>* `` set roots"

lemma reach_from_step: "a \<in> reach_from succs roots \<Longrightarrow> set (succs a) \<subseteq> reach_from succs roots"
  by (auto simp: reach_from_def edges_of_def intro: rtrancl_into_rtrancl)

lemma reach_from_root: "set roots \<subseteq> reach_from succs roots"
  by (auto simp: reach_from_def)

lemma reach_from_least:
  assumes "set roots \<subseteq> S" and closed: "\<And>a. a \<in> S \<Longrightarrow> set (succs a) \<subseteq> S"
  shows "reach_from succs roots \<subseteq> S"
proof
  fix b assume "b \<in> reach_from succs roots"
  then obtain a where "a \<in> set roots" "(a, b) \<in> (edges_of succs)\<^sup>*" by (auto simp: reach_from_def)
  from this(2,1) show "b \<in> S"
    by (induction rule: rtrancl_induct) (use assms in \<open>auto simp: edges_of_def\<close>)
qed

lemma bfs_invariant:
  assumes R: "finite R" "inj_on ids R" "\<And>a. a \<in> R \<Longrightarrow> set (succs a) \<subseteq> R"
    and q: "set queue \<subseteq> R" "set result \<subseteq> R" and v: "set visited = ids ` set result" and d: "distinct result"
    and c: "\<And>a. a \<in> set result \<Longrightarrow> set (succs a) \<subseteq> set result \<union> set queue"
  shows "\<exists>r. bfs ids succs queue visited result = Some r \<and> distinct r \<and> set r \<subseteq> R \<and>
    set result \<union> set queue \<subseteq> set r \<and> (\<forall>a\<in>set r. set (succs a) \<subseteq> set r)"
  using q v d c
proof (induction "(card (R - set result), length queue)" arbitrary: queue visited result
    rule: wf_induct_rule [OF wf_lex_prod [OF wf_less_than wf_less_than]])
  case (1 queue result visited)
  note prems = "1.prems"
  show ?case
  proof (cases queue)
    case Nil
    then show ?thesis using prems by (subst bfs.simps) auto
  next
    case (Cons n rest)
    then have n: "n \<in> R" and rest: "set rest \<subseteq> R" using prems(1) by auto
    have vis: "ids n \<in> set visited \<longleftrightarrow> n \<in> set result"
      using R(2) n prems(2,3) by (auto dest: inj_onD)
    show ?thesis
    proof (cases "n \<in> set result")
      case True
      then have "set (succs a) \<subseteq> set result \<union> set rest" if "a \<in> set result" for a
        using prems(5) [OF that] Cons by auto
      then obtain r where "bfs ids succs rest visited result = Some r" "distinct r" "set r \<subseteq> R"
        "set result \<union> set rest \<subseteq> set r" "\<forall>a\<in>set r. set (succs a) \<subseteq> set r"
        using "1.hyps" [of result rest visited] rest prems(2-4) Cons by auto
      then show ?thesis using True Cons vis by (subst bfs.simps) auto
    next
      case False
      let ?q = "rest @ succs n" and ?r = "result @ [n]"
      have "R - set ?r \<subset> R - set result" using False n by auto
      then have "card (R - set ?r) < card (R - set result)" using R(1) by (intro psubset_card_mono) auto
      moreover have "set (succs a) \<subseteq> set ?r \<union> set ?q" if "a \<in> set ?r" for a
        using that prems(5) [of a] Cons by auto
      moreover have "set ?q \<subseteq> R" "set ?r \<subseteq> R" "set (visited @ [ids n]) = ids ` set ?r" "distinct ?r"
        using n rest R(3) [OF n] prems(2-4) False by auto
      ultimately obtain r where "bfs ids succs ?q (visited @ [ids n]) ?r = Some r" "distinct r" "set r \<subseteq> R"
        "set ?r \<union> set ?q \<subseteq> set r" "\<forall>a\<in>set r. set (succs a) \<subseteq> set r"
        using "1.hyps" [of ?r ?q "visited @ [ids n]"] by auto
      then show ?thesis using False Cons vis by (subst bfs.simps) auto
    qed
  qed
qed

lemma bfs_reaches:
  assumes "finite (reach_from succs roots)" and "inj_on ids (reach_from succs roots)"
  shows "\<exists>r. bfs ids succs roots [] [] = Some r \<and> distinct r \<and> set r = reach_from succs roots"
proof -
  let ?R = "reach_from succs roots"
  obtain r where r: "bfs ids succs roots [] [] = Some r" "distinct r" "set r \<subseteq> ?R" "set roots \<subseteq> set r"
    "\<forall>a\<in>set r. set (succs a) \<subseteq> set r"
    using bfs_invariant [OF assms, of succs roots "[]" "[]"] reach_from_step [of _ succs roots]
      reach_from_root [of roots succs] by auto
  moreover from r(4,5) have "?R \<subseteq> set r" by (intro reach_from_least) auto
  ultimately show ?thesis by blast
qed

text \<open>
  \<open>graph_ok\<close>: every reference of a node is to an allocated node, and node ids are unique.
\<close>

definition graph_ok :: "qgraph \<Rightarrow> bool" where
  "graph_ok g \<longleftrightarrow> (\<forall>n. set (all_edges True g n) \<subseteq> {..<g_size g}) \<and>
     inj_on (\<lambda>n. nodeId (g_node g n)) {..<g_size g}"

lemma graph_ok_bfs:
  assumes g: "graph_ok g" and roots: "set roots \<subseteq> {..<g_size g}"
    and s: "\<And>n. set (succs n) \<subseteq> set (all_edges True g n)"
  shows "\<exists>r. bfs (\<lambda>n. nodeId (g_node g n)) succs roots [] [] = Some r \<and> distinct r \<and> set r = reach_from succs roots"
proof (rule bfs_reaches)
  have "set (succs n) \<subseteq> {..<g_size g}" for n using s [of n] g by (auto simp: graph_ok_def)
  then have R: "reach_from succs roots \<subseteq> {..<g_size g}" using roots by (intro reach_from_least) auto
  then show "finite (reach_from succs roots)" by (rule finite_subset) simp
  show "inj_on (\<lambda>n. nodeId (g_node g n)) (reach_from succs roots)"
    by (rule inj_on_subset [OF _ R]) (use g in \<open>simp add: graph_ok_def\<close>)
qed

lemma traversals:
  assumes "graph_ok g" and "set roots \<subseteq> {..<g_size g}" and "n < g_size g"
  shows "\<exists>r. getAllNodes roots groups g = Some r \<and> distinct r \<and> set r = reach_from (all_edges groups g) roots"
    and "\<exists>r. getAllDownstreamNodes n g = Some r \<and> distinct r \<and>
      set r = reach_from (\<lambda>m. nextNodes (g_node g m)) [n]"
    and "\<exists>r. getAllUpstreamNodes n g = Some r \<and> distinct r \<and>
      set r = reach_from (\<lambda>m. getAllInputNodes m g) (getAllInputNodes n g)"
proof -
  have "set (all_edges True g n) \<subseteq> {..<g_size g}" using assms(1) by (simp add: graph_ok_def)
  then have inputs: "set (getAllInputNodes n g) \<subseteq> {..<g_size g}" by (simp add: all_edges_def)
  show "\<exists>r. getAllNodes roots groups g = Some r \<and> distinct r \<and> set r = reach_from (all_edges groups g) roots"
    unfolding getAllNodes_def
    by (rule graph_ok_bfs [OF assms(1,2)]) (auto simp: all_edges_def split: option.splits)
  show "\<exists>r. getAllDownstreamNodes n g = Some r \<and> distinct r \<and> set r = reach_from (\<lambda>m. nextNodes (g_node g m)) [n]"
    unfolding getAllDownstreamNodes_def by (rule graph_ok_bfs [OF assms(1)]) (use assms(3) in \<open>auto simp: all_edges_def\<close>)
  show "\<exists>r. getAllUpstreamNodes n g = Some r \<and> distinct r \<and>
      set r = reach_from (\<lambda>m. getAllInputNodes m g) (getAllInputNodes n g)"
    unfolding getAllUpstreamNodes_def by (rule graph_ok_bfs [OF assms(1) inputs]) (auto simp: all_edges_def)
qed

text \<open>
  C27. The three traversals of the query graph end on every graph with unique node ids, cyclic ones
  included, and return exactly the nodes that can be reached along their edges, each once. The starting node is
  in the answer of \<open>getAllDownstreamNodes\<close>; it is in that of \<open>getAllUpstreamNodes\<close>, whose comment says that it
  is left out, exactly when it lies on a cycle of input edges.
\<close>

theorem traversals_exact:
  assumes "graph_ok g" and "set roots \<subseteq> {..<g_size g}" and "n < g_size g"
  shows "(\<exists>r. getAllNodes roots groups g = Some r \<and> distinct r \<and> set r = reach_from (all_edges groups g) roots) \<and>
    (\<exists>r. getAllDownstreamNodes n g = Some r \<and> distinct r \<and>
      set r = reach_from (\<lambda>m. nextNodes (g_node g m)) [n]) \<and>
    (\<exists>r. getAllUpstreamNodes n g = Some r \<and> distinct r \<and>
      set r = reach_from (\<lambda>m. getAllInputNodes m g) (getAllInputNodes n g))"
  using traversals [OF assms] by blast

text \<open>A small graph: a table 0 feeds a filter 1, which feeds a sort 2; node 3 is an unconnected filter.\<close>

definition mk_node :: "nat \<Rightarrow> node_type \<Rightarrow> nat list \<Rightarrow> nat option \<Rightarrow> qnode" where
  "mk_node i t ns p = \<lparr>nodeId = show_nat i, ntype = t, nextNodes = ns, primaryInput = p,
     secondaryInputs = None, group_of = None, has_update = True\<rparr>"

definition pipeline :: qgraph where
  "pipeline = \<lparr>g_size = 4, g_node = (\<lambda>n. if n = 0 then mk_node 0 kTable [1] None
       else if n = 1 then mk_node 1 kFilter [2] (Some 0)
       else if n = 2 then mk_node 2 kSort [] (Some 1) else mk_node n kFilter [] None), g_updates = []\<rparr>"

lemma pipeline_ids [simp]: "nodeId (g_node pipeline n) = show_nat n"
  by (simp add: pipeline_def mk_node_def)

lemma pipeline_ok: "graph_ok pipeline"
  unfolding graph_ok_def pipeline_ids
  by (auto simp: inj_on_def all_edges_def getAllInputNodes_def sec_conns_def pipeline_def mk_node_def)

theorem traversals_exact_witness:
  "\<exists>r. getAllDownstreamNodes 2 pipeline = Some r \<and> set r = reach_from (\<lambda>m. nextNodes (g_node pipeline m)) [2]"
  using traversals_exact [OF pipeline_ok, of "[]" 2 True] by (auto simp: pipeline_def)

subsection \<open>Input slots\<close>

text \<open>
  The abstract view of a graph: each node has input slots, the primary one (\<open>None\<close>) and one for each port,
  and only single-input operations use their primary slot.
\<close>

definition input_at :: "qgraph \<Rightarrow> nat \<Rightarrow> nat option \<Rightarrow> nat option" where
  "input_at g t s = (case s of None \<Rightarrow> primaryInput (g_node g t) | Some p \<Rightarrow> map_of (sec_conns (g_node g t)) p)"

definition feeds :: "qgraph \<Rightarrow> nat \<Rightarrow> nat \<Rightarrow> bool" where
  "feeds g f t \<longleftrightarrow> (\<exists>s. input_at g t s = Some f)"

definition slots_ok :: "qgraph \<Rightarrow> bool" where
  "slots_ok g \<longleftrightarrow> (\<forall>t. distinct (map fst (sec_conns (g_node g t)))) \<and>
     (\<forall>t. primaryInput (g_node g t) \<noteq> None \<longrightarrow> singleNodeOperation (ntype (g_node g t)))"

text \<open>
  The forward links and the slots agree: every forward link has a slot, and every slot of a node in \<open>A\<close> has
  a forward link. The input slots of an inner node that are ports of its group repeat what the port of the group
  holds and have no forward link of their own, so that \<open>A\<close> leaves out such nodes.
\<close>

definition linked_on :: "nat set \<Rightarrow> qgraph \<Rightarrow> bool" where
  "linked_on A g \<longleftrightarrow> slots_ok g \<and> (\<forall>f. distinct (nextNodes (g_node g f))) \<and>
     (\<forall>f t. t \<in> set (nextNodes (g_node g f)) \<longrightarrow> feeds g f t) \<and>
     (\<forall>f t. t \<in> A \<longrightarrow> feeds g f t \<longrightarrow> t \<in> set (nextNodes (g_node g f)))"

abbreviation linked :: "qgraph \<Rightarrow> bool" where
  "linked \<equiv> linked_on UNIV"

text \<open>A node whose \<open>onPrevNodesUpdated\<close> leaves the graph alone: any but a group with input ports.\<close>

definition no_ports :: "qgraph \<Rightarrow> nat \<Rightarrow> bool" where
  "no_ports g n \<longleftrightarrow> (case group_of (g_node g n) of None \<Rightarrow> True | Some i \<Rightarrow> externalConnections i = [])"

text \<open>What no operation on connections changes.\<close>

definition shape :: "qgraph \<Rightarrow> nat \<times> (nat \<Rightarrow> string \<times> node_type \<times> group_info option \<times> bool \<times> bool)" where
  "shape g = (g_size g, \<lambda>n. (nodeId (g_node g n), ntype (g_node g n), group_of (g_node g n),
     secondaryInputs (g_node g n) = None, has_update (g_node g n)))"

named_theorems graph_simps \<open>effect of the primitive updates on slots, forward links and shape\<close>

lemma onPrevNodesUpdated_node [graph_simps]: "no_ports g n \<Longrightarrow> g_node (onPrevNodesUpdated n g) = g_node g"
  by (auto simp: onPrevNodesUpdated_def no_ports_def Let_def split: option.split)

lemma no_ports_update [graph_simps]:
  "no_ports (set_next f n g) t = no_ports g t" "no_ports (set_primary p n g) t = no_ports g t"
  "no_ports (set_conns h n g) t = no_ports g t"
  by (simp_all add: no_ports_def set_next_def set_primary_def set_conns_def upd_node_def)

lemma sync_port_next: "nextNodes (g_node (sync_port n c g) m) = nextNodes (g_node g m)"
  by (simp add: sync_port_def set_input_def set_source_def set_primary_def set_conns_def upd_node_def
      split: option.split)

lemma onPrevNodesUpdated_next [graph_simps]:
  "nextNodes (g_node (onPrevNodesUpdated n g) m) = nextNodes (g_node g m)"
proof -
  have "nextNodes (g_node (fold (sync_port n) cs g') m) = nextNodes (g_node g' m)" for cs g'
    by (induction cs arbitrary: g') (simp_all add: sync_port_next)
  then show ?thesis by (simp add: onPrevNodesUpdated_def Let_def split: option.split)
qed

lemma shape_update [graph_simps]:
  "no_ports g n \<Longrightarrow> shape (onPrevNodesUpdated n g) = shape g" "shape (set_next f n g) = shape g"
  "shape (set_primary p n g) = shape g" "shape (set_conns h n g) = shape g"
  by (auto simp: shape_def onPrevNodesUpdated_def no_ports_def set_next_def set_primary_def set_conns_def upd_node_def
      fun_eq_iff Let_def split: option.split)

lemma shape_no_ports: "shape g' = shape g \<Longrightarrow> no_ports g' n = no_ports g n"
  by (simp add: shape_def no_ports_def fun_eq_iff)

lemma next_update [graph_simps]:
  "nextNodes (g_node (set_next f n g) m) = (if m = n then f (nextNodes (g_node g n)) else nextNodes (g_node g m))"
  "nextNodes (g_node (set_primary p n g) m) = nextNodes (g_node g m)"
  "nextNodes (g_node (set_conns h n g) m) = nextNodes (g_node g m)"
  by (simp_all add: set_next_def set_primary_def set_conns_def upd_node_def)

lemma primary_update [graph_simps]:
  "primaryInput (g_node (set_next f n g) m) = primaryInput (g_node g m)"
  "primaryInput (g_node (set_primary p n g) m) = (if m = n then p else primaryInput (g_node g m))"
  "primaryInput (g_node (set_conns h n g) m) = primaryInput (g_node g m)"
  by (simp_all add: set_next_def set_primary_def set_conns_def upd_node_def)

lemma sec_conns_update [graph_simps]:
  "sec_conns (g_node (set_next f n g) m) = sec_conns (g_node g m)"
  "sec_conns (g_node (set_primary p n g) m) = sec_conns (g_node g m)"
  "sec_conns (g_node (set_conns h n g) m) = (if m = n \<and> secondaryInputs (g_node g n) \<noteq> None
     then h (sec_conns (g_node g n)) else sec_conns (g_node g m))"
  by (auto simp: set_next_def set_primary_def set_conns_def upd_node_def sec_conns_def split: option.splits)

lemma type_update [graph_simps]:
  "ntype (g_node (set_next f n g) m) = ntype (g_node g m)" "ntype (g_node (set_primary p n g) m) = ntype (g_node g m)"
  "ntype (g_node (set_conns h n g) m) = ntype (g_node g m)"
  "secondaryInputs (g_node (set_next f n g) m) = secondaryInputs (g_node g m)"
  "secondaryInputs (g_node (set_primary p n g) m) = secondaryInputs (g_node g m)"
  "(secondaryInputs (g_node (set_conns h n g) m) = None) = (secondaryInputs (g_node g m) = None)"
  by (simp_all add: set_next_def set_primary_def set_conns_def upd_node_def)

lemma shape_type: "shape g' = shape g \<Longrightarrow> ntype (g_node g' n) = ntype (g_node g n)"
  by (simp add: shape_def fun_eq_iff)

lemma shape_secondary:
  "shape g' = shape g \<Longrightarrow> (secondaryInputs (g_node g' n) = None) = (secondaryInputs (g_node g n) = None)"
  by (simp add: shape_def fun_eq_iff)

lemma inputs_iff_feeds:
  "slots_ok g \<Longrightarrow> f \<in> set (getAllInputNodes t g) \<longleftrightarrow> feeds g f t"
  unfolding feeds_def getAllInputNodes_def slots_ok_def input_at_def
  by (auto simp: split_option_ex split: option.splits) force

subsection \<open>Adding and removing one connection\<close>

definition slot_for :: "qgraph \<Rightarrow> nat \<Rightarrow> nat option \<Rightarrow> nat option option" where
  "slot_for g t port =
     (case secondaryInputs (g_node g t) of
        None \<Rightarrow> (if singleNodeOperation (ntype (g_node g t)) \<and> port = None then Some None else None)
      | Some s \<Rightarrow> Some (if singleNodeOperation (ntype (g_node g t)) then port
          else Some (case port of Some p \<Rightarrow> p | None \<Rightarrow> first_free (connections s) 0)))"

lemma addConnection_next:
  assumes "addConnection f t port g = (e, g')"
  shows "nextNodes (g_node g' n) = (if n = f then push_new t (nextNodes (g_node g f)) else nextNodes (g_node g n))"
  using assms
  by (auto simp: addConnection_def connect_port_def setSecondaryInput_def Let_def
      graph_simps split: if_splits option.splits sum.splits)

lemma addConnection_effect:
  assumes "addConnection f t port g = (e, g')" and "no_ports g t"
  shows "nextNodes (g_node g' n) = (if n = f then push_new t (nextNodes (g_node g f)) else nextNodes (g_node g n))"
    and "input_at g' n s = (if n = t \<and> slot_for g t port = Some s then Some f else input_at g n s)"
    and "shape g' = shape g" and "slots_ok g \<Longrightarrow> slots_ok g'"
    and "slot_for g t port \<noteq> None \<Longrightarrow> e = None"
  using assms
  by (auto simp: addConnection_def connect_port_def setSecondaryInput_def slot_for_def input_at_def slots_ok_def Let_def
      graph_simps AList.update_conv' distinct_update split: if_splits option.splits sum.splits)

lemma first_free_is_free: "first_free cs p \<notin> fst ` set cs"
  by (induction cs p rule: first_free.induct) (subst first_free.simps, simp)

lemma first_free_slot: "input_at g t (Some (first_free (sec_conns (g_node g t)) 0)) = None"
  using first_free_is_free [of "sec_conns (g_node g t)" 0] by (simp add: input_at_def map_of_eq_None_iff)

lemma fold_delete: "map_of (fold AList.delete ps cs) p = (if p \<in> set ps then None else map_of cs p)"
  by (induction ps arbitrary: cs) (auto simp: AList.delete_conv')

lemma fold_delete_distinct: "distinct (map fst cs) \<Longrightarrow> distinct (map fst (fold AList.delete ps cs))"
  by (induction ps arbitrary: cs) (auto simp: distinct_delete)

lemma fold_set_conns:
  "fold (removeSecondaryInput t) ps g = set_conns (fold AList.delete ps) t g"
proof (induction ps arbitrary: g)
  case Nil
  show ?case by (simp add: set_conns_def upd_node_def option.map_ident)
next
  case (Cons p ps)
  then show ?case
    by (simp add: removeSecondaryInput_def set_conns_def upd_node_def option.map_comp comp_def)
qed

lemma ports_of_iff: "distinct (map fst cs) \<Longrightarrow> p \<in> set (ports_of f cs) \<longleftrightarrow> map_of cs p = Some f"
  by (force simp: ports_of_def)

definition cleared :: "nat option \<Rightarrow> nat option \<Rightarrow> bool" where
  "cleared port s \<longleftrightarrow> port = None \<or> s = None \<or> s = port"

lemma clear_effect:
  fixes f t :: nat and port :: "nat option"
  assumes ok: "slots_ok g" and quiet: "no_ports g t"
  defines "g' \<equiv> clear_secondary f t port (clear_primary f t g)"
  shows "nextNodes (g_node g' n) = nextNodes (g_node g n)"
    and "input_at g' n s = (if n = t \<and> input_at g t s = Some f \<and> cleared port s then None else input_at g n s)"
    and "shape g' = shape g" and "slots_ok g'"
proof -
  let ?p = "clear_primary f t g"
  have p: "nextNodes (g_node ?p m) = nextNodes (g_node g m)" "sec_conns (g_node ?p m) = sec_conns (g_node g m)"
    "secondaryInputs (g_node ?p m) = secondaryInputs (g_node g m)" "shape ?p = shape g"
    "primaryInput (g_node ?p m) = (if m = t \<and> primaryInput (g_node g t) = Some f then None else primaryInput (g_node g m))"
    for m using quiet by (auto simp: clear_primary_def graph_simps)
  have q: "no_ports ?p t" using shape_no_ports [OF p(4)] quiet by blast
  have d: "distinct (map fst (sec_conns (g_node g m)))" for m using ok by (simp add: slots_ok_def)
  show "shape g' = shape g"
    by (simp add: g'_def clear_secondary_def fold_set_conns removeSecondaryInput_def graph_simps p q Let_def split: option.split)
  then have ty: "ntype (g_node g' m) = ntype (g_node g m)" for m by (rule shape_type)
  show "nextNodes (g_node g' n) = nextNodes (g_node g n)"
    by (simp add: g'_def clear_secondary_def fold_set_conns removeSecondaryInput_def graph_simps p q Let_def split: option.split)
  have pr: "primaryInput (g_node g' m) = primaryInput (g_node ?p m)" for m
    by (simp add: g'_def clear_secondary_def fold_set_conns removeSecondaryInput_def graph_simps p q Let_def split: option.split)
  have sc: "sec_conns (g_node g' m) = (if m \<noteq> t then sec_conns (g_node g m)
    else case port of
      Some q \<Rightarrow> if map_of (sec_conns (g_node g t)) q = Some f then AList.delete q (sec_conns (g_node g t)) else sec_conns (g_node g t)
    | None \<Rightarrow> fold AList.delete (ports_of f (sec_conns (g_node g t))) (sec_conns (g_node g t)))" for m
  proof (cases "secondaryInputs (g_node g t)")
    case None
    then have "sec_conns (g_node g t) = []" by (simp add: sec_conns_def)
    with None show ?thesis by (simp add: g'_def clear_secondary_def p ports_of_def split: option.split)
  next
    case (Some s)
    then have "connections s = sec_conns (g_node g t)" by (simp add: sec_conns_def)
    with Some show ?thesis
      by (auto simp: g'_def clear_secondary_def fold_set_conns removeSecondaryInput_def graph_simps p q Let_def
          split: option.split)
  qed
  show "input_at g' n s = (if n = t \<and> input_at g t s = Some f \<and> cleared port s then None else input_at g n s)"
    by (cases s; cases port) (auto simp: input_at_def pr p sc cleared_def AList.delete_conv' fold_delete ports_of_iff [OF d])
  show "slots_ok g'"
    using ok by (auto simp: slots_ok_def sc pr p ty distinct_delete fold_delete_distinct split: option.split)
qed

lemma removeConnection_effect:
  fixes f t :: nat and port :: "nat option"
  assumes ok: "slots_ok g" and quiet: "no_ports g t"
  defines "g' \<equiv> removeConnection f t port g"
  shows "input_at g' n s = (if n = t \<and> input_at g t s = Some f \<and> cleared port s then None else input_at g n s)"
    and "nextNodes (g_node g' n) =
      (if n = f \<and> \<not> feeds g' f t then remove1 t (nextNodes (g_node g f)) else nextNodes (g_node g n))"
    and "shape g' = shape g" and "slots_ok g'"
proof -
  let ?g = "clear_secondary f t port (clear_primary f t g)"
  note c = clear_effect [OF ok quiet, of f port]
  have g': "g' = (if feeds ?g f t then ?g else set_next (remove1 t) f ?g)"
    by (simp add: g'_def removeConnection_def Let_def inputs_iff_feeds [OF c(4)])
  have i: "input_at g' m s = input_at ?g m s" for m s by (simp add: g' input_at_def graph_simps split: option.split)
  then have "feeds g' = feeds ?g" by (simp add: feeds_def fun_eq_iff)
  then show "nextNodes (g_node g' n) =
      (if n = f \<and> \<not> feeds g' f t then remove1 t (nextNodes (g_node g f)) else nextNodes (g_node g n))"
    by (simp add: c(1) g' graph_simps)
  show "input_at g' n s = (if n = t \<and> input_at g t s = Some f \<and> cleared port s then None else input_at g n s)"
    by (simp add: i c(2))
  show "shape g' = shape g" using c(3) by (simp add: g' graph_simps)
  show "slots_ok g'" using c(4) by (simp add: g' slots_ok_def graph_simps)
qed

lemma linked_onI:
  assumes "slots_ok g" and "\<And>f. distinct (nextNodes (g_node g f))"
    and "\<And>f t. t \<in> set (nextNodes (g_node g f)) \<Longrightarrow> feeds g f t"
    and "\<And>f t. t \<in> A \<Longrightarrow> feeds g f t \<Longrightarrow> t \<in> set (nextNodes (g_node g f))"
  shows "linked_on A g"
  using assms by (simp add: linked_on_def)

lemma linked_onD:
  assumes "linked_on A g"
  shows "slots_ok g" and "distinct (nextNodes (g_node g f))"
    and "t \<in> set (nextNodes (g_node g f)) \<Longrightarrow> feeds g f t"
    and "t \<in> A \<Longrightarrow> feeds g f t \<Longrightarrow> t \<in> set (nextNodes (g_node g f))"
  using assms by (simp_all add: linked_on_def)

lemmas linked_slots = linked_onD(1)

lemma addConnection_linked:
  assumes l: "linked_on A g" and s: "slot_for g t port = Some s" and free: "input_at g t s = None \<or> input_at g t s = Some f"
    and a: "addConnection f t port g = (e, g')" and quiet: "no_ports g t"
  shows "linked_on A g'"
proof -
  note eff = addConnection_effect [OF a quiet]
  have fd: "feeds g' x y \<longleftrightarrow> feeds g x y \<or> x = f \<and> y = t" for x y
    using free s by (auto simp: feeds_def eff(2)) (metis option.distinct(1) option.inject)+
  have nx: "y \<in> set (nextNodes (g_node g' x)) \<longleftrightarrow> y \<in> set (nextNodes (g_node g x)) \<or> x = f \<and> y = t" for x y
    by (simp add: eff(1) push_new_def) blast
  show ?thesis
  proof (rule linked_onI)
    show "slots_ok g'" by (rule eff(4) [OF linked_onD(1) [OF l]])
    show "distinct (nextNodes (g_node g' x))" for x
      using linked_onD(2) [OF l, of x] linked_onD(2) [OF l, of f] by (simp add: eff(1) push_new_def)
    show "feeds g' x y" if "y \<in> set (nextNodes (g_node g' x))" for x y
      using that linked_onD(3) [OF l, of y x] by (simp add: fd nx) blast
    show "y \<in> set (nextNodes (g_node g' x))" if "y \<in> A" "feeds g' x y" for x y
      using that linked_onD(4) [OF l, of y x] by (simp add: fd nx) blast
  qed
qed

lemma removeConnection_linked:
  assumes l: "linked_on A g" and quiet: "no_ports g t"
  shows "linked_on A (removeConnection f t port g)"
proof -
  let ?r = "removeConnection f t port g"
  note eff = removeConnection_effect [OF linked_slots [OF l] quiet, of f port]
  have same: "feeds ?r x y \<longleftrightarrow> feeds g x y" if "\<not> (x = f \<and> y = t)" for x y
    using that by (auto simp: feeds_def eff(1)) (metis option.inject)+
  have less: "feeds ?r f t \<Longrightarrow> feeds g f t"
    by (auto simp: feeds_def eff(1) split: if_splits)
  have nx: "y \<in> set (nextNodes (g_node ?r x)) \<longleftrightarrow>
      y \<in> set (nextNodes (g_node g x)) \<and> \<not> (x = f \<and> y = t \<and> \<not> feeds ?r f t)" for x y
    using linked_onD(2) [OF l, of f] by (simp add: eff(2))
  show ?thesis
  proof (rule linked_onI)
    show "slots_ok ?r" by (rule eff(4))
    show "distinct (nextNodes (g_node ?r x))" for x
      using linked_onD(2) [OF l] by (simp add: eff(2))
    show "feeds ?r x y" if "y \<in> set (nextNodes (g_node ?r x))" for x y
      using that linked_onD(3) [OF l, of y x] same [of x y] by (simp only: nx) blast
    show "y \<in> set (nextNodes (g_node ?r x))" if "y \<in> A" "feeds ?r x y" for x y
      using that linked_onD(4) [OF l, of y x] same [of x y] less by (simp only: nx) blast
  qed
qed

end
