(* ===== verification/Graph_Rewiring.thy ===== *)
theory Graph_Rewiring
  imports Query_Graph_Correct
begin

text \<open>
  Connections of the query graph in terms of input slots: guarded connections, single connections, and
  the insertion of a node between a parent and its children.
\<close>

subsection \<open>Cycles\<close>

definition next_edges :: "qgraph \<Rightarrow> (nat \<times> nat) set" where
  "next_edges g = edges_of (\<lambda>m. nextNodes (g_node g m))"

lemma next_edges_add:
  "addConnection f t port g = (e, g') \<Longrightarrow> next_edges g' = insert (f, t) (next_edges g)"
  by (auto simp: next_edges_def edges_of_def addConnection_next push_new_def split: if_splits)

text \<open>
  C28. \<open>wouldCreateCycle\<close> ends and answers exactly whether the source of the new connection lies downstream
  of its target, so a connection that is made only when the answer is no keeps the graph acyclic.
\<close>

theorem guarded_connection_acyclic:
  assumes g: "graph_ok g" and n: "f < g_size g" "t < g_size g" and ac: "acyclic (next_edges g)"
  shows "\<exists>b. wouldCreateCycle f t g = Some b \<and> (b \<longleftrightarrow> (t, f) \<in> (next_edges g)\<^sup>*) \<and>
    (\<not> b \<longrightarrow> acyclic (next_edges (snd (addConnection f t port g))))"
proof -
  obtain r where r: "getAllDownstreamNodes t g = Some r" "set r = reach_from (\<lambda>m. nextNodes (g_node g m)) [t]"
    using traversals(2) [OF g _ n(2), of "[]"] by auto
  have "wouldCreateCycle f t g = Some ((t, f) \<in> (next_edges g)\<^sup>*)"
    using r by (auto simp: wouldCreateCycle_def reach_from_def next_edges_def)
  moreover have "acyclic (insert (f, t) (next_edges g))" if "(t, f) \<notin> (next_edges g)\<^sup>*"
    using that ac by (simp add: acyclic_insert)
  ultimately show ?thesis by (cases "addConnection f t port g") (simp add: next_edges_add)
qed

lemma pipeline_acyclic: "acyclic (next_edges pipeline)"
proof (rule acyclicI_order [where f = "\<lambda>n. - int n"])
  show "- int b < - int a" if "(a, b) \<in> next_edges pipeline" for a b
    using that by (auto simp: next_edges_def edges_of_def pipeline_def mk_node_def split: if_splits)
qed

theorem guarded_connection_acyclic_witness:
  "\<exists>b. wouldCreateCycle 3 0 pipeline = Some b \<and> (b \<longleftrightarrow> (0, 3) \<in> (next_edges pipeline)\<^sup>*)"
  using guarded_connection_acyclic [OF pipeline_ok _ _ pipeline_acyclic, of 3 0] by (auto simp: pipeline_def)

subsection \<open>Single connections\<close>

lemma linkedD: "linked_on A g \<Longrightarrow> t \<in> A \<Longrightarrow> input_at g t s = Some f \<Longrightarrow> t \<in> set (nextNodes (g_node g f))"
  unfolding linked_on_def feeds_def by blast

text \<open>
  On a graph whose forward links mirror its input slots, connecting to a free slot of a node that is no group
  with input ports fills exactly that slot, removing a connection empties exactly the slots of the target that hold the source (with a port: the
  primary slot and that port), and both keep the forward links in agreement with the slots.
\<close>

theorem connections_refine_slots:
  assumes l: "linked g" and quiet: "no_ports g t" and s: "slot_for g t port = Some s" and free: "input_at g t s = None"
  shows "(\<exists>g'. addConnection f t port g = (None, g') \<and> linked g' \<and>
      (\<forall>n r. input_at g' n r = (if n = t \<and> r = s then Some f else input_at g n r))) \<and>
    linked (removeConnection f t port g) \<and>
    (\<forall>n r. input_at (removeConnection f t port g) n r =
      (if n = t \<and> input_at g t r = Some f \<and> (port = None \<or> r = None \<or> r = port) then None else input_at g n r))"
proof -
  obtain e g' where a: "addConnection f t port g = (e, g')" by fastforce
  note eff = addConnection_effect [OF a quiet]
  have "e = None" using eff(5) s by simp
  moreover have "linked g'" by (rule addConnection_linked [OF l s _ a quiet]) (simp add: free)
  moreover have "input_at g' n r = (if n = t \<and> r = s then Some f else input_at g n r)" for n r
    using s by (auto simp: eff(2))
  ultimately show ?thesis
    using a removeConnection_linked [OF l quiet] removeConnection_effect(1) [OF linked_slots [OF l] quiet]
    by (auto simp: cleared_def)
qed

lemma pipeline_slots:
  "input_at pipeline n s = (if s = None \<and> n = 1 then Some 0 else if s = None \<and> n = 2 then Some 1 else None)"
  by (auto simp: input_at_def pipeline_def mk_node_def sec_conns_def split: option.split)

lemma pipeline_next: "nextNodes (g_node pipeline n) = (if n = 0 then [1] else if n = 1 then [2] else [])"
  by (simp add: pipeline_def mk_node_def)

lemma pipeline_linked: "linked pipeline"
proof -
  have "slots_ok pipeline" by (simp add: slots_ok_def pipeline_def mk_node_def sec_conns_def)
  then show ?thesis by (auto simp: linked_on_def feeds_def pipeline_slots pipeline_next)
qed

lemma pipeline_no_ports: "no_ports pipeline n"
  by (simp add: no_ports_def pipeline_def mk_node_def)

lemma pipeline_slot_for: "1 \<le> n \<Longrightarrow> slot_for pipeline n None = Some None"
  by (simp add: slot_for_def pipeline_def mk_node_def)

theorem connections_refine_slots_witness:
  "\<exists>g'. addConnection 2 3 None pipeline = (None, g') \<and> input_at g' 3 None = Some 2"
  using connections_refine_slots [OF pipeline_linked pipeline_no_ports pipeline_slot_for, of 3 2] by (auto simp: pipeline_slots)

text \<open>
  \<open>addConnection\<close> does not look at what the slot held before: a node that fed the target through that
  slot only loses it, but keeps the target among its \<open>nextNodes\<close>.
\<close>

theorem addConnection_occupied_stale:
  assumes l: "linked g" and quiet: "no_ports g t" and s: "slot_for g t port = Some s" and old: "input_at g t s = Some x" "x \<noteq> f"
    and only: "\<And>r. input_at g t r = Some x \<Longrightarrow> r = s"
  shows "\<not> feeds (snd (addConnection f t port g)) x t \<and>
    t \<in> set (nextNodes (g_node (snd (addConnection f t port g)) x)) \<and> \<not> linked (snd (addConnection f t port g))"
proof -
  obtain e g' where a: "addConnection f t port g = (e, g')" by fastforce
  note eff = addConnection_effect [OF a quiet]
  have "\<not> feeds g' x t" using only s old(2) by (auto simp: feeds_def eff(2))
  moreover have "t \<in> set (nextNodes (g_node g x))" by (rule linkedD [OF l UNIV_I old(1)])
  then have "t \<in> set (nextNodes (g_node g' x))" using old(2) by (simp add: eff(1))
  moreover from calculation have "\<not> linked g'" using linked_onD(3) [of UNIV g' t x] by blast
  ultimately show ?thesis using a by simp
qed

theorem addConnection_occupied_stale_witness:
  "\<not> linked (snd (addConnection 3 1 None pipeline))"
proof -
  have only: "input_at pipeline 1 r = Some 0 \<Longrightarrow> r = None" for r by (simp add: pipeline_slots split: if_splits)
  have old: "input_at pipeline 1 None = Some 0" by (simp add: pipeline_slots)
  have slot: "slot_for pipeline 1 None = Some None" by (rule pipeline_slot_for) simp
  have "(0 :: nat) \<noteq> 3" by simp
  from addConnection_occupied_stale [OF pipeline_linked pipeline_no_ports slot old this, OF only] show ?thesis by simp
qed

subsection \<open>Inserting a node\<close>

lemma captured_iff:
  assumes "slots_ok g"
  shows "(t, s) \<in> set (captureAllChildConnections p g) \<longleftrightarrow>
    t \<in> set (nextNodes (g_node g p)) \<and> input_at g t s = Some p"
proof -
  have "distinct (map fst (sec_conns (g_node g t)))" using assms by (simp add: slots_ok_def)
  from ports_of_iff [OF this] show ?thesis
    by (cases s) (auto simp: captureAllChildConnections_def input_at_def split: if_splits)
qed

lemma captured_linked:
  "linked_on A g \<Longrightarrow> (\<And>t. feeds g p t \<Longrightarrow> t \<in> A) \<Longrightarrow>
     (t, s) \<in> set (captureAllChildConnections p g) \<longleftrightarrow> input_at g t s = Some p"
  using linkedD [of A g t s p] by (auto simp: captured_iff linked_slots feeds_def)

lemma occupied_slot_for:
  assumes "slots_ok g" and "input_at g t s = Some x" and "shape g' = shape g"
  shows "slot_for g' t s = Some s"
proof -
  have "singleNodeOperation (ntype (g_node g t))" if "s = None"
    using assms(1,2) that by (auto simp: slots_ok_def input_at_def)
  moreover have "secondaryInputs (g_node g t) \<noteq> None" if "s \<noteq> None"
    using assms(2) that by (auto simp: input_at_def sec_conns_def split: option.splits)
  ultimately show ?thesis
    using shape_type [OF assms(3), of t] shape_secondary [OF assms(3), of t]
    by (cases s) (auto simp: slot_for_def split: option.splits)
qed

lemma move_child_effect:
  assumes ok: "slots_ok g" and ne: "p \<noteq> m" and quiet: "no_ports g c"
    and stay: "\<And>g'. shape g' = shape g \<Longrightarrow> slot_for g' c s = Some s"
  shows "\<exists>g'. move_child p m (c, s) g = (None, g') \<and> shape g' = shape g \<and> slots_ok g' \<and>
    (\<forall>t r. input_at g' t r = (if (t, r) = (c, s) then Some m
      else if t = c \<and> input_at g t r = Some p then None else input_at g t r)) \<and>
    (\<forall>n. nextNodes (g_node g' n) = (if n = p then remove1 c (nextNodes (g_node g p))
      else if n = m then push_new c (nextNodes (g_node g m)) else nextNodes (g_node g n)))"
proof -
  let ?g = "removeConnection p c None g"
  note rm = removeConnection_effect [OF ok quiet, of p None]
  obtain e g' where a: "addConnection m c s ?g = (e, g')" by fastforce
  have "no_ports ?g c" using shape_no_ports [OF rm(3)] quiet by blast
  note add = addConnection_effect [OF a this]
  have sf: "slot_for ?g c s = Some s" using stay rm(3) by blast
  have nf: "\<not> feeds ?g p c" by (simp add: feeds_def rm(1) cleared_def)
  have "move_child p m (c, s) g = (None, g')" using a add(5) sf by (simp add: move_child_def)
  moreover have "input_at g' t r = (if (t, r) = (c, s) then Some m
      else if t = c \<and> input_at g t r = Some p then None else input_at g t r)" for t r
    by (auto simp: add(2) sf rm(1) cleared_def)
  moreover have "nextNodes (g_node g' n) = (if n = p then remove1 c (nextNodes (g_node g p))
      else if n = m then push_new c (nextNodes (g_node g m)) else nextNodes (g_node g n))" for n
    using ne by (auto simp: add(1) rm(2) nf)
  moreover have "shape g' = shape g" "slots_ok g'" using add(3,4) rm(3,4) by auto
  ultimately show ?thesis by blast
qed

lemma move_children_effect:
  assumes "slots_ok g" and ne: "p \<noteq> m"
    and stay: "\<And>c s g'. (c, s) \<in> set cs \<Longrightarrow> shape g' = shape g \<Longrightarrow> slot_for g' c s = Some s \<and> no_ports g' c"
  shows "\<exists>g'. fold (\<lambda>c. then_do (move_child p m c)) cs (None, g) = (None, g') \<and> slots_ok g' \<and> shape g' = shape g \<and>
    (\<forall>t r. input_at g' t r = (if (t, r) \<in> set cs then Some m
      else if t \<in> fst ` set cs \<and> input_at g t r = Some p then None else input_at g t r)) \<and>
    (\<forall>n. nextNodes (g_node g' n) = (if n = p then fold remove1 (map fst cs) (nextNodes (g_node g p))
      else if n = m then fold push_new (map fst cs) (nextNodes (g_node g m)) else nextNodes (g_node g n)))"
  using assms(1) stay
proof (induction cs arbitrary: g)
  case (Cons x cs)
  obtain c s where x: "x = (c, s)" by fastforce
  have quiet: "no_ports g c" using Cons.prems(2) [of c s g] x by simp
  have "slot_for g' c s = Some s" if "shape g' = shape g" for g' using Cons.prems(2) x that by simp
  from move_child_effect [OF Cons.prems(1) ne quiet this] obtain g1 where g1: "move_child p m (c, s) g = (None, g1)"
    and g1': "shape g1 = shape g" "slots_ok g1"
    and i1: "\<And>t r. input_at g1 t r = (if (t, r) = (c, s) then Some m
      else if t = c \<and> input_at g t r = Some p then None else input_at g t r)"
    and n1: "\<And>n. nextNodes (g_node g1 n) = (if n = p then remove1 c (nextNodes (g_node g p))
      else if n = m then push_new c (nextNodes (g_node g m)) else nextNodes (g_node g n))" by blast
  have "slot_for g' c' s' = Some s' \<and> no_ports g' c'" if "(c', s') \<in> set cs" "shape g' = shape g1" for c' s' g'
    using Cons.prems(2) [of c' s' g'] that g1'(1) by simp
  from Cons.IH [OF g1'(2) this] obtain g' where g':
    "fold (\<lambda>c. then_do (move_child p m c)) cs (None, g1) = (None, g')" "slots_ok g'" "shape g' = shape g1"
    and i': "\<And>t r. input_at g' t r = (if (t, r) \<in> set cs then Some m
      else if t \<in> fst ` set cs \<and> input_at g1 t r = Some p then None else input_at g1 t r)"
    and n': "\<And>n. nextNodes (g_node g' n) = (if n = p then fold remove1 (map fst cs) (nextNodes (g_node g1 p))
      else if n = m then fold push_new (map fst cs) (nextNodes (g_node g1 m)) else nextNodes (g_node g1 n))" by auto
  have "fold (\<lambda>c. then_do (move_child p m c)) (x # cs) (None, g) = (None, g')"
    using g1 g'(1) by (simp add: then_do_def x)
  moreover have "input_at g' t r = (if (t, r) \<in> set (x # cs) then Some m
      else if t \<in> fst ` set (x # cs) \<and> input_at g t r = Some p then None else input_at g t r)" for t r
    using ne by (auto simp: i' i1 x)
  moreover have "nextNodes (g_node g' n) = (if n = p then fold remove1 (map fst (x # cs)) (nextNodes (g_node g p))
      else if n = m then fold push_new (map fst (x # cs)) (nextNodes (g_node g m)) else nextNodes (g_node g n))" for n
    using ne by (simp add: n' n1 x)
  ultimately show ?case using g'(2,3) g1'(1) by (intro exI [of _ g']) simp
qed simp

lemma set_fold_push_new: "set (fold push_new xs ys) = set xs \<union> set ys"
  by (induction xs arbitrary: ys) (auto simp: push_new_def)

lemma distinct_fold_push_new: "distinct ys \<Longrightarrow> distinct (fold push_new xs ys)"
  by (induction xs arbitrary: ys) (auto simp: push_new_def)

lemma fold_remove1_absent: "set xs \<inter> set ys = {} \<Longrightarrow> fold remove1 xs ys = ys"
  by (induction xs arbitrary: ys) (auto simp: remove1_idem)

text \<open>
  \<open>insertNodeBetween\<close> with an unconnected new node: the new node gets the parent as its input and takes
  the place of the parent in every slot that the parent fed, several ports of one child included; all
  other slots and the agreement of the links are kept.
\<close>

theorem insertNodeBetween_rewires:
  assumes l: "linked g" and ne: "parent \<noteq> new" and new: "\<And>s. input_at g new s = None" "nextNodes (g_node g new) = []"
    and s0: "slot_for g new None = Some s0" and self: "\<not> feeds g parent parent"
    and quiet: "\<And>t. no_ports g t"
  shows "\<exists>g'. insertNodeBetween parent new g = (None, g') \<and> linked g' \<and> nextNodes (g_node g' parent) = [new] \<and>
    (\<forall>t s. input_at g' t s = (if t = new \<and> s = s0 then Some parent
       else if input_at g t s = Some parent then Some new else input_at g t s))"
proof -
  let ?cs = "captureAllChildConnections parent g" and ?g0 = "set_next (\<lambda>_. []) parent g"
  have ok: "slots_ok g" by (rule linked_slots [OF l])
  have i0: "input_at ?g0 = input_at g" by (simp add: input_at_def graph_simps fun_eq_iff split: option.split)
  have ok0: "slots_ok ?g0" and sh0: "shape ?g0 = shape g" using ok by (simp_all add: slots_ok_def graph_simps)
  have sf0: "slot_for ?g0 new None = Some s0" using s0 by (auto simp: slot_for_def graph_simps split: option.splits if_splits)
  obtain e g1 where a: "addConnection parent new None ?g0 = (e, g1)" by fastforce
  have "no_ports ?g0 new" using quiet by (simp add: graph_simps)
  note add = addConnection_effect [OF a this]
  have e: "e = None" using add(5) sf0 by simp
  have "slot_for g' c s = Some s \<and> no_ports g' c" if "(c, s) \<in> set ?cs" "shape g' = shape g1" for c s g'
  proof
    show "slot_for g' c s = Some s"
      using that add(3) sh0 by (intro occupied_slot_for [OF ok]) (auto simp: captured_linked [OF l])
    have "shape g' = shape g" using that(2) add(3) sh0 by simp
    from shape_no_ports [OF this] show "no_ports g' c" using quiet by blast
  qed
  from move_children_effect [OF add(4) [OF ok0] ne, of ?cs, OF this] obtain g' where
    g': "fold (\<lambda>c. then_do (move_child parent new c)) ?cs (None, g1) = (None, g')" "slots_ok g'"
    and i': "\<And>t r. input_at g' t r = (if (t, r) \<in> set ?cs then Some new
      else if t \<in> fst ` set ?cs \<and> input_at g1 t r = Some parent then None else input_at g1 t r)"
    and n': "\<And>n. nextNodes (g_node g' n) = (if n = parent then fold remove1 (map fst ?cs) (nextNodes (g_node g1 parent))
      else if n = new then fold push_new (map fst ?cs) (nextNodes (g_node g1 new)) else nextNodes (g_node g1 n))"
    by auto
  have no_new: "t \<noteq> new" if "(t, r) \<in> set ?cs" for t r using that new(1) by (auto simp: captured_linked [OF l])
  have i: "input_at g' t s = (if t = new \<and> s = s0 then Some parent
      else if input_at g t s = Some parent then Some new else input_at g t s)" for t s
    using no_new new(1) by (auto simp: i' add(2) sf0 i0 captured_linked [OF l])
  have "nextNodes (g_node g1 parent) = [new]" by (simp add: add(1) graph_simps push_new_def)
  then have np: "nextNodes (g_node g' parent) = [new]"
    using no_new by (simp add: n') (rule fold_remove1_absent, force)
  have nn: "nextNodes (g_node g' n) = (if n = parent then [new] else if n = new then fold push_new (map fst ?cs) []
      else nextNodes (g_node g n))" for n
    using np ne new(2) by (auto simp: n' add(1) graph_simps)
  have none: "input_at g t s \<noteq> Some new" for t s using linkedD [OF l, of t s new] new(2) by auto
  have "t \<in> set (nextNodes (g_node g' f)) \<longleftrightarrow> feeds g' f t" for f t
  proof -
    consider "f = parent" | "f = new" | "f \<noteq> parent" "f \<noteq> new" by blast
    then show ?thesis
    proof cases
      case 1
      then show ?thesis using ne by (auto simp: nn feeds_def i)
    next
      case 2
      have "t \<in> fst ` set ?cs \<longleftrightarrow> (\<exists>s. input_at g t s = Some parent)" 
        by (auto simp: captured_linked [OF l] image_iff Bex_def)
      then show ?thesis using 2 ne none new(1) by (auto simp: nn feeds_def i set_fold_push_new)
    next
      case 3
      then have "input_at g' t s = Some f \<longleftrightarrow> input_at g t s = Some f" for s using new(1) by (auto simp: i)
      then show ?thesis using 3 linked_onD(3,4) [OF l, of t f] by (simp add: nn feeds_def) blast
    qed
  qed
  moreover have "distinct (nextNodes (g_node g' f))" for f
    using l by (simp add: nn linked_on_def distinct_fold_push_new)
  ultimately have "linked g'" using g'(2) by (simp add: linked_on_def)
  with g'(1) a e ne np i show ?thesis by (auto simp: insertNodeBetween_def)
qed

theorem insertNodeBetween_rewires_witness:
  "\<exists>g'. insertNodeBetween 1 3 pipeline = (None, g') \<and> input_at g' 2 None = Some 3 \<and> input_at g' 3 None = Some 1"
proof -
  have "\<not> feeds pipeline 1 1" by (simp add: feeds_def pipeline_slots)
  moreover have "input_at pipeline 3 s = None" for s by (simp add: pipeline_slots)
  ultimately show ?thesis
    using insertNodeBetween_rewires [OF pipeline_linked, of 1 3 None]
    by (force simp: pipeline_slot_for pipeline_next pipeline_slots pipeline_no_ports)
qed

end
