(* ===== verification/Graph_Deletion.thy ===== *)
theory Graph_Deletion
  imports Graph_Rewiring
begin

text \<open>
  Deleting a node of the query graph (\<open>deleteNode\<close> of \<^verbatim>\<open>node_crud_operations.ts\<close>): what happens to the input
  slots, to the root nodes, to the selection and to the layouts.
\<close>

subsection \<open>Disconnecting\<close>

lemma remove_parents_effect:
  assumes "linked_on A g" and "no_ports g n"
  shows "linked_on A (fold (\<lambda>p. removeConnection p n None) ps g) \<and> shape (fold (\<lambda>p. removeConnection p n None) ps g) = shape g \<and>
    (\<forall>t s. input_at (fold (\<lambda>p. removeConnection p n None) ps g) t s =
      (if t = n \<and> (\<exists>p\<in>set ps. input_at g n s = Some p) then None else input_at g t s))"
  using assms
proof (induction ps arbitrary: g)
  case (Cons p ps)
  note rm = removeConnection_effect [OF linked_slots [OF Cons.prems(1)] Cons.prems(2), of p None]
  have "no_ports (removeConnection p n None g) n" using shape_no_ports [OF rm(3)] Cons.prems(2) by blast
  from Cons.IH [OF removeConnection_linked [OF Cons.prems] this] show ?case
    by (auto simp: rm(1,3) cleared_def)
qed simp

lemma remove_children_effect:
  assumes "linked_on A g" and "\<And>c. c \<in> set cs \<Longrightarrow> no_ports g c"
  shows "linked_on A (fold (\<lambda>c. removeConnection n c None) cs g) \<and> shape (fold (\<lambda>c. removeConnection n c None) cs g) = shape g \<and>
    (\<forall>t s. input_at (fold (\<lambda>c. removeConnection n c None) cs g) t s =
      (if t \<in> set cs \<and> input_at g t s = Some n then None else input_at g t s))"
  using assms
proof (induction cs arbitrary: g)
  case (Cons c cs)
  have quiet: "no_ports g c" using Cons.prems(2) by simp
  note rm = removeConnection_effect [OF linked_slots [OF Cons.prems(1)] quiet, of n None]
  have "no_ports (removeConnection n c None g) x" if "x \<in> set cs" for x
    using shape_no_ports [OF rm(3)] Cons.prems(2) that by (metis list.set_intros(2))
  from Cons.IH [OF removeConnection_linked [OF Cons.prems(1) quiet] this] show ?case
    by (auto simp: rm(1,3) cleared_def)
qed simp

text \<open>The forward links alone, which no update of a group changes.\<close>

lemma removeConnection_next:
  "nextNodes (g_node (removeConnection f t port g) m) = nextNodes (g_node g m) \<or>
   m = f \<and> nextNodes (g_node (removeConnection f t port g) m) = remove1 t (nextNodes (g_node g m))"
  by (simp add: removeConnection_def clear_secondary_def clear_primary_def fold_set_conns removeSecondaryInput_def
      graph_simps Let_def split: option.split)

lemma set_removeConnection_next:
  "set (nextNodes (g_node (removeConnection f t port g) m)) \<subseteq> set (nextNodes (g_node g m))"
  "x \<in> set (nextNodes (g_node g m)) \<Longrightarrow> x \<noteq> t \<Longrightarrow> x \<in> set (nextNodes (g_node (removeConnection f t port g) m))"
  "m \<noteq> f \<Longrightarrow> nextNodes (g_node (removeConnection f t port g) m) = nextNodes (g_node g m)"
  using removeConnection_next [of f t port g m] by (auto dest: set_mp [OF set_remove1_subset])

lemma fold_less:
  fixes N :: "'h \<Rightarrow> 'a set"
  assumes "\<And>x h. N (f x h) \<subseteq> N h"
  shows "N (fold f xs h) \<subseteq> N h"
proof (induction xs arbitrary: h)
  case (Cons x xs)
  from subset_trans [OF Cons.IH assms] show ?case by simp
qed simp

lemma disconnect_next:
  "set (nextNodes (g_node (disconnectNodeFromGraph n g) m)) \<subseteq> set (nextNodes (g_node g m))"
  "m \<noteq> n \<Longrightarrow> x \<in> set (nextNodes (g_node g m)) \<Longrightarrow> x \<noteq> n \<Longrightarrow>
     x \<in> set (nextNodes (g_node (disconnectNodeFromGraph n g) m))"
proof -
  let ?next = "\<lambda>h. set (nextNodes (g_node h m))"
  have p1: "?next (fold (\<lambda>p. removeConnection p n None) ps h) \<subseteq> ?next h" for ps h
    by (rule fold_less) (rule set_removeConnection_next(1))
  have p2: "x \<in> ?next h \<Longrightarrow> x \<noteq> n \<Longrightarrow> x \<in> ?next (fold (\<lambda>p. removeConnection p n None) ps h)" for ps h
    by (induction ps arbitrary: h) (simp_all add: set_removeConnection_next(2))
  have c1: "?next (fold (\<lambda>c. removeConnection n c None) cs h) \<subseteq> ?next h" for cs h
    by (rule fold_less) (rule set_removeConnection_next(1))
  have c2: "m \<noteq> n \<Longrightarrow> nextNodes (g_node (fold (\<lambda>c. removeConnection n c None) cs h) m) = nextNodes (g_node h m)" for cs h
    by (induction cs arbitrary: h) (simp_all add: set_removeConnection_next(3))
  show "set (nextNodes (g_node (disconnectNodeFromGraph n g) m)) \<subseteq> set (nextNodes (g_node g m))"
    unfolding disconnectNodeFromGraph_def Let_def by (rule subset_trans [OF c1 p1])
  show "x \<in> set (nextNodes (g_node (disconnectNodeFromGraph n g) m))"
    if "m \<noteq> n" "x \<in> set (nextNodes (g_node g m))" "x \<noteq> n"
    using p2 [OF that(2,3)] that(1) by (simp add: disconnectNodeFromGraph_def Let_def c2)
qed

text \<open>
  What the deletion of a node needs of its surroundings: neither the node nor a node it feeds is a group
  with input ports (whose update would write to inner nodes), and the nodes it feeds are among those whose
  inputs have forward links. Nodes inside a group that a port of the group feeds are not among the latter.
\<close>

definition detachable :: "nat set \<Rightarrow> qgraph \<Rightarrow> nat \<Rightarrow> bool" where
  "detachable A g n \<longleftrightarrow> no_ports g n \<and> (\<forall>t. feeds g n t \<longrightarrow> t \<in> A \<and> no_ports g t)"

lemma detachableD:
  assumes "detachable A g n"
  shows "no_ports g n" and "feeds g n t \<Longrightarrow> t \<in> A \<and> no_ports g t"
  using assms by (simp_all add: detachable_def)

lemma disconnect_effect:
  assumes l: "linked_on A g" and det: "detachable A g n"
  shows "linked_on A (disconnectNodeFromGraph n g)" and "shape (disconnectNodeFromGraph n g) = shape g"
    and "input_at (disconnectNodeFromGraph n g) t s =
      (if t = n \<or> input_at g t s = Some n then None else input_at g t s)"
proof -
  let ?g1 = "fold (\<lambda>p. removeConnection p n None) (getAllInputNodes n g) g"
  note p = remove_parents_effect [OF l detachableD(1) [OF det], of "getAllInputNodes n g"]
  have in1: "input_at ?g1 t s = (if t = n then None else input_at g t s)" for t s
  proof (cases "input_at g n s")
    case (Some x)
    then have "x \<in> set (getAllInputNodes n g)" by (auto simp: inputs_iff_feeds [OF linked_slots [OF l]] feeds_def)
    with p Some show ?thesis by auto
  qed (use p in auto)
  have l1: "linked_on A ?g1" using p by blast
  have "no_ports ?g1 c" if "c \<in> set (nextNodes (g_node ?g1 n))" for c
  proof -
    have "feeds ?g1 n c" by (rule linked_onD(3) [OF l1 that])
    then have "no_ports g c" using detachableD(2) [OF det] by (auto simp: feeds_def in1 split: if_splits)
    then show ?thesis using shape_no_ports [of ?g1 g] p by blast
  qed
  note c = remove_children_effect [OF l1, of "nextNodes (g_node ?g1 n)", OF this]
  have d: "disconnectNodeFromGraph n g = fold (\<lambda>c. removeConnection n c None) (nextNodes (g_node ?g1 n)) ?g1"
    by (simp add: disconnectNodeFromGraph_def Let_def)
  show "linked_on A (disconnectNodeFromGraph n g)" "shape (disconnectNodeFromGraph n g) = shape g"
    using c p by (simp_all add: d)
  have "t \<in> set (nextNodes (g_node ?g1 n))" if "input_at ?g1 t s = Some n"
    using that detachableD(2) [OF det, of t] by (intro linkedD [OF l1 _ that]) (auto simp: feeds_def in1 split: if_splits)
  then show "input_at (disconnectNodeFromGraph n g) t s =
      (if t = n \<or> input_at g t s = Some n then None else input_at g t s)"
    using c in1 [of t s] by (auto simp: d)
qed

subsection \<open>Reconnecting\<close>

lemma reconnect_effect:
  assumes l: "linked_on A g"
    and cs: "\<And>t. (t, None) \<in> set cs \<Longrightarrow> no_ports g t \<and> slot_for g t None = Some None \<and>
      (input_at g t None = None \<or> t \<in> set (nextNodes (g_node g p)))"
  shows "\<exists>done' g' r'. fold (reconnect_child p known deleted) cs (None, done, g, r) = (None, done', g', r') \<and>
    linked_on A g' \<and> shape g' = shape g \<and> set done' \<subseteq> set done \<union> fst ` set cs \<and>
    (\<forall>t s. input_at g' t s = (if s = None \<and> (t, None) \<in> set cs \<and> t \<notin> set (nextNodes (g_node g p)) then Some p
      else input_at g t s))"
  using l cs
proof (induction cs arbitrary: "done" g r)
  case (Cons x cs)
  obtain c port where x: "x = (c, port)" by fastforce
  show ?case
  proof (cases "port \<noteq> None \<or> c \<in> set (nextNodes (g_node g p))")
    case True
    then have skip: "fold (reconnect_child p known deleted) (x # cs) (None, done, g, r) =
        fold (reconnect_child p known deleted) cs (None, done, g, r)"
      by (simp add: reconnect_child_def x split_def)
    from Cons.IH [OF Cons.prems(1), of "done" r] Cons.prems(2) obtain done' g' r' where
      "fold (reconnect_child p known deleted) cs (None, done, g, r) = (None, done', g', r')" "linked_on A g'"
      "shape g' = shape g" "set done' \<subseteq> set done \<union> fst ` set cs"
      "\<forall>t s. input_at g' t s = (if s = None \<and> (t, None) \<in> set cs \<and> t \<notin> set (nextNodes (g_node g p)) then Some p
        else input_at g t s)" by (metis list.set_intros(2))
    with skip True x show ?thesis by (intro exI [of _ done'] exI [of _ g'] exI [of _ r']) auto
  next
    case False
    then have port: "port = None" and c: "c \<notin> set (nextNodes (g_node g p))" by auto
    have slot: "slot_for g c None = Some None" "input_at g c None = None"
      using Cons.prems(2) [of c] c port x by auto
    obtain e g1 where a: "addConnection p c None g = (e, g1)" by fastforce
    have quiet: "no_ports g c" using Cons.prems(2) [of c] port x by simp
    note add = addConnection_effect [OF a quiet]
    have e: "e = None" using add(5) slot(1) by simp
    have l1: "linked_on A g1" by (rule addConnection_linked [OF Cons.prems(1) slot(1) _ a quiet]) (simp add: slot(2))
    let ?r = "transfer_layout deleted known g1 c r"
    have step: "fold (reconnect_child p known deleted) (x # cs) (None, done, g, r) =
        fold (reconnect_child p known deleted) cs (None, done @ [c], g1, ?r)"
      using a e c by (simp add: reconnect_child_def x port split_def)
    have n1: "set (nextNodes (g_node g1 p)) = insert c (set (nextNodes (g_node g p)))"
      by (auto simp: add(1) push_new_def)
    have "no_ports g1 t \<and> slot_for g1 t None = Some None \<and> (input_at g1 t None = None \<or> t \<in> set (nextNodes (g_node g1 p)))"
      if "(t, None) \<in> set cs" for t
    proof (cases "t = c")
      case False
      have "slot_for g1 t None = slot_for g t None"
        using shape_type [OF add(3), of t] shape_secondary [OF add(3), of t] Cons.prems(2) [of t] that
        by (auto simp: slot_for_def split: option.splits if_splits)
      moreover have "no_ports g1 t" using shape_no_ports [OF add(3)] Cons.prems(2) [of t] that by simp
      ultimately show ?thesis using Cons.prems(2) [of t] that False by (auto simp: add(2) n1)
    next
      case True
      have "slot_for g1 c None = Some None"
        using shape_type [OF add(3), of c] shape_secondary [OF add(3), of c] slot(1)
        by (auto simp: slot_for_def split: option.splits if_splits)
      moreover have "no_ports g1 c" using shape_no_ports [OF add(3)] quiet by blast
      ultimately show ?thesis using True by (simp add: n1)
    qed
    from Cons.IH [OF l1 this, of "done @ [c]" ?r] obtain done' g' r' where
      "fold (reconnect_child p known deleted) cs (None, done @ [c], g1, ?r) = (None, done', g', r')" "linked_on A g'"
      "shape g' = shape g1" "set done' \<subseteq> set (done @ [c]) \<union> fst ` set cs"
      and i: "\<forall>t s. input_at g' t s = (if s = None \<and> (t, None) \<in> set cs \<and> t \<notin> set (nextNodes (g_node g1 p)) then Some p
        else input_at g1 t s)" by blast
    moreover have "input_at g' t s = (if s = None \<and> (t, None) \<in> set (x # cs) \<and> t \<notin> set (nextNodes (g_node g p)) then Some p
        else input_at g t s)" for t s
      using c by (auto simp: i n1 add(2) slot(1) x port)
    ultimately show ?thesis using step add(3) x by (intro exI [of _ done'] exI [of _ g'] exI [of _ r']) auto
  qed
qed simp

lemma reconnect_next:
  "fold (reconnect_child p known deleted) cs (e, done, g, r) = (e', done', g', r') \<Longrightarrow>
   set (nextNodes (g_node g m)) \<subseteq> set (nextNodes (g_node g' m)) \<and>
   set (nextNodes (g_node g' m)) \<subseteq> set (nextNodes (g_node g m)) \<union> fst ` set cs"
proof (induction cs arbitrary: e "done" g r)
  case (Cons c cs)
  obtain e1 done1 g1 r1 where s: "reconnect_child p known deleted c (e, done, g, r) = (e1, done1, g1, r1)"
    by (metis prod.exhaust)
  have "set (nextNodes (g_node g m)) \<subseteq> set (nextNodes (g_node g1 m)) \<and>
      set (nextNodes (g_node g1 m)) \<subseteq> insert (fst c) (set (nextNodes (g_node g m)))"
  proof (cases "addConnection p (fst c) (snd c) g")
    case (Pair x g2)
    have "set (nextNodes (g_node g m)) \<subseteq> set (nextNodes (g_node g2 m)) \<and>
        set (nextNodes (g_node g2 m)) \<subseteq> insert (fst c) (set (nextNodes (g_node g m)))"
      using addConnection_next [OF Pair, of m] by (auto simp: push_new_def)
    moreover have "g1 = g \<or> g1 = g2"
      using s Pair by (auto simp: reconnect_child_def split_def split: option.splits if_splits)
    ultimately show ?thesis by auto
  qed
  then show ?case using Cons.IH [of e1 done1 g1 r1] Cons.prems s by auto
qed simp

lemma fold_updates_node:
  "(\<And>n. n \<in> set ns \<Longrightarrow> no_ports g n) \<Longrightarrow> g_node (fold onPrevNodesUpdated ns g) = g_node g"
proof (induction ns arbitrary: g)
  case (Cons n ns)
  have u: "g_node (onPrevNodesUpdated n g) = g_node g" using Cons.prems by (simp add: onPrevNodesUpdated_node)
  have "no_ports (onPrevNodesUpdated n g) m" if "m \<in> set ns" for m
    using Cons.prems [of m] that by (simp add: no_ports_def u)
  from Cons.IH [OF this] show ?case by (simp add: u)
qed simp

lemma fold_notify_node:
  "(\<And>n t. n \<in> set ns \<Longrightarrow> t \<in> set (nextNodes (g_node g n)) \<Longrightarrow> no_ports g t) \<Longrightarrow>
     g_node (fold notifyNextNodes ns g) = g_node g"
proof (induction ns arbitrary: g)
  case (Cons n ns)
  have u: "g_node (notifyNextNodes n g) = g_node g"
    unfolding notifyNextNodes_def using Cons.prems [of n] by (intro fold_updates_node) simp
  have "no_ports (notifyNextNodes n g) t" if "m \<in> set ns" "t \<in> set (nextNodes (g_node (notifyNextNodes n g) m))" for m t
    using Cons.prems [of m t] that by (simp add: no_ports_def u)
  from Cons.IH [OF this] show ?case by (simp add: u)
qed simp

lemma node_views:
  assumes "g_node g' = g_node g"
  shows "input_at g' = input_at g \<and> linked_on A g' = linked_on A g"
proof -
  have i: "input_at g' = input_at g" by (intro ext) (simp add: input_at_def assms split: option.split)
  then have "feeds g' = feeds g" by (intro ext) (simp add: feeds_def)
  with i show ?thesis by (simp add: linked_on_def slots_ok_def assms)
qed

lemma set_js_set: "set (js_set xs) = set xs"
  by (simp add: js_set_def set_fold_push_new)

text \<open>
  The input slots after the deletion of \<open>n\<close>: a child that \<open>n\<close> fed through its primary slot is handed to the
  primary input of \<open>n\<close>, unless that one already feeds the child through another slot.
\<close>

definition after_delete :: "nat \<Rightarrow> qgraph \<Rightarrow> nat \<Rightarrow> nat option \<Rightarrow> nat option" where
  "after_delete n g t s =
     (if t = n then None
      else if input_at g t s = Some n then
        (case primaryInput (g_node g n) of
           Some p \<Rightarrow> (if s = None \<and> \<not> feeds g p t then Some p else None) | None \<Rightarrow> None)
      else input_at g t s)"

lemma deleteNode_effect:
  assumes l: "linked_on A g" and self: "\<not> feeds g n n" and det: "detachable A g n"
  shows "\<exists>st' g'. deleteNode n st cur g = Inr (st', g') \<and> linked_on A g' \<and> (\<forall>t s. input_at g' t s = after_delete n g t s) \<and>
    n \<notin> set (rootNodes st') \<and> nodeId (g_node g n) \<notin> selectedNodes st' \<and> nodeLayouts st' (nodeId (g_node g n)) = None \<and>
    (\<forall>t. primaryInput (g_node g n) = None \<and> input_at g t None = Some n \<longrightarrow> t \<in> set (rootNodes st'))"
proof -
  let ?cs = "captureAllChildConnections n g" and ?g1 = "disconnectNodeFromGraph n g" and ?p = "primaryInput (g_node g n)"
  let ?del = "nodeLayouts st (nodeId (g_node g n))"
  note d = disconnect_effect [OF l det] and kids = detachableD(2) [OF det]
  have cs: "(t, s) \<in> set ?cs \<longleftrightarrow> input_at g t s = Some n" for t s by (rule captured_linked [OF l]) (use kids in blast)
  have no_self: "t \<noteq> n" if "(t, s) \<in> set ?cs" for t s using that self cs by (auto simp: feeds_def)
  define res where "res = (case ?p of None \<Rightarrow> (None, [], ?g1, 0, nodeLayouts st)
    | Some p \<Rightarrow> fold (reconnect_child p (nodeLayouts st) ?del) ?cs (None, [], ?g1, 0, nodeLayouts st))"
  have "\<exists>done' g2 r'. res = (None, done', g2, r') \<and> linked_on A g2 \<and> shape g2 = shape g \<and> set done' \<subseteq> fst ` set ?cs \<and>
      (\<forall>t s. input_at g2 t s = after_delete n g t s)"
  proof (cases ?p)
    case None
    then show ?thesis using d by (simp add: res_def after_delete_def)
  next
    case (Some p)
    have feeds1: "t \<in> set (nextNodes (g_node ?g1 p)) \<longleftrightarrow> feeds g p t" if "(t, s) \<in> set ?cs" "t \<noteq> n" "p \<noteq> n" for t s
    proof -
      have "input_at ?g1 t s = Some p \<longleftrightarrow> input_at g t s = Some p" for s using that by (auto simp: d(3))
      then have "feeds ?g1 p t \<longleftrightarrow> feeds g p t" by (simp add: feeds_def)
      moreover have "t \<in> A" using kids [of t] that(1) cs by (auto simp: feeds_def)
      ultimately show ?thesis using linked_onD(3,4) [OF d(1), of t p] by blast
    qed
    have pn: "p \<noteq> n" using Some self by (auto simp: feeds_def input_at_def dest: spec [of _ None])
    have "no_ports ?g1 t \<and> slot_for ?g1 t None = Some None \<and> (input_at ?g1 t None = None \<or> t \<in> set (nextNodes (g_node ?g1 p)))"
      if "(t, None) \<in> set ?cs" for t
      using that cs occupied_slot_for [OF linked_slots [OF l] _ d(2), of t None n] kids [of t] shape_no_ports [OF d(2), of t]
      by (auto simp: d(3) feeds_def)
    from reconnect_effect [OF d(1) this, of ?cs "nodeLayouts st" ?del "[]" "(0, nodeLayouts st)"]
    obtain done' g2 r' where "res = (None, done', g2, r')" "linked_on A g2" "shape g2 = shape g" "set done' \<subseteq> fst ` set ?cs"
      and i: "\<forall>t s. input_at g2 t s = (if s = None \<and> (t, None) \<in> set ?cs \<and> t \<notin> set (nextNodes (g_node ?g1 p)) then Some p
        else input_at ?g1 t s)" using Some by (auto simp: res_def d(2))
    moreover have "input_at g2 t s = after_delete n g t s" for t s
      using i no_self [of t s] feeds1 [of t s] pn Some by (auto simp: after_delete_def d(3) cs)
    ultimately show ?thesis by blast
  qed
  then obtain done' g2 off ls where res: "res = (None, done', g2, off, ls)" and l2: "linked_on A g2"
    and sh2: "shape g2 = shape g" and dn: "set done' \<subseteq> fst ` set ?cs" and i2: "\<forall>t s. input_at g2 t s = after_delete n g t s"
    by (metis prod.exhaust)
  define orphans where "orphans = (if ?p = None then map fst (filter (\<lambda>c. snd c = None) ?cs) else [])"
  define oi where "oi = filter (\<lambda>i. i \<notin> set (rootNodes st) \<and> nextNodes (g_node g2 i) = []) (getAllInputNodes n g)"
  define un where "un = (case ?p of None \<Rightarrow> []
    | Some p \<Rightarrow> filter (\<lambda>c. ls (nodeId (g_node g2 c)) = None \<and> length (nextNodes (g_node g2 p)) > 1) done')"
  define roots where "roots = fold push_new (orphans @ un @ oi) (js_set (filter (\<lambda>m. m \<noteq> n) (rootNodes st)))"
  let ?g4 = "fold notifyNextNodes oi (fold onPrevNodesUpdated (map fst ?cs) g2)"
  let ?st = "cur\<lparr>rootNodes := roots, selectedNodes := selectedNodes cur - {nodeId (g_node g n)},
    nodeLayouts := (promote_children ?del orphans g2 ls)(nodeId (g_node g n) := None)\<rparr>"
  have "deleteNode n st cur g = Inr (?st, ?g4)"
    unfolding deleteNode_def Let_def res_def [symmetric] res
    by (simp add: orphans_def oi_def un_def roots_def)
  moreover have g4: "g_node ?g4 = g_node g2"
  proof -
    have "no_ports g2 t" if t: "t \<in> set (map fst ?cs)" for t
    proof -
      obtain s where "(t, s) \<in> set ?cs" using t by auto
      then have "feeds g n t" using cs by (auto simp: feeds_def)
      then show ?thesis using kids [of t] shape_no_ports [OF sh2, of t] by simp
    qed
    from fold_updates_node [OF this] have u: "g_node (fold onPrevNodesUpdated (map fst ?cs) g2) = g_node g2" .
    show ?thesis by (subst fold_notify_node) (simp_all add: u oi_def)
  qed
  moreover have "linked_on A ?g4" "\<forall>t s. input_at ?g4 t s = after_delete n g t s"
    using node_views [OF g4, of A] l2 i2 by simp_all
  moreover have "n \<notin> set roots"
  proof -
    have "n \<notin> fst ` set ?cs" using no_self by force
    moreover have "n \<notin> set (getAllInputNodes n g)" using self inputs_iff_feeds [OF linked_slots [OF l]] by blast
    ultimately show ?thesis
      using dn by (auto simp: roots_def set_fold_push_new set_js_set orphans_def un_def oi_def split: option.splits)
  qed
  moreover have "t \<in> set roots" if "?p = None" "input_at g t None = Some n" for t
  proof -
    have "(t, None) \<in> set ?cs" using that(2) cs by blast
    then have "t \<in> set orphans" using that(1) by (force simp: orphans_def)
    then show ?thesis by (simp add: roots_def set_fold_push_new)
  qed
  ultimately show ?thesis by (intro exI [of _ ?st] exI [of _ ?g4]) simp
qed


definition some_state :: explorer_state where
  "some_state = \<lparr>rootNodes = [0], selectedNodes = {show_nat 1}, nodeLayouts = Map.empty\<rparr>"


end
