(* ===== verification/Node_Operations.thy ===== *)
theory Node_Operations
  imports Graph_Deletion
begin

text \<open>
  The remaining operations of \<^verbatim>\<open>node_crud_operations.ts\<close>: creating nodes from the registry, connecting
  and inserting them, deleting the selected nodes in one update, clearing and duplicating, and the
  release of a node's resources (\<^verbatim>\<open>query_builder/cleanup_manager.ts\<close>). The registry's descriptors, whose
  factories build the nodes of the explorer, are arguments; what a \<open>preCreate\<close> dialog answers is one
  too. \<open>st\<close> is the state that a handler was called with, the world holds the one that the update
  callbacks receive.
\<close>

subsection \<open>The world of the handlers\<close>

text \<open>
  \<open>initializedNodes\<close> is the set of the dependencies; \<open>disposed_nodes\<close> and \<open>dropped_ids\<close> record the calls
  of \<open>dispose()\<close> on nodes and of \<open>removeNode(id)\<close> on the query execution service.
\<close>

record crud_world =
  cw_state :: explorer_state
  cw_labels :: "string list"
  cw_graph :: qgraph
  initializedNodes :: "string set"
  disposed_nodes :: "nat list"
  dropped_ids :: "string list"

definition onStateUpdate :: "(explorer_state \<Rightarrow> explorer_state) \<Rightarrow> crud_world \<Rightarrow> crud_world" where
  "onStateUpdate f w = w\<lparr>cw_state := f (cw_state w)\<rparr>"

text \<open>
  \<open>CleanupManager.cleanupNode\<close>; \<open>disposable\<close> tells the nodes that have a \<open>dispose\<close> method. An exception of
  it is caught there.
\<close>

definition cleanupNode :: "(nat \<Rightarrow> bool) \<Rightarrow> nat \<Rightarrow> crud_world \<Rightarrow> crud_world" where
  "cleanupNode disposable n w =
     w\<lparr>disposed_nodes := (if disposable n then disposed_nodes w @ [n] else disposed_nodes w),
       dropped_ids := dropped_ids w @ [nodeId (g_node (cw_graph w) n)]\<rparr>"

definition cleanupNodes :: "(nat \<Rightarrow> bool) \<Rightarrow> nat list \<Rightarrow> crud_world \<Rightarrow> crud_world" where
  "cleanupNodes disposable ns w = fold (cleanupNode disposable) ns w"

text \<open>\<open>None\<close> as the manager is \<open>undefined\<close>; the result is \<open>None\<close> when the traversal does not end.\<close>

definition cleanupExistingNodes ::
  "(nat \<Rightarrow> bool) option \<Rightarrow> nat list \<Rightarrow> crud_world \<Rightarrow> crud_world option" where
  "cleanupExistingNodes cleanupManager roots w =
     map_option (\<lambda>w1. w1\<lparr>initializedNodes := {}\<rparr>)
       (case cleanupManager of
          None \<Rightarrow> Some w
        | Some disposable \<Rightarrow>
            map_option (\<lambda>ns. cleanupNodes disposable ns w) (getAllNodes roots True (cw_graph w)))"

definition clearAllNodes ::
  "(nat \<Rightarrow> bool) option \<Rightarrow> explorer_state \<Rightarrow> crud_world \<Rightarrow> crud_world option" where
  "clearAllNodes cleanupManager st w =
     map_option
       (\<lambda>w1. onStateUpdate (\<lambda>cur. cur\<lparr>rootNodes := [], selectedNodes := {}, nodeLayouts := Map.empty\<rparr>) w1
          \<lparr>cw_labels := []\<rparr>)
       (cleanupExistingNodes cleanupManager (rootNodes st) w)"

subsection \<open>Creating nodes\<close>

text \<open>
  A descriptor of the registry: whether it has a \<open>preCreate\<close> step, and its factory, which gets the
  initial state and all nodes and may throw. What \<open>preCreate\<close> resolves to: \<open>null\<close> when the user
  cancelled, one state, or several.
\<close>

datatype 's pre_create = PreNull | PreOne 's | PreMany "'s list"

record 's descriptor =
  has_preCreate :: bool
  factory :: "'s \<Rightarrow> nat list \<Rightarrow> js_error + qnode"

definition add_node :: "qnode \<Rightarrow> crud_world \<Rightarrow> crud_world" where
  "add_node q w =
     (let g = cw_graph w in
      w\<lparr>cw_graph := g\<lparr>g_size := g_size g + 1, g_node := (g_node g)(g_size g := q)\<rparr>\<rparr>)"

definition set_graph :: "qgraph \<Rightarrow> crud_world \<Rightarrow> crud_world" where
  "set_graph g w = w\<lparr>cw_graph := g\<rparr>"

definition initial_state :: "'s descriptor \<Rightarrow> 's \<Rightarrow> (js_error + 's pre_create) \<Rightarrow> js_error + 's pre_create" where
  "initial_state d blank answer = (if has_preCreate d then answer else Inr (PreOne blank))"

text \<open>
  Where a new node goes: a one-input operation is put between the parent and its children, or beside
  them when the parent is a group or one of them is undocked; any other node is added to the roots.
  The error is that of \<open>addConnection\<close>; \<open>None\<close> when the effective layout of the parent is never found.
\<close>

definition place_beside :: "nat \<Rightarrow> nat \<Rightarrow> nat list \<Rightarrow> bool \<Rightarrow> crud_world \<Rightarrow> (js_error option \<times> crud_world) option" where
  "place_beside parentNode newNode moved isRoot w =
     (case addConnection parentNode newNode None (cw_graph w) of
        (Some e, g) \<Rightarrow> Some (Some e, set_graph g w)
      | (None, g) \<Rightarrow>
          map_option
            (\<lambda>ls. (None, onStateUpdate (\<lambda>cur. cur\<lparr>
                 rootNodes := (if isRoot then rootNodes cur @ [newNode] else rootNodes cur),
                 nodeLayouts := ls, selectedNodes := {nodeId (g_node g newNode)}\<rparr>) (set_graph g w)))
            (applyUndockLayouts parentNode moved (nodeLayouts (cw_state w)) g))"

definition place_between :: "nat \<Rightarrow> nat \<Rightarrow> crud_world \<Rightarrow> js_error option \<times> crud_world" where
  "place_between parentNode newNode w =
     (case insertNodeBetween parentNode newNode (cw_graph w) of
        (Some e, g) \<Rightarrow> (Some e, set_graph g w)
      | (None, g) \<Rightarrow>
          (None, onStateUpdate (\<lambda>cur. cur\<lparr>selectedNodes := {nodeId (g_node g newNode)}\<rparr>) (set_graph g w)))"

definition has_undocked_children :: "nat \<Rightarrow> layouts \<Rightarrow> qgraph \<Rightarrow> bool" where
  "has_undocked_children parentNode ls g \<longleftrightarrow>
     ntype (g_node g parentNode) = kGroup \<or>
     (\<exists>c \<in> set (nextNodes (g_node g parentNode)). isNodeUndocked c ls g)"

definition place_node ::
  "explorer_state \<Rightarrow> nat \<Rightarrow> nat \<Rightarrow> crud_world \<Rightarrow> (js_error option \<times> crud_world) option" where
  "place_node st parentNode newNode w =
     (let g = cw_graph w; docked = findDockedChildren parentNode (nodeLayouts st) g in
      if singleNodeOperation (ntype (g_node g newNode)) then
        (if has_undocked_children parentNode (nodeLayouts st) g
         then place_beside parentNode newNode (docked @ [newNode]) False w
         else Some (place_between parentNode newNode w))
      else place_beside parentNode newNode docked True w)"

text \<open>
  \<open>addOperationNode\<close>; the result is the new node, if there is one. The error is that of the promise.
\<close>

definition addOperationNode ::
  "'s descriptor option \<Rightarrow> 's \<Rightarrow> (js_error + 's pre_create) \<Rightarrow> explorer_state \<Rightarrow> nat \<Rightarrow> crud_world \<Rightarrow>
   ((js_error + nat option) \<times> crud_world) option" where
  "addOperationNode descr blank answer st parentNode w =
     (case descr of
        None \<Rightarrow> Some (Inr None, w)
      | Some d \<Rightarrow>
          (case initial_state d blank answer of
             Inl e \<Rightarrow> Some (Inl e, w)
           | Inr PreNull \<Rightarrow> Some (Inr None, w)
           | Inr (PreMany _) \<Rightarrow> Some (Inr None, w)
           | Inr (PreOne s) \<Rightarrow>
               (case factory d s (rootNodes st) of
                  Inl e \<Rightarrow> Some (Inl e, w)
                | Inr q \<Rightarrow>
                    (let n = g_size (cw_graph w);
                         w1 = (add_node q w)\<lparr>initializedNodes := insert (nodeId q) (initializedNodes w)\<rparr>
                     in map_option
                          (\<lambda>(err, w2). (case err of Some e \<Rightarrow> Inl e | None \<Rightarrow> Inr (Some n), w2))
                          (place_node st parentNode n w1)))))"

text \<open>The loop of \<open>addSourceNode\<close>: a factory that throws is logged and the next state is tried.\<close>

fun create_nodes :: "'s descriptor \<Rightarrow> nat list \<Rightarrow> 's list \<Rightarrow> nat list \<Rightarrow> crud_world \<Rightarrow> nat list \<times> crud_world" where
  "create_nodes d allNodes [] newNodes w = (newNodes, w)"
| "create_nodes d allNodes (s # ss) newNodes w =
     (case factory d s allNodes of
        Inl _ \<Rightarrow> create_nodes d allNodes ss newNodes w
      | Inr q \<Rightarrow> create_nodes d allNodes ss (newNodes @ [g_size (cw_graph w)]) (add_node q w))"

definition addSourceNode ::
  "'s descriptor option \<Rightarrow> 's \<Rightarrow> (js_error + 's pre_create) \<Rightarrow> explorer_state \<Rightarrow> crud_world \<Rightarrow>
   js_error option \<times> crud_world" where
  "addSourceNode descr blank answer st w =
     (case descr of
        None \<Rightarrow> (None, w)
      | Some d \<Rightarrow>
          (case initial_state d blank answer of
             Inl e \<Rightarrow> (Some e, w)
           | Inr PreNull \<Rightarrow> (None, w)
           | Inr pre \<Rightarrow>
               (let (ns, w1) = create_nodes d (rootNodes st) (case pre of PreMany ss \<Rightarrow> ss | PreOne s \<Rightarrow> [s] | PreNull \<Rightarrow> []) [] w
                in if ns = [] then (None, w1)
                   else (None, onStateUpdate (\<lambda>cur. cur\<lparr>rootNodes := rootNodes cur @ ns,
                       selectedNodes := {nodeId (g_node (cw_graph w1) (last ns))}\<rparr>) w1))))"

text \<open>
  \<open>addAndConnectTable\<close>: the descriptor of \<open>'table'\<close>, whether the table is known, the state for the factory.
  When \<open>addConnection\<close> throws, the promise rejects and the state is not updated.
\<close>

definition addAndConnectTable ::
  "'s descriptor option \<Rightarrow> bool \<Rightarrow> 's \<Rightarrow> explorer_state \<Rightarrow> nat \<Rightarrow> nat \<Rightarrow> crud_world \<Rightarrow> js_error option \<times> crud_world" where
  "addAndConnectTable descr known tableState st targetNode portIndex w =
     (case descr of
        None \<Rightarrow> (None, w)
      | Some d \<Rightarrow>
          if \<not> known then (None, w)
          else (case factory d tableState (rootNodes st) of
                  Inl e \<Rightarrow> (Some e, w)
                | Inr q \<Rightarrow>
                    (let n = g_size (cw_graph w); w1 = add_node q w in
                     case addConnection n targetNode (Some portIndex) (cw_graph w1) of
                       (Some e, g) \<Rightarrow> (Some e, set_graph g w1)
                     | (None, g) \<Rightarrow>
                         (None, onStateUpdate (\<lambda>cur. cur\<lparr>rootNodes := rootNodes cur @ [n]\<rparr>) (set_graph g w1)))))"

text \<open>The whole handler of \<open>insertNodeAtPort\<close>; \<open>Query_Graph.insertNodeAtPort\<close> is its rewiring.\<close>

definition insertNodeAtPort_handler ::
  "'s descriptor option \<Rightarrow> 's \<Rightarrow> explorer_state \<Rightarrow> nat \<Rightarrow> nat \<Rightarrow> crud_world \<Rightarrow> js_error option \<times> crud_world" where
  "insertNodeAtPort_handler descr attrs st targetNode portIndex w =
     (case descr of
        None \<Rightarrow> (None, w)
      | Some d \<Rightarrow>
          if getInputNodeAtPort targetNode portIndex (cw_graph w) = None then (None, w)
          else (case factory d attrs (rootNodes st) of
                  Inl e \<Rightarrow> (Some e, w)
                | Inr q \<Rightarrow>
                    (let n = g_size (cw_graph w); w1 = add_node q w in
                     case insertNodeAtPort n targetNode portIndex (cw_graph w1) of
                       (Some e, g) \<Rightarrow> (Some e, set_graph g w1)
                     | (None, g) \<Rightarrow>
                         (None, onStateUpdate (\<lambda>cur. cur\<lparr>rootNodes := rootNodes cur @ [n],
                            selectedNodes := {nodeId q}\<rparr>) (set_graph g w1)))))"

text \<open>\<open>duplicateNode\<close>, given what \<open>node.clone()\<close> returns.\<close>

definition duplicateNode :: "qnode \<Rightarrow> crud_world \<Rightarrow> crud_world" where
  "duplicateNode clone w =
     onStateUpdate (\<lambda>cur. cur\<lparr>rootNodes := rootNodes cur @ [g_size (cw_graph w)]\<rparr>) (add_node clone w)"

text \<open>
  \<open>removeNodeConnection\<close>, which runs after the connection itself has been removed; \<open>hasPrimary\<close> and
  \<open>hasSecondary\<close> are the tests \<open>'primaryInput' in toNode\<close> and \<open>'secondaryInputs' in toNode\<close>.
\<close>

definition removeNodeConnection ::
  "(qnode \<Rightarrow> bool) \<Rightarrow> explorer_state \<Rightarrow> nat \<Rightarrow> nat \<Rightarrow> bool \<Rightarrow> crud_world \<Rightarrow> js_error option \<times> crud_world" where
  "removeNodeConnection hasPrimary st fromNode toNode isSecondaryInput w =
     (case reconnect_children fromNode toNode isSecondaryInput (cw_graph w) of
        (Some e, g) \<Rightarrow> (Some e, set_graph g w)
      | (None, g) \<Rightarrow>
          (let w1 = set_graph g w; q = g_node g toNode in
           if hasPrimary q \<and> primaryInput q = None then
             (let roots = (if toNode \<in> set (rootNodes st) then rootNodes st else rootNodes st @ [toNode])
              in (None, onStateUpdate (\<lambda>cur. cur\<lparr>rootNodes := roots\<rparr>) w1))
           else (None, w1)))"

text \<open>
  The whole handler of a single deletion: the resources of the node are released first, then
  \<open>Query_Graph.deleteNode\<close> works on the graph and gives the new state.
\<close>

definition deleteNode_handler ::
  "(nat \<Rightarrow> bool) option \<Rightarrow> explorer_state \<Rightarrow> nat \<Rightarrow> crud_world \<Rightarrow> js_error option \<times> crud_world" where
  "deleteNode_handler cleanupManager st n w =
     (let w1 = (case cleanupManager of None \<Rightarrow> w | Some disposable \<Rightarrow> cleanupNode disposable n w)
      in case deleteNode n st (cw_state w1) (cw_graph w1) of
           Inl (e, g) \<Rightarrow> (Some e, set_graph g w1)
         | Inr (cur', g) \<Rightarrow> (None, onStateUpdate (\<lambda>_. cur') (set_graph g w1)))"

subsection \<open>Deleting the selected nodes\<close>

text \<open>The accumulators of the loop over the nodes to delete.\<close>

record batch =
  b_graph :: qgraph
  b_layouts :: layouts
  b_roots :: "nat list"
  b_affected :: "nat list"
  b_orphanedInputs :: "nat list"

definition batch_reconnect ::
  "nat list \<Rightarrow> nat \<Rightarrow> (int \<times> int) option \<Rightarrow> nat \<times> nat option \<Rightarrow>
   js_error option \<times> int \<times> batch \<Rightarrow> js_error option \<times> int \<times> batch" where
  "batch_reconnect del parent deleted c r =
     (case r of
        (Some e, _, _) \<Rightarrow> r
      | (None, off, b) \<Rightarrow>
          if fst c \<in> set del then r
          else if snd c = None then
            (if fst c \<in> set (nextNodes (g_node (b_graph b) parent)) then r
             else case addConnection parent (fst c) None (b_graph b) of
                    (Some e, g) \<Rightarrow> (Some e, off, b\<lparr>b_graph := g\<rparr>)
                  | (None, g) \<Rightarrow>
                      (case transfer_layout deleted (b_layouts b) g (fst c) (off, b_layouts b) of
                         (off', ls) \<Rightarrow>
                           (None, off', b\<lparr>b_graph := g, b_affected := b_affected b @ [fst c], b_layouts := ls\<rparr>)))
          else r)"

definition batch_orphan ::
  "nat list \<Rightarrow> (int \<times> int) option \<Rightarrow> nat \<times> nat option \<Rightarrow> int \<times> batch \<Rightarrow> int \<times> batch" where
  "batch_orphan del deleted c r =
     (if fst c \<in> set del then r
      else if snd c = None then
        (case transfer_layout deleted (b_layouts (snd r)) (b_graph (snd r)) (fst c) (fst r, b_layouts (snd r)) of
           (off', ls) \<Rightarrow>
             (off', (snd r)\<lparr>b_roots := push_new (fst c) (b_roots (snd r)),
                b_affected := b_affected (snd r) @ [fst c], b_layouts := ls\<rparr>))
      else r)"

definition batch_input :: "nat list \<Rightarrow> nat list \<Rightarrow> nat \<Rightarrow> batch \<Rightarrow> batch" where
  "batch_input del curRoots i b =
     (if i \<in> set del then b
      else if i \<notin> set curRoots \<and> nextNodes (g_node (b_graph b) i) = []
      then b\<lparr>b_roots := push_new i (b_roots b), b_orphanedInputs := b_orphanedInputs b @ [i]\<rparr>
      else b)"

definition batch_delete ::
  "nat list \<Rightarrow> nat list \<Rightarrow> nat \<Rightarrow> js_error option \<times> batch \<Rightarrow> js_error option \<times> batch" where
  "batch_delete del curRoots n r =
     (case r of
        (Some e, _) \<Rightarrow> r
      | (None, b) \<Rightarrow>
          (let g = b_graph b; nid = nodeId (g_node g n);
               parent = primaryInput (g_node g n);
               cs = captureAllChildConnections n g;
               inputs = getAllInputNodes n g;
               deleted = b_layouts b nid;
               b1 = b\<lparr>b_graph := disconnectNodeFromGraph n g,
                      b_roots := filter (\<lambda>m. m \<noteq> n) (b_roots b),
                      b_layouts := (b_layouts b)(nid := None)\<rparr>;
               (err, b2) =
                 (case parent of
                    Some p \<Rightarrow>
                      if p \<notin> set del
                      then (case fold (batch_reconnect del p deleted) cs (None, 0, b1) of (e, _, b') \<Rightarrow> (e, b'))
                      else (None, snd (fold (batch_orphan del deleted) cs (0, b1)))
                  | None \<Rightarrow> (None, snd (fold (batch_orphan del deleted) cs (0, b1))))
           in case err of
                Some e \<Rightarrow> (Some e, b2)
              | None \<Rightarrow> (None, fold (batch_input del curRoots) inputs b2)))"

definition delete_nodes :: "nat list \<Rightarrow> explorer_state \<Rightarrow> qgraph \<Rightarrow> (js_error \<times> qgraph) + (explorer_state \<times> qgraph)" where
  "delete_nodes del cur g =
     (case fold (batch_delete del (rootNodes cur)) del
         (None, \<lparr>b_graph = g, b_layouts = nodeLayouts cur, b_roots = js_set (rootNodes cur),
                 b_affected = [], b_orphanedInputs = []\<rparr>) of
        (Some e, b) \<Rightarrow> Inl (e, b_graph b)
      | (None, b) \<Rightarrow>
          Inr (cur\<lparr>rootNodes := b_roots b, selectedNodes := {}, nodeLayouts := b_layouts b\<rparr>,
               fold notifyNextNodes (b_orphanedInputs b) (fold onPrevNodesUpdated (b_affected b) (b_graph b))))"

definition deleteSelectedNodes ::
  "(nat \<Rightarrow> bool) option \<Rightarrow> explorer_state \<Rightarrow> crud_world \<Rightarrow> (js_error option \<times> crud_world) option" where
  "deleteSelectedNodes cleanupManager st w =
     (if selectedNodes st = {} then Some (None, w)
      else map_option
        (\<lambda>allNodes.
           let del = filter (\<lambda>n. nodeId (g_node (cw_graph w) n) \<in> selectedNodes st) allNodes in
           if del = [] then (None, w)
           else (let w1 = (case cleanupManager of None \<Rightarrow> w | Some disposable \<Rightarrow> cleanupNodes disposable del w)
                 in case delete_nodes del (cw_state w1) (cw_graph w1) of
                      Inl (e, g) \<Rightarrow> (Some e, set_graph g w1)
                    | Inr (cur', g) \<Rightarrow> (None, onStateUpdate (\<lambda>_. cur') (set_graph g w1))))
        (getAllNodes (rootNodes st) True (cw_graph w)))"

end
