(* ===== verification/Batch_Deletion.thy ===== *)
theory Batch_Deletion
  imports Node_Operations
begin

text \<open>
  Deleting several nodes in one update (\<open>deleteSelectedNodes\<close>): the slots, the links, the root nodes and
  the selection afterwards, for any set of nodes and in whatever order they are processed.
\<close>

subsection \<open>The loops over children and inputs\<close>

definition kept_child :: "nat list \<Rightarrow> nat \<times> nat option \<Rightarrow> bool" where
  "kept_child del c \<longleftrightarrow> fst c \<notin> set del \<and> snd c = None"

text \<open>The graph after the reconnection is that of the single deletion, for the children that are kept.\<close>

lemma batch_reconnect_sim:
  "fold (batch_reconnect del p deleted) cs (e, off, b) = (e1, off1, b1) \<Longrightarrow>
   fold (reconnect_child p known deleted') (filter (kept_child del) cs) (e, done0, b_graph b, r) = (e2, done2, g2, r2) \<Longrightarrow>
   e1 = e2 \<and> b_graph b1 = g2 \<and> b_roots b1 = b_roots b"
proof (induction cs arbitrary: e off b done0 r)
  case (Cons c cs)
  show ?case
  proof (cases e)
    case (Some x)
    then have "batch_reconnect del p deleted c (e, off, b) = (e, off, b)"
      and "reconnect_child p known deleted' c (e, done0, b_graph b, r) = (e, done0, b_graph b, r)"
      by (simp_all add: batch_reconnect_def reconnect_child_def)
    then show ?thesis using Cons by (cases "kept_child del c") auto
  next
    case None
    show ?thesis
    proof (cases "kept_child del c \<and> fst c \<notin> set (nextNodes (g_node (b_graph b) p))")
      case False
      then have "batch_reconnect del p deleted c (e, off, b) = (e, off, b)"
        and "kept_child del c \<Longrightarrow> reconnect_child p known deleted' c (e, done0, b_graph b, r) = (e, done0, b_graph b, r)"
        using None by (auto simp: batch_reconnect_def reconnect_child_def kept_child_def split_def)
      then show ?thesis using Cons by (cases "kept_child del c") auto
    next
      case True
      obtain x g1 where a: "addConnection p (fst c) None (b_graph b) = (x, g1)" by fastforce
      obtain off' ls where t: "transfer_layout deleted (b_layouts b) g1 (fst c) (off, b_layouts b) = (off', ls)" by fastforce
      have k: "kept_child del c" using True by simp
      have s1: "\<exists>off2 b2. batch_reconnect del p deleted c (e, off, b) = (x, off2, b2) \<and> b_graph b2 = g1 \<and> b_roots b2 = b_roots b"
        using None True a t by (auto simp: batch_reconnect_def kept_child_def split: option.split)
      have s2: "\<exists>done2 r2. reconnect_child p known deleted' c (e, done0, b_graph b, r) = (x, done2, g1, r2)"
        using None True a by (cases r) (auto simp: reconnect_child_def kept_child_def split: option.split)
      show ?thesis using s1 s2 Cons k by fastforce
    qed
  qed
qed simp

lemma batch_orphan_effect:
  "fold (batch_orphan del deleted) cs (off, b) = (off1, b1) \<Longrightarrow>
   b_graph b1 = b_graph b \<and> set (b_roots b1) = set (b_roots b) \<union> fst ` set (filter (kept_child del) cs)"
proof (induction cs arbitrary: off b)
  case (Cons c cs)
  have "\<exists>off2 b2. batch_orphan del deleted c (off, b) = (off2, b2) \<and> b_graph b2 = b_graph b \<and>
      set (b_roots b2) = set (b_roots b) \<union> (if kept_child del c then {fst c} else {})"
    by (auto simp: batch_orphan_def kept_child_def push_new_def split: prod.split)
  then obtain off2 b2 where c: "batch_orphan del deleted c (off, b) = (off2, b2)" "b_graph b2 = b_graph b"
    "set (b_roots b2) = set (b_roots b) \<union> (if kept_child del c then {fst c} else {})" by blast
  from Cons.IH [of off2 b2] Cons.prems c show ?case by auto
qed simp

lemma batch_input_effect:
  "b_graph (fold (batch_input del curRoots) is b) = b_graph b \<and>
   set (b_roots (fold (batch_input del curRoots) is b)) = set (b_roots b) \<union>
     {i \<in> set is. i \<notin> set del \<and> i \<notin> set curRoots \<and> nextNodes (g_node (b_graph b) i) = []}"
proof (induction "is" arbitrary: b)
  case (Cons i "is")
  have "b_graph (batch_input del curRoots i b) = b_graph b \<and>
      set (b_roots (batch_input del curRoots i b)) = set (b_roots b) \<union>
        (if i \<notin> set del \<and> i \<notin> set curRoots \<and> nextNodes (g_node (b_graph b) i) = [] then {i} else {})"
    by (auto simp: batch_input_def push_new_def)
  then show ?case using Cons.IH [of "batch_input del curRoots i b"] by auto
qed simp

text \<open>
  What one round adds to the bookkeeping of the batch: \<open>K\<close> are the kept children of the deleted node \<open>n\<close>.
\<close>

definition grown :: "nat set \<Rightarrow> nat \<Rightarrow> qgraph \<Rightarrow> batch \<Rightarrow> batch \<Rightarrow> bool" where
  "grown K n h b b' \<longleftrightarrow>
     set (b_affected b') \<subseteq> set (b_affected b) \<union> K \<and> b_orphanedInputs b' = b_orphanedInputs b \<and>
     (\<forall>m. set (nextNodes (g_node (b_graph b') m)) \<subseteq> set (nextNodes (g_node h m)) \<union> K) \<and>
     (\<forall>m. m \<noteq> n \<longrightarrow> set (nextNodes (g_node h m)) - {n} \<subseteq> set (nextNodes (g_node (b_graph b') m)))"

lemma batch_reconnect_fields:
  "fold (batch_reconnect del p deleted) cs (e, off, b) = (e1, off1, b1) \<Longrightarrow>
   set (b_affected b1) \<subseteq> set (b_affected b) \<union> fst ` set (filter (kept_child del) cs) \<and>
   b_orphanedInputs b1 = b_orphanedInputs b"
proof (induction cs arbitrary: e off b)
  case (Cons c cs)
  obtain e2 off2 b2 where c: "batch_reconnect del p deleted c (e, off, b) = (e2, off2, b2)" by (metis prod.exhaust)
  have "set (b_affected b2) \<subseteq> set (b_affected b) \<union> (if kept_child del c then {fst c} else {}) \<and>
      b_orphanedInputs b2 = b_orphanedInputs b"
    using c by (auto simp: batch_reconnect_def kept_child_def split: option.splits prod.splits if_splits)
  then show ?case using Cons.IH [of e2 off2 b2] Cons.prems c by (auto split: if_splits)
qed simp

lemma batch_orphan_fields:
  "fold (batch_orphan del deleted) cs (off, b) = (off1, b1) \<Longrightarrow>
   set (b_affected b1) \<subseteq> set (b_affected b) \<union> fst ` set (filter (kept_child del) cs) \<and>
   b_orphanedInputs b1 = b_orphanedInputs b"
proof (induction cs arbitrary: off b)
  case (Cons c cs)
  obtain off2 b2 where c: "batch_orphan del deleted c (off, b) = (off2, b2)" by fastforce
  have "set (b_affected b2) \<subseteq> set (b_affected b) \<union> (if kept_child del c then {fst c} else {}) \<and>
      b_orphanedInputs b2 = b_orphanedInputs b"
    using c by (auto simp: batch_orphan_def kept_child_def split: prod.splits if_splits)
  then show ?case using Cons.IH [of off2 b2] Cons.prems c by (auto split: if_splits)
qed simp

lemma batch_input_fields:
  "b_affected (fold (batch_input del curRoots) is b) = b_affected b \<and>
   set (b_orphanedInputs (fold (batch_input del curRoots) is b)) \<subseteq>
     set (b_orphanedInputs b) \<union> {i. nextNodes (g_node (b_graph b) i) = []}"
proof (induction "is" arbitrary: b)
  case (Cons i "is")
  have "b_affected (batch_input del curRoots i b) = b_affected b \<and> b_graph (batch_input del curRoots i b) = b_graph b \<and>
      set (b_orphanedInputs (batch_input del curRoots i b)) \<subseteq>
        set (b_orphanedInputs b) \<union> {i. nextNodes (g_node (b_graph b) i) = []}"
    by (auto simp: batch_input_def)
  then show ?case using Cons.IH [of "batch_input del curRoots i b"] by auto
qed simp

subsection \<open>The slots while the batch is processed\<close>

text \<open>
  \<open>del\<close> are the nodes to delete, \<open>done\<close> those already processed. A primary slot that held a processed
  node is handed to its primary input, unless that one is deleted too or feeds the child already.
\<close>

definition batch_slots :: "nat set \<Rightarrow> nat set \<Rightarrow> qgraph \<Rightarrow> nat \<Rightarrow> nat option \<Rightarrow> nat option" where
  "batch_slots del don g t s =
     (if t \<in> don then None
      else case input_at g t s of
        None \<Rightarrow> None
      | Some n \<Rightarrow>
          if n \<notin> don then Some n
          else if s = None \<and> t \<notin> del then
            (case input_at g n None of
               Some p \<Rightarrow> if p \<notin> del \<and> \<not> feeds g p t then Some p else None
             | None \<Rightarrow> None)
          else None)"

definition batch_inv :: "nat set \<Rightarrow> nat list \<Rightarrow> nat list \<Rightarrow> qgraph \<Rightarrow> nat set \<Rightarrow> batch \<Rightarrow> bool" where
  "batch_inv A del curRoots g don b \<longleftrightarrow>
     (\<forall>t \<in> set (b_affected b). no_ports g t) \<and>
     (\<forall>i \<in> set (b_orphanedInputs b). \<forall>t \<in> set (nextNodes (g_node (b_graph b) i)). no_ports g t) \<and>
     linked_on A (b_graph b) \<and> shape (b_graph b) = shape g \<and>
     (\<forall>t s. input_at (b_graph b) t s = batch_slots (set del) don g t s) \<and>
     set (b_roots b) \<inter> don = {} \<and> set curRoots - don \<subseteq> set (b_roots b) \<and>
     (\<forall>t n. t \<notin> set del \<longrightarrow> n \<in> don \<longrightarrow> input_at g t None = Some n \<longrightarrow>
        (\<forall>p. input_at g n None = Some p \<longrightarrow> p \<in> set del) \<longrightarrow> t \<in> set (b_roots b)) \<and>
     (\<forall>i n. i \<notin> set del \<longrightarrow> n \<in> don \<longrightarrow> feeds g i n \<longrightarrow> nextNodes (g_node (b_graph b) i) = [] \<longrightarrow>
        i \<in> set (b_roots b))"

lemma primary_input_at: "primaryInput (g_node g n) = input_at g n None"
  by (simp add: input_at_def)

lemma batch_slots_step:
  assumes "n \<notin> don" "n \<in> del" "don \<subseteq> del"
  shows "batch_slots del (insert n don) g t s =
    (if t = n then None
     else if batch_slots del don g t s = Some n then
       (if s = None \<and> t \<notin> del then
          (case input_at g n None of Some p \<Rightarrow> if p \<notin> del \<and> \<not> feeds g p t then Some p else None | None \<Rightarrow> None)
        else None)
     else batch_slots del don g t s)"
  using assms by (auto simp: batch_slots_def split: option.splits)

lemma batch_slots_held:
  assumes "n \<notin> don" "n \<in> del" "don \<subseteq> del"
  shows "batch_slots del don g t s = Some n \<longleftrightarrow> t \<notin> don \<and> input_at g t s = Some n"
  using assms by (auto simp: batch_slots_def split: option.splits if_splits)

lemma batch_slots_survivor:
  assumes "n \<notin> don" "n \<in> del" "don \<subseteq> del" "p \<notin> del" "t \<notin> don" "input_at g t None = Some n"
  shows "(\<exists>s. batch_slots del don g t s = Some p) \<longleftrightarrow> feeds g p t"
proof -
  have "batch_slots del don g t s = Some p \<longleftrightarrow> input_at g t s = Some p" for s
    using assms by (cases s) (auto simp: batch_slots_def split: option.splits)
  then show ?thesis by (simp add: feeds_def)
qed

text \<open>One node of the batch.\<close>

lemma batch_delete_inv:
  assumes inv: "batch_inv A del curRoots g don b" and n: "n \<notin> don" "n \<in> set del" and don: "don \<subseteq> set del"
    and self: "\<not> feeds g n n" and det: "detachable A g n"
  shows "\<exists>b'. batch_delete del curRoots n (None, b) = (None, b') \<and> batch_inv A del curRoots g (insert n don) b'"
proof -
  let ?h = "b_graph b" and ?D = "set del"
  have l: "linked_on A ?h" and sh: "shape ?h = shape g"
    and slots: "\<And>t s. input_at ?h t s = batch_slots ?D don g t s"
    and r1: "set (b_roots b) \<inter> don = {}" and r2: "set curRoots - don \<subseteq> set (b_roots b)"
    and r3: "\<And>t m. t \<notin> ?D \<Longrightarrow> m \<in> don \<Longrightarrow> input_at g t None = Some m \<Longrightarrow>
      (\<forall>p. input_at g m None = Some p \<longrightarrow> p \<in> ?D) \<Longrightarrow> t \<in> set (b_roots b)"
    and r4: "\<And>i m. i \<notin> ?D \<Longrightarrow> m \<in> don \<Longrightarrow> feeds g i m \<Longrightarrow> nextNodes (g_node ?h i) = [] \<Longrightarrow> i \<in> set (b_roots b)"
    and affected: "\<And>t. t \<in> set (b_affected b) \<Longrightarrow> no_ports g t"
    and orphaned: "\<And>i t. i \<in> set (b_orphanedInputs b) \<Longrightarrow> t \<in> set (nextNodes (g_node ?h i)) \<Longrightarrow> no_ports g t"
    using inv by (simp_all add: batch_inv_def)
  let ?cs = "captureAllChildConnections n ?h" and ?h1 = "disconnectNodeFromGraph n ?h"
  let ?del = "b_layouts b (nodeId (g_node ?h n))"
  define b1 where "b1 = b\<lparr>b_graph := ?h1, b_roots := filter (\<lambda>m. m \<noteq> n) (b_roots b),
    b_layouts := (b_layouts b)(nodeId (g_node ?h n) := None)\<rparr>"
  have held: "input_at ?h t s = Some n \<longleftrightarrow> t \<notin> don \<and> input_at g t s = Some n" for t s
    by (simp add: slots batch_slots_held [OF n don])
  have kid: "t \<in> A \<and> no_ports ?h t" if "feeds ?h n t" for t
  proof -
    have "feeds g n t" using that held by (auto simp: feeds_def)
    then show ?thesis using detachableD(2) [OF det] shape_no_ports [OF sh] by blast
  qed
  have det': "detachable A ?h n"
    using kid detachableD(1) [OF det] shape_no_ports [OF sh] by (simp add: detachable_def)
  have cs: "(t, s) \<in> set ?cs \<longleftrightarrow> t \<notin> don \<and> input_at g t s = Some n" for t s
    using captured_linked [OF l, of n t s] kid held by blast
  have kept: "(t, s) \<in> set (filter (kept_child del) ?cs) \<longleftrightarrow> t \<notin> ?D \<and> s = None \<and> input_at g t None = Some n" for t s
    using don by (auto simp: kept_child_def cs)
  have parent: "primaryInput (g_node ?h n) = Some p \<and> p \<notin> ?D \<longleftrightarrow> input_at g n None = Some p \<and> p \<notin> ?D" for p
    using n don by (auto simp: primary_input_at slots batch_slots_def split: option.splits)
  define K where "K = fst ` set (filter (kept_child del) ?cs)"
  have K_ports: "no_ports g t" if "t \<in> K" for t
  proof -
    obtain s where "(t, s) \<in> set (filter (kept_child del) ?cs)" using \<open>t \<in> K\<close> by (auto simp: K_def)
    then have "feeds g n t" using kept by (auto simp: feeds_def)
    then show ?thesis using detachableD(2) [OF det] by blast
  qed
  note d = disconnect_effect [OF l det']
  define res where "res = (case primaryInput (g_node ?h n) of
      Some p \<Rightarrow> if p \<notin> ?D then (case fold (batch_reconnect del p ?del) ?cs (None, 0, b1) of (e, _, b') \<Rightarrow> (e, b'))
        else (None, snd (fold (batch_orphan del ?del) ?cs (0, b1)))
    | None \<Rightarrow> (None, snd (fold (batch_orphan del ?del) ?cs (0, b1))))"
  have R: "\<exists>b2. res = (None, b2) \<and> grown K n ?h b b2 \<and> linked_on A (b_graph b2) \<and> shape (b_graph b2) = shape g \<and>
      (\<forall>t s. input_at (b_graph b2) t s = batch_slots ?D (insert n don) g t s) \<and>
      set (b_roots b2) = (set (b_roots b) - {n}) \<union>
        (if \<exists>p. input_at g n None = Some p \<and> p \<notin> ?D then {} else fst ` set (filter (kept_child del) ?cs))"
  proof (cases "\<exists>p. input_at g n None = Some p \<and> p \<notin> ?D")
    case False
    then have res: "res = (None, snd (fold (batch_orphan del ?del) ?cs (0, b1)))"
      using parent unfolding res_def by (cases "primaryInput (g_node ?h n)") auto
    obtain off2 b2 where f: "fold (batch_orphan del ?del) ?cs (0, b1) = (off2, b2)" by fastforce
    from batch_orphan_effect [OF f] have e: "b_graph b2 = ?h1"
      "set (b_roots b2) = (set (b_roots b) - {n}) \<union> fst ` set (filter (kept_child del) ?cs)"
      by (auto simp: b1_def)
    have "input_at ?h1 t s = batch_slots ?D (insert n don) g t s" for t s
      using False by (auto simp: d(3) batch_slots_step [OF n don] slots split: option.splits)
    moreover have "grown K n ?h b b2"
      using batch_orphan_fields [OF f] disconnect_next [where n = n and g = ?h] unfolding K_def
      by (auto simp: grown_def e(1) b1_def)
    ultimately show ?thesis using d(1,2) sh e res f False by auto
  next
    case True
    then obtain p where p: "input_at g n None = Some p" "p \<notin> ?D" by blast
    then have pr: "primaryInput (g_node ?h n) = Some p" using parent by blast
    have pn: "p \<noteq> n" using p n by blast
    have feeds1: "t \<in> set (nextNodes (g_node ?h1 p)) \<longleftrightarrow> feeds g p t"
      if t: "(t, None) \<in> set (filter (kept_child del) ?cs)" for t
    proof -
      have t': "t \<notin> don" "input_at g t None = Some n" "t \<noteq> n" using t kept don n by auto
      have "input_at ?h1 t s = Some p \<longleftrightarrow> input_at ?h t s = Some p" for s
        using t'(3) pn by (auto simp: d(3))
      then have "feeds ?h1 p t \<longleftrightarrow> feeds g p t"
        using batch_slots_survivor [OF n don p(2) t'(1,2)] by (simp add: feeds_def slots)
      moreover have "t \<in> A" using t'(2) detachableD(2) [OF det, of t] by (auto simp: feeds_def)
      ultimately show ?thesis using linked_onD(3,4) [OF d(1), of t p] by blast
    qed
    have ok: "no_ports ?h1 t \<and> slot_for ?h1 t None = Some None \<and> (input_at ?h1 t None = None \<or> t \<in> set (nextNodes (g_node ?h1 p)))"
      if "(t, None) \<in> set (filter (kept_child del) ?cs)" for t
    proof -
      have "input_at ?h t None = Some n" using that kept held don by auto
      then show ?thesis
        using occupied_slot_for [OF linked_slots [OF l] _ d(2), of t None n] kid [of t] shape_no_ports [OF d(2), of t]
        by (auto simp: d(3) feeds_def)
    qed
    from reconnect_effect [OF d(1) ok, of "filter (kept_child del) ?cs" "Map.empty" None "[]" "(0, Map.empty)"]
    obtain done2 g2 r2 where rc: "fold (reconnect_child p Map.empty None) (filter (kept_child del) ?cs)
        (None, [], ?h1, 0, Map.empty) = (None, done2, g2, r2)" "linked_on A g2" "shape g2 = shape ?h1"
      and i2: "\<And>t s. input_at g2 t s = (if s = None \<and> (t, None) \<in> set (filter (kept_child del) ?cs) \<and>
          t \<notin> set (nextNodes (g_node ?h1 p)) then Some p else input_at ?h1 t s)"
      by blast
    obtain e2 off2 b2 where f: "fold (batch_reconnect del p ?del) ?cs (None, 0, b1) = (e2, off2, b2)"
      by (metis prod.exhaust)
    have b1g: "b_graph b1 = ?h1" "b_roots b1 = filter (\<lambda>m. m \<noteq> n) (b_roots b)" by (simp_all add: b1_def)
    have sim: "e2 = None \<and> b_graph b2 = g2 \<and> b_roots b2 = filter (\<lambda>m. m \<noteq> n) (b_roots b)"
      using batch_reconnect_sim [OF f, of Map.empty None "[]" "(0, Map.empty)" None done2 g2 r2] rc(1) b1g by simp
    have "res = (None, b2)" using pr p(2) f sim by (simp add: res_def)
    moreover have "input_at g2 t s = batch_slots ?D (insert n don) g t s" for t s
    proof (cases "t \<noteq> n \<and> input_at ?h t s = Some n")
      case True
      then have ts: "t \<notin> don" "input_at g t s = Some n" using held by auto
      show ?thesis
      proof (cases "s = None \<and> t \<notin> ?D")
        case k: True
        then have "(t, None) \<in> set (filter (kept_child del) ?cs)" using kept ts by blast
        then show ?thesis
          using k True p feeds1 [of t] by (auto simp: i2 d(3) batch_slots_step [OF n don] slots)
      next
        case False
        then have "\<not> (s = None \<and> (t, None) \<in> set (filter (kept_child del) ?cs))" using kept by blast
        then show ?thesis using False True by (auto simp: i2 d(3) batch_slots_step [OF n don] slots)
      qed
    next
      case False
      have "\<not> (s = None \<and> (t, None) \<in> set (filter (kept_child del) ?cs))"
        using False kept held don n by auto
      then show ?thesis using False by (auto simp: i2 d(3) batch_slots_step [OF n don] slots)
    qed
    moreover have "set (b_roots b2) = set (b_roots b) - {n}" using sim by auto
    moreover have "grown K n ?h b b2"
      using batch_reconnect_fields [OF f] reconnect_next [OF rc(1)] disconnect_next [where n = n and g = ?h] sim unfolding K_def
      by (simp add: grown_def b1_def) blast
    ultimately show ?thesis using rc(2,3) sim d(2) sh True by auto
  qed
  then obtain b2 where res: "res = (None, b2)" and grown: "grown K n ?h b b2" and l2: "linked_on A (b_graph b2)" and sh2: "shape (b_graph b2) = shape g"
    and slots2: "\<And>t s. input_at (b_graph b2) t s = batch_slots ?D (insert n don) g t s"
    and roots2: "set (b_roots b2) = (set (b_roots b) - {n}) \<union>
        (if \<exists>p. input_at g n None = Some p \<and> p \<notin> ?D then {} else fst ` set (filter (kept_child del) ?cs))"
    by blast
  let ?b3 = "fold (batch_input del curRoots) (getAllInputNodes n ?h) b2"
  have step: "batch_delete del curRoots n (None, b) = (None, ?b3)"
    unfolding batch_delete_def Let_def by (simp add: res_def [symmetric, unfolded b1_def] res)
  note e3 = batch_input_effect [of del curRoots "getAllInputNodes n ?h" b2]
  have mono: "x \<in> set (b_roots ?b3)" if "x \<in> set (b_roots b)" "x \<noteq> n" for x
    using that e3 roots2 by auto
  have nD: "x \<notin> ?D \<Longrightarrow> x \<noteq> n" for x using n by blast
  have inp: "i \<in> set (getAllInputNodes n ?h) \<longleftrightarrow> feeds g i n" if "i \<notin> ?D" for i
  proof -
    have "input_at ?h n s = Some i \<longleftrightarrow> input_at g n s = Some i" for s
      using n don that by (cases "input_at g n s") (auto simp: slots batch_slots_def split: option.split)
    then show ?thesis by (simp add: inputs_iff_feeds [OF linked_slots [OF l]] feeds_def)
  qed
  have A: "t \<in> set (b_roots ?b3)"
    if "t \<notin> ?D" "m \<in> insert n don" "input_at g t None = Some m" "\<forall>p. input_at g m None = Some p \<longrightarrow> p \<in> ?D" for t m
  proof (cases "m = n")
    case True
    then have "(t, None) \<in> set (filter (kept_child del) ?cs)" using kept that by blast
    then have "t \<in> fst ` set (filter (kept_child del) ?cs)" by force
    then have "t \<in> set (b_roots b2)" using roots2 that(4) True by auto
    then show ?thesis using e3 by blast
  next
    case False
    then show ?thesis using r3 [of t m] that mono nD by blast
  qed
  have B: "i \<in> set (b_roots ?b3)"
    if i: "i \<notin> ?D" and m: "m \<in> insert n don" "feeds g i m" and empty: "nextNodes (g_node (b_graph ?b3) i) = []" for i m
  proof (cases "feeds g i n")
    case True
    then have "i \<in> set (getAllInputNodes n ?h)" using inp i by blast
    moreover have "nextNodes (g_node (b_graph b2) i) = []" using empty e3 by simp
    ultimately show ?thesis using e3 i r2 mono nD don by auto
  next
    case False
    then have md: "m \<in> don" using m by auto
    have "nextNodes (g_node ?h i) = []"
    proof (rule ccontr)
      assume "nextNodes (g_node ?h i) \<noteq> []"
      then obtain x where "x \<in> set (nextNodes (g_node ?h i))" by (cases "nextNodes (g_node ?h i)") auto
      then have s: "feeds ?h i x" and x: "x \<in> set (nextNodes (g_node ?h i))" using linked_onD(3) [OF l, of x i] by blast+
      have "x \<noteq> n"
      proof
        assume "x = n"
        then show False using s inp [OF i] False by (simp add: inputs_iff_feeds [OF linked_slots [OF l]])
      qed
      moreover have "i \<noteq> n" using i n by blast
      ultimately have "x \<in> set (nextNodes (g_node (b_graph b2) i))" using grown x unfolding grown_def by blast
      then show False using empty e3 by simp
    qed
    then show ?thesis using r4 [OF i md m(2)] mono nD i by blast
  qed
  note f3 = batch_input_fields [of del curRoots "getAllInputNodes n ?h" b2]
  have "batch_inv A del curRoots g (insert n don) ?b3"
    unfolding batch_inv_def
  proof (intro conjI allI impI ballI)
    show "no_ports g t" if "t \<in> set (b_affected ?b3)" for t
    proof -
      have "t \<in> set (b_affected b2)" using that f3 by simp
      then show ?thesis using grown affected K_ports unfolding grown_def by blast
    qed
    show "no_ports g t" if o: "o' \<in> set (b_orphanedInputs ?b3)" "t \<in> set (nextNodes (g_node (b_graph ?b3) o'))" for o' t
    proof -
      have "t \<in> set (nextNodes (g_node (b_graph b2) o'))" using o(2) e3 by simp
      moreover from this have "o' \<in> set (b_orphanedInputs b2)" using o(1) f3 by auto
      then have "o' \<in> set (b_orphanedInputs b)" using grown by (simp add: grown_def)
      moreover have "set (nextNodes (g_node (b_graph b2) o')) \<subseteq> set (nextNodes (g_node ?h o')) \<union> K"
        using grown by (simp add: grown_def)
      ultimately show ?thesis using orphaned [of o' t] K_ports [of t] by blast
    qed
    show "linked_on A (b_graph ?b3)" "shape (b_graph ?b3) = shape g" using l2 sh2 e3 by simp_all
    show "input_at (b_graph ?b3) t s = batch_slots ?D (insert n don) g t s" for t s using slots2 e3 by simp
    have K: "K \<inter> ?D = {}" by (auto simp: K_def kept_child_def)
    have "set (b_roots ?b3) \<subseteq> (set (b_roots b) - {n}) \<union> K \<union> - ?D"
      using e3 roots2 [folded K_def] by auto
    then have "x \<notin> insert n don" if "x \<in> set (b_roots ?b3)" for x
      using that r1 don n K by blast
    then show "set (b_roots ?b3) \<inter> insert n don = {}" by blast
    show "set curRoots - insert n don \<subseteq> set (b_roots ?b3)" using r2 mono by blast
  qed (use A B in blast)+
  then show ?thesis using step by blast
qed

lemma batch_deletes_inv:
  assumes "batch_inv A del curRoots g don b" and "distinct ns" "set ns \<inter> don = {}" "set ns \<subseteq> set del" "don \<subseteq> set del"
    and "\<And>n. n \<in> set del \<Longrightarrow> \<not> feeds g n n \<and> detachable A g n"
  shows "\<exists>b'. fold (batch_delete del curRoots) ns (None, b) = (None, b') \<and> batch_inv A del curRoots g (don \<union> set ns) b'"
  using assms
proof (induction ns arbitrary: don b)
  case (Cons n ns)
  from Cons.prems obtain b1 where b1: "batch_delete del curRoots n (None, b) = (None, b1)"
    "batch_inv A del curRoots g (insert n don) b1"
    using batch_delete_inv [of A del curRoots g don b n] by auto
  from Cons.IH [OF b1(2)] Cons.prems obtain b2 where
    "fold (batch_delete del curRoots) ns (None, b1) = (None, b2)" "batch_inv A del curRoots g (insert n don \<union> set ns) b2"
    by auto
  then show ?case using b1(1) by auto
qed auto

subsection \<open>The whole deletion\<close>

text \<open>The slots after a set of nodes has been deleted.\<close>

definition after_deletion :: "nat set \<Rightarrow> qgraph \<Rightarrow> nat \<Rightarrow> nat option \<Rightarrow> nat option" where
  "after_deletion del g t s =
     (if t \<in> del then None
      else case input_at g t s of
        None \<Rightarrow> None
      | Some n \<Rightarrow>
          if n \<notin> del then Some n
          else if s = None then
            (case input_at g n None of
               Some p \<Rightarrow> if p \<notin> del \<and> \<not> feeds g p t then Some p else None
             | None \<Rightarrow> None)
          else None)"

lemma batch_slots_all: "batch_slots del del g t s = after_deletion del g t s"
  by (simp add: batch_slots_def after_deletion_def split: option.split)

lemma delete_nodes_effect:
  assumes l: "linked_on A g" and d: "distinct del"
    and self: "\<And>n. n \<in> set del \<Longrightarrow> \<not> feeds g n n \<and> detachable A g n"
  shows "\<exists>st' g'. delete_nodes del cur g = Inr (st', g') \<and> linked_on A g' \<and>
    (\<forall>t s. input_at g' t s = after_deletion (set del) g t s) \<and> selectedNodes st' = {} \<and>
    set (rootNodes st') \<inter> set del = {} \<and> set (rootNodes cur) - set del \<subseteq> set (rootNodes st') \<and>
    (\<forall>t n. t \<notin> set del \<and> n \<in> set del \<and> input_at g t None = Some n \<and>
       (\<forall>p. input_at g n None = Some p \<longrightarrow> p \<in> set del) \<longrightarrow> t \<in> set (rootNodes st')) \<and>
    (\<forall>i n. i \<notin> set del \<and> n \<in> set del \<and> feeds g i n \<and> nextNodes (g_node g' i) = [] \<longrightarrow>
       i \<in> set (rootNodes st'))"
proof -
  let ?b = "\<lparr>b_graph = g, b_layouts = nodeLayouts cur, b_roots = js_set (rootNodes cur),
      b_affected = [], b_orphanedInputs = []\<rparr>"
  have "batch_slots (set del) {} g t s = input_at g t s" for t s
    by (simp add: batch_slots_def split: option.split)
  then have "batch_inv A del (rootNodes cur) g {} ?b"
    using l by (simp add: batch_inv_def set_js_set)
  from batch_deletes_inv [OF this d _ _ _ self] obtain b' where
    b': "fold (batch_delete del (rootNodes cur)) del (None, ?b) = (None, b')"
    and inv: "batch_inv A del (rootNodes cur) g (set del) b'" by auto
  let ?st = "cur\<lparr>rootNodes := b_roots b', selectedNodes := {}, nodeLayouts := b_layouts b'\<rparr>"
  let ?g = "fold notifyNextNodes (b_orphanedInputs b') (fold onPrevNodesUpdated (b_affected b') (b_graph b'))"
  have r: "delete_nodes del cur g = Inr (?st, ?g)" by (simp add: delete_nodes_def b')
  have ports: "no_ports (b_graph b') t = no_ports g t" for t using inv by (intro shape_no_ports) (simp add: batch_inv_def)
  have "g_node (fold onPrevNodesUpdated (b_affected b') (b_graph b')) = g_node (b_graph b')"
    using inv by (intro fold_updates_node) (simp add: ports batch_inv_def)
  moreover from this have "no_ports (fold onPrevNodesUpdated (b_affected b') (b_graph b')) t = no_ports g t" for t
    using ports [of t] by (simp add: no_ports_def)
  ultimately have gn: "g_node ?g = g_node (b_graph b')"
    using inv by (subst fold_notify_node) (simp_all add: batch_inv_def)
  have v: "input_at ?g = input_at (b_graph b')" "linked_on A ?g = linked_on A (b_graph b')"
    using node_views [OF gn, of A] by simp_all
  show ?thesis
    by (intro exI [of _ ?st] exI [of _ ?g]) (use inv in \<open>simp add: r v gn batch_inv_def batch_slots_all, blast\<close>)
qed


text \<open>The filter of the example graph is selected and deleted; the sort below it gets the table as its input.\<close>

definition some_world :: crud_world where
  "some_world = \<lparr>cw_state = some_state, cw_labels = [], cw_graph = pipeline, initializedNodes = {},
     disposed_nodes = [], dropped_ids = []\<rparr>"


end
