(* ===== verification/Json_Text.thy ===== *)
theory Json_Text
  imports Prelude
begin

text \<open>
  JSON values and their text: \<^verbatim>\<open>stringifyJsonWithBigints\<close> of \<^verbatim>\<open>base/json_utils.ts\<close>, that is
  \<open>JSON.stringify\<close> with a replacer that turns a bigint into the string of its digits. The text is
  what the query slot compares to decide whether two keys are the same.
\<close>

subsection \<open>Values\<close>

text \<open>
  A value as \<open>JSON.stringify\<close> sees it. A finite number is held as the text that
  \<open>Number::toString\<close> gives it, \<open>JNotFinite\<close> is \<open>NaN\<close> or an infinity, \<open>JUndefined\<close> is
  \<open>undefined\<close>; the fields of an object stand in the order in which \<open>Object.keys\<close> lists them. A
  string is a list of the code units below 256.
\<close>

datatype json =
    JNull
  | JUndefined
  | JBool bool
  | JNumber string
  | JNotFinite
  | JBigint int
  | JString string
  | JArray "json list"
  | JObject "(string \<times> json) list"

subsection \<open>Text\<close>

definition dquote :: char where
  "dquote = CHR 0x22"

definition backslash :: char where
  "backslash = CHR 0x5C"

definition hex_digit :: "nat \<Rightarrow> char" where
  "hex_digit n = (if n < 10 then char_of (48 + n) else char_of (87 + n))"

text \<open>\<open>QuoteJSONString\<close> on one code unit.\<close>

definition escape_char :: "char \<Rightarrow> string" where
  "escape_char c =
     (if c = dquote then [backslash, dquote]
      else if c = backslash then [backslash, backslash]
      else if c = CHR 0x08 then [backslash, CHR ''b'']
      else if c = CHR 0x09 then [backslash, CHR ''t'']
      else if c = CHR 0x0A then [backslash, CHR ''n'']
      else if c = CHR 0x0C then [backslash, CHR ''f'']
      else if c = CHR 0x0D then [backslash, CHR ''r'']
      else if (of_char c :: nat) < 32
        then backslash # ''u00'' @ [hex_digit (of_char c div 16), hex_digit (of_char c mod 16)]
      else [c])"

definition quote_json :: "string \<Rightarrow> string" where
  "quote_json s = dquote # concat (map escape_char s) @ [dquote]"

definition decimal_text :: "int \<Rightarrow> string" where
  "decimal_text i = (if i < 0 then ''-'' @ show_nat (nat (- i)) else show_nat (nat i))"

text \<open>
  \<open>JSON.stringify(v, replacer)\<close>: \<open>undefined\<close> has no text of its own; in an array it prints as
  \<open>null\<close>, and a field whose value is \<open>undefined\<close> is left out.
\<close>

fun stringifyJsonWithBigints :: "json \<Rightarrow> string option"
  and stringify_items :: "json list \<Rightarrow> string list"
  and stringify_fields :: "(string \<times> json) list \<Rightarrow> string list"
where
  "stringifyJsonWithBigints JNull = Some ''null''"
| "stringifyJsonWithBigints JUndefined = None"
| "stringifyJsonWithBigints (JBool b) = Some (if b then ''true'' else ''false'')"
| "stringifyJsonWithBigints (JNumber t) = Some t"
| "stringifyJsonWithBigints JNotFinite = Some ''null''"
| "stringifyJsonWithBigints (JBigint i) = Some (quote_json (decimal_text i))"
| "stringifyJsonWithBigints (JString s) = Some (quote_json s)"
| "stringifyJsonWithBigints (JArray xs) = Some (''['' @ join_with '','' (stringify_items xs) @ '']'')"
| "stringifyJsonWithBigints (JObject fs) = Some (''{'' @ join_with '','' (stringify_fields fs) @ ''}'')"
| "stringify_items [] = []"
| "stringify_items (x # xs) =
     (case stringifyJsonWithBigints x of None \<Rightarrow> ''null'' | Some t \<Rightarrow> t) # stringify_items xs"
| "stringify_fields [] = []"
| "stringify_fields (f # fs) =
     (case stringifyJsonWithBigints (snd f) of
        None \<Rightarrow> stringify_fields fs
      | Some t \<Rightarrow> (quote_json (fst f) @ '':'' @ t) # stringify_fields fs)"

text \<open>A bigint and the string of its digits have the same text.\<close>

lemma stringify_bigint_string:
  "stringifyJsonWithBigints (JBigint i) = stringifyJsonWithBigints (JString (decimal_text i))"
  by simp

end
