(* ===== verification/Query_Slot.thy ===== *)
theory Query_Slot
  imports Json_Text
begin

text \<open>
  The declarative query slots of \<^verbatim>\<open>base/query_slot.ts\<close>: \<^verbatim>\<open>SerialTaskQueue\<close> (a map from slots to
  their latest pending task, run one at a time) and \<^verbatim>\<open>QuerySlot\<close> (a single-entry cache in front of
  an asynchronous query, read by \<open>use()\<close> in every render cycle). Several slots share one queue. The
  asynchronous functions are cut at their \<open>await\<close>s, and what happens between two macrotasks is one
  event of the world; the promises that the client's code returns (\<open>queryFn\<close>, the result's
  \<open>Symbol.asyncDispose\<close>) settle by events of their own.
\<close>

subsection \<open>Keys\<close>

text \<open>
  The key of a query is an object; its fields stand in the order of \<open>Object.keys\<close>, and none has the
  name of a member of \<open>Object.prototype\<close>.
\<close>

type_synonym slot_key = "(string \<times> json) list"

definition key_str :: "slot_key \<Rightarrow> string" where
  "key_str k = ''{'' @ join_with '','' (stringify_fields k) @ ''}''"

lemma key_str_stringify: "stringifyJsonWithBigints (JObject k) = Some (key_str k)"
  by (simp add: key_str_def)

text \<open>\<open>o[field]\<close>, \<open>undefined\<close> when there is no such field.\<close>

definition field_of :: "slot_key \<Rightarrow> string \<Rightarrow> json" where
  "field_of k f = (case map_of k f of None \<Rightarrow> JUndefined | Some v \<Rightarrow> v)"

fun stale_current_fields :: "slot_key \<Rightarrow> slot_key \<Rightarrow> string list \<Rightarrow> string list \<Rightarrow> bool" where
  "stale_current_fields cached current retainOn [] = True"
| "stale_current_fields cached current retainOn (f # fs) =
     (if stringifyJsonWithBigints (field_of cached f) \<noteq> stringifyJsonWithBigints (field_of current f)
        \<and> f \<notin> set retainOn
      then False
      else stale_current_fields cached current retainOn fs)"

fun stale_cached_fields :: "slot_key \<Rightarrow> string list \<Rightarrow> string list \<Rightarrow> bool" where
  "stale_cached_fields current retainOn [] = True"
| "stale_cached_fields current retainOn (f # fs) =
     (if f \<notin> fst ` set current \<and> f \<notin> set retainOn then False
      else stale_cached_fields current retainOn fs)"

definition canUseStaleData :: "slot_key \<Rightarrow> slot_key \<Rightarrow> string list \<Rightarrow> bool" where
  "canUseStaleData cached current retainOn \<longleftrightarrow>
     stale_current_fields cached current retainOn (map fst current) \<and>
     stale_cached_fields current retainOn (map fst cached)"

subsection \<open>Slots, tasks and the queue\<close>

record 'd cache_entry =
  ce_key :: slot_key
  ce_keyStr :: string
  ce_data :: 'd

record 'd query_slot =
  cache :: "'d cache_entry option"
  pendingKey :: "slot_key option"
  slot_disposed :: bool
  currentSignal :: "nat option"
  slot_error :: "(string \<times> string) option"

definition new_slot :: "'d query_slot" where
  "new_slot =
     \<lparr>cache = None, pendingKey = None, slot_disposed = False, currentSignal = None,
      slot_error = None\<rparr>"

text \<open>
  The two closures that a slot schedules: the query for a key, with the \<open>queryFn\<close> it was given (by
  its identity) and its cancellation signal (by its index in the store of signals), and the final
  disposal. A task in flight waits for \<open>disposeCache()\<close>, for its \<open>queryFn\<close>, or has settled and
  waits for \<open>runNext\<close> to resume.
\<close>

datatype task = QueryTask slot_key nat nat | DisposeTask

datatype phase = AwaitDispose | AwaitQuery | Settled

datatype 'd effect =
    QueryCalled nat nat nat
  | QueryReturned nat slot_key 'd
  | AsyncDisposeCalled nat 'd
  | Redraw
  | ConsoleError

record 'd slot_world =
  slots :: "nat \<Rightarrow> 'd query_slot"
  pending :: "(nat \<times> task) list"
  running :: bool
  inflight :: "(nat \<times> task \<times> phase) list"
  signals :: "bool list"
  effects :: "'d effect list"

definition init_world :: "'d slot_world" where
  "init_world =
     \<lparr>slots = (\<lambda>_. new_slot), pending = [], running = False, inflight = [], signals = [],
      effects = []\<rparr>"

definition put_slot :: "nat \<Rightarrow> 'd query_slot \<Rightarrow> 'd slot_world \<Rightarrow> 'd slot_world" where
  "put_slot s q w = w\<lparr>slots := (slots w)(s := q)\<rparr>"

definition emit :: "'d effect \<Rightarrow> 'd slot_world \<Rightarrow> 'd slot_world" where
  "emit e w = w\<lparr>effects := effects w @ [e]\<rparr>"

text \<open>\<open>Map.set\<close>: a key that is present keeps its place in the iteration order.\<close>

fun map_set :: "'k \<Rightarrow> 'v \<Rightarrow> ('k \<times> 'v) list \<Rightarrow> ('k \<times> 'v) list" where
  "map_set k v [] = [(k, v)]"
| "map_set k v ((k', v') # m) = (if k' = k then (k, v) # m else (k', v') # map_set k v m)"

definition map_delete :: "'k \<Rightarrow> ('k \<times> 'v) list \<Rightarrow> ('k \<times> 'v) list" where
  "map_delete k m = filter (\<lambda>p. fst p \<noteq> k) m"

subsection \<open>The serial task queue\<close>

text \<open>
  \<open>disposeCache()\<close> up to its \<open>await\<close>: an \<open>AsyncDisposable\<close> has its \<open>Symbol.asyncDispose\<close> called.
  The predicate \<open>isAsyncDisposable\<close> on the client's data is a parameter.
\<close>

definition dispose_call :: "('d \<Rightarrow> bool) \<Rightarrow> nat \<Rightarrow> 'd slot_world \<Rightarrow> 'd slot_world" where
  "dispose_call isD s w =
     (case cache (slots w s) of
        Some c \<Rightarrow> if isD (ce_data c) then emit (AsyncDisposeCalled s (ce_data c)) w else w
      | None \<Rightarrow> w)"

text \<open>Both tasks begin with \<open>await this.disposeCache()\<close>.\<close>

definition start_task :: "('d \<Rightarrow> bool) \<Rightarrow> nat \<Rightarrow> task \<Rightarrow> 'd slot_world \<Rightarrow> 'd slot_world" where
  "start_task isD s t w =
     dispose_call isD s (w\<lparr>inflight := inflight w @ [(s, t, AwaitDispose)]\<rparr>)"

definition runNext :: "('d \<Rightarrow> bool) \<Rightarrow> 'd slot_world \<Rightarrow> 'd slot_world" where
  "runNext isD w =
     (if running w then w
      else case pending w of
        [] \<Rightarrow> w
      | (s, t) # _ \<Rightarrow>
          start_task isD s t (w\<lparr>pending := map_delete s (pending w), running := True\<rparr>))"

definition schedule :: "('d \<Rightarrow> bool) \<Rightarrow> nat \<Rightarrow> task \<Rightarrow> 'd slot_world \<Rightarrow> 'd slot_world" where
  "schedule isD s t w = runNext isD (w\<lparr>pending := map_set s t (pending w)\<rparr>)"

definition cancel :: "nat \<Rightarrow> 'd slot_world \<Rightarrow> 'd slot_world" where
  "cancel s w = w\<lparr>pending := map_delete s (pending w)\<rparr>"

text \<open>\<open>runNext\<close> after \<open>await task()\<close>: the \<open>finally\<close> block.\<close>

definition task_done :: "('d \<Rightarrow> bool) \<Rightarrow> nat \<Rightarrow> 'd slot_world \<Rightarrow> 'd slot_world" where
  "task_done isD i w =
     runNext isD (w\<lparr>running := False, inflight := take i (inflight w) @ drop (Suc i) (inflight w)\<rparr>)"

subsection \<open>Using and disposing of a slot\<close>

record query_options =
  opt_key :: slot_key
  opt_queryFn :: nat
  opt_enabled :: "bool option"
  opt_retainOn :: "string list"

record 'd slot_reading =
  qr_data :: "'d option"
  qr_isPending :: bool
  qr_isFresh :: bool

text \<open>The part of \<open>use()\<close> that cancels the query in flight and schedules a new one.\<close>

definition schedule_query ::
  "('d \<Rightarrow> bool) \<Rightarrow> nat \<Rightarrow> query_options \<Rightarrow> 'd slot_world \<Rightarrow> 'd slot_world" where
  "schedule_query isD s opts w =
     (let signals1 = (case currentSignal (slots w s) of
                        Some n \<Rightarrow> (signals w)[n := True]
                      | None \<Rightarrow> signals w);
          sig = length signals1;
          w1 = put_slot s ((slots w s)\<lparr>currentSignal := Some sig, pendingKey := Some (opt_key opts)\<rparr>)
                 (w\<lparr>signals := signals1 @ [False]\<rparr>)
      in schedule isD s (QueryTask (opt_key opts) (opt_queryFn opts) sig) w1)"

definition needs_query :: "'d query_slot \<Rightarrow> query_options \<Rightarrow> bool" where
  "needs_query q opts \<longleftrightarrow>
     map_option key_str (pendingKey q) \<noteq> Some (key_str (opt_key opts)) \<and>
     map_option ce_keyStr (cache q) \<noteq> Some (key_str (opt_key opts)) \<and>
     (opt_enabled opts = None \<or> opt_enabled opts = Some True)"

definition slot_result :: "'d query_slot \<Rightarrow> query_options \<Rightarrow> 'd slot_reading" where
  "slot_result q opts =
     (let isPending = (pendingKey q \<noteq> None) in
      case cache q of
        None \<Rightarrow> \<lparr>qr_data = None, qr_isPending = isPending, qr_isFresh = False\<rparr>
      | Some c \<Rightarrow>
          if ce_keyStr c = key_str (opt_key opts)
          then \<lparr>qr_data = Some (ce_data c), qr_isPending = isPending, qr_isFresh = True\<rparr>
          else if canUseStaleData (ce_key c) (opt_key opts) (opt_retainOn opts)
          then \<lparr>qr_data = Some (ce_data c), qr_isPending = isPending, qr_isFresh = False\<rparr>
          else \<lparr>qr_data = None, qr_isPending = isPending, qr_isFresh = False\<rparr>)"

definition use_slot ::
  "('d \<Rightarrow> bool) \<Rightarrow> nat \<Rightarrow> query_options \<Rightarrow> 'd slot_world \<Rightarrow> js_error + 'd slot_reading \<times> 'd slot_world"
where
  "use_slot isD s opts w =
     (if slot_disposed (slots w s) then Inl (Thrown ''QuerySlot.use() called after dispose()'')
      else case slot_error (slots w s) of
        Some (k, e) \<Rightarrow>
          if k = key_str (opt_key opts) then Inl (Thrown e)
          else (let w1 = (if needs_query (slots w s) opts then schedule_query isD s opts w else w)
                in Inr (slot_result (slots w1 s) opts, w1))
      | None \<Rightarrow>
          (let w1 = (if needs_query (slots w s) opts then schedule_query isD s opts w else w)
           in Inr (slot_result (slots w1 s) opts, w1)))"

definition dispose_slot :: "('d \<Rightarrow> bool) \<Rightarrow> nat \<Rightarrow> 'd slot_world \<Rightarrow> 'd slot_world" where
  "dispose_slot isD s w =
     (if slot_disposed (slots w s) then w
      else schedule isD s DisposeTask
             (put_slot s ((slots w s)\<lparr>slot_disposed := True, pendingKey := None\<rparr>) (cancel s w)))"

subsection \<open>The tasks, after each await\<close>

text \<open>What a promise rejects with: the symbol \<open>QUERY_CANCELLED\<close>, or anything else, as its message.\<close>

datatype thrown = CancelledSymbol | ErrorValue string

datatype 'd query_outcome = Fulfilled 'd | FulfilledCancelled | Rejected thrown

definition clear_pending :: "slot_key \<Rightarrow> 'd query_slot \<Rightarrow> 'd query_slot" where
  "clear_pending k q =
     (if map_option key_str (pendingKey q) = Some (key_str k) then q\<lparr>pendingKey := None\<rparr> else q)"

text \<open>\<open>finaliseQuery(key, result)\<close>; \<open>None\<close> is \<open>QUERY_CANCELLED\<close>.\<close>

definition finaliseQuery :: "slot_key \<Rightarrow> 'd option \<Rightarrow> 'd query_slot \<Rightarrow> 'd query_slot" where
  "finaliseQuery k r q =
     (let q1 = clear_pending k q in
      case r of
        None \<Rightarrow> q1
      | Some d \<Rightarrow> q1\<lparr>cache := Some \<lparr>ce_key = k, ce_keyStr = key_str k, ce_data = d\<rparr>\<rparr>)"

definition finaliseError :: "slot_key \<Rightarrow> string \<Rightarrow> 'd query_slot \<Rightarrow> 'd query_slot" where
  "finaliseError k e q = clear_pending k (q\<lparr>slot_error := Some (key_str k, e)\<rparr>)"

definition catch_query :: "slot_key \<Rightarrow> thrown \<Rightarrow> 'd query_slot \<Rightarrow> 'd query_slot" where
  "catch_query k e q =
     (case e of CancelledSymbol \<Rightarrow> finaliseQuery k None q | ErrorValue m \<Rightarrow> finaliseError k m q)"

definition set_phase :: "nat \<Rightarrow> phase \<Rightarrow> 'd slot_world \<Rightarrow> 'd slot_world" where
  "set_phase i p w =
     (case inflight w ! i of (s, t, _) \<Rightarrow> w\<lparr>inflight := (inflight w)[i := (s, t, p)]\<rparr>)"

text \<open>
  The end of a query task: the slot is brought up to date, a redraw is asked for, and the task's
  promise settles.
\<close>

definition query_ends ::
  "nat \<Rightarrow> nat \<Rightarrow> ('d query_slot \<Rightarrow> 'd query_slot) \<Rightarrow> 'd slot_world \<Rightarrow> 'd slot_world" where
  "query_ends i s f w = set_phase i Settled (emit Redraw (put_slot s (f (slots w s)) w))"

text \<open>
  \<open>await this.disposeCache()\<close> returns (\<open>None\<close>) or throws. When the cached data was an
  \<open>AsyncDisposable\<close>, the cache is cleared once its disposal has succeeded. Then the query task calls
  \<open>queryFn\<close>; a disposal task is over, and an error of it is logged by \<open>runNext\<close>.
\<close>

definition drop_disposable :: "('d \<Rightarrow> bool) \<Rightarrow> 'd query_slot \<Rightarrow> 'd query_slot" where
  "drop_disposable isD q =
     (case cache q of
        Some c \<Rightarrow> if isD (ce_data c) then q\<lparr>cache := None\<rparr> else q
      | None \<Rightarrow> q)"

definition after_dispose ::
  "('d \<Rightarrow> bool) \<Rightarrow> nat \<Rightarrow> nat \<Rightarrow> task \<Rightarrow> thrown option \<Rightarrow> 'd slot_world \<Rightarrow> 'd slot_world" where
  "after_dispose isD i s t r w =
     (case r of
        None \<Rightarrow>
          (let w1 = put_slot s (drop_disposable isD (slots w s)) w in
           case t of
             QueryTask k q sig \<Rightarrow> set_phase i AwaitQuery (emit (QueryCalled s q sig) w1)
           | DisposeTask \<Rightarrow> set_phase i Settled w1)
      | Some e \<Rightarrow>
          (case t of
             QueryTask k q sig \<Rightarrow> query_ends i s (catch_query k e) w
           | DisposeTask \<Rightarrow> set_phase i Settled (emit ConsoleError w)))"

text \<open>\<open>await queryFn(...)\<close> returns or throws.\<close>

definition after_query ::
  "nat \<Rightarrow> nat \<Rightarrow> slot_key \<Rightarrow> 'd query_outcome \<Rightarrow> 'd slot_world \<Rightarrow> 'd slot_world" where
  "after_query i s k r w =
     (case r of
        Fulfilled d \<Rightarrow> query_ends i s (finaliseQuery k (Some d)) (emit (QueryReturned s k d) w)
      | FulfilledCancelled \<Rightarrow> query_ends i s (finaliseQuery k None) w
      | Rejected e \<Rightarrow> query_ends i s (catch_query k e) w)"

subsection \<open>Events\<close>

text \<open>
  What can happen next: a render calls \<open>use\<close> or a component disposes of its slot; or the promise
  that the \<open>i\<close>-th task in flight waits for settles. A disposal can only fail where there was an
  \<open>AsyncDisposable\<close> to dispose of. An event that is not possible gives \<open>None\<close>; a \<open>use\<close> that throws
  leaves the world as it is.
\<close>

datatype 'd event =
    Use nat query_options
  | Dispose nat
  | DisposeSettles nat "thrown option"
  | QuerySettles nat "'d query_outcome"
  | TaskSettles nat

definition has_disposable :: "('d \<Rightarrow> bool) \<Rightarrow> 'd query_slot \<Rightarrow> bool" where
  "has_disposable isD q \<longleftrightarrow> (case cache q of Some c \<Rightarrow> isD (ce_data c) | None \<Rightarrow> False)"

fun slot_step :: "('d \<Rightarrow> bool) \<Rightarrow> 'd event \<Rightarrow> 'd slot_world \<Rightarrow> 'd slot_world option" where
  "slot_step isD (Use s opts) w =
     (case use_slot isD s opts w of Inl _ \<Rightarrow> Some w | Inr (_, w') \<Rightarrow> Some w')"
| "slot_step isD (Dispose s) w = Some (dispose_slot isD s w)"
| "slot_step isD (DisposeSettles i r) w =
     (case nth_opt (inflight w) i of
        Some (s, t, AwaitDispose) \<Rightarrow>
          if r = None \<or> has_disposable isD (slots w s) then Some (after_dispose isD i s t r w) else None
      | _ \<Rightarrow> None)"
| "slot_step isD (QuerySettles i r) w =
     (case nth_opt (inflight w) i of
        Some (s, QueryTask k q sig, AwaitQuery) \<Rightarrow> Some (after_query i s k r w)
      | _ \<Rightarrow> None)"
| "slot_step isD (TaskSettles i) w =
     (case nth_opt (inflight w) i of
        Some (s, t, Settled) \<Rightarrow> Some (task_done isD i w)
      | _ \<Rightarrow> None)"

fun slot_run :: "('d \<Rightarrow> bool) \<Rightarrow> 'd event list \<Rightarrow> 'd slot_world \<Rightarrow> 'd slot_world option" where
  "slot_run isD [] w = Some w"
| "slot_run isD (e # es) w =
     (case slot_step isD e w of None \<Rightarrow> None | Some w' \<Rightarrow> slot_run isD es w')"

end
