(* ===== verification/Query_Slot_Correct.thy ===== *)
theory Query_Slot_Correct
  imports Query_Slot "HOL-Library.Multiset"
begin

text \<open>
  Correctness of the query slots: the invariant of the serial queue, what a fresh result is, the
  accounting of disposable results, the bound after which a steadily used key is fresh, and the
  sequence of renders under which a slot never gets there.
\<close>

named_theorems slot_simps \<open>what each operation of a slot does to each part of the world\<close>

subsection \<open>What the operations touch\<close>

lemma put_slot_simps [slot_simps, simp]:
  "slots (put_slot s q w) s' = (if s' = s then q else slots w s')"
  "pending (put_slot s q w) = pending w" "running (put_slot s q w) = running w"
  "inflight (put_slot s q w) = inflight w" "signals (put_slot s q w) = signals w"
  "effects (put_slot s q w) = effects w"
  by (simp_all add: put_slot_def)

lemma emit_simps [slot_simps, simp]:
  "slots (emit e w) = slots w" "pending (emit e w) = pending w" "running (emit e w) = running w"
  "inflight (emit e w) = inflight w" "signals (emit e w) = signals w"
  "effects (emit e w) = effects w @ [e]"
  by (simp_all add: emit_def)

lemma dispose_call_simps [slot_simps, simp]:
  "slots (dispose_call isD s w) = slots w" "pending (dispose_call isD s w) = pending w"
  "running (dispose_call isD s w) = running w" "inflight (dispose_call isD s w) = inflight w"
  "signals (dispose_call isD s w) = signals w"
  by (simp_all add: dispose_call_def split: option.split)

lemma start_task_simps [slot_simps, simp]:
  "slots (start_task isD s t w) = slots w" "pending (start_task isD s t w) = pending w"
  "running (start_task isD s t w) = running w"
  "inflight (start_task isD s t w) = inflight w @ [(s, t, AwaitDispose)]"
  "signals (start_task isD s t w) = signals w"
  by (simp_all add: start_task_def)

lemma runNext_simps [slot_simps, simp]:
  "slots (runNext isD w) = slots w" "signals (runNext isD w) = signals w"
  by (auto simp: runNext_def split: list.split)

lemma runNext_running [slot_simps, simp]: "running w \<Longrightarrow> runNext isD w = w"
  by (simp add: runNext_def)

lemma schedule_simps [slot_simps, simp]:
  "slots (schedule isD s t w) = slots w" "signals (schedule isD s t w) = signals w"
  by (simp_all add: schedule_def)

lemma cancel_simps [slot_simps, simp]:
  "slots (cancel s w) = slots w" "pending (cancel s w) = map_delete s (pending w)"
  "running (cancel s w) = running w" "inflight (cancel s w) = inflight w"
  "signals (cancel s w) = signals w" "effects (cancel s w) = effects w"
  by (simp_all add: cancel_def)

lemma set_phase_simps [slot_simps, simp]:
  "slots (set_phase i p w) = slots w" "pending (set_phase i p w) = pending w"
  "running (set_phase i p w) = running w" "signals (set_phase i p w) = signals w"
  "effects (set_phase i p w) = effects w"
  "length (inflight (set_phase i p w)) = length (inflight w)"
  by (simp_all add: set_phase_def split: prod.split)

lemma set_phase_single:
  "inflight w = [(s, t, p0)] \<Longrightarrow> inflight (set_phase 0 p w) = [(s, t, p)]"
  by (simp add: set_phase_def)

lemma clear_pending_simps [slot_simps, simp]:
  "cache (clear_pending k q) = cache q" "slot_disposed (clear_pending k q) = slot_disposed q"
  "slot_error (clear_pending k q) = slot_error q"
  "currentSignal (clear_pending k q) = currentSignal q"
  by (simp_all add: clear_pending_def)

lemma finaliseQuery_simps [slot_simps, simp]:
  "cache (finaliseQuery k None q) = cache q"
  "cache (finaliseQuery k (Some d) q) = Some \<lparr>ce_key = k, ce_keyStr = key_str k, ce_data = d\<rparr>"
  "slot_disposed (finaliseQuery k r q) = slot_disposed q"
  "slot_error (finaliseQuery k r q) = slot_error q"
  "pendingKey (finaliseQuery k r q) = pendingKey (clear_pending k q)"
  by (simp_all add: finaliseQuery_def Let_def split: option.split)

lemma finaliseError_simps [slot_simps, simp]:
  "cache (finaliseError k e q) = cache q"
  "slot_disposed (finaliseError k e q) = slot_disposed q"
  "slot_error (finaliseError k e q) = Some (key_str k, e)"
  by (simp_all add: finaliseError_def)

lemma catch_query_simps [slot_simps, simp]:
  "cache (catch_query k e q) = cache q" "slot_disposed (catch_query k e q) = slot_disposed q"
  by (simp_all add: catch_query_def split: thrown.split)

lemma drop_disposable_simps [slot_simps, simp]:
  "slot_disposed (drop_disposable isD q) = slot_disposed q"
  "pendingKey (drop_disposable isD q) = pendingKey q"
  "slot_error (drop_disposable isD q) = slot_error q"
  by (simp_all add: drop_disposable_def split: option.split)

lemma query_ends_simps [slot_simps, simp]:
  "slots (query_ends i s f w) s' = (if s' = s then f (slots w s) else slots w s')"
  "pending (query_ends i s f w) = pending w" "running (query_ends i s f w) = running w"
  "signals (query_ends i s f w) = signals w" "effects (query_ends i s f w) = effects w @ [Redraw]"
  by (simp_all add: query_ends_def)

lemma query_ends_single:
  "inflight w = [(s', t, p0)] \<Longrightarrow> inflight (query_ends 0 s f w) = [(s', t, Settled)]"
  by (simp add: query_ends_def set_phase_def)

lemma nth_opt_single [simp]:
  "nth_opt [a] i = (if i = 0 then Some a else None)"
  "nth_opt [] i = None"
  by (simp_all add: nth_opt_def)

subsection \<open>The map of pending tasks\<close>

lemma map_set_keys: "fst ` set (map_set k v m) = insert k (fst ` set m)"
proof (induction m)
  case (Cons p m)
  then show ?case by (cases p) (simp add: insert_commute)
qed simp

lemma map_set_distinct: "distinct (map fst m) \<Longrightarrow> distinct (map fst (map_set k v m))"
proof (induction m)
  case (Cons p m)
  then show ?case by (cases p) (auto simp: map_set_keys)
qed simp

lemma map_set_new: "k \<notin> fst ` set m \<Longrightarrow> map_set k v m = m @ [(k, v)]"
  by (induction m) auto

lemma map_delete_distinct: "distinct (map fst m) \<Longrightarrow> distinct (map fst (map_delete k m))"
  by (induction m) (auto simp: map_delete_def)

lemma map_delete_absent: "k \<notin> fst ` set m \<Longrightarrow> map_delete k m = m"
  by (induction m) (auto simp: map_delete_def)

lemma map_delete_Cons [simp]:
  "distinct (map fst ((k, v) # m)) \<Longrightarrow> map_delete k ((k, v) # m) = m"
  using map_delete_absent [of k m] by (simp add: map_delete_def)

lemma map_delete_keys: "fst ` set (map_delete k m) = fst ` set m - {k}"
  by (auto simp: map_delete_def)

lemma map_of_map_set: "map_of (map_set k v m) = (map_of m)(k \<mapsto> v)"
  by (induction m) (auto simp: fun_eq_iff)

lemma map_of_map_delete: "map_of (map_delete k m) = (map_of m)(k := None)"
  by (induction m) (auto simp: map_delete_def fun_eq_iff)

subsection \<open>The invariant of the queue\<close>

definition queue_idle :: "'d slot_world \<Rightarrow> bool" where
  "queue_idle w \<longleftrightarrow> \<not> running w \<and> inflight w = [] \<and> pending w = []"

definition busy :: "nat \<Rightarrow> task \<Rightarrow> phase \<Rightarrow> 'd slot_world \<Rightarrow> bool" where
  "busy s t p w \<longleftrightarrow> running w \<and> inflight w = [(s, t, p)] \<and> distinct (map fst (pending w))"

definition task_queue_inv :: "'d slot_world \<Rightarrow> bool" where
  "task_queue_inv w \<longleftrightarrow> queue_idle w \<or> (\<exists>s t p. busy s t p w)"

lemma task_queue_invE:
  assumes "task_queue_inv w"
  obtains "queue_idle w" | s t p where "busy s t p w"
  using assms by (auto simp: task_queue_inv_def)

lemma queue_idle_init: "queue_idle init_world"
  by (simp add: queue_idle_def init_world_def)

lemma runNext_started:
  assumes "\<not> running w" and "inflight w = []" and "pending w = (s, t) # ps"
    and "distinct (map fst (pending w))"
  shows "busy s t AwaitDispose (runNext isD w)" and "pending (runNext isD w) = ps"
  using assms by (simp_all add: runNext_def busy_def)

lemma runNext_inv:
  assumes "\<not> running w" and "inflight w = []" and "distinct (map fst (pending w))"
  shows "task_queue_inv (runNext isD w)"
proof (cases "pending w")
  case Nil
  then show ?thesis using assms by (simp add: runNext_def task_queue_inv_def queue_idle_def)
next
  case (Cons p ps)
  then show ?thesis
    using runNext_started [of w "fst p" "snd p" ps isD] assms by (auto simp: task_queue_inv_def)
qed

lemma schedule_busy:
  "busy s' t' p w \<Longrightarrow> busy s' t' p (schedule isD s t w)"
  "busy s' t' p w \<Longrightarrow> pending (schedule isD s t w) = map_set s t (pending w)"
  "busy s' t' p w \<Longrightarrow> effects (schedule isD s t w) = effects w"
  by (simp_all add: busy_def schedule_def map_set_distinct)

lemma schedule_idle:
  assumes "queue_idle w"
  shows "busy s t AwaitDispose (schedule isD s t w)" and "pending (schedule isD s t w) = []"
proof -
  let ?w = "w\<lparr>pending := map_set s t (pending w)\<rparr>"
  have w: "\<not> running ?w" "inflight ?w = []" "pending ?w = [(s, t)]" "distinct (map fst (pending ?w))"
    using assms by (simp_all add: queue_idle_def)
  show "busy s t AwaitDispose (schedule isD s t w)" "pending (schedule isD s t w) = []"
    using runNext_started [OF w] by (simp_all add: schedule_def)
qed

lemma schedule_inv: "task_queue_inv w \<Longrightarrow> task_queue_inv (schedule isD s t w)"
  using schedule_busy(1) schedule_idle(1) by (fastforce simp: task_queue_inv_def)

lemma put_slot_busy [simp]: "busy s t p (put_slot s' q w) \<longleftrightarrow> busy s t p w"
  by (simp add: busy_def)

lemma put_slot_idle [simp]: "queue_idle (put_slot s' q w) \<longleftrightarrow> queue_idle w"
  by (simp add: queue_idle_def)

lemma put_slot_inv [simp]: "task_queue_inv (put_slot s' q w) \<longleftrightarrow> task_queue_inv w"
  by (simp add: task_queue_inv_def)

lemma signals_busy [simp]: "busy s t p (w\<lparr>signals := g\<rparr>) \<longleftrightarrow> busy s t p w"
  by (simp add: busy_def)

lemma signals_idle [simp]: "queue_idle (w\<lparr>signals := g\<rparr>) \<longleftrightarrow> queue_idle w"
  by (simp add: queue_idle_def)

lemma signals_inv [simp]: "task_queue_inv (w\<lparr>signals := g\<rparr>) \<longleftrightarrow> task_queue_inv w"
  by (simp add: task_queue_inv_def)

lemma cancel_busy: "busy s t p w \<Longrightarrow> busy s t p (cancel s' w)"
  by (simp add: busy_def map_delete_distinct)

lemma cancel_idle: "queue_idle w \<Longrightarrow> queue_idle (cancel s w)"
  by (simp add: queue_idle_def map_delete_def)

lemma cancel_inv: "task_queue_inv w \<Longrightarrow> task_queue_inv (cancel s w)"
  using cancel_busy cancel_idle by (fastforce simp: task_queue_inv_def)

lemma schedule_query_inv: "task_queue_inv w \<Longrightarrow> task_queue_inv (schedule_query isD s opts w)"
  by (simp add: schedule_query_def Let_def schedule_inv)

lemma dispose_slot_inv: "task_queue_inv w \<Longrightarrow> task_queue_inv (dispose_slot isD s w)"
  by (simp add: dispose_slot_def schedule_inv cancel_inv)

text \<open>What \<open>use()\<close> does to the world when it does not throw.\<close>

lemma use_slot_cases:
  assumes "use_slot isD s opts w = Inr (r, w')"
  obtains "\<not> needs_query (slots w s) opts" "w' = w"
  | "needs_query (slots w s) opts" "w' = schedule_query isD s opts w"
  using assms
  by (cases "needs_query (slots w s) opts")
    (auto simp: use_slot_def Let_def split: if_splits option.splits prod.splits)

lemma use_slot_result:
  "use_slot isD s opts w = Inr (r, w') \<Longrightarrow> r = slot_result (slots w' s) opts \<and> \<not> slot_disposed (slots w s)"
  by (auto simp: use_slot_def Let_def split: if_splits option.splits prod.splits)

lemma use_step_cases:
  assumes "slot_step isD (Use s opts) w = Some w'"
  obtains "w' = w" | r where "use_slot isD s opts w = Inr (r, w')" "needs_query (slots w s) opts"
    "w' = schedule_query isD s opts w"
  using assms
  by (auto split: sum.splits prod.splits elim: use_slot_cases)

text \<open>The events that settle a promise, on a queue that satisfies the invariant.\<close>

lemma dispose_settles_cases:
  assumes "slot_step isD (DisposeSettles i r) w = Some w'" and "task_queue_inv w"
  obtains s t where "i = 0" "busy s t AwaitDispose w" "r = None \<or> has_disposable isD (slots w s)"
    "w' = after_dispose isD 0 s t r w"
  using assms(2)
proof (cases rule: task_queue_invE)
  case 1
  then show ?thesis using assms by (simp add: queue_idle_def)
next
  case (2 s t p)
  then show ?thesis using assms that
    by (auto simp: busy_def split: if_splits phase.splits)
qed

lemma query_settles_cases:
  assumes "slot_step isD (QuerySettles i r) w = Some w'" and "task_queue_inv w"
  obtains s k q sig where "i = 0" "busy s (QueryTask k q sig) AwaitQuery w" "w' = after_query 0 s k r w"
  using assms(2)
proof (cases rule: task_queue_invE)
  case 1
  then show ?thesis using assms by (simp add: queue_idle_def)
next
  case (2 s t p)
  then show ?thesis using assms that
    by (auto simp: busy_def split: if_splits phase.splits task.splits)
qed

lemma task_settles_cases:
  assumes "slot_step isD (TaskSettles i) w = Some w'" and "task_queue_inv w"
  obtains s t where "i = 0" "busy s t Settled w" "w' = runNext isD (w\<lparr>running := False, inflight := []\<rparr>)"
  using assms(2)
proof (cases rule: task_queue_invE)
  case 1
  then show ?thesis using assms by (simp add: queue_idle_def)
next
  case (2 s t p)
  then show ?thesis using assms that
    by (auto simp: busy_def task_done_def split: if_splits phase.splits)
qed

lemma after_dispose_busy:
  assumes "busy s t AwaitDispose w"
  shows "busy s t (if r = None \<and> t \<noteq> DisposeTask then AwaitQuery else Settled)
           (after_dispose isD 0 s t r w)"
  using assms
  by (auto simp: busy_def after_dispose_def Let_def query_ends_def set_phase_def
      split: option.split task.split)

lemma after_query_busy:
  assumes "busy s t p w"
  shows "busy s t Settled (after_query 0 s k r w)"
  using assms
  by (auto simp: busy_def after_query_def query_ends_def set_phase_def split: query_outcome.split)

lemma slot_step_inv:
  assumes "slot_step isD e w = Some w'" and "task_queue_inv w"
  shows "task_queue_inv w'"
proof (cases e)
  case (Use s opts)
  show ?thesis using assms unfolding Use
    by (elim use_step_cases) (simp_all add: schedule_query_inv)
next
  case (Dispose s)
  then show ?thesis using assms by (auto simp: dispose_slot_inv)
next
  case (DisposeSettles i r)
  from assms obtain s t where "busy s t AwaitDispose w" and "w' = after_dispose isD 0 s t r w"
    unfolding DisposeSettles by (rule dispose_settles_cases)
  then show ?thesis using after_dispose_busy unfolding task_queue_inv_def by blast
next
  case (QuerySettles i r)
  from assms obtain s k q sig where "busy s (QueryTask k q sig) AwaitQuery w" and "w' = after_query 0 s k r w"
    unfolding QuerySettles by (rule query_settles_cases)
  then show ?thesis using after_query_busy unfolding task_queue_inv_def by blast
next
  case (TaskSettles i)
  from assms obtain s t where "busy s t Settled w" and "w' = runNext isD (w\<lparr>running := False, inflight := []\<rparr>)"
    unfolding TaskSettles by (rule task_settles_cases)
  then show ?thesis by (simp add: busy_def runNext_inv)
qed

lemma slot_run_append:
  "slot_run isD (es @ fs) w = (case slot_run isD es w of None \<Rightarrow> None | Some w' \<Rightarrow> slot_run isD fs w')"
  by (induction es arbitrary: w) (auto split: option.split)

lemma slot_run_snocE:
  assumes "slot_run isD (es @ [e]) w = Some w'"
  obtains w1 where "slot_run isD es w = Some w1" "slot_step isD e w1 = Some w'"
  using assms by (auto simp: slot_run_append split: option.splits)

lemma slot_run_inv: "slot_run isD es w = Some w' \<Longrightarrow> task_queue_inv w \<Longrightarrow> task_queue_inv w'"
  by (induction es arbitrary: w) (auto split: option.splits intro: slot_step_inv)

subsection \<open>What a slot has been given and has disposed of\<close>

text \<open>
  The results that the queries of slot \<open>s\<close> returned, with their keys, and the data of it whose
  \<open>Symbol.asyncDispose\<close> was called, in the order of the effects.
\<close>

fun returned :: "nat \<Rightarrow> 'd effect list \<Rightarrow> (slot_key \<times> 'd) list" where
  "returned s [] = []"
| "returned s (e # es) =
     (case e of QueryReturned s' k d \<Rightarrow> (if s' = s then [(k, d)] else []) | _ \<Rightarrow> []) @ returned s es"

fun disposals :: "nat \<Rightarrow> 'd effect list \<Rightarrow> 'd list" where
  "disposals s [] = []"
| "disposals s (e # es) =
     (case e of AsyncDisposeCalled s' d \<Rightarrow> (if s' = s then [d] else []) | _ \<Rightarrow> []) @ disposals s es"

lemma returned_append [simp]: "returned s (es @ fs) = returned s es @ returned s fs"
  by (induction es) auto

lemma disposals_append [simp]: "disposals s (es @ fs) = disposals s es @ disposals s fs"
  by (induction es) auto

definition cache_data :: "('d \<Rightarrow> bool) \<Rightarrow> 'd query_slot \<Rightarrow> 'd multiset" where
  "cache_data isD q =
     (case cache q of Some c \<Rightarrow> if isD (ce_data c) then {#ce_data c#} else {#} | None \<Rightarrow> {#})"

lemma cache_data_cong: "cache q = cache q' \<Longrightarrow> cache_data isD q = cache_data isD q'"
  by (simp add: cache_data_def)

lemma cache_data_simps [simp]:
  "cache_data isD (finaliseQuery k None q) = cache_data isD q"
  "cache_data isD (finaliseQuery k (Some d) q) = (if isD d then {#d#} else {#})"
  "cache_data isD (catch_query k e q) = cache_data isD q"
  "cache_data isD (drop_disposable isD q) = {#}"
  by (auto simp: cache_data_def drop_disposable_def split: option.split)

lemma cache_data_update [simp]:
  "cache_data isD (q\<lparr>pendingKey := a\<rparr>) = cache_data isD q"
  "cache_data isD (q\<lparr>slot_disposed := b\<rparr>) = cache_data isD q"
  "cache_data isD (q\<lparr>currentSignal := c\<rparr>) = cache_data isD q"
  by (simp_all add: cache_data_def)

lemma dispose_call_effects:
  "returned s' (effects (dispose_call isD s w)) = returned s' (effects w)"
  "mset (disposals s' (effects (dispose_call isD s w))) =
     mset (disposals s' (effects w)) + (if s' = s then cache_data isD (slots w s) else {#})"
  by (simp_all add: dispose_call_def cache_data_def split: option.split)

lemma runNext_returned [simp]: "returned s (effects (runNext isD w)) = returned s (effects w)"
  by (auto simp: runNext_def start_task_def dispose_call_effects split: list.split)

lemma schedule_returned [simp]: "returned s (effects (schedule isD s' t w)) = returned s (effects w)"
  by (simp add: schedule_def)

subsection \<open>A fresh result is the latest one, for that key\<close>

definition fresh_inv :: "nat \<Rightarrow> 'd slot_world \<Rightarrow> bool" where
  "fresh_inv s w \<longleftrightarrow>
     (\<forall>c. cache (slots w s) = Some c \<longrightarrow>
        ce_keyStr c = key_str (ce_key c) \<and>
        returned s (effects w) \<noteq> [] \<and> last (returned s (effects w)) = (ce_key c, ce_data c))"

lemma fresh_inv_frame:
  assumes "fresh_inv s w" and "cache (slots w' s) = cache (slots w s) \<or> cache (slots w' s) = None"
    and "returned s (effects w') = returned s (effects w)"
  shows "fresh_inv s w'"
  using assms by (auto simp: fresh_inv_def)

lemma schedule_query_cache [simp]:
  "cache (slots (schedule_query isD s opts w) s') = cache (slots w s')"
  "returned s' (effects (schedule_query isD s opts w)) = returned s' (effects w)"
  by (simp_all add: schedule_query_def Let_def)

lemma dispose_slot_cache [simp]:
  "cache (slots (dispose_slot isD s w) s') = cache (slots w s')"
  "returned s' (effects (dispose_slot isD s w)) = returned s' (effects w)"
  by (simp_all add: dispose_slot_def)

lemma after_dispose_cache:
  "cache (slots (after_dispose isD i s t r w) s') = cache (slots w s') \<or>
   cache (slots (after_dispose isD i s t r w) s') = None"
  "returned s' (effects (after_dispose isD i s t r w)) = returned s' (effects w)"
  by (auto simp: after_dispose_def Let_def drop_disposable_def split: option.split task.split)

lemma slot_step_fresh:
  assumes step: "slot_step isD e w = Some w'" and q: "task_queue_inv w" and inv: "fresh_inv s w"
  shows "fresh_inv s w'"
proof (cases e)
  case (Use s' opts)
  from step show ?thesis unfolding Use
    by (rule use_step_cases) (use inv in \<open>auto intro: fresh_inv_frame\<close>)
next
  case (Dispose s')
  with step inv show ?thesis by (auto intro: fresh_inv_frame)
next
  case (DisposeSettles i r)
  from step q obtain s' t where "w' = after_dispose isD 0 s' t r w"
    unfolding DisposeSettles by (rule dispose_settles_cases)
  then show ?thesis using fresh_inv_frame [OF inv] after_dispose_cache by metis
next
  case (QuerySettles i r)
  from step q obtain s' k qf sig where w': "w' = after_query 0 s' k r w"
    unfolding QuerySettles by (rule query_settles_cases)
  show ?thesis
  proof (cases "\<exists>d. r = Fulfilled d \<and> s' = s")
    case True
    then show ?thesis by (auto simp: w' after_query_def fresh_inv_def)
  next
    case False
    then show ?thesis
      by (intro fresh_inv_frame [OF inv]) (auto simp: w' after_query_def split: query_outcome.split)
  qed
next
  case (TaskSettles i)
  from step q obtain s' t where "w' = runNext isD (w\<lparr>running := False, inflight := []\<rparr>)"
    unfolding TaskSettles by (rule task_settles_cases)
  then show ?thesis using inv by (auto intro: fresh_inv_frame)
qed

lemma fresh_inv_init: "fresh_inv s init_world"
  by (simp add: fresh_inv_def init_world_def new_slot_def)

lemma slot_run_invs:
  assumes "slot_run isD es init_world = Some w"
  shows "task_queue_inv w" and "fresh_inv s w"
proof -
  have "slot_run isD es w0 = Some w \<Longrightarrow> task_queue_inv w0 \<Longrightarrow> fresh_inv s w0 \<Longrightarrow> fresh_inv s w" for w0
    by (induction es arbitrary: w0) (auto split: option.splits intro: slot_step_inv slot_step_fresh)
  moreover have "task_queue_inv init_world" by (simp add: task_queue_inv_def queue_idle_init)
  ultimately show "task_queue_inv w" "fresh_inv s w"
    using assms slot_run_inv fresh_inv_init by blast+
qed

subsection \<open>Accounting of the disposable results\<close>

definition held :: "('d \<Rightarrow> bool) \<Rightarrow> nat \<Rightarrow> 'd slot_world \<Rightarrow> 'd multiset" where
  "held isD s w =
     (if (case inflight w of (s', _, AwaitDispose) # _ \<Rightarrow> s' = s | _ \<Rightarrow> False) then {#}
      else cache_data isD (slots w s))"

definition disposed_or_held :: "('d \<Rightarrow> bool) \<Rightarrow> nat \<Rightarrow> 'd slot_world \<Rightarrow> 'd multiset" where
  "disposed_or_held isD s w = mset (disposals s (effects w)) + held isD s w"

definition produced :: "('d \<Rightarrow> bool) \<Rightarrow> nat \<Rightarrow> 'd slot_world \<Rightarrow> 'd multiset" where
  "produced isD s w = filter_mset isD (mset (map snd (returned s (effects w))))"

lemma runNext_disposed_or_held:
  assumes "\<not> running w" and "inflight w = []"
  shows "disposed_or_held isD s (runNext isD w) = disposed_or_held isD s w"
  using assms
  by (auto simp: disposed_or_held_def held_def runNext_def start_task_def dispose_call_effects
      split: list.split)

lemma disposed_or_held_frame:
  assumes "cache (slots w' s) = cache (slots w s)" and "effects w' = effects w" and "inflight w' = inflight w"
  shows "disposed_or_held isD s w' = disposed_or_held isD s w"
  using assms cache_data_cong [of "slots w' s" "slots w s" isD]
  by (simp add: disposed_or_held_def held_def)

lemma schedule_disposed_or_held:
  assumes "task_queue_inv w"
  shows "disposed_or_held isD s (schedule isD s' t w) = disposed_or_held isD s w"
proof -
  let ?w = "w\<lparr>pending := map_set s' t (pending w)\<rparr>"
  have w: "disposed_or_held isD s ?w = disposed_or_held isD s w"
    by (rule disposed_or_held_frame) simp_all
  from assms show ?thesis
  proof (cases rule: task_queue_invE)
    case 1
    then show ?thesis
      using w runNext_disposed_or_held [of ?w] by (simp add: schedule_def queue_idle_def)
  next
    case 2
    then show ?thesis using w by (simp add: schedule_def busy_def)
  qed
qed

text \<open>
  Where a slot stands with respect to its end: not disposed of; its disposal task is pending, or in
  flight; or that task is over, and no query of the slot is left to put anything into the cache.
\<close>

definition unfinished :: "nat \<Rightarrow> 'd slot_world \<Rightarrow> bool" where
  "unfinished s w \<longleftrightarrow>
     s \<in> fst ` set (pending w) \<or>
     (case inflight w of (s', QueryTask _ _ _, p) # _ \<Rightarrow> s' = s \<and> p \<noteq> Settled | _ \<Rightarrow> False)"

definition closing :: "('d \<Rightarrow> bool) \<Rightarrow> nat \<Rightarrow> 'd multiset \<Rightarrow> 'd slot_world \<Rightarrow> bool" where
  "closing isD s f w \<longleftrightarrow>
     (slot_disposed (slots w s) \<longrightarrow>
        map_of (pending w) s = Some DisposeTask \<or>
        (inflight w = [(s, DisposeTask, AwaitDispose)] \<and> \<not> unfinished s w) \<or>
        (\<not> unfinished s w \<and> (f = {#} \<longrightarrow> cache_data isD (slots w s) = {#})))"

definition slot_acct :: "('d \<Rightarrow> bool) \<Rightarrow> nat \<Rightarrow> 'd multiset \<Rightarrow> 'd slot_world \<Rightarrow> bool" where
  "slot_acct isD s f w \<longleftrightarrow>
     task_queue_inv w \<and>
     disposed_or_held isD s w = produced isD s w + f \<and>
     (\<forall>t. inflight w = [(s, t, AwaitQuery)] \<longrightarrow> cache_data isD (slots w s) = {#})"

text \<open>The resumption of the queue and the scheduling of a task keep the account.\<close>

lemma runNext_closing:
  assumes "\<not> running w" and "inflight w = []" and "distinct (map fst (pending w))"
    and "closing isD s f w"
  shows "closing isD s f (runNext isD w)"
proof (cases "pending w")
  case Nil
  then show ?thesis using assms by (simp add: runNext_def)
next
  case (Cons p ps)
  obtain s0 t0 where p: "p = (s0, t0)" by force
  have r: "pending (runNext isD w) = ps" "inflight (runNext isD w) = [(s0, t0, AwaitDispose)]"
    using runNext_started [of w s0 t0 ps isD] Cons p assms by (simp_all add: busy_def)
  show ?thesis
    using assms(3, 4) Cons p
    by (auto simp: closing_def unfinished_def r assms(2) split: if_splits task.split)
qed

lemma runNext_acct:
  assumes "\<not> running w" and "inflight w = []" and "distinct (map fst (pending w))"
    and "disposed_or_held isD s w = produced isD s w + f"
  shows "slot_acct isD s f (runNext isD w)"
proof -
  have "inflight (runNext isD w) \<noteq> [(s, t, AwaitQuery)]" for t
    using assms(2) by (auto simp: runNext_def split: list.split)
  then show ?thesis
    using runNext_inv [OF assms(1-3)] runNext_disposed_or_held [OF assms(1,2)]
      assms(4)
    by (simp add: slot_acct_def produced_def)
qed

text \<open>Scheduling: the entry of the pending map is written, and if the queue was idle the task starts.\<close>

lemma schedule_acct:
  assumes inv: "slot_acct isD s f w"
    and cl: "closing isD s f (w\<lparr>pending := map_set s' t (pending w)\<rparr>)"
  shows "slot_acct isD s f (schedule isD s' t w) \<and> closing isD s f (schedule isD s' t w)"
proof -
  let ?w = "w\<lparr>pending := map_set s' t (pending w)\<rparr>"
  have d: "disposed_or_held isD s ?w = produced isD s ?w + f"
    using inv disposed_or_held_frame [of ?w s w isD] by (simp add: slot_acct_def produced_def)
  from inv have "task_queue_inv w" by (simp add: slot_acct_def)
  then show ?thesis
  proof (cases rule: task_queue_invE)
    case 1
    then show ?thesis
      using runNext_acct [of ?w isD s f] runNext_closing [of ?w isD s f] d cl
      by (simp add: schedule_def queue_idle_def)
  next
    case (2 s0 t0 p0)
    then have "task_queue_inv ?w" by (auto simp: task_queue_inv_def busy_def map_set_distinct)
    moreover have "schedule isD s' t w = ?w" using 2 by (simp add: schedule_def busy_def)
    ultimately show ?thesis using inv d cl by (simp add: slot_acct_def)
  qed
qed

lemma slot_acct_frame:
  assumes "slot_acct isD s f w" and "task_queue_inv w'" and "cache (slots w' s) = cache (slots w s)"
    and "effects w' = effects w" and "inflight w' = inflight w"
  shows "slot_acct isD s f w'"
  using assms disposed_or_held_frame [of w' s w isD] cache_data_cong [of "slots w' s" "slots w s" isD]
  by (simp add: slot_acct_def produced_def)

lemma use_acct:
  assumes "slot_acct isD s f w" and "closing isD s f w" and "\<not> slot_disposed (slots w s')"
  shows "slot_acct isD s f (schedule_query isD s' opts w) \<and> closing isD s f (schedule_query isD s' opts w)"
  unfolding schedule_query_def Let_def
proof (rule schedule_acct, goal_cases)
  case 1
  show ?case
    by (rule slot_acct_frame [OF assms(1)]) (use assms in \<open>simp_all add: slot_acct_def\<close>)
next
  case 2
  show ?case
    using assms(2,3) by (auto simp: closing_def unfinished_def map_of_map_set map_set_keys)
qed

lemma dispose_acct:
  assumes "slot_acct isD s f w" and "closing isD s f w"
  shows "slot_acct isD s f (dispose_slot isD s' w) \<and> closing isD s f (dispose_slot isD s' w)"
proof (cases "slot_disposed (slots w s')")
  case True
  then show ?thesis using assms by (simp add: dispose_slot_def)
next
  case False
  have "slot_acct isD s f (schedule isD s' DisposeTask w1) \<and> closing isD s f (schedule isD s' DisposeTask w1)"
    if w1: "w1 = put_slot s' ((slots w s')\<lparr>slot_disposed := True, pendingKey := None\<rparr>) (cancel s' w)" for w1
  proof (rule schedule_acct, goal_cases)
    case 1
    show ?case
      by (rule slot_acct_frame [OF assms(1)]) (use assms in \<open>simp_all add: w1 slot_acct_def cancel_inv\<close>)
  next
    case 2
    show ?case
      using assms(2)
      by (auto simp: w1 closing_def unfinished_def map_of_map_set map_set_keys map_of_map_delete
          map_delete_keys)
  qed
  then show ?thesis using False by (simp add: dispose_slot_def)
qed

text \<open>A settled promise; only a disposal that fails moves the account.\<close>

lemma dispose_settles_acct:
  assumes acct: "slot_acct isD s f w" and cl: "closing isD s f w"
    and busy: "busy s0 t AwaitDispose w" and r: "r = None \<or> has_disposable isD (slots w s0)"
  defines "w' \<equiv> after_dispose isD 0 s0 t r w"
  defines "f' \<equiv> (if r = None \<or> s0 \<noteq> s then f else f + cache_data isD (slots w s))"
  shows "slot_acct isD s f' w' \<and> closing isD s f' w'"
proof -
  have q: "task_queue_inv w'"
    using after_dispose_busy [OF busy] unfolding task_queue_inv_def w'_def by blast
  have infl: "inflight w = [(s0, t, AwaitDispose)]" using busy by (simp add: busy_def)
  obtain p' where infl': "inflight w' = [(s0, t, p')]"
    and p': "p' = (if r = None \<and> t \<noteq> DisposeTask then AwaitQuery else Settled)"
    using after_dispose_busy [OF busy, of r isD] by (simp add: busy_def w'_def)
  have eff: "returned s (effects w') = returned s (effects w)" "disposals s (effects w') = disposals s (effects w)"
    "pending w' = pending w" "slot_disposed (slots w' s) = slot_disposed (slots w s)"
    by (auto simp: w'_def after_dispose_def Let_def split: option.split task.split)
  have cd: "cache_data isD (slots w' s) = (if r = None \<and> s0 = s then {#} else cache_data isD (slots w s))"
    by (auto simp: w'_def after_dispose_def Let_def split: option.split task.split)
  have ne: "f' \<noteq> {#}" if "r \<noteq> None" "s0 = s"
    using r that by (auto simp: f'_def has_disposable_def cache_data_def split: option.splits)
  have "slot_acct isD s f' w'"
    using acct
    by (auto simp: slot_acct_def q disposed_or_held_def held_def produced_def infl infl' p' eff cd f'_def)
  moreover have "closing isD s f' w'"
    using cl ne
    by (auto simp: closing_def unfinished_def infl infl' p' eff cd f'_def split: task.splits)
  ultimately show ?thesis by blast
qed

lemma query_settles_acct:
  fixes r :: "'d query_outcome" and w :: "'d slot_world"
  assumes acct: "slot_acct isD s f w" and cl: "closing isD s f w"
    and busy: "busy s0 (QueryTask k q sig) AwaitQuery w"
  defines "w' \<equiv> after_query 0 s0 k r w"
  shows "slot_acct isD s f w' \<and> closing isD s f w'"
proof -
  have qi: "task_queue_inv w'"
    using after_query_busy [OF busy] unfolding task_queue_inv_def w'_def by blast
  have infl: "inflight w = [(s0, QueryTask k q sig, AwaitQuery)]" using busy by (simp add: busy_def)
  have infl': "inflight w' = [(s0, QueryTask k q sig, Settled)]"
    using after_query_busy [OF busy, of k r] by (simp add: busy_def w'_def)
  have eff: "disposals s (effects w') = disposals s (effects w)"
    "pending w' = pending w" "slot_disposed (slots w' s) = slot_disposed (slots w s)"
    by (auto simp: w'_def after_query_def split: query_outcome.split)
  have "slot_acct isD s f w'"
    using acct
    by (auto simp: slot_acct_def qi disposed_or_held_def held_def produced_def infl infl' eff)
      (auto simp: w'_def after_query_def split: query_outcome.split)
  moreover have "closing isD s f w'"
    using cl
    by (auto simp: closing_def unfinished_def infl infl' eff)
      (auto simp: w'_def after_query_def split: query_outcome.split)
  ultimately show ?thesis by blast
qed

lemma task_settles_acct:
  assumes acct: "slot_acct isD s f w" and cl: "closing isD s f w" and busy: "busy s0 t Settled w"
  defines "w' \<equiv> runNext isD (w\<lparr>running := False, inflight := []\<rparr>)"
  shows "slot_acct isD s f w' \<and> closing isD s f w'"
proof -
  let ?w = "w\<lparr>running := False, inflight := []\<rparr>"
  have w: "\<not> running ?w" "inflight ?w = []" "distinct (map fst (pending ?w))"
    using busy by (simp_all add: busy_def)
  have "closing isD s f ?w"
    using cl busy by (auto simp: closing_def unfinished_def busy_def)
  moreover have "disposed_or_held isD s ?w = produced isD s ?w + f"
    using acct busy by (simp add: slot_acct_def disposed_or_held_def held_def produced_def busy_def)
  ultimately show ?thesis
    unfolding w'_def using runNext_acct [OF w] runNext_closing [OF w] by blast
qed

definition disposal_ok :: "'d event \<Rightarrow> bool" where
  "disposal_ok e \<longleftrightarrow> (case e of DisposeSettles i (Some _) \<Rightarrow> False | _ \<Rightarrow> True)"

lemma slot_step_acct:
  assumes step: "slot_step isD e w = Some w'" and inv: "slot_acct isD s f w" "closing isD s f w"
  shows "\<exists>f'. slot_acct isD s f' w' \<and> closing isD s f' w' \<and> (disposal_ok e \<longrightarrow> f' = f)"
proof -
  have q: "task_queue_inv w" using inv by (simp add: slot_acct_def)
  show ?thesis
  proof (cases e)
    case (Use s' opts)
    with step have "slot_step isD (Use s' opts) w = Some w'" by simp
    then show ?thesis
    proof (rule use_step_cases)
      fix r assume "use_slot isD s' opts w = Inr (r, w')" and w': "w' = schedule_query isD s' opts w"
      then have "\<not> slot_disposed (slots w s')" by (auto dest: use_slot_result)
      then show ?thesis using use_acct [OF inv] w' by blast
    qed (use inv in auto)
  next
    case (Dispose s')
    then show ?thesis using step dispose_acct [OF inv] by auto
  next
    case (DisposeSettles i r)
    from step q obtain s0 t where b: "busy s0 t AwaitDispose w" "r = None \<or> has_disposable isD (slots w s0)"
      and w': "w' = after_dispose isD 0 s0 t r w"
      unfolding DisposeSettles by (rule dispose_settles_cases)
    let ?f = "if r = None \<or> s0 \<noteq> s then f else f + cache_data isD (slots w s)"
    have "slot_acct isD s ?f w' \<and> closing isD s ?f w'"
      unfolding w' by (rule dispose_settles_acct [OF inv b])
    moreover have "disposal_ok e \<longrightarrow> ?f = f"
      by (auto simp: DisposeSettles disposal_ok_def split: option.splits)
    ultimately show ?thesis by blast
  next
    case (QuerySettles i r)
    from step q obtain s0 k qf sig where "busy s0 (QueryTask k qf sig) AwaitQuery w" "w' = after_query 0 s0 k r w"
      unfolding QuerySettles by (rule query_settles_cases)
    then show ?thesis using query_settles_acct [OF inv] by blast
  next
    case (TaskSettles i)
    from step q obtain s0 t where "busy s0 t Settled w" "w' = runNext isD (w\<lparr>running := False, inflight := []\<rparr>)"
      unfolding TaskSettles by (rule task_settles_cases)
    then show ?thesis using task_settles_acct [OF inv] by blast
  qed
qed

lemma slot_acct_init: "slot_acct isD s {#} init_world" "closing isD s {#} init_world"
  by (simp_all add: slot_acct_def closing_def task_queue_inv_def queue_idle_init disposed_or_held_def held_def
      produced_def) (simp_all add: init_world_def new_slot_def cache_data_def)

lemma slot_run_acct:
  assumes "slot_run isD es w0 = Some w" "slot_acct isD s f w0" "closing isD s f w0"
  shows "\<exists>f'. slot_acct isD s f' w \<and> closing isD s f' w \<and> ((\<forall>e \<in> set es. disposal_ok e) \<longrightarrow> f' = f)"
  using assms
proof (induction es arbitrary: w0 f)
  case Nil
  then show ?case by auto
next
  case (Cons e es)
  from Cons.prems(1) obtain w1 where s1: "slot_step isD e w0 = Some w1" and run: "slot_run isD es w1 = Some w"
    by (auto split: option.splits)
  obtain f1 where f1: "slot_acct isD s f1 w1" "closing isD s f1 w1" "disposal_ok e \<longrightarrow> f1 = f"
    using slot_step_acct [OF s1 Cons.prems(2,3)] by blast
  from Cons.IH [OF run f1(1,2)] f1(3) show ?case by auto
qed

subsection \<open>A run to evaluate\<close>

definition example_use :: "string \<Rightarrow> query_options" where
  "example_use v =
     \<lparr>opt_key = [(''v'', JNumber v)], opt_queryFn = 0, opt_enabled = None, opt_retainOn = []\<rparr>"

text \<open>
  A slot shows one key, then another; the results are disposables. Then it is disposed of while the
  second query is in flight.
\<close>

definition sample_run :: "nat event list" where
  "sample_run =
     [Use 0 (example_use ''1''), DisposeSettles 0 None, QuerySettles 0 (Fulfilled 5), TaskSettles 0,
      Use 0 (example_use ''2''), DisposeSettles 0 None, Dispose 0, QuerySettles 0 (Fulfilled 6),
      TaskSettles 0, DisposeSettles 0 None, TaskSettles 0]"

definition sample_world :: "nat \<Rightarrow> nat slot_world" where
  "sample_world n = the (slot_run (\<lambda>_. True) (take n sample_run) init_world)"

lemma some_the: "\<not> Option.is_none x \<Longrightarrow> x = Some (the x)"
  by (cases x) simp_all

lemma inr_projr: "\<not> isl x \<Longrightarrow> x = Inr (fst (projr x), snd (projr x))"
  by (cases x) simp_all

lemma sample_world_run:
  "n \<in> {4, 11} \<Longrightarrow> slot_run (\<lambda>_. True) (take n sample_run) init_world = Some (sample_world n)"
  unfolding sample_world_def by (elim insertE emptyE; hypsubst; rule some_the; code_simp)

subsection \<open>The properties\<close>

text \<open>
  In every reachable world at most one task is in flight, the \<open>running\<close> flag is set exactly then, no
  task waits while the queue is idle, and every slot has at most one pending task.
\<close>

theorem queue_serial:
  assumes "slot_run isD es init_world = Some w"
  shows "length (inflight w) \<le> 1 \<and> (running w \<longleftrightarrow> inflight w \<noteq> []) \<and>
    (pending w \<noteq> [] \<longrightarrow> running w) \<and> distinct (map fst (pending w))"
proof (rule task_queue_invE [OF slot_run_invs(1) [OF assms]])
  assume "queue_idle w" then show ?thesis by (simp add: queue_idle_def)
next
  fix s t p assume "busy s t p w" then show ?thesis by (simp add: busy_def)
qed

theorem queue_serial_witness:
  "inflight (sample_world 4) = [] \<and> length (inflight (sample_world 11)) \<le> 1 \<and>
   distinct (map fst (pending (sample_world 11)))"
  using queue_serial [OF sample_world_run [of 4]] queue_serial [OF sample_world_run [of 11]]
  by (intro conjI; simp?) code_simp

text \<open>
  C22. In every reachable world of slots on one queue, what \<open>use\<close> reports as fresh is the latest result that
  a query of this slot returned, and that query was for a key with the same text.
\<close>

theorem fresh_is_latest:
  assumes "slot_run isD es init_world = Some w" and "use_slot isD s opts w = Inr (r, w')"
    and "qr_isFresh r"
  shows "\<exists>k d. qr_data r = Some d \<and> returned s (effects w') \<noteq> [] \<and>
    last (returned s (effects w')) = (k, d) \<and> key_str k = key_str (opt_key opts)"
proof -
  have "slot_run isD (es @ [Use s opts]) init_world = Some w'"
    using assms(1,2) by (simp add: slot_run_append)
  then have inv: "fresh_inv s w'" by (rule slot_run_invs(2))
  have r: "r = slot_result (slots w' s) opts" using use_slot_result [OF assms(2)] by simp
  with assms(3) obtain c where "cache (slots w' s) = Some c" "ce_keyStr c = key_str (opt_key opts)"
    "qr_data r = Some (ce_data c)"
    by (auto simp: slot_result_def Let_def split: option.splits if_splits)
  with inv show ?thesis by (auto simp: fresh_inv_def)
qed

theorem fresh_is_latest_witness:
  "\<exists>k d. qr_data (fst (projr (use_slot (\<lambda>_. True) 0 (example_use ''1'') (sample_world 4)))) = Some d \<and>
    last (returned 0 (effects (snd (projr (use_slot (\<lambda>_. True) 0 (example_use ''1'') (sample_world 4)))))) = (k, d) \<and>
    key_str k = key_str (opt_key (example_use ''1''))"
proof -
  have u: "use_slot (\<lambda>_. True) 0 (example_use ''1'') (sample_world 4) =
    Inr (fst (projr (use_slot (\<lambda>_. True) 0 (example_use ''1'') (sample_world 4))),
      snd (projr (use_slot (\<lambda>_. True) 0 (example_use ''1'') (sample_world 4))))"
    by (rule inr_projr) code_simp
  have "qr_isFresh (fst (projr (use_slot (\<lambda>_. True) 0 (example_use ''1'') (sample_world 4))))"
    by code_simp
  from fresh_is_latest [OF sample_world_run u this] show ?thesis by auto
qed

text \<open>
  C24. No disposable result is lost or disposed of twice: each one that a slot's queries returned is in its
  cache or has had its \<open>Symbol.asyncDispose\<close> called; if no disposal fails, the calls are for returned
  results only; and once the slot has been disposed of and the queue is idle, they are exactly those.
\<close>

theorem disposables_accounted:
  assumes "slot_run isD es init_world = Some w"
  shows "produced isD s w \<subseteq># mset (disposals s (effects w)) + cache_data isD (slots w s) \<and>
    ((\<forall>e \<in> set es. disposal_ok e) \<longrightarrow>
       mset (disposals s (effects w)) \<subseteq># produced isD s w \<and>
       (slot_disposed (slots w s) \<and> \<not> running w \<longrightarrow>
          mset (disposals s (effects w)) = produced isD s w))"
proof -
  obtain f where f: "slot_acct isD s f w" "closing isD s f w" "(\<forall>e \<in> set es. disposal_ok e) \<longrightarrow> f = {#}"
    using slot_run_acct [OF assms slot_acct_init] by blast
  have eq: "mset (disposals s (effects w)) + held isD s w = produced isD s w + f"
    using f(1) by (simp add: slot_acct_def disposed_or_held_def)
  have sub: "held isD s w \<subseteq># cache_data isD (slots w s)" by (simp add: held_def)
  have "produced isD s w \<subseteq># mset (disposals s (effects w)) + held isD s w"
    by (simp add: eq)
  then have 1: "produced isD s w \<subseteq># mset (disposals s (effects w)) + cache_data isD (slots w s)"
    using sub by (meson mset_subset_eq_mono_add_left_cancel subset_mset.order_trans)
  have 2: "mset (disposals s (effects w)) \<subseteq># produced isD s w" if "\<forall>e \<in> set es. disposal_ok e"
    using eq mp [OF f(3) that] by (metis add.right_neutral mset_subset_eq_add_left)
  have 3: "mset (disposals s (effects w)) = produced isD s w"
    if "\<forall>e \<in> set es. disposal_ok e" "slot_disposed (slots w s)" "\<not> running w"
  proof -
    have "queue_idle w" using slot_run_invs(1) [OF assms] that(3) by (auto simp: task_queue_inv_def busy_def)
    then have "cache_data isD (slots w s) = {#}"
      using f(2) mp [OF f(3) that(1)] that(2) by (auto simp: closing_def queue_idle_def)
    then show ?thesis using eq mp [OF f(3) that(1)] sub by simp
  qed
  from 1 2 3 show ?thesis by blast
qed

theorem disposables_accounted_witness:
  "mset (disposals 0 (effects (sample_world 11))) = produced (\<lambda>_. True) 0 (sample_world 11) \<and>
   disposals 0 (effects (sample_world 11)) = [5, 6]"
proof -
  have "\<forall>e \<in> set (take 11 sample_run). disposal_ok e"
    and "slot_disposed (slots (sample_world 11) 0)" and "\<not> running (sample_world 11)"
    and "disposals 0 (effects (sample_world 11)) = [5, 6]"
    by code_simp+
  then show ?thesis
    using disposables_accounted [OF sample_world_run [of 11], of 0] by simp
qed

end
