(* ===== verification/Query_Slot_Liveness.thy ===== *)
theory Query_Slot_Liveness
  imports Query_Slot_Correct
begin

text \<open>
  Progress of a query slot. While a key is used steadily and its query succeeds, the number of
  settled promises after which the slot is fresh is bounded by the place of its task in the queue,
  whatever the other slots do. When a render returns to a key whose query is still in flight, the
  slot can be kept from ever being fresh.
\<close>

declare slot_step.simps [simp del]

subsection \<open>Steady use of a key\<close>

definition task_key :: "task \<Rightarrow> string option" where
  "task_key t = (case t of QueryTask k _ _ \<Rightarrow> Some (key_str k) | DisposeTask \<Rightarrow> None)"

text \<open>The task that the \<open>i\<close>-th promise in flight belongs to is a query of slot \<open>s\<close> for key \<open>k\<close>.\<close>

definition settles_for :: "nat \<Rightarrow> string \<Rightarrow> nat \<Rightarrow> 'd slot_world \<Rightarrow> bool" where
  "settles_for s k i w \<longleftrightarrow>
     (case nth_opt (inflight w) i of Some (s', t, _) \<Rightarrow> s' = s \<and> task_key t = Some k | None \<Rightarrow> False)"

definition steady_event :: "nat \<Rightarrow> string \<Rightarrow> 'd slot_world \<Rightarrow> 'd event \<Rightarrow> bool" where
  "steady_event s k w e \<longleftrightarrow>
     (case e of
        Use s' opts \<Rightarrow> s' = s \<longrightarrow> key_str (opt_key opts) = k
      | Dispose s' \<Rightarrow> s' \<noteq> s
      | DisposeSettles i r \<Rightarrow> settles_for s k i w \<longrightarrow> r = None
      | QuerySettles i r \<Rightarrow> settles_for s k i w \<longrightarrow> (case r of Fulfilled _ \<Rightarrow> True | _ \<Rightarrow> False)
      | TaskSettles i \<Rightarrow> True)"

fun steady_run :: "('d \<Rightarrow> bool) \<Rightarrow> nat \<Rightarrow> string \<Rightarrow> 'd event list \<Rightarrow> 'd slot_world \<Rightarrow> bool" where
  "steady_run isD s k [] w = True"
| "steady_run isD s k (e # es) w =
     (steady_event s k w e \<and>
      (case slot_step isD e w of None \<Rightarrow> False | Some w' \<Rightarrow> steady_run isD s k es w'))"

definition settlement :: "'d event \<Rightarrow> bool" where
  "settlement e \<longleftrightarrow> (case e of Use _ _ \<Rightarrow> False | Dispose _ \<Rightarrow> False | _ \<Rightarrow> True)"

text \<open>A query of slot \<open>s\<close> for key \<open>k\<close> is in flight and has not settled.\<close>

definition clash :: "nat \<Rightarrow> string \<Rightarrow> 'd slot_world \<Rightarrow> bool" where
  "clash s k w \<longleftrightarrow>
     (case inflight w of (s', t, p) # _ \<Rightarrow> s' = s \<and> task_key t = Some k \<and> p \<noteq> Settled | _ \<Rightarrow> False)"

definition usable :: "nat \<Rightarrow> string \<Rightarrow> 'd slot_world \<Rightarrow> bool" where
  "usable s k w \<longleftrightarrow>
     \<not> slot_disposed (slots w s) \<and> map_option fst (slot_error (slots w s)) \<noteq> Some k"

definition queued_for :: "nat \<Rightarrow> string \<Rightarrow> 'd slot_world \<Rightarrow> bool" where
  "queued_for s k w \<longleftrightarrow>
     (\<exists>s' t p. busy s' t p w) \<and> usable s k w \<and>
     map_option key_str (pendingKey (slots w s)) = Some k \<and>
     (\<exists>t. map_of (pending w) s = Some t \<and> task_key t = Some k) \<and> \<not> clash s k w"

definition flying_for :: "nat \<Rightarrow> string \<Rightarrow> 'd slot_world \<Rightarrow> bool" where
  "flying_for s k w \<longleftrightarrow>
     (\<exists>t p. busy s t p w \<and> task_key t = Some k \<and> p \<noteq> Settled) \<and> usable s k w \<and>
     map_option key_str (pendingKey (slots w s)) = Some k \<and> s \<notin> fst ` set (pending w)"

definition fresh_for :: "nat \<Rightarrow> string \<Rightarrow> 'd slot_world \<Rightarrow> bool" where
  "fresh_for s k w \<longleftrightarrow>
     task_queue_inv w \<and> usable s k w \<and> map_option ce_keyStr (cache (slots w s)) = Some k \<and>
     s \<notin> fst ` set (pending w) \<and>
     (case inflight w of (s', _, p) # _ \<Rightarrow> s' = s \<longrightarrow> p = Settled | _ \<Rightarrow> True)"

text \<open>The settlements that slot \<open>s\<close> still has to wait for.\<close>

fun phase_left :: "phase \<Rightarrow> nat" where
  "phase_left AwaitDispose = 3"
| "phase_left AwaitQuery = 2"
| "phase_left Settled = 1"

definition place :: "nat \<Rightarrow> (nat \<times> task) list \<Rightarrow> nat" where
  "place s ps = length (takeWhile (\<lambda>p. fst p \<noteq> s) ps)"

definition ahead :: "nat \<Rightarrow> 'd slot_world \<Rightarrow> nat" where
  "ahead s w =
     (case inflight w of
        [] \<Rightarrow> 0
      | (_, _, p) # _ \<Rightarrow>
          if s \<in> fst ` set (pending w) then phase_left p + 3 * place s (pending w) + 2
          else phase_left p - 1)"

lemma place_map_set: "s \<in> fst ` set ps \<Longrightarrow> place s (map_set s' t ps) = place s ps"
proof (induction ps)
  case (Cons p ps)
  then show ?case by (cases p) (auto simp: place_def)
qed simp

lemma place_map_set_mem: "(s, t') \<in> set ps \<Longrightarrow> place s (map_set s' t ps) = place s ps"
  by (rule place_map_set) force

lemma place_map_delete: "s' \<noteq> s \<Longrightarrow> place s (map_delete s' ps) \<le> place s ps"
  by (induction ps) (auto simp: place_def map_delete_def)

lemma place_bound: "s \<in> fst ` set ps \<Longrightarrow> place s ps < length ps"
  by (induction ps) (auto simp: place_def)

lemma ahead_bound: "ahead s w \<le> 3 * length (pending w) + 2"
proof -
  have p: "phase_left p \<le> 3" for p by (cases p) simp_all
  show ?thesis
  proof (cases "inflight w")
    case (Cons a as)
    obtain s' t p where "a = (s', t, p)" by (cases a)
    then show ?thesis
      using Cons p [of p] place_bound [of s "pending w"]
      by (cases "s \<in> fst ` set (pending w)") (simp_all add: ahead_def)
  qed (simp add: ahead_def)
qed

subsection \<open>A use that schedules\<close>

lemma map_of_domD: "map_of m s = Some t \<Longrightarrow> s \<in> fst ` set m"
  by (metis map_of_SomeD fst_conv image_eqI)

lemma schedule_query_slots [simp]:
  "pendingKey (slots (schedule_query isD s opts w) s') =
     (if s' = s then Some (opt_key opts) else pendingKey (slots w s'))"
  "slot_disposed (slots (schedule_query isD s opts w) s') = slot_disposed (slots w s')"
  "slot_error (slots (schedule_query isD s opts w) s') = slot_error (slots w s')"
  by (simp_all add: schedule_query_def Let_def)

lemma schedule_query_busy:
  assumes "busy s' t p w"
  shows "busy s' t p (schedule_query isD s opts w)"
    and "\<exists>sig. pending (schedule_query isD s opts w) = map_set s (QueryTask (opt_key opts) (opt_queryFn opts) sig) (pending w)"
  using assms by (auto simp: schedule_query_def Let_def schedule_busy)

lemma schedule_query_idle:
  assumes "queue_idle w"
  shows "\<exists>sig. busy s (QueryTask (opt_key opts) (opt_queryFn opts) sig) AwaitDispose (schedule_query isD s opts w)"
    and "pending (schedule_query isD s opts w) = []"
  using assms by (auto simp: schedule_query_def Let_def intro!: exI schedule_idle)

lemma usable_schedule_query [simp]: "usable s k (schedule_query isD s' opts w) \<longleftrightarrow> usable s k w"
  by (simp add: usable_def)

lemma use_schedules:
  assumes q: "task_queue_inv w" and u: "use_slot isD s opts w = Inr (r, w')"
    and need: "needs_query (slots w s) opts" and nc: "\<not> clash s (key_str (opt_key opts)) w"
  shows "queued_for s (key_str (opt_key opts)) w' \<or> flying_for s (key_str (opt_key opts)) w'"
proof -
  let ?k = "key_str (opt_key opts)"
  have w': "w' = schedule_query isD s opts w" using use_slot_cases [OF u] need by blast
  have us: "usable s ?k w"
    using u by (auto simp: usable_def use_slot_def Let_def split: if_splits option.splits)
  have pk: "map_option key_str (pendingKey (slots w' s)) = Some ?k"
    by (simp add: w')
  from q show ?thesis
  proof (cases rule: task_queue_invE)
    case 1
    obtain sig where "busy s (QueryTask (opt_key opts) (opt_queryFn opts) sig) AwaitDispose w'"
      using schedule_query_idle(1) [OF 1, where s = s and opts = opts and isD = isD] w' by blast
    moreover have "task_key (QueryTask (opt_key opts) (opt_queryFn opts) sig) = Some ?k"
      by (simp add: task_key_def)
    moreover have "pending w' = []" and "usable s ?k w'"
      using schedule_query_idle(2) [OF 1] us by (simp_all add: w')
    ultimately have "flying_for s ?k w'" using pk unfolding flying_for_def by fastforce
    then show ?thesis ..
  next
    case (2 s0 t0 p0)
    obtain sig where p: "pending w' = map_set s (QueryTask (opt_key opts) (opt_queryFn opts) sig) (pending w)"
      using schedule_query_busy(2) [OF 2] w' by blast
    have b: "busy s0 t0 p0 w'" using schedule_query_busy(1) [OF 2] w' by blast
    have "\<not> clash s ?k w'" using nc 2 b by (simp add: clash_def busy_def)
    moreover have "map_of (pending w') s = Some (QueryTask (opt_key opts) (opt_queryFn opts) sig)"
      by (simp add: p map_of_map_set)
    moreover have "usable s ?k w'" using us by (simp add: w')
    ultimately have "queued_for s ?k w'"
      using b pk unfolding queued_for_def by (fastforce simp: task_key_def)
    then show ?thesis ..
  qed
qed

subsection \<open>Steady events bring the slot closer\<close>

text \<open>A use of the steady key schedules nothing, neither while its query is on the way nor once it is fresh.\<close>

lemma steady_use_same:
  assumes "slot_step isD (Use s opts) w = Some w'" and "key_str (opt_key opts) = k"
    and "map_option key_str (pendingKey (slots w s)) = Some k \<or> map_option ce_keyStr (cache (slots w s)) = Some k"
  shows "w' = w"
  using assms by (elim use_step_cases) (auto simp: needs_query_def)

lemma usable_frame:
  "slot_disposed (slots w' s) = slot_disposed (slots w s) \<Longrightarrow>
   slot_error (slots w' s) = slot_error (slots w s) \<Longrightarrow> usable s k w' \<longleftrightarrow> usable s k w"
  by (simp add: usable_def)

lemma dispose_slot_other [simp]: "s' \<noteq> s \<Longrightarrow> slots (dispose_slot isD s' w) s = slots w s"
  by (simp add: dispose_slot_def)

lemma schedule_query_other [simp]: "s' \<noteq> s \<Longrightarrow> slots (schedule_query isD s' opts w) s = slots w s"
  by (simp add: schedule_query_def Let_def)

lemma dispose_slot_busy:
  assumes "busy s0 t p w"
  shows "busy s0 t p (dispose_slot isD s' w)"
    and "pending (dispose_slot isD s' w) = pending w \<or>
         pending (dispose_slot isD s' w) = map_set s' DisposeTask (map_delete s' (pending w))"
  using assms by (auto simp: dispose_slot_def schedule_busy cancel_busy
      schedule_busy(2) [of s0 t p "put_slot _ _ (cancel s' w)"])

text \<open>The events that settle nothing.\<close>

lemma other_event_pending:
  assumes "slot_step isD e w = Some w'" and "busy s0 t0 p0 w" and "\<not> settlement e"
    and "steady_event s k w e"
    and "map_option key_str (pendingKey (slots w s)) = Some k \<or> map_option ce_keyStr (cache (slots w s)) = Some k"
  shows "busy s0 t0 p0 w' \<and> slots w' s = slots w s \<and> map_of (pending w') s = map_of (pending w) s \<and>
    (s \<in> fst ` set (pending w) \<longrightarrow> place s (pending w') \<le> place s (pending w))"
proof (cases e)
  case (Use s' opts)
  show ?thesis
  proof (cases "s' = s")
    case True
    have "w' = w"
      by (rule steady_use_same [OF _ _ assms(5)]) (use assms(1,4) Use True in \<open>auto simp: steady_event_def\<close>)
    then show ?thesis using assms by simp
  next
    case False
    from assms(1) have "slot_step isD (Use s' opts) w = Some w'" by (simp add: Use)
    then show ?thesis
    proof (rule use_step_cases)
      assume "w' = w" then show ?thesis using assms by simp
    next
      assume w': "w' = schedule_query isD s' opts w"
      show ?thesis
        using schedule_query_busy [OF assms(2), of isD s' opts] False
        by (auto simp: w' map_of_map_set place_map_set_mem)
    qed
  qed
next
  case (Dispose s')
  then have ne: "s' \<noteq> s" and w': "w' = dispose_slot isD s' w"
    using assms(1,4) by (auto simp: steady_event_def slot_step.simps)
  have pl: "place s (map_set s' DisposeTask (map_delete s' (pending w))) \<le> place s (pending w)"
    if "s \<in> fst ` set (pending w)"
    using that ne place_map_delete [OF ne, of "pending w"]
    by (simp add: map_delete_keys place_map_set)
  then show ?thesis
    using dispose_slot_busy [OF assms(2), of isD s'] ne
    by (metis w' dispose_slot_other fun_upd_other map_of_map_delete map_of_map_set order_refl)
qed (use assms(3) in \<open>simp_all add: settlement_def\<close>)

lemma fresh_step_idle_use:
  assumes "fresh_for s k w" and "queue_idle w" and "slot_step isD (Use s' opts) w = Some w'"
    and "s' = s \<longrightarrow> key_str (opt_key opts) = k"
  shows "fresh_for s k w'"
proof (cases "s' = s")
  case True
  then have "w' = w" using steady_use_same [of isD s opts w w' k] assms by (auto simp: fresh_for_def)
  then show ?thesis using assms by simp
next
  case False
  from assms(3) show ?thesis
  proof (rule use_step_cases)
    assume w': "w' = schedule_query isD s' opts w"
    then show ?thesis
      using assms(1) schedule_query_idle [OF assms(2), where s = s' and opts = opts and isD = isD] False schedule_query_inv [of w isD s' opts]
      by (auto simp: fresh_for_def busy_def usable_def)
  qed (use assms in auto)
qed

text \<open>A promise settles while the query of the slot is in the queue.\<close>

lemma runNext_started_slots:
  assumes "busy s0 t0 p0 w" and "pending w = (s1, t1) # ps"
  shows "busy s1 t1 AwaitDispose (runNext isD (w\<lparr>running := False, inflight := []\<rparr>))"
    and "pending (runNext isD (w\<lparr>running := False, inflight := []\<rparr>)) = ps"
  using runNext_started [of "w\<lparr>running := False, inflight := []\<rparr>" s1 t1 ps isD] assms
  by (simp_all add: busy_def)

lemma after_dispose_pending [simp]: "pending (after_dispose isD i s t r w) = pending w"
  by (simp add: after_dispose_def Let_def split: option.split task.split)

lemma after_query_pending [simp]: "pending (after_query i s k r w) = pending w"
  by (simp add: after_query_def split: query_outcome.split)

lemma after_dispose_other [simp]: "s' \<noteq> s \<Longrightarrow> slots (after_dispose isD i s t r w) s' = slots w s'"
  by (simp add: after_dispose_def Let_def split: option.split task.split)

lemma after_query_other [simp]: "s' \<noteq> s \<Longrightarrow> slots (after_query i s k r w) s' = slots w s'"
  by (simp add: after_query_def split: query_outcome.split)

lemma clear_pending_ne:
  "map_option key_str (pendingKey q) = Some k \<Longrightarrow> key_str k0 \<noteq> k \<Longrightarrow> pendingKey (clear_pending k0 q) = pendingKey q"
  by (auto simp: clear_pending_def)

text \<open>The end of a query for another key leaves the pending key and the usability for \<open>k\<close> alone.\<close>

lemma other_key_catch:
  assumes "map_option key_str (pendingKey q) = Some k" and "key_str k0 \<noteq> k"
    and "map_option fst (slot_error q) \<noteq> Some k"
  shows "map_option key_str (pendingKey (catch_query k0 e q)) = Some k"
    and "map_option fst (slot_error (catch_query k0 e q)) \<noteq> Some k"
    and "map_option key_str (pendingKey (finaliseQuery k0 r q)) = Some k"
  using assms clear_pending_ne [of q k k0] clear_pending_ne [of "q\<lparr>slot_error := _\<rparr>" k k0]
  by (auto simp: catch_query_def finaliseError_def split: thrown.split)

lemma queued_after_dispose:
  assumes Q: "queued_for s k w" and b: "busy s0 t AwaitDispose w"
  shows "queued_for s k (after_dispose isD 0 s0 t r w)"
proof -
  let ?w' = "after_dispose isD 0 s0 t r w"
  obtain p' where b': "busy s0 t p' ?w'" using after_dispose_busy [OF b] by blast
  have nk: "s0 = s \<Longrightarrow> task_key t \<noteq> Some k" using Q b by (auto simp: queued_for_def clash_def busy_def)
  have "\<not> clash s k ?w'" using b' nk by (auto simp: clash_def busy_def)
  moreover have "usable s k ?w' \<and> map_option key_str (pendingKey (slots ?w' s)) = Some k"
  proof (cases "s0 = s")
    case False
    then show ?thesis using Q by (simp add: queued_for_def usable_def)
  next
    case True
    then show ?thesis
      using Q nk other_key_catch [of "slots w s" k]
      by (auto simp: queued_for_def usable_def after_dispose_def Let_def task_key_def
          split: option.split task.splits)
  qed
  ultimately show ?thesis using Q b' by (auto simp: queued_for_def)
qed

lemma queued_after_query:
  assumes Q: "queued_for s k w" and b: "busy s0 (QueryTask k0 q sig) AwaitQuery w"
  shows "queued_for s k (after_query 0 s0 k0 r w)"
proof -
  let ?w' = "after_query 0 s0 k0 r w"
  have b': "busy s0 (QueryTask k0 q sig) Settled ?w'" by (rule after_query_busy [OF b])
  have nk: "s0 = s \<Longrightarrow> key_str k0 \<noteq> k" using Q b by (auto simp: queued_for_def clash_def busy_def task_key_def)
  have "\<not> clash s k ?w'" using b' by (auto simp: clash_def busy_def)
  moreover have "usable s k ?w' \<and> map_option key_str (pendingKey (slots ?w' s)) = Some k"
  proof (cases "s0 = s")
    case False
    then show ?thesis using Q by (simp add: queued_for_def usable_def)
  next
    case True
    then show ?thesis
      using Q nk other_key_catch [of "slots w s" k]
      by (auto simp: queued_for_def usable_def after_query_def split: query_outcome.split)
  qed
  ultimately show ?thesis using Q b' by (auto simp: queued_for_def)
qed

lemma queued_task_settles:
  fixes isD :: "'d \<Rightarrow> bool"
  assumes Q: "queued_for s k w" and b: "busy s0 t Settled w"
  defines "w' \<equiv> runNext isD (w\<lparr>running := False, inflight := []\<rparr>)"
  shows "queued_for s k w' \<or> flying_for s k w'" and "ahead s w' < ahead s w"
proof -
  obtain tk where tk: "map_of (pending w) s = Some tk" "task_key tk = Some k"
    using Q by (auto simp: queued_for_def)
  obtain s1 t1 ps where P: "pending w = (s1, t1) # ps"
    using tk by (cases "pending w") auto
  have b1: "busy s1 t1 AwaitDispose w'" and p1: "pending w' = ps"
    unfolding w'_def by (rule runNext_started_slots [OF b P])+
  have d: "distinct (map fst ((s1, t1) # ps))" using b P by (simp add: busy_def)
  have sl: "slots w' = slots w" by (simp add: w'_def)
  have us: "usable s k w'" "map_option key_str (pendingKey (slots w' s)) = Some k"
    using Q by (simp_all add: queued_for_def usable_def sl)
  show "queued_for s k w' \<or> flying_for s k w'"
  proof (cases "s1 = s")
    case True
    then have "t1 = tk" using tk P by simp
    moreover have "s \<notin> fst ` set (pending w')" using d True by (simp add: p1)
    ultimately have "flying_for s k w'"
      using b1 us tk(2) True unfolding flying_for_def by (metis phase.distinct(3))
    then show ?thesis ..
  next
    case False
    then have "\<not> clash s k w'" using b1 by (simp add: clash_def busy_def)
    moreover have "map_of (pending w') s = Some tk" using tk P False p1 by simp
    ultimately have "queued_for s k w'"
      using b1 us tk(2) unfolding queued_for_def by blast
    then show ?thesis ..
  qed
  have s_in: "s \<in> fst ` set (pending w)" by (rule map_of_domD [OF tk(1)])
  then have aw: "ahead s w = 1 + 3 * place s (pending w) + 2" using b by (simp add: ahead_def busy_def)
  show "ahead s w' < ahead s w"
  proof (cases "s1 = s")
    case True
    then have "s \<notin> fst ` set (pending w')" using d by (simp add: p1)
    then have "ahead s w' = 2" using b1 by (simp add: ahead_def busy_def)
    then show ?thesis using aw by simp
  next
    case False
    then have "s \<in> fst ` set (pending w')" and "place s (pending w) = Suc (place s ps)"
      using s_in P p1 by (simp_all add: place_def)
    then have "ahead s w' = 3 + 3 * place s ps + 2" using b1 p1 by (simp add: ahead_def busy_def)
    then show ?thesis using aw \<open>place s (pending w) = Suc (place s ps)\<close> by simp
  qed
qed

lemma ahead_phase:
  assumes "busy s0 t p w" and "busy s0 t p' w'" and "pending w' = pending w"
    and "phase_left p' < phase_left p"
  shows "ahead s w' < ahead s w \<or> ahead s w = 0"
  using assms by (auto simp: ahead_def busy_def)

lemma queued_pos: "queued_for s k w \<Longrightarrow> 0 < ahead s w"
proof -
  assume "queued_for s k w"
  then obtain s' t p u where "busy s' t p w" "map_of (pending w) s = Some u" by (auto simp: queued_for_def)
  then show ?thesis using map_of_domD [of "pending w" s u] by (simp add: ahead_def busy_def)
qed

lemma flying_pos: "flying_for s k w \<Longrightarrow> 0 < ahead s w"
proof -
  assume "flying_for s k w"
  then obtain t p where "busy s t p w" "p \<noteq> Settled" "s \<notin> fst ` set (pending w)" by (auto simp: flying_for_def)
  then show ?thesis by (cases p) (simp_all add: ahead_def busy_def)
qed

lemma queued_settles:
  assumes step: "slot_step isD e w = Some w'" and Q: "queued_for s k w" and st: "settlement e"
  shows "(queued_for s k w' \<or> flying_for s k w') \<and> ahead s w' < ahead s w"
proof -
  have q: "task_queue_inv w" using Q by (auto simp: queued_for_def task_queue_inv_def)
  have pos: "ahead s w \<noteq> 0" using queued_pos [OF Q] by simp
  show ?thesis
  proof (cases e)
    case (DisposeSettles i r)
    with step have "slot_step isD (DisposeSettles i r) w = Some w'" by simp
    then show ?thesis using q
    proof (rule dispose_settles_cases)
      fix s0 t assume b: "busy s0 t AwaitDispose w" and w': "w' = after_dispose isD 0 s0 t r w"
      have "ahead s w' < ahead s w \<or> ahead s w = 0"
        by (rule ahead_phase [OF b]) (use after_dispose_busy [OF b, of r isD] in \<open>auto simp: w'\<close>)
      then show ?thesis using queued_after_dispose [OF Q b, of isD r] pos w' by blast
    qed
  next
    case (QuerySettles i r)
    with step have "slot_step isD (QuerySettles i r) w = Some w'" by simp
    then show ?thesis using q
    proof (rule query_settles_cases)
      fix s0 k0 qf sig assume b: "busy s0 (QueryTask k0 qf sig) AwaitQuery w" and w': "w' = after_query 0 s0 k0 r w"
      have "ahead s w' < ahead s w \<or> ahead s w = 0"
        by (rule ahead_phase [OF b]) (use after_query_busy [OF b, of k0 r] in \<open>auto simp: w'\<close>)
      then show ?thesis using queued_after_query [OF Q b, of r] pos w' by blast
    qed
  next
    case (TaskSettles i)
    with step have "slot_step isD (TaskSettles i) w = Some w'" by simp
    then show ?thesis using q
    proof (rule task_settles_cases)
      fix s0 t assume b: "busy s0 t Settled w" and w': "w' = runNext isD (w\<lparr>running := False, inflight := []\<rparr>)"
      show ?thesis using queued_task_settles [OF Q b, of isD] w' by simp
    qed
  qed (use st in \<open>simp_all add: settlement_def\<close>)
qed

lemma flying_settles:
  assumes step: "slot_step isD e w = Some w'" and F: "flying_for s k w" and st: "settlement e"
    and sd: "steady_event s k w e"
  shows "(flying_for s k w' \<and> ahead s w' < ahead s w) \<or> fresh_for s k w'"
proof -
  obtain t p where b: "busy s t p w" and tk: "task_key t = Some k" and p: "p \<noteq> Settled"
    using F by (auto simp: flying_for_def)
  then obtain k0 qf sig where t: "t = QueryTask k0 qf sig" and k0: "key_str k0 = k"
    by (cases t) (auto simp: task_key_def)
  have q: "task_queue_inv w" using b by (auto simp: task_queue_inv_def)
  have infl: "inflight w = [(s, t, p)]" using b by (simp add: busy_def)
  have own: "settles_for s k 0 w" using infl tk by (simp add: settles_for_def)
  have np: "s \<notin> fst ` set (pending w)" using F by (simp add: flying_for_def)
  show ?thesis
  proof (cases e)
    case (DisposeSettles i r)
    with step have "slot_step isD (DisposeSettles i r) w = Some w'" by simp
    then show ?thesis using q
    proof (rule dispose_settles_cases)
      fix s1 t1 assume i: "i = 0" and b1: "busy s1 t1 AwaitDispose w" and w'0: "w' = after_dispose isD 0 s1 t1 r w"
      have eq: "s1 = s" "t1 = t" "p = AwaitDispose" using b1 infl by (simp_all add: busy_def)
      have r: "r = None" using sd own i by (simp add: steady_event_def DisposeSettles)
      have b': "busy s t AwaitQuery w'" using after_dispose_busy [OF b1, of r isD] r t by (simp add: w'0 eq)
      have "flying_for s k w'"
        using F b' tk np by (auto simp: flying_for_def usable_def w'0 eq after_dispose_def Let_def r t)
      moreover have "ahead s w' < ahead s w"
        using infl np b' by (simp add: ahead_def busy_def w'0 eq)
      ultimately show ?thesis by blast
    qed
  next
    case (QuerySettles i r)
    with step have "slot_step isD (QuerySettles i r) w = Some w'" by simp
    then show ?thesis using q
    proof (rule query_settles_cases)
      fix s1 k1 q1 g1 assume i: "i = 0" and b1: "busy s1 (QueryTask k1 q1 g1) AwaitQuery w" and w'0: "w' = after_query 0 s1 k1 r w"
      have eq: "s1 = s" "k1 = k0" using b1 infl t by (simp_all add: busy_def)
      obtain d where r: "r = Fulfilled d" using sd own i by (auto simp: steady_event_def QuerySettles split: query_outcome.splits)
      have b': "busy s (QueryTask k1 q1 g1) Settled w'" using after_query_busy [OF b1] by (simp add: w'0 eq)
      have "fresh_for s k w'"
        using F b' np k0
        by (auto simp: flying_for_def fresh_for_def usable_def w'0 eq after_query_def r task_queue_inv_def busy_def)
      then show ?thesis ..
    qed
  next
    case (TaskSettles i)
    with step have "slot_step isD (TaskSettles i) w = Some w'" by simp
    then show ?thesis using q
      by (rule task_settles_cases) (use infl p in \<open>simp add: busy_def\<close>)
  qed (use st in \<open>simp_all add: settlement_def\<close>)
qed

text \<open>A slot that is fresh stays fresh.\<close>

lemma fresh_settles:
  assumes step: "slot_step isD e w = Some w'" and F: "fresh_for s k w" and st: "settlement e"
  shows "fresh_for s k w'"
proof -
  have q: "task_queue_inv w" using F by (simp add: fresh_for_def)
  have q': "task_queue_inv w'" by (rule slot_step_inv [OF step q])
  show ?thesis
  proof (cases e)
    case (DisposeSettles i r)
    with step have "slot_step isD (DisposeSettles i r) w = Some w'" by simp
    then show ?thesis using q
    proof (rule dispose_settles_cases)
      fix s0 t assume b: "busy s0 t AwaitDispose w" and w': "w' = after_dispose isD 0 s0 t r w"
      have ne: "s0 \<noteq> s" using F b by (auto simp: fresh_for_def busy_def)
      obtain p' where "busy s0 t p' w'" using after_dispose_busy [OF b] w' by blast
      then show ?thesis
        using F ne q' by (auto simp: fresh_for_def usable_def busy_def w')
    qed
  next
    case (QuerySettles i r)
    with step have "slot_step isD (QuerySettles i r) w = Some w'" by simp
    then show ?thesis using q
    proof (rule query_settles_cases)
      fix s0 k0 qf sig assume b: "busy s0 (QueryTask k0 qf sig) AwaitQuery w" and w': "w' = after_query 0 s0 k0 r w"
      have ne: "s0 \<noteq> s" using F b by (auto simp: fresh_for_def busy_def)
      show ?thesis
        using F ne q' after_query_busy [OF b, of k0 r] by (auto simp: fresh_for_def usable_def busy_def w')
    qed
  next
    case (TaskSettles i)
    with step have "slot_step isD (TaskSettles i) w = Some w'" by simp
    then show ?thesis using q
    proof (rule task_settles_cases)
      fix s0 t assume b: "busy s0 t Settled w" and w': "w' = runNext isD (w\<lparr>running := False, inflight := []\<rparr>)"
      show ?thesis
      proof (cases "pending w")
        case Nil
        then show ?thesis using F q' by (simp add: w' runNext_def fresh_for_def usable_def)
      next
        case (Cons a ps)
        obtain s1 t1 where a: "a = (s1, t1)" by force
        have "busy s1 t1 AwaitDispose w'" "pending w' = ps"
          unfolding w' using runNext_started_slots [OF b, of s1 t1 ps isD] Cons a by blast+
        then show ?thesis
          using F q' Cons a by (auto simp: fresh_for_def usable_def busy_def w')
      qed
    qed
  qed (use st in \<open>simp_all add: settlement_def\<close>)
qed

lemma fresh_other:
  assumes step: "slot_step isD e w = Some w'" and F: "fresh_for s k w" and st: "\<not> settlement e"
    and sd: "steady_event s k w e"
  shows "fresh_for s k w'"
proof -
  have q: "task_queue_inv w" using F by (simp add: fresh_for_def)
  have q': "task_queue_inv w'" by (rule slot_step_inv [OF step q])
  from q show ?thesis
  proof (cases rule: task_queue_invE)
    case (2 s0 t0 p0)
    have "map_option ce_keyStr (cache (slots w s)) = Some k" using F by (simp add: fresh_for_def)
    then have "busy s0 t0 p0 w' \<and> slots w' s = slots w s \<and> map_of (pending w') s = map_of (pending w) s"
      using other_event_pending [OF step 2 st sd] by blast
    then show ?thesis
      using F 2 q' by (auto simp: fresh_for_def usable_def busy_def map_of_eq_None_iff [symmetric])
  next
    case 1
    show ?thesis
    proof (cases e)
      case (Use s' opts)
      then show ?thesis
        using fresh_step_idle_use [OF F 1, of isD s' opts w'] step sd by (auto simp: steady_event_def)
    next
      case (Dispose s')
      then have ne: "s' \<noteq> s" and w': "w' = dispose_slot isD s' w"
        using step sd by (auto simp: steady_event_def slot_step.simps)
      show ?thesis
      proof (cases "slot_disposed (slots w s')")
        case False
        let ?w = "put_slot s' ((slots w s')\<lparr>slot_disposed := True, pendingKey := None\<rparr>) (cancel s' w)"
        have "queue_idle ?w" using cancel_idle [OF 1] by simp
        then have "busy s' DisposeTask AwaitDispose w'" "pending w' = []"
          using False schedule_idle [of ?w] by (simp_all add: w' dispose_slot_def)
        then show ?thesis using F ne q' by (auto simp: fresh_for_def usable_def busy_def w')
      qed (use F in \<open>simp add: w' dispose_slot_def\<close>)
    qed (use st in \<open>simp_all add: settlement_def\<close>)
  qed
qed

lemma waiting_other:
  assumes step: "slot_step isD e w = Some w'" and W: "queued_for s k w \<or> flying_for s k w"
    and st: "\<not> settlement e" and sd: "steady_event s k w e"
  shows "(queued_for s k w' \<or> flying_for s k w') \<and> ahead s w' \<le> ahead s w"
proof -
  obtain s0 t0 p0 where b: "busy s0 t0 p0 w" using W by (auto simp: queued_for_def flying_for_def)
  have pk: "map_option key_str (pendingKey (slots w s)) = Some k"
    using W by (auto simp: queued_for_def flying_for_def)
  have o: "busy s0 t0 p0 w'" "slots w' s = slots w s" "map_of (pending w') s = map_of (pending w) s"
    "s \<in> fst ` set (pending w) \<longrightarrow> place s (pending w') \<le> place s (pending w)"
    using other_event_pending [OF step b st sd disjI1 [OF pk]] by blast+
  have infl: "inflight w' = inflight w" using b o(1) by (simp add: busy_def)
  have dom: "s \<in> fst ` set (pending w') \<longleftrightarrow> s \<in> fst ` set (pending w)"
    using o(3) by (simp add: map_of_eq_None_iff [symmetric])
      (metis map_of_eq_None_iff)
  have us: "usable s k w' \<longleftrightarrow> usable s k w" using o(2) by (simp add: usable_def)
  have cl: "clash s k w' \<longleftrightarrow> clash s k w" using infl by (simp add: clash_def)
  have "queued_for s k w \<Longrightarrow> queued_for s k w'"
    using o(1-3) us cl pk unfolding queued_for_def by auto
  moreover have "flying_for s k w \<Longrightarrow> flying_for s k w'"
    using b o(1,2) us dom unfolding flying_for_def busy_def by auto
  moreover have "ahead s w' \<le> ahead s w"
    using o(4) dom infl b by (auto simp: ahead_def busy_def)
  ultimately show ?thesis using W by blast
qed

subsection \<open>The bound\<close>

lemma fresh_run:
  assumes "slot_run isD es w = Some w'" and "steady_run isD s k es w" and "fresh_for s k w"
  shows "fresh_for s k w'"
  using assms
proof (induction es arbitrary: w)
  case Nil
  then show ?case by simp
next
  case (Cons e es)
  from Cons.prems obtain w1 where "slot_step isD e w = Some w1" "slot_run isD es w1 = Some w'"
    "steady_run isD s k es w1" "steady_event s k w e"
    by (auto split: option.splits)
  then show ?case using Cons.IH fresh_settles fresh_other Cons.prems(3) by blast
qed

lemma steady_run_progress:
  assumes "slot_run isD es w = Some w'" and "steady_run isD s k es w"
    and "queued_for s k w \<or> flying_for s k w \<or> fresh_for s k w"
  shows "fresh_for s k w' \<or>
    ((queued_for s k w' \<or> flying_for s k w') \<and> ahead s w' + length (filter settlement es) \<le> ahead s w)"
  using assms
proof (induction es arbitrary: w)
  case Nil
  then show ?case by auto
next
  case (Cons e es)
  from Cons.prems obtain w1 where step: "slot_step isD e w = Some w1"
    and run: "slot_run isD es w1 = Some w'" and rest: "steady_run isD s k es w1"
    and sd: "steady_event s k w e"
    by (auto split: option.splits)
  have 1: "fresh_for s k w1 \<or> ((queued_for s k w1 \<or> flying_for s k w1) \<and>
      ahead s w1 + (if settlement e then 1 else 0) \<le> ahead s w)"
  proof (cases "fresh_for s k w")
    case True
    then show ?thesis using fresh_settles [OF step] fresh_other [OF step _ _ sd] by blast
  next
    case False
    with Cons.prems have W: "queued_for s k w \<or> flying_for s k w" by blast
    then show ?thesis
      using queued_settles [OF step] flying_settles [OF step _ _ sd] waiting_other [OF step W _ sd]
      by (cases "settlement e") fastforce+
  qed
  show ?case
  proof (cases "fresh_for s k w1")
    case True
    then have "fresh_for s k w'" by (rule fresh_run [OF run rest])
    then show ?thesis ..
  next
    case False
    then show ?thesis using 1 Cons.IH [OF run rest] by (auto split: if_splits)
  qed
qed

lemma ahead_pos: "queued_for s k w \<or> flying_for s k w \<Longrightarrow> 0 < ahead s w"
  using queued_pos flying_pos by blast

lemma fresh_use:
  assumes "fresh_for s (key_str (opt_key opts)) w"
  shows "\<exists>r d. use_slot isD s opts w = Inr (r, w) \<and> qr_isFresh r \<and> qr_data r = Some d"
  using assms
  by (auto simp: fresh_for_def usable_def use_slot_def needs_query_def slot_result_def Let_def
      split: option.splits)

text \<open>
  C8. Progress. A \<open>use\<close> schedules a query, and no query of the slot for the same key is still in flight.
  If from then on the slot is used with that key only and its query succeeds, then after at most three
  settled promises per pending task, and two more, every \<open>use\<close> returns fresh data, whatever the other
  slots on the queue do: they may be used, fail, be cancelled and disposed of in any order.
\<close>

theorem steady_key_gets_fresh:
  assumes reach: "slot_run isD es0 init_world = Some w0"
    and u: "use_slot isD s opts w0 = Inr (r0, w)" and need: "needs_query (slots w0 s) opts"
    and nc: "\<not> clash s (key_str (opt_key opts)) w0"
    and run: "slot_run isD es w = Some w'" and steady: "steady_run isD s (key_str (opt_key opts)) es w"
    and enough: "3 * length (pending w) + 2 \<le> length (filter settlement es)"
  shows "\<exists>r d. use_slot isD s opts w' = Inr (r, w') \<and> qr_isFresh r \<and> qr_data r = Some d"
proof -
  have q: "task_queue_inv w0" by (rule slot_run_invs(1) [OF reach])
  have W: "queued_for s (key_str (opt_key opts)) w \<or> flying_for s (key_str (opt_key opts)) w"
    by (rule use_schedules [OF q u need nc])
  have "fresh_for s (key_str (opt_key opts)) w'"
    using steady_run_progress [OF run steady] W ahead_pos [of s "key_str (opt_key opts)" w']
      ahead_bound [of s w] enough by force
  then show ?thesis by (rule fresh_use)
qed

text \<open>Two slots on one queue: the first is loading, the second becomes fresh after its turn.\<close>

definition example_run :: "nat event list" where
  "example_run =
     [DisposeSettles 0 None, Use 1 (example_use ''1''), QuerySettles 0 (Rejected (ErrorValue ''no'')),
      TaskSettles 0, DisposeSettles 0 None, QuerySettles 0 (Fulfilled 7)]"

definition example_start :: "nat slot_world" where
  "example_start = the (slot_run (\<lambda>_. False) [Use 0 (example_use ''1'')] init_world)"

definition example_loading :: "nat slot_world" where
  "example_loading = snd (projr (use_slot (\<lambda>_. False) 1 (example_use ''1'') example_start))"

theorem steady_key_gets_fresh_witness:
  "\<exists>r d. use_slot (\<lambda>_. False) 1 (example_use ''1'')
      (the (slot_run (\<lambda>_. False) example_run example_loading)) =
      Inr (r, the (slot_run (\<lambda>_. False) example_run example_loading)) \<and>
    qr_isFresh r \<and> qr_data r = Some (d :: nat)"
proof (rule steady_key_gets_fresh [of "\<lambda>_. False" "[Use 0 (example_use ''1'')]" example_start 1
      "example_use ''1''" _ example_loading example_run])
  show "slot_run (\<lambda>_. False) [Use 0 (example_use ''1'')] init_world = Some example_start"
    unfolding example_start_def by (rule some_the) code_simp
  show "use_slot (\<lambda>_. False) 1 (example_use ''1'') example_start =
      Inr (fst (projr (use_slot (\<lambda>_. False) 1 (example_use ''1'') example_start)), example_loading)"
    unfolding example_loading_def by (rule inr_projr) code_simp
  show "slot_run (\<lambda>_. False) example_run example_loading =
      Some (the (slot_run (\<lambda>_. False) example_run example_loading))"
    by (rule some_the) code_simp
qed code_simp+

subsection \<open>A key that is never fresh\<close>

text \<open>
  Queries that honour their cancellation signal: \<open>queryFn\<close> gives \<open>QUERY_CANCELLED\<close> exactly when its
  signal has been set.
\<close>

definition obedient :: "'d slot_world \<Rightarrow> 'd event \<Rightarrow> bool" where
  "obedient w e \<longleftrightarrow>
     (case e of
        QuerySettles i r \<Rightarrow>
          (case nth_opt (inflight w) i of
             Some (_, QueryTask _ _ sig, _) \<Rightarrow> (r = FulfilledCancelled) = (signals w ! sig)
           | _ \<Rightarrow> False)
      | _ \<Rightarrow> True)"

fun obedient_run :: "('d \<Rightarrow> bool) \<Rightarrow> 'd event list \<Rightarrow> 'd slot_world \<Rightarrow> bool" where
  "obedient_run isD [] w = True"
| "obedient_run isD (e # es) w =
     (obedient w e \<and>
      (case slot_step isD e w of None \<Rightarrow> False | Some w' \<Rightarrow> obedient_run isD es w'))"

lemma obedient_run_append:
  assumes "slot_run isD es w = Some w'" and "obedient_run isD es w" and "obedient_run isD fs w'"
  shows "obedient_run isD (es @ fs) w"
  using assms by (induction es arbitrary: w) (auto split: option.splits)

definition calls :: "nat \<Rightarrow> 'd slot_world \<Rightarrow> nat" where
  "calls s w = length (filter (\<lambda>e. case e of QueryCalled s' _ _ \<Rightarrow> s' = s | _ \<Rightarrow> False) (effects w))"

text \<open>
  One render while the query is in flight, the end of that query, and the start of the next task.
\<close>

definition busy_render :: "nat \<Rightarrow> query_options \<Rightarrow> 'd query_outcome \<Rightarrow> 'd event list" where
  "busy_render s a r = [Use s a, QuerySettles 0 r, TaskSettles 0, DisposeSettles 0 None]"

text \<open>The first key is used, then another one while its query is in flight, then the first again.\<close>

definition toggle :: "nat \<Rightarrow> query_options \<Rightarrow> query_options \<Rightarrow> 'd query_outcome \<Rightarrow> 'd event list" where
  "toggle s a b r =
     [Use s a, DisposeSettles 0 None, Use s b, Use s a, QuerySettles 0 r, TaskSettles 0,
      DisposeSettles 0 None]"

text \<open>
  The state after it: the query of \<open>a\<close> is in flight, and the slot does not know that it is pending.
\<close>

definition forgotten :: "nat \<Rightarrow> query_options \<Rightarrow> 'd slot_world \<Rightarrow> bool" where
  "forgotten s a w \<longleftrightarrow>
     (\<exists>q sig.
        running w \<and> pending w = [] \<and> inflight w = [(s, QueryTask (opt_key a) q sig, AwaitQuery)] \<and>
        currentSignal (slots w s) = Some sig \<and> sig < length (signals w) \<and> \<not> signals w ! sig \<and>
        cache (slots w s) = None \<and> pendingKey (slots w s) = None \<and> \<not> slot_disposed (slots w s) \<and>
        slot_error (slots w s) = None)"

definition wasted :: "('d \<Rightarrow> bool) \<Rightarrow> 'd query_outcome \<Rightarrow> bool" where
  "wasted isD r \<longleftrightarrow> (case r of FulfilledCancelled \<Rightarrow> True | Fulfilled d \<Rightarrow> isD d | Rejected _ \<Rightarrow> False)"

lemmas slot_unfold =
  slot_step.simps use_slot_def needs_query_def schedule_query_def schedule_def runNext_def
  start_task_def dispose_call_def after_dispose_def after_query_def query_ends_def set_phase_def
  task_done_def finaliseQuery_def clear_pending_def drop_disposable_def emit_def put_slot_def
  map_delete_def Let_def nth_opt_def

lemma forgotten_again:
  assumes F: "forgotten s a w" and en: "opt_enabled a \<noteq> Some False" and r: "wasted isD r"
  shows "\<exists>w'. slot_run isD (busy_render s a r) w = Some w' \<and> forgotten s a w' \<and>
    calls s w' = Suc (calls s w) \<and> (r = FulfilledCancelled \<longrightarrow> obedient_run isD (busy_render s a r) w)"
proof -
  obtain q sig where w: "running w" "pending w = []" "inflight w = [(s, QueryTask (opt_key a) q sig, AwaitQuery)]"
    "currentSignal (slots w s) = Some sig" "sig < length (signals w)" "cache (slots w s) = None"
    "pendingKey (slots w s) = None" "\<not> slot_disposed (slots w s)" "slot_error (slots w s) = None"
    using F by (auto simp: forgotten_def)
  have en': "opt_enabled a = None \<or> opt_enabled a = Some True" using en by (cases "opt_enabled a") auto
  show ?thesis
  proof (cases r)
    case (Fulfilled d)
    then show ?thesis
      using w en' r
      by (auto simp: busy_render_def slot_unfold wasted_def forgotten_def calls_def obedient_def nth_append)
  next
    case FulfilledCancelled
    then show ?thesis
      using w en' r
      by (auto simp: busy_render_def slot_unfold wasted_def forgotten_def calls_def obedient_def nth_append)
  next
    case (Rejected e)
    then show ?thesis using r by (simp add: wasted_def)
  qed
qed

lemma toggle_forgets:
  assumes ne: "key_str (opt_key a) \<noteq> key_str (opt_key b)"
    and en: "opt_enabled a \<noteq> Some False" "opt_enabled b \<noteq> Some False" and r: "wasted isD r"
  shows "\<exists>w. slot_run isD (toggle s a b r) init_world = Some w \<and> forgotten s a w \<and> calls s w = 2 \<and>
    (r = FulfilledCancelled \<longrightarrow> obedient_run isD (toggle s a b r) init_world)"
proof -
  have en': "opt_enabled a = None \<or> opt_enabled a = Some True" "opt_enabled b = None \<or> opt_enabled b = Some True"
    using en by (metis (full_types) option.exhaust)+
  show ?thesis
  proof (cases r)
    case (Fulfilled d)
    then show ?thesis
      using en' r ne not_sym [OF ne]
      by (simp add: toggle_def slot_unfold wasted_def forgotten_def calls_def obedient_def nth_append
          init_world_def new_slot_def)
  next
    case FulfilledCancelled
    then show ?thesis
      using en' r ne not_sym [OF ne]
      by (simp add: toggle_def slot_unfold wasted_def forgotten_def calls_def obedient_def nth_append
          init_world_def new_slot_def)
  next
    case (Rejected e)
    then show ?thesis using r by (simp add: wasted_def)
  qed
qed

lemma forgotten_renders:
  assumes "forgotten s a w" and "opt_enabled a \<noteq> Some False" and "\<forall>r \<in> set rs. wasted isD r"
  shows "\<exists>w'. slot_run isD (concat (map (busy_render s a) rs)) w = Some w' \<and> forgotten s a w' \<and>
    calls s w' = length rs + calls s w \<and>
    ((\<forall>r \<in> set rs. r = FulfilledCancelled) \<longrightarrow> obedient_run isD (concat (map (busy_render s a) rs)) w)"
  using assms
proof (induction rs arbitrary: w)
  case Nil
  then show ?case by simp
next
  case (Cons r rs)
  obtain w1 where 1: "slot_run isD (busy_render s a r) w = Some w1" "forgotten s a w1"
    "calls s w1 = Suc (calls s w)" "r = FulfilledCancelled \<longrightarrow> obedient_run isD (busy_render s a r) w"
    using forgotten_again [OF Cons.prems(1,2), of isD r] Cons.prems(3) by auto
  show ?case
    using Cons.IH [OF 1(2) Cons.prems(2)] Cons.prems(3) 1
    by (auto simp: slot_run_append intro: obedient_run_append)
qed

lemma forgotten_use:
  assumes "forgotten s a w" and "opt_enabled a \<noteq> Some False"
  shows "\<exists>w'. use_slot isD s a w = Inr (\<lparr>qr_data = None, qr_isPending = True, qr_isFresh = False\<rparr>, w')"
proof -
  have "opt_enabled a = None \<or> opt_enabled a = Some True" using assms(2) by (cases "opt_enabled a") auto
  then show ?thesis using assms(1)
    by (auto simp: forgotten_def use_slot_def needs_query_def Let_def slot_result_def schedule_query_def)
qed

text \<open>
  C30. A slot that is used with one key, another and the first again while the first query is in flight
  forgets that the newer query is pending: the end of the older one clears \<open>pendingKey\<close>. From then on a
  render during each query cancels it and schedules the next, and if queries honour their cancellation
  signal, or return disposables, which the next task disposes of, then at the end of each round of this schedule,
  after any number of queries, the key in use still has no data. (Within a round, between the end of a query
  that returned a disposable and the end of its disposal, a use of the slot does return that data.)
\<close>

theorem toggled_key_never_fresh:
  assumes ne: "key_str (opt_key a) \<noteq> key_str (opt_key b)"
    and en: "opt_enabled a \<noteq> Some False" "opt_enabled b \<noteq> Some False"
    and rs: "\<forall>r \<in> set (r0 # rs). wasted isD r"
  shows "\<exists>w w'. slot_run isD (toggle s a b r0 @ concat (map (busy_render s a) rs)) init_world = Some w \<and>
    use_slot isD s a w = Inr (\<lparr>qr_data = None, qr_isPending = True, qr_isFresh = False\<rparr>, w') \<and>
    calls s w = length rs + 2 \<and>
    ((\<forall>r \<in> set (r0 # rs). r = FulfilledCancelled) \<longrightarrow>
       obedient_run isD (toggle s a b r0 @ concat (map (busy_render s a) rs)) init_world)"
proof -
  obtain w where w: "slot_run isD (toggle s a b r0) init_world = Some w" "forgotten s a w" "calls s w = 2"
    "r0 = FulfilledCancelled \<longrightarrow> obedient_run isD (toggle s a b r0) init_world"
    using toggle_forgets [OF ne en, of isD r0 s] rs by auto
  obtain w2 where w2: "slot_run isD (concat (map (busy_render s a) rs)) w = Some w2" "forgotten s a w2"
    "calls s w2 = length rs + calls s w"
    "(\<forall>r \<in> set rs. r = FulfilledCancelled) \<longrightarrow> obedient_run isD (concat (map (busy_render s a) rs)) w"
    using forgotten_renders [OF w(2) en(1), of rs isD] rs by auto
  obtain w3 where "use_slot isD s a w2 = Inr (\<lparr>qr_data = None, qr_isPending = True, qr_isFresh = False\<rparr>, w3)"
    using forgotten_use [OF w2(2) en(1)] by blast
  then show ?thesis
    using w w2 by (auto simp: slot_run_append intro: obedient_run_append)
qed

theorem toggled_key_never_fresh_witness:
  "\<exists>w w'. slot_run (\<lambda>_. False) (toggle 0 (example_use ''1'') (example_use ''2'') FulfilledCancelled @
      concat (map (busy_render 0 (example_use ''1'')) (replicate 40 FulfilledCancelled))) init_world = Some (w :: nat slot_world) \<and>
    use_slot (\<lambda>_. False) 0 (example_use ''1'') w =
      Inr (\<lparr>qr_data = None, qr_isPending = True, qr_isFresh = False\<rparr>, w') \<and>
    calls 0 w = 42"
proof -
  have w: "\<forall>r \<in> set (FulfilledCancelled # replicate 40 FulfilledCancelled). wasted (\<lambda>_. False) (r :: nat query_outcome)"
    by (auto simp: wasted_def)
  have ne: "key_str (opt_key (example_use ''1'')) \<noteq> key_str (opt_key (example_use ''2''))"
    by (simp add: example_use_def key_str_def)
  have "opt_enabled (example_use v) \<noteq> Some False" for v by (simp add: example_use_def)
  from toggled_key_never_fresh [OF ne this this w, of 0] show ?thesis by auto
qed

end
