(* ===== verification/Undo_History.thy ===== *)
theory Undo_History
  imports Prelude
begin

text \<open>
  Undo and redo of the Data Explorer: \<^verbatim>\<open>HistoryManager\<close> of
  \<^verbatim>\<open>plugins/dev.perfetto.DataExplorer/history_manager.ts\<close>. \<open>serializeState\<close> and \<open>deserializeState\<close> of
  \<^verbatim>\<open>json_handler.ts\<close> are arguments of the operations; the latter may throw.
\<close>

subsection \<open>The class\<close>

text \<open>
  The state of the explorer: the layout of the nodes, the selected nodes, and the rest (the graph and
  its view options).
\<close>

record ('l, 'r) undo_state =
  us_nodeLayouts :: "(string \<times> 'l) list"
  us_selectedNodes :: "string list"
  us_rest :: 'r

definition MAX_HISTORY_SIZE :: nat where
  "MAX_HISTORY_SIZE = 10"

record history_manager =
  hm_history :: "string list"
  hm_currentIndex :: int
  hm_isUndoRedoInProgress :: bool
  hm_lastSerializedState :: "string option"

definition new_history :: history_manager where
  "new_history =
     \<lparr>hm_history = [], hm_currentIndex = - 1, hm_isUndoRedoInProgress = False,
      hm_lastSerializedState = None\<rparr>"

definition canUndo :: "history_manager \<Rightarrow> bool" where
  "canUndo h \<longleftrightarrow> hm_currentIndex h > 0"

definition canRedo :: "history_manager \<Rightarrow> bool" where
  "canRedo h \<longleftrightarrow> hm_currentIndex h < int (length (hm_history h)) - 1"

definition serializeForComparison ::
  "(('l, 'r) undo_state \<Rightarrow> string) \<Rightarrow> ('l, 'r) undo_state \<Rightarrow> string" where
  "serializeForComparison serialize st = serialize (st\<lparr>us_nodeLayouts := [], us_selectedNodes := []\<rparr>)"

text \<open>\<open>slice(0, end)\<close>; a negative end counts from the back.\<close>

definition slice_to :: "int \<Rightarrow> 'a list \<Rightarrow> 'a list" where
  "slice_to e xs = (if e < 0 then take (nat (int (length xs) + e)) xs else take (nat e) xs)"

definition push_entry :: "string \<Rightarrow> history_manager \<Rightarrow> history_manager" where
  "push_entry s h =
     (let h1 = (if hm_currentIndex h < int (length (hm_history h)) - 1
                then h\<lparr>hm_history := slice_to (hm_currentIndex h + 1) (hm_history h)\<rparr> else h);
          xs = hm_history h1 @ [s]
      in if length xs > MAX_HISTORY_SIZE then h1\<lparr>hm_history := tl xs\<rparr>
         else h1\<lparr>hm_history := xs, hm_currentIndex := hm_currentIndex h1 + 1\<rparr>)"

definition pushState ::
  "(('l, 'r) undo_state \<Rightarrow> string) \<Rightarrow> ('l, 'r) undo_state \<Rightarrow> history_manager \<Rightarrow> history_manager" where
  "pushState serialize st h =
     (if hm_isUndoRedoInProgress h then h
      else let serialized = serialize st;
               cmp = serializeForComparison serialize st
           in if (case hm_lastSerializedState h of None \<Rightarrow> False | Some l \<Rightarrow> l \<noteq> [] \<and> cmp = l) then h
              else push_entry serialized (h\<lparr>hm_lastSerializedState := Some cmp\<rparr>))"

text \<open>
  The common part of \<open>undo\<close> and \<open>redo\<close>, at the new index. When \<open>deserializeState\<close> throws, the flag is
  not reset. \<open>this.history[i]\<close> is \<open>undefined\<close> out of range, which \<open>JSON.parse\<close> rejects.
\<close>

definition restore ::
  "(string \<Rightarrow> js_error + 'st) \<Rightarrow> int \<Rightarrow> history_manager \<Rightarrow> (js_error + 'st option) \<times> history_manager" where
  "restore deserialize i h =
     (let h1 = h\<lparr>hm_currentIndex := i, hm_isUndoRedoInProgress := True\<rparr> in
      case (if i < 0 then None else nth_opt (hm_history h) (nat i)) of
        None \<Rightarrow> (Inl (Thrown ''SyntaxError''), h1)
      | Some s \<Rightarrow>
          (case deserialize s of
             Inl e \<Rightarrow> (Inl e, h1)
           | Inr st \<Rightarrow> (Inr (Some st), h1\<lparr>hm_isUndoRedoInProgress := False\<rparr>)))"

definition undo ::
  "(string \<Rightarrow> js_error + 'st) \<Rightarrow> history_manager \<Rightarrow> (js_error + 'st option) \<times> history_manager" where
  "undo deserialize h =
     (if \<not> canUndo h then (Inr None, h) else restore deserialize (hm_currentIndex h - 1) h)"

definition redo ::
  "(string \<Rightarrow> js_error + 'st) \<Rightarrow> history_manager \<Rightarrow> (js_error + 'st option) \<times> history_manager" where
  "redo deserialize h =
     (if \<not> canRedo h then (Inr None, h) else restore deserialize (hm_currentIndex h + 1) h)"

definition clear_history :: "history_manager \<Rightarrow> history_manager" where
  "clear_history h = h\<lparr>hm_history := [], hm_currentIndex := - 1\<rparr>"

subsection \<open>Specification: a bounded zipper\<close>

text \<open>
  The entries before the current one, the current one, the entries after it. A push forgets what was
  undone and keeps the last ten entries.
\<close>

type_synonym zipper = "string list \<times> string option \<times> string list"

fun zip_push :: "string \<Rightarrow> zipper \<Rightarrow> zipper" where
  "zip_push s (p, None, f) = ([], Some s, [])"
| "zip_push s (p, Some c, f) =
     (if length p < 9 then p @ [c] else tl (p @ [c]), Some s, [])"

fun zip_undo :: "zipper \<Rightarrow> zipper" where
  "zip_undo (p, Some c, f) = (if p = [] then (p, Some c, f) else (butlast p, Some (last p), c # f))"
| "zip_undo (p, None, f) = (p, None, f)"

fun zip_redo :: "zipper \<Rightarrow> zipper" where
  "zip_redo (p, Some c, []) = (p, Some c, [])"
| "zip_redo (p, Some c, n # f) = (p @ [c], Some n, f)"
| "zip_redo (p, None, f) = (p, None, f)"

definition zipper_of :: "history_manager \<Rightarrow> zipper" where
  "zipper_of h =
     (if hm_currentIndex h < 0 then ([], None, [])
      else (take (nat (hm_currentIndex h)) (hm_history h),
            Some (hm_history h ! nat (hm_currentIndex h)),
            drop (Suc (nat (hm_currentIndex h))) (hm_history h)))"

definition history_inv :: "history_manager \<Rightarrow> bool" where
  "history_inv h \<longleftrightarrow>
     length (hm_history h) \<le> MAX_HISTORY_SIZE \<and>
     (if hm_history h = [] then hm_currentIndex h = - 1
      else 0 \<le> hm_currentIndex h \<and> hm_currentIndex h < int (length (hm_history h)))"

lemma history_inv_cases:
  assumes "history_inv h"
  obtains (empty) "hm_history h = []" "hm_currentIndex h = - 1" "zipper_of h = ([], None, [])"
  | (at) i where "hm_currentIndex h = int i" "i < length (hm_history h)" "length (hm_history h) \<le> 10"
      "zipper_of h = (take i (hm_history h), Some (hm_history h ! i), drop (Suc i) (hm_history h))"
proof (cases "hm_history h = []")
  case True
  then show ?thesis using assms empty by (simp add: history_inv_def zipper_of_def)
next
  case False
  then obtain i where "hm_currentIndex h = int i" "i < length (hm_history h)"
    using assms by (metis history_inv_def nonneg_int_cases of_nat_less_iff)
  then show ?thesis using assms False at by (simp add: history_inv_def zipper_of_def MAX_HISTORY_SIZE_def)
qed

lemma push_entry_fields [simp]:
  "hm_isUndoRedoInProgress (push_entry s h) = hm_isUndoRedoInProgress h"
  "hm_lastSerializedState (push_entry s h) = hm_lastSerializedState h"
  by (simp_all add: push_entry_def Let_def)

lemma zipper_of_update [simp]:
  "zipper_of (h\<lparr>hm_lastSerializedState := l\<rparr>) = zipper_of h"
  "zipper_of (h\<lparr>hm_isUndoRedoInProgress := b\<rparr>) = zipper_of h"
  "history_inv (h\<lparr>hm_lastSerializedState := l\<rparr>) = history_inv h"
  "history_inv (h\<lparr>hm_isUndoRedoInProgress := b\<rparr>) = history_inv h"
  by (simp_all add: zipper_of_def history_inv_def)

lemma push_entry_refines:
  assumes "history_inv h"
  shows "history_inv (push_entry s h) \<and> zipper_of (push_entry s h) = zip_push s (zipper_of h)"
  using assms
proof (cases rule: history_inv_cases)
  case empty
  then show ?thesis
    by (simp add: push_entry_def history_inv_def zipper_of_def MAX_HISTORY_SIZE_def)
next
  case (at i)
  let ?xs = "take (Suc i) (hm_history h) @ [s]"
  have hist: "hm_history (push_entry s h) = (if length ?xs > 10 then tl ?xs else ?xs)"
    using at by (auto simp: push_entry_def slice_to_def MAX_HISTORY_SIZE_def Let_def nat_add_distrib)
  have idx: "hm_currentIndex (push_entry s h) = (if length ?xs > 10 then int i else int (Suc i))"
    using at by (auto simp: push_entry_def slice_to_def MAX_HISTORY_SIZE_def Let_def nat_add_distrib)
  have len: "length ?xs = Suc (Suc i)" using at(2) by simp
  have snoc: "take (Suc i) (hm_history h) = take i (hm_history h) @ [hm_history h ! i]"
    using at(2) by (simp add: take_Suc_conv_app_nth)
  show ?thesis
  proof (cases "Suc (Suc i) > 10")
    case True
    then have i9: "i = 9" using at by simp
    have "hm_history (push_entry s h) = tl (take i (hm_history h) @ [hm_history h ! i]) @ [s]"
      using hist len True snoc i9 at(2) by (cases "take i (hm_history h)") auto
    moreover have "hm_currentIndex (push_entry s h) = 9" using idx len True i9 by simp
    ultimately show ?thesis
      using at i9 by (simp add: history_inv_def zipper_of_def MAX_HISTORY_SIZE_def nth_append)
  next
    case False
    then have "hm_history (push_entry s h) = take i (hm_history h) @ [hm_history h ! i] @ [s]"
      and "hm_currentIndex (push_entry s h) = int (Suc i)"
      using hist idx len snoc by simp_all
    then show ?thesis
      using at False by (simp add: history_inv_def zipper_of_def MAX_HISTORY_SIZE_def nth_append nat_add_distrib)
  qed
qed

lemma push_entry_set: "set (hm_history (push_entry s h)) \<subseteq> insert s (set (hm_history h))"
proof -
  have tl: "set (tl (xs @ [s])) \<subseteq> insert s (set xs)" for xs :: "string list" by (cases xs) auto
  have sl: "set (slice_to e xs) \<subseteq> set xs" for e and xs :: "string list"
    by (auto simp: slice_to_def dest: in_set_takeD)
  define xs where "xs = (if hm_currentIndex h < int (length (hm_history h)) - 1
      then slice_to (hm_currentIndex h + 1) (hm_history h) else hm_history h)"
  have "hm_history (push_entry s h) = xs @ [s] \<or> hm_history (push_entry s h) = tl (xs @ [s])"
    by (auto simp: push_entry_def Let_def xs_def)
  moreover have "set xs \<subseteq> set (hm_history h)" using sl by (auto simp: xs_def)
  ultimately show ?thesis using tl [of xs] by auto
qed

text \<open>The zipper at a position that \<open>undo\<close> or \<open>redo\<close> moves to.\<close>

lemma canUndo_zipper:
  assumes "history_inv h"
  shows "canUndo h \<longleftrightarrow> fst (zipper_of h) \<noteq> []" and "canRedo h \<longleftrightarrow> snd (snd (zipper_of h)) \<noteq> []"
  using assms by (cases rule: history_inv_cases; auto simp: canUndo_def canRedo_def)+

lemma undo_refines:
  assumes inv: "history_inv h" and un: "canUndo h"
  shows "zipper_of (h\<lparr>hm_currentIndex := hm_currentIndex h - 1\<rparr>) = zip_undo (zipper_of h) \<and>
    history_inv (h\<lparr>hm_currentIndex := hm_currentIndex h - 1\<rparr>) \<and>
    nth_opt (hm_history h) (nat (hm_currentIndex h - 1)) = Some (last (fst (zipper_of h)))"
  using inv
proof (cases rule: history_inv_cases)
  case empty
  then show ?thesis using un by (simp add: canUndo_def)
next
  case (at i)
  then obtain j where i: "i = Suc j" using un by (cases i) (auto simp: canUndo_def)
  have t: "take (Suc j) (hm_history h) = take j (hm_history h) @ [hm_history h ! j]"
    using at(2) i by (simp add: take_Suc_conv_app_nth)
  have d: "drop (Suc j) (hm_history h) = hm_history h ! Suc j # drop (Suc (Suc j)) (hm_history h)"
    using at(2) i by (simp add: Cons_nth_drop_Suc)
  show ?thesis
    using at inv by (simp add: i zipper_of_def t d history_inv_def nth_opt_def) auto
qed

lemma redo_refines:
  assumes inv: "history_inv h" and re: "canRedo h"
  shows "zipper_of (h\<lparr>hm_currentIndex := hm_currentIndex h + 1\<rparr>) = zip_redo (zipper_of h) \<and>
    history_inv (h\<lparr>hm_currentIndex := hm_currentIndex h + 1\<rparr>) \<and>
    nth_opt (hm_history h) (nat (hm_currentIndex h + 1)) = Some (hd (snd (snd (zipper_of h)))) \<and>
    0 \<le> hm_currentIndex h + 1"
  using inv
proof (cases rule: history_inv_cases)
  case empty
  then show ?thesis using re by (simp add: canRedo_def)
next
  case (at i)
  then have i: "Suc i < length (hm_history h)" using re by (auto simp: canRedo_def)
  have t: "take (Suc i) (hm_history h) = take i (hm_history h) @ [hm_history h ! i]"
    using at(2) by (simp add: take_Suc_conv_app_nth)
  have d: "drop (Suc i) (hm_history h) = hm_history h ! Suc i # drop (Suc (Suc i)) (hm_history h)"
    using i by (simp add: Cons_nth_drop_Suc)
  show ?thesis
    using at i inv by (auto simp: zipper_of_def t d history_inv_def nth_opt_def nat_add_distrib)
qed

subsection \<open>Sequences of operations\<close>

datatype 'st history_op = Push 'st | Undo | Redo | Clear

fun history_step ::
  "(('l, 'r) undo_state \<Rightarrow> string) \<Rightarrow> (string \<Rightarrow> js_error + ('l, 'r) undo_state) \<Rightarrow>
   ('l, 'r) undo_state history_op \<Rightarrow> history_manager \<Rightarrow> history_manager" where
  "history_step ser des (Push st) h = pushState ser st h"
| "history_step ser des Undo h = snd (undo des h)"
| "history_step ser des Redo h = snd (redo des h)"
| "history_step ser des Clear h = clear_history h"

definition history_run where
  "history_run ser des ops h = fold (history_step ser des) ops h"

text \<open>The specification keeps, next to the zipper, what the last recorded state looked like.\<close>

fun zip_step ::
  "(('l, 'r) undo_state \<Rightarrow> string) \<Rightarrow> ('l, 'r) undo_state history_op \<Rightarrow>
   zipper \<times> string option \<Rightarrow> zipper \<times> string option" where
  "zip_step ser (Push st) (z, l) =
     (let cmp = serializeForComparison ser st
      in if l = Some cmp \<and> cmp \<noteq> [] then (z, l) else (zip_push (ser st) z, Some cmp))"
| "zip_step ser Undo (z, l) = (zip_undo z, l)"
| "zip_step ser Redo (z, l) = (zip_redo z, l)"
| "zip_step ser Clear (z, l) = (([], None, []), l)"

definition recorded ::
  "(('l, 'r) undo_state \<Rightarrow> string) \<Rightarrow> history_manager \<Rightarrow> bool" where
  "recorded ser h \<longleftrightarrow>
     history_inv h \<and> \<not> hm_isUndoRedoInProgress h \<and> set (hm_history h) \<subseteq> range ser"

lemma restore_ok:
  assumes "nth_opt (hm_history h) (nat i) = Some s" and "0 \<le> i" and "des s = Inr st"
    and "\<not> hm_isUndoRedoInProgress h"
  shows "restore des i h = (Inr (Some st), h\<lparr>hm_currentIndex := i\<rparr>)"
  using assms by (cases h) (simp add: restore_def Let_def)

lemma nth_opt_in_set: "nth_opt xs i = Some x \<Longrightarrow> x \<in> set xs"
  by (auto simp: nth_opt_def split: if_splits)

lemma undo_result:
  assumes R: "recorded ser h" and des: "\<forall>st. \<exists>st'. des (ser st) = Inr st'" and un: "canUndo h"
  shows "\<exists>st. des (last (fst (zipper_of h))) = Inr st \<and>
    undo des h = (Inr (Some st), h\<lparr>hm_currentIndex := hm_currentIndex h - 1\<rparr>)"
proof -
  have inv: "history_inv h" using R by (simp add: recorded_def)
  have n: "nth_opt (hm_history h) (nat (hm_currentIndex h - 1)) = Some (last (fst (zipper_of h)))"
    using undo_refines [OF inv un] by blast
  then have "last (fst (zipper_of h)) \<in> range ser"
    using nth_opt_in_set R by (fastforce simp: recorded_def)
  then obtain st where st: "des (last (fst (zipper_of h))) = Inr st" using des by (metis rangeE)
  have "restore des (hm_currentIndex h - 1) h = (Inr (Some st), h\<lparr>hm_currentIndex := hm_currentIndex h - 1\<rparr>)"
    using n un st R by (intro restore_ok) (auto simp: canUndo_def recorded_def)
  then show ?thesis using st un by (simp add: undo_def)
qed

lemma redo_result:
  assumes R: "recorded ser h" and des: "\<forall>st. \<exists>st'. des (ser st) = Inr st'" and re: "canRedo h"
  shows "\<exists>st. des (hd (snd (snd (zipper_of h)))) = Inr st \<and>
    redo des h = (Inr (Some st), h\<lparr>hm_currentIndex := hm_currentIndex h + 1\<rparr>)"
proof -
  have inv: "history_inv h" using R by (simp add: recorded_def)
  have n: "nth_opt (hm_history h) (nat (hm_currentIndex h + 1)) = Some (hd (snd (snd (zipper_of h))))"
    "0 \<le> hm_currentIndex h + 1"
    using redo_refines [OF inv re] by blast+
  then have "hd (snd (snd (zipper_of h))) \<in> range ser"
    using nth_opt_in_set R by (fastforce simp: recorded_def)
  then obtain st where st: "des (hd (snd (snd (zipper_of h)))) = Inr st" using des by (metis rangeE)
  have "restore des (hm_currentIndex h + 1) h = (Inr (Some st), h\<lparr>hm_currentIndex := hm_currentIndex h + 1\<rparr>)"
    using n st R by (intro restore_ok) (auto simp: recorded_def)
  then show ?thesis using st re by (simp add: redo_def)
qed

lemma zip_undo_idle: "fst z = [] \<Longrightarrow> zip_undo z = z"
  by (cases z rule: zip_undo.cases) auto

lemma zip_redo_idle: "snd (snd z) = [] \<Longrightarrow> zip_redo z = z"
  by (cases z rule: zip_redo.cases) auto

lemma history_step_refines:
  assumes R: "recorded ser h" and des: "\<forall>st. \<exists>st'. des (ser st) = Inr st'"
  shows "recorded ser (history_step ser des op h) \<and>
    (zipper_of (history_step ser des op h), hm_lastSerializedState (history_step ser des op h)) =
      zip_step ser op (zipper_of h, hm_lastSerializedState h)"
proof (cases op)
  case (Push st)
  let ?h = "h\<lparr>hm_lastSerializedState := Some (serializeForComparison ser st)\<rparr>"
  have "history_inv ?h" using R by (simp add: recorded_def)
  from push_entry_refines [OF this, of "ser st"] push_entry_set [of "ser st" ?h] R show ?thesis
    by (auto simp: Push pushState_def recorded_def Let_def split: option.split)
next
  case Undo
  show ?thesis
  proof (cases "canUndo h")
    case True
    from undo_result [OF R des True] undo_refines [of h] R True show ?thesis
      by (auto simp: Undo recorded_def)
  next
    case False
    then show ?thesis
      using R canUndo_zipper(1) [of h] zip_undo_idle by (simp add: Undo undo_def recorded_def)
  qed
next
  case Redo
  show ?thesis
  proof (cases "canRedo h")
    case True
    from redo_result [OF R des True] redo_refines [of h] R True show ?thesis
      by (auto simp: Redo recorded_def)
  next
    case False
    then show ?thesis
      using R canUndo_zipper(2) [of h] zip_redo_idle by (simp add: Redo redo_def recorded_def)
  qed
next
  case Clear
  then show ?thesis
    using R by (simp add: clear_history_def recorded_def history_inv_def zipper_of_def MAX_HISTORY_SIZE_def)
qed

lemma history_run_refines:
  assumes "recorded ser h" and "\<forall>st. \<exists>st'. des (ser st) = Inr st'"
  shows "recorded ser (history_run ser des ops h) \<and>
    (zipper_of (history_run ser des ops h), hm_lastSerializedState (history_run ser des ops h)) =
      fold (zip_step ser) ops (zipper_of h, hm_lastSerializedState h)"
  using assms
proof (induction ops arbitrary: h)
  case (Cons op ops)
  show ?case
    using Cons.IH [OF _ Cons.prems(2), of "history_step ser des op h"]
      history_step_refines [OF Cons.prems, of op]
    by (simp add: history_run_def)
qed (simp add: history_run_def)

text \<open>
  C16. When every state that was serialized can be deserialized, every sequence of operations of the history is one of a bounded zipper: the entries before the
  current one, the current one and those after it, of which at most ten are kept. A push whose serialized
  state equals the one that was recorded last is skipped. \<open>undo\<close> and \<open>redo\<close>
  return the neighbour of the current entry, deserialized, or \<open>null\<close> at the end. (After a \<open>deserializeState\<close>
  that throws, no push is recorded any more; the zipper does not describe that.)
\<close>

theorem history_is_zipper:
  fixes ser :: "('l, 'r) undo_state \<Rightarrow> string" and des :: "string \<Rightarrow> js_error + ('l, 'r) undo_state"
    and ops :: "('l, 'r) undo_state history_op list"
  assumes des: "\<forall>st. \<exists>st'. des (ser st) = Inr st'"
  defines "h \<equiv> history_run ser des ops new_history"
  shows "zipper_of h = fst (fold (zip_step ser) ops (([], None, []), None)) \<and>
    length (hm_history h) \<le> MAX_HISTORY_SIZE \<and>
    fst (undo des h) =
      (if fst (zipper_of h) = [] then Inr None else map_sum id Some (des (last (fst (zipper_of h))))) \<and>
    fst (redo des h) =
      (if snd (snd (zipper_of h)) = [] then Inr None
       else map_sum id Some (des (hd (snd (snd (zipper_of h))))))"
proof -
  have R0: "recorded ser new_history"
    by (simp add: recorded_def new_history_def history_inv_def MAX_HISTORY_SIZE_def)
  have z0: "zipper_of new_history = ([], None, [])" "hm_lastSerializedState new_history = None"
    by (simp_all add: zipper_of_def new_history_def)
  have R: "recorded ser h" and z: "(zipper_of h, hm_lastSerializedState h) =
      fold (zip_step ser) ops (([], None, []), None)"
    using history_run_refines [OF R0 des, of ops] z0 by (simp_all add: h_def)
  have inv: "history_inv h" using R by (simp add: recorded_def)
  have "fst (undo des h) =
      (if fst (zipper_of h) = [] then Inr None else map_sum id Some (des (last (fst (zipper_of h)))))"
    using undo_result [OF R des] canUndo_zipper(1) [OF inv] by (auto simp: undo_def)
  moreover have "fst (redo des h) =
      (if snd (snd (zipper_of h)) = [] then Inr None
       else map_sum id Some (des (hd (snd (snd (zipper_of h))))))"
    using redo_result [OF R des] canUndo_zipper(2) [OF inv] by (auto simp: redo_def)
  ultimately show ?thesis using z inv by (metis fst_conv history_inv_def)
qed

text \<open>A serializer to evaluate the properties on: a tag and the rest of the state.\<close>

type_synonym plain = "(nat, string) undo_state"

definition plain_state :: "string \<Rightarrow> plain" where
  "plain_state r = \<lparr>us_nodeLayouts = [], us_selectedNodes = [], us_rest = r\<rparr>"

definition plain_serialize :: "plain \<Rightarrow> string" where
  "plain_serialize st = ''s'' @ us_rest st"

definition plain_deserialize :: "string \<Rightarrow> js_error + plain" where
  "plain_deserialize s = Inr (plain_state (tl s))"

lemma plain_deserialize_total: "\<forall>st. \<exists>st'. plain_deserialize (plain_serialize st) = Inr st'"
  by (simp add: plain_deserialize_def)

definition plain_ops :: "plain history_op list" where
  "plain_ops = [Push (plain_state ''a''), Push (plain_state ''b''), Push (plain_state ''c''), Undo]"

theorem history_is_zipper_witness:
  "fst (undo plain_deserialize
     (history_run plain_serialize plain_deserialize plain_ops new_history)) = Inr (Some (plain_state ''a''))"
proof -
  have "fst (fold (zip_step plain_serialize) plain_ops (([], None, []), None)) = ([''sa''], Some ''sb'', [''sc''])"
    by code_simp
  moreover have "plain_deserialize ''sa'' = Inr (plain_state ''a'')" by (simp add: plain_deserialize_def)
  ultimately show ?thesis using history_is_zipper [OF plain_deserialize_total, of plain_ops] by simp
qed

text \<open>
  After an undo the comparison still looks at the state that was undone: making the same edit again is
  not recorded, and a change that only moves nodes or selects them drops what could be redone. And
  after a \<open>deserializeState\<close> that throws nothing is recorded any more.
\<close>

text \<open>
  After an undo, \<open>pushState\<close> still compares with the state that was undone. Making the same edit again
  is not recorded at all, and moving or selecting a node, which should not be recorded, is, and drops
  what could be redone.
\<close>

theorem undo_compares_with_undone:
  fixes ser :: "('l, 'r) undo_state \<Rightarrow> string" and des :: "string \<Rightarrow> js_error + ('l, 'r) undo_state"
  assumes des: "\<forall>st. \<exists>st'. des (ser st) = Inr st'" and R: "recorded ser h"
    and ab: "serializeForComparison ser a \<noteq> serializeForComparison ser b"
    and b: "serializeForComparison ser b \<noteq> []" and fresh: "hm_lastSerializedState h = Some (serializeForComparison ser a)"
    and cur: "hm_currentIndex h \<ge> 0"
  defines "h1 \<equiv> snd (undo des (pushState ser b h))"
  shows "canRedo h1 \<and>
    pushState ser (b\<lparr>us_nodeLayouts := l, us_selectedNodes := n\<rparr>) h1 = h1 \<and>
    \<not> canRedo (pushState ser (a\<lparr>us_nodeLayouts := l, us_selectedNodes := n\<rparr>) h1)"
proof -
  have inv: "history_inv h" and np: "\<not> hm_isUndoRedoInProgress h" using R by (simp_all add: recorded_def)
  let ?p = "pushState ser b h"
  have p: "?p = push_entry (ser b) (h\<lparr>hm_lastSerializedState := Some (serializeForComparison ser b)\<rparr>)"
    using np fresh ab by (simp add: pushState_def Let_def)
  have Rp: "recorded ser ?p" and zp: "zipper_of ?p = zip_push (ser b) (zipper_of h)"
    and lp: "hm_lastSerializedState ?p = Some (serializeForComparison ser b)"
    using history_step_refines [OF R des, of "Push b"] fresh ab by (simp_all add: Let_def)
  have invp: "history_inv ?p" using Rp by (simp add: recorded_def)
  obtain q c f where zh: "zipper_of h = (q, Some c, f)"
    using inv cur by (cases rule: history_inv_cases) auto
  have ne: "tl (q @ [c]) \<noteq> []" if "\<not> length q < 9" using that by (cases q) auto
  then have un: "canUndo ?p" using canUndo_zipper(1) [OF invp] zp zh by auto
  have h1: "h1 = ?p\<lparr>hm_currentIndex := hm_currentIndex ?p - 1\<rparr>"
    using undo_result [OF Rp des un] by (auto simp: h1_def)
  have inv1: "history_inv h1" and z1: "zipper_of h1 = zip_undo (zipper_of ?p)"
    using undo_refines [OF invp un] by (simp_all add: h1)
  have re: "canRedo h1" using canUndo_zipper(2) [OF inv1] z1 zp zh ne by auto
  have f1: "hm_lastSerializedState h1 = Some (serializeForComparison ser b)" "\<not> hm_isUndoRedoInProgress h1"
    using lp Rp by (simp_all add: h1 recorded_def)
  have c: "serializeForComparison ser (x\<lparr>us_nodeLayouts := l, us_selectedNodes := n\<rparr>) = serializeForComparison ser x" for x
    by (simp add: serializeForComparison_def)
  have 1: "pushState ser (b\<lparr>us_nodeLayouts := l, us_selectedNodes := n\<rparr>) h1 = h1"
    using f1 b by (simp add: pushState_def Let_def c)
  let ?a = "a\<lparr>us_nodeLayouts := l, us_selectedNodes := n\<rparr>"
  have pa: "pushState ser ?a h1 =
      push_entry (ser ?a) (h1\<lparr>hm_lastSerializedState := Some (serializeForComparison ser a)\<rparr>)"
    using f1 ab by (simp add: pushState_def Let_def c)
  have "history_inv (h1\<lparr>hm_lastSerializedState := Some (serializeForComparison ser a)\<rparr>)"
    using inv1 by simp
  from push_entry_refines [OF this, of "ser ?a"]
  have "history_inv (pushState ser ?a h1)" "zipper_of (pushState ser ?a h1) = zip_push (ser ?a) (zipper_of h1)"
    by (simp_all add: pa)
  moreover have "snd (snd (zip_push s z)) = []" for s z
    by (cases "(s, z)" rule: zip_push.cases) auto
  ultimately have 2: "\<not> canRedo (pushState ser ?a h1)" using canUndo_zipper(2) by simp
  show ?thesis using re 1 2 by simp
qed

theorem undo_compares_with_undone_witness:
  "pushState plain_serialize (plain_state ''b'')
     (snd (undo plain_deserialize (pushState plain_serialize (plain_state ''b'')
        (pushState plain_serialize (plain_state ''a'') new_history)))) =
   snd (undo plain_deserialize (pushState plain_serialize (plain_state ''b'')
        (pushState plain_serialize (plain_state ''a'') new_history)))"
proof -
  let ?h = "pushState plain_serialize (plain_state ''a'') new_history"
  have R0: "recorded plain_serialize new_history"
    by (simp add: recorded_def new_history_def history_inv_def MAX_HISTORY_SIZE_def)
  have R: "recorded plain_serialize ?h"
    using history_step_refines [OF R0 plain_deserialize_total, of "Push (plain_state ''a'')"] by simp
  have "hm_lastSerializedState ?h = Some (serializeForComparison plain_serialize (plain_state ''a''))"
    and "hm_currentIndex ?h \<ge> 0"
    by (simp_all add: pushState_def new_history_def Let_def push_entry_def MAX_HISTORY_SIZE_def)
  with undo_compares_with_undone [OF plain_deserialize_total R, of "plain_state ''a''" "plain_state ''b''" "[]" "[]"]
  show ?thesis
    by (simp add: serializeForComparison_def plain_serialize_def plain_state_def)
qed

end
