(* ===== verification/Engine.thy ===== *)
theory Engine
  imports Row_Iterator
begin

text \<open>
  \<^verbatim>\<open>ui/src/trace_processor/engine.ts\<close>: the RPC engine (\<open>EngineBase\<close>) that matches the responses of the
  trace processor with the pending requests, and the tagging proxy (\<open>EngineProxy\<close>). The decoder of
  \<open>TraceProcessorRpc\<close> is generated code and an argument of the handlers; the bytes of a request are kept
  as the structured request that is encoded.
\<close>

subsection \<open>Messages\<close>

datatype tpm =
    TPM_APPEND_TRACE_DATA | TPM_FINALIZE_TRACE_DATA | TPM_RESET_TRACE_PROCESSOR
  | TPM_RESTORE_INITIAL_TABLES | TPM_QUERY_STREAMING | TPM_COMPUTE_METRIC
  | TPM_DISABLE_AND_READ_METATRACE | TPM_REGISTER_SQL_PACKAGE | TPM_SUMMARIZE_TRACE
  | TPM_CREATE_SUMMARIZER | TPM_UPDATE_SUMMARIZER_SPEC | TPM_QUERY_SUMMARIZER
  | TPM_DESTROY_SUMMARIZER | TPM_ENABLE_METATRACE | TPM_OTHER

record metric_result =
  mr_error :: "string option"
  metricsAsPrototext :: "string option"
  metricsAsJson :: "string option"
  mr_metrics :: "bytes option"

text \<open>A decoded response: a field is \<open>None\<close> when it is not set. The results that the engine only hands over are bytes.\<close>

record rpc_response =
  fatalError :: "string option"
  rs_seq :: int
  response :: tpm
  appendResult :: "string option option"
  finalizeDataResult :: "string option option"
  queryResult :: "u8_view option"
  metricResult :: "metric_result option"
  registerSqlPackageResult :: "string option option"
  metatrace :: "bytes option"
  traceSummaryResult :: "bytes option"
  createSummarizerResult :: "bytes option"
  updateSummarizerSpecResult :: "bytes option"
  querySummarizerResult :: "bytes option"
  destroySummarizerResult :: "bytes option"

record trace_processor_config =
  tokenizeOnly :: bool
  cropTrackEvents :: bool
  ingestFtraceInRawTable :: bool
  analyzeTraceProtoContent :: bool
  ftraceDropUntilAllCpusValid :: bool
  extraParsingDescriptors :: "bytes list option"
  forceFullSort :: bool

datatype drop_before = TRACK_EVENT_RANGE_OF_INTEREST | NO_DROP
datatype sorting_mode = FORCE_FULL_SORT | DEFAULT_HEURISTICS
datatype parsing_mode = TOKENIZE_ONLY | PARSE_DEFAULT

record reset_args =
  dropTrackEventDataBefore :: drop_before
  ra_ingestFtraceInRawTable :: bool
  ra_analyzeTraceProtoContent :: bool
  ra_ftraceDropUntilAllCpusValid :: bool
  ra_sortingMode :: sorting_mode
  ra_parsingMode :: parsing_mode
  ra_extraParsingDescriptors :: "bytes list"

datatype result_format = FMT_JSON | FMT_TEXTPROTO | FMT_BINARY_PROTOBUF

datatype summary_specs = Text_specs "string list" | Proto_specs "bytes list"

datatype request =
    RQ_append bytes | RQ_finalize | RQ_reset reset_args | RQ_restore
  | RQ_query string "string option" | RQ_metric "string list" result_format
  | RQ_read_metatrace | RQ_register string "(string \<times> string) list" bool
  | RQ_summarize "string list option" bool "string option" summary_specs result_format
  | RQ_create string | RQ_update string bytes | RQ_query_summarizer string string | RQ_destroy string
  | RQ_enable_metatrace "nat option"

fun request_method :: "request \<Rightarrow> tpm" where
  "request_method (RQ_append _) = TPM_APPEND_TRACE_DATA"
| "request_method RQ_finalize = TPM_FINALIZE_TRACE_DATA"
| "request_method (RQ_reset _) = TPM_RESET_TRACE_PROCESSOR"
| "request_method RQ_restore = TPM_RESTORE_INITIAL_TABLES"
| "request_method (RQ_query _ _) = TPM_QUERY_STREAMING"
| "request_method (RQ_metric _ _) = TPM_COMPUTE_METRIC"
| "request_method RQ_read_metatrace = TPM_DISABLE_AND_READ_METATRACE"
| "request_method (RQ_register _ _ _) = TPM_REGISTER_SQL_PACKAGE"
| "request_method (RQ_summarize _ _ _ _ _) = TPM_SUMMARIZE_TRACE"
| "request_method (RQ_create _) = TPM_CREATE_SUMMARIZER"
| "request_method (RQ_update _ _) = TPM_UPDATE_SUMMARIZER_SPEC"
| "request_method (RQ_query_summarizer _ _) = TPM_QUERY_SUMMARIZER"
| "request_method (RQ_destroy _) = TPM_DESTROY_SUMMARIZER"
| "request_method (RQ_enable_metatrace _) = TPM_ENABLE_METATRACE"

subsection \<open>State\<close>

datatype payload = P_void | P_text string | P_bytes bytes

datatype promise = Unsettled | Fulfilled payload | Refused string

record query_log =
  ql_id :: nat
  ql_query :: string
  ql_tag :: "string option"
  ql_startTime :: nat
  ql_elapsedTimeMs :: "64 word option"
  ql_success :: "bool option"

text \<open>
  The pending arrays and slots hold references: an index into \<open>eng_promises\<close>, the deferreds made by the
  engine, or, for \<open>pendingQueries\<close>, into \<open>eng_results\<close>, the query results made by \<open>query\<close>. \<open>eng_sent\<close> is
  what went through \<open>rpcSendRequestBytes\<close>, oldest first.
\<close>

record engine =
  txSeqId :: nat
  rxSeqId :: int
  rxBuf :: ring_buffer
  pendingParses :: "nat list"
  pendingEOFs :: "nat list"
  pendingResetTraceProcessors :: "nat list"
  pendingQueries :: "nat list"
  pendingRestoreTables :: "nat list"
  pendingComputeMetrics :: "nat list"
  pendingReadMetatrace :: "nat option"
  pendingRegisterSqlPackage :: "nat option"
  pendingTraceSummary :: "nat option"
  pendingCreateSummarizer :: "nat option"
  pendingUpdateSummarizerSpec :: "nat option"
  pendingQuerySummarizer :: "nat option"
  pendingDestroySummarizer :: "nat option"
  numRequestsPending :: int
  eng_failed :: "string option"
  queryLog :: "query_log list"
  eng_logged :: nat
  eng_promises :: "promise list"
  eng_results :: "waitable list"
  eng_sent :: "(nat \<times> request) list"

definition new_engine :: engine where
  "new_engine = \<lparr>txSeqId = 0, rxSeqId = 0, rxBuf = new_ring_buffer PROTO_PREAMBLE, pendingParses = [],
     pendingEOFs = [], pendingResetTraceProcessors = [], pendingQueries = [], pendingRestoreTables = [],
     pendingComputeMetrics = [], pendingReadMetatrace = None, pendingRegisterSqlPackage = None,
     pendingTraceSummary = None, pendingCreateSummarizer = None, pendingUpdateSummarizerSpec = None,
     pendingQuerySummarizer = None, pendingDestroySummarizer = None, numRequestsPending = 0,
     eng_failed = None, queryLog = [], eng_logged = 0, eng_promises = [], eng_results = [], eng_sent = []\<rparr>"

subsection \<open>Responses\<close>

type_synonym engine_result = "(js_error \<times> engine) + engine"

definition settle_promise :: "nat \<Rightarrow> promise \<Rightarrow> engine \<Rightarrow> engine" where
  "settle_promise p d e =
     e\<lparr>eng_promises :=
        (if nth_opt (eng_promises e) p = Some Unsettled then (eng_promises e)[p := d] else eng_promises e)\<rparr>"

text \<open>\<open>exists(r.error) && r.error.length > 0\<close> decides between \<open>reject\<close> and \<open>resolve\<close>.\<close>

definition void_outcome :: "string option \<Rightarrow> promise" where
  "void_outcome err = (case err of Some (c # cs) \<Rightarrow> Refused (c # cs) | _ \<Rightarrow> Fulfilled P_void)"

definition metric_outcome :: "metric_result \<Rightarrow> promise" where
  "metric_outcome r =
     (case mr_error r of
        Some (c # cs) \<Rightarrow> Refused (''ComputeMetric() error: '' @ c # cs)
      | _ \<Rightarrow>
          (case metricsAsPrototext r of
             Some t \<Rightarrow> Fulfilled (P_text t)
           | None \<Rightarrow>
               (case metricsAsJson r of
                  Some t \<Rightarrow> Fulfilled (P_text t)
                | None \<Rightarrow>
                    (case mr_metrics r of Some b \<Rightarrow> Fulfilled (P_bytes b) | None \<Rightarrow> Fulfilled (P_text [])))))"

text \<open>\<open>assertExists(result)\<close>, then \<open>assertExists(queue.shift())\<close>, then the promise is settled.\<close>

definition settle_first ::
  "'r option \<Rightarrow> ('r \<Rightarrow> promise) \<Rightarrow> nat list \<Rightarrow> (nat list \<Rightarrow> engine \<Rightarrow> engine) \<Rightarrow> engine \<Rightarrow> engine_result" where
  "settle_first res out queue put e =
     (case res of
        None \<Rightarrow> Inl (AssertionFailed, e)
      | Some r \<Rightarrow>
          (case queue of
             [] \<Rightarrow> Inl (AssertionFailed, e)
           | p # ps \<Rightarrow> Inr (settle_promise p (out r) (put ps e))))"

text \<open>The same for the requests of which only one may be pending.\<close>

definition settle_slot ::
  "'r option \<Rightarrow> ('r \<Rightarrow> promise) \<Rightarrow> nat option \<Rightarrow> (engine \<Rightarrow> engine) \<Rightarrow> engine \<Rightarrow> engine_result" where
  "settle_slot res out slot clear e =
     (case res of
        None \<Rightarrow> Inl (AssertionFailed, e)
      | Some r \<Rightarrow>
          (case slot of
             None \<Rightarrow> Inl (AssertionFailed, e)
           | Some p \<Rightarrow> Inr (clear (settle_promise p (out r) e))))"

text \<open>A streaming response goes to the query at the head of the queue, which leaves it when complete.\<close>

definition stream_response ::
  "proto_reader \<Rightarrow> u8_view option \<Rightarrow> engine \<Rightarrow> ((js_error \<times> engine) + (bool \<times> engine)) option" where
  "stream_response R res e =
     (case res of
        None \<Rightarrow> Some (Inl (AssertionFailed, e))
      | Some v \<Rightarrow>
          (case pendingQueries e of
             [] \<Rightarrow> Some (Inl (AssertionFailed, e))
           | i # qs \<Rightarrow>
               (let w = eng_results e ! i;
                    upd = (\<lambda>q. e\<lparr>eng_results := (eng_results e)[i := w\<lparr>w_impl := q\<rparr>]\<rparr>)
                in case appendResultBatch R v (w_impl w) of
                     None \<Rightarrow> None
                   | Some (Inl (x, q)) \<Rightarrow> Some (Inl (x, upd q))
                   | Some (Inr q) \<Rightarrow>
                       (if qr_isComplete q then Some (Inr (True, (upd q)\<lparr>pendingQueries := qs\<rparr>))
                        else Some (Inr (False, upd q))))))"

definition dispatch_response :: "rpc_response \<Rightarrow> engine \<Rightarrow> engine_result" where
  "dispatch_response r e =
     (case response r of
        TPM_APPEND_TRACE_DATA \<Rightarrow>
          settle_first (appendResult r) void_outcome (pendingParses e) (\<lambda>ps e. e\<lparr>pendingParses := ps\<rparr>) e
      | TPM_FINALIZE_TRACE_DATA \<Rightarrow>
          settle_first (finalizeDataResult r) void_outcome (pendingEOFs e) (\<lambda>ps e. e\<lparr>pendingEOFs := ps\<rparr>) e
      | TPM_RESET_TRACE_PROCESSOR \<Rightarrow>
          settle_first (Some ()) (\<lambda>_. Fulfilled P_void) (pendingResetTraceProcessors e)
            (\<lambda>ps e. e\<lparr>pendingResetTraceProcessors := ps\<rparr>) e
      | TPM_RESTORE_INITIAL_TABLES \<Rightarrow>
          settle_first (Some ()) (\<lambda>_. Fulfilled P_void) (pendingRestoreTables e)
            (\<lambda>ps e. e\<lparr>pendingRestoreTables := ps\<rparr>) e
      | TPM_COMPUTE_METRIC \<Rightarrow>
          settle_first (metricResult r) metric_outcome (pendingComputeMetrics e)
            (\<lambda>ps e. e\<lparr>pendingComputeMetrics := ps\<rparr>) e
      | TPM_DISABLE_AND_READ_METATRACE \<Rightarrow>
          settle_slot (metatrace r) (Fulfilled \<circ> P_bytes) (pendingReadMetatrace e)
            (\<lambda>e. e\<lparr>pendingReadMetatrace := None\<rparr>) e
      | TPM_REGISTER_SQL_PACKAGE \<Rightarrow>
          settle_slot (registerSqlPackageResult r) void_outcome (pendingRegisterSqlPackage e)
            (\<lambda>e. e\<lparr>pendingRegisterSqlPackage := None\<rparr>) e
      | TPM_SUMMARIZE_TRACE \<Rightarrow>
          settle_slot (traceSummaryResult r) (Fulfilled \<circ> P_bytes) (pendingTraceSummary e)
            (\<lambda>e. e\<lparr>pendingTraceSummary := None\<rparr>) e
      | TPM_CREATE_SUMMARIZER \<Rightarrow>
          settle_slot (createSummarizerResult r) (Fulfilled \<circ> P_bytes) (pendingCreateSummarizer e)
            (\<lambda>e. e\<lparr>pendingCreateSummarizer := None\<rparr>) e
      | TPM_UPDATE_SUMMARIZER_SPEC \<Rightarrow>
          settle_slot (updateSummarizerSpecResult r) (Fulfilled \<circ> P_bytes) (pendingUpdateSummarizerSpec e)
            (\<lambda>e. e\<lparr>pendingUpdateSummarizerSpec := None\<rparr>) e
      | TPM_QUERY_SUMMARIZER \<Rightarrow>
          settle_slot (querySummarizerResult r) (Fulfilled \<circ> P_bytes) (pendingQuerySummarizer e)
            (\<lambda>e. e\<lparr>pendingQuerySummarizer := None\<rparr>) e
      | TPM_DESTROY_SUMMARIZER \<Rightarrow>
          settle_slot (destroySummarizerResult r) (Fulfilled \<circ> P_bytes) (pendingDestroySummarizer e)
            (\<lambda>e. e\<lparr>pendingDestroySummarizer := None\<rparr>) e
      | _ \<Rightarrow> Inr e)"

definition dispatch ::
  "proto_reader \<Rightarrow> rpc_response \<Rightarrow> engine \<Rightarrow> ((js_error \<times> engine) + (bool \<times> engine)) option" where
  "dispatch R r e =
     (if response r = TPM_QUERY_STREAMING then stream_response R (queryResult r) e
      else Some (case dispatch_response r e of Inl x \<Rightarrow> Inl x | Inr e' \<Rightarrow> Inr (True, e')))"

text \<open>\<open>fail\<close> records the reason and throws.\<close>

definition fail_engine :: "string \<Rightarrow> engine \<Rightarrow> js_error \<times> engine" where
  "fail_engine reason e = (Thrown reason, e\<lparr>eng_failed := Some reason\<rparr>)"

definition seq_mismatch :: "int \<Rightarrow> int \<Rightarrow> string" where
  "seq_mismatch cur lst =
     ''RPC sequence id mismatch cur='' @ show_int cur @ '' last='' @ show_int lst @ '' (ERR:rpc_seq)''"

definition count_final :: "((js_error \<times> engine) + (bool \<times> engine)) option \<Rightarrow> engine_result option" where
  "count_final d =
     (case d of
        None \<Rightarrow> None
      | Some (Inl x) \<Rightarrow> Some (Inl x)
      | Some (Inr (final, e)) \<Rightarrow>
          Some (Inr (if final then e\<lparr>numRequestsPending := numRequestsPending e - 1\<rparr> else e)))"

definition handle_response ::
  "proto_reader \<Rightarrow> rpc_response \<Rightarrow> engine \<Rightarrow> engine_result option" where
  "handle_response R r e =
     (if fatalError r \<noteq> None \<and> fatalError r \<noteq> Some [] then Some (Inl (fail_engine (the (fatalError r)) e))
      else if rs_seq r \<noteq> rxSeqId e + 1 \<and> rxSeqId e \<noteq> 0 \<and> rs_seq r \<noteq> 0
      then Some (Inl (fail_engine (seq_mismatch (rs_seq r) (rxSeqId e)) e))
      else count_final (dispatch R r (e\<lparr>rxSeqId := rs_seq r\<rparr>)))"

text \<open>\<open>protos.TraceProcessorRpc.decode\<close> is an argument; it throws on malformed input.\<close>

definition onRpcResponseMessage ::
  "proto_reader \<Rightarrow> (bytes \<Rightarrow> js_error + rpc_response) \<Rightarrow> bytes \<Rightarrow> engine \<Rightarrow> engine_result option" where
  "onRpcResponseMessage R decode msg e =
     (case decode msg of Inl x \<Rightarrow> Some (Inl (x, e)) | Inr r \<Rightarrow> handle_response R r e)"

text \<open>
  The loop of \<open>onRpcResponseBytes\<close>: messages are handled one by one as the buffer yields them, so a throw
  leaves the later ones in the buffer. When \<open>append\<close> itself throws the buffer is kept as it was; the
  code may have moved its contents to the front by then.
\<close>

fun framing_js :: "framing_error \<Rightarrow> js_error" where
  "framing_js RbAssert = AssertionFailed"
| "framing_js RbRange = RangeErr"
| "framing_js (UnexpectedTag tag pos) =
     Thrown (''RPC framing error, unexpected tag '' @ show_nat (unat tag) @ '' @ offset '' @ show_nat pos)"
| "framing_js (MessageTooLarge len) =
     Thrown (''RPC framing error, message too large ('' @ show_int len @ '' > '' @ show_nat kMaxMsgSize)"

function pump ::
  "proto_reader \<Rightarrow> (bytes \<Rightarrow> js_error + rpc_response) \<Rightarrow> ring_buffer \<Rightarrow> engine \<Rightarrow> engine_result option" where
  "pump R decode rb e =
     (case readMessage rb of
        Inl x \<Rightarrow> Some (Inl (framing_js x, e\<lparr>rxBuf := rb\<rparr>))
      | Inr (None, rb') \<Rightarrow> Some (Inr (e\<lparr>rxBuf := rb'\<rparr>))
      | Inr (Some msg, rb') \<Rightarrow>
          (case onRpcResponseMessage R decode msg (e\<lparr>rxBuf := rb'\<rparr>) of
             None \<Rightarrow> None
           | Some (Inl x) \<Rightarrow> Some (Inl x)
           | Some (Inr e') \<Rightarrow> pump R decode rb' e'))"
  by pat_completeness auto
termination
proof (relation "measure (\<lambda>(R, d, rb, e). (rb_wr rb - rb_rd rb) + (if rb_fastpath rb = None then 0 else 1))",
    goal_cases)
  case 1
  show ?case by simp
next
  case (2 R decode rb e v p rb' msg x e')
  then show ?case
    by (auto simp: readMessage_def split: option.splits if_splits sum.splits prod.splits
        dest!: tryReadMessage_progress)
qed

declare pump.simps [simp del]

definition onRpcResponseBytes ::
  "proto_reader \<Rightarrow> (bytes \<Rightarrow> js_error + rpc_response) \<Rightarrow> bytes \<Rightarrow> engine \<Rightarrow> engine_result option" where
  "onRpcResponseBytes R decode data e =
     (case append_data (rxBuf e) data of
        Inl x \<Rightarrow> Some (Inl (framing_js x, e))
      | Inr rb \<Rightarrow> pump R decode rb e)"

subsection \<open>Requests\<close>

text \<open>\<open>defer()\<close>, and the marshalling of a request with the next sequence number.\<close>

definition defer_promise :: "engine \<Rightarrow> nat \<times> engine" where
  "defer_promise e = (length (eng_promises e), e\<lparr>eng_promises := eng_promises e @ [Unsettled]\<rparr>)"

definition rpcSendRequest :: "request \<Rightarrow> engine \<Rightarrow> engine" where
  "rpcSendRequest rpc e = e\<lparr>txSeqId := txSeqId e + 1, numRequestsPending := numRequestsPending e + 1,
     eng_sent := eng_sent e @ [(txSeqId e, rpc)]\<rparr>"

text \<open>\<open>Promise.reject(new Error(msg))\<close>: a promise that is refused from the start.\<close>

definition reject_now :: "string \<Rightarrow> engine \<Rightarrow> nat \<times> engine" where
  "reject_now msg e = (length (eng_promises e), e\<lparr>eng_promises := eng_promises e @ [Refused msg]\<rparr>)"

definition parse_data :: "bytes \<Rightarrow> engine \<Rightarrow> nat \<times> engine" where
  "parse_data data e =
     (let (p, e1) = defer_promise e
      in (p, rpcSendRequest (RQ_append data) (e1\<lparr>pendingParses := pendingParses e1 @ [p]\<rparr>)))"

definition notifyEof :: "engine \<Rightarrow> nat \<times> engine" where
  "notifyEof e =
     (let (p, e1) = defer_promise e
      in (p, rpcSendRequest RQ_finalize (e1\<lparr>pendingEOFs := pendingEOFs e1 @ [p]\<rparr>)))"

definition config_args :: "trace_processor_config \<Rightarrow> reset_args" where
  "config_args c = \<lparr>
     dropTrackEventDataBefore = (if cropTrackEvents c then TRACK_EVENT_RANGE_OF_INTEREST else NO_DROP),
     ra_ingestFtraceInRawTable = ingestFtraceInRawTable c,
     ra_analyzeTraceProtoContent = analyzeTraceProtoContent c,
     ra_ftraceDropUntilAllCpusValid = ftraceDropUntilAllCpusValid c,
     ra_sortingMode = (if forceFullSort c then FORCE_FULL_SORT else DEFAULT_HEURISTICS),
     ra_parsingMode = (if tokenizeOnly c then TOKENIZE_ONLY else PARSE_DEFAULT),
     ra_extraParsingDescriptors = (case extraParsingDescriptors c of None \<Rightarrow> [] | Some ds \<Rightarrow> ds)\<rparr>"

definition resetTraceProcessor :: "trace_processor_config \<Rightarrow> engine \<Rightarrow> nat \<times> engine" where
  "resetTraceProcessor c e =
     (let (p, e1) = defer_promise e
      in (p, rpcSendRequest (RQ_reset (config_args c))
               (e1\<lparr>pendingResetTraceProcessors := pendingResetTraceProcessors e1 @ [p]\<rparr>)))"

definition restoreInitialTables :: "engine \<Rightarrow> nat \<times> engine" where
  "restoreInitialTables e =
     (let (p, e1) = defer_promise e
      in (p, rpcSendRequest RQ_restore (e1\<lparr>pendingRestoreTables := pendingRestoreTables e1 @ [p]\<rparr>)))"

text \<open>The format is checked after the promise was queued.\<close>

definition metric_format :: "string \<Rightarrow> result_format option" where
  "metric_format f =
     (if f = ''json'' then Some FMT_JSON else if f = ''prototext'' then Some FMT_TEXTPROTO
      else if f = ''proto'' then Some FMT_BINARY_PROTOBUF else None)"

definition computeMetric :: "string list \<Rightarrow> string \<Rightarrow> engine \<Rightarrow> (js_error \<times> engine) + (nat \<times> engine)" where
  "computeMetric metrics format e =
     (let (p, e1) = defer_promise e; e2 = e1\<lparr>pendingComputeMetrics := pendingComputeMetrics e1 @ [p]\<rparr>
      in case metric_format format of
           None \<Rightarrow> Inl (Thrown (''Unknown compute metric format '' @ format), e2)
         | Some f \<Rightarrow> Inr (p, rpcSendRequest (RQ_metric metrics f) e2))"

definition specs_length :: "summary_specs \<Rightarrow> nat" where
  "specs_length s = (case s of Text_specs xs \<Rightarrow> length xs | Proto_specs xs \<Rightarrow> length xs)"

text \<open>An empty metadata id is falsy and is not sent; without metric ids all metrics run.\<close>

definition summarizeTrace ::
  "summary_specs \<Rightarrow> string list option \<Rightarrow> string option \<Rightarrow> bool \<Rightarrow> engine \<Rightarrow> nat \<times> engine" where
  "summarizeTrace specs metricIds metadataId asText e =
     (if pendingTraceSummary e \<noteq> None then reject_now ''Already summarizing trace'' e
      else if specs_length specs = 0 then reject_now ''No summary specs provided'' e
      else
        (let (p, e1) = defer_promise e;
             rq = RQ_summarize metricIds (metricIds = None) (if metadataId = Some [] then None else metadataId)
                    specs (if asText then FMT_TEXTPROTO else FMT_BINARY_PROTOBUF)
         in (p, rpcSendRequest rq (e1\<lparr>pendingTraceSummary := Some p\<rparr>))))"

definition streamingQuery :: "nat \<Rightarrow> string \<Rightarrow> string option \<Rightarrow> engine \<Rightarrow> engine" where
  "streamingQuery result sql tag e =
     rpcSendRequest (RQ_query sql tag) (e\<lparr>pendingQueries := pendingQueries e @ [result]\<rparr>)"

definition QUERY_LOG_BUFFER_SIZE :: nat where
  "QUERY_LOG_BUFFER_SIZE = 100"

definition logQueryStart :: "nat \<Rightarrow> string \<Rightarrow> string option \<Rightarrow> engine \<Rightarrow> nat \<times> engine" where
  "logQueryStart now query tag e =
     (let entry = \<lparr>ql_id = eng_logged e, ql_query = query, ql_tag = tag, ql_startTime = now,
            ql_elapsedTimeMs = None, ql_success = None\<rparr>;
          log = queryLog e @ [entry]
      in (eng_logged e,
          e\<lparr>queryLog := (if length log > QUERY_LOG_BUFFER_SIZE then tl log else log),
            eng_logged := eng_logged e + 1\<rparr>))"

text \<open>
  \<open>query\<close> up to its \<open>await\<close>: log, create the result, send, and ask for the promise of all rows. It returns
  the log entry and the index of the result.
\<close>

definition query_start :: "nat \<Rightarrow> string \<Rightarrow> string option \<Rightarrow> engine \<Rightarrow> (js_error \<times> engine) + (nat \<times> nat \<times> engine)" where
  "query_start now sql tag e =
     (let (l, e1) = logQueryStart now sql tag e; i = length (eng_results e1);
          e2 = streamingQuery i sql tag (e1\<lparr>eng_results := eng_results e1 @ [new_waitable]\<rparr>)
      in case w_then (eng_results e2 ! i) of
           Inl x \<Rightarrow> Inl (x, e2)
         | Inr (_, w) \<Rightarrow> Inr (l, i, e2\<lparr>eng_results := (eng_results e2)[i := w]\<rparr>))"

text \<open>The log entry is shared with the caller, so it is updated wherever it still is in the log.\<close>

definition log_update :: "nat \<Rightarrow> (query_log \<Rightarrow> query_log) \<Rightarrow> engine \<Rightarrow> engine" where
  "log_update l f e = e\<lparr>queryLog := map (\<lambda>x. if ql_id x = l then f x else x) (queryLog e)\<rparr>"

text \<open>\<open>query\<close> after its \<open>await\<close>: the outcome of the promise of all rows.\<close>

definition query_finish :: "nat \<Rightarrow> nat \<Rightarrow> engine \<Rightarrow> ((string + nat) \<times> engine) option" where
  "query_finish l i e =
     (let q = w_impl (eng_results e ! i)
      in case Option.bind (allRowsPromise q) (nth_opt (qr_promises q)) of
           Some Resolved \<Rightarrow>
             Some (Inr i, log_update l (\<lambda>x. x\<lparr>ql_success := Some True, ql_elapsedTimeMs := Some (elapsedTimeMs q)\<rparr>) e)
         | Some (Rejected m) \<Rightarrow> Some (Inl m, log_update l (\<lambda>x. x\<lparr>ql_success := Some False\<rparr>) e)
         | _ \<Rightarrow> None)"

text \<open>\<open>enableMetatrace\<close>: the category set \<open>NONE\<close> is 0.\<close>

definition enableMetatrace :: "nat option \<Rightarrow> engine \<Rightarrow> engine" where
  "enableMetatrace categories e =
     rpcSendRequest (RQ_enable_metatrace (if categories = Some 0 then None else categories)) e"

definition stopAndGetMetatrace :: "engine \<Rightarrow> nat \<times> engine" where
  "stopAndGetMetatrace e =
     (if pendingReadMetatrace e \<noteq> None then reject_now ''Already finalising a metatrace'' e
      else (let (p, e1) = defer_promise e
            in (p, rpcSendRequest RQ_read_metatrace (e1\<lparr>pendingReadMetatrace := Some p\<rparr>))))"

definition registerSqlPackages :: "string \<Rightarrow> (string \<times> string) list \<Rightarrow> engine \<Rightarrow> nat \<times> engine" where
  "registerSqlPackages name modules e =
     (if pendingRegisterSqlPackage e \<noteq> None then reject_now ''Already registering SQL package'' e
      else (let (p, e1) = defer_promise e
            in (p, rpcSendRequest (RQ_register name modules True) (e1\<lparr>pendingRegisterSqlPackage := Some p\<rparr>))))"

definition createSummarizer :: "string \<Rightarrow> engine \<Rightarrow> nat \<times> engine" where
  "createSummarizer sid e =
     (if pendingCreateSummarizer e \<noteq> None then reject_now ''Already creating summarizer'' e
      else (let (p, e1) = defer_promise e
            in (p, rpcSendRequest (RQ_create sid) (e1\<lparr>pendingCreateSummarizer := Some p\<rparr>))))"

definition updateSummarizerSpec :: "string \<Rightarrow> bytes \<Rightarrow> engine \<Rightarrow> nat \<times> engine" where
  "updateSummarizerSpec sid spec e =
     (if pendingUpdateSummarizerSpec e \<noteq> None then reject_now ''Already updating summarizer spec'' e
      else (let (p, e1) = defer_promise e
            in (p, rpcSendRequest (RQ_update sid spec) (e1\<lparr>pendingUpdateSummarizerSpec := Some p\<rparr>))))"

definition querySummarizer :: "string \<Rightarrow> string \<Rightarrow> engine \<Rightarrow> nat \<times> engine" where
  "querySummarizer sid qid e =
     (if pendingQuerySummarizer e \<noteq> None then reject_now ''Already querying summarizer'' e
      else (let (p, e1) = defer_promise e
            in (p, rpcSendRequest (RQ_query_summarizer sid qid) (e1\<lparr>pendingQuerySummarizer := Some p\<rparr>))))"

definition destroySummarizer :: "string \<Rightarrow> engine \<Rightarrow> nat \<times> engine" where
  "destroySummarizer sid e =
     (if pendingDestroySummarizer e \<noteq> None then reject_now ''Already destroying summarizer'' e
      else (let (p, e1) = defer_promise e
            in (p, rpcSendRequest (RQ_destroy sid) (e1\<lparr>pendingDestroySummarizer := Some p\<rparr>))))"

subsection \<open>EngineProxy\<close>

record engine_proxy =
  px_tag :: string
  px_disposed :: bool

definition getProxy :: "string \<Rightarrow> engine_proxy" where
  "getProxy tag = \<lparr>px_tag = tag, px_disposed = False\<rparr>"

definition proxy_getProxy :: "string \<Rightarrow> engine_proxy \<Rightarrow> engine_proxy" where
  "proxy_getProxy tag px = getProxy (px_tag px @ ''/'' @ tag)"

definition proxy_dispose :: "engine_proxy \<Rightarrow> engine_proxy" where
  "proxy_dispose px = px\<lparr>px_disposed := True\<rparr>"

text \<open>
  A disposed proxy makes a result that never sees data (\<open>query\<close>), a refusal (\<open>tryQuery\<close>) or a promise that
  nothing settles (\<open>computeMetric\<close>); the other methods forward to the engine.
\<close>

definition proxy_query ::
  "engine_proxy \<Rightarrow> nat \<Rightarrow> string \<Rightarrow> engine \<Rightarrow> (js_error \<times> engine) + (nat option \<times> nat \<times> engine)" where
  "proxy_query px now sql e =
     (if px_disposed px
      then Inr (None, length (eng_results e), e\<lparr>eng_results := eng_results e @ [new_waitable]\<rparr>)
      else (case query_start now sql (Some (px_tag px)) e of
              Inl x \<Rightarrow> Inl x | Inr (l, i, e') \<Rightarrow> Inr (Some l, i, e')))"

definition proxy_tryQuery ::
  "engine_proxy \<Rightarrow> nat \<Rightarrow> string \<Rightarrow> engine \<Rightarrow> (js_error \<times> engine) + (string + nat \<times> nat \<times> engine)" where
  "proxy_tryQuery px now sql e =
     (if px_disposed px then Inr (Inl (''EngineProxy '' @ px_tag px @ '' was disposed''))
      else (case query_start now sql None e of
              Inl x \<Rightarrow> Inl x | Inr (l, i, e') \<Rightarrow> Inr (Inr (l, i, e'))))"

definition proxy_computeMetric ::
  "engine_proxy \<Rightarrow> string list \<Rightarrow> string \<Rightarrow> engine \<Rightarrow> (js_error \<times> engine) + (nat \<times> engine)" where
  "proxy_computeMetric px metrics format e =
     (if px_disposed px then Inr (defer_promise e) else computeMetric metrics format e)"

end
