(* ===== verification/Cells_Batch.thy ===== *)
theory Cells_Batch
  imports Row_Iterator
begin

text \<open>
  The layout of a cells batch, the laws of the protobuf reader that the parser relies on (locale
  \<open>wire_reader\<close>), and the correctness of the batch parser: after \<open>ResultBatch\<close> the offsets and the arrays
  of the batch hold exactly the cells that were encoded.
\<close>

subsection \<open>Encoding\<close>

datatype cell = C_null | C_int nat | C_float "64 word" | C_string string | C_blob bytes

fun cell_kind :: "cell \<Rightarrow> cell_type" where
  "cell_kind C_null = CELL_NULL"
| "cell_kind (C_int _) = CELL_VARINT"
| "cell_kind (C_float _) = CELL_FLOAT64"
| "cell_kind (C_string _) = CELL_STRING"
| "cell_kind (C_blob _) = CELL_BLOB"

definition cell_types :: "cell list \<Rightarrow> bytes" where
  "cell_types cs = map (cell_code \<circ> cell_kind) cs"

fun cell_ints :: "cell list \<Rightarrow> nat list" where
  "cell_ints [] = []"
| "cell_ints (C_int n # cs) = n # cell_ints cs"
| "cell_ints (_ # cs) = cell_ints cs"

fun cell_floats :: "cell list \<Rightarrow> 64 word list" where
  "cell_floats [] = []"
| "cell_floats (C_float w # cs) = w # cell_floats cs"
| "cell_floats (_ # cs) = cell_floats cs"

fun cell_strings :: "cell list \<Rightarrow> string list" where
  "cell_strings [] = []"
| "cell_strings (C_string s # cs) = s # cell_strings cs"
| "cell_strings (_ # cs) = cell_strings cs"

fun cell_blobs :: "cell list \<Rightarrow> bytes list" where
  "cell_blobs [] = []"
| "cell_blobs (C_blob b # cs) = b # cell_blobs cs"
| "cell_blobs (_ # cs) = cell_blobs cs"

text \<open>A length-delimited field.\<close>

definition len_field :: "nat \<Rightarrow> bytes \<Rightarrow> bytes" where
  "len_field n payload = varint_enc (n * 8 + 2) @ varint_enc (length payload) @ payload"

definition le64_bytes :: "64 word \<Rightarrow> bytes" where
  "le64_bytes w = map (\<lambda>i. ucast (drop_bit (8 * i) w)) [0..<8]"

datatype cells_field =
    F_types bytes | F_varints "nat list" | F_floats "64 word list" | F_blob bytes
  | F_strings "string list" | F_last bool | F_padding bytes

definition nul_joined :: "string list \<Rightarrow> string" where
  "nul_joined ss = concat (map (\<lambda>s. s @ [CHR 0x00]) ss)"

fun field_payload :: "(string \<Rightarrow> bytes) \<Rightarrow> cells_field \<Rightarrow> bytes" where
  "field_payload utf8 (F_types ts) = ts"
| "field_payload utf8 (F_varints ns) = concat (map varint_enc ns)"
| "field_payload utf8 (F_floats ws) = concat (map le64_bytes ws)"
| "field_payload utf8 (F_blob b) = b"
| "field_payload utf8 (F_strings ss) = utf8 (nul_joined ss)"
| "field_payload utf8 (F_last l) = [if l then 1 else 0]"
| "field_payload utf8 (F_padding p) = p"

fun encode_field :: "(string \<Rightarrow> bytes) \<Rightarrow> cells_field \<Rightarrow> bytes" where
  "encode_field utf8 (F_last l) = varint_enc 48 @ varint_enc (if l then 1 else 0)"
| "encode_field utf8 (F_types ts) = len_field 1 ts"
| "encode_field utf8 (F_varints ns) = len_field 2 (field_payload utf8 (F_varints ns))"
| "encode_field utf8 (F_floats ws) = len_field 3 (field_payload utf8 (F_floats ws))"
| "encode_field utf8 (F_blob b) = len_field 4 b"
| "encode_field utf8 (F_strings ss) = len_field 5 (field_payload utf8 (F_strings ss))"
| "encode_field utf8 (F_padding p) = len_field 7 p"

definition encode_fields :: "(string \<Rightarrow> bytes) \<Rightarrow> cells_field list \<Rightarrow> bytes" where
  "encode_fields utf8 fs = concat (map (encode_field utf8) fs)"

text \<open>What the parser records for a field found at position \<open>pos\<close>.\<close>

definition payload_pos :: "nat \<Rightarrow> bytes \<Rightarrow> nat" where
  "payload_pos pos payload = pos + 1 + length (varint_enc (length payload))"

fun apply_field :: "(string \<Rightarrow> bytes) \<Rightarrow> nat \<Rightarrow> cells_field \<Rightarrow> result_batch \<Rightarrow> result_batch" where
  "apply_field utf8 pos (F_types ts) b =
     b\<lparr>cellTypesLen := length ts, cellTypesOff := payload_pos pos ts\<rparr>"
| "apply_field utf8 pos (F_varints ns) b =
     (let p = field_payload utf8 (F_varints ns)
      in b\<lparr>varintOff := payload_pos pos p, varintLen := length p\<rparr>)"
| "apply_field utf8 pos (F_floats ws) b = b\<lparr>float64Cells := ws\<rparr>"
| "apply_field utf8 pos (F_blob x) b = b\<lparr>blobCells := blobCells b @ [x]\<rparr>"
| "apply_field utf8 pos (F_strings ss) b = b\<lparr>stringCells := ss @ [[]]\<rparr>"
| "apply_field utf8 pos (F_last l) b = b\<lparr>isLastBatch := l\<rparr>"
| "apply_field utf8 pos (F_padding p) b = b"

fun apply_fields :: "(string \<Rightarrow> bytes) \<Rightarrow> nat \<Rightarrow> cells_field list \<Rightarrow> result_batch \<Rightarrow> result_batch" where
  "apply_fields utf8 pos [] b = b"
| "apply_fields utf8 pos (f # fs) b =
     apply_fields utf8 (pos + length (encode_field utf8 f)) fs (apply_field utf8 pos f b)"

definition field_ok :: "(string \<Rightarrow> bytes) \<Rightarrow> cells_field \<Rightarrow> bool" where
  "field_ok utf8 f \<longleftrightarrow> length (field_payload utf8 f) < 2 ^ 32 \<and>
     (case f of F_strings ss \<Rightarrow> \<forall>s\<in>set ss. CHR 0x00 \<notin> set s | _ \<Rightarrow> True)"

subsection \<open>Little-endian words\<close>

lemma length_le64_bytes [simp]: "length (le64_bytes w) = 8"
  by (simp add: le64_bytes_def)

lemma bit_le64:
  "bit (le64 bs) n \<longleftrightarrow> n < 64 \<and> n div 8 < length bs \<and> bit (bs ! (n div 8)) (n mod 8)"
proof (induction bs arbitrary: n)
  case (Cons b bs)
  show ?case
  proof (cases "n < 8")
    case True
    then show ?thesis by (simp add: le64_def bit_or_iff bit_push_bit_iff bit_ucast_iff)
  next
    case False
    then obtain k where k: "n = k + 8" by (metis add.commute le_Suc_ex not_less)
    have e: "bit (le64 (b # bs)) n \<longleftrightarrow> n < 64 \<and> bit (le64 bs) k \<or> n < 64 \<and> bit b n"
      using k by (auto simp: le64_def bit_or_iff bit_push_bit_iff bit_ucast_iff)
    have "\<not> bit b n" using False bit_imp_le_length [of b n] by auto
    moreover have "n div 8 = Suc (k div 8)" using k by simp
    ultimately show ?thesis using e k Cons.IH [of k] by auto
  qed
qed (simp add: le64_def)

lemma le64_le64_bytes [simp]: "le64 (le64_bytes w) = w"
proof (rule bit_word_eqI)
  fix n assume "n < LENGTH(64)"
  then show "bit (le64 (le64_bytes w)) n = bit w n"
    by (simp add: bit_le64 le64_bytes_def bit_ucast_iff bit_drop_bit_eq less_mult_imp_div_less)
qed

lemma f64_words_enc: "f64_words (length ws) (concat (map le64_bytes ws) @ r) = ws"
  by (induction ws) simp_all

lemma length_concat_le64 [simp]: "length (concat (map le64_bytes ws)) = 8 * length ws"
  by (induction ws) simp_all

lemma f64_view_enc:
  assumes "drop off buffer = concat (map le64_bytes ws) @ r" and "off \<le> length buffer"
  shows "f64_view buffer off (8 * length ws) = Inr ws"
proof -
  have l: "length buffer - off = 8 * length ws + length r"
    using arg_cong [OF assms(1), of length] by simp
  have "seg off (off + 8 * length ws) buffer = concat (map le64_bytes ws)"
    using assms(1) by (simp add: seg_def drop_take)
  then show ?thesis
    using l assms f64_words_enc [of ws r] f64_words_enc [of ws "[]"] by (auto simp: f64_view_def)
qed

lemma varint_enc_small: "t < 128 \<Longrightarrow> varint_enc t = [of_nat t]"
  by (simp add: varint_enc.simps)

subsection \<open>The reader's contract\<close>

text \<open>
  What the parser relies on from \<open>protobuf.Reader\<close> and \<open>TextDecoder\<close>: on the encoding of a value, the
  matching method returns the value and moves behind it, within the limit \<open>len\<close>. \<open>utf8\<close> is the encoder
  that the decoder inverts; it works character by character and keeps the NUL byte. An int64 is
  returned as an exact number only within the safe integers.
\<close>

locale wire_reader =
  fixes R :: proto_reader and utf8 :: "string \<Rightarrow> bytes"
  assumes uint32: "drop pos (take len buf) = varint_enc n @ r \<Longrightarrow> n < 2 ^ 32 \<Longrightarrow>
      rd_uint32 R buf pos len = Inr (n, pos + length (varint_enc n))"
    and str: "drop pos (take len buf) = varint_enc (length (utf8 s)) @ utf8 s @ r \<Longrightarrow>
      length (utf8 s) < 2 ^ 32 \<Longrightarrow>
      rd_string R buf pos len = Inr (s, pos + length (varint_enc (length (utf8 s))) + length (utf8 s))"
    and blob: "drop pos (take len buf) = varint_enc (length x) @ x @ r \<Longrightarrow> length x < 2 ^ 32 \<Longrightarrow>
      rd_bytes R buf pos len = Inr (x, pos + length (varint_enc (length x)) + length x)"
    and boolean: "drop pos (take len buf) = varint_enc (if l then 1 else 0) @ r \<Longrightarrow>
      rd_bool R buf pos len = Inr (l, pos + 1)"
    and int64: "drop pos (take len buf) = varint_enc n @ r \<Longrightarrow> n < 2 ^ 64 \<Longrightarrow>
      \<bar>asIntN64 (int n)\<bar> < 2 ^ 53 \<Longrightarrow>
      rd_int64 R buf pos len = Inr (Int_number (asIntN64 (int n)), pos + length (varint_enc n))"
    and skip: "drop pos (take len buf) = varint_enc n @ r \<Longrightarrow> n < 2 ^ 64 \<Longrightarrow>
      rd_skip R buf pos len = Inr ((), pos + length (varint_enc n))"
    and skip_delimited: "drop pos (take len buf) = varint_enc (length x) @ x @ r \<Longrightarrow> length x < 2 ^ 32 \<Longrightarrow>
      rd_skipType R 2 buf pos len = Inr ((), pos + length (varint_enc (length x)) + length x)"
    and utf8_decode: "rd_utf8 R (utf8 s) = s"
    and utf8_append: "utf8 (s @ t) = utf8 s @ utf8 t"
    and utf8_nul: "utf8 [CHR 0x00] = [0]"
begin

lemma tag_read:
  assumes "drop pos buf = varint_enc t @ r" and "t < 128"
  shows "rd_uint32 R buf pos (length buf) = Inr (t, pos + 1)"
    and "drop (pos + 1) buf = r" and "pos < length buf"
proof -
  have v: "varint_enc t = [of_nat t]" using assms(2) by (simp add: varint_enc.simps)
  show "rd_uint32 R buf pos (length buf) = Inr (t, pos + 1)"
    using uint32 [of pos "length buf" buf t] assms v by simp
  have d: "drop pos buf = of_nat t # r" using assms(1) v by simp
  show "drop (pos + 1) buf = r" and "pos < length buf" using byte_at_enc(2,3) [OF d] by simp_all
qed

lemma len_field_read:
  assumes "drop pos buf = len_field n x @ r" and "n < 15" and "length x < 2 ^ 32"
  shows "rd_uint32 R buf pos (length buf) = Inr (n * 8 + 2, pos + 1)"
    and "drop (pos + 1) buf = varint_enc (length x) @ x @ r" and "pos < length buf"
    and "rd_uint32 R buf (pos + 1) (length buf) = Inr (length x, payload_pos pos x)"
    and "drop (payload_pos pos x) buf = x @ r"
    and "payload_pos pos x + length x = pos + length (len_field n x)"
    and "payload_pos pos x + length x \<le> length buf"
proof -
  from assms(1) have d: "drop pos buf = varint_enc (n * 8 + 2) @ (varint_enc (length x) @ x @ r)"
    by (simp add: len_field_def)
  have t: "n * 8 + 2 < 128" using assms(2) by simp
  note tag = tag_read [OF d t]
  then show "rd_uint32 R buf pos (length buf) = Inr (n * 8 + 2, pos + 1)"
    and d1: "drop (pos + 1) buf = varint_enc (length x) @ x @ r" and lt: "pos < length buf" by auto
  show "rd_uint32 R buf (pos + 1) (length buf) = Inr (length x, payload_pos pos x)"
    using uint32 [of "pos + 1" "length buf" buf "length x"] d1 assms(3) by (simp add: payload_pos_def)
  have "drop (payload_pos pos x) buf = drop (length (varint_enc (length x))) (drop (pos + 1) buf)"
    by (simp add: payload_pos_def add.commute)
  then show d2: "drop (payload_pos pos x) buf = x @ r" unfolding d1 by simp
  have "length (varint_enc (n * 8 + 2)) = 1" using varint_enc_small [OF t] by simp
  then show "payload_pos pos x + length x = pos + length (len_field n x)"
    by (simp add: payload_pos_def len_field_def)
  have "length (drop pos buf) = length (len_field n x) + length r" by (simp add: assms(1))
  with lt show "payload_pos pos x + length x \<le> length buf"
    using \<open>payload_pos pos x + length x = _\<close> by simp
qed

lemma drop_u8_bytes:
  assumes "drop p (u8_bytes v) = x @ r" and "p + length x \<le> length (u8_bytes v)"
  shows "\<exists>r'. drop (u8_byteOffset v + p) (u8_buffer v) = x @ r'"
proof -
  have "drop p (take (u8_length v) (drop (u8_byteOffset v) (u8_buffer v))) = x @ r"
    using assms(1) by (simp add: u8_bytes_def)
  then have "take (u8_length v - p) (drop (u8_byteOffset v + p) (u8_buffer v)) = x @ r"
    by (simp add: drop_take add.commute)
  then show ?thesis by (metis append_assoc append_take_drop_id)
qed

lemma stringCells_enc:
  assumes "\<forall>s\<in>set ss. CHR 0x00 \<notin> set s"
  shows "split_at (CHR 0x00) (rd_utf8 R (utf8 (nul_joined ss))) = ss @ [[]]"
  using assms by (simp add: utf8_decode nul_joined_def split_at_words)

lemma batch_field_enc:
  assumes b: "batchBytes b = u8_bytes v" and d: "drop pos (u8_bytes v) = encode_field utf8 f @ r"
    and ok: "field_ok utf8 f" and v: "u8_byteOffset v + u8_length v \<le> length (u8_buffer v)"
  shows "\<exists>tag p. pos < length (u8_bytes v) \<and>
    rd_uint32 R (u8_bytes v) pos (length (u8_bytes v)) = Inr (tag, p) \<and>
    batch_field R v tag p b = Inr (apply_field utf8 pos f b, pos + length (encode_field utf8 f))"
proof (cases f)
  case (F_types x)
  with len_field_read [of pos "u8_bytes v" 1 x r] d ok b show ?thesis
    by (simp add: batch_field_def batch_cell_types_def TAG_LEN_DELIM_def field_ok_def)
next
  case (F_varints ns)
  with len_field_read [of pos "u8_bytes v" 2 "field_payload utf8 f" r] d ok b show ?thesis
    by (simp add: batch_field_def batch_varints_def TAG_LEN_DELIM_def field_ok_def Let_def)
next
  case (F_floats ws)
  let ?p = "payload_pos pos (field_payload utf8 f)"
  note rd = len_field_read [of pos "u8_bytes v" 3 "field_payload utf8 f" r]
  have rds: "drop ?p (u8_bytes v) = field_payload utf8 f @ r"
      "?p + length (field_payload utf8 f) \<le> length (u8_bytes v)"
    using F_floats rd d ok by (simp_all add: field_ok_def)
  obtain r' where r': "drop (u8_byteOffset v + ?p) (u8_buffer v) = concat (map le64_bytes ws) @ r'"
    using drop_u8_bytes [OF rds] F_floats by auto
  have "u8_byteOffset v + ?p \<le> length (u8_buffer v)" using rds(2) v by (simp add: u8_bytes_def)
  then have "f64_view (u8_buffer v) (u8_byteOffset v + ?p) (8 * length ws) = Inr ws"
    using f64_view_enc r' by blast
  with F_floats rd d ok b show ?thesis
    by (simp add: batch_field_def batch_float64_def TAG_LEN_DELIM_def field_ok_def)
next
  case (F_blob x)
  have "rd_bytes R (u8_bytes v) (pos + 1) (length (u8_bytes v)) = Inr (x, pos + length (len_field 4 x))"
    if "drop (pos + 1) (u8_bytes v) = varint_enc (length x) @ x @ r" "length x < 2 ^ 32"
      "payload_pos pos x + length x = pos + length (len_field 4 x)"
    using blob [of "pos + 1" "length (u8_bytes v)" "u8_bytes v" x r] that
    by (simp add: payload_pos_def)
  with F_blob len_field_read [of pos "u8_bytes v" 4 x r] d ok b show ?thesis
    by (simp add: batch_field_def batch_blob_def TAG_LEN_DELIM_def field_ok_def)
next
  case (F_strings ss)
  let ?x = "field_payload utf8 f"
  have "seg (payload_pos pos ?x) (payload_pos pos ?x + length ?x) (u8_bytes v) = ?x"
    if "drop (payload_pos pos ?x) (u8_bytes v) = ?x @ r"
    using that by (simp add: seg_def drop_take)
  with F_strings len_field_read [of pos "u8_bytes v" 5 ?x r] d ok b stringCells_enc [of ss]
  show ?thesis
    by (simp add: batch_field_def batch_strings_def TAG_LEN_DELIM_def field_ok_def)
next
  case (F_last l)
  with d have "drop pos (u8_bytes v) = varint_enc 48 @ (varint_enc (if l then 1 else 0) @ r)" by simp
  note tag = tag_read [OF this]
  have "length (varint_enc 48) = 1" "length (varint_enc (if l then 1 else 0)) = 1"
    by (simp_all add: varint_enc.simps)
  with F_last tag boolean [of "pos + 1" "length (u8_bytes v)" "u8_bytes v" l r] b show ?thesis
    by (simp add: batch_field_def)
next
  case (F_padding x)
  have "rd_skipType R 2 (u8_bytes v) (pos + 1) (length (u8_bytes v)) = Inr ((), pos + length (len_field 7 x))"
    if "drop (pos + 1) (u8_bytes v) = varint_enc (length x) @ x @ r" "length x < 2 ^ 32"
      "payload_pos pos x + length x = pos + length (len_field 7 x)"
    using skip_delimited [of "pos + 1" "length (u8_bytes v)" "u8_bytes v" x r] that
    by (simp add: payload_pos_def)
  with F_padding len_field_read [of pos "u8_bytes v" 7 x r] d ok b show ?thesis
    by (simp add: batch_field_def skip_field_def TAG_LEN_DELIM_def field_ok_def)
qed

lemma batchBytes_apply [simp]: "batchBytes (apply_field u p f b) = batchBytes b"
  by (cases f) (simp_all add: Let_def)

lemma batch_loop_fields:
  assumes "batchBytes b = u8_bytes v" and "drop pos (u8_bytes v) = encode_fields utf8 fs"
    and "\<forall>f\<in>set fs. field_ok utf8 f" and "u8_byteOffset v + u8_length v \<le> length (u8_buffer v)"
    and "length fs \<le> fuel"
  shows "batch_loop fuel R v pos b = Some (Inr (apply_fields utf8 pos fs b))"
  using assms
proof (induction fs arbitrary: pos b fuel)
  case Nil
  then show ?case by (simp add: batch_loop.simps encode_fields_def)
next
  case (Cons f fs)
  then have d: "drop pos (u8_bytes v) = encode_field utf8 f @ encode_fields utf8 fs"
    by (simp add: encode_fields_def)
  obtain k where k: "fuel = Suc k" using Cons.prems(5) by (cases fuel) auto
  obtain tag p where step: "pos < length (u8_bytes v)"
      "rd_uint32 R (u8_bytes v) pos (length (u8_bytes v)) = Inr (tag, p)"
      "batch_field R v tag p b = Inr (apply_field utf8 pos f b, pos + length (encode_field utf8 f))"
    using batch_field_enc [OF Cons.prems(1) d] Cons.prems by auto
  have "drop (pos + length (encode_field utf8 f)) (u8_bytes v) = encode_fields utf8 fs"
    using d by (metis add.commute append_eq_conv_conj drop_drop)
  then have "batch_loop k R v (pos + length (encode_field utf8 f)) (apply_field utf8 pos f b) =
      Some (Inr (apply_fields utf8 (pos + length (encode_field utf8 f)) fs (apply_field utf8 pos f b)))"
    using Cons.prems k by (intro Cons.IH) auto
  with step k Cons.prems(1) show ?case by (simp add: batch_loop.simps [of "Suc k"])
qed

lemma encode_field_nonempty: "0 < length (encode_field utf8 f)"
  by (cases f) (auto simp: len_field_def varint_enc.simps)

lemma length_encode_fields: "length fs \<le> length (encode_fields utf8 fs)"
proof (induction fs)
  case (Cons f fs)
  then show ?case using encode_field_nonempty [of f] by (simp add: encode_fields_def del: length_greater_0_conv)
qed simp

lemma ResultBatch_fields:
  assumes "u8_bytes v = encode_fields utf8 fs" and "\<forall>f\<in>set fs. field_ok utf8 f"
    and "u8_byteOffset v + u8_length v \<le> length (u8_buffer v)"
  shows "ResultBatch R v = Some (Inr (apply_fields utf8 0 fs (new_batch (u8_bytes v))))"
  using batch_loop_fields [of "new_batch (u8_bytes v)" v 0 fs "length (u8_bytes v)"] assms
    length_encode_fields [of fs]
  by (simp add: ResultBatch_def new_batch_def)

end

subsection \<open>A batch that holds a list of cells\<close>

text \<open>
  The layout that the trace processor writes: cell types, varints, padding, floats, blobs, strings,
  last-batch flag.
\<close>

definition batch_layout :: "bytes \<Rightarrow> bool \<Rightarrow> cell list \<Rightarrow> cells_field list" where
  "batch_layout pad l cs =
     [F_types (cell_types cs), F_varints (cell_ints cs), F_padding pad, F_floats (cell_floats cs)]
     @ map F_blob (cell_blobs cs) @ [F_strings (cell_strings cs), F_last l]"

definition encode_batch :: "(string \<Rightarrow> bytes) \<Rightarrow> bytes \<Rightarrow> bool \<Rightarrow> cell list \<Rightarrow> bytes" where
  "encode_batch utf8 pad l cs = encode_fields utf8 (batch_layout pad l cs)"

text \<open>The batch record gives access to exactly the cells \<open>cs\<close>.\<close>

definition batch_holds :: "cell list \<Rightarrow> result_batch \<Rightarrow> bool" where
  "batch_holds cs b \<longleftrightarrow>
     cellTypesLen b = length cs \<and> cellTypesOff b + length cs \<le> length (batchBytes b) \<and>
     seg (cellTypesOff b) (cellTypesOff b + length cs) (batchBytes b) = cell_types cs \<and>
     varintOff b + varintLen b \<le> length (batchBytes b) \<and>
     seg (varintOff b) (varintOff b + varintLen b) (batchBytes b) = concat (map varint_enc (cell_ints cs)) \<and>
     float64Cells b = cell_floats cs \<and> blobCells b = cell_blobs cs \<and>
     (\<exists>rest. stringCells b = cell_strings cs @ rest)"

lemma apply_fields_append [simp]:
  "apply_fields u p (fs @ gs) b = apply_fields u (p + length (encode_fields u fs)) gs (apply_fields u p fs b)"
  by (induction fs arbitrary: p b) (simp_all add: encode_fields_def add.assoc)

lemma apply_blobs [simp]:
  "apply_fields u p (map F_blob xs) b = b\<lparr>blobCells := blobCells b @ xs\<rparr>"
  by (induction xs arbitrary: p b) simp_all

lemma seg_payload:
  "seg (length pre + 1 + length (varint_enc (length x)))
     (length pre + 1 + length (varint_enc (length x)) + length x) (pre @ len_field n x @ r) = x"
  if "n < 15"
proof -
  have "varint_enc (n * 8 + 2) = [of_nat (n * 8 + 2)]" using that by (simp add: varint_enc.simps)
  then show ?thesis by (simp add: seg_def len_field_def)
qed

lemma length_cell_types [simp]: "length (cell_types cs) = length cs"
  by (simp add: cell_types_def)

lemma batch_layout_holds:
  fixes u cs pad l
  defines "bs \<equiv> encode_batch u pad l cs"
  shows "batch_holds cs (apply_fields u 0 (batch_layout pad l cs) (new_batch bs))"
    and "isLastBatch (apply_fields u 0 (batch_layout pad l cs) (new_batch bs)) = l"
proof -
  define t ns where "t = cell_types cs" and "ns = concat (map varint_enc (cell_ints cs))"
  obtain r where bs: "bs = len_field 1 t @ len_field 2 ns @ r"
    by (simp add: bs_def encode_batch_def batch_layout_def encode_fields_def t_def ns_def)
  have l1: "length (len_field 1 t) = 1 + length (varint_enc (length t)) + length t"
    by (simp add: len_field_def varint_enc.simps [of 10])
  have l2: "length (len_field 2 ns) = 1 + length (varint_enc (length ns)) + length ns"
    by (simp add: len_field_def varint_enc.simps [of 18])
  have s1: "seg (payload_pos 0 t) (payload_pos 0 t + length t) bs = t"
    using seg_payload [of 1 "[]" t "len_field 2 ns @ r"] by (simp add: bs payload_pos_def)
  have s2: "seg (payload_pos (length (len_field 1 t)) ns) (payload_pos (length (len_field 1 t)) ns + length ns) bs = ns"
    using seg_payload [of 2 "len_field 1 t" ns r] by (simp add: bs payload_pos_def)
  have le: "payload_pos 0 t + length t \<le> length bs"
      "payload_pos (length (len_field 1 t)) ns + length ns \<le> length bs"
    using l1 l2 by (simp_all add: bs payload_pos_def)
  have t: "length t = length cs" by (simp add: t_def)
  show "batch_holds cs (apply_fields u 0 (batch_layout pad l cs) (new_batch bs))"
    and "isLastBatch (apply_fields u 0 (batch_layout pad l cs) (new_batch bs)) = l"
    using s1 s2 le
    by (simp_all add: batch_layout_def batch_holds_def new_batch_def Let_def t flip: t_def ns_def)
qed

end
