(* ===== verification/Wire_Format.thy ===== *)
theory Wire_Format
  imports Cells_Batch
begin

text \<open>
  The protobuf wire format as a reader: it satisfies the contract \<open>wire_reader\<close>, so the laws that the
  parser relies on can hold together, and examples can be evaluated.
\<close>

fun wire_varint :: "bytes \<Rightarrow> (nat \<times> nat) option" where
  "wire_varint [] = None"
| "wire_varint (b # bs) =
     (if b < 128 then Some (unat b, 1)
      else (case wire_varint bs of None \<Rightarrow> None | Some (n, k) \<Rightarrow> Some (unat b - 128 + 128 * n, Suc k)))"

definition wire_map :: "(nat \<Rightarrow> 'a) \<Rightarrow> 'a rd" where
  "wire_map f buf pos len =
     (case wire_varint (drop pos (take len buf)) of
        None \<Rightarrow> Inl RangeErr | Some (n, k) \<Rightarrow> Inr (f n, pos + k))"

definition wire_bytes :: "(bytes \<Rightarrow> 'a) \<Rightarrow> 'a rd" where
  "wire_bytes f buf pos len =
     (case wire_varint (drop pos (take len buf)) of
        None \<Rightarrow> Inl RangeErr
      | Some (n, k) \<Rightarrow>
          (let x = take n (drop (pos + k) (take len buf))
           in if length x = n then Inr (f x, pos + k + n) else Inl RangeErr))"

definition wire_fixed :: "nat \<Rightarrow> (bytes \<Rightarrow> 'a) \<Rightarrow> 'a rd" where
  "wire_fixed n f buf pos len =
     (if pos + n \<le> min len (length buf) then Inr (f (seg pos (pos + n) buf), pos + n) else Inl RangeErr)"

text \<open>UTF-8 of the characters up to \<open>U+00FF\<close>.\<close>

definition utf8_char :: "char \<Rightarrow> bytes" where
  "utf8_char c =
     (let n = of_char c :: nat
      in if n < 128 then [of_nat n] else [of_nat (192 + n div 64), of_nat (128 + n mod 64)])"

definition utf8_encode :: "string \<Rightarrow> bytes" where
  "utf8_encode s = concat (map utf8_char s)"

fun utf8_decode :: "bytes \<Rightarrow> string" where
  "utf8_decode [] = []"
| "utf8_decode [b] = [char_of (unat b)]"
| "utf8_decode (b # c # bs) =
     (if b < 128 then char_of (unat b) # utf8_decode (c # bs)
      else char_of ((unat b - 192) * 64 + (unat c - 128)) # utf8_decode bs)"

definition wire_format :: proto_reader where
  "wire_format = \<lparr>rd_uint32 = wire_map (\<lambda>n. n mod 2 ^ 32), rd_string = wire_bytes utf8_decode,
     rd_bytes = wire_bytes (\<lambda>x. x), rd_bool = wire_map (\<lambda>n. n \<noteq> 0), rd_double = wire_fixed 8 le64,
     rd_int64 = wire_map (\<lambda>n. Int_number (asIntN64 (int n))), rd_skip = wire_map (\<lambda>_. ()),
     rd_skipType = (\<lambda>t. if t = 0 then wire_map (\<lambda>_. ()) else if t = 1 then wire_fixed 8 (\<lambda>_. ())
        else if t = 2 then wire_bytes (\<lambda>_. ()) else if t = 5 then wire_fixed 4 (\<lambda>_. ())
        else (\<lambda>_ _ _. Inl (Thrown ''invalid wire type''))),
     rd_utf8 = utf8_decode\<rparr>"

lemma wire_varint_enc: "wire_varint (varint_enc n @ r) = Some (n, length (varint_enc n))"
proof (induction n rule: varint_enc.induct)
  case (1 n)
  show ?case
  proof (cases "n < 128")
    case True
    then show ?thesis by (simp add: varint_enc.simps word_less_nat_alt unat_of_nat)
  next
    case False
    let ?b = "of_nat (n mod 128 + 128) :: byte"
    have "unat ?b = n mod 128 + 128" by (simp add: unat_of_nat del: of_nat_add)
    with False 1 show ?thesis
      by (simp add: varint_enc.simps [of n] word_less_nat_alt del: of_nat_add)
  qed
qed

lemma wire_map_enc:
  "drop pos (take len buf) = varint_enc n @ r \<Longrightarrow> wire_map f buf pos len = Inr (f n, pos + length (varint_enc n))"
  by (simp add: wire_map_def wire_varint_enc)

lemma wire_bytes_enc:
  assumes "drop pos (take len buf) = varint_enc (length x) @ x @ r"
  shows "wire_bytes f buf pos len = Inr (f x, pos + length (varint_enc (length x)) + length x)"
proof -
  let ?k = "length (varint_enc (length x))"
  have "drop (pos + ?k) (take len buf) = drop ?k (drop pos (take len buf))" by (simp add: add.commute)
  also have "\<dots> = x @ r" unfolding assms by simp
  finally have d: "drop (pos + ?k) (take len buf) = x @ r" .
  have "wire_varint (drop pos (take len buf)) = Some (length x, ?k)" by (simp add: assms wire_varint_enc)
  moreover have "take (length x) (drop (pos + ?k) (take len buf)) = x" unfolding d by simp
  ultimately show ?thesis by (simp add: wire_bytes_def Let_def del: length_take length_drop take_drop)
qed

lemma utf8_decode_char: "utf8_decode (utf8_char c @ r) = c # utf8_decode r"
proof -
  define n where "n = (of_char c :: nat)"
  have n: "n < 256" by (simp add: n_def)
  have c: "c = char_of n" by (simp add: n_def)
  show ?thesis
  proof (cases "n < 128")
    case True
    then show ?thesis
      by (cases r) (simp_all add: utf8_char_def word_less_nat_alt unat_of_nat c flip: n_def)
  next
    case False
    have u: "unat (of_nat (192 + n div 64) :: byte) = 192 + n div 64"
      "unat (of_nat (128 + n mod 64) :: byte) = 128 + n mod 64"
      using n by (simp_all add: unat_of_nat del: of_nat_add)
    have "(192 + n div 64 - 192) * 64 + (128 + n mod 64 - 128) = n" by simp
    with False u show ?thesis
      by (simp add: utf8_char_def word_less_nat_alt c Let_def n del: of_nat_add)
  qed
qed

lemma utf8_decode_encode: "utf8_decode (utf8_encode s) = s"
  by (induction s) (simp_all add: utf8_encode_def utf8_decode_char)

lemma utf8_encode_append: "utf8_encode (s @ t) = utf8_encode s @ utf8_encode t"
  by (simp add: utf8_encode_def)

interpretation wire: wire_reader wire_format utf8_encode
proof
  show "utf8_encode [CHR 0x00] = [0]" by (simp add: utf8_encode_def utf8_char_def)
  show "rd_bool wire_format buf pos len = Inr (l, pos + 1)"
    if "drop pos (take len buf) = varint_enc (if l then 1 else 0) @ r" for pos len buf l r
    using wire_map_enc [OF that, of "\<lambda>n. n \<noteq> 0"] by (simp add: wire_format_def varint_enc.simps)
qed (simp_all add: wire_format_def wire_map_enc wire_bytes_enc utf8_decode_encode utf8_encode_append)

end
