(* ===== verification/Query_Result_Correct.thy ===== *)
theory Query_Result_Correct
  imports Wire_Format
begin

text \<open>
  Correctness of the SQL result container and its iterator: column names stay unique, no promise misses
  its wake-up, and what a type error reports.
\<close>

subsection \<open>Column names\<close>

lemma rename_column_sound: "rename_column used orig c i = Inr c' \<Longrightarrow> c' \<notin> set used"
  by (induction used orig c i rule: rename_column.induct)
    (simp add: rename_column.simps split: if_splits)

lemma suffixed_inj: "suffixed orig i = suffixed orig j \<longleftrightarrow> i = j"
  by (simp add: suffixed_def)

lemma suffixed_ne: "suffixed orig i \<noteq> orig"
  by (simp add: suffixed_def)

text \<open>When the loop gives up, every suffix it tried is taken.\<close>

lemma rename_column_fails:
  "rename_column used orig c i = Inl e \<Longrightarrow>
   c \<in> set used \<and> (\<forall>j. i \<le> j \<and> j < 100 \<longrightarrow> suffixed orig j \<in> set used)"
proof (induction used orig c i rule: rename_column.induct)
  case (1 used orig c i)
  show ?case
  proof (cases "c \<in> set used \<and> i < 100")
    case True
    then have "rename_column used orig (suffixed orig i) (i + 1) = Inl e"
      using "1.prems" by (simp add: rename_column.simps [of used orig c])
    from "1.IH" [OF _ _ this] True show ?thesis by (metis le_neq_implies_less Suc_eq_plus1 Suc_leI)
  next
    case False
    with "1.prems" show ?thesis by (auto simp: rename_column.simps [of used orig c] split: if_splits)
  qed
qed

lemma rename_column_total:
  assumes "length used < 100"
  shows "\<exists>c. rename_column used orig orig 1 = Inr c"
proof (rule ccontr)
  assume "\<nexists>c. rename_column used orig orig 1 = Inr c"
  then obtain e where "rename_column used orig orig 1 = Inl e" by (meson sumE)
  from rename_column_fails [OF this]
  have sub: "insert orig (suffixed orig ` {1..<100}) \<subseteq> set used" by auto
  have "card (insert orig (suffixed orig ` {1..<100})) = 100"
  proof -
    have "card (suffixed orig ` {1..<100}) = 99"
      by (subst card_image) (auto simp: inj_on_def suffixed_inj)
    moreover have "orig \<notin> suffixed orig ` {1..<100}" using suffixed_ne [of orig] by (metis imageE)
    ultimately show ?thesis by simp
  qed
  with card_mono [OF _ sub] have "100 \<le> card (set used)" by simp
  also have "\<dots> \<le> length used" by (rule card_length)
  finally show False using assms by simp
qed

definition names_inv :: "bool \<Rightarrow> append_state \<Rightarrow> bool" where
  "names_inv emp s \<longleftrightarrow> distinct (columnNames (as_q s)) \<and> (emp \<longrightarrow> columnNames (as_q s) = as_names s)"

definition names_post :: "bool \<Rightarrow> append_result \<Rightarrow> bool" where
  "names_post emp r = (case r of Inl (e, q) \<Rightarrow> distinct (columnNames q) | Inr s \<Rightarrow> names_inv emp s)"

lemma names_inv_frame [simp]:
  "names_inv emp (s\<lparr>as_pos := p\<rparr>) = names_inv emp s"
  "columnNames q = columnNames (as_q s) \<Longrightarrow> names_inv emp (s\<lparr>as_q := q\<rparr>) = names_inv emp s"
  by (simp_all add: names_inv_def)

lemma names_post_simps [simp]:
  "names_post emp (Inr s) = names_inv emp s"
  "names_post emp (Inl (e, q)) = distinct (columnNames q)"
  by (simp_all add: names_post_def)

lemma names_post_with_read [inv_intro]:
  assumes "names_inv emp s" and "\<And>x p. names_post emp (k x (s\<lparr>as_pos := p\<rparr>))"
  shows "names_post emp (with_read s r k)"
proof (cases r)
  case (Inl e)
  then show ?thesis using assms(1) by (simp add: with_read_def names_inv_def)
next
  case (Inr xp)
  then show ?thesis using assms(2) by (cases xp) (simp add: with_read_def)
qed

lemma names_post_append_column [inv_intro]:
  "names_inv True s \<Longrightarrow> names_post True (append_column c s)"
  by (auto simp: append_column_def names_post_def names_inv_def split: sum.splits
      dest: rename_column_sound)

lemma names_post_push_batch [inv_intro]:
  "names_inv emp s \<Longrightarrow> names_post emp (push_batch b s)"
  by (auto simp: push_batch_def names_post_def names_inv_def Let_def)

lemma names_post_append_batch:
  "names_inv emp s \<Longrightarrow> append_batch R v n s = Some r \<Longrightarrow> names_post emp r"
  using names_post_push_batch [of emp "s\<lparr>as_pos := as_pos s + n\<rparr>"]
  by (auto simp: append_batch_def names_inv_def split: option.splits sum.splits)

lemma names_post_append_field:
  assumes "names_inv emp s" and "append_field R v emp tag s = Some r"
  shows "names_post emp r"
proof -
  have d: "distinct (columnNames (as_q s))" using assms(1) by (simp add: names_inv_def)
  from assms d show ?thesis
    by (auto simp: append_field_def Let_def split: if_splits sum.splits prod.splits
        intro!: inv_intro elim!: names_post_append_batch [rotated])
qed

lemma names_post_append_loop:
  "names_inv emp s \<Longrightarrow> append_loop fuel R v emp s = Some r \<Longrightarrow> names_post emp r"
proof (induction fuel arbitrary: s)
  case 0
  then show ?case by (auto simp: append_loop.simps split: if_splits)
next
  case (Suc k)
  then show ?case
    by (auto simp: append_loop.simps [of "Suc k"] names_inv_def split: if_splits sum.splits prod.splits option.splits
        dest: names_post_append_field [rotated])
qed

definition after_append :: "(js_error \<times> query_result) + query_result \<Rightarrow> query_result" where
  "after_append r = (case r of Inl (e, q) \<Rightarrow> q | Inr q \<Rightarrow> q)"

lemma columnNames_wake [simp]: "columnNames (wake_waiters q) = columnNames q"
  by (simp add: wake_waiters_def resolveOrReject_def Let_def split: option.splits)

text \<open>
  The renaming of a duplicate column succeeds whenever fewer than 100 columns are present: the
  loop ends, gives up on no such query, and returns a name that is not in use.
\<close>

theorem rename_column_succeeds:
  assumes "length used < 100"
  shows "\<exists>c. rename_column used orig orig 1 = Inr c \<and> c \<notin> set used"
  using rename_column_total [OF assms, of orig] rename_column_sound by blast

theorem rename_column_succeeds_witness:
  "\<exists>c. rename_column [''x'', ''x_1''] ''x'' ''x'' 1 = Inr c \<and> c \<notin> set [''x'', ''x_1'']"
  by (rule rename_column_succeeds) simp

subsection \<open>Promises\<close>

text \<open>
  The promises that clients hold: one that is still pending is known to the object, so a later batch
  can settle it, and none is pending once the result is complete.
\<close>

definition pending_ids :: "deferred list \<Rightarrow> nat set" where
  "pending_ids ds = {p. nth_opt ds p = Some Pending}"

definition known_ids :: "query_result \<Rightarrow> nat set" where
  "known_ids q = set_option (moreRowsPromise q) \<union> set_option (allRowsPromise q)"

definition promises_inv :: "query_result \<Rightarrow> bool" where
  "promises_inv q \<longleftrightarrow> known_ids q \<subseteq> {..<length (qr_promises q)} \<and>
     pending_ids (qr_promises q) \<subseteq> (if qr_isComplete q then {} else known_ids q)"

lemma outcome_settled [simp]: "outcome q \<noteq> Pending"
  by (simp add: outcome_def split: option.splits)

lemma length_settle [simp]: "length (settle p d ds) = length ds"
  by (simp add: settle_def)

lemma pending_ids_settle [simp]: "d \<noteq> Pending \<Longrightarrow> pending_ids (settle p d ds) = pending_ids ds - {p}"
  by (auto simp: settle_def pending_ids_def nth_opt_def nth_list_update split: if_splits)

lemma pending_ids_snoc [simp]:
  "pending_ids (ds @ [d]) = pending_ids ds \<union> (if d = Pending then {length ds} else {})"
  by (auto simp: pending_ids_def nth_opt_def nth_append less_Suc_eq split: if_splits)

lemma pending_ids_Nil [simp]: "pending_ids [] = {}"
  by (simp add: pending_ids_def nth_opt_def)

lemma settle_last [simp]: "settle (length ds) d (ds @ [Pending]) = ds @ [d]"
  by (simp add: settle_def nth_opt_def)

lemma promises_inv_new: "promises_inv new_query_result"
  by (simp add: promises_inv_def known_ids_def new_query_result_def)

lemma waitAllRows_eq:
  "waitAllRows q =
     (if allRowsPromise q \<noteq> None then Inl AssertionFailed
      else Inr (length (qr_promises q), q\<lparr>allRowsPromise := Some (length (qr_promises q)),
        qr_promises := qr_promises q @ [if qr_isComplete q then outcome q else Pending]\<rparr>))"
  by (simp add: waitAllRows_def defer_rows_def resolveOrReject_def outcome_def Let_def)

lemma promises_inv_waitAllRows [inv_intro]:
  "promises_inv q \<Longrightarrow> waitAllRows q = Inr (p, q') \<Longrightarrow> promises_inv q'"
  by (cases "qr_isComplete q"; cases "allRowsPromise q")
    (auto simp: promises_inv_def known_ids_def waitAllRows_eq lessThan_Suc)

lemma waitMoreRows_eq:
  "moreRowsPromise q = None \<Longrightarrow> waitMoreRows q =
     (length (qr_promises q),
      if qr_isComplete q then q\<lparr>qr_promises := qr_promises q @ [outcome q]\<rparr>
      else q\<lparr>moreRowsPromise := Some (length (qr_promises q)), qr_promises := qr_promises q @ [Pending]\<rparr>)"
  by (simp add: waitMoreRows_def defer_rows_def resolveOrReject_def outcome_def Let_def)

lemma promises_inv_waitMoreRows [inv_intro]:
  assumes "promises_inv q" and "waitMoreRows q = (p, q')"
  shows "promises_inv q'"
proof (cases "moreRowsPromise q")
  case None
  with assms show ?thesis
    by (cases "qr_isComplete q") (auto simp: promises_inv_def known_ids_def waitMoreRows_eq lessThan_Suc)
next
  case (Some p')
  with assms show ?thesis by (simp add: waitMoreRows_def)
qed

text \<open>Parsing a message touches neither the promises nor the fields that point to them.\<close>

definition same_promises :: "query_result \<Rightarrow> query_result \<Rightarrow> bool" where
  "same_promises q q' \<longleftrightarrow> qr_promises q' = qr_promises q \<and> allRowsPromise q' = allRowsPromise q \<and>
     moreRowsPromise q' = moreRowsPromise q"

lemma same_promises_refl [simp]: "same_promises q q"
  by (simp add: same_promises_def)

lemma same_promises_update [simp]:
  "same_promises q (q\<lparr>qr_error := e\<rparr>)" "same_promises q (q\<lparr>statementCount := n\<rparr>)"
  "same_promises q (q\<lparr>statementWithOutputCount := n\<rparr>)" "same_promises q (q\<lparr>lastStatementSql := t\<rparr>)"
  "same_promises q (q\<lparr>elapsedTimeMs := w\<rparr>)"
  by (simp_all add: same_promises_def)

lemma same_promises_with_read:
  assumes "with_read s r k = Inr s'"
    and "\<And>x p. k x (s\<lparr>as_pos := p\<rparr>) = Inr s' \<Longrightarrow> same_promises (as_q s) (as_q s')"
  shows "same_promises (as_q s) (as_q s')"
  using assms by (cases r) (auto simp: with_read_def)

lemma same_promises_column:
  "append_column c s = Inr s' \<Longrightarrow> same_promises (as_q s) (as_q s')"
  by (auto simp: append_column_def same_promises_def split: sum.splits)

lemma same_promises_push:
  "push_batch b s = Inr s' \<Longrightarrow> same_promises (as_q s) (as_q s')"
  by (auto simp: push_batch_def same_promises_def Let_def split: if_splits)

lemma same_promises_batch:
  "append_batch R v n s = Some (Inr s') \<Longrightarrow> same_promises (as_q s) (as_q s')"
  using same_promises_push [of _ "s\<lparr>as_pos := as_pos s + n\<rparr>" s']
  by (auto simp: append_batch_def split: option.splits sum.splits)

lemma same_promises_field:
  assumes "append_field R v emp tag s = Some (Inr s')"
  shows "same_promises (as_q s) (as_q s')"
  using assms same_promises_column [of _ "s\<lparr>as_pos := _\<rparr>" s']
    same_promises_batch [of R v _ "s\<lparr>as_pos := _\<rparr>" s']
  by (auto simp: append_field_def Let_def elim!: same_promises_with_read
      split: if_splits sum.splits prod.splits)

lemma same_promises_loop:
  "append_loop fuel R v emp s = Some (Inr s') \<Longrightarrow> same_promises (as_q s) (as_q s')"
proof (induction fuel arbitrary: s)
  case 0
  then show ?case by (simp add: append_loop.simps split: if_splits)
next
  case (Suc k)
  show ?case
  proof (cases "as_pos s < length (u8_bytes v)")
    case True
    then obtain tag p s1 where f: "append_field R v emp tag (s\<lparr>as_pos := p\<rparr>) = Some (Inr s1)"
        and l: "append_loop k R v emp s1 = Some (Inr s')"
      using Suc.prems
      by (auto simp: append_loop.simps [of "Suc k"] split: sum.splits prod.splits option.splits)
    show ?thesis
      using same_promises_field [OF f] Suc.IH [OF l] by (simp add: same_promises_def)
  next
    case False
    with Suc.prems show ?thesis by (simp add: append_loop.simps [of "Suc k"])
  qed
qed

lemma wake_waiters_fields [simp]:
  "qr_isComplete (wake_waiters q) = qr_isComplete q" "moreRowsPromise (wake_waiters q) = None"
  "allRowsPromise (wake_waiters q) = allRowsPromise q"
  "length (qr_promises (wake_waiters q)) = length (qr_promises q)"
  by (simp_all add: wake_waiters_def resolveOrReject_def Let_def split: option.splits)

lemma wake_waiters_pending [simp]:
  "pending_ids (qr_promises (wake_waiters q)) =
     pending_ids (qr_promises q) - set_option (moreRowsPromise q) -
       (if qr_isComplete q then set_option (allRowsPromise q) else {})"
  by (cases "moreRowsPromise q"; cases "allRowsPromise q"; cases "qr_isComplete q")
    (simp_all add: wake_waiters_def resolveOrReject_def)

subsection \<open>Type errors\<close>

text \<open>
  What a type error reports: for a cell in row \<open>r\<close> and column \<open>c\<close> of a batch whose cell types start at
  byte \<open>off\<close>, the message names the right column, but a row that is too large by \<open>(off + c) div n\<close>,
  because the position is not made relative to the start of the cell types.
\<close>

theorem type_error_row:
  assumes "c < length names"
    and "cell_type_at bs (off + r * length names + c) = Some actual"
    and "map_of spec (names ! c) = Some e" and "\<not> isCompatible actual e"
  shows "check_cell spec names bs off (off + r * length names + c) =
    Some (row_error (r + (off + c) div length names) (names ! c) (type_mismatch actual e))"
proof -
  have "(off + r * length names + c) div length names = r + (off + c) div length names"
  proof -
    have "length names \<noteq> 0" using assms(1) by auto
    from div_mult_self1 [OF this, of "off + c" r] show ?thesis by (simp only: ac_simps)
  qed
  moreover have "lookup_spec spec (names ! c) = Asked e" using assms(3) by (simp add: lookup_spec_Asked)
  ultimately show ?thesis using assms by (simp add: check_cell_def Let_def)
qed

theorem type_error_row_witness:
  "check_cell [(''id'', T_LONG)] [''id''] [10, 1, 1] 2 2 =
     Some (row_error 2 ''id'' (type_mismatch CELL_NULL T_LONG))"
  using type_error_row [of 0 "[''id'']" "[10, 1, 1]" 2 0 CELL_NULL "[(''id'', T_LONG)]" T_LONG]
  by (simp add: cell_type_at_def nth_opt_def cell_type_of_def numeral_2_eq_2)

end
