(* ===== verification/Rows_Roundtrip.thy ===== *)
theory Rows_Roundtrip
  imports Query_Result_Correct
begin

text \<open>
  From encoded messages to rows: a stream of encoded cell batches is appended without an error, and a
  client that iterates over the result reads exactly the encoded rows, in order.
\<close>

subsection \<open>Messages\<close>

definition encode_names :: "(string \<Rightarrow> bytes) \<Rightarrow> string list \<Rightarrow> bytes" where
  "encode_names utf8 names = concat (map (\<lambda>n. len_field 1 (utf8 n)) names)"

text \<open>A \<open>QueryResult\<close> message: the column names (in the first message only) and one batch of rows.\<close>

definition encode_result :: "(string \<Rightarrow> bytes) \<Rightarrow> string list \<Rightarrow> bytes \<Rightarrow> bool \<Rightarrow> cell list \<Rightarrow> bytes" where
  "encode_result utf8 names pad l cs = encode_names utf8 names @ len_field 3 (encode_batch utf8 pad l cs)"

definition batch_ok :: "(string \<Rightarrow> bytes) \<Rightarrow> bytes \<Rightarrow> bool \<Rightarrow> cell list \<Rightarrow> bool" where
  "batch_ok utf8 pad l cs \<longleftrightarrow> (\<forall>f\<in>set (batch_layout pad l cs). field_ok utf8 f) \<and>
     length (encode_batch utf8 pad l cs) < 2 ^ 32"

definition view_ok :: "u8_view \<Rightarrow> bool" where
  "view_ok v \<longleftrightarrow> u8_byteOffset v + u8_length v \<le> length (u8_buffer v)"

definition push_columns :: "string list \<Rightarrow> nat \<Rightarrow> append_state \<Rightarrow> append_state" where
  "push_columns names p s = s\<lparr>as_pos := p, as_names := as_names s @ names,
     as_q := (as_q s)\<lparr>columnNames := columnNames (as_q s) @ names\<rparr>\<rparr>"

lemma u8_subarray_bytes:
  assumes "view_ok v" and "p + n \<le> length (u8_bytes v)"
  shows "u8_bytes (u8_subarray v p (p + n)) = take n (drop p (u8_bytes v))"
    and "view_ok (u8_subarray v p (p + n))"
proof -
  have "length (u8_bytes v) = u8_length v" using assms(1) by (simp add: u8_bytes_def view_ok_def)
  with assms show "u8_bytes (u8_subarray v p (p + n)) = take n (drop p (u8_bytes v))"
    and "view_ok (u8_subarray v p (p + n))"
    by (simp_all add: u8_bytes_def u8_subarray_def view_ok_def Let_def drop_take min_def add.commute)
qed

context wire_reader
begin

lemma append_column_step:
  assumes "drop (as_pos s) (u8_bytes v) = len_field 1 (utf8 n) @ r" and "length (utf8 n) < 2 ^ 32"
    and "n \<notin> set (as_names s)"
  shows "append_loop (Suc k) R v True s =
    append_loop k R v True (push_columns [n] (as_pos s + length (len_field 1 (utf8 n))) s)"
proof -
  let ?b = "u8_bytes v" and ?p = "as_pos s"
  note rd = len_field_read [OF assms(1) _ assms(2)]
  have "rd_string R ?b (?p + 1) (length ?b) = Inr (n, ?p + length (len_field 1 (utf8 n)))"
    using str [of "?p + 1" "length ?b" ?b n r] rd assms(2) by (simp add: payload_pos_def)
  then show ?thesis
    using rd assms(3)
    by (simp add: append_loop.simps [of "Suc k"] append_field_def with_read_def append_column_def
        rename_column.simps push_columns_def)
qed

lemma append_columns:
  assumes "drop (as_pos s) (u8_bytes v) = encode_names utf8 names @ r" and "length names \<le> fuel"
    and "\<forall>n\<in>set names. length (utf8 n) < 2 ^ 32" and "distinct (as_names s @ names)"
  shows "append_loop fuel R v True s = append_loop (fuel - length names) R v True
    (push_columns names (as_pos s + length (encode_names utf8 names)) s)"
  using assms
proof (induction names arbitrary: s fuel)
  case Nil
  then show ?case by (simp add: push_columns_def encode_names_def)
next
  case (Cons n names)
  obtain k where k: "fuel = Suc k" using Cons.prems(2) by (cases fuel) auto
  have d: "drop (as_pos s) (u8_bytes v) = len_field 1 (utf8 n) @ (encode_names utf8 names @ r)"
    using Cons.prems(1) by (simp add: encode_names_def)
  let ?s1 = "push_columns [n] (as_pos s + length (len_field 1 (utf8 n))) s"
  have "drop (as_pos ?s1) (u8_bytes v) = encode_names utf8 names @ r"
    using d by (simp add: push_columns_def) (metis add.commute append_eq_conv_conj drop_drop)
  moreover have "distinct (as_names ?s1 @ names)" using Cons.prems(4) by (simp add: push_columns_def)
  ultimately have "append_loop k R v True ?s1 = append_loop (k - length names) R v True
      (push_columns names (as_pos ?s1 + length (encode_names utf8 names)) ?s1)"
    using Cons.prems k by (intro Cons.IH) auto
  with append_column_step [OF d, of k] Cons.prems k show ?case
    by (simp add: push_columns_def encode_names_def add.assoc)
qed

lemma append_batch_step:
  assumes "drop (as_pos s) (u8_bytes v) = len_field 3 (encode_batch utf8 pad l cs)"
    and "batch_ok utf8 pad l cs" and "view_ok v"
  shows "\<exists>b p. batch_holds cs b \<and> isLastBatch b = l \<and> length (u8_bytes v) \<le> p \<and>
    append_loop (Suc k) R v emp s =
      (case push_batch b (s\<lparr>as_pos := p\<rparr>) of
         Inl e \<Rightarrow> Some (Inl e) | Inr s' \<Rightarrow> append_loop k R v emp s')"
proof -
  let ?x = "encode_batch utf8 pad l cs" and ?b = "u8_bytes v" and ?pos = "as_pos s"
  have len: "length ?x < 2 ^ 32" using assms(2) by (simp add: batch_ok_def)
  have d: "drop ?pos ?b = len_field 3 ?x @ []" using assms(1) by simp
  note rd = len_field_read [OF d _ len]
  let ?p = "payload_pos ?pos ?x"
  let ?v = "u8_subarray v ?p (?p + length ?x)"
  have le: "?p + length ?x \<le> length ?b" using rd by simp
  have v: "u8_bytes ?v = ?x" and vok: "view_ok ?v"
    using u8_subarray_bytes [OF assms(3) le] rd by simp_all
  let ?bt = "apply_fields utf8 0 (batch_layout pad l cs) (new_batch ?x)"
  have parse: "ResultBatch R ?v = Some (Inr ?bt)"
    using ResultBatch_fields [of ?v "batch_layout pad l cs"] v vok assms(2)
    by (simp add: encode_batch_def batch_ok_def view_ok_def)
  have "length (drop ?pos ?b) = length (len_field 3 ?x)" by (simp add: d)
  then have "length ?b \<le> ?p + length ?x" using rd(6) by simp
  moreover have "append_loop (Suc k) R v emp s =
      (case push_batch ?bt (s\<lparr>as_pos := ?p + length ?x\<rparr>) of
         Inl e \<Rightarrow> Some (Inl e) | Inr s' \<Rightarrow> append_loop k R v emp s')"
    using rd parse
    by (simp add: append_loop.simps [of "Suc k"] append_field_def append_batch_def split: sum.splits)
  ultimately show ?thesis using batch_layout_holds [where u = utf8 and pad = pad and l = l and cs = cs] by blast
qed

end

text \<open>What one message adds to the result.\<close>

definition add_rows :: "string list \<Rightarrow> result_batch \<Rightarrow> query_result \<Rightarrow> query_result" where
  "add_rows names b q = q\<lparr>columnNames := columnNames q @ names, batches := batches q @ [b],
     qr_isComplete := isLastBatch b,
     qr_numRows := qr_numRows q + numCells b div length (columnNames q @ names)\<rparr>"

definition rows_ok :: "nat \<Rightarrow> cell list list \<Rightarrow> bool" where
  "rows_ok n rows \<longleftrightarrow> (\<forall>row\<in>set rows. length row = n)"

lemma length_concat_rows: "rows_ok n rows \<Longrightarrow> length (concat rows) = length rows * n"
  by (induction rows) (simp_all add: rows_ok_def)

context wire_reader
begin

lemma append_message:
  assumes v: "u8_bytes v = encode_result utf8 names pad l (concat rows)" "view_ok v"
    and ok: "batch_ok utf8 pad l (concat rows)" "\<forall>n\<in>set names. length (utf8 n) < 2 ^ 32"
    and names: "distinct names" "columnNames q = [] \<or> names = []" "columnNames q @ names \<noteq> []"
    and rows: "rows_ok (length (columnNames q @ names)) rows"
  shows "\<exists>b. batch_holds (concat rows) b \<and> isLastBatch b = l \<and>
    appendResultBatch R v q = Some (Inr (wake_waiters (add_rows names b q)))"
proof -
  let ?s = "\<lparr>as_q = q, as_names = [], as_pos = 0\<rparr>" and ?e = "columnNames q = []"
  let ?p = "length (encode_names utf8 names)" and ?n = "length (u8_bytes v)"
  let ?s1 = "push_columns names ?p ?s"
  have fuel: "length names < ?n"
  proof -
    have "length names \<le> ?p"
      by (induction names) (simp_all add: encode_names_def len_field_def varint_enc.simps [of 10])
    moreover have "0 < length (len_field 3 (encode_batch utf8 pad l (concat rows)))"
      by (simp add: len_field_def varint_enc.simps [of 26])
    ultimately show ?thesis by (simp add: v encode_result_def del: length_greater_0_conv)
  qed
  have cols: "append_loop ?n R v ?e ?s = append_loop (?n - length names) R v ?e ?s1"
  proof (cases "names = []")
    case True
    then show ?thesis by (simp add: push_columns_def encode_names_def)
  next
    case False
    then show ?thesis
      using append_columns [of ?s v names _ ?n] v ok names fuel by (simp add: encode_result_def)
  qed
  obtain k where k: "?n - length names = Suc k" using fuel by (metis Suc_diff_Suc)
  have "drop (as_pos ?s1) (u8_bytes v) = len_field 3 (encode_batch utf8 pad l (concat rows))"
    by (simp add: v encode_result_def push_columns_def)
  from append_batch_step [OF this ok(1) v(2), of k ?e] obtain b p where
    b: "batch_holds (concat rows) b" "isLastBatch b = l" "?n \<le> p" and
    loop: "append_loop (Suc k) R v ?e ?s1 = (case push_batch b (?s1\<lparr>as_pos := p\<rparr>) of
        Inl e \<Rightarrow> Some (Inl e) | Inr s' \<Rightarrow> append_loop k R v ?e s')"
    by blast
  have "numCells b = length rows * length (columnNames q @ names)"
    using b(1) length_concat_rows [OF rows] by (simp add: batch_holds_def numCells_def)
  then have push: "push_batch b (?s1\<lparr>as_pos := p\<rparr>) =
      Inr (?s1\<lparr>as_pos := p, as_q := add_rows names b q\<rparr>)"
    using names(3) by (simp add: push_batch_def push_columns_def add_rows_def Let_def)
  show ?thesis
    using b cols loop push k by (auto simp: appendResultBatch_def append_loop.simps [of k])
qed

end

subsection \<open>Reading cells and rows\<close>

text \<open>The value that a client sees for a cell, given the type its row spec asks for.\<close>

definition as_number :: "sql_type option \<Rightarrow> bool" where
  "as_number t \<longleftrightarrow> t = Some T_NUM \<or> t = Some T_NUM_NULL"

fun cell_value :: "sql_type option \<Rightarrow> cell \<Rightarrow> sql_value" where
  "cell_value t C_null = V_null"
| "cell_value t (C_int n) =
     (if as_number t then V_num (Int_number (asIntN64 (int n))) else V_big (asIntN64 (int n)))"
| "cell_value t (C_float w) = V_num (Bits_number w)"
| "cell_value t (C_string x) = V_str x"
| "cell_value t (C_blob b) = V_blob b"

definition cell_ok :: "sql_type option \<Rightarrow> cell \<Rightarrow> bool" where
  "cell_ok t c \<longleftrightarrow>
     (case t of None \<Rightarrow> True | Some e \<Rightarrow> isCompatible (cell_kind c) e) \<and>
     (case c of C_int n \<Rightarrow> n < 2 ^ 64 \<and> (as_number t \<longrightarrow> \<bar>asIntN64 (int n)\<bar> < 2 ^ 53) | _ \<Rightarrow> True)"

text \<open>The cells that the iterator has not read yet in its current batch.\<close>

definition it_holds :: "cell list \<Rightarrow> row_iter \<Rightarrow> bool" where
  "it_holds cs it \<longleftrightarrow>
     cellTypesEnd it = int (nextCellTypeOff it + length cs) \<and>
     (\<exists>r. drop (nextCellTypeOff it) (it_batchBytes it) = cell_types cs @ r) \<and>
     drop (it_varPos it) (take (it_varLen it) (it_batchBytes it)) = concat (map varint_enc (cell_ints cs)) \<and>
     drop (nextFloat64Cell it) (it_float64Cells it) = cell_floats cs \<and>
     drop (nextBlobCell it) (it_blobCells it) = cell_blobs cs \<and>
     (\<exists>r. drop (nextStringCell it) (it_stringCells it) = cell_strings cs @ r)"

text \<open>The fields that reading a row does not change.\<close>

definition same_batch :: "row_iter \<Rightarrow> row_iter \<Rightarrow> bool" where
  "same_batch it it' \<longleftrightarrow> rowSpec it' = rowSpec it \<and> it_batchIdx it' = it_batchIdx it \<and>
     it_columnNames it' = it_columnNames it \<and> it_numColumns it' = it_numColumns it \<and>
     it_methods it' = it_methods it"

text \<open>A write to a column that is no member of the wrapper around the iterator changes the row data only.\<close>

definition wrapper_members :: "string list" where
  "wrapper_members = ''_impl'' # ''__proto__'' # wrapper_methods"

definition row_column :: "row_iter \<Rightarrow> string \<Rightarrow> bool" where
  "row_column it c \<longleftrightarrow> c \<notin> set wrapper_members \<and> set (it_methods it) \<subseteq> set wrapper_methods"

lemma set_cell_column: "row_column it c \<Longrightarrow> set_cell c v it = it\<lparr>rowData := (rowData it)(c := v)\<rparr>"
proof -
  assume c: "row_column it c"
  then have "c \<notin> set (it_methods it)" "c \<noteq> ''__proto__''" by (auto simp: row_column_def wrapper_members_def)
  then show ?thesis by (simp add: set_cell_def)
qed

lemma row_column_update [simp]:
  "row_column (it\<lparr>nextCellTypeOff := n\<rparr>) c = row_column it c"
  "row_column (it\<lparr>it_varPos := n\<rparr>) c = row_column it c"
  "row_column (it\<lparr>nextFloat64Cell := n\<rparr>) c = row_column it c"
  "row_column (it\<lparr>nextStringCell := n\<rparr>) c = row_column it c"
  "row_column (it\<lparr>nextBlobCell := n\<rparr>) c = row_column it c"
  by (simp_all add: row_column_def)

lemma row_column_same: "same_batch it it' \<Longrightarrow> row_column it' c = row_column it c"
  by (simp add: row_column_def same_batch_def)

lemma same_batch_trans: "same_batch a b \<Longrightarrow> same_batch b c \<Longrightarrow> same_batch a c"
  by (simp add: same_batch_def)

lemma drop_take_varint:
  assumes "drop p (take n xs) = varint_enc m @ r"
  shows "\<exists>r'. drop p xs = varint_enc m @ r'"
proof -
  have "varint_enc m \<noteq> []" by (simp add: varint_enc.simps)
  with assms have "p < n" by (metis append_is_Nil_conv drop_eq_Nil2 length_take min.cobounded2 not_less order_trans)
  then have "drop p xs = drop p (take n xs) @ drop n xs" by (metis append_take_drop_id drop_take
        drop_drop add.commute le_add_diff_inverse less_imp_le)
  with assms show ?thesis by simp
qed

lemma cell_type_at_holds:
  assumes "it_holds (c # cs) it"
  shows "cell_type_at (it_batchBytes it) (nextCellTypeOff it) = Some (cell_kind c)"
    and "\<exists>r. drop (Suc (nextCellTypeOff it)) (it_batchBytes it) = cell_types cs @ r"
proof -
  obtain r where "drop (nextCellTypeOff it) (it_batchBytes it) = cell_code (cell_kind c) # (cell_types cs @ r)"
    using assms by (auto simp: it_holds_def cell_types_def)
  from nth_opt_drop [OF this]
  show "cell_type_at (it_batchBytes it) (nextCellTypeOff it) = Some (cell_kind c)"
    and "\<exists>r. drop (Suc (nextCellTypeOff it)) (it_batchBytes it) = cell_types cs @ r"
    by (auto simp: cell_type_at_def)
qed

context wire_reader
begin

lemma read_varint_cell_holds:
  assumes "drop (it_varPos it) (take (it_varLen it) (it_batchBytes it)) = varint_enc n @ r"
    and "cell_ok (map_of (rowSpec it) col) (C_int n)" and "row_column it col"
  shows "read_varint_cell R col it =
    Inr (set_cell col (Some (cell_value (map_of (rowSpec it) col) (C_int n)))
      (it\<lparr>it_varPos := it_varPos it + length (varint_enc n)\<rparr>))"
proof -
  obtain r' where d: "drop (it_varPos it) (it_batchBytes it) = varint_enc n @ r'"
    using drop_take_varint [OF assms(1)] by blast
  have n: "n < 2 ^ 64" using assms(2) by (simp add: cell_ok_def)
  show ?thesis
  proof (cases "as_number (map_of (rowSpec it) col)")
    case True
    then show ?thesis
      using int64 [OF assms(1) n] assms(2)
      using assms(3)
      by (auto simp: read_varint_cell_def lookup_spec_Asked as_number_def cell_ok_def set_cell_column)
  next
    case False
    then show ?thesis
      using skip [OF assms(1) n] decodeInt64Varint_varint [OF n d]
      using assms(3)
      by (auto simp: read_varint_cell_def lookup_spec_Asked as_number_def set_cell_column)
  qed
qed

lemma read_cell_holds:
  assumes h: "it_holds (c # cs) it" and ok: "cell_ok (map_of (rowSpec it) col) c" and rc: "row_column it col"
  shows "\<exists>it'. read_cell R col it = Inr it' \<and> it_holds cs it' \<and> same_batch it it' \<and>
    rowData it' = (rowData it)(col \<mapsto> cell_value (map_of (rowSpec it) col) c)"
proof (cases c)
  case (C_int n)
  let ?it = "it\<lparr>nextCellTypeOff := nextCellTypeOff it + 1\<rparr>"
  have d: "drop (it_varPos it) (take (it_varLen it) (it_batchBytes it)) =
      varint_enc n @ concat (map varint_enc (cell_ints cs))"
    using h C_int by (simp add: it_holds_def)
  have d': "drop (it_varPos it + length (varint_enc n)) (take (it_varLen it) (it_batchBytes it)) =
      concat (map varint_enc (cell_ints cs))"
    using d by (metis add.commute append_eq_conv_conj drop_drop)
  have "read_cell R col it = read_varint_cell R col ?it"
    using cell_type_at_holds(1) [OF h] C_int by (simp add: read_cell_def)
  also have "\<dots> = Inr (set_cell col (Some (cell_value (map_of (rowSpec it) col) c))
      (?it\<lparr>it_varPos := it_varPos it + length (varint_enc n)\<rparr>))"
    using read_varint_cell_holds [of ?it n] d ok C_int rc by simp
  finally show ?thesis
    using h d' C_int cell_type_at_holds(2) [OF h] rc
    by (simp add: it_holds_def same_batch_def set_cell_column)
qed (use h cell_type_at_holds [OF h] rc in
    \<open>auto simp: it_holds_def read_cell_def same_batch_def set_cell_column dest: nth_opt_drop\<close>)

lemma read_row_holds:
  assumes "length row = length names" and "it_holds (row @ cs) it"
    and "\<forall>i < length names. cell_ok (map_of (rowSpec it) (names ! i)) (row ! i)"
    and "\<forall>n\<in>set names. row_column it n"
  shows "\<exists>it'. read_row R names it = Inr it' \<and> it_holds cs it' \<and> same_batch it it' \<and>
    rowData it' = (rowData it)(names [\<mapsto>] map2 (\<lambda>n c. cell_value (map_of (rowSpec it) n) c) names row)"
  using assms
proof (induction names row arbitrary: it rule: list_induct2')
  case (4 n names c row)
  have "cell_ok (map_of (rowSpec it) n) c" using "4.prems"(3) by fastforce
  with read_cell_holds [of c "row @ cs" it n] "4.prems"(2,4) obtain it1 where
    it1: "read_cell R n it = Inr it1" "it_holds (row @ cs) it1" "same_batch it it1"
      "rowData it1 = (rowData it)(n \<mapsto> cell_value (map_of (rowSpec it) n) c)" by auto
  have "\<forall>i < length names. cell_ok (map_of (rowSpec it1) (names ! i)) (row ! i)"
    using "4.prems"(3) it1(3) by (auto simp: same_batch_def)
  moreover have "\<forall>n\<in>set names. row_column it1 n"
    using "4.prems"(4) row_column_same [OF it1(3)] by simp
  ultimately have "\<exists>it'. read_row R names it1 = Inr it' \<and> it_holds cs it' \<and> same_batch it1 it' \<and>
      rowData it' = (rowData it1)(names [\<mapsto>] map2 (\<lambda>n c. cell_value (map_of (rowSpec it1) n) c) names row)"
    using "4.IH" [of it1] "4.prems"(1) it1(2) by simp
  then obtain it' where
    "read_row R names it1 = Inr it'" "it_holds cs it'" "same_batch it1 it'"
      "rowData it' = (rowData it1)(names [\<mapsto>] map2 (\<lambda>n c. cell_value (map_of (rowSpec it1) n) c) names row)"
    by blast
  with it1 show ?case by (simp add: same_batch_def)
qed (auto simp: same_batch_def)

end

subsection \<open>Moving over batches\<close>

definition row_ok :: "(string \<times> sql_type) list \<Rightarrow> string list \<Rightarrow> cell list \<Rightarrow> bool" where
  "row_ok spec names row \<longleftrightarrow> length row = length names \<and>
     (\<forall>i < length names. cell_ok (map_of spec (names ! i)) (row ! i))"

text \<open>
  The columns that the iterator can show. A column must not be a member of the object that holds the row; one
  that \<open>Object.prototype\<close> has must be in the spec; and no column of the spec may be a member of the iterator.
\<close>

definition readable_columns :: "(string \<times> sql_type) list \<Rightarrow> string list \<Rightarrow> bool" where
  "readable_columns spec names \<longleftrightarrow>
     list_all (\<lambda>n. n \<notin> set wrapper_members \<and> (n \<in> set object_prototype \<longrightarrow> n \<in> set (map fst spec))) names \<and>
     list_all (\<lambda>k. k \<notin> set iterator_members) (map fst spec)"

lemma lookup_spec_readable:
  assumes "readable_columns spec names" and "n \<in> set names"
  shows "lookup_spec spec n = (case map_of spec n of None \<Rightarrow> NotAsked | Some t \<Rightarrow> Asked t)"
  using assms by (auto simp: lookup_spec_def readable_columns_def list_all_iff map_of_eq_None_iff split: option.split)

lemma assign_spec_readable: "list_all (\<lambda>k. k \<notin> set iterator_members) (map fst spec) \<Longrightarrow> assign_spec spec it = Some it"
  by (induction spec) (auto simp: assign_member_def)

lemma new_row_iter_readable: "readable_columns spec names \<Longrightarrow> new_row_iter spec = Some (blank_row_iter spec)"
  by (simp add: new_row_iter_def readable_columns_def assign_spec_readable)

lemma concat_rows_nth:
  assumes "\<forall>row\<in>set rows. length row = n" and "j < length rows * n"
  shows "concat rows ! j = rows ! (j div n) ! (j mod n)"
  using assms
proof (induction rows arbitrary: j)
  case (Cons row rows)
  show ?case
  proof (cases "j < n")
    case True
    then show ?thesis using Cons.prems by (simp add: nth_append)
  next
    case False
    then have n: "0 < n" using Cons.prems(2) by (cases n) auto
    have j: "j div n = Suc ((j - n) div n)" "j mod n = (j - n) mod n"
      using False n by (simp_all add: le_div_geq le_mod_geq)
    have "concat (row # rows) ! j = concat rows ! (j - n)"
      using Cons.prems False by (simp add: nth_append)
    also have "\<dots> = rows ! ((j - n) div n) ! ((j - n) mod n)"
      using Cons.prems False by (intro Cons.IH) auto
    finally show ?thesis by (simp add: j)
  qed
qed simp

lemma check_cells_None:
  "(\<And>j. j < k \<Longrightarrow> check_cell spec names bs off (i + j) = None) \<Longrightarrow> check_cells spec names bs off i k = None"
proof (induction k arbitrary: i)
  case (Suc k)
  have "check_cell spec names bs off (Suc i + j) = None" if "j < k" for j
    using Suc.prems [of "Suc j"] that by simp
  with Suc.IH [of "Suc i"] Suc.prems [of 0] show ?case by simp
qed simp

lemma check_cells_holds:
  assumes b: "batch_holds (concat rows) b" and ok: "\<forall>row\<in>set rows. row_ok spec names row"
    and ne: "names \<noteq> []" and readable: "readable_columns spec names"
  shows "check_cells spec names (batchBytes b) (cellTypesOff b) (cellTypesOff b) (cellTypesLen b) = None"
proof (rule check_cells_None)
  fix j assume j: "j < cellTypesLen b"
  let ?n = "length names" and ?cs = "concat rows"
  have len: "length ?cs = length rows * ?n"
    using ok by (intro length_concat_rows) (simp add: rows_ok_def row_ok_def)
  with j b have j': "j < length rows * ?n" by (simp add: batch_holds_def)
  then have "j div ?n < length rows" "j mod ?n < ?n" using ne by (simp_all add: less_mult_imp_div_less)
  then have "cell_ok (map_of spec (names ! (j mod ?n))) (rows ! (j div ?n) ! (j mod ?n))"
    using ok nth_mem [of "j div ?n" rows] by (auto simp: row_ok_def)
  also have "rows ! (j div ?n) ! (j mod ?n) = ?cs ! j"
    using concat_rows_nth [of rows ?n j] ok j' by (simp add: row_ok_def)
  finally have c: "cell_ok (map_of spec (names ! (j mod ?n))) (?cs ! j)" .
  have hs: "cellTypesLen b = length ?cs" "cellTypesOff b + length ?cs \<le> length (batchBytes b)"
      "seg (cellTypesOff b) (cellTypesOff b + length ?cs) (batchBytes b) = cell_types ?cs"
    using b by (simp_all add: batch_holds_def)
  have "batchBytes b ! (cellTypesOff b + j) = cell_types ?cs ! j"
    using hs j seg_nth [of "cellTypesOff b" j "cellTypesOff b + length ?cs" "batchBytes b"] by simp
  also have "\<dots> = cell_code (cell_kind (?cs ! j))" using hs j by (simp add: cell_types_def)
  finally have "batchBytes b ! (cellTypesOff b + j) = cell_code (cell_kind (?cs ! j))" .
  then have "cell_type_at (batchBytes b) (cellTypesOff b + j) = Some (cell_kind (?cs ! j))"
    using j hs by (simp add: cell_type_at_def nth_opt_def)
  moreover have "lookup_spec spec (names ! (j mod ?n)) =
      (case map_of spec (names ! (j mod ?n)) of None \<Rightarrow> NotAsked | Some t \<Rightarrow> Asked t)"
    using ne by (intro lookup_spec_readable [OF readable]) simp
  ultimately show "check_cell spec names (batchBytes b) (cellTypesOff b) (cellTypesOff b + j) = None"
    using c by (simp add: check_cell_def cell_ok_def split: option.splits)
qed

lemma load_batch_holds:
  assumes "batch_holds cs b"
  shows "it_holds cs (load_batch q b it)"
proof -
  have "drop (cellTypesOff b) (batchBytes b) = seg (cellTypesOff b) (cellTypesOff b + length cs) (batchBytes b)
      @ drop (cellTypesOff b + length cs) (batchBytes b)"
    by (metis add.commute append_take_drop_id drop_drop seg_def take_drop)
  moreover have "drop (varintOff b) (take (varintOff b + varintLen b) (batchBytes b)) =
      concat (map varint_enc (cell_ints cs))" using assms by (simp add: batch_holds_def seg_def)
  ultimately show ?thesis using assms by (auto simp: it_holds_def load_batch_def batch_holds_def)
qed

text \<open>
  The iterator stands before the rows \<open>rows\<close> of its current batch and the rows \<open>rowss\<close> of the batches it has
  not reached. Only the last batch may be empty, as the end marker.
\<close>

definition batch_rows :: "(string \<times> sql_type) list \<Rightarrow> string list \<Rightarrow> cell list list \<Rightarrow> result_batch \<Rightarrow> bool" where
  "batch_rows spec names rows b \<longleftrightarrow> batch_holds (concat rows) b \<and>
     (\<forall>row\<in>set rows. row_ok spec names row) \<and> (rows = [] \<longrightarrow> isLastBatch b)"

definition ready :: "query_result \<Rightarrow> (string \<times> sql_type) list \<Rightarrow> row_iter \<Rightarrow> cell list list \<Rightarrow> cell list list list \<Rightarrow> bool" where
  "ready q spec it rows rowss \<longleftrightarrow>
     rowSpec it = spec \<and> set (it_methods it) \<subseteq> set wrapper_methods \<and> - 1 \<le> it_batchIdx it \<and> [] \<notin> set (butlast rowss) \<and>
     (\<forall>row\<in>set rows. row_ok spec (columnNames q) row) \<and>
     list_all2 (batch_rows spec (columnNames q)) rowss (drop (nat (it_batchIdx it + 1)) (batches q)) \<and>
     (it_holds (concat rows) it \<and> it_columnNames it = columnNames q \<and>
        it_numColumns it = length (columnNames q)
      \<or> rows = [] \<and> cellTypesEnd it = - 1)"

definition spec_ok :: "(string \<times> sql_type) list \<Rightarrow> query_result \<Rightarrow> bool" where
  "spec_ok spec q \<longleftrightarrow> columnNames q \<noteq> [] \<and> distinct (columnNames q) \<and>
     set (map fst spec) \<subseteq> set (columnNames q) \<and> readable_columns spec (columnNames q)"

lemma spec_ok_column:
  "spec_ok spec q \<Longrightarrow> ready q spec it rows rowss \<Longrightarrow> n \<in> set (columnNames q) \<Longrightarrow> row_column it n"
  by (auto simp: spec_ok_def readable_columns_def row_column_def ready_def list_all_iff)

lemma seek_row_here:
  assumes "ready q spec it (row # rows) rowss"
  shows "seek_row q it = Inr (True, it)"
  using assms by (auto simp: ready_def row_ok_def it_holds_def seek_row.simps [of q it])

lemma seek_row_move:
  assumes "ready q spec it [] rowss" and "columnNames q \<noteq> []"
  shows "seek_row q it = (case tryMoveToNextBatch q it of
      Inl e \<Rightarrow> Inl e | Inr (found, it') \<Rightarrow> (if found then seek_row q it' else Inr (False, it')))"
  using assms by (auto simp: ready_def it_holds_def seek_row.simps [of q it])

lemma ready_load:
  assumes "ready q spec it [] (rows # rowss)" and "spec_ok spec q"
  shows "\<exists>b it'. it' = load_batch q b it \<and> (if rows = [] then rowss = [] else ready q spec it' rows rowss) \<and>
    tryMoveToNextBatch q it = Inr (rows \<noteq> [], it')"
proof -
  let ?i = "nat (it_batchIdx it + 1)"
  obtain b bs where bs: "drop ?i (batches q) = b # bs" and b: "batch_rows spec (columnNames q) rows b"
      and rest: "list_all2 (batch_rows spec (columnNames q)) rowss bs"
    using assms(1) by (auto simp: ready_def list_all2_Cons1)
  have nth: "nth_opt (batches q) ?i = Some b" and tl: "drop (Suc ?i) (batches q) = bs"
    using nth_opt_drop [OF bs] by auto
  have idx: "nat (it_batchIdx it + 1 + 1) = Suc ?i" using assms(1) by (simp add: ready_def Suc_nat_eq_nat_zadd1)
  have find: "find (\<lambda>c. c \<notin> set (columnNames q)) (map fst (rowSpec it)) = None"
    using assms by (auto simp: find_None_iff spec_ok_def ready_def)
  have spec: "rowSpec it = spec" using assms(1) by (simp add: ready_def)
  have cells: "numCells b = 0 \<longleftrightarrow> rows = []"
    using b assms(2) by (cases rows) (auto simp: batch_rows_def batch_holds_def numCells_def row_ok_def spec_ok_def)
  have "rowss = [] \<or> rows \<noteq> []" using assms(1) by (cases rowss) (auto simp: ready_def)
  moreover have "ready q spec (load_batch q b it) rows rowss"
    using assms(1) b rest tl idx load_batch_holds [of "concat rows" b q it]
    by (cases rowss) (auto simp: ready_def batch_rows_def load_batch_def)
  moreover have "tryMoveToNextBatch q it = Inr (rows \<noteq> [], load_batch q b it)"
    using nth find cells b spec assms(2) check_cells_holds [of rows b spec "columnNames q"]
    by (auto simp: tryMoveToNextBatch_def batch_rows_def spec_ok_def Let_def)
  ultimately show ?thesis by auto
qed


subsection \<open>Iterating\<close>

definition row_values :: "(string \<times> sql_type) list \<Rightarrow> string list \<Rightarrow> cell list \<Rightarrow> sql_value option list" where
  "row_values spec names row = map2 (\<lambda>n c. Some (cell_value (map_of spec n) c)) names row"

text \<open>
  \<open>for (const it = res.iter(spec); it.valid(); it.next())\<close> with the columns of each row collected; it throws
  when \<open>valid\<close> or \<open>next\<close> is no longer a function.
\<close>

fun collect_rows :: "nat \<Rightarrow> proto_reader \<Rightarrow> query_result \<Rightarrow> row_iter \<Rightarrow> sql_value option list list option" where
  "collect_rows fuel R q it =
     (if ''valid'' \<notin> set (it_methods it) then None
      else if it_isValid it then
        (case fuel of
           0 \<Rightarrow> None
         | Suc k \<Rightarrow>
             (if ''next'' \<notin> set (it_methods it) then None
              else (case next_row R q it of
                      Inl e \<Rightarrow> None
                    | Inr it' \<Rightarrow> map_option ((#) (map (rowData it) (columnNames q))) (collect_rows k R q it'))))
      else Some [])"

declare collect_rows.simps [simp del]

definition read_rows :: "proto_reader \<Rightarrow> query_result \<Rightarrow> (string \<times> sql_type) list \<Rightarrow> sql_value option list list option" where
  "read_rows R q spec =
     (case iter R q spec of Some (Inr it) \<Rightarrow> collect_rows (qr_numRows q) R q it | _ \<Rightarrow> None)"

lemma map_upds_names:
  "distinct names \<Longrightarrow> length vals = length names \<Longrightarrow> map (m(names [\<mapsto>] vals)) names = map Some vals"
proof (induction names vals arbitrary: m rule: list_induct2')
  case (4 n names v vals)
  then have "(m(n \<mapsto> v, names [\<mapsto>] vals)) n = Some v" by (simp add: map_upds_apply_nontin)
  moreover have "map (m(n \<mapsto> v, names [\<mapsto>] vals)) names = map Some vals" using 4 by (simp del: map_upd_upds_conv_if)
  ultimately show ?case by simp
qed simp_all

context wire_reader
begin

lemma next_row_reads:
  assumes "ready q spec it (row # rows) rowss" and "spec_ok spec q"
  shows "\<exists>it'. next_row R q it = Inr it' \<and> it_isValid it' \<and> ready q spec it' rows rowss \<and>
    it_methods it' = it_methods it \<and> map (rowData it') (columnNames q) = row_values spec (columnNames q) row"
proof -
  have r: "rowSpec it = spec" "row_ok spec (columnNames q) row" "it_holds (row @ concat rows) it"
      "it_columnNames it = columnNames q"
    using assms(1) by (auto simp: ready_def)
  let ?vals = "map2 (\<lambda>n c. cell_value (map_of spec n) c) (columnNames q) row"
  obtain it' where it': "read_row R (columnNames q) it = Inr it'" "it_holds (concat rows) it'"
      "same_batch it it'" "rowData it' = (rowData it)(columnNames q [\<mapsto>] ?vals)"
    using read_row_holds [of row "columnNames q" "concat rows" it] r spec_ok_column [OF assms(2,1)]
    by (auto simp: row_ok_def)
  have "map (rowData it') (columnNames q) = map Some ?vals"
    using it'(4) assms(2) r(2) by (simp add: map_upds_names spec_ok_def row_ok_def)
  also have "\<dots> = row_values spec (columnNames q) row" by (simp add: row_values_def split_def)
  finally have "map (rowData it') (columnNames q) = row_values spec (columnNames q) row" .
  moreover have "ready q spec (it'\<lparr>it_isValid := True\<rparr>) rows rowss"
    using assms(1) it'(2,3) by (auto simp: ready_def same_batch_def it_holds_def)
  ultimately show ?thesis
    using seek_row_here [OF assms(1)] it'(1,3) r(4) by (simp add: next_row_def same_batch_def)
qed

lemma next_row_moves:
  assumes "ready q spec it [] rowss" and "spec_ok spec q"
  shows "if concat rowss = [] then \<exists>it'. next_row R q it = Inr it' \<and> \<not> it_isValid it' \<and> it_methods it' = it_methods it
    else \<exists>it' rows rowss'. ready q spec it' rows rowss' \<and> it_methods it' = it_methods it \<and> rows \<noteq> [] \<and> concat rowss = rows @ concat rowss' \<and>
      next_row R q it = next_row R q it'"
proof (cases rowss)
  case Nil
  then have "nth_opt (batches q) (nat (it_batchIdx it + 1)) = None"
    using assms(1) by (auto simp: ready_def nth_opt_def)
  then have "tryMoveToNextBatch q it = Inr (False, it)" by (simp add: tryMoveToNextBatch_def)
  with Nil seek_row_move [OF assms(1)] assms(2) show ?thesis by (simp add: next_row_def spec_ok_def)
next
  case (Cons rows rowss')
  from ready_load [of q spec it rows rowss'] assms Cons obtain it' where
    it': "tryMoveToNextBatch q it = Inr (rows \<noteq> [], it')" "it_methods it' = it_methods it"
      "if rows = [] then rowss' = [] else ready q spec it' rows rowss'"
    by (auto simp: load_batch_def)
  have "seek_row q it = (if rows \<noteq> [] then seek_row q it' else Inr (False, it'))"
    using seek_row_move [OF assms(1)] assms(2) it'(1) by (simp add: spec_ok_def)
  then have "next_row R q it = (if rows \<noteq> [] then next_row R q it' else Inr (it'\<lparr>it_isValid := False\<rparr>))"
    by (simp add: next_row_def)
  then show ?thesis using Cons it'(2,3) by (cases "rows = []") auto
qed

lemma next_row_ready:
  assumes "ready q spec it rows rowss" and "spec_ok spec q"
  shows "case rows @ concat rowss of
      [] \<Rightarrow> \<exists>it'. next_row R q it = Inr it' \<and> \<not> it_isValid it' \<and> it_methods it' = it_methods it
    | row # rest \<Rightarrow> \<exists>it' rows' rowss'. next_row R q it = Inr it' \<and> it_isValid it' \<and> it_methods it' = it_methods it \<and>
        ready q spec it' rows' rowss' \<and> rows' @ concat rowss' = rest \<and>
        map (rowData it') (columnNames q) = row_values spec (columnNames q) row"
proof (cases rows)
  case (Cons row rs)
  with next_row_reads [of q spec it row rs rowss] assms show ?thesis by auto
next
  case Nil
  show ?thesis
  proof (cases "concat rowss")
    case empty: Nil
    with next_row_moves [of q spec it rowss] assms Nil show ?thesis
      by (simp del: concat_eq_Nil_conv)
  next
    case nonempty: (Cons row rest)
    with next_row_moves [of q spec it rowss] assms Nil obtain it1 rs rowss' where
      r: "ready q spec it1 rs rowss'" "rs \<noteq> []" "concat rowss = rs @ concat rowss'"
        "next_row R q it = next_row R q it1" "it_methods it1 = it_methods it" by auto
    then obtain rs' where "rs = row # rs'" using nonempty by (cases rs) auto
    with next_row_reads [of q spec it1 row rs' rowss'] r assms(2) Nil nonempty show ?thesis by auto
  qed
qed

lemma collect_rows_ready:
  assumes "ready q spec it rows rowss" and "spec_ok spec q" and "it_isValid it" and "it_methods it = wrapper_methods"
    and "map (rowData it) (columnNames q) = row_values spec (columnNames q) row"
    and "length (rows @ concat rowss) < fuel"
  shows "collect_rows fuel R q it = Some (map (row_values spec (columnNames q)) (row # rows @ concat rowss))"
  using assms
proof (induction fuel arbitrary: it row rows rowss)
  case (Suc k)
  have m: "''valid'' \<in> set (it_methods it)" "''next'' \<in> set (it_methods it)"
    using Suc.prems(4) by (simp_all add: wrapper_methods_def)
  show ?case
  proof (cases "rows @ concat rowss")
    case Nil
    with next_row_ready [OF Suc.prems(1,2)] obtain it' where
      "next_row R q it = Inr it'" "\<not> it_isValid it'" "it_methods it' = it_methods it" by auto
    with Nil Suc.prems m show ?thesis
      by (simp add: collect_rows.simps [of "Suc k"] collect_rows.simps [of k])
  next
    case (Cons row' rest)
    with next_row_ready [OF Suc.prems(1,2)] obtain it' rows' rowss' where
      n: "next_row R q it = Inr it'" "it_isValid it'" "ready q spec it' rows' rowss'"
        "rows' @ concat rowss' = rest" "it_methods it' = it_methods it"
        "map (rowData it') (columnNames q) = row_values spec (columnNames q) row'" by auto
    have "collect_rows k R q it' = Some (map (row_values spec (columnNames q)) (row' # rows' @ concat rowss'))"
      using Suc.IH [OF n(3) Suc.prems(2) n(2) _ n(6)] Suc.prems(4,6) Cons n(4,5) by simp
    with n Cons Suc.prems m show ?thesis by (simp add: collect_rows.simps [of "Suc k"])
  qed
qed simp

lemma read_rows_ready:
  assumes "ready q spec (blank_row_iter spec) [] rowss" and "spec_ok spec q"
    and "qr_numRows q = length (concat rowss)"
  shows "read_rows R q spec = Some (map (row_values spec (columnNames q)) (concat rowss))"
proof -
  have iter: "iter R q spec = Some (map_sum id wrap_iter (next_row R q (blank_row_iter spec)))"
    using assms(2) new_row_iter_readable by (auto simp: iter_def spec_ok_def)
  show ?thesis
  proof (cases "concat rowss")
    case Nil
    with next_row_ready [OF assms(1,2)] iter show ?thesis
      by (auto simp: read_rows_def collect_rows.simps wrap_iter_def wrapper_methods_def)
  next
    case (Cons row rest)
    with next_row_ready [OF assms(1,2)] obtain it' rows' rowss' where
      n: "next_row R q (blank_row_iter spec) = Inr it'" "it_isValid it'" "ready q spec it' rows' rowss'"
        "rows' @ concat rowss' = rest"
        "map (rowData it') (columnNames q) = row_values spec (columnNames q) row" by auto
    have w: "ready q spec (wrap_iter it') rows' rowss'" "it_isValid (wrap_iter it')"
      "it_methods (wrap_iter it') = wrapper_methods"
      using n(2,3) by (auto simp: wrap_iter_def ready_def it_holds_def)
    have "map (rowData (wrap_iter it')) (columnNames q) = map (rowData it') (columnNames q)"
      using assms(2) by (auto simp: wrap_iter_def spec_ok_def readable_columns_def list_all_iff wrapper_members_def
          wrapper_methods_def)
    with collect_rows_ready [OF w(1) assms(2) w(2,3), of row "qr_numRows q"] n assms(3) Cons iter show ?thesis
      by (simp add: read_rows_def)
  qed
qed

end


subsection \<open>Whole streams\<close>

fun append_all :: "proto_reader \<Rightarrow> u8_view list \<Rightarrow> query_result \<Rightarrow> query_result option" where
  "append_all R [] q = Some q"
| "append_all R (v # vs) q =
     (case appendResultBatch R v q of Some (Inr q') \<Rightarrow> append_all R vs q' | _ \<Rightarrow> None)"

record batch_msg =
  bm_padding :: bytes
  bm_last :: bool
  bm_rows :: "cell list list"

definition encode_msg :: "(string \<Rightarrow> bytes) \<Rightarrow> string list \<Rightarrow> batch_msg \<Rightarrow> bytes" where
  "encode_msg utf8 names m = encode_result utf8 names (bm_padding m) (bm_last m) (concat (bm_rows m))"

definition msg_ok :: "(string \<Rightarrow> bytes) \<Rightarrow> (string \<times> sql_type) list \<Rightarrow> string list \<Rightarrow> batch_msg \<Rightarrow> bool" where
  "msg_ok utf8 spec names m \<longleftrightarrow> batch_ok utf8 (bm_padding m) (bm_last m) (concat (bm_rows m)) \<and>
     (\<forall>row\<in>set (bm_rows m). row_ok spec names row) \<and> (bm_rows m = [] \<longrightarrow> bm_last m)"

definition holds_rows :: "(string \<times> sql_type) list \<Rightarrow> string list \<Rightarrow> cell list list list \<Rightarrow> query_result \<Rightarrow> bool" where
  "holds_rows spec names rowss q \<longleftrightarrow> columnNames q = names \<and>
     list_all2 (batch_rows spec names) rowss (batches q) \<and> qr_numRows q = length (concat rowss)"

lemma wake_waiters_data [simp]:
  "batches (wake_waiters q) = batches q" "qr_numRows (wake_waiters q) = qr_numRows q"
  by (simp_all add: wake_waiters_def resolveOrReject_def Let_def split: option.splits)

context wire_reader
begin

lemma append_msg:
  assumes v: "u8_bytes v = encode_msg utf8 ns m" "view_ok v" and m: "msg_ok utf8 spec names m"
    and ns: "\<forall>n\<in>set ns. length (utf8 n) < 2 ^ 32" "distinct ns" "columnNames q = [] \<or> ns = []"
      "columnNames q @ ns = names" "names \<noteq> []"
    and q: "list_all2 (batch_rows spec names) rowss (batches q)" "qr_numRows q = length (concat rowss)"
  shows "\<exists>q'. appendResultBatch R v q = Some (Inr q') \<and> holds_rows spec names (rowss @ [bm_rows m]) q' \<and>
    qr_isComplete q' = bm_last m"
proof -
  have rows: "rows_ok (length names) (bm_rows m)" using m by (simp add: msg_ok_def rows_ok_def row_ok_def)
  from append_message [of v ns "bm_padding m" "bm_last m" "bm_rows m" q] v m ns rows
  obtain b where b: "batch_holds (concat (bm_rows m)) b" "isLastBatch b = bm_last m"
      "appendResultBatch R v q = Some (Inr (wake_waiters (add_rows ns b q)))"
    by (auto simp: encode_msg_def msg_ok_def)
  have "numCells b = length (bm_rows m) * length names"
    using b(1) length_concat_rows [OF rows] by (simp add: batch_holds_def numCells_def)
  then have "holds_rows spec names (rowss @ [bm_rows m]) (wake_waiters (add_rows ns b q))"
    using q ns m b by (simp add: holds_rows_def add_rows_def batch_rows_def msg_ok_def list_all2_appendI)
  then show ?thesis using b by (simp add: add_rows_def)
qed

lemma append_more:
  assumes "map u8_bytes vs = map (encode_msg utf8 []) ms" and "\<forall>v\<in>set vs. view_ok v"
    and "\<forall>m\<in>set ms. msg_ok utf8 spec names m" and "names \<noteq> []" and "holds_rows spec names rowss q"
  shows "\<exists>q'. append_all R vs q = Some q' \<and> holds_rows spec names (rowss @ map bm_rows ms) q' \<and>
    qr_isComplete q' = (if ms = [] then qr_isComplete q else bm_last (last ms))"
  using assms
proof (induction ms arbitrary: vs q rowss)
  case (Cons m ms)
  then obtain v vs' where vs: "vs = v # vs'" "u8_bytes v = encode_msg utf8 [] m"
      "map u8_bytes vs' = map (encode_msg utf8 []) ms" by auto
  have "\<exists>q'. appendResultBatch R v q = Some (Inr q') \<and> holds_rows spec names (rowss @ [bm_rows m]) q' \<and>
      qr_isComplete q' = bm_last m"
    using Cons.prems vs by (intro append_msg [of v "[]"]) (auto simp: holds_rows_def)
  then obtain q1 where q1: "appendResultBatch R v q = Some (Inr q1)"
      "holds_rows spec names (rowss @ [bm_rows m]) q1" "qr_isComplete q1 = bm_last m" by blast
  from Cons.IH [OF vs(3) _ _ Cons.prems(4) q1(2)] Cons.prems vs q1 show ?case by auto
qed auto

end

text \<open>
  C10. Round trip of a query result: when the trace processor sends the column names and any number of
  batches of rows, cut anywhere between rows and with any padding and placement of the messages in
  their buffers, every message is accepted, the counters are right, and a client that iterates with a
  row spec which the cells satisfy reads exactly the encoded rows in order. The columns have to be ones that
  the iterator can show, \<open>readable_columns\<close>: none is a member of the object that holds the row, one that
  \<open>Object.prototype\<close> has is in the spec, and none in the spec is a member of the iterator.
\<close>

theorem query_rows_roundtrip:
  assumes reader: "wire_reader R utf8"
    and names: "names \<noteq> []" "distinct names" "\<forall>n\<in>set names. length (utf8 n) < 2 ^ 32"
    and spec: "set (map fst spec) \<subseteq> set names" "readable_columns spec names"
    and views: "map u8_bytes (v # vs) = encode_msg utf8 names m # map (encode_msg utf8 []) ms"
      "\<forall>w\<in>set (v # vs). view_ok w"
    and msgs: "\<forall>x\<in>set (m # ms). msg_ok utf8 spec names x" "[] \<notin> set (butlast (map bm_rows (m # ms)))"
  shows "\<exists>q. append_all R (v # vs) new_query_result = Some q \<and> columnNames q = names \<and>
    qr_numRows q = length (concat (map bm_rows (m # ms))) \<and> qr_isComplete q = bm_last (last (m # ms)) \<and>
    read_rows R q spec = Some (map (row_values spec names) (concat (map bm_rows (m # ms))))"
proof -
  let ?rowss = "map bm_rows (m # ms)"
  have "\<exists>q. appendResultBatch R v new_query_result = Some (Inr q) \<and>
      holds_rows spec names ([] @ [bm_rows m]) q \<and> qr_isComplete q = bm_last m"
    using views msgs names
    by (intro wire_reader.append_msg [OF reader]) (auto simp: new_query_result_def)
  then obtain q1 where q1: "appendResultBatch R v new_query_result = Some (Inr q1)"
      "holds_rows spec names [bm_rows m] q1" "qr_isComplete q1 = bm_last m" by auto
  have "\<exists>q. append_all R vs q1 = Some q \<and> holds_rows spec names ([bm_rows m] @ map bm_rows ms) q \<and>
      qr_isComplete q = (if ms = [] then qr_isComplete q1 else bm_last (last ms))"
    using views msgs names q1 by (intro wire_reader.append_more [OF reader]) auto
  then obtain q where q: "append_all R vs q1 = Some q" "holds_rows spec names ?rowss q"
      "qr_isComplete q = bm_last (last (m # ms))" using q1 by (auto split: if_splits)
  have "ready q spec (blank_row_iter spec) [] ?rowss"
    using q(2) msgs(2) by (simp add: ready_def holds_rows_def blank_row_iter_def)
  moreover have "spec_ok spec q" using q(2) names spec by (simp add: spec_ok_def holds_rows_def)
  ultimately have "read_rows R q spec = Some (map (row_values spec names) (concat ?rowss))"
    using wire_reader.read_rows_ready [OF reader] q(2) by (simp add: holds_rows_def)
  with q q1 show ?thesis by (auto simp: holds_rows_def)
qed

text \<open>Two batches with an integer, a string and a NULL cell, read through the wire format.\<close>

definition demo_msg :: "bool \<Rightarrow> cell list list \<Rightarrow> batch_msg" where
  "demo_msg l rows = \<lparr>bm_padding = [0], bm_last = l, bm_rows = rows\<rparr>"

definition demo_spec :: "(string \<times> sql_type) list" where
  "demo_spec = [(''id'', T_LONG), (''name'', T_STR_NULL)]"

definition whole_view :: "bytes \<Rightarrow> u8_view" where
  "whole_view bs = \<lparr>u8_buffer = bs, u8_byteOffset = 0, u8_length = length bs\<rparr>"

lemma whole_view [simp]: "u8_bytes (whole_view bs) = bs" "view_ok (whole_view bs)"
  by (simp_all add: whole_view_def u8_bytes_def view_ok_def)

theorem query_rows_roundtrip_witness:
  "\<exists>q. append_all wire_format
      [whole_view (encode_msg utf8_encode [''id'', ''name''] (demo_msg False [[C_int 7, C_string ''a'']])),
       whole_view (encode_msg utf8_encode [] (demo_msg True [[C_int (2 ^ 64 - 1), C_null]]))]
      new_query_result = Some q \<and>
    read_rows wire_format q demo_spec =
      Some [[Some (V_big 7), Some (V_str ''a'')], [Some (V_big (- 1)), Some V_null]]"
proof -
  let ?m = "demo_msg False [[C_int 7, C_string ''a'']]" and ?m' = "demo_msg True [[C_int (2 ^ 64 - 1), C_null]]"
  have enc: "varint_enc 7 = [7]" "utf8_encode [CHR ''a'', CHR 0x00] = [97, 0]"
      "varint_enc 18446744073709551615 = [255, 255, 255, 255, 255, 255, 255, 255, 255, 1]"
    using varint_enc_small [of 7] by (simp_all add: varint_enc.simps [of "numeral _"] varint_enc_small utf8_encode_def utf8_char_def)
  have ok: "msg_ok utf8_encode demo_spec [''id'', ''name''] x" if "x \<in> set [?m, ?m']" for x
    using that
    by (auto simp: demo_msg_def demo_spec_def msg_ok_def batch_ok_def batch_layout_def encode_batch_def
        encode_fields_def cell_types_def nul_joined_def len_field_def field_ok_def row_ok_def cell_ok_def
        as_number_def less_Suc_eq enc varint_enc_small utf8_encode_def utf8_char_def)
  have readable: "readable_columns demo_spec [''id'', ''name'']" by code_simp
  have "\<exists>q. append_all wire_format
      [whole_view (encode_msg utf8_encode [''id'', ''name''] ?m), whole_view (encode_msg utf8_encode [] ?m')]
      new_query_result = Some q \<and> columnNames q = [''id'', ''name''] \<and>
    qr_numRows q = length (concat (map bm_rows [?m, ?m'])) \<and> qr_isComplete q = bm_last (last [?m, ?m']) \<and>
    read_rows wire_format q demo_spec =
      Some (map (row_values demo_spec [''id'', ''name'']) (concat (map bm_rows [?m, ?m'])))"
    using ok readable
    by (intro query_rows_roundtrip [OF wire.wire_reader_axioms])
      (auto simp: demo_spec_def demo_msg_def utf8_encode_def utf8_char_def)
  then show ?thesis
    by (auto simp: row_values_def demo_spec_def demo_msg_def as_number_def asIntN64_def)
qed

subsection \<open>Column names and promises over messages\<close>

lemma demo_append:
  "\<exists>q. appendResultBatch wire_format (whole_view (encode_msg utf8_encode [''id''] (demo_msg True [])))
     new_query_result = Some (Inr q) \<and> columnNames q = [''id''] \<and> qr_isComplete q"
proof -
  have "msg_ok utf8_encode [] [''id''] (demo_msg True [])"
    by (auto simp: demo_msg_def msg_ok_def batch_ok_def batch_layout_def encode_batch_def
        encode_fields_def cell_types_def nul_joined_def len_field_def field_ok_def varint_enc_small
        utf8_encode_def utf8_char_def)
  then have "\<exists>q. appendResultBatch wire_format (whole_view (encode_msg utf8_encode [''id''] (demo_msg True [])))
      new_query_result = Some (Inr q) \<and> holds_rows [] [''id''] ([] @ [bm_rows (demo_msg True [])]) q \<and>
      qr_isComplete q = bm_last (demo_msg True [])"
    by (intro wire.append_msg) (auto simp: new_query_result_def utf8_encode_def utf8_char_def)
  then show ?thesis by (auto simp: holds_rows_def demo_msg_def)
qed

text \<open>
  Column names stay pairwise different whatever bytes arrive and whatever the protobuf reader
  returns, also when the message is rejected half-way: they are the keys of the row objects.
\<close>

theorem columnNames_distinct:
  assumes "distinct (columnNames q)" and "appendResultBatch R v q = Some r"
  shows "distinct (columnNames (after_append r))"
proof -
  have inv: "names_inv (columnNames q = []) \<lparr>as_q = q, as_names = [], as_pos = 0\<rparr>"
    using assms(1) by (simp add: names_inv_def)
  show ?thesis
    using assms(2) names_post_append_loop [OF inv, of "length (u8_bytes v)" R v]
    by (auto simp: appendResultBatch_def after_append_def names_inv_def split: option.splits sum.splits)
qed

theorem columnNames_distinct_witness:
  "\<exists>q. appendResultBatch wire_format (whole_view (encode_msg utf8_encode [''id''] (demo_msg True [])))
     new_query_result = Some (Inr q) \<and> distinct (columnNames (after_append (Inr q)))"
proof -
  obtain q where q: "appendResultBatch wire_format
      (whole_view (encode_msg utf8_encode [''id''] (demo_msg True []))) new_query_result = Some (Inr q)"
    using demo_append by blast
  from columnNames_distinct [OF _ q] q show ?thesis by (auto simp: new_query_result_def)
qed

text \<open>
  No wake-up is lost: when \<open>appendResultBatch\<close> returns, every promise that \<open>waitMoreRows\<close> handed out
  is settled, and the promise of all rows is pending only while the result is incomplete. The
  invariant that makes this so holds initially and is kept by every operation.
\<close>

theorem appendResultBatch_wakes:
  assumes "promises_inv q" and "appendResultBatch R v q = Some (Inr q')"
  shows "promises_inv q' \<and> moreRowsPromise q' = None \<and>
    pending_ids (qr_promises q') \<subseteq> (if qr_isComplete q' then {} else set_option (allRowsPromise q'))"
proof -
  obtain s where s: "append_loop (length (u8_bytes v)) R v (columnNames q = [])
      \<lparr>as_q = q, as_names = [], as_pos = 0\<rparr> = Some (Inr s)" and q': "q' = wake_waiters (as_q s)"
    using assms(2) by (auto simp: appendResultBatch_def split: option.splits sum.splits)
  have "same_promises q (as_q s)" using same_promises_loop [OF s] by simp
  then show ?thesis
    using assms(1) by (auto simp: promises_inv_def known_ids_def q' same_promises_def split: if_splits)
qed

theorem appendResultBatch_wakes_witness:
  "\<exists>q. appendResultBatch wire_format (whole_view (encode_msg utf8_encode [''id''] (demo_msg True [])))
     new_query_result = Some (Inr q) \<and> promises_inv q \<and> pending_ids (qr_promises q) = {}"
proof -
  obtain q where q: "appendResultBatch wire_format
      (whole_view (encode_msg utf8_encode [''id''] (demo_msg True []))) new_query_result = Some (Inr q)"
      "qr_isComplete q"
    using demo_append by blast
  from appendResultBatch_wakes [OF promises_inv_new q(1)] q show ?thesis by auto
qed

end
