(* ===== verification/Frame_Client.thy ===== *)
theory Frame_Client
  imports Ring_Buffer_Correct
begin

text \<open>
  The contract between the tokenizer and a class that consumes its messages. A client keeps a ring
  buffer, which the handler of a message does not touch, and runs the handler on every message that the
  buffer yields. Receiving a chunk is then handling the messages it completes. The RPC engine and the
  tracing protocol are interpretations.
\<close>

locale frame_client =
  fixes get_rb :: "'s \<Rightarrow> ring_buffer" and put_rb :: "ring_buffer \<Rightarrow> 's \<Rightarrow> 's"
    and handle :: "bytes \<Rightarrow> 's \<Rightarrow> ('e option \<times> 's) option"
    and read_loop :: "'s \<Rightarrow> ('e option \<times> 's) option" and wrap :: "framing_error \<Rightarrow> 'e"
  assumes get_put [simp]: "get_rb (put_rb rb s) = rb"
    and put_put [simp]: "put_rb rb' (put_rb rb s) = put_rb rb' s"
    and handle_put: "handle m (put_rb rb s) = map_option (map_prod id (put_rb rb)) (handle m s)"
    and read_loop_eq: "read_loop s =
      (case readMessage (get_rb s) of
         Inl e \<Rightarrow> Some (Some (wrap e), s)
       | Inr (None, rb) \<Rightarrow> Some (None, put_rb rb s)
       | Inr (Some m, rb) \<Rightarrow> (case handle m (put_rb rb s) of
             None \<Rightarrow> None | Some (Some e, s') \<Rightarrow> Some (Some e, s') | Some (None, s') \<Rightarrow> read_loop s'))"
begin

fun handle_all :: "bytes list \<Rightarrow> 's \<Rightarrow> ('e option \<times> 's) option" where
  "handle_all [] s = Some (None, s)"
| "handle_all (m # ms) s =
     (case handle m s of None \<Rightarrow> None | Some (Some e, s') \<Rightarrow> Some (Some e, s') | Some (None, s') \<Rightarrow> handle_all ms s')"

definition receive :: "bytes \<Rightarrow> 's \<Rightarrow> ('e option \<times> 's) option" where
  "receive d s =
     (case append_data (get_rb s) d of Inl e \<Rightarrow> Some (Some (wrap e), s) | Inr rb \<Rightarrow> read_loop (put_rb rb s))"

fun receive_all :: "bytes list \<Rightarrow> 's \<Rightarrow> ('e option \<times> 's) option" where
  "receive_all [] s = Some (None, s)"
| "receive_all (c # cs) s =
     (case receive c s of None \<Rightarrow> None | Some (Some e, s') \<Rightarrow> Some (Some e, s') | Some (None, s') \<Rightarrow> receive_all cs s')"

lemma handle_ConsE:
  assumes "handle_all (m # ms) s = Some (None, s')"
  obtains s1 where "handle m s = Some (None, s1)" and "handle_all ms s1 = Some (None, s')"
  using assms by (auto split: option.splits prod.splits)

lemma handle_all_put: "handle_all ms (put_rb rb s) = map_option (map_prod id (put_rb rb)) (handle_all ms s)"
  by (induction ms arbitrary: s) (auto simp: handle_put split: option.splits prod.splits)

lemma handle_all_append:
  assumes "handle_all (ms @ ms') s = Some (None, s')"
  obtains s1 where "handle_all ms s = Some (None, s1)" and "handle_all ms' s1 = Some (None, s')"
proof -
  have "\<exists>s1. handle_all ms s = Some (None, s1) \<and> handle_all ms' s1 = Some (None, s')" using assms
    by (induction ms arbitrary: s) (auto split: option.splits prod.splits)
  with that show ?thesis by blast
qed

lemma loop_drain:
  assumes "drain rb = (ms, Inr rb')" and "handle_all ms s = Some (None, s')"
  shows "read_loop (put_rb rb s) = Some (None, put_rb rb' s')"
  using assms
proof (induction rb arbitrary: ms s rule: drain.induct)
  case (1 rb)
  note d = "1.prems"(1) [unfolded drain.simps [of rb]]
  show ?case
  proof (cases "readMessage rb")
    case (Inl e)
    with d show ?thesis by simp
  next
    case (Inr x)
    obtain mo rb1 where x: "x = (mo, rb1)" by (cases x)
    show ?thesis
    proof (cases mo)
      case None
      with d Inr x "1.prems"(2) show ?thesis by (subst read_loop_eq) simp
    next
      case (Some m)
      obtain ms1 where ms1: "drain rb1 = (ms1, Inr rb')" "ms = m # ms1" using d Inr x Some by (auto split: prod.splits)
      from "1.prems"(2) [unfolded ms1] obtain s1 where s1: "handle m s = Some (None, s1)" "handle_all ms1 s1 = Some (None, s')"
        by (rule handle_ConsE)
      have "read_loop (put_rb rb s) = read_loop (put_rb rb1 s1)"
        using Inr x Some s1(1) by (subst read_loop_eq) (simp add: handle_put)
      then show ?thesis using "1.IH" [OF Inr x [symmetric] Some ms1(1) s1(2)] by simp
    qed
  qed
qed

lemma receive_all_feed:
  assumes "feed rb cs = (ms, Inr rb')" and "handle_all ms s = Some (None, s')"
  shows "receive_all cs (put_rb rb s) = Some (None, put_rb rb' s')"
  using assms
proof (induction cs arbitrary: rb ms s)
  case (Cons c cs)
  obtain rb1 where rb1: "append_data rb c = Inr rb1" using Cons.prems(1) by (auto split: sum.splits)
  obtain ms1 rb2 ms2 where d: "drain rb1 = (ms1, Inr rb2)" "feed rb2 cs = (ms2, Inr rb')" "ms = ms1 @ ms2"
    using Cons.prems(1) rb1 by (auto split: prod.splits sum.splits)
  from Cons.prems(2) [unfolded d(3)] obtain s1 where s1: "handle_all ms1 s = Some (None, s1)" "handle_all ms2 s1 = Some (None, s')"
    by (rule handle_all_append)
  show ?case using loop_drain [OF d(1) s1(1)] Cons.IH [OF d(2) s1(2)] rb1 by (simp add: receive_def)
qed simp

text \<open>However a stream of framed messages is cut, the client handles the messages one by one.\<close>

lemma receive_encoded:
  assumes "get_rb s = new_ring_buffer m" and "put_rb (get_rb s) s = s" and "\<not> bad_tag tag"
    and "\<forall>f\<in>set frames. length f < kMaxMsgSize" and "concat cs = encode_stream m tag frames"
    and "\<forall>c\<in>set cs. length c \<le> kMaxMsgSize - 2 * kGrowBytes" and "handle_all frames s = Some (None, s')"
  shows "\<exists>rb. receive_all cs s = Some (None, put_rb rb s') \<and> pending rb = []"
  using feed_encoded [OF assms(3-6)] receive_all_feed [OF _ assms(7)] assms(1,2) by metis

end

end
