(* ===== verification/Engine_Correct.thy ===== *)
theory Engine_Correct
  imports Engine Rows_Roundtrip Frame_Client
begin

text \<open>
  Correctness of the RPC engine against an abstract queue of outstanding requests: the trace processor
  answers requests in the order in which they were sent, and every answer settles exactly the promise
  of the request it belongs to.
\<close>

subsection \<open>The pending references by method\<close>

fun pending_of :: "engine \<Rightarrow> tpm \<Rightarrow> nat list" where
  "pending_of e TPM_APPEND_TRACE_DATA = pendingParses e"
| "pending_of e TPM_FINALIZE_TRACE_DATA = pendingEOFs e"
| "pending_of e TPM_RESET_TRACE_PROCESSOR = pendingResetTraceProcessors e"
| "pending_of e TPM_RESTORE_INITIAL_TABLES = pendingRestoreTables e"
| "pending_of e TPM_QUERY_STREAMING = pendingQueries e"
| "pending_of e TPM_COMPUTE_METRIC = pendingComputeMetrics e"
| "pending_of e TPM_DISABLE_AND_READ_METATRACE = (case pendingReadMetatrace e of None \<Rightarrow> [] | Some p \<Rightarrow> [p])"
| "pending_of e TPM_REGISTER_SQL_PACKAGE = (case pendingRegisterSqlPackage e of None \<Rightarrow> [] | Some p \<Rightarrow> [p])"
| "pending_of e TPM_SUMMARIZE_TRACE = (case pendingTraceSummary e of None \<Rightarrow> [] | Some p \<Rightarrow> [p])"
| "pending_of e TPM_CREATE_SUMMARIZER = (case pendingCreateSummarizer e of None \<Rightarrow> [] | Some p \<Rightarrow> [p])"
| "pending_of e TPM_UPDATE_SUMMARIZER_SPEC = (case pendingUpdateSummarizerSpec e of None \<Rightarrow> [] | Some p \<Rightarrow> [p])"
| "pending_of e TPM_QUERY_SUMMARIZER = (case pendingQuerySummarizer e of None \<Rightarrow> [] | Some p \<Rightarrow> [p])"
| "pending_of e TPM_DESTROY_SUMMARIZER = (case pendingDestroySummarizer e of None \<Rightarrow> [] | Some p \<Rightarrow> [p])"
| "pending_of e TPM_ENABLE_METATRACE = []"
| "pending_of e TPM_OTHER = []"

text \<open>
  The abstract state: the requests that have been sent and not finally answered, oldest first, each
  with its method and the promise (or the query result) that waits for it.
\<close>

type_synonym outstanding = "(tpm \<times> nat) list"

definition ids_of :: "tpm \<Rightarrow> outstanding \<Rightarrow> nat list" where
  "ids_of k out = map snd (filter (\<lambda>x. fst x = k) out)"

definition has_promise :: "tpm \<Rightarrow> bool" where
  "has_promise k \<longleftrightarrow> k \<noteq> TPM_QUERY_STREAMING \<and> k \<noteq> TPM_ENABLE_METATRACE"

definition promise_ids :: "outstanding \<Rightarrow> nat list" where
  "promise_ids out = map snd (filter (\<lambda>x. has_promise (fst x)) out)"

definition engine_inv :: "engine \<Rightarrow> outstanding \<Rightarrow> bool" where
  "engine_inv e out \<longleftrightarrow>
     numRequestsPending e = int (length out) \<and>
     (\<forall>k. k \<noteq> TPM_ENABLE_METATRACE \<longrightarrow> pending_of e k = ids_of k out) \<and>
     distinct (promise_ids out) \<and>
     (\<forall>p < length (eng_promises e). eng_promises e ! p = Unsettled \<longleftrightarrow> p \<in> set (promise_ids out)) \<and>
     set (promise_ids out) \<subseteq> {..<length (eng_promises e)} \<and>
     set (ids_of TPM_QUERY_STREAMING out) \<subseteq> {..<length (eng_results e)}"

lemma ids_of_simps [simp]:
  "ids_of k [] = []" "ids_of k (x # out) = (if fst x = k then snd x # ids_of k out else ids_of k out)"
  "ids_of k (out @ out') = ids_of k out @ ids_of k out'"
  by (simp_all add: ids_of_def)

lemma promise_ids_simps [simp]:
  "promise_ids [] = []"
  "promise_ids (x # out) = (if has_promise (fst x) then snd x # promise_ids out else promise_ids out)"
  "promise_ids (out @ out') = promise_ids out @ promise_ids out'"
  by (simp_all add: promise_ids_def)

lemma engine_inv_new: "engine_inv new_engine []"
proof -
  have "pending_of new_engine k = []" for k by (cases k) (simp_all add: new_engine_def)
  then show ?thesis by (simp add: engine_inv_def new_engine_def)
qed

subsection \<open>Issuing requests\<close>

text \<open>A request with a new promise, as seen through the invariant.\<close>

definition issued :: "tpm \<Rightarrow> nat \<Rightarrow> engine \<Rightarrow> engine \<Rightarrow> bool" where
  "issued k p e e' \<longleftrightarrow> has_promise k \<and> p = length (eng_promises e) \<and>
     pending_of e' = (pending_of e)(k := pending_of e k @ [p]) \<and>
     eng_promises e' = eng_promises e @ [Unsettled] \<and> eng_results e' = eng_results e \<and>
     numRequestsPending e' = numRequestsPending e + 1 \<and> rxSeqId e' = rxSeqId e"

definition refused :: "engine \<Rightarrow> engine \<Rightarrow> bool" where
  "refused e e' \<longleftrightarrow> (\<exists>m. e' = e\<lparr>eng_promises := eng_promises e @ [Refused m]\<rparr>)"

lemma pending_of_update [simp]:
  "pending_of (e\<lparr>pendingParses := ps\<rparr>) = (pending_of e)(TPM_APPEND_TRACE_DATA := ps)"
  "pending_of (e\<lparr>pendingEOFs := ps\<rparr>) = (pending_of e)(TPM_FINALIZE_TRACE_DATA := ps)"
  "pending_of (e\<lparr>pendingResetTraceProcessors := ps\<rparr>) = (pending_of e)(TPM_RESET_TRACE_PROCESSOR := ps)"
  "pending_of (e\<lparr>pendingRestoreTables := ps\<rparr>) = (pending_of e)(TPM_RESTORE_INITIAL_TABLES := ps)"
  "pending_of (e\<lparr>pendingQueries := ps\<rparr>) = (pending_of e)(TPM_QUERY_STREAMING := ps)"
  "pending_of (e\<lparr>pendingComputeMetrics := ps\<rparr>) = (pending_of e)(TPM_COMPUTE_METRIC := ps)"
  "pending_of (e\<lparr>pendingReadMetatrace := Some p\<rparr>) = (pending_of e)(TPM_DISABLE_AND_READ_METATRACE := [p])"
  "pending_of (e\<lparr>pendingReadMetatrace := None\<rparr>) = (pending_of e)(TPM_DISABLE_AND_READ_METATRACE := [])"
  "pending_of (e\<lparr>pendingRegisterSqlPackage := Some p\<rparr>) = (pending_of e)(TPM_REGISTER_SQL_PACKAGE := [p])"
  "pending_of (e\<lparr>pendingRegisterSqlPackage := None\<rparr>) = (pending_of e)(TPM_REGISTER_SQL_PACKAGE := [])"
  "pending_of (e\<lparr>pendingTraceSummary := Some p\<rparr>) = (pending_of e)(TPM_SUMMARIZE_TRACE := [p])"
  "pending_of (e\<lparr>pendingTraceSummary := None\<rparr>) = (pending_of e)(TPM_SUMMARIZE_TRACE := [])"
  "pending_of (e\<lparr>pendingCreateSummarizer := Some p\<rparr>) = (pending_of e)(TPM_CREATE_SUMMARIZER := [p])"
  "pending_of (e\<lparr>pendingCreateSummarizer := None\<rparr>) = (pending_of e)(TPM_CREATE_SUMMARIZER := [])"
  "pending_of (e\<lparr>pendingUpdateSummarizerSpec := Some p\<rparr>) = (pending_of e)(TPM_UPDATE_SUMMARIZER_SPEC := [p])"
  "pending_of (e\<lparr>pendingUpdateSummarizerSpec := None\<rparr>) = (pending_of e)(TPM_UPDATE_SUMMARIZER_SPEC := [])"
  "pending_of (e\<lparr>pendingQuerySummarizer := Some p\<rparr>) = (pending_of e)(TPM_QUERY_SUMMARIZER := [p])"
  "pending_of (e\<lparr>pendingQuerySummarizer := None\<rparr>) = (pending_of e)(TPM_QUERY_SUMMARIZER := [])"
  "pending_of (e\<lparr>pendingDestroySummarizer := Some p\<rparr>) = (pending_of e)(TPM_DESTROY_SUMMARIZER := [p])"
  "pending_of (e\<lparr>pendingDestroySummarizer := None\<rparr>) = (pending_of e)(TPM_DESTROY_SUMMARIZER := [])"
  by (rule ext, rename_tac k', case_tac k'; simp)+

lemma pending_of_frame [simp]:
  "pending_of (e\<lparr>txSeqId := n\<rparr>) = pending_of e"
  "pending_of (e\<lparr>rxSeqId := i\<rparr>) = pending_of e"
  "pending_of (e\<lparr>rxBuf := rb\<rparr>) = pending_of e"
  "pending_of (e\<lparr>numRequestsPending := i\<rparr>) = pending_of e"
  "pending_of (e\<lparr>eng_failed := x\<rparr>) = pending_of e"
  "pending_of (e\<lparr>queryLog := l\<rparr>) = pending_of e"
  "pending_of (e\<lparr>eng_logged := n\<rparr>) = pending_of e"
  "pending_of (e\<lparr>eng_promises := q\<rparr>) = pending_of e"
  "pending_of (e\<lparr>eng_results := w\<rparr>) = pending_of e"
  "pending_of (e\<lparr>eng_sent := t\<rparr>) = pending_of e"
  by (rule ext, rename_tac k', case_tac k'; simp)+

lemmas request_defs = parse_data_def notifyEof_def resetTraceProcessor_def restoreInitialTables_def
  computeMetric_def summarizeTrace_def stopAndGetMetatrace_def registerSqlPackages_def
  createSummarizer_def updateSummarizerSpec_def querySummarizer_def destroySummarizer_def

lemmas send_defs = defer_promise_def rpcSendRequest_def reject_now_def

lemma issued_queue [inv_intro]:
  "parse_data d e = (p, e') \<Longrightarrow> issued TPM_APPEND_TRACE_DATA p e e'"
  "notifyEof e = (p, e') \<Longrightarrow> issued TPM_FINALIZE_TRACE_DATA p e e'"
  "resetTraceProcessor c e = (p, e') \<Longrightarrow> issued TPM_RESET_TRACE_PROCESSOR p e e'"
  "restoreInitialTables e = (p, e') \<Longrightarrow> issued TPM_RESTORE_INITIAL_TABLES p e e'"
  "computeMetric ms f e = Inr (p, e') \<Longrightarrow> issued TPM_COMPUTE_METRIC p e e'"
  by (auto simp: issued_def has_promise_def request_defs send_defs Let_def split: option.splits)

lemma issued_slot [inv_intro]:
  "pendingTraceSummary e = None \<Longrightarrow> specs_length specs \<noteq> 0 \<Longrightarrow> summarizeTrace specs ms md t e = (p, e') \<Longrightarrow>
     issued TPM_SUMMARIZE_TRACE p e e'"
  "pendingReadMetatrace e = None \<Longrightarrow> stopAndGetMetatrace e = (p, e') \<Longrightarrow>
     issued TPM_DISABLE_AND_READ_METATRACE p e e'"
  "pendingRegisterSqlPackage e = None \<Longrightarrow> registerSqlPackages nm mods e = (p, e') \<Longrightarrow>
     issued TPM_REGISTER_SQL_PACKAGE p e e'"
  "pendingCreateSummarizer e = None \<Longrightarrow> createSummarizer sid e = (p, e') \<Longrightarrow>
     issued TPM_CREATE_SUMMARIZER p e e'"
  "pendingUpdateSummarizerSpec e = None \<Longrightarrow> updateSummarizerSpec sid spec e = (p, e') \<Longrightarrow>
     issued TPM_UPDATE_SUMMARIZER_SPEC p e e'"
  "pendingQuerySummarizer e = None \<Longrightarrow> querySummarizer sid qid e = (p, e') \<Longrightarrow>
     issued TPM_QUERY_SUMMARIZER p e e'"
  "pendingDestroySummarizer e = None \<Longrightarrow> destroySummarizer sid e = (p, e') \<Longrightarrow>
     issued TPM_DESTROY_SUMMARIZER p e e'"
  by (auto simp: issued_def has_promise_def request_defs send_defs)

lemma refused_slot [inv_intro]:
  "pendingTraceSummary e \<noteq> None \<or> specs_length specs = 0 \<Longrightarrow> summarizeTrace specs ms md t e = (p, e') \<Longrightarrow> refused e e'"
  "pendingReadMetatrace e \<noteq> None \<Longrightarrow> stopAndGetMetatrace e = (p, e') \<Longrightarrow> refused e e'"
  "pendingRegisterSqlPackage e \<noteq> None \<Longrightarrow> registerSqlPackages nm mods e = (p, e') \<Longrightarrow> refused e e'"
  "pendingCreateSummarizer e \<noteq> None \<Longrightarrow> createSummarizer sid e = (p, e') \<Longrightarrow> refused e e'"
  "pendingUpdateSummarizerSpec e \<noteq> None \<Longrightarrow> updateSummarizerSpec sid spec e = (p, e') \<Longrightarrow> refused e e'"
  "pendingQuerySummarizer e \<noteq> None \<Longrightarrow> querySummarizer sid qid e = (p, e') \<Longrightarrow> refused e e'"
  "pendingDestroySummarizer e \<noteq> None \<Longrightarrow> destroySummarizer sid e = (p, e') \<Longrightarrow> refused e e'"
  by (auto simp: refused_def request_defs send_defs split: if_splits)

lemma engine_inv_issued:
  assumes "engine_inv e out" and "issued k p e e'"
  shows "engine_inv e' (out @ [(k, p)])"
  using assms
  by (auto simp: engine_inv_def issued_def nth_append less_Suc_eq) (simp add: has_promise_def)

lemma engine_inv_refused:
  assumes "engine_inv e out" and "refused e e'"
  shows "engine_inv e' out"
  using assms by (auto simp: engine_inv_def refused_def nth_append less_Suc_eq)

lemma engine_inv_query_start:
  assumes "engine_inv e out" and "query_start now sql tag e = Inr (l, i, e')"
  shows "engine_inv e' (out @ [(TPM_QUERY_STREAMING, i)])" and "i = length (eng_results e)"
  using assms
  by (auto simp: engine_inv_def query_start_def logQueryStart_def streamingQuery_def send_defs Let_def
      has_promise_def split: sum.splits)

lemma engine_inv_enableMetatrace:
  "engine_inv e out \<Longrightarrow> engine_inv (enableMetatrace c e) (out @ [(TPM_ENABLE_METATRACE, 0)])"
  by (auto simp: engine_inv_def enableMetatrace_def send_defs has_promise_def)

subsection \<open>Answers\<close>

text \<open>What a response means for the promise of its request; \<open>None\<close> when the result is missing.\<close>

fun response_outcome :: "rpc_response \<Rightarrow> tpm \<Rightarrow> promise option" where
  "response_outcome r TPM_APPEND_TRACE_DATA = map_option void_outcome (appendResult r)"
| "response_outcome r TPM_FINALIZE_TRACE_DATA = map_option void_outcome (finalizeDataResult r)"
| "response_outcome r TPM_RESET_TRACE_PROCESSOR = Some (Fulfilled P_void)"
| "response_outcome r TPM_RESTORE_INITIAL_TABLES = Some (Fulfilled P_void)"
| "response_outcome r TPM_COMPUTE_METRIC = map_option metric_outcome (metricResult r)"
| "response_outcome r TPM_DISABLE_AND_READ_METATRACE = map_option (Fulfilled \<circ> P_bytes) (metatrace r)"
| "response_outcome r TPM_REGISTER_SQL_PACKAGE = map_option void_outcome (registerSqlPackageResult r)"
| "response_outcome r TPM_SUMMARIZE_TRACE = map_option (Fulfilled \<circ> P_bytes) (traceSummaryResult r)"
| "response_outcome r TPM_CREATE_SUMMARIZER = map_option (Fulfilled \<circ> P_bytes) (createSummarizerResult r)"
| "response_outcome r TPM_UPDATE_SUMMARIZER_SPEC = map_option (Fulfilled \<circ> P_bytes) (updateSummarizerSpecResult r)"
| "response_outcome r TPM_QUERY_SUMMARIZER = map_option (Fulfilled \<circ> P_bytes) (querySummarizerResult r)"
| "response_outcome r TPM_DESTROY_SUMMARIZER = map_option (Fulfilled \<circ> P_bytes) (destroySummarizerResult r)"
| "response_outcome r _ = None"

lemma void_outcome_settled [simp]: "void_outcome x \<noteq> Unsettled"
  by (simp add: void_outcome_def split: option.splits list.splits)

lemma metric_outcome_settled [simp]: "metric_outcome x \<noteq> Unsettled"
  by (simp add: metric_outcome_def split: option.splits list.splits)

lemma response_outcome_settled: "response_outcome r k = Some d \<Longrightarrow> d \<noteq> Unsettled"
  by (cases k) auto

text \<open>The promise at the head of its queue is settled and leaves the queue; nothing else changes.\<close>

definition answered :: "tpm \<Rightarrow> nat \<Rightarrow> promise \<Rightarrow> engine \<Rightarrow> engine \<Rightarrow> bool" where
  "answered k p d e e' \<longleftrightarrow>
     pending_of e' = (pending_of e)(k := tl (pending_of e k)) \<and>
     eng_promises e' = eng_promises (settle_promise p d e) \<and> eng_results e' = eng_results e \<and>
     numRequestsPending e' = numRequestsPending e \<and> rxSeqId e' = rxSeqId e"

lemma settle_promise_frame [simp]:
  "pending_of (settle_promise p d e) = pending_of e"
  "eng_results (settle_promise p d e) = eng_results e"
  "numRequestsPending (settle_promise p d e) = numRequestsPending e"
  "rxSeqId (settle_promise p d e) = rxSeqId e"
  "length (eng_promises (settle_promise p d e)) = length (eng_promises e)"
  by (simp_all add: settle_promise_def)

lemma settle_promise_update [simp]:
  "eng_promises (settle_promise p d (f e)) = eng_promises (settle_promise p d e)"
  if "eng_promises (f e) = eng_promises e"
  using that by (simp add: settle_promise_def)

lemma dispatch_answered:
  assumes "pending_of e k = p # ps" and "response r = k" and "response_outcome r k = Some d"
  shows "\<exists>e'. dispatch_response r e = Inr e' \<and> answered k p d e e'"
  using assms
  by (cases k)
    (auto simp: dispatch_response_def settle_first_def settle_slot_def answered_def split: option.splits)

lemma engine_inv_answered:
  assumes inv: "engine_inv e ((k, p) # out)" and k: "has_promise k" "d \<noteq> Unsettled"
    and a: "answered k p d e e'"
  shows "engine_inv (e'\<lparr>numRequestsPending := numRequestsPending e' - 1\<rparr>) out"
    and "eng_promises e' = (eng_promises e)[p := d]"
proof -
  from inv k have p: "p < length (eng_promises e)" "eng_promises e ! p = Unsettled"
    "p \<notin> set (promise_ids out)"
    by (auto simp: engine_inv_def)
  then show ps: "eng_promises e' = (eng_promises e)[p := d]"
    using a by (simp add: answered_def settle_promise_def nth_opt_def)
  have "(eng_promises e)[p := d] ! q = Unsettled \<longleftrightarrow> q \<in> set (promise_ids out)"
    if "q < length (eng_promises e)" for q
    using inv k p that by (cases "q = p") (auto simp: engine_inv_def)
  then show "engine_inv (e'\<lparr>numRequestsPending := numRequestsPending e' - 1\<rparr>) out"
    using inv k a ps by (auto simp: engine_inv_def answered_def has_promise_def)
qed

text \<open>
  \<open>answers R r k p e final\<close>: the response \<open>r\<close> is a well-formed answer to the request at the head of the
  outstanding ones; \<open>final\<close> is false for a batch that is not the last one of a query.
\<close>

definition answers :: "proto_reader \<Rightarrow> rpc_response \<Rightarrow> tpm \<Rightarrow> nat \<Rightarrow> engine \<Rightarrow> bool \<Rightarrow> bool" where
  "answers R r k p e final \<longleftrightarrow>
     response r = k \<and> (fatalError r = None \<or> fatalError r = Some []) \<and> rs_seq r = rxSeqId e + 1 \<and>
     (if k = TPM_QUERY_STREAMING then
        \<exists>v q. queryResult r = Some v \<and>
          appendResultBatch R v (w_impl (eng_results e ! p)) = Some (Inr q) \<and> final = qr_isComplete q
      else final \<and> (k = TPM_ENABLE_METATRACE \<or> response_outcome r k \<noteq> None))"

definition remaining :: "bool \<Rightarrow> tpm \<Rightarrow> nat \<Rightarrow> outstanding \<Rightarrow> outstanding" where
  "remaining final k p out = (if final then out else (k, p) # out)"

lemma engine_inv_rxSeqId [simp]: "engine_inv (e\<lparr>rxSeqId := n\<rparr>) out = engine_inv e out"
  by (simp add: engine_inv_def)

lemma handle_promise:
  assumes inv: "engine_inv e ((k, p) # out)" and r: "answers R r k p e True"
    and k: "has_promise k" and d: "response_outcome r k = Some d"
  shows "\<exists>e'. handle_response R r e = Some (Inr e') \<and> engine_inv e' out \<and> rxSeqId e' = rs_seq r \<and>
    eng_promises e' = (eng_promises e)[p := d] \<and> eng_results e' = eng_results e"
proof -
  let ?e = "e\<lparr>rxSeqId := rs_seq r\<rparr>"
  have inv': "engine_inv ?e ((k, p) # out)" using inv by simp
  have "pending_of ?e k = p # ids_of k out" using inv k by (auto simp: engine_inv_def has_promise_def)
  then obtain e' where e': "dispatch_response r ?e = Inr e'" "answered k p d ?e e'"
    using dispatch_answered [of ?e k p "ids_of k out" r d] r d by (auto simp: answers_def)
  note post = engine_inv_answered [OF inv' k response_outcome_settled [OF d] e'(2)]
  have "handle_response R r e = Some (Inr (e'\<lparr>numRequestsPending := numRequestsPending e' - 1\<rparr>))"
    using r k e'(1) by (auto simp: handle_response_def count_final_def answers_def dispatch_def has_promise_def)
  with post e'(2) show ?thesis by (auto simp: answered_def)
qed

lemma handle_stream:
  assumes inv: "engine_inv e ((TPM_QUERY_STREAMING, i) # out)" and r: "answers R r TPM_QUERY_STREAMING i e final"
  shows "\<exists>v q e'. queryResult r = Some v \<and>
    appendResultBatch R v (w_impl (eng_results e ! i)) = Some (Inr q) \<and>
    handle_response R r e = Some (Inr e') \<and> final = qr_isComplete q \<and> rxSeqId e' = rs_seq r \<and>
    engine_inv e' (remaining final TPM_QUERY_STREAMING i out) \<and> eng_promises e' = eng_promises e \<and>
    eng_results e' = (eng_results e)[i := (eng_results e ! i)\<lparr>w_impl := q\<rparr>]"
proof -
  obtain v q where v: "queryResult r = Some v"
      "appendResultBatch R v (w_impl (eng_results e ! i)) = Some (Inr q)" "final = qr_isComplete q"
    using r by (auto simp: answers_def)
  have "pending_of e TPM_QUERY_STREAMING = i # ids_of TPM_QUERY_STREAMING out"
    using inv by (auto simp: engine_inv_def)
  then have qs: "pendingQueries e = i # ids_of TPM_QUERY_STREAMING out" by simp
  show ?thesis
    using inv r v qs
    by (cases "qr_isComplete q")
      (auto simp: handle_response_def count_final_def answers_def dispatch_def stream_response_def Let_def remaining_def
        engine_inv_def has_promise_def)
qed

lemma handle_enable:
  assumes "engine_inv e ((TPM_ENABLE_METATRACE, p) # out)" and "answers R r TPM_ENABLE_METATRACE p e final"
  shows "\<exists>e'. handle_response R r e = Some (Inr e') \<and> engine_inv e' out \<and> rxSeqId e' = rs_seq r \<and>
    eng_promises e' = eng_promises e \<and> eng_results e' = eng_results e"
  using assms
  by (auto simp: handle_response_def count_final_def answers_def dispatch_def dispatch_response_def engine_inv_def
      has_promise_def)

subsection \<open>The engine and an in-order trace processor\<close>

text \<open>The client operations, with the request (if any) that they add to the outstanding ones.\<close>

inductive client_call :: "engine \<Rightarrow> outstanding \<Rightarrow> engine \<Rightarrow> bool" where
  call_parse: "parse_data d e = (p, e') \<Longrightarrow> client_call e [(TPM_APPEND_TRACE_DATA, p)] e'"
| call_eof: "notifyEof e = (p, e') \<Longrightarrow> client_call e [(TPM_FINALIZE_TRACE_DATA, p)] e'"
| call_reset: "resetTraceProcessor c e = (p, e') \<Longrightarrow> client_call e [(TPM_RESET_TRACE_PROCESSOR, p)] e'"
| call_restore: "restoreInitialTables e = (p, e') \<Longrightarrow> client_call e [(TPM_RESTORE_INITIAL_TABLES, p)] e'"
| call_metric: "computeMetric ms f e = Inr (p, e') \<Longrightarrow> client_call e [(TPM_COMPUTE_METRIC, p)] e'"
| call_query: "query_start now sql tag e = Inr (l, i, e') \<Longrightarrow> client_call e [(TPM_QUERY_STREAMING, i)] e'"
| call_enable: "client_call e [(TPM_ENABLE_METATRACE, 0)] (enableMetatrace c e)"
| call_summarize: "summarizeTrace specs mi md t e = (p, e') \<Longrightarrow> pendingTraceSummary e = None \<Longrightarrow>
    specs_length specs \<noteq> 0 \<Longrightarrow> client_call e [(TPM_SUMMARIZE_TRACE, p)] e'"
| call_summarize_no: "summarizeTrace specs mi md t e = (p, e') \<Longrightarrow>
    pendingTraceSummary e \<noteq> None \<or> specs_length specs = 0 \<Longrightarrow> client_call e [] e'"
| call_metatrace: "stopAndGetMetatrace e = (p, e') \<Longrightarrow> pendingReadMetatrace e = None \<Longrightarrow>
    client_call e [(TPM_DISABLE_AND_READ_METATRACE, p)] e'"
| call_metatrace_no: "stopAndGetMetatrace e = (p, e') \<Longrightarrow> pendingReadMetatrace e \<noteq> None \<Longrightarrow> client_call e [] e'"
| call_register: "registerSqlPackages nm mods e = (p, e') \<Longrightarrow> pendingRegisterSqlPackage e = None \<Longrightarrow>
    client_call e [(TPM_REGISTER_SQL_PACKAGE, p)] e'"
| call_register_no: "registerSqlPackages nm mods e = (p, e') \<Longrightarrow> pendingRegisterSqlPackage e \<noteq> None \<Longrightarrow> client_call e [] e'"
| call_create: "createSummarizer sid e = (p, e') \<Longrightarrow> pendingCreateSummarizer e = None \<Longrightarrow>
    client_call e [(TPM_CREATE_SUMMARIZER, p)] e'"
| call_create_no: "createSummarizer sid e = (p, e') \<Longrightarrow> pendingCreateSummarizer e \<noteq> None \<Longrightarrow> client_call e [] e'"
| call_update: "updateSummarizerSpec sid sp e = (p, e') \<Longrightarrow> pendingUpdateSummarizerSpec e = None \<Longrightarrow>
    client_call e [(TPM_UPDATE_SUMMARIZER_SPEC, p)] e'"
| call_update_no: "updateSummarizerSpec sid sp e = (p, e') \<Longrightarrow> pendingUpdateSummarizerSpec e \<noteq> None \<Longrightarrow> client_call e [] e'"
| call_query_sum: "querySummarizer sid qid e = (p, e') \<Longrightarrow> pendingQuerySummarizer e = None \<Longrightarrow>
    client_call e [(TPM_QUERY_SUMMARIZER, p)] e'"
| call_query_sum_no: "querySummarizer sid qid e = (p, e') \<Longrightarrow> pendingQuerySummarizer e \<noteq> None \<Longrightarrow> client_call e [] e'"
| call_destroy: "destroySummarizer sid e = (p, e') \<Longrightarrow> pendingDestroySummarizer e = None \<Longrightarrow>
    client_call e [(TPM_DESTROY_SUMMARIZER, p)] e'"
| call_destroy_no: "destroySummarizer sid e = (p, e') \<Longrightarrow> pendingDestroySummarizer e \<noteq> None \<Longrightarrow> client_call e [] e'"

lemma engine_inv_client_call:
  "client_call e ks e' \<Longrightarrow> engine_inv e out \<Longrightarrow> engine_inv e' (out @ ks)"
  by (induction rule: client_call.induct)
    (auto intro: engine_inv_issued engine_inv_query_start engine_inv_enableMetatrace inv_intro
      elim!: engine_inv_refused)

text \<open>
  Runs of the engine with a trace processor that answers in order: client calls and answers interleave
  in any way.
\<close>

inductive rpc_run :: "proto_reader \<Rightarrow> engine \<Rightarrow> outstanding \<Rightarrow> bool" for R where
  run_init: "rpc_run R new_engine []"
| run_call: "rpc_run R e out \<Longrightarrow> client_call e ks e' \<Longrightarrow> rpc_run R e' (out @ ks)"
| run_answer: "rpc_run R e ((k, p) # out) \<Longrightarrow> answers R r k p e final \<Longrightarrow>
    handle_response R r e = Some (Inr e') \<Longrightarrow> rpc_run R e' (remaining final k p out)"

lemma no_other_outstanding:
  "engine_inv e ((k, p) # out) \<Longrightarrow> k \<noteq> TPM_OTHER"
  by (auto simp: engine_inv_def dest!: spec [of _ TPM_OTHER])

lemma handle_answer:
  assumes "engine_inv e ((k, p) # out)" and "answers R r k p e final"
  shows "\<exists>e'. handle_response R r e = Some (Inr e') \<and> engine_inv e' (remaining final k p out)"
proof (cases "k = TPM_QUERY_STREAMING \<or> k = TPM_ENABLE_METATRACE")
  case True
  with assms handle_stream [of e p out R r final] handle_enable [of e p out R r final] show ?thesis
    by (auto simp: remaining_def answers_def)
next
  case False
  then have k: "has_promise k" and f: "final" using assms(2) by (auto simp: has_promise_def answers_def)
  obtain d where "response_outcome r k = Some d" using assms(2) False by (auto simp: answers_def)
  with handle_promise [OF assms(1) _ k, of R r] assms(2) f show ?thesis by (auto simp: remaining_def)
qed

lemma rpc_run_inv: "rpc_run R e out \<Longrightarrow> engine_inv e out"
proof (induction rule: rpc_run.induct)
  case run_init
  show ?case by (rule engine_inv_new)
next
  case (run_call e out ks e')
  then show ?case by (blast intro: engine_inv_client_call)
next
  case (run_answer e k p out r final e')
  with handle_answer [OF run_answer.IH run_answer.hyps(2)] show ?case by auto
qed

text \<open>
  C12. In every run with an in-order trace processor, however calls and answers interleave, the number of
  pending requests is the number of outstanding ones, a promise is unsettled exactly when its request
  is outstanding, and the next answer never fails an assertion.
\<close>

theorem rpc_run_correct:
  assumes "rpc_run R e out"
  shows "numRequestsPending e = int (length out) \<and>
    {p. nth_opt (eng_promises e) p = Some Unsettled} = set (promise_ids out) \<and>
    (\<forall>k p rest r final. out = (k, p) # rest \<and> answers R r k p e final \<longrightarrow>
       (\<exists>e'. handle_response R r e = Some (Inr e') \<and> rpc_run R e' (remaining final k p rest)))"
proof -
  note inv = rpc_run_inv [OF assms]
  have "\<exists>e'. handle_response R r e = Some (Inr e') \<and> rpc_run R e' (remaining final k p rest)"
    if o: "out = (k, p) # rest" and a: "answers R r k p e final" for k p rest r final
  proof -
    obtain e' where "handle_response R r e = Some (Inr e')" using handle_answer [OF _ a] inv o by blast
    with run_answer [of R e k p rest r final] assms o a show ?thesis by blast
  qed
  moreover have "{p. nth_opt (eng_promises e) p = Some Unsettled} = set (promise_ids out)"
    using inv by (auto simp: engine_inv_def nth_opt_def)
  ultimately show ?thesis using inv by (auto simp: engine_inv_def)
qed

definition eof_response :: rpc_response where
  "eof_response = \<lparr>fatalError = None, rs_seq = 1, response = TPM_FINALIZE_TRACE_DATA, appendResult = None,
     finalizeDataResult = Some None, queryResult = None, metricResult = None,
     registerSqlPackageResult = None, metatrace = None, traceSummaryResult = None,
     createSummarizerResult = None, updateSummarizerSpecResult = None, querySummarizerResult = None,
     destroySummarizerResult = None\<rparr>"

lemma eof_run: "rpc_run R (snd (notifyEof new_engine)) [(TPM_FINALIZE_TRACE_DATA, 0)]"
proof -
  obtain e where e: "notifyEof new_engine = (0, e)"
    by (simp add: notifyEof_def new_engine_def send_defs)
  from run_call [OF run_init call_eof [OF e]] e show ?thesis by simp
qed

lemma eof_answers: "answers R eof_response TPM_FINALIZE_TRACE_DATA 0 (snd (notifyEof new_engine)) True"
  by (simp add: answers_def eof_response_def notifyEof_def new_engine_def send_defs)

theorem rpc_run_correct_witness:
  "numRequestsPending (snd (notifyEof new_engine)) = 1 \<and>
   (\<exists>e'. handle_response wire_format eof_response (snd (notifyEof new_engine)) = Some (Inr e') \<and>
      rpc_run wire_format e' [])"
proof -
  note run = rpc_run_correct [OF eof_run [of wire_format]]
  from run eof_answers [of wire_format] have "\<exists>e'. handle_response wire_format eof_response
      (snd (notifyEof new_engine)) = Some (Inr e') \<and>
      rpc_run wire_format e' (remaining True TPM_FINALIZE_TRACE_DATA 0 [])" by blast
  with run show ?thesis by (simp add: remaining_def)
qed

text \<open>
  The answer to a request settles the promise of that request with the outcome the message carries,
  leaves every other promise and every query result alone, and takes exactly that request off the
  outstanding ones, whatever other requests of any kind are in flight.
\<close>

theorem answer_settles_promise:
  assumes "rpc_run R e ((k, p) # out)" and "answers R r k p e True" and "has_promise k"
  shows "\<exists>d e'. response_outcome r k = Some d \<and> handle_response R r e = Some (Inr e') \<and>
    rpc_run R e' out \<and> eng_promises e' = (eng_promises e)[p := d] \<and> eng_results e' = eng_results e"
proof -
  obtain d where d: "response_outcome r k = Some d"
    using assms(2,3) by (auto simp: answers_def has_promise_def)
  from handle_promise [OF rpc_run_inv [OF assms(1)] assms(2,3) d] obtain e' where
    e': "handle_response R r e = Some (Inr e')" "eng_promises e' = (eng_promises e)[p := d]"
      "eng_results e' = eng_results e" by blast
  with run_answer [OF assms(1,2) e'(1)] d show ?thesis by (auto simp: remaining_def)
qed

theorem answer_settles_promise_witness:
  "\<exists>e'. handle_response wire_format eof_response (snd (notifyEof new_engine)) = Some (Inr e') \<and>
     eng_promises e' = [Fulfilled P_void]"
  using answer_settles_promise [OF eof_run [of wire_format] eof_answers]
  by (auto simp: has_promise_def eof_response_def void_outcome_def notifyEof_def new_engine_def send_defs)

subsection \<open>From bytes to rows\<close>

text \<open>Handling a list of messages in order; the first throw ends it.\<close>

fun handle_all :: "proto_reader \<Rightarrow> (bytes \<Rightarrow> js_error + rpc_response) \<Rightarrow> bytes list \<Rightarrow> engine \<Rightarrow> engine_result option" where
  "handle_all R decode [] e = Some (Inr e)"
| "handle_all R decode (m # ms) e =
     (case onRpcResponseMessage R decode m e of
        None \<Rightarrow> None | Some (Inl x) \<Rightarrow> Some (Inl x) | Some (Inr e') \<Rightarrow> handle_all R decode ms e')"

fun receive_all :: "proto_reader \<Rightarrow> (bytes \<Rightarrow> js_error + rpc_response) \<Rightarrow> bytes list \<Rightarrow> engine \<Rightarrow> engine_result option" where
  "receive_all R decode [] e = Some (Inr e)"
| "receive_all R decode (c # cs) e =
     (case onRpcResponseBytes R decode c e of
        None \<Rightarrow> None | Some (Inl x) \<Rightarrow> Some (Inl x) | Some (Inr e') \<Rightarrow> receive_all R decode cs e')"

text \<open>The handlers do not look at the receive buffer.\<close>

definition put_buf :: "ring_buffer \<Rightarrow> engine_result option \<Rightarrow> engine_result option" where
  "put_buf rb = map_option (map_sum (\<lambda>(x, e). (x, e\<lparr>rxBuf := rb\<rparr>)) (\<lambda>e. e\<lparr>rxBuf := rb\<rparr>))"

lemma dispatch_response_rxBuf:
  "dispatch_response r (e\<lparr>rxBuf := rb\<rparr>) =
     map_sum (\<lambda>(x, e). (x, e\<lparr>rxBuf := rb\<rparr>)) (\<lambda>e. e\<lparr>rxBuf := rb\<rparr>) (dispatch_response r e)"
  by (cases e; cases "response r")
    (auto simp: dispatch_response_def settle_first_def settle_slot_def settle_promise_def
      split: option.splits list.splits)

lemma stream_response_rxBuf:
  "stream_response R v (e\<lparr>rxBuf := rb\<rparr>) =
     map_option (map_sum (\<lambda>(x, e). (x, e\<lparr>rxBuf := rb\<rparr>)) (\<lambda>(f, e). (f, e\<lparr>rxBuf := rb\<rparr>))) (stream_response R v e)"
  by (cases e) (auto simp: stream_response_def Let_def split: option.splits list.splits sum.splits)

lemma dispatch_rxBuf:
  "dispatch R r (e\<lparr>rxBuf := rb\<rparr>) =
     map_option (map_sum (\<lambda>(x, e). (x, e\<lparr>rxBuf := rb\<rparr>)) (\<lambda>(f, e). (f, e\<lparr>rxBuf := rb\<rparr>))) (dispatch R r e)"
  by (simp add: dispatch_def dispatch_response_rxBuf stream_response_rxBuf split: sum.splits)

lemma rxBuf_commute:
  "e\<lparr>rxBuf := rb, rxSeqId := n\<rparr> = e\<lparr>rxSeqId := n, rxBuf := rb\<rparr>"
  "e\<lparr>rxBuf := rb, eng_failed := f\<rparr> = e\<lparr>eng_failed := f, rxBuf := rb\<rparr>"
  "e\<lparr>rxBuf := rb, numRequestsPending := i\<rparr> = e\<lparr>numRequestsPending := i, rxBuf := rb\<rparr>"
  by (cases e, simp)+

lemma count_final_rxBuf:
  "count_final (map_option (map_sum (\<lambda>(x, e). (x, e\<lparr>rxBuf := rb\<rparr>)) (\<lambda>(f, e). (f, e\<lparr>rxBuf := rb\<rparr>))) d) =
     put_buf rb (count_final d)"
  by (auto simp: count_final_def put_buf_def rxBuf_commute split: option.splits sum.splits)

lemma handle_response_rxBuf:
  "handle_response R r (e\<lparr>rxBuf := rb\<rparr>) = put_buf rb (handle_response R r e)"
  by (simp add: handle_response_def fail_engine_def dispatch_rxBuf rxBuf_commute count_final_rxBuf)
    (simp add: put_buf_def)

lemma onRpcResponseMessage_rxBuf:
  "onRpcResponseMessage R decode m (e\<lparr>rxBuf := rb\<rparr>) = put_buf rb (onRpcResponseMessage R decode m e)"
  by (simp add: onRpcResponseMessage_def handle_response_rxBuf put_buf_def split: sum.splits)

lemma onRpcResponseMessage_keeps_rxBuf:
  assumes "onRpcResponseMessage R decode m e = Some (Inr e')"
  shows "rxBuf e' = rxBuf e"
proof -
  have "onRpcResponseMessage R decode m e = put_buf (rxBuf e) (onRpcResponseMessage R decode m e)"
    using onRpcResponseMessage_rxBuf [where e = e and rb = "rxBuf e"] by simp
  with assms have "e' = e'\<lparr>rxBuf := rxBuf e\<rparr>" by (simp add: put_buf_def)
  then show ?thesis using engine.select_convs by (cases e') simp
qed

text \<open>The engine is a client of the ring buffer.\<close>

definition split_outcome :: "engine_result \<Rightarrow> js_error option \<times> engine" where
  "split_outcome r = (case r of Inl (x, e) \<Rightarrow> (Some x, e) | Inr e \<Rightarrow> (None, e))"

lemma split_outcome_simps [simp]:
  "split_outcome (Inl (x, e)) = (Some x, e)" "split_outcome (Inr e) = (None, e)"
  "split_outcome r = (None, e) \<longleftrightarrow> r = Inr e"
  by (auto simp: split_outcome_def split: sum.splits)

interpretation eng: frame_client rxBuf "\<lambda>rb e. e\<lparr>rxBuf := rb\<rparr>"
    "\<lambda>m e. map_option split_outcome (onRpcResponseMessage R decode m e)"
    "\<lambda>e. map_option split_outcome (pump R decode (rxBuf e) e)" framing_js for R decode
proof unfold_locales
  fix m e rb
  show "map_option split_outcome (onRpcResponseMessage R decode m (e\<lparr>rxBuf := rb\<rparr>)) =
      map_option (map_prod id (\<lambda>e. e\<lparr>rxBuf := rb\<rparr>)) (map_option split_outcome (onRpcResponseMessage R decode m e))"
    unfolding onRpcResponseMessage_rxBuf put_buf_def
    by (auto simp: split_outcome_def option.map_comp intro!: map_option_cong split: sum.split)
next
  fix e
  show "map_option split_outcome (pump R decode (rxBuf e) e) =
      (case readMessage (rxBuf e) of
         Inl x \<Rightarrow> Some (Some (framing_js x), e)
       | Inr (None, rb) \<Rightarrow> Some (None, e\<lparr>rxBuf := rb\<rparr>)
       | Inr (Some m, rb) \<Rightarrow> (case map_option split_outcome (onRpcResponseMessage R decode m (e\<lparr>rxBuf := rb\<rparr>)) of
             None \<Rightarrow> None
           | Some (Some x, e') \<Rightarrow> Some (Some x, e')
           | Some (None, e') \<Rightarrow> map_option split_outcome (pump R decode (rxBuf e') e')))"
    by (subst pump.simps)
      (auto simp: onRpcResponseMessage_keeps_rxBuf split: sum.split prod.split option.split)
qed simp_all

lemma handle_all_eng: "eng.handle_all R decode ms e = map_option split_outcome (handle_all R decode ms e)"
  by (induction ms arbitrary: e) (auto split: option.split sum.split)

lemma receive_eng: "eng.receive R decode d e = map_option split_outcome (onRpcResponseBytes R decode d e)"
proof -
  have "pump R decode rb (e\<lparr>rxBuf := rb\<rparr>) = pump R decode rb e" for rb
    unfolding pump.simps [of R decode rb] by (simp split: sum.split prod.split option.split)
  then show ?thesis by (simp add: eng.receive_def onRpcResponseBytes_def split: sum.split)
qed

lemma receive_all_eng: "eng.receive_all R decode cs e = map_option split_outcome (receive_all R decode cs e)"
  by (induction cs arbitrary: e) (auto simp: receive_eng split: option.split sum.split)

text \<open>
  The byte stream of an engine may be cut anywhere: receiving the chunks of a stream of framed
  messages has the effect of handling these messages one after the other.
\<close>

theorem engine_receives_messages:
  assumes "rxBuf e = new_ring_buffer PROTO_PREAMBLE" and "chunks \<noteq> []"
    and "\<forall>msg\<in>set msgs. length msg < kMaxMsgSize"
    and "concat chunks = encode_stream PROTO_PREAMBLE 10 msgs"
    and "\<forall>c\<in>set chunks. length c \<le> kMaxMsgSize - 2 * kGrowBytes"
    and "handle_all R decode msgs e = Some (Inr e')"
  shows "\<exists>rb. receive_all R decode chunks e = Some (Inr (e'\<lparr>rxBuf := rb\<rparr>)) \<and> pending rb = []"
proof -
  have tag: "\<not> bad_tag 10" by (simp add: bad_tag_def)
  have "eng.handle_all R decode msgs e = Some (None, e')" using assms(6) by (simp add: handle_all_eng)
  from eng.receive_encoded [OF assms(1) _ tag assms(3-5) this] obtain rb where
    "map_option split_outcome (receive_all R decode chunks e) = Some (None, e'\<lparr>rxBuf := rb\<rparr>)" "pending rb = []"
    by (auto simp: receive_all_eng)
  then show ?thesis by auto
qed

theorem engine_receives_messages_witness:
  "\<exists>rb. receive_all wire_format (\<lambda>_. Inr eof_response) [[10], [1, 0]] (snd (notifyEof new_engine)) =
     Some (Inr ((snd (notifyEof new_engine))\<lparr>pendingEOFs := [], eng_promises := [Fulfilled P_void],
       numRequestsPending := 0, rxSeqId := 1, rxBuf := rb\<rparr>)) \<and> pending rb = []"
proof (rule engine_receives_messages [where msgs = "[[0]]"])
  show "rxBuf (snd (notifyEof new_engine)) = new_ring_buffer PROTO_PREAMBLE"
    by (simp add: notifyEof_def new_engine_def send_defs)
  show "handle_all wire_format (\<lambda>_. Inr eof_response) [[0]] (snd (notifyEof new_engine)) =
      Some (Inr ((snd (notifyEof new_engine))\<lparr>pendingEOFs := [], eng_promises := [Fulfilled P_void],
       numRequestsPending := 0, rxSeqId := 1\<rparr>))"
    by (simp add: onRpcResponseMessage_def handle_response_def count_final_def dispatch_def
        dispatch_response_def settle_first_def settle_promise_def void_outcome_def nth_opt_def
        eof_response_def notifyEof_def new_engine_def send_defs)
qed (simp_all add: kMaxMsgSize_def kGrowBytes_def encode_stream_def encode_frame_def varint_enc_small)

subsection \<open>A query from the responses to the rows\<close>

fun handle_responses :: "proto_reader \<Rightarrow> rpc_response list \<Rightarrow> engine \<Rightarrow> engine_result option" where
  "handle_responses R [] e = Some (Inr e)"
| "handle_responses R (r # rs) e =
     (case handle_response R r e of
        None \<Rightarrow> None | Some (Inl x) \<Rightarrow> Some (Inl x) | Some (Inr e') \<Rightarrow> handle_responses R rs e')"

fun consecutive :: "int \<Rightarrow> rpc_response list \<Rightarrow> bool" where
  "consecutive n [] = True"
| "consecutive n (r # rs) \<longleftrightarrow> rs_seq r = n + 1 \<and> consecutive (n + 1) rs"

text \<open>A response that carries the batch message \<open>m\<close>, with the column names \<open>ns\<close>.\<close>

definition carries :: "(string \<Rightarrow> bytes) \<Rightarrow> string list \<Rightarrow> rpc_response \<Rightarrow> batch_msg \<Rightarrow> bool" where
  "carries utf8 ns r m \<longleftrightarrow> response r = TPM_QUERY_STREAMING \<and> fatalError r = None \<and>
     (\<exists>v. queryResult r = Some v \<and> view_ok v \<and> u8_bytes v = encode_msg utf8 ns m)"

definition result_at :: "engine \<Rightarrow> nat \<Rightarrow> query_result" where
  "result_at e i = w_impl (eng_results e ! i)"

lemma run_result_bound: "rpc_run R e ((TPM_QUERY_STREAMING, i) # out) \<Longrightarrow> i < length (eng_results e)"
  by (drule rpc_run_inv) (simp add: engine_inv_def)

lemma handle_batch:
  assumes run: "rpc_run R e ((TPM_QUERY_STREAMING, i) # out)" and r: "carries utf8 ns r m"
    and seq: "rs_seq r = rxSeqId e + 1"
    and app: "\<And>v. u8_bytes v = encode_msg utf8 ns m \<Longrightarrow> view_ok v \<Longrightarrow>
      \<exists>q. appendResultBatch R v (result_at e i) = Some (Inr q) \<and> P q \<and> qr_isComplete q = bm_last m"
  shows "\<exists>e'. handle_response R r e = Some (Inr e') \<and> P (result_at e' i) \<and> rxSeqId e' = rxSeqId e + 1 \<and>
    rpc_run R e' (remaining (bm_last m) TPM_QUERY_STREAMING i out)"
proof -
  obtain v where v: "queryResult r = Some v" "view_ok v" "u8_bytes v = encode_msg utf8 ns m"
    using r by (auto simp: carries_def)
  with app obtain q where q: "appendResultBatch R v (result_at e i) = Some (Inr q)" "P q"
      "qr_isComplete q = bm_last m" by blast
  have a: "answers R r TPM_QUERY_STREAMING i e (bm_last m)"
    using r seq v q by (auto simp: answers_def carries_def result_at_def)
  from handle_stream [OF rpc_run_inv [OF run] a] v q obtain e' where
    e': "handle_response R r e = Some (Inr e')" "rxSeqId e' = rs_seq r"
      "eng_results e' = (eng_results e)[i := (eng_results e ! i)\<lparr>w_impl := q\<rparr>]"
    by (auto simp: result_at_def)
  with run_answer [OF run a e'(1)] run_result_bound [OF run] seq q show ?thesis
    by (auto simp: result_at_def)
qed

lemma handle_batches:
  assumes reader: "wire_reader R utf8" and "rpc_run R e ((TPM_QUERY_STREAMING, i) # out)"
    and "list_all2 (carries utf8 []) rs ms" and "consecutive (rxSeqId e) rs"
    and "\<forall>m\<in>set ms. msg_ok utf8 spec names m" and "names \<noteq> []"
    and "holds_rows spec names rowss (result_at e i)"
    and "ms \<noteq> []" and "\<forall>m\<in>set (butlast ms). \<not> bm_last m" and "bm_last (last ms)"
  shows "\<exists>e'. handle_responses R rs e = Some (Inr e') \<and> rpc_run R e' out \<and>
    holds_rows spec names (rowss @ map bm_rows ms) (result_at e' i)"
  using assms(2-)
proof (induction ms arbitrary: rs e rowss)
  case (Cons m ms)
  obtain r rs' where rs: "rs = r # rs'" "carries utf8 [] r m" "list_all2 (carries utf8 []) rs' ms"
    using Cons.prems(2) by (auto simp: list_all2_Cons2)
  have app: "\<exists>q. appendResultBatch R v (result_at e i) = Some (Inr q) \<and>
      holds_rows spec names (rowss @ [bm_rows m]) q \<and> qr_isComplete q = bm_last m"
    if "u8_bytes v = encode_msg utf8 [] m" "view_ok v" for v
    using Cons.prems(4,5,6) that
    by (intro wire_reader.append_msg [OF reader, of v "[]"]) (auto simp: holds_rows_def)
  have seq: "rs_seq r = rxSeqId e + 1" using Cons.prems(3) rs(1) by simp
  from handle_batch [OF Cons.prems(1) rs(2) seq app] obtain e1 where e1: "handle_response R r e = Some (Inr e1)"
      "holds_rows spec names (rowss @ [bm_rows m]) (result_at e1 i)" "rxSeqId e1 = rxSeqId e + 1"
      "rpc_run R e1 (remaining (bm_last m) TPM_QUERY_STREAMING i out)" by blast
  show ?case
  proof (cases ms)
    case Nil
    with e1 rs Cons.prems show ?thesis by (auto simp: remaining_def)
  next
    case (Cons m' ms')
    then have "\<not> bm_last m" using Cons.prems(8) by simp
    with Cons.IH [of e1 rs' "rowss @ [bm_rows m]"] Cons e1 rs Cons.prems show ?thesis
      by (auto simp: remaining_def)
  qed
qed simp

text \<open>
  C15. A query through the engine: when the trace processor answers the query at the head of the queue
  with any number of batches, each response is accepted, the request is finished with the last one,
  and the client reads exactly the rows that were sent, when the columns are ones that the row iterator can
  show (\<open>readable_columns\<close>, as in C10).
\<close>

theorem engine_query_rows:
  assumes reader: "wire_reader R utf8" and run: "rpc_run R e ((TPM_QUERY_STREAMING, i) # out)"
    and fresh: "columnNames (result_at e i) = []" "batches (result_at e i) = []"
      "qr_numRows (result_at e i) = 0"
    and names: "names \<noteq> []" "distinct names" "\<forall>n\<in>set names. length (utf8 n) < 2 ^ 32"
    and spec: "set (map fst spec) \<subseteq> set names" "readable_columns spec names"
    and rs: "carries utf8 names r m" "list_all2 (carries utf8 []) rs ms" "consecutive (rxSeqId e) (r # rs)"
    and msgs: "\<forall>x\<in>set (m # ms). msg_ok utf8 spec names x" "[] \<notin> set (butlast (map bm_rows (m # ms)))"
      "\<forall>x\<in>set (butlast (m # ms)). \<not> bm_last x" "bm_last (last (m # ms))"
  shows "\<exists>e'. handle_responses R (r # rs) e = Some (Inr e') \<and> rpc_run R e' out \<and>
    read_rows R (result_at e' i) spec = Some (map (row_values spec names) (concat (map bm_rows (m # ms))))"
proof -
  have app: "\<exists>q. appendResultBatch R v (result_at e i) = Some (Inr q) \<and>
      holds_rows spec names ([] @ [bm_rows m]) q \<and> qr_isComplete q = bm_last m"
    if "u8_bytes v = encode_msg utf8 names m" "view_ok v" for v
    using that fresh names msgs(1) by (intro wire_reader.append_msg [OF reader, of v names]) auto
  have seq: "rs_seq r = rxSeqId e + 1" using rs(3) by simp
  from handle_batch [OF run rs(1) seq app] obtain e1 where
    e1: "handle_response R r e = Some (Inr e1)" "holds_rows spec names [bm_rows m] (result_at e1 i)"
      "rxSeqId e1 = rxSeqId e + 1" "rpc_run R e1 (remaining (bm_last m) TPM_QUERY_STREAMING i out)"
    by auto
  have "\<exists>e'. handle_responses R rs e1 = Some (Inr e') \<and> rpc_run R e' out \<and>
      holds_rows spec names (map bm_rows (m # ms)) (result_at e' i)"
  proof (cases ms)
    case Nil
    with e1 msgs(4) rs(2) show ?thesis by (auto simp: remaining_def)
  next
    case (Cons m' ms')
    then have "\<not> bm_last m" using msgs(3) by simp
    with handle_batches [OF reader, of e1 i out rs ms spec names "[bm_rows m]"] Cons e1 rs msgs names(1)
    show ?thesis by (auto simp: remaining_def)
  qed
  then obtain e' where e': "handle_responses R rs e1 = Some (Inr e')" "rpc_run R e' out"
      "holds_rows spec names (map bm_rows (m # ms)) (result_at e' i)" by blast
  have "ready (result_at e' i) spec (blank_row_iter spec) [] (map bm_rows (m # ms))"
    using e'(3) msgs(2) by (simp add: ready_def holds_rows_def blank_row_iter_def)
  moreover have "spec_ok spec (result_at e' i)"
    using e'(3) names spec by (simp add: spec_ok_def holds_rows_def)
  ultimately have "read_rows R (result_at e' i) spec =
      Some (map (row_values spec names) (concat (map bm_rows (m # ms))))"
    using wire_reader.read_rows_ready [OF reader] e'(3) by (simp add: holds_rows_def)
  with e1 e' show ?thesis by auto
qed

definition row_response :: rpc_response where
  "row_response = eof_response\<lparr>response := TPM_QUERY_STREAMING, queryResult :=
     Some (whole_view (encode_msg utf8_encode [''id''] (demo_msg True [[C_int 7]])))\<rparr>"

theorem engine_query_rows_witness:
  "\<exists>l e e'. query_start 0 ''select 7 as id'' None new_engine = Inr (l, 0, e) \<and>
     handle_responses wire_format [row_response] e = Some (Inr e') \<and>
     read_rows wire_format (result_at e' 0) [(''id'', T_LONG)] = Some [[Some (V_big 7)]]"
proof -
  obtain l e where q: "query_start 0 ''select 7 as id'' None new_engine = Inr (l, 0, e)"
    by (simp add: query_start_def logQueryStart_def streamingQuery_def send_defs new_engine_def
        w_then_def w_ensure_def new_waitable_def ensureAllRowsPromise_def waitAllRows_eq new_query_result_def Let_def)
  from run_call [OF run_init call_query [OF q]] have run: "rpc_run wire_format e [(TPM_QUERY_STREAMING, 0)]"
    by simp
  have fresh: "columnNames (result_at e 0) = []" "batches (result_at e 0) = []"
      "qr_numRows (result_at e 0) = 0" "rxSeqId e = 0"
    using q
    by (auto simp: query_start_def logQueryStart_def streamingQuery_def send_defs new_engine_def result_at_def
        w_then_def w_ensure_def new_waitable_def ensureAllRowsPromise_def waitAllRows_eq new_query_result_def Let_def)
  have ok: "msg_ok utf8_encode [(''id'', T_LONG)] [''id''] (demo_msg True [[C_int 7]])"
    by (auto simp: demo_msg_def msg_ok_def batch_ok_def batch_layout_def encode_batch_def
        encode_fields_def cell_types_def nul_joined_def len_field_def field_ok_def row_ok_def cell_ok_def
        as_number_def varint_enc_small utf8_encode_def utf8_char_def)
  have readable: "readable_columns [(''id'', T_LONG)] [''id'']" by code_simp
  have c: "carries utf8_encode [''id''] row_response (demo_msg True [[C_int 7]])"
    by (simp add: carries_def row_response_def eof_response_def)
  have "\<exists>e'. handle_responses wire_format [row_response] e = Some (Inr e') \<and> rpc_run wire_format e' [] \<and>
      read_rows wire_format (result_at e' 0) [(''id'', T_LONG)] =
        Some (map (row_values [(''id'', T_LONG)] [''id'']) (concat (map bm_rows [demo_msg True [[C_int 7]]])))"
    using fresh ok c readable
    by (intro engine_query_rows [OF wire.wire_reader_axioms run])
      (auto simp: row_response_def eof_response_def demo_msg_def utf8_encode_def utf8_char_def)
  with q show ?thesis by (auto simp: demo_msg_def row_values_def as_number_def asIntN64_def)
qed

subsection \<open>The query log\<close>

definition log_inv :: "engine \<Rightarrow> bool" where
  "log_inv e \<longleftrightarrow> map ql_id (queryLog e) = [eng_logged e - QUERY_LOG_BUFFER_SIZE ..< eng_logged e]"

lemma log_inv_new: "log_inv new_engine"
  by (simp add: log_inv_def new_engine_def)

lemma log_inv_update: "(\<And>x. ql_id (f x) = ql_id x) \<Longrightarrow> log_inv e \<Longrightarrow> log_inv (log_update l f e)"
  by (simp add: log_inv_def log_update_def comp_def if_distrib cong: if_cong)

lemma tl_upt: "tl [m..<n] = [Suc m..<n]"
  by (cases "m < n") (simp_all add: upt_conv_Cons)

lemma log_inv_start: "log_inv e \<Longrightarrow> log_inv (snd (logQueryStart now sql tag e))"
proof -
  assume inv: "log_inv e"
  let ?m = "eng_logged e - QUERY_LOG_BUFFER_SIZE"
  have len: "length (queryLog e) = eng_logged e - ?m"
    using inv by (metis length_map length_upt log_inv_def)
  show ?thesis
  proof (cases "eng_logged e < QUERY_LOG_BUFFER_SIZE")
    case True
    with inv len show ?thesis by (simp add: log_inv_def logQueryStart_def Let_def)
  next
    case False
    then have "?m < Suc (eng_logged e)" "Suc (eng_logged e) - QUERY_LOG_BUFFER_SIZE = Suc ?m"
      by (simp_all add: QUERY_LOG_BUFFER_SIZE_def)
    moreover from this have "map ql_id (tl (queryLog e @ [x])) = [Suc ?m..<Suc (eng_logged e)]"
      if "ql_id x = eng_logged e" for x
      using inv that by (simp add: map_tl log_inv_def tl_upt flip: upt_Suc_append del: upt_Suc)
    ultimately show ?thesis
      using False len by (simp add: log_inv_def logQueryStart_def Let_def del: upt_Suc)
  qed
qed

text \<open>
  The query log holds the most recent queries, at most 100, in the order in which they started,
  through every query that starts, succeeds or fails.
\<close>

theorem query_log_recent:
  assumes "log_inv e"
  shows "log_inv (snd (logQueryStart now sql tag e)) \<and>
    (\<forall>r e'. query_finish l i e = Some (r, e') \<longrightarrow> log_inv e') \<and>
    length (queryLog e) \<le> QUERY_LOG_BUFFER_SIZE"
proof -
  have "log_inv e'" if "query_finish l i e = Some (r, e')" for r e'
    using that assms
    by (auto simp: query_finish_def Let_def split: option.splits deferred.splits intro!: log_inv_update)
  moreover have "length (queryLog e) = length [eng_logged e - QUERY_LOG_BUFFER_SIZE ..< eng_logged e]"
    using assms by (metis length_map log_inv_def)
  ultimately show ?thesis using log_inv_start [OF assms] by simp
qed

theorem query_log_recent_witness:
  "log_inv (snd (logQueryStart 5 ''select 1'' None new_engine)) \<and> length (queryLog new_engine) \<le> 100"
  using query_log_recent [OF log_inv_new] by (simp add: QUERY_LOG_BUFFER_SIZE_def)

subsection \<open>Two flaws\<close>

text \<open>
  \<open>computeMetric\<close> queues its promise before it looks at the format. After a call with an unknown
  format, which throws, the answer to the next metric request settles the orphan promise, and the
  promise of that next request stays unsettled although no request is pending any more.
\<close>

theorem computeMetric_orphan:
  "\<exists>x e1 e2 e3. computeMetric ms ''xml'' new_engine = Inl (x, e1) \<and> numRequestsPending e1 = 0 \<and>
     computeMetric ms ''json'' e1 = Inr (1, e2) \<and>
     handle_response R (eof_response\<lparr>response := TPM_COMPUTE_METRIC, metricResult := Some mr\<rparr>) e2 = Some (Inr e3) \<and>
     eng_promises e3 = [metric_outcome mr, Unsettled] \<and> pendingComputeMetrics e3 = [1] \<and>
     numRequestsPending e3 = 0"
  by (simp add: computeMetric_def metric_format_def send_defs new_engine_def Let_def handle_response_def
      count_final_def dispatch_def dispatch_response_def settle_first_def settle_promise_def nth_opt_def
      eof_response_def)

text \<open>
  What a proxy sends: \<open>query\<close> carries the tag of the proxy, \<open>tryQuery\<close> carries none.
\<close>

theorem proxy_tags:
  assumes "\<not> px_disposed px"
  shows "(\<forall>l i e'. proxy_query px now sql e = Inr (l, i, e') \<longrightarrow>
      eng_sent e' = eng_sent e @ [(txSeqId e, RQ_query sql (Some (px_tag px)))]) \<and>
    (\<forall>l i e'. proxy_tryQuery px now sql e = Inr (Inr (l, i, e')) \<longrightarrow>
      eng_sent e' = eng_sent e @ [(txSeqId e, RQ_query sql None)])"
  using assms
  by (auto simp: proxy_query_def proxy_tryQuery_def query_start_def logQueryStart_def streamingQuery_def
      send_defs Let_def split: sum.splits)

theorem proxy_tags_witness:
  "\<exists>k j e. proxy_tryQuery (getProxy ''dev.perfetto.Sched'') 0 ''select 1'' new_engine = Inr (Inr (k, j, e)) \<and>
     eng_sent e = [(0, RQ_query ''select 1'' None)]"
proof -
  obtain k j e where e: "proxy_tryQuery (getProxy ''dev.perfetto.Sched'') 0 ''select 1'' new_engine = Inr (Inr (k, j, e))"
    by (simp add: proxy_tryQuery_def getProxy_def query_start_def logQueryStart_def streamingQuery_def send_defs
        new_engine_def w_then_def w_ensure_def new_waitable_def ensureAllRowsPromise_def waitAllRows_eq
        new_query_result_def Let_def)
  with proxy_tags [of "getProxy ''dev.perfetto.Sched''" 0 "''select 1''" new_engine] show ?thesis
    by (auto simp: getProxy_def new_engine_def)
qed

end
