(* ===== verification/Track_Node.thy ===== *)
theory Track_Node
  imports Prelude
begin

text \<open>
  \<^verbatim>\<open>ui/src/public/workspace.ts\<close>: the tree of tracks. Nodes are mutable objects that point to their parent,
  to their children and, through two index maps, to all their descendants, so the model is an explicit
  heap from object identities to node records. A loop that follows parent pointers is a
  \<open>partial_function (option)\<close>: \<open>None\<close> is a loop that does not end.
\<close>

subsection \<open>State\<close>

text \<open>
  A node's id is its identity in the heap. \<open>tracksById\<close> is a \<open>Map\<close> from ids to the nodes with these ids; it
  is kept as its keys in insertion order. \<open>tn_onExpand\<close> says whether a callback is installed.
\<close>

record tnode =
  tn_name :: string
  tn_uri :: "string option"
  tn_sortOrder :: "int option"
  tn_headless :: bool
  tn_isSummary :: bool
  tn_removable :: bool
  tn_subtitle :: "string option"
  tn_chips :: "string list option"
  tn_collapsed :: bool
  tn_children :: "nat list"
  tracksById :: "nat list"
  tracksByUri :: "string \<rightharpoonup> nat"
  tn_parent :: "nat option"
  tn_onExpand :: bool
  tn_workspace :: "nat option"

record track_args =
  ta_name :: "string option"
  ta_uri :: "string option"
  ta_headless :: "bool option"
  ta_sortOrder :: "int option"
  ta_collapsed :: "bool option"
  ta_isSummary :: "bool option"
  ta_removable :: "bool option"
  ta_subtitle :: "string option"
  ta_chips :: "string list option"
  ta_onExpand :: bool

definition no_args :: track_args where
  "no_args = \<lparr>ta_name = None, ta_uri = None, ta_headless = None, ta_sortOrder = None, ta_collapsed = None,
     ta_isSummary = None, ta_removable = None, ta_subtitle = None, ta_chips = None, ta_onExpand = False\<rparr>"

text \<open>
  The heap: \<open>th_next\<close> is the session-wide id counter, \<open>th_calls\<close> the nodes whose \<open>onExpand\<close> callback ran.
\<close>

record track_heap =
  th_next :: nat
  th_node :: "nat \<Rightarrow> tnode"
  th_calls :: "nat list"

definition or_default :: "'a option \<Rightarrow> 'a \<Rightarrow> 'a" where
  "or_default x d = (case x of None \<Rightarrow> d | Some v \<Rightarrow> v)"

definition fresh_node :: "track_args \<Rightarrow> tnode" where
  "fresh_node a = \<lparr>tn_name = or_default (ta_name a) [], tn_uri = ta_uri a, tn_sortOrder = ta_sortOrder a,
     tn_headless = or_default (ta_headless a) False, tn_isSummary = or_default (ta_isSummary a) False,
     tn_removable = or_default (ta_removable a) False, tn_subtitle = ta_subtitle a, tn_chips = ta_chips a,
     tn_collapsed = or_default (ta_collapsed a) True, tn_children = [], tracksById = [],
     tracksByUri = Map.empty, tn_parent = None, tn_onExpand = ta_onExpand a, tn_workspace = None\<rparr>"

definition empty_heap :: track_heap where
  "empty_heap = \<lparr>th_next = 0, th_node = (\<lambda>_. fresh_node no_args), th_calls = []\<rparr>"

definition set_node :: "nat \<Rightarrow> (tnode \<Rightarrow> tnode) \<Rightarrow> track_heap \<Rightarrow> track_heap" where
  "set_node n f h = h\<lparr>th_node := (th_node h)(n := f (th_node h n))\<rparr>"

definition createTrackNode :: "track_args \<Rightarrow> track_heap \<Rightarrow> nat \<times> track_heap" where
  "createTrackNode a h =
     (th_next h, h\<lparr>th_next := th_next h + 1, th_node := (th_node h)(th_next h := fresh_node a)\<rparr>)"

subsection \<open>The index maps\<close>

text \<open>\<open>map.set(id, node)\<close> keeps the place of a key that is present.\<close>

definition add_id :: "nat \<Rightarrow> nat list \<Rightarrow> nat list" where
  "add_id i xs = (if i \<in> set xs then xs else xs @ [i])"

text \<open>An empty URI is falsy, so it is not indexed.\<close>

definition indexed_uri :: "tnode \<Rightarrow> string option" where
  "indexed_uri c = (if tn_uri c = Some [] then None else tn_uri c)"

definition idx_add :: "nat \<Rightarrow> tnode \<Rightarrow> tnode \<Rightarrow> tnode" where
  "idx_add child c n = n\<lparr>tracksById := fold add_id (tracksById c) (add_id child (tracksById n)),
     tracksByUri := (case indexed_uri c of None \<Rightarrow> tracksByUri n | Some u \<Rightarrow> (tracksByUri n)(u \<mapsto> child))
       ++ tracksByUri c\<rparr>"

definition idx_remove :: "nat \<Rightarrow> tnode \<Rightarrow> tnode \<Rightarrow> tnode" where
  "idx_remove child c n = n\<lparr>tracksById := filter (\<lambda>i. i \<noteq> child \<and> i \<notin> set (tracksById c)) (tracksById n),
     tracksByUri := (\<lambda>u. if indexed_uri c = Some u \<or> tracksByUri c u \<noteq> None then None else tracksByUri n u)\<rparr>"

definition addToIndex :: "nat \<Rightarrow> nat \<Rightarrow> track_heap \<Rightarrow> track_heap" where
  "addToIndex this child h = set_node this (idx_add child (th_node h child)) h"

definition removeFromIndex :: "nat \<Rightarrow> nat \<Rightarrow> track_heap \<Rightarrow> track_heap" where
  "removeFromIndex this child h = set_node this (idx_remove child (th_node h child)) h"

partial_function (option) propagateAddition :: "nat \<Rightarrow> nat \<Rightarrow> track_heap \<Rightarrow> track_heap option" where
  "propagateAddition this node h =
     (case tn_parent (th_node h this) of
        None \<Rightarrow> Some h
      | Some p \<Rightarrow> propagateAddition p node (addToIndex p node h))"

partial_function (option) propagateRemoval :: "nat \<Rightarrow> nat \<Rightarrow> track_heap \<Rightarrow> track_heap option" where
  "propagateRemoval this node h =
     (case tn_parent (th_node h this) of
        None \<Rightarrow> Some h
      | Some p \<Rightarrow> propagateRemoval p node (removeFromIndex p node h))"

subsection \<open>Changing the tree\<close>

definition removeChild :: "nat \<Rightarrow> nat \<Rightarrow> track_heap \<Rightarrow> track_heap option" where
  "removeChild this child h =
     (let h1 = set_node this (\<lambda>n. n\<lparr>tn_children := filter (\<lambda>x. x \<noteq> child) (tn_children n)\<rparr>) h;
          h2 = set_node child (\<lambda>n. n\<lparr>tn_parent := None\<rparr>) h1
      in propagateRemoval this child (removeFromIndex this child h2))"

text \<open>A \<open>Result\<close> is \<open>None\<close> for \<open>okResult()\<close> and \<open>Some msg\<close> for \<open>errResult(msg)\<close>.\<close>

type_synonym js_result = "string option"

definition adopt_error :: string where
  "adopt_error = ''Cannot move track into itself or one of its descendants''"

definition detach :: "nat \<Rightarrow> track_heap \<Rightarrow> track_heap option" where
  "detach child h =
     (case tn_parent (th_node h child) of None \<Rightarrow> Some h | Some p \<Rightarrow> removeChild p child h)"

definition attach :: "nat \<Rightarrow> nat \<Rightarrow> track_heap \<Rightarrow> track_heap option" where
  "attach this child h =
     propagateAddition this child
       (addToIndex this child (set_node child (\<lambda>n. n\<lparr>tn_parent := Some this\<rparr>) h))"

definition adopt :: "nat \<Rightarrow> nat \<Rightarrow> track_heap \<Rightarrow> (js_result \<times> track_heap) option" where
  "adopt this child h =
     (if child = this \<or> this \<in> set (tracksById (th_node h child)) then Some (Some adopt_error, h)
      else map_option (Pair None) (Option.bind (detach child h) (attach this child)))"

text \<open>
  The four ways to add a child differ in where it goes among the children; \<open>f\<close> maps the list of children
  after the adoption to the new one.
\<close>

definition adopt_then ::
  "nat \<Rightarrow> nat \<Rightarrow> (nat list \<Rightarrow> nat list) \<Rightarrow> track_heap \<Rightarrow> (js_result \<times> track_heap) option" where
  "adopt_then this child f h =
     (case adopt this child h of
        None \<Rightarrow> None
      | Some (Some e, h') \<Rightarrow> Some (Some e, h')
      | Some (None, h') \<Rightarrow> Some (None, set_node this (\<lambda>n. n\<lparr>tn_children := f (tn_children n)\<rparr>) h'))"

definition addChildLast :: "nat \<Rightarrow> nat \<Rightarrow> track_heap \<Rightarrow> (js_result \<times> track_heap) option" where
  "addChildLast this child = adopt_then this child (\<lambda>cs. cs @ [child])"

definition addChildFirst :: "nat \<Rightarrow> nat \<Rightarrow> track_heap \<Rightarrow> (js_result \<times> track_heap) option" where
  "addChildFirst this child = adopt_then this child (\<lambda>cs. child # cs)"

text \<open>\<open>splice(cs.indexOf(ref), 0, child)\<close> and \<open>splice(cs.indexOf(ref) + 1, 0, child)\<close>.\<close>

fun insert_before :: "nat \<Rightarrow> nat \<Rightarrow> nat list \<Rightarrow> nat list" where
  "insert_before child ref [] = [child]"
| "insert_before child ref (c # cs) = (if c = ref then child # c # cs else c # insert_before child ref cs)"

fun insert_after :: "nat \<Rightarrow> nat \<Rightarrow> nat list \<Rightarrow> nat list" where
  "insert_after child ref [] = [child]"
| "insert_after child ref (c # cs) = (if c = ref then c # child # cs else c # insert_after child ref cs)"

definition addChildBefore ::
  "nat \<Rightarrow> nat \<Rightarrow> nat \<Rightarrow> track_heap \<Rightarrow> (js_error + js_result \<times> track_heap) option" where
  "addChildBefore this child ref h =
     (if child = ref then Some (Inr (None, h))
      else if ref \<notin> set (tn_children (th_node h this)) then Some (Inl AssertionFailed)
      else map_option Inr (adopt_then this child (insert_before child ref) h))"

definition addChildAfter ::
  "nat \<Rightarrow> nat \<Rightarrow> nat \<Rightarrow> track_heap \<Rightarrow> (js_error + js_result \<times> track_heap) option" where
  "addChildAfter this child ref h =
     (if child = ref then Some (Inr (None, h))
      else if ref \<notin> set (tn_children (th_node h this)) then Some (Inl AssertionFailed)
      else map_option Inr (adopt_then this child (insert_after child ref) h))"

definition sort_key :: "track_heap \<Rightarrow> nat \<Rightarrow> int" where
  "sort_key h n = or_default (tn_sortOrder (th_node h n)) 0"

definition addChildInOrder ::
  "nat \<Rightarrow> nat \<Rightarrow> track_heap \<Rightarrow> (js_error + js_result \<times> track_heap) option" where
  "addChildInOrder this child h =
     (case find (\<lambda>n. sort_key h n > sort_key h child) (tn_children (th_node h this)) of
        Some ref \<Rightarrow> addChildBefore this child ref h
      | None \<Rightarrow> map_option Inr (addChildLast this child h))"

definition clear_node :: "nat \<Rightarrow> track_heap \<Rightarrow> track_heap" where
  "clear_node this = set_node this (\<lambda>n. n\<lparr>tn_children := [], tracksById := []\<rparr>)"

subsection \<open>Queries\<close>

definition getTrackById :: "track_heap \<Rightarrow> nat \<Rightarrow> nat \<Rightarrow> nat option" where
  "getTrackById h this i = (if i \<in> set (tracksById (th_node h this)) then Some i else None)"

definition getTrackByUri :: "track_heap \<Rightarrow> nat \<Rightarrow> string \<Rightarrow> nat option" where
  "getTrackByUri h this uri = tracksByUri (th_node h this) uri"

definition flatTracks :: "track_heap \<Rightarrow> nat \<Rightarrow> nat list" where
  "flatTracks h this = tracksById (th_node h this)"

text \<open>
  \<open>collectFlatTracks\<close> to depth \<open>k\<close>; the number of nodes is enough depth for \<open>flatTracksOrdered\<close>.
\<close>

fun collectFlatTracks :: "nat \<Rightarrow> track_heap \<Rightarrow> nat \<Rightarrow> nat list" where
  "collectFlatTracks 0 h this = []"
| "collectFlatTracks (Suc k) h this =
     concat (map (\<lambda>c. c # collectFlatTracks k h c) (tn_children (th_node h this)))"

definition flatTracksOrdered :: "track_heap \<Rightarrow> nat \<Rightarrow> nat list" where
  "flatTracksOrdered h this = collectFlatTracks (th_next h) h this"

text \<open>The chain of parents, from the immediate parent upwards.\<close>

partial_function (option) parent_path :: "track_heap \<Rightarrow> nat \<Rightarrow> nat list option" where
  "parent_path h this =
     (case tn_parent (th_node h this) of
        None \<Rightarrow> Some []
      | Some p \<Rightarrow> Option.bind (parent_path h p) (\<lambda>ps. Some (p # ps)))"

definition rootNode :: "track_heap \<Rightarrow> nat \<Rightarrow> nat option" where
  "rootNode h this = map_option (\<lambda>ps. last (this # ps)) (parent_path h this)"

definition node_workspace :: "track_heap \<Rightarrow> nat \<Rightarrow> nat option option" where
  "node_workspace h this = map_option (\<lambda>r. tn_workspace (th_node h r)) (rootNode h this)"

definition findClosestVisibleAncestor :: "track_heap \<Rightarrow> nat \<Rightarrow> nat option" where
  "findClosestVisibleAncestor h this =
     map_option (\<lambda>ps. or_default (find (\<lambda>n. tn_collapsed (th_node h n)) (rev ps)) this) (parent_path h this)"

definition getAncestors :: "track_heap \<Rightarrow> nat \<Rightarrow> nat list option" where
  "getAncestors h this =
     map_option (\<lambda>ps. rev (takeWhile (\<lambda>n. tn_name (th_node h n) \<noteq> []) ps)) (parent_path h this)"

definition fullPath :: "track_heap \<Rightarrow> nat \<Rightarrow> string list option" where
  "fullPath h this =
     map_option (\<lambda>ps. rev (map (\<lambda>n. tn_name (th_node h n))
         (filter (\<lambda>n. \<not> tn_headless (th_node h n) \<and> tn_name (th_node h n) \<noteq> []) ps))
       @ [tn_name (th_node h this)]) (parent_path h this)"

definition hasChildren :: "track_heap \<Rightarrow> nat \<Rightarrow> bool" where
  "hasChildren h this \<longleftrightarrow> tn_children (th_node h this) \<noteq> []"

subsection \<open>Expansion\<close>

definition call_onExpand :: "nat \<Rightarrow> track_heap \<Rightarrow> track_heap" where
  "call_onExpand this h = (if tn_onExpand (th_node h this) then h\<lparr>th_calls := th_calls h @ [this]\<rparr> else h)"

definition set_collapsed :: "bool \<Rightarrow> nat \<Rightarrow> track_heap \<Rightarrow> track_heap" where
  "set_collapsed b this = set_node this (\<lambda>n. n\<lparr>tn_collapsed := b\<rparr>)"

definition expand_node :: "nat \<Rightarrow> track_heap \<Rightarrow> track_heap" where
  "expand_node this h =
     (if tn_collapsed (th_node h this) then call_onExpand this (set_collapsed False this h) else h)"

definition collapse_node :: "nat \<Rightarrow> track_heap \<Rightarrow> track_heap" where
  "collapse_node this h = set_collapsed True this h"

definition toggleCollapsed :: "nat \<Rightarrow> track_heap \<Rightarrow> track_heap" where
  "toggleCollapsed this h =
     (let was = tn_collapsed (th_node h this); h1 = set_collapsed (\<not> was) this h
      in if was then call_onExpand this h1 else h1)"

definition reveal :: "nat \<Rightarrow> track_heap \<Rightarrow> track_heap option" where
  "reveal this h = map_option (\<lambda>ps. fold expand_node ps h) (parent_path h this)"

subsection \<open>Cloning\<close>

text \<open>
  \<open>new TrackNode({...this, id: undefined})\<close>: the spread copies the own fields, and the constructor reads
  the argument names. The private fields are called \<open>_collapsed\<close> and \<open>_onExpand\<close>, so \<open>collapsed\<close> and
  \<open>onExpand\<close> are not among the copied names and take their defaults.
\<close>

definition clone_args :: "tnode \<Rightarrow> track_args" where
  "clone_args n = \<lparr>ta_name = Some (tn_name n), ta_uri = tn_uri n, ta_headless = Some (tn_headless n),
     ta_sortOrder = tn_sortOrder n, ta_collapsed = None, ta_isSummary = Some (tn_isSummary n),
     ta_removable = Some (tn_removable n), ta_subtitle = tn_subtitle n, ta_chips = tn_chips n,
     ta_onExpand = False\<rparr>"

text \<open>Cloning to depth \<open>k\<close>: \<open>clone(false)\<close> is depth 0, \<open>clone(true)\<close> any depth that covers the tree.\<close>

fun clone_node :: "nat \<Rightarrow> nat \<Rightarrow> track_heap \<Rightarrow> (nat \<times> track_heap) option" where
  "clone_node 0 this h = Some (createTrackNode (clone_args (th_node h this)) h)"
| "clone_node (Suc k) this h =
     (let (cloned, h1) = createTrackNode (clone_args (th_node h this)) h
      in foldl (\<lambda>acc c. Option.bind acc (\<lambda>(cl, g).
             Option.bind (clone_node k c g) (\<lambda>(cc, g1).
               map_option (\<lambda>(_, g2). (cl, g2)) (addChildLast cl cc g1))))
           (Some (cloned, h1)) (tn_children (th_node h this)))"

subsection \<open>Workspaces\<close>

text \<open>A workspace has two root nodes, which start expanded, and its own session id.\<close>

record workspace =
  ws_title :: string
  ws_id :: nat
  ws_userEditable :: bool
  pinnedTracksNode :: nat
  ws_tracks :: nat

definition new_workspace :: "track_heap \<Rightarrow> workspace \<times> track_heap" where
  "new_workspace h =
     (let (pin, h1) = createTrackNode no_args h; (tr, h2) = createTrackNode no_args h1; i = th_next h2;
          own = (\<lambda>n. n\<lparr>tn_workspace := Some i\<rparr>)
      in (\<lparr>ws_title = ''<untitled-workspace>'', ws_id = i, ws_userEditable = True,
            pinnedTracksNode = pin, ws_tracks = tr\<rparr>,
          expand_node tr (expand_node pin (set_node tr own (set_node pin own (h2\<lparr>th_next := i + 1\<rparr>))))))"

definition ws_clear :: "workspace \<Rightarrow> track_heap \<Rightarrow> track_heap" where
  "ws_clear w h = clear_node (ws_tracks w) (clear_node (pinnedTracksNode w) h)"

definition pin_args :: "tnode \<Rightarrow> track_args" where
  "pin_args n = no_args\<lparr>ta_uri := tn_uri n, ta_name := Some (tn_name n), ta_subtitle := tn_subtitle n,
     ta_removable := Some (tn_removable n), ta_chips := tn_chips n\<rparr>"

definition pinTrack :: "workspace \<Rightarrow> nat \<Rightarrow> track_heap \<Rightarrow> track_heap option" where
  "pinTrack w track h =
     (let (c, h1) = createTrackNode (pin_args (th_node h track)) h
      in map_option snd (addChildLast (pinnedTracksNode w) c h1))"

definition unpinTrack :: "workspace \<Rightarrow> nat \<Rightarrow> track_heap \<Rightarrow> track_heap option" where
  "unpinTrack w track h =
     (case find (\<lambda>t. tn_uri (th_node h t) = tn_uri (th_node h track))
             (tn_children (th_node h (pinnedTracksNode w))) of
        None \<Rightarrow> Some h | Some t \<Rightarrow> removeChild (pinnedTracksNode w) t h)"

definition hasPinnedTrack :: "workspace \<Rightarrow> nat \<Rightarrow> track_heap \<Rightarrow> bool" where
  "hasPinnedTrack w track h \<longleftrightarrow>
     list_ex (\<lambda>p. tn_uri (th_node h p) = tn_uri (th_node h track)) (flatTracks h (pinnedTracksNode w))"

definition ws_getTrackByUri :: "workspace \<Rightarrow> string \<Rightarrow> track_heap \<Rightarrow> nat option" where
  "ws_getTrackByUri w uri h = find (\<lambda>t. tn_uri (th_node h t) = Some uri) (flatTracks h (ws_tracks w))"

definition ws_getTrackById :: "workspace \<Rightarrow> nat \<Rightarrow> track_heap \<Rightarrow> nat option" where
  "ws_getTrackById w i h =
     (case getTrackById h (ws_tracks w) i of
        Some n \<Rightarrow> Some n | None \<Rightarrow> getTrackById h (pinnedTracksNode w) i)"

text \<open>A workspace forwards the operations on its track list to its root node.\<close>

definition ws_children :: "workspace \<Rightarrow> track_heap \<Rightarrow> nat list" where
  "ws_children w h = tn_children (th_node h (ws_tracks w))"

definition ws_addChildInOrder :: "workspace \<Rightarrow> nat \<Rightarrow> track_heap \<Rightarrow> (js_error + js_result \<times> track_heap) option" where
  "ws_addChildInOrder w child = addChildInOrder (ws_tracks w) child"

definition ws_addChildLast :: "workspace \<Rightarrow> nat \<Rightarrow> track_heap \<Rightarrow> (js_result \<times> track_heap) option" where
  "ws_addChildLast w child = addChildLast (ws_tracks w) child"

definition ws_addChildFirst :: "workspace \<Rightarrow> nat \<Rightarrow> track_heap \<Rightarrow> (js_result \<times> track_heap) option" where
  "ws_addChildFirst w child = addChildFirst (ws_tracks w) child"

definition ws_addChildBefore ::
  "workspace \<Rightarrow> nat \<Rightarrow> nat \<Rightarrow> track_heap \<Rightarrow> (js_error + js_result \<times> track_heap) option" where
  "ws_addChildBefore w child ref = addChildBefore (ws_tracks w) child ref"

definition ws_addChildAfter ::
  "workspace \<Rightarrow> nat \<Rightarrow> nat \<Rightarrow> track_heap \<Rightarrow> (js_error + js_result \<times> track_heap) option" where
  "ws_addChildAfter w child ref = addChildAfter (ws_tracks w) child ref"

definition ws_removeChild :: "workspace \<Rightarrow> nat \<Rightarrow> track_heap \<Rightarrow> track_heap option" where
  "ws_removeChild w child = removeChild (ws_tracks w) child"

definition ws_flatTracksOrdered :: "workspace \<Rightarrow> track_heap \<Rightarrow> nat list" where
  "ws_flatTracksOrdered w h = flatTracksOrdered h (ws_tracks w)"

definition ws_flatTracks :: "workspace \<Rightarrow> track_heap \<Rightarrow> nat list" where
  "ws_flatTracks w h = flatTracks h (ws_tracks w)"

text \<open>
  \<open>remove()\<close>, \<open>pin()\<close> and \<open>unpin()\<close> of a node go through the workspace of its root; \<open>ws\<close> finds a workspace by its id.
\<close>

definition node_ws :: "(nat \<Rightarrow> workspace) \<Rightarrow> track_heap \<Rightarrow> nat \<Rightarrow> workspace option option" where
  "node_ws ws h this = map_option (map_option ws) (node_workspace h this)"

definition pin_node :: "(nat \<Rightarrow> workspace) \<Rightarrow> nat \<Rightarrow> track_heap \<Rightarrow> track_heap option" where
  "pin_node ws this h =
     (case node_ws ws h this of
        None \<Rightarrow> None | Some None \<Rightarrow> Some h | Some (Some w) \<Rightarrow> pinTrack w this h)"

definition unpin_node :: "(nat \<Rightarrow> workspace) \<Rightarrow> nat \<Rightarrow> track_heap \<Rightarrow> track_heap option" where
  "unpin_node ws this h =
     (case node_ws ws h this of
        None \<Rightarrow> None | Some None \<Rightarrow> Some h | Some (Some w) \<Rightarrow> unpinTrack w this h)"

definition remove_node :: "(nat \<Rightarrow> workspace) \<Rightarrow> nat \<Rightarrow> track_heap \<Rightarrow> track_heap option" where
  "remove_node ws this h = Option.bind (unpin_node ws this h) (detach this)"

definition isPinned :: "(nat \<Rightarrow> workspace) \<Rightarrow> nat \<Rightarrow> track_heap \<Rightarrow> bool option" where
  "isPinned ws this h =
     map_option (\<lambda>ow. case ow of None \<Rightarrow> False | Some w \<Rightarrow> hasPinnedTrack w this h) (node_ws ws h this)"

end
