(* ===== verification/Track_Node_Correct.thy ===== *)
theory Track_Node_Correct
  imports Track_Node
begin

text \<open>
  Correctness of the track tree: the parent pointers form a forest, the children lists mirror them, and
  the two index maps of every node describe exactly its descendants, through every operation that
  adds, moves or removes nodes.
\<close>

subsection \<open>The parent relation\<close>

definition up :: "track_heap \<Rightarrow> (nat \<times> nat) set" where
  "up h = {(c, p). tn_parent (th_node h c) = Some p}"

definition upd_nodes :: "nat set \<Rightarrow> (tnode \<Rightarrow> tnode) \<Rightarrow> track_heap \<Rightarrow> track_heap" where
  "upd_nodes S f h = h\<lparr>th_node := (\<lambda>n. if n \<in> S then f (th_node h n) else th_node h n)\<rparr>"

lemma up_iff: "(c, p) \<in> up h \<longleftrightarrow> tn_parent (th_node h c) = Some p"
  by (simp add: up_def)

lemma single_valued_up: "single_valued (up h)"
  by (simp add: single_valued_def up_def)

lemma up_cong: "(\<And>n. tn_parent (th_node h' n) = tn_parent (th_node h n)) \<Longrightarrow> up h' = up h"
  by (simp add: up_def)

lemma th_node_set_node: "th_node (set_node n f h) m = (if m = n then f (th_node h n) else th_node h m)"
  by (simp add: set_node_def)

lemma th_node_upd_nodes: "th_node (upd_nodes S f h) m = (if m \<in> S then f (th_node h m) else th_node h m)"
  by (simp add: upd_nodes_def)

lemma th_next_frame [simp]:
  "th_next (set_node n f h) = th_next h" "th_next (upd_nodes S f h) = th_next h"
  "th_calls (set_node n f h) = th_calls h" "th_calls (upd_nodes S f h) = th_calls h"
  by (simp_all add: set_node_def upd_nodes_def)

lemma above_step:
  assumes "single_valued r" and "(x, y) \<in> r"
  shows "{n. (x, n) \<in> r\<^sup>+} = {n. (y, n) \<in> r\<^sup>*}"
proof (intro equalityI subsetI; simp)
  fix n assume "(x, n) \<in> r\<^sup>+"
  then obtain z where "(x, z) \<in> r" "(z, n) \<in> r\<^sup>*" by (blast dest: tranclD)
  with assms show "(y, n) \<in> r\<^sup>*" by (metis single_valuedD)
next
  fix n assume "(y, n) \<in> r\<^sup>*"
  with assms(2) show "(x, n) \<in> r\<^sup>+" by (rule rtrancl_into_trancl2)
qed

lemma above_root: "tn_parent (th_node h x) = None \<Longrightarrow> (x, n) \<in> (up h)\<^sup>* \<longleftrightarrow> n = x"
  by (auto simp: up_iff elim: converse_rtranclE)

text \<open>A walk along the parents that rewrites each node it reaches.\<close>

lemma chain_update:
  assumes F: "\<And>this h. th_node h child = c \<Longrightarrow>
      F this h = (case tn_parent (th_node h this) of None \<Rightarrow> Some h | Some p \<Rightarrow> F p (set_node p f h))"
    and f: "\<And>n. tn_parent (f n) = tn_parent n"
    and r: "up h = r" "wf (r\<inverse>)" and c: "th_node h child = c" "(this, child) \<notin> r\<^sup>+"
  shows "F this h = Some (upd_nodes {n. (this, n) \<in> r\<^sup>+} f h)"
  using r(2,1) c
proof (induction this arbitrary: h rule: wf_induct_rule)
  case (less this)
  show ?case
  proof (cases "tn_parent (th_node h this)")
    case None
    then have "{n. (this, n) \<in> r\<^sup>+} = {}" using less.prems(1) by (auto simp: up_iff dest!: tranclD)
    with None F [OF less.prems(2)] show ?thesis by (simp add: upd_nodes_def)
  next
    case (Some p)
    then have tp: "(this, p) \<in> r" using less.prems(1) up_iff by blast
    have S: "{n. (this, n) \<in> r\<^sup>+} = insert p {n. (p, n) \<in> r\<^sup>+}"
      using above_step [OF _ tp] single_valued_up [of h] less.prems(1)
      by (auto simp: rtrancl_eq_or_trancl)
    have ac: "(p, p) \<notin> r\<^sup>+"
      using r(2) by (metis acyclic_converse acyclic_def converse_converse wf_acyclic)
    have pc: "p \<noteq> child" and nc: "(p, child) \<notin> r\<^sup>+" using S less.prems(3) by auto
    let ?h = "set_node p f h"
    have "up ?h = r" using less.prems(1) f by (auto simp: up_def th_node_set_node split: if_splits)
    moreover have "th_node ?h child = c" using pc less.prems(2) by (simp add: th_node_set_node)
    ultimately have "F p ?h = Some (upd_nodes {n. (p, n) \<in> r\<^sup>+} f ?h)"
      using less.IH [of p ?h] tp nc by simp
    also have "upd_nodes {n. (p, n) \<in> r\<^sup>+} f ?h = upd_nodes {n. (this, n) \<in> r\<^sup>+} f h"
      using ac unfolding S by (auto simp: upd_nodes_def set_node_def fun_eq_iff)
    finally show ?thesis using F [OF less.prems(2)] Some by simp
  qed
qed

lemma idx_parent [simp]:
  "tn_parent (idx_add child c n) = tn_parent n" "tn_parent (idx_remove child c n) = tn_parent n"
  "tn_children (idx_add child c n) = tn_children n" "tn_children (idx_remove child c n) = tn_children n"
  "tn_uri (idx_add child c n) = tn_uri n" "tn_uri (idx_remove child c n) = tn_uri n"
  by (simp_all add: idx_add_def idx_remove_def)

lemma idx_of_child [simp]:
  "idx_add child (c\<lparr>tn_parent := x\<rparr>) = idx_add child c" "idx_remove child (c\<lparr>tn_parent := x\<rparr>) = idx_remove child c"
  "idx_add child (c\<lparr>tn_children := xs\<rparr>) = idx_add child c"
  by (simp_all add: idx_add_def idx_remove_def indexed_uri_def fun_eq_iff)

lemma propagateAddition_eq:
  assumes "wf ((up h)\<inverse>)" and "(this, child) \<notin> (up h)\<^sup>+"
  shows "propagateAddition this child h =
    Some (upd_nodes {n. (this, n) \<in> (up h)\<^sup>+} (idx_add child (th_node h child)) h)"
proof (rule chain_update [OF _ _ refl assms(1) refl assms(2)])
  fix t and g :: track_heap assume "th_node g child = th_node h child"
  then show "propagateAddition t child g = (case tn_parent (th_node g t) of
      None \<Rightarrow> Some g | Some p \<Rightarrow> propagateAddition p child (set_node p (idx_add child (th_node h child)) g))"
    by (subst propagateAddition.simps) (simp add: addToIndex_def split: option.split)
qed simp

lemma propagateRemoval_eq:
  assumes "wf ((up h)\<inverse>)" and "(this, child) \<notin> (up h)\<^sup>+"
  shows "propagateRemoval this child h =
    Some (upd_nodes {n. (this, n) \<in> (up h)\<^sup>+} (idx_remove child (th_node h child)) h)"
proof (rule chain_update [OF _ _ refl assms(1) refl assms(2)])
  fix t and g :: track_heap assume "th_node g child = th_node h child"
  then show "propagateRemoval t child g = (case tn_parent (th_node g t) of
      None \<Rightarrow> Some g | Some p \<Rightarrow> propagateRemoval p child (set_node p (idx_remove child (th_node h child)) g))"
    by (subst propagateRemoval.simps) (simp add: removeFromIndex_def split: option.split)
qed simp

subsection \<open>The invariant\<close>

text \<open>
  \<open>track_inv\<close>: parents are allocated nodes and have no cycles, the children of a node are the nodes that
  point to it, its id index holds its proper descendants, and each entry of its URI index comes from
  a child: from the child's own URI or from the child's index.
\<close>

definition uri_entry :: "track_heap \<Rightarrow> nat \<Rightarrow> string \<Rightarrow> nat \<Rightarrow> bool" where
  "uri_entry h c u d \<longleftrightarrow> d = c \<and> indexed_uri (th_node h c) = Some u \<or> tracksByUri (th_node h c) u = Some d"

definition index_ok :: "track_heap \<Rightarrow> nat \<Rightarrow> bool" where
  "index_ok h n \<longleftrightarrow> distinct (tracksById (th_node h n)) \<and>
     set (tracksById (th_node h n)) = {d. (d, n) \<in> (up h)\<^sup>+} \<and>
     (\<forall>u d. tracksByUri (th_node h n) u = Some d \<longrightarrow> (\<exists>c. (c, n) \<in> up h \<and> uri_entry h c u d))"

definition children_ok :: "track_heap \<Rightarrow> nat \<Rightarrow> bool" where
  "children_ok h n \<longleftrightarrow> distinct (tn_children (th_node h n)) \<and>
     set (tn_children (th_node h n)) = {c. (c, n) \<in> up h}"

definition forest :: "track_heap \<Rightarrow> bool" where
  "forest h \<longleftrightarrow> up h \<subseteq> {..<th_next h} \<times> {..<th_next h} \<and> acyclic (up h)"

definition track_inv :: "track_heap \<Rightarrow> bool" where
  "track_inv h \<longleftrightarrow> forest h \<and> (\<forall>n. children_ok h n) \<and> (\<forall>n. index_ok h n)"

lemma index_ok_cong:
  "up h' = up h \<Longrightarrow> th_node h' n = th_node h n \<Longrightarrow>
   (\<And>c u d. (c, n) \<in> up h \<Longrightarrow> uri_entry h' c u d = uri_entry h c u d) \<Longrightarrow> index_ok h' n = index_ok h n"
  by (simp add: index_ok_def cong: conj_cong)

lemma children_ok_cong:
  "up h' = up h \<Longrightarrow> tn_children (th_node h' n) = tn_children (th_node h n) \<Longrightarrow> children_ok h' n = children_ok h n"
  by (simp add: children_ok_def)

lemma forest_wf: "forest h \<Longrightarrow> wf ((up h)\<inverse>)"
  by (rule finite_acyclic_wf_converse) (auto simp: forest_def intro: finite_subset)

lemma track_inv_empty: "track_inv empty_heap"
proof -
  have "up empty_heap = {}" by (simp add: up_def empty_heap_def fresh_node_def)
  then show ?thesis
    by (simp add: track_inv_def forest_def children_ok_def index_ok_def acyclic_def)
      (simp add: empty_heap_def fresh_node_def no_args_def)
qed

lemma track_inv_create:
  assumes "track_inv h"
  shows "track_inv (snd (createTrackNode a h))"
proof -
  let ?h = "snd (createTrackNode a h)" and ?i = "th_next h"
  have f: "forest h" using assms by (simp add: track_inv_def)
  have none: "(c, ?i) \<notin> up h" "(?i, p) \<notin> up h" for c p using f by (auto simp: forest_def)
  have "tn_parent (th_node h ?i) = None" using none(2) by (cases "tn_parent (th_node h ?i)") (auto simp: up_iff)
  then have up: "up ?h = up h" by (intro up_cong) (simp add: createTrackNode_def fresh_node_def)
  have "(d, ?i) \<notin> (up h)\<^sup>+" for d using none by (blast elim: tranclE)
  then have i: "children_ok ?h ?i" "index_ok ?h ?i"
    using none unfolding children_ok_def index_ok_def up
    by (auto simp: createTrackNode_def fresh_node_def)
  have n: "th_node ?h n = th_node h n" if "n \<noteq> ?i" for n using that by (simp add: createTrackNode_def)
  have "uri_entry ?h c u d = uri_entry h c u d" if "(c, m) \<in> up h" for c m u d
  proof -
    have "c \<noteq> ?i" using none(2) that by auto
    then show ?thesis by (simp add: uri_entry_def n)
  qed
  then have "children_ok ?h m \<and> index_ok ?h m" for m
    using assms i n [of m] index_ok_cong [OF up, of m] children_ok_cong [OF up, of m]
    by (cases "m = ?i") (simp_all add: track_inv_def)
  moreover have "th_next ?h = Suc ?i" by (simp add: createTrackNode_def)
  then have "forest ?h" using f unfolding forest_def up by (auto simp: less_Suc_eq)
  ultimately show ?thesis by (simp add: track_inv_def)
qed

subsection \<open>Adding and removing an edge\<close>

text \<open>
  \<open>r\<close> is the parent relation without the edge from \<open>child\<close> to \<open>p\<close>, in which \<open>child\<close> is a root that is not
  above \<open>p\<close>.
\<close>

definition can_link :: "(nat \<times> nat) set \<Rightarrow> nat \<Rightarrow> nat \<Rightarrow> bool" where
  "can_link r child p \<longleftrightarrow> single_valued r \<and> child \<notin> Domain r \<and> (p, child) \<notin> r\<^sup>*"

lemma link_above: "can_link r child p \<Longrightarrow> (p, n) \<in> (insert (child, p) r)\<^sup>* \<longleftrightarrow> (p, n) \<in> r\<^sup>*"
  by (auto simp: can_link_def rtrancl_eq_or_trancl trancl_insert)

lemma link_below: "can_link r child p \<Longrightarrow> (d, child) \<in> (insert (child, p) r)\<^sup>+ \<longleftrightarrow> (d, child) \<in> r\<^sup>+"
  by (auto simp: can_link_def trancl_insert)

lemma link_disjoint:
  assumes "can_link r child p" and "(p, n) \<in> r\<^sup>*" and "(d, child) \<in> r\<^sup>*"
  shows "(d, n) \<notin> r\<^sup>*"
proof
  assume "(d, n) \<in> r\<^sup>*"
  then have "(n, child) \<in> r\<^sup>* \<or> (child, n) \<in> r\<^sup>*"
    using assms single_valued_confluent by (metis can_link_def)
  then have "(n, child) \<in> r\<^sup>*" using assms(1) by (auto simp: can_link_def elim: converse_rtranclE)
  with assms(1,2) show False by (simp add: can_link_def) (metis rtrancl_trans)
qed

lemma link_descendants:
  assumes "can_link r child p"
  shows "{d. (d, n) \<in> (insert (child, p) r)\<^sup>+} =
    {d. (d, n) \<in> r\<^sup>+} \<union> (if (p, n) \<in> r\<^sup>* then {d. (d, child) \<in> r\<^sup>*} else {})"
  by (auto simp: trancl_insert)

lemma unlink_descendants:
  assumes "can_link r child p"
  shows "{d. (d, n) \<in> r\<^sup>+} =
    {d. (d, n) \<in> (insert (child, p) r)\<^sup>+} - (if (p, n) \<in> r\<^sup>* then {d. (d, child) \<in> r\<^sup>*} else {})"
  using link_disjoint [OF assms] unfolding link_descendants [OF assms] by (auto dest: trancl_into_rtrancl)

lemma link_acyclic: "can_link r child p \<Longrightarrow> acyclic (insert (child, p) r) \<longleftrightarrow> acyclic r"
  by (simp add: can_link_def acyclic_insert)

lemma cut_can_link:
  assumes "acyclic R" and "single_valued R" and "(child, p) \<in> R"
  shows "can_link (R - {(child, p)}) child p" and "insert (child, p) (R - {(child, p)}) = R"
proof -
  show i: "insert (child, p) (R - {(child, p)}) = R" using assms(3) by auto
  have "acyclic (insert (child, p) (R - {(child, p)}))" using assms(1) i by simp
  then have "(p, child) \<notin> (R - {(child, p)})\<^sup>*" unfolding acyclic_insert by blast
  moreover have "child \<notin> Domain (R - {(child, p)})" using assms(2,3) by (auto dest: single_valuedD)
  moreover have "single_valued (R - {(child, p)})"
    using assms(2) by (rule single_valued_subset [rotated]) auto
  ultimately show "can_link (R - {(child, p)}) child p" by (simp add: can_link_def)
qed

subsection \<open>Removing a child\<close>

definition cut :: "nat \<Rightarrow> nat \<Rightarrow> track_heap \<Rightarrow> track_heap" where
  "cut p child h = set_node child (\<lambda>n. n\<lparr>tn_parent := None\<rparr>)
     (set_node p (\<lambda>n. n\<lparr>tn_children := filter (\<lambda>x. x \<noteq> child) (tn_children n)\<rparr>) h)"

lemma th_node_cut:
  "p \<noteq> child \<Longrightarrow> th_node (cut p child h) n =
     (if n = child then (th_node h child)\<lparr>tn_parent := None\<rparr>
      else if n = p then (th_node h p)\<lparr>tn_children := filter (\<lambda>x. x \<noteq> child) (tn_children (th_node h p))\<rparr>
      else th_node h n)"
  by (simp add: cut_def th_node_set_node)

lemma up_cut: "p \<noteq> child \<Longrightarrow> (child, p) \<in> up h \<Longrightarrow> up (cut p child h) = up h - {(child, p)}"
  by (auto simp: up_def th_node_cut split: if_splits)

lemma upd_nodes_up: "(\<And>n. tn_parent (f n) = tn_parent n) \<Longrightarrow> up (upd_nodes S f h) = up h"
  by (auto simp: up_def th_node_upd_nodes split: if_splits)

lemma set_node_up: "(\<And>n. tn_parent (f n) = tn_parent n) \<Longrightarrow> up (set_node m f h) = up h"
  by (auto simp: up_def th_node_set_node split: if_splits)

lemma upd_above:
  assumes "acyclic r"
  shows "upd_nodes {n. (p, n) \<in> r\<^sup>+} f (set_node p f h) = upd_nodes {n. (p, n) \<in> r\<^sup>*} f h"
  using assms by (auto simp: upd_nodes_def set_node_def fun_eq_iff rtrancl_eq_or_trancl acyclic_def)

lemma removeChild_eq:
  assumes "forest h" and "(child, p) \<in> up h"
  shows "removeChild p child h = Some (upd_nodes {n. (p, n) \<in> (up h - {(child, p)})\<^sup>*}
    (idx_remove child (th_node h child)) (cut p child h))"
proof -
  let ?r = "up h - {(child, p)}" and ?f = "idx_remove child (th_node h child)"
  have ac: "acyclic (up h)" using assms(1) by (simp add: forest_def)
  note link = cut_can_link [OF ac single_valued_up assms(2)]
  have ne: "p \<noteq> child" using link(1) by (auto simp: can_link_def)
  have r: "up (cut p child h) = ?r" by (rule up_cut [OF ne assms(2)])
  have acr: "acyclic ?r" using ac by (rule acyclic_subset) auto
  have "removeFromIndex p child (cut p child h) = set_node p ?f (cut p child h)"
    using ne by (simp add: removeFromIndex_def th_node_cut)
  moreover have "up (set_node p ?f (cut p child h)) = ?r" by (simp add: set_node_up r)
  moreover have "wf (?r\<inverse>)" using forest_wf [OF assms(1)] by (rule wf_subset) auto
  moreover have "(p, child) \<notin> ?r\<^sup>+" using link(1) by (auto simp: can_link_def dest: trancl_into_rtrancl)
  moreover have "th_node (set_node p ?f (cut p child h)) child = (th_node h child)\<lparr>tn_parent := None\<rparr>"
    using ne by (simp add: th_node_set_node th_node_cut)
  ultimately have "removeChild p child h = Some (upd_nodes {n. (p, n) \<in> ?r\<^sup>+} ?f (set_node p ?f (cut p child h)))"
    using propagateRemoval_eq [of "set_node p ?f (cut p child h)" p child]
    by (simp add: removeChild_def cut_def Let_def)
  then show ?thesis by (simp add: upd_above [OF acr])
qed

text \<open>The URIs whose entries an operation on \<open>child\<close> rewrites.\<close>

definition touched :: "tnode \<Rightarrow> string \<Rightarrow> bool" where
  "touched c u \<longleftrightarrow> indexed_uri c = Some u \<or> tracksByUri c u \<noteq> None"

lemma idx_remove_uri:
  "tracksByUri (idx_remove child c n) u = (if touched c u then None else tracksByUri n u)"
  "indexed_uri (idx_remove child c n) = indexed_uri n"
  by (simp_all add: idx_remove_def touched_def indexed_uri_def)

lemma idx_add_uri:
  "tracksByUri (idx_add child c n) u =
     (if touched c u then Some (or_default (tracksByUri c u) child) else tracksByUri n u)"
  "indexed_uri (idx_add child c n) = indexed_uri n"
  by (auto simp: idx_add_def touched_def indexed_uri_def or_default_def map_add_def split: option.splits)

lemma set_fold_add_id: "set (fold add_id xs ys) = set xs \<union> set ys"
  by (induction xs arbitrary: ys) (auto simp: add_id_def)

lemma distinct_fold_add_id: "distinct ys \<Longrightarrow> distinct (fold add_id xs ys)"
  by (induction xs arbitrary: ys) (auto simp: add_id_def)

lemma idx_add_ids:
  "set (tracksById (idx_add child c n)) = insert child (set (tracksById c)) \<union> set (tracksById n)"
  "distinct (tracksById n) \<Longrightarrow> distinct (tracksById (idx_add child c n))"
  by (auto simp: idx_add_def set_fold_add_id distinct_fold_add_id add_id_def)

lemma idx_remove_ids:
  "set (tracksById (idx_remove child c n)) = set (tracksById n) - insert child (set (tracksById c))"
  "distinct (tracksById n) \<Longrightarrow> distinct (tracksById (idx_remove child c n))"
  by (auto simp: idx_remove_def)

text \<open>What \<open>removeChild\<close> makes of a heap, and that it keeps the invariant.\<close>

definition cut_heap :: "nat \<Rightarrow> nat \<Rightarrow> track_heap \<Rightarrow> track_heap" where
  "cut_heap p child h = upd_nodes {n. (p, n) \<in> (up h - {(child, p)})\<^sup>*}
    (idx_remove child (th_node h child)) (cut p child h)"

lemma cut_heap_facts:
  assumes "track_inv h" and "(child, p) \<in> up h"
  shows "up (cut_heap p child h) = up h - {(child, p)}"
    and "can_link (up h - {(child, p)}) child p" and "p \<noteq> child"
    and "th_next (cut_heap p child h) = th_next h"
    and "indexed_uri (th_node (cut_heap p child h) n) = indexed_uri (th_node h n)"
    and "tracksByUri (th_node (cut_heap p child h) n) u =
      (if (p, n) \<in> (up h - {(child, p)})\<^sup>* \<and> touched (th_node h child) u then None
       else tracksByUri (th_node h n) u)"
    and "tn_sortOrder (th_node (cut_heap p child h) n) = tn_sortOrder (th_node h n)"
    and "tn_children (th_node (cut_heap p child h) n) =
      (if n = p then filter (\<lambda>x. x \<noteq> child) (tn_children (th_node h p)) else tn_children (th_node h n))"
proof -
  have ac: "acyclic (up h)" using assms(1) by (simp add: track_inv_def forest_def)
  show link: "can_link (up h - {(child, p)}) child p"
    by (rule cut_can_link(1) [OF ac single_valued_up assms(2)])
  then show ne: "p \<noteq> child" by (auto simp: can_link_def)
  show "up (cut_heap p child h) = up h - {(child, p)}"
    using up_cut [OF ne assms(2)] by (simp add: cut_heap_def upd_nodes_up)
  show "th_next (cut_heap p child h) = th_next h" by (simp add: cut_heap_def cut_def)
  show "indexed_uri (th_node (cut_heap p child h) n) = indexed_uri (th_node h n)"
    and "tn_sortOrder (th_node (cut_heap p child h) n) = tn_sortOrder (th_node h n)"
    and "tracksByUri (th_node (cut_heap p child h) n) u =
      (if (p, n) \<in> (up h - {(child, p)})\<^sup>* \<and> touched (th_node h child) u then None
       else tracksByUri (th_node h n) u)"
    and "tn_children (th_node (cut_heap p child h) n) =
      (if n = p then filter (\<lambda>x. x \<noteq> child) (tn_children (th_node h p)) else tn_children (th_node h n))"
    using ne
    by (auto simp: cut_heap_def th_node_upd_nodes th_node_cut idx_remove_uri idx_remove_def indexed_uri_def
        touched_def)
qed

lemma cut_heap_index:
  assumes "track_inv h" and "(child, p) \<in> up h"
  shows "index_ok (cut_heap p child h) n"
proof -
  let ?r = "up h - {(child, p)}" and ?h = "cut_heap p child h"
  note facts = cut_heap_facts [OF assms]
  have r: "insert (child, p) ?r = up h" using assms(2) by auto
  have ids: "\<And>m. distinct (tracksById (th_node h m)) \<and> set (tracksById (th_node h m)) = {d. (d, m) \<in> (up h)\<^sup>+}"
    and uri: "\<And>m u d. tracksByUri (th_node h m) u = Some d \<Longrightarrow> \<exists>c. (c, m) \<in> up h \<and> uri_entry h c u d"
    using assms(1) by (auto simp: track_inv_def index_ok_def)
  have sub: "insert child {d. (d, child) \<in> (up h)\<^sup>+} = {d. (d, child) \<in> ?r\<^sup>*}"
    using link_below [OF facts(2)] unfolding r by (auto simp: rtrancl_eq_or_trancl)
  have bn: "tracksById (th_node ?h n) = (if (p, n) \<in> ?r\<^sup>*
      then tracksById (idx_remove child (th_node h child) (th_node h n)) else tracksById (th_node h n))"
    using facts(3) by (auto simp: cut_heap_def th_node_upd_nodes th_node_cut idx_remove_def)
  have "set (tracksById (th_node ?h n)) = {d. (d, n) \<in> ?r\<^sup>+}"
    using unlink_descendants [OF facts(2), of n] sub ids unfolding r bn by (simp add: idx_remove_ids)
  moreover have "distinct (tracksById (th_node ?h n))" using ids unfolding bn by (simp add: idx_remove_ids)
  moreover have "\<exists>c. (c, n) \<in> ?r \<and> uri_entry ?h c u d" if e: "tracksByUri (th_node ?h n) u = Some d" for u d
  proof -
    from e have t: "(p, n) \<in> ?r\<^sup>* \<Longrightarrow> \<not> touched (th_node h child) u"
      and o: "tracksByUri (th_node h n) u = Some d"
      by (auto simp: facts(6) split: if_splits)
    from uri [OF o] obtain c where c: "(c, n) \<in> up h" "uri_entry h c u d" by blast
    have "(c, n) \<noteq> (child, p)" using t c(2) by (auto simp: uri_entry_def touched_def)
    then have cn: "(c, n) \<in> ?r" using c(1) by auto
    have "(p, c) \<in> ?r\<^sup>* \<Longrightarrow> \<not> touched (th_node h child) u" using t cn by (meson rtrancl.rtrancl_into_rtrancl)
    then have "uri_entry ?h c u d" using c(2) by (auto simp: uri_entry_def facts)
    with cn show ?thesis by blast
  qed
  ultimately show ?thesis by (simp add: index_ok_def facts)
qed

lemma track_inv_removeChild:
  assumes "track_inv h" and "(child, p) \<in> up h"
  shows "removeChild p child h = Some (cut_heap p child h)" and "track_inv (cut_heap p child h)"
proof -
  note facts = cut_heap_facts [OF assms]
  have f: "forest h" using assms(1) by (simp add: track_inv_def)
  then show "removeChild p child h = Some (cut_heap p child h)"
    using removeChild_eq [OF f assms(2)] by (simp add: cut_heap_def)
  have "forest (cut_heap p child h)"
    using f by (auto simp: forest_def facts intro: acyclic_subset)
  moreover have "children_ok (cut_heap p child h) n" for n
    using assms by (auto simp: track_inv_def children_ok_def facts up_iff)
  ultimately show "track_inv (cut_heap p child h)"
    using cut_heap_index [OF assms] by (simp add: track_inv_def)
qed

subsection \<open>Adding a child\<close>

definition link_heap :: "nat \<Rightarrow> nat \<Rightarrow> (nat list \<Rightarrow> nat list) \<Rightarrow> track_heap \<Rightarrow> track_heap" where
  "link_heap this child f h = set_node this (\<lambda>n. n\<lparr>tn_children := f (tn_children n)\<rparr>)
     (upd_nodes {n. (this, n) \<in> (up h)\<^sup>*} (idx_add child (th_node h child))
       (set_node child (\<lambda>n. n\<lparr>tn_parent := Some this\<rparr>) h))"

lemma up_attach:
  "tn_parent (th_node h child) = None \<Longrightarrow>
   up (set_node child (\<lambda>n. n\<lparr>tn_parent := Some this\<rparr>) h) = insert (child, this) (up h)"
  by (auto simp: up_def th_node_set_node split: if_splits)

lemma can_link_up: "tn_parent (th_node h child) = None \<Longrightarrow> (this, child) \<notin> (up h)\<^sup>* \<Longrightarrow> can_link (up h) child this"
  by (auto simp: can_link_def single_valued_up up_iff)

lemma attach_eq:
  assumes "forest h" and "tn_parent (th_node h child) = None" and "(this, child) \<notin> (up h)\<^sup>*"
    and "this < th_next h" "child < th_next h"
  shows "attach this child h = Some (upd_nodes {n. (this, n) \<in> (up h)\<^sup>*} (idx_add child (th_node h child))
    (set_node child (\<lambda>n. n\<lparr>tn_parent := Some this\<rparr>) h))"
proof -
  let ?h = "set_node child (\<lambda>n. n\<lparr>tn_parent := Some this\<rparr>) h" and ?f = "idx_add child (th_node h child)"
  note link = can_link_up [OF assms(2,3)]
  have ne: "this \<noteq> child" using assms(3) by auto
  have r: "up ?h = insert (child, this) (up h)" by (rule up_attach [OF assms(2)])
  have f: "forest ?h" using assms link_acyclic [OF link] by (auto simp: forest_def r)
  have f1: "addToIndex this child ?h = set_node this ?f ?h"
    using ne by (simp add: addToIndex_def th_node_set_node)
  have r1: "up (set_node this ?f ?h) = up ?h" by (simp add: set_node_up)
  have "(this, child) \<notin> (up ?h)\<^sup>+"
    using link_above [OF link, of child] assms(3) unfolding r by (auto dest: trancl_into_rtrancl)
  moreover have "th_node (set_node this ?f ?h) child = (th_node h child)\<lparr>tn_parent := Some this\<rparr>"
    using ne by (simp add: th_node_set_node)
  ultimately have "attach this child h = Some (upd_nodes {n. (this, n) \<in> (up ?h)\<^sup>+} ?f (set_node this ?f ?h))"
    using propagateAddition_eq [of "set_node this ?f ?h" this child] forest_wf [OF f]
    by (simp add: attach_def f1 r1)
  also have "upd_nodes {n. (this, n) \<in> (up ?h)\<^sup>+} ?f (set_node this ?f ?h) =
      upd_nodes {n. (this, n) \<in> (up ?h)\<^sup>*} ?f ?h"
    using f by (intro upd_above) (simp add: forest_def)
  also have "{n. (this, n) \<in> (up ?h)\<^sup>*} = {n. (this, n) \<in> (up h)\<^sup>*}"
    using link_above [OF link] by (simp add: r)
  finally show ?thesis .
qed

lemma link_heap_facts:
  assumes "tn_parent (th_node h child) = None" and "(this, child) \<notin> (up h)\<^sup>*"
  shows "up (link_heap this child f h) = insert (child, this) (up h)"
    and "th_next (link_heap this child f h) = th_next h"
    and "indexed_uri (th_node (link_heap this child f h) n) = indexed_uri (th_node h n)"
    and "tn_sortOrder (th_node (link_heap this child f h) n) = tn_sortOrder (th_node h n)"
    and "tracksByUri (th_node (link_heap this child f h) n) u =
      (if (this, n) \<in> (up h)\<^sup>* \<and> touched (th_node h child) u
       then Some (or_default (tracksByUri (th_node h child) u) child) else tracksByUri (th_node h n) u)"
    and "tracksById (th_node (link_heap this child f h) n) =
      (if (this, n) \<in> (up h)\<^sup>* then tracksById (idx_add child (th_node h child) (th_node h n))
       else tracksById (th_node h n))"
    and "tn_children (th_node (link_heap this child f h) n) =
      (if n = this then f (tn_children (th_node h this)) else tn_children (th_node h n))"
proof -
  have ne: "this \<noteq> child" using assms(2) by auto
  show "up (link_heap this child f h) = insert (child, this) (up h)"
    using up_attach [OF assms(1)] by (simp add: link_heap_def set_node_up upd_nodes_up)
  show "th_next (link_heap this child f h) = th_next h" by (simp add: link_heap_def)
  show "indexed_uri (th_node (link_heap this child f h) n) = indexed_uri (th_node h n)"
    and "tn_sortOrder (th_node (link_heap this child f h) n) = tn_sortOrder (th_node h n)"
    and "tracksByUri (th_node (link_heap this child f h) n) u =
      (if (this, n) \<in> (up h)\<^sup>* \<and> touched (th_node h child) u
       then Some (or_default (tracksByUri (th_node h child) u) child) else tracksByUri (th_node h n) u)"
    and "tracksById (th_node (link_heap this child f h) n) =
      (if (this, n) \<in> (up h)\<^sup>* then tracksById (idx_add child (th_node h child) (th_node h n))
       else tracksById (th_node h n))"
    and "tn_children (th_node (link_heap this child f h) n) =
      (if n = this then f (tn_children (th_node h this)) else tn_children (th_node h n))"
    using ne assms(2)
    by (auto simp: link_heap_def th_node_upd_nodes th_node_set_node idx_add_uri indexed_uri_def)
      (auto simp: idx_add_def)
qed

lemma link_heap_index:
  assumes inv: "track_inv h" and link: "tn_parent (th_node h child) = None" "(this, child) \<notin> (up h)\<^sup>*"
  shows "index_ok (link_heap this child f h) n"
proof -
  let ?r = "up h" and ?h = "link_heap this child f h"
  note facts = link_heap_facts [OF link]
  have ids: "\<And>m. distinct (tracksById (th_node h m)) \<and> set (tracksById (th_node h m)) = {d. (d, m) \<in> ?r\<^sup>+}"
    and uri: "\<And>m u d. tracksByUri (th_node h m) u = Some d \<Longrightarrow> \<exists>c. (c, m) \<in> ?r \<and> uri_entry h c u d"
    using inv by (auto simp: track_inv_def index_ok_def)
  have "set (tracksById (th_node ?h n)) = {d. (d, n) \<in> (insert (child, this) ?r)\<^sup>+}"
    using ids unfolding link_descendants [OF can_link_up [OF link]] facts
    by (auto simp: idx_add_ids rtrancl_eq_or_trancl)
  moreover have "distinct (tracksById (th_node ?h n))" using ids unfolding facts by (simp add: idx_add_ids)
  moreover have "\<exists>c. (c, n) \<in> insert (child, this) ?r \<and> uri_entry ?h c u d"
    if e: "tracksByUri (th_node ?h n) u = Some d" for u d
  proof (cases "(this, n) \<in> ?r\<^sup>* \<and> touched (th_node h child) u")
    case True
    then have d: "d = or_default (tracksByUri (th_node h child) u) child" using e by (simp add: facts)
    show ?thesis
    proof (cases "n = this")
      case here: True
      have "uri_entry ?h child u d"
        using d True link(2) by (auto simp: uri_entry_def facts touched_def or_default_def split: option.splits)
      with here show ?thesis by blast
    next
      case False
      then obtain m where m: "(this, m) \<in> ?r\<^sup>*" "(m, n) \<in> ?r" using True by (auto elim: rtranclE)
      then have "uri_entry ?h m u d" using d True by (simp add: uri_entry_def facts)
      with m show ?thesis by blast
    qed
  next
    case False
    then have "tracksByUri (th_node h n) u = Some d" using e by (simp add: facts split: if_splits)
    from uri [OF this] obtain c where c: "(c, n) \<in> ?r" "uri_entry h c u d" by blast
    then have "\<not> ((this, c) \<in> ?r\<^sup>* \<and> touched (th_node h child) u)"
      using False by (meson rtrancl.rtrancl_into_rtrancl)
    then have "uri_entry ?h c u d" using c(2) by (auto simp: uri_entry_def facts)
    with c show ?thesis by blast
  qed
  ultimately show ?thesis by (simp add: index_ok_def facts)
qed

text \<open>A function that places \<open>child\<close> somewhere among the children.\<close>

definition places :: "nat \<Rightarrow> (nat list \<Rightarrow> nat list) \<Rightarrow> bool" where
  "places child f \<longleftrightarrow>
     (\<forall>cs. distinct cs \<and> child \<notin> set cs \<longrightarrow> distinct (f cs) \<and> set (f cs) = insert child (set cs))"

lemma track_inv_link:
  assumes "track_inv h" and "tn_parent (th_node h child) = None" "(this, child) \<notin> (up h)\<^sup>*"
    and "this < th_next h" "child < th_next h" and "places child f"
  shows "track_inv (link_heap this child f h)"
proof -
  note facts = link_heap_facts [OF assms(2,3)]
  have "forest (link_heap this child f h)"
    using assms link_acyclic [OF can_link_up [OF assms(2,3)]] by (auto simp: track_inv_def forest_def facts)
  moreover have "children_ok (link_heap this child f h) n" for n
  proof -
    have c: "children_ok h m" for m using assms(1) by (simp add: track_inv_def)
    have "child \<notin> set (tn_children (th_node h this))"
      using c [of this] assms(2) by (auto simp: children_ok_def up_iff)
    then show ?thesis
      using c [of n] c [of this] assms(6) by (cases "n = this") (auto simp: children_ok_def facts places_def)
  qed
  ultimately show ?thesis using link_heap_index [OF assms(1-3)] by (simp add: track_inv_def)
qed

lemma filter_absent: "x \<notin> set xs \<Longrightarrow> filter (\<lambda>y. y \<noteq> x) xs = xs"
  by (induction xs) auto

definition detached :: "nat \<Rightarrow> track_heap \<Rightarrow> track_heap" where
  "detached child h = (case tn_parent (th_node h child) of None \<Rightarrow> h | Some p \<Rightarrow> cut_heap p child h)"

lemma detach_detached:
  assumes "track_inv h"
  shows "detach child h = Some (detached child h)" and "track_inv (detached child h)"
    and "tn_parent (th_node (detached child h) child) = None" and "up (detached child h) \<subseteq> up h"
    and "th_next (detached child h) = th_next h" and "sort_key (detached child h) = sort_key h"
    and "tn_children (th_node (detached child h) n) = filter (\<lambda>x. x \<noteq> child) (tn_children (th_node h n))"
proof -
  have c: "children_ok h m" for m using assms by (simp add: track_inv_def)
  have "detach child h = Some (detached child h) \<and> track_inv (detached child h) \<and>
      tn_parent (th_node (detached child h) child) = None \<and> up (detached child h) \<subseteq> up h \<and>
      th_next (detached child h) = th_next h \<and> sort_key (detached child h) = sort_key h \<and>
      tn_children (th_node (detached child h) n) = filter (\<lambda>x. x \<noteq> child) (tn_children (th_node h n))"
  proof (cases "tn_parent (th_node h child)")
    case None
    then have "child \<notin> set (tn_children (th_node h n))" using c [of n] by (auto simp: children_ok_def up_iff)
    with None assms show ?thesis by (simp add: detach_def detached_def filter_absent)
  next
    case (Some p)
    then have e: "(child, p) \<in> up h" by (simp add: up_iff)
    note facts = cut_heap_facts [OF assms e]
    have "tn_parent (th_node (cut_heap p child h) child) = None"
      using facts(3) by (simp add: cut_heap_def th_node_upd_nodes th_node_cut)
    moreover have "tn_children (th_node (cut_heap p child h) n) = filter (\<lambda>x. x \<noteq> child) (tn_children (th_node h n))"
    proof (cases "n = p")
      case False
      then have "child \<notin> set (tn_children (th_node h n))" using c [of n] Some by (auto simp: children_ok_def up_iff)
      then show ?thesis using False facts(8) by (simp add: filter_absent)
    qed (simp add: facts)
    ultimately show ?thesis
      using Some track_inv_removeChild [OF assms e]
      by (auto simp: detach_def detached_def facts sort_key_def fun_eq_iff)
  qed
  then show "detach child h = Some (detached child h)" and "track_inv (detached child h)"
    and "tn_parent (th_node (detached child h) child) = None" and "up (detached child h) \<subseteq> up h"
    and "th_next (detached child h) = th_next h" and "sort_key (detached child h) = sort_key h"
    and "tn_children (th_node (detached child h) n) = filter (\<lambda>x. x \<noteq> child) (tn_children (th_node h n))"
    by blast+
qed

text \<open>Moving \<open>child\<close> below \<open>this\<close> would close a cycle exactly when \<open>this\<close> is in the subtree of \<open>child\<close>.\<close>

definition would_cycle :: "track_heap \<Rightarrow> nat \<Rightarrow> nat \<Rightarrow> bool" where
  "would_cycle h this child \<longleftrightarrow> (this, child) \<in> (up h)\<^sup>*"

lemma adopt_guard:
  "track_inv h \<Longrightarrow> (child = this \<or> this \<in> set (tracksById (th_node h child))) = would_cycle h this child"
  by (auto simp: track_inv_def index_ok_def would_cycle_def rtrancl_eq_or_trancl)

lemma adopt_then_eq:
  assumes inv: "track_inv h" and n: "this < th_next h" "child < th_next h"
  shows "adopt_then this child f h =
    (if would_cycle h this child then Some (Some adopt_error, h)
     else Some (None, link_heap this child f (detached child h)))"
proof (cases "would_cycle h this child")
  case True
  then show ?thesis using adopt_guard [OF inv, of child this] by (auto simp: adopt_then_def adopt_def)
next
  case False
  note d = detach_detached [OF inv, of child]
  have nc: "(this, child) \<notin> (up (detached child h))\<^sup>*"
    using False d(4) rtrancl_mono by (auto simp: would_cycle_def)
  have f: "forest (detached child h)" using d(2) by (simp add: track_inv_def)
  have "adopt this child h = map_option (Pair None) (attach this child (detached child h))"
    using False adopt_guard [OF inv, of child this] d(1) by (auto simp: adopt_def)
  with attach_eq [OF f d(3) nc] n d(5) False show ?thesis by (simp add: adopt_then_def link_heap_def)
qed

lemma adopt_then_inv:
  assumes "track_inv h" and "this < th_next h" "child < th_next h" and "places child f"
    and "adopt_then this child f h = Some (r, h')"
  shows "track_inv h'" and "th_next h' = th_next h"
proof -
  note d = detach_detached [OF assms(1), of child]
  have "(this, child) \<notin> (up (detached child h))\<^sup>*" if "\<not> would_cycle h this child"
    using that d(4) rtrancl_mono by (auto simp: would_cycle_def)
  then show "track_inv h'" and "th_next h' = th_next h"
    using assms adopt_then_eq [OF assms(1-3), of f] d track_inv_link [OF d(2,3) _ _ _ assms(4), of this]
      link_heap_facts(2) [OF d(3)]
    by (auto split: if_splits)
qed

lemma places_simps [simp]:
  "places child (\<lambda>cs. cs @ [child])" "places child (\<lambda>cs. child # cs)"
  by (auto simp: places_def)

lemma insert_places: "places child (insert_before child ref)" "places child (insert_after child ref)"
proof -
  have "set (insert_before child ref cs) = insert child (set cs)"
    "set (insert_after child ref cs) = insert child (set cs)" for cs
    by (induction cs) auto
  moreover from this have "distinct cs \<Longrightarrow> child \<notin> set cs \<Longrightarrow> distinct (insert_before child ref cs)"
    "distinct cs \<Longrightarrow> child \<notin> set cs \<Longrightarrow> distinct (insert_after child ref cs)" for cs
    by (induction cs) auto
  ultimately show "places child (insert_before child ref)" "places child (insert_after child ref)"
    by (simp_all add: places_def)
qed

end
