(* ===== verification/Workspace_Correct.thy ===== *)
theory Workspace_Correct
  imports Track_Node_Correct
begin

text \<open>
  Properties of the track tree and of workspaces over all sequences of operations, and the places where
  the code leaves the tree inconsistent.
\<close>

subsection \<open>Reachable heaps\<close>

lemma track_inv_same:
  assumes inv: "track_inv h" and nxt: "th_next h \<le> th_next h'"
    and same: "\<And>n. tn_parent (th_node h' n) = tn_parent (th_node h n) \<and>
      tn_children (th_node h' n) = tn_children (th_node h n) \<and>
      tracksById (th_node h' n) = tracksById (th_node h n) \<and>
      tracksByUri (th_node h' n) = tracksByUri (th_node h n) \<and> tn_uri (th_node h' n) = tn_uri (th_node h n)"
  shows "track_inv h'"
proof -
  have up: "up h' = up h" using same by (intro up_cong) simp
  have "uri_entry h' c u d = uri_entry h c u d" for c u d
    using same by (simp add: uri_entry_def indexed_uri_def)
  then have "index_ok h' n = index_ok h n" "children_ok h' n = children_ok h n" for n
    using same by (simp_all add: index_ok_def children_ok_def up)
  moreover have "forest h'" using inv nxt unfolding track_inv_def forest_def up by fastforce
  ultimately show ?thesis using inv by (simp add: track_inv_def)
qed

lemma expand_node_same:
  "tn_parent (th_node (expand_node m h) n) = tn_parent (th_node h n) \<and>
   tn_children (th_node (expand_node m h) n) = tn_children (th_node h n) \<and>
   tracksById (th_node (expand_node m h) n) = tracksById (th_node h n) \<and>
   tracksByUri (th_node (expand_node m h) n) = tracksByUri (th_node h n) \<and>
   tn_uri (th_node (expand_node m h) n) = tn_uri (th_node h n) \<and> th_next (expand_node m h) = th_next h"
  by (simp add: expand_node_def call_onExpand_def set_collapsed_def set_node_def)

lemma track_inv_expand: "track_inv h \<Longrightarrow> track_inv (expand_node m h)"
  by (rule track_inv_same [of h]) (simp_all add: expand_node_same)

lemma track_inv_collapse: "track_inv h \<Longrightarrow> track_inv (collapse_node m h)"
  by (rule track_inv_same [of h]) (simp_all add: collapse_node_def set_collapsed_def set_node_def)

lemma track_inv_toggle: "track_inv h \<Longrightarrow> track_inv (toggleCollapsed m h)"
  by (rule track_inv_same [of h])
    (simp_all add: toggleCollapsed_def call_onExpand_def set_collapsed_def set_node_def Let_def)

lemma track_inv_expand_all: "track_inv h \<Longrightarrow> track_inv (fold expand_node ps h)"
  by (induction ps arbitrary: h) (simp_all add: track_inv_expand)

lemma track_inv_workspace: "track_inv h \<Longrightarrow> track_inv (snd (new_workspace h))"
proof -
  assume "track_inv h"
  then have "track_inv (snd (createTrackNode no_args (snd (createTrackNode no_args h))))"
    by (intro track_inv_create)
  then have "track_inv (set_node t own (set_node p own
      ((snd (createTrackNode no_args (snd (createTrackNode no_args h))))\<lparr>th_next := Suc (Suc (Suc (th_next h)))\<rparr>)))"
    if "own = (\<lambda>n. n\<lparr>tn_workspace := i\<rparr>)" for t p i own
    by (rule track_inv_same) (simp_all add: that set_node_def createTrackNode_def)
  then show ?thesis
    by (simp add: new_workspace_def Let_def split_def) (simp add: createTrackNode_def track_inv_expand)
qed

lemma addChild_inv:
  assumes "track_inv h" and "this < th_next h" "child < th_next h"
  shows "addChildLast this child h = Some (r, h') \<Longrightarrow> track_inv h'"
    "addChildFirst this child h = Some (r, h') \<Longrightarrow> track_inv h'"
    "addChildBefore this child ref h = Some (Inr (r, h')) \<Longrightarrow> track_inv h'"
    "addChildAfter this child ref h = Some (Inr (r, h')) \<Longrightarrow> track_inv h'"
    "addChildInOrder this child h = Some (Inr (r, h')) \<Longrightarrow> track_inv h'"
proof -
  note inv = adopt_then_inv(1) [OF assms]
  show last: "addChildLast this child h = Some (r, h') \<Longrightarrow> track_inv h'"
    unfolding addChildLast_def by (rule inv [OF places_simps(1)])
  show "addChildFirst this child h = Some (r, h') \<Longrightarrow> track_inv h'"
    unfolding addChildFirst_def by (rule inv [OF places_simps(2)])
  show before: "addChildBefore this child ref h = Some (Inr (r, h')) \<Longrightarrow> track_inv h'" for ref
    using assms(1) inv [OF insert_places(1)] by (auto simp: addChildBefore_def split: if_splits)
  show "addChildAfter this child ref h = Some (Inr (r, h')) \<Longrightarrow> track_inv h'"
    using assms(1) inv [OF insert_places(2)] by (auto simp: addChildAfter_def split: if_splits)
  show "addChildInOrder this child h = Some (Inr (r, h')) \<Longrightarrow> track_inv h'"
    using last before by (auto simp: addChildInOrder_def split: option.splits)
qed

lemma pin_inv:
  assumes "track_inv h" and "pinnedTracksNode w < th_next h" and "pinTrack w t h = Some h'"
  shows "track_inv h'"
proof -
  let ?a = "pin_args (th_node h t)"
  have "th_next (snd (createTrackNode ?a h)) = Suc (th_next h)" by (simp add: createTrackNode_def)
  with assms addChild_inv(1) [OF track_inv_create [OF assms(1), of ?a], of "pinnedTracksNode w" "th_next h"]
  show ?thesis by (auto simp: pinTrack_def createTrackNode_def)
qed

lemma unpin_inv:
  assumes "track_inv h" and "unpinTrack w t h = Some h'"
  shows "track_inv h'"
proof (cases "find (\<lambda>x. tn_uri (th_node h x) = tn_uri (th_node h t))
    (tn_children (th_node h (pinnedTracksNode w)))")
  case None
  with assms show ?thesis by (simp add: unpinTrack_def)
next
  case (Some x)
  then have "x \<in> set (tn_children (th_node h (pinnedTracksNode w)))"
    by (auto simp: find_Some_iff in_set_conv_nth)
  then have "(x, pinnedTracksNode w) \<in> up h" using assms(1) by (auto simp: track_inv_def children_ok_def)
  from track_inv_removeChild [OF assms(1) this] assms(2) Some show ?thesis by (simp add: unpinTrack_def)
qed

text \<open>All heaps that the public operations other than \<open>clear()\<close> can build.\<close>

inductive track_reach :: "track_heap \<Rightarrow> bool" where
  tr_empty: "track_reach empty_heap"
| tr_create: "track_reach h \<Longrightarrow> track_reach (snd (createTrackNode a h))"
| tr_workspace: "track_reach h \<Longrightarrow> track_reach (snd (new_workspace h))"
| tr_last: "track_reach h \<Longrightarrow> this < th_next h \<Longrightarrow> child < th_next h \<Longrightarrow>
    addChildLast this child h = Some (r, h') \<Longrightarrow> track_reach h'"
| tr_first: "track_reach h \<Longrightarrow> this < th_next h \<Longrightarrow> child < th_next h \<Longrightarrow>
    addChildFirst this child h = Some (r, h') \<Longrightarrow> track_reach h'"
| tr_before: "track_reach h \<Longrightarrow> this < th_next h \<Longrightarrow> child < th_next h \<Longrightarrow>
    addChildBefore this child ref h = Some (Inr (r, h')) \<Longrightarrow> track_reach h'"
| tr_after: "track_reach h \<Longrightarrow> this < th_next h \<Longrightarrow> child < th_next h \<Longrightarrow>
    addChildAfter this child ref h = Some (Inr (r, h')) \<Longrightarrow> track_reach h'"
| tr_in_order: "track_reach h \<Longrightarrow> this < th_next h \<Longrightarrow> child < th_next h \<Longrightarrow>
    addChildInOrder this child h = Some (Inr (r, h')) \<Longrightarrow> track_reach h'"
| tr_remove: "track_reach h \<Longrightarrow> child \<in> set (tn_children (th_node h this)) \<Longrightarrow>
    removeChild this child h = Some h' \<Longrightarrow> track_reach h'"
| tr_expand: "track_reach h \<Longrightarrow> track_reach (expand_node n h)"
| tr_collapse: "track_reach h \<Longrightarrow> track_reach (collapse_node n h)"
| tr_toggle: "track_reach h \<Longrightarrow> track_reach (toggleCollapsed n h)"
| tr_reveal: "track_reach h \<Longrightarrow> reveal n h = Some h' \<Longrightarrow> track_reach h'"
| tr_pin: "track_reach h \<Longrightarrow> pinnedTracksNode w < th_next h \<Longrightarrow> pinTrack w n h = Some h' \<Longrightarrow> track_reach h'"
| tr_unpin: "track_reach h \<Longrightarrow> unpinTrack w n h = Some h' \<Longrightarrow> track_reach h'"

lemma track_reach_inv: "track_reach h \<Longrightarrow> track_inv h"
proof (induction rule: track_reach.induct)
  case (tr_remove h child this h')
  then have "(child, this) \<in> up h" by (auto simp: track_inv_def children_ok_def)
  from track_inv_removeChild [OF tr_remove.IH this] tr_remove.hyps show ?case by simp
next
  case (tr_reveal h n h')
  then show ?case by (auto simp: reveal_def track_inv_expand_all)
qed (auto intro: track_inv_empty track_inv_create track_inv_workspace track_inv_expand track_inv_collapse
    track_inv_toggle addChild_inv pin_inv unpin_inv)

text \<open>
  C19. Through every sequence of creations, insertions, moves, removals, pins and expansions the track
  tree stays consistent: no node is its own ancestor, each node is listed exactly once and exactly
  under its parent, and the id index of each node holds exactly its descendants.
\<close>

theorem track_tree_consistent:
  assumes "track_reach h"
  shows "acyclic (up h) \<and>
    (\<forall>p c. c \<in> set (tn_children (th_node h p)) \<longleftrightarrow> tn_parent (th_node h c) = Some p) \<and>
    (\<forall>p. distinct (tn_children (th_node h p))) \<and>
    (\<forall>n d. getTrackById h n d = Some d \<longleftrightarrow> (d, n) \<in> (up h)\<^sup>+)"
  using track_reach_inv [OF assms]
  by (auto simp: track_inv_def forest_def children_ok_def index_ok_def getTrackById_def up_iff)

text \<open>Three nodes: 0, its child 1, and 2 below 1, the last two with the same URI.\<close>

definition named :: "string \<Rightarrow> track_args" where
  "named u = no_args\<lparr>ta_name := Some u, ta_uri := Some u\<rparr>"

definition three_nodes :: track_heap where
  "three_nodes = snd (createTrackNode (named ''u'') (snd (createTrackNode (named ''u'')
     (snd (createTrackNode (named ''r'') empty_heap)))))"

lemma three_nodes_reach: "track_reach three_nodes"
  unfolding three_nodes_def by (intro tr_create tr_empty)

lemma three_nodes_facts:
  "th_next three_nodes = 3" "tn_parent (th_node three_nodes n) = None" "up three_nodes = {}"
  "tn_children (th_node three_nodes n) = []" "tracksById (th_node three_nodes n) = []"
  "tn_sortOrder (th_node three_nodes n) = None"
  by (simp_all add: three_nodes_def createTrackNode_def named_def no_args_def empty_heap_def fresh_node_def up_def)

theorem track_tree_consistent_witness:
  "acyclic (up three_nodes) \<and> getTrackById three_nodes 0 1 = None"
  using track_tree_consistent [OF three_nodes_reach]
  by (auto simp: getTrackById_def three_nodes_facts)

subsection \<open>Lookups\<close>

lemma forest_wf_down: "forest h \<Longrightarrow> wf (up h)"
  by (rule finite_acyclic_wf) (auto simp: forest_def intro: finite_subset)

lemma uri_index_sound:
  assumes inv: "track_inv h"
  shows "tracksByUri (th_node h n) u = Some d \<Longrightarrow> (d, n) \<in> (up h)\<^sup>+ \<and> tn_uri (th_node h d) = Some u"
proof (induction n rule: wf_induct_rule [OF forest_wf_down])
  show "forest h" using inv by (simp add: track_inv_def)
next
  fix n
  assume IH: "\<And>c. (c, n) \<in> up h \<Longrightarrow> tracksByUri (th_node h c) u = Some d \<Longrightarrow>
      (d, c) \<in> (up h)\<^sup>+ \<and> tn_uri (th_node h d) = Some u"
    and e: "tracksByUri (th_node h n) u = Some d"
  have "index_ok h n" using inv by (simp add: track_inv_def)
  then obtain c where c: "(c, n) \<in> up h" "uri_entry h c u d" using e unfolding index_ok_def by blast
  show "(d, n) \<in> (up h)\<^sup>+ \<and> tn_uri (th_node h d) = Some u"
  proof (cases "tracksByUri (th_node h c) u = Some d")
    case True
    with IH [OF c(1)] c(1) show ?thesis by (auto intro: trancl_into_trancl)
  next
    case False
    with c show ?thesis by (auto simp: uri_entry_def indexed_uri_def split: if_splits)
  qed
qed

lemma siblings_disjoint:
  assumes f: "forest h" and s: "(c, n) \<in> up h" "(c', n) \<in> up h" "c \<noteq> c'"
    and d: "(d, c) \<in> (up h)\<^sup>*"
  shows "(d, c') \<notin> (up h)\<^sup>*"
proof
  have no: "(x, y) \<notin> (up h)\<^sup>*" if xy: "(x, n) \<in> up h" "(y, n) \<in> up h" "x \<noteq> y" for x y
  proof
    assume "(x, y) \<in> (up h)\<^sup>*"
    then obtain z where "(x, z) \<in> up h" "(z, y) \<in> (up h)\<^sup>*" using xy(3) by (meson converse_rtranclE)
    then have "(n, y) \<in> (up h)\<^sup>*" using xy(1) by (simp add: up_iff)
    with xy(2) have "(n, n) \<in> (up h)\<^sup>+" by (meson rtrancl_into_trancl1)
    with f show False by (auto simp: forest_def acyclic_def)
  qed
  assume "(d, c') \<in> (up h)\<^sup>*"
  with d have "(c, c') \<in> (up h)\<^sup>* \<or> (c', c) \<in> (up h)\<^sup>*"
    using single_valued_confluent [OF single_valued_up] by blast
  with no s show False by metis
qed

lemma index_length: "index_ok h n \<Longrightarrow> length (tracksById (th_node h n)) = card (set (tracksById (th_node h n)))"
  unfolding index_ok_def by (metis distinct_card)

lemma index_shrinks:
  assumes inv: "track_inv h" and c: "(c, n) \<in> up h"
  shows "length (tracksById (th_node h c)) < length (tracksById (th_node h n))"
proof -
  have i: "index_ok h m" for m using inv by (simp add: track_inv_def)
  have "(c, c) \<notin> (up h)\<^sup>+" using inv by (auto simp: track_inv_def forest_def acyclic_def)
  moreover have "(c, n) \<in> (up h)\<^sup>+" using c by blast
  moreover have "{d. (d, c) \<in> (up h)\<^sup>+} \<subseteq> {d. (d, n) \<in> (up h)\<^sup>+}" using c by (blast intro: trancl_into_trancl)
  ultimately have "set (tracksById (th_node h c)) \<subset> set (tracksById (th_node h n))"
    using i [of c] i [of n] unfolding index_ok_def by blast
  then have "card (set (tracksById (th_node h c))) < card (set (tracksById (th_node h n)))"
    by (intro psubset_card_mono) auto
  then show ?thesis by (simp only: index_length [OF i])
qed

lemma collectFlatTracks_descendants:
  assumes inv: "track_inv h"
  shows "length (tracksById (th_node h n)) \<le> k \<Longrightarrow>
    distinct (collectFlatTracks k h n) \<and> set (collectFlatTracks k h n) = {d. (d, n) \<in> (up h)\<^sup>+}"
proof (induction k arbitrary: n)
  case 0
  have "index_ok h n" using inv by (simp add: track_inv_def)
  with 0 have "{d. (d, n) \<in> (up h)\<^sup>+} = {}" unfolding index_ok_def by simp
  then show ?case by simp
next
  case (Suc k)
  let ?cs = "tn_children (th_node h n)" and ?sub = "\<lambda>c. c # collectFlatTracks k h c"
  have c: "distinct ?cs" "set ?cs = {c. (c, n) \<in> up h}" and f: "forest h"
    using inv by (auto simp: track_inv_def children_ok_def)
  have sub: "set (?sub c) = {d. (d, c) \<in> (up h)\<^sup>*} \<and> distinct (?sub c)" if "c \<in> set ?cs" for c
  proof -
    have "length (tracksById (th_node h c)) \<le> k"
      using index_shrinks [OF inv, of c n] that c(2) Suc.prems by simp
    moreover have "(c, c) \<notin> (up h)\<^sup>+" using f by (auto simp: forest_def acyclic_def)
    ultimately show ?thesis using Suc.IH [of c] by (auto simp: rtrancl_eq_or_trancl)
  qed
  have "distinct (concat (map ?sub ?cs))"
    unfolding distinct_concat_iff
  proof (intro conjI allI impI)
    have "inj_on ?sub (set ?cs)" by (rule inj_onI) simp
    with c(1) show "distinct (removeAll [] (map ?sub ?cs))" by (simp add: distinct_map distinct_removeAll)
  next
    fix xs assume "xs \<in> set (map ?sub ?cs)"
    with sub show "distinct xs" by force
  next
    fix xs ys assume "xs \<in> set (map ?sub ?cs) \<and> ys \<in> set (map ?sub ?cs) \<and> xs \<noteq> ys"
    then obtain x y where x: "x \<in> set ?cs" "xs = ?sub x" and y: "y \<in> set ?cs" "ys = ?sub y" and "x \<noteq> y" by auto
    then have "(d, x) \<in> (up h)\<^sup>* \<Longrightarrow> (d, y) \<notin> (up h)\<^sup>*" for d
      using siblings_disjoint [OF f, of x n y d] c(2) by blast
    with sub [OF x(1)] sub [OF y(1)] show "set xs \<inter> set ys = {}" unfolding x(2) y(2) by blast
  qed
  moreover have "set (concat (map ?sub ?cs)) = {d. (d, n) \<in> (up h)\<^sup>+}"
  proof -
    have "set (concat (map ?sub ?cs)) = (\<Union>c\<in>set ?cs. set (?sub c))" by simp
    also have "\<dots> = (\<Union>c\<in>set ?cs. {d. (d, c) \<in> (up h)\<^sup>*})" using sub by blast
    also have "\<dots> = {d. (d, n) \<in> (up h)\<^sup>+}"
      unfolding c(2) by (auto dest: tranclD2 intro: rtrancl_into_trancl1)
    finally show ?thesis .
  qed
  ultimately show ?case by simp
qed

text \<open>
  Lookups over a consistent tree: a URI lookup returns a descendant with that URI, and the ordered
  traversal lists every descendant exactly once, as the id index does.
\<close>

theorem track_lookups:
  assumes "track_reach h"
  shows "(\<forall>n u d. getTrackByUri h n u = Some d \<longrightarrow> (d, n) \<in> (up h)\<^sup>+ \<and> tn_uri (th_node h d) = Some u) \<and>
    (\<forall>n. distinct (flatTracksOrdered h n) \<and> distinct (flatTracks h n) \<and>
       set (flatTracksOrdered h n) = {d. (d, n) \<in> (up h)\<^sup>+} \<and> set (flatTracks h n) = {d. (d, n) \<in> (up h)\<^sup>+})"
proof -
  have inv: "track_inv h" by (rule track_reach_inv [OF assms])
  have len: "length (tracksById (th_node h n)) \<le> th_next h"
    and flat: "distinct (flatTracks h n) \<and> set (flatTracks h n) = {d. (d, n) \<in> (up h)\<^sup>+}" for n
  proof -
    have i: "index_ok h n" using inv by (simp add: track_inv_def)
    have "{d. (d, n) \<in> (up h)\<^sup>+} \<subseteq> {..<th_next h}"
      using inv by (auto simp: track_inv_def forest_def dest!: tranclD)
    then have "card (set (tracksById (th_node h n))) \<le> card {..<th_next h}"
      using i by (intro card_mono) (simp_all add: index_ok_def)
    then show "length (tracksById (th_node h n)) \<le> th_next h" by (simp add: index_length [OF i])
    show "distinct (flatTracks h n) \<and> set (flatTracks h n) = {d. (d, n) \<in> (up h)\<^sup>+}"
      using i by (simp add: index_ok_def flatTracks_def)
  qed
  from collectFlatTracks_descendants [OF inv len] flat uri_index_sound [OF inv] show ?thesis
    unfolding getTrackByUri_def flatTracksOrdered_def by blast
qed

theorem track_lookups_witness:
  "flatTracksOrdered three_nodes 0 = []"
  using track_lookups [OF three_nodes_reach] by (simp add: three_nodes_facts)

subsection \<open>Insertion\<close>

lemma option_eq_by_Some: "(\<And>p. x = Some p \<longleftrightarrow> y = Some p) \<Longrightarrow> x = y"
  by (cases y) auto

lemma addChildLast_effect:
  assumes "track_reach h" and "this < th_next h" "child < th_next h"
  shows "if would_cycle h this child then addChildLast this child h = Some (Some adopt_error, h)
    else \<exists>h'. addChildLast this child h = Some (None, h') \<and> track_reach h' \<and>
      tn_children (th_node h' this) = filter (\<lambda>x. x \<noteq> child) (tn_children (th_node h this)) @ [child] \<and>
      (\<forall>n. tn_parent (th_node h' n) = (if n = child then Some this else tn_parent (th_node h n)))"
proof (cases "would_cycle h this child")
  case True
  then show ?thesis using adopt_then_eq [OF track_reach_inv [OF assms(1)] assms(2,3)] by (simp add: addChildLast_def)
next
  case False
  note inv = track_reach_inv [OF assms(1)]
  note d = detach_detached [OF inv, of child]
  let ?h = "link_heap this child (\<lambda>cs. cs @ [child]) (detached child h)"
  have a: "addChildLast this child h = Some (None, ?h)"
    using adopt_then_eq [OF inv assms(2,3)] False by (simp add: addChildLast_def)
  have nc: "(this, child) \<notin> (up (detached child h))\<^sup>*"
    using False d(4) rtrancl_mono by (auto simp: would_cycle_def)
  have u: "up (detached child h) = up h - {(child, p) |p. True}"
  proof (cases "tn_parent (th_node h child)")
    case (Some p)
    then have e: "(child, p) \<in> up h" by (simp add: up_iff)
    have "detached child h = cut_heap p child h" using Some by (simp add: detached_def)
    then have "up (detached child h) = up h - {(child, p)}" using cut_heap_facts(1) [OF inv e] by simp
    moreover have "(child, q) \<in> up h \<Longrightarrow> q = p" for q using Some by (simp add: up_iff)
    ultimately show ?thesis by blast
  qed (auto simp: detached_def up_iff)
  have "tn_parent (th_node ?h n) = (if n = child then Some this else tn_parent (th_node h n))" for n
  proof -
    have "(n, p) \<in> up ?h \<longleftrightarrow> (if n = child then p = this else (n, p) \<in> up h)" for p
      using link_heap_facts(1) [OF d(3) nc] u by auto
    then show ?thesis unfolding up_iff by (intro option_eq_by_Some) auto
  qed
  with a False tr_last [OF assms a] link_heap_facts(7) [OF d(3) nc, of "\<lambda>cs. cs @ [child]"] d(7) show ?thesis
    by auto
qed

text \<open>
  A node is refused as a child exactly when the move would put it below itself, and then nothing
  changes; otherwise it gets its new parent and stands last among the children, wherever it was
  before, and no other node changes its parent.
\<close>

theorem addChildLast_moves:
  assumes "track_reach h" and "this < th_next h" "child < th_next h"
  shows "if would_cycle h this child then addChildLast this child h = Some (Some adopt_error, h)
    else \<exists>h'. addChildLast this child h = Some (None, h') \<and> track_reach h' \<and>
      tn_children (th_node h' this) = filter (\<lambda>x. x \<noteq> child) (tn_children (th_node h this)) @ [child] \<and>
      (\<forall>n. tn_parent (th_node h' n) = (if n = child then Some this else tn_parent (th_node h n)))"
  using assms by (rule addChildLast_effect)

theorem addChildLast_moves_witness:
  "\<exists>h'. addChildLast 0 1 three_nodes = Some (None, h') \<and> tn_children (th_node h' 0) = [1]"
  using addChildLast_moves [OF three_nodes_reach, of 0 1] by (auto simp: three_nodes_facts would_cycle_def)

lemma sorted_insert_before:
  assumes "find (\<lambda>n. k n > k child) cs = Some ref" and "sorted (map k cs)"
  shows "sorted (map k (insert_before child ref cs))"
  using assms
proof (induction cs)
  case (Cons c cs)
  have s: "set (insert_before child ref xs) = insert child (set xs)" for xs by (induction xs) auto
  show ?case
  proof (cases "k c > k child")
    case True
    with Cons.prems show ?thesis by force
  next
    case False
    with Cons.prems(1) have f: "find (\<lambda>n. k n > k child) cs = Some ref" by simp
    then have "k ref > k child" by (auto simp: find_Some_iff)
    with False have "c \<noteq> ref" by auto
    with False Cons.IH [OF f] Cons.prems(2) show ?thesis by (simp add: s)
  qed
qed simp

lemma sorted_insert_last:
  "find (\<lambda>n. k n > k child) cs = None \<Longrightarrow> sorted (map k cs) \<Longrightarrow> sorted (map (k :: nat \<Rightarrow> int) (cs @ [child]))"
  by (auto simp: find_None_iff sorted_append)

lemma find_filter_absent:
  "\<not> P x \<Longrightarrow> find P (filter (\<lambda>y. y \<noteq> x) xs) = find P xs"
  by (induction xs) auto

text \<open>
  \<open>addChildInOrder\<close> keeps children that are sorted by \<open>sortOrder\<close> sorted, for a new child as for one
  that is moved within its parent.
\<close>

theorem addChildInOrder_sorted:
  assumes "track_reach h" and "this < th_next h" "child < th_next h"
    and sorted: "sorted (map (sort_key h) (tn_children (th_node h this)))"
    and add: "addChildInOrder this child h = Some (Inr (None, h'))"
  shows "sorted (map (sort_key h') (tn_children (th_node h' this))) \<and> child \<in> set (tn_children (th_node h' this))"
proof -
  note inv = track_reach_inv [OF assms(1)]
  note d = detach_detached [OF inv, of child]
  let ?k = "sort_key h" and ?cs = "tn_children (th_node h this)"
  let ?P = "\<lambda>n. ?k n > ?k child" and ?cs' = "filter (\<lambda>x. x \<noteq> child) (tn_children (th_node h this))"
  define f where "f = (case find ?P ?cs of Some ref \<Rightarrow> insert_before child ref | None \<Rightarrow> (\<lambda>cs. cs @ [child]))"
  have "adopt_then this child f h = Some (None, h')"
  proof (cases "find ?P ?cs")
    case None
    with add show ?thesis by (auto simp: addChildInOrder_def addChildLast_def f_def)
  next
    case (Some ref)
    then have "?P ref" "ref \<in> set ?cs" by (auto simp: find_Some_iff)
    then show ?thesis using add Some by (auto simp: addChildInOrder_def addChildBefore_def f_def split: if_splits)
  qed
  then have nc: "\<not> would_cycle h this child" and h': "h' = link_heap this child f (detached child h)"
    using adopt_then_eq [OF inv assms(2,3), of f] by (auto simp: adopt_error_def split: if_splits)
  have nc': "(this, child) \<notin> (up (detached child h))\<^sup>*"
    using nc d(4) rtrancl_mono by (auto simp: would_cycle_def)
  have ch: "tn_children (th_node h' this) = f ?cs'" using link_heap_facts(7) [OF d(3) nc'] d(7) h' by simp
  have k: "sort_key h' = ?k"
    using link_heap_facts(4) [OF d(3) nc', of f] d(6) by (simp add: h' sort_key_def fun_eq_iff)
  have find: "find ?P ?cs' = find ?P ?cs" by (rule find_filter_absent) simp
  have s: "sorted (map ?k ?cs')" using sorted by (rule sorted_filter)
  have "child \<in> set (insert_before child ref xs)" for ref xs by (induction xs) auto
  then have "child \<in> set (f ?cs')" by (auto simp: f_def split: option.splits)
  moreover have "sorted (map ?k (f ?cs'))"
    using sorted_insert_before [of ?k child ?cs'] sorted_insert_last [of ?k child ?cs'] s
    by (auto simp: f_def find split: option.splits)
  ultimately show ?thesis by (simp add: ch k)
qed

theorem addChildInOrder_sorted_witness:
  "\<exists>h'. addChildInOrder 0 1 three_nodes = Some (Inr (None, h')) \<and> 1 \<in> set (tn_children (th_node h' 0))"
proof -
  have "addChildInOrder 0 1 three_nodes = map_option Inr (addChildLast 0 1 three_nodes)"
    by (simp add: addChildInOrder_def three_nodes_facts)
  also have "addChildLast 0 1 three_nodes =
      Some (None, link_heap 0 1 (\<lambda>cs. cs @ [1]) (detached 1 three_nodes))"
    using adopt_then_eq [OF track_reach_inv [OF three_nodes_reach], of 0 1]
    by (simp add: addChildLast_def three_nodes_facts would_cycle_def)
  finally have a: "addChildInOrder 0 1 three_nodes =
      Some (Inr (None, link_heap 0 1 (\<lambda>cs. cs @ [1]) (detached 1 three_nodes)))" by simp
  from addChildInOrder_sorted [OF three_nodes_reach _ _ _ a] a show ?thesis by (simp add: three_nodes_facts)
qed

subsection \<open>Parents and visibility\<close>

lemma parent_path_total:
  assumes "forest h"
  shows "\<exists>ps. parent_path h n = Some ps \<and> set ps = {p. (n, p) \<in> (up h)\<^sup>+}"
proof -
  have "wf ((up h)\<inverse>)"
    by (rule finite_acyclic_wf_converse) (use assms in \<open>auto simp: forest_def intro: finite_subset\<close>)
  then show ?thesis
  proof (induction n rule: wf_induct_rule)
    case (less n)
    show ?case
    proof (cases "tn_parent (th_node h n)")
      case None
      then have "{p. (n, p) \<in> (up h)\<^sup>+} = {}" by (auto simp: up_iff dest!: tranclD)
      with None show ?thesis by (simp add: parent_path.simps [of h n])
    next
      case (Some p)
      then have np: "(n, p) \<in> up h" by (simp add: up_iff)
      then obtain ps where "parent_path h p = Some ps" "set ps = {q. (p, q) \<in> (up h)\<^sup>+}" using less by auto
      moreover have "{q. (n, q) \<in> (up h)\<^sup>+} = insert p {q. (p, q) \<in> (up h)\<^sup>+}"
        using above_step [OF single_valued_up np] by (auto simp: rtrancl_eq_or_trancl)
      ultimately show ?thesis using Some by (simp add: parent_path.simps [of h n])
    qed
  qed
qed

lemma expand_all_same:
  "up (fold expand_node ps h) = up h \<and>
   tn_collapsed (th_node (fold expand_node ps h) m) = (tn_collapsed (th_node h m) \<and> m \<notin> set ps)"
proof (induction ps arbitrary: h)
  case (Cons p ps)
  have "up (expand_node p h) = up h" by (rule up_cong) (simp add: expand_node_same)
  moreover have "tn_collapsed (th_node (expand_node p h) m) = (tn_collapsed (th_node h m) \<and> m \<noteq> p)"
    by (auto simp: expand_node_def call_onExpand_def set_collapsed_def set_node_def)
  ultimately show ?case using Cons by simp
qed simp

text \<open>
  \<open>reveal\<close> always returns, expands every ancestor of the node and collapses or expands nothing else, so
  that the node itself is then its closest visible ancestor.
\<close>

theorem reveal_makes_visible:
  assumes "track_reach h"
  shows "\<exists>h'. reveal n h = Some h' \<and> track_reach h' \<and> findClosestVisibleAncestor h' n = Some n \<and>
    (\<forall>m. tn_collapsed (th_node h' m) \<longleftrightarrow> tn_collapsed (th_node h m) \<and> (n, m) \<notin> (up h)\<^sup>+)"
proof -
  have f: "forest h" using track_reach_inv [OF assms] by (simp add: track_inv_def)
  then obtain ps where ps: "parent_path h n = Some ps" "set ps = {p. (n, p) \<in> (up h)\<^sup>+}"
    using parent_path_total by blast
  let ?h = "fold expand_node ps h"
  have r: "reveal n h = Some ?h" using ps(1) by (simp add: reveal_def)
  then have reach: "track_reach ?h" by (rule tr_reveal [OF assms])
  then have "forest ?h" using track_reach_inv by (auto simp: track_inv_def)
  then obtain qs where qs: "parent_path ?h n = Some qs" "set qs = {p. (n, p) \<in> (up h)\<^sup>+}"
    using parent_path_total [of ?h n] by (auto simp: expand_all_same)
  then have "find (\<lambda>m. tn_collapsed (th_node ?h m)) (rev qs) = None"
    by (simp add: find_None_iff expand_all_same ps(2))
  with r reach qs(1) show ?thesis
    by (intro exI [of _ ?h]) (simp add: findClosestVisibleAncestor_def or_default_def expand_all_same ps(2))
qed

theorem reveal_makes_visible_witness:
  "\<exists>h'. reveal 1 three_nodes = Some h' \<and> findClosestVisibleAncestor h' 1 = Some 1"
  using reveal_makes_visible [OF three_nodes_reach, of 1] by blast

subsection \<open>Pinning\<close>

lemma tn_uri_link: "tn_uri (th_node (link_heap this child f h) n) = tn_uri (th_node h n)"
  by (simp add: link_heap_def th_node_set_node th_node_upd_nodes)

text \<open>
  Pinning a track always succeeds: the pinned area gets a copy of the track as its last entry, the track
  counts as pinned afterwards and nothing else in the tree moves.
\<close>

theorem pinTrack_pins:
  assumes "track_reach h" and w: "pinnedTracksNode w < th_next h" and t: "t < th_next h"
  shows "\<exists>h'. pinTrack w t h = Some h' \<and> track_reach h' \<and> hasPinnedTrack w t h' \<and>
    tn_children (th_node h' (pinnedTracksNode w)) = tn_children (th_node h (pinnedTracksNode w)) @ [th_next h] \<and>
    (\<forall>n < th_next h. tn_parent (th_node h' n) = tn_parent (th_node h n))"
proof -
  let ?a = "pin_args (th_node h t)" and ?p = "pinnedTracksNode w" and ?c = "th_next h"
  let ?h = "snd (createTrackNode ?a h)"
  have reach: "track_reach ?h" and inv: "track_inv ?h" "track_inv h"
    using assms(1) tr_create track_reach_inv by blast+
  have n: "th_next ?h = Suc ?c" "th_node ?h ?c = fresh_node ?a" "tn_children (th_node ?h ?p) = tn_children (th_node h ?p)"
    "tn_uri (th_node ?h t) = tn_uri (th_node h t)" "tn_uri (th_node ?h ?c) = tn_uri (th_node h t)"
    using w t by (simp_all add: createTrackNode_def fresh_node_def pin_args_def)
  have "children_ok ?h ?c" "children_ok h ?p" "forest h" using inv by (simp_all add: track_inv_def)
  then have old: "?c \<notin> set (tn_children (th_node h ?p))" and "\<forall>x. (x, ?c) \<notin> up ?h"
    by (auto simp: children_ok_def n fresh_node_def forest_def)
  then have nc: "\<not> would_cycle ?h ?p ?c" using w by (auto simp: would_cycle_def elim: rtranclE)
  let ?h' = "link_heap ?p ?c (\<lambda>cs. cs @ [?c]) ?h"
  have "tn_parent (th_node ?h ?c) = None" by (simp add: n fresh_node_def)
  then have a: "addChildLast ?p ?c ?h = Some (None, ?h')"
    using adopt_then_eq [OF inv(1), of ?p ?c] n(1) w nc by (simp add: addChildLast_def detached_def)
  from addChildLast_effect [OF reach, of ?p ?c] a nc n(1) w
  have e: "track_reach ?h'" "tn_children (th_node ?h' ?p) = filter (\<lambda>x. x \<noteq> ?c) (tn_children (th_node ?h ?p)) @ [?c]"
    "\<And>m. tn_parent (th_node ?h' m) = (if m = ?c then Some ?p else tn_parent (th_node ?h m))" by auto
  have "index_ok ?h' ?p" using track_reach_inv [OF e(1)] by (simp add: track_inv_def)
  moreover have "(?c, ?p) \<in> up ?h'" by (simp add: up_iff e(3))
  ultimately have "?c \<in> set (flatTracks ?h' ?p)" unfolding index_ok_def flatTracks_def by blast
  then have "hasPinnedTrack w t ?h'"
    unfolding hasPinnedTrack_def list_ex_iff tn_uri_link n(4) using n(5) by blast
  moreover have "tn_parent (th_node ?h' m) = tn_parent (th_node h m)" if "m < ?c" for m
    using that e(3) by (simp add: createTrackNode_def)
  moreover have "pinTrack w t h = Some ?h'" using a by (simp add: pinTrack_def createTrackNode_def)
  moreover have "tn_children (th_node ?h' ?p) = tn_children (th_node h ?p) @ [?c]"
    using e(2) old by (simp add: n filter_absent)
  ultimately show ?thesis using e(1) by blast
qed

definition some_workspace :: workspace where
  "some_workspace = \<lparr>ws_title = ''w'', ws_id = 9, ws_userEditable = True, pinnedTracksNode = 0, ws_tracks = 1\<rparr>"

theorem pinTrack_pins_witness:
  "\<exists>h'. pinTrack some_workspace 2 three_nodes = Some h' \<and> hasPinnedTrack some_workspace 2 h'"
  using pinTrack_pins [OF three_nodes_reach, of some_workspace 2] by (auto simp: three_nodes_facts some_workspace_def)

subsection \<open>Where the tree goes wrong\<close>

text \<open>
  \<open>clear()\<close> empties the children and the id index of its own node only: a former child still has the node
  as its parent, every ancestor still finds it by its id, and the node's own URI index still
  returns it.
\<close>

theorem clear_leaves_stale_entries:
  assumes "track_reach h" and c: "c \<in> set (tn_children (th_node h n))" and a: "(n, a) \<in> (up h)\<^sup>+"
  shows "tn_children (th_node (clear_node n h) n) = [] \<and> getTrackById (clear_node n h) n c = None \<and>
    tn_parent (th_node (clear_node n h) c) = Some n \<and> getTrackById (clear_node n h) a c = Some c \<and>
    getTrackByUri (clear_node n h) n u = getTrackByUri h n u"
proof -
  have i: "index_ok h a" "children_ok h n" and f: "forest h"
    using track_reach_inv [OF assms(1)] by (simp_all add: track_inv_def)
  have cn: "(c, n) \<in> up h" using i(2) c by (simp add: children_ok_def)
  then have "(c, a) \<in> (up h)\<^sup>+" using a by (rule trancl_into_trancl2)
  then have "c \<in> set (tracksById (th_node h a))" using i(1) unfolding index_ok_def by blast
  moreover have "a \<noteq> n" using a f by (auto simp: forest_def acyclic_def)
  moreover have "tn_parent (th_node h c) = Some n" "c \<noteq> n"
    using cn f r_into_trancl [OF cn] by (auto simp: up_iff forest_def acyclic_def)
  ultimately show ?thesis by (simp add: clear_node_def getTrackById_def getTrackByUri_def th_node_set_node)
qed

text \<open>Node 1 below node 0, and node 2 below node \<open>p\<close>.\<close>

definition small_tree :: "nat \<Rightarrow> track_heap" where
  "small_tree p = link_heap p 2 (\<lambda>cs. cs @ [2]) (link_heap 0 1 (\<lambda>cs. cs @ [1]) three_nodes)"

lemma small_tree_facts:
  assumes p: "p < 2"
  shows "track_reach (small_tree p)" "up (small_tree p) = {(2, p), (1, 0)}"
    "tn_children (th_node (small_tree 1) 1) = [2]" "1 \<in> set (tn_children (th_node (small_tree p) 0))"
    "tn_uri (th_node (small_tree p) n) = tn_uri (th_node three_nodes n)"
proof -
  let ?h = "link_heap 0 1 (\<lambda>cs. cs @ [1]) three_nodes"
  have n1: "(0, 1) \<notin> (up three_nodes)\<^sup>*" by (simp add: three_nodes_facts)
  have "addChildLast 0 1 three_nodes = Some (None, ?h)"
    using adopt_then_eq [OF track_reach_inv [OF three_nodes_reach], of 0 1]
    by (simp add: addChildLast_def three_nodes_facts would_cycle_def detached_def)
  then have r: "track_reach ?h" by (intro tr_last [OF three_nodes_reach]) (auto simp: three_nodes_facts)
  have "tn_parent (th_node three_nodes 1) = None" by (simp add: three_nodes_facts)
  note f = link_heap_facts [OF this n1, of "\<lambda>cs. cs @ [1]"]
  have u: "up ?h = {(1, 0)}" using f(1) by (simp add: three_nodes_facts)
  have p2: "tn_parent (th_node ?h 2) = None"
  proof (rule ccontr)
    assume "tn_parent (th_node ?h 2) \<noteq> None"
    then obtain q where "(2, q) \<in> up ?h" by (auto simp: up_iff)
    then show False unfolding u by simp
  qed
  have "x < 2" if "(q, x) \<in> {(1, 0)}\<^sup>*" "q < 2" for q x :: nat using that by (induction rule: rtrancl_induct) auto
  then have n2: "(q, 2) \<notin> (up ?h)\<^sup>*" if "q < 2" for q using that u by force
  note g = link_heap_facts [OF p2 n2, of _ "\<lambda>cs. cs @ [2]"]
  show "up (small_tree p) = {(2, p), (1, 0)}" using g(1) [OF p] unfolding small_tree_def u .
  show "tn_children (th_node (small_tree 1) 1) = [2]" "1 \<in> set (tn_children (th_node (small_tree p) 0))"
    using g(7) [of 1] g(7) [OF p] f(7) by (simp_all add: small_tree_def three_nodes_facts)
  show "tn_uri (th_node (small_tree p) n) = tn_uri (th_node three_nodes n)" by (simp add: small_tree_def tn_uri_link)
  have "addChildLast p 2 ?h = Some (None, small_tree p)"
    using adopt_then_eq [OF track_reach_inv [OF r], of p 2] f(2) n2 [OF p] p2 p
    by (simp add: addChildLast_def small_tree_def three_nodes_facts would_cycle_def detached_def)
  then show "track_reach (small_tree p)" by (rule tr_last [OF r, rotated 2]) (use p in \<open>simp_all add: three_nodes_facts f(2) del: One_nat_def\<close>)
qed

theorem clear_leaves_stale_entries_witness:
  "getTrackById (clear_node 1 (small_tree 1)) 0 2 = Some 2 \<and> getTrackById (clear_node 1 (small_tree 1)) 1 2 = None"
proof -
  have "(1, 0) \<in> (up (small_tree 1))\<^sup>+" by (rule r_into_trancl) (simp add: small_tree_facts)
  with clear_leaves_stale_entries [OF small_tree_facts(1), of 1 2 1 0] show ?thesis
    by (simp add: small_tree_facts(3) [of 0] del: One_nat_def)
qed

text \<open>
  The URI index keeps one node per URI: when two descendants of a node share a URI, removing one of them
  makes the URI unknown to the node although the other one is still there.
\<close>

theorem removeChild_hides_same_uri:
  assumes "track_reach h" and c: "c \<in> set (tn_children (th_node h n))"
    and d: "(d, n) \<in> (up h)\<^sup>+" "(d, c) \<notin> (up h)\<^sup>*" and u: "tn_uri (th_node h c) = Some u" "tn_uri (th_node h d) = Some u" "u \<noteq> []"
  shows "\<exists>h'. removeChild n c h = Some h' \<and> getTrackByUri h' n u = None \<and> getTrackById h' n d = Some d \<and>
    tn_uri (th_node h' d) = Some u"
proof -
  note inv = track_reach_inv [OF assms(1)]
  have "children_ok h n" using inv by (simp add: track_inv_def)
  then have cn: "(c, n) \<in> up h" using c by (simp add: children_ok_def)
  note cut = track_inv_removeChild [OF inv cn] and facts = cut_heap_facts [OF inv cn]
  have "touched (th_node h c) u" using u by (simp add: touched_def indexed_uri_def)
  then have gone: "getTrackByUri (cut_heap n c h) n u = None" by (simp add: getTrackByUri_def facts(6))
  have "(d, m) \<in> (up h - {(c, n)})\<^sup>+" if "(d, m) \<in> (up h)\<^sup>+" for m
    using that
  proof (induction rule: trancl_induct)
    case (base y)
    then show ?case using d(2) by auto
  next
    case (step y z)
    then have "y \<noteq> c" using d(2) by (auto simp: trancl_into_rtrancl)
    with step show ?case by (blast intro: trancl_into_trancl)
  qed
  then have "(d, n) \<in> (up (cut_heap n c h))\<^sup>+" using d(1) facts(1) by simp
  moreover have "index_ok (cut_heap n c h) n" using cut(2) by (simp add: track_inv_def)
  ultimately have "getTrackById (cut_heap n c h) n d = Some d" unfolding index_ok_def getTrackById_def by auto
  moreover have "tn_uri (th_node (cut_heap n c h) d) = Some u"
    using u(2) by (cases "d = n"; cases "d = c") (simp_all add: cut_heap_def th_node_upd_nodes cut_def th_node_set_node)
  ultimately show ?thesis using cut(1) gone by simp
qed

theorem removeChild_hides_same_uri_witness:
  "\<exists>h'. removeChild 0 1 (small_tree 0) = Some h' \<and> getTrackByUri h' 0 ''u'' = None \<and> getTrackById h' 0 2 = Some 2"
proof -
  have u: "tn_uri (th_node three_nodes 1) = Some ''u''" "tn_uri (th_node three_nodes 2) = Some ''u''"
    by (simp_all add: three_nodes_def createTrackNode_def named_def no_args_def empty_heap_def fresh_node_def)
  have d: "(2, 0) \<in> (up (small_tree 0))\<^sup>+" by (rule r_into_trancl) (simp add: small_tree_facts)
  have "x \<noteq> 1" if "(2, x) \<in> {(2, 0), (1, 0)}\<^sup>*" for x :: nat using that by (induction rule: rtrancl_induct) auto
  then have "(2, 1) \<notin> (up (small_tree 0))\<^sup>*" by (auto simp: small_tree_facts)
  with removeChild_hides_same_uri [OF small_tree_facts(1), of 0 1 0 2 "''u''"] d u show ?thesis
    by (auto simp: small_tree_facts(4,5) simp del: One_nat_def)
qed

end
