(* ===== verification/Graph_Groups.thy ===== *)
theory Graph_Groups
  imports Graph_Rewiring
begin

text \<open>
  Grouping a selection of query nodes and dissolving the group again. The links of the graph need only agree
  at the selected nodes, so the graph may hold other groups.
\<close>

subsection \<open>Loops over nodes\<close>

lemma shape_group: "shape g' = shape g \<Longrightarrow> group_of (g_node g' n) = group_of (g_node g n)"
  by (simp add: shape_def fun_eq_iff)

lemma shape_id: "shape g' = shape g \<Longrightarrow> nodeId (g_node g' n) = nodeId (g_node g n)"
  by (simp add: shape_def fun_eq_iff)

lemma input_at_set_next [graph_simps]: "input_at (set_next f n g) t s = input_at g t s"
  by (simp add: input_at_def graph_simps split: option.split)

lemma fold_set_next:
  assumes "distinct ss"
  shows "shape (fold (\<lambda>s. set_next (F s) s) ss g) = shape g"
    and "input_at (fold (\<lambda>s. set_next (F s) s) ss g) t r = input_at g t r"
    and "nextNodes (g_node (fold (\<lambda>s. set_next (F s) s) ss g) n) =
      (if n \<in> set ss then F n (nextNodes (g_node g n)) else nextNodes (g_node g n))"
  using assms by (induction ss arbitrary: g) (auto simp: graph_simps)

lemma map_of_map_snd: "map_of (map (\<lambda>(p, s). (p, h s)) cs) q = map_option h (map_of cs q)"
  by (induction cs) auto

lemma replace_input_effect:
  "shape (replace_input a b n g) = shape g" "nextNodes (g_node (replace_input a b n g) m) = nextNodes (g_node g m)"
  "input_at (replace_input a b n g) t s = (if t = n \<and> input_at g t s = Some a then Some b else input_at g t s)"
proof -
  show "shape (replace_input a b n g) = shape g" "nextNodes (g_node (replace_input a b n g) m) = nextNodes (g_node g m)"
    by (simp_all add: replace_input_def graph_simps)
  have "sec_conns (g_node g n) = []" if "secondaryInputs (g_node g n) = None" using that by (simp add: sec_conns_def)
  then show "input_at (replace_input a b n g) t s = (if t = n \<and> input_at g t s = Some a then Some b else input_at g t s)"
    by (cases s; cases "map_of (sec_conns (g_node g n)) (the s)")
      (auto simp: replace_input_def input_at_def graph_simps map_of_map_snd)
qed

lemma fold_replace_input:
  assumes "a \<noteq> b"
  shows "shape (fold (replace_input a b) ns g) = shape g"
    and "nextNodes (g_node (fold (replace_input a b) ns g) m) = nextNodes (g_node g m)"
    and "input_at (fold (replace_input a b) ns g) t s =
      (if t \<in> set ns \<and> input_at g t s = Some a then Some b else input_at g t s)"
  using assms by (induction ns arbitrary: g) (auto simp: replace_input_effect)

lemma distinct_js_set: "distinct (js_set xs)"
  by (simp add: js_set_def distinct_fold_push_new)

lemma set_js_set': "set (js_set xs) = set xs"
  by (simp add: js_set_def set_fold_push_new)

subsection \<open>The selection\<close>

lemma external_inputs_iff:
  assumes "slots_ok g"
  shows "(src, t, port) \<in> set (external_inputs S g inner) \<longleftrightarrow>
    t = inner \<and> input_at g inner port = Some src \<and> nodeId (g_node g src) \<notin> set S"
proof -
  have d: "distinct (map fst (sec_conns (g_node g inner)))" using assms by (simp add: slots_ok_def)
  show ?thesis
    by (cases port) (auto simp: external_inputs_def input_at_def d split: option.splits intro!: image_eqI)
qed

lemma number_ports_ends:
  "(\<lambda>c. (sourceNode c, innerTargetNode c)) ` set (number_ports xs) = (\<lambda>(s, t, p). (s, t)) ` set xs"
proof -
  have "map (\<lambda>c. (sourceNode c, innerTargetNode c)) (number_ports xs) = map (\<lambda>(s, t, p). (s, t)) (map snd (enumerate 0 xs))"
    unfolding number_ports_def map_map by (rule map_cong) auto
  then show ?thesis by (metis map_snd_enumerate set_map)
qed

text \<open>What a successful grouping has found: the group is a new node over one end node.\<close>

definition inputs_linked :: "nat set \<Rightarrow> qgraph \<Rightarrow> bool" where
  "inputs_linked I g \<longleftrightarrow> slots_ok g \<and> (\<forall>t\<in>I. \<forall>x. t \<in> set (nextNodes (g_node g x)) \<longleftrightarrow> feeds g x t)"

definition grouping :: "qgraph \<Rightarrow> nat list \<Rightarrow> nat \<Rightarrow> ext_conn list \<Rightarrow> bool" where
  "grouping g inner e conns \<longleftrightarrow> set inner \<subseteq> {..<g_size g} \<and> e \<in> set inner \<and>
     (\<forall>t\<in>set (nextNodes (g_node g e)). t \<notin> set inner) \<and>
     (\<forall>s t. (s, t) \<in> (\<lambda>c. (sourceNode c, innerTargetNode c)) ` set conns \<longleftrightarrow>
        t \<in> set inner \<and> feeds g s t \<and> s \<notin> set inner)"

lemma createGroup_grouping:
  assumes g: "graph_ok g" "slots_ok g" and all: "set allNodes \<subseteq> {..<g_size g}"
    and r: "createGroupFromSelection nid selected allNodes g = Inr (grp, g1)"
  shows "\<exists>inner e conns q. grouping g inner e conns \<and> set inner = {n \<in> set allNodes. nodeId (g_node g n) \<in> set selected} \<and> grp = g_size g \<and>
    g1 = g\<lparr>g_size := g_size g + 1, g_node := (g_node g)(grp := q)\<rparr> \<and> nextNodes q = nextNodes (g_node g e) \<and>
    group_of q = Some \<lparr>innerNodes = inner, endNode = Some e, externalConnections = conns\<rparr>"
proof -
  define inner where "inner = filter (\<lambda>n. nodeId (g_node g n) \<in> set selected) allNodes"
  define S where "S = map (\<lambda>n. nodeId (g_node g n)) inner"
  define ends where "ends = filter (\<lambda>n. \<not> list_ex (\<lambda>m. nodeId (g_node g m) \<in> set S) (nextNodes (g_node g n))) inner"
  have inner: "set inner \<subseteq> {..<g_size g}" using all by (auto simp: inner_def)
  have ids: "nodeId (g_node g n) \<in> set S \<longleftrightarrow> n \<in> set inner" if "n < g_size g" for n
    using inner that g(1) by (auto simp: S_def graph_ok_def dest: inj_onD)
  have edge: "set (all_edges True g n) \<subseteq> {..<g_size g}" for n using g(1) by (simp add: graph_ok_def)
  from r obtain e where e: "ends = [e]"
    by (auto simp: createGroupFromSelection_def Let_def inner_def S_def ends_def split: if_splits list.splits)
  then have e_in: "e \<in> set inner" and e_end: "\<forall>m\<in>set (nextNodes (g_node g e)). nodeId (g_node g m) \<notin> set S"
    by (auto simp: ends_def filter_eq_Cons_iff list_ex_iff)
  define conns where "conns = number_ports (concat (map (external_inputs S g) inner))"
  define q where "q = (new_GroupNode nid inner (Some e) conns)\<lparr>nextNodes := nextNodes (g_node g e)\<rparr>"
  have outer: "filter (\<lambda>n. nodeId (g_node g n) \<notin> set S) (nextNodes (g_node g e)) = nextNodes (g_node g e)"
    using e_end by (simp add: filter_id_conv)
  have res: "grp = g_size g \<and> g1 = g\<lparr>g_size := g_size g + 1, g_node := (g_node g)(grp := q)\<rparr>"
    using r e unfolding createGroupFromSelection_def Let_def inner_def [symmetric] S_def [symmetric] ends_def [symmetric]
    by (auto simp: outer conns_def q_def split: if_splits)
  have "(s, t) \<in> (\<lambda>c. (sourceNode c, innerTargetNode c)) ` set conns \<longleftrightarrow>
      t \<in> set inner \<and> feeds g s t \<and> s \<notin> set inner" for s t
  proof -
    have "(s, t) \<in> (\<lambda>c. (sourceNode c, innerTargetNode c)) ` set conns \<longleftrightarrow>
        (\<exists>i\<in>set inner. \<exists>p. (s, t, p) \<in> set (external_inputs S g i))"
      unfolding conns_def number_ports_ends by force
    also have "\<dots> \<longleftrightarrow> t \<in> set inner \<and> feeds g s t \<and> nodeId (g_node g s) \<notin> set S"
      by (auto simp: external_inputs_iff [OF g(2)] feeds_def)
    also have "feeds g s t \<Longrightarrow> s < g_size g"
      using edge [of t] inputs_iff_feeds [OF g(2), of s t] by (auto simp: all_edges_def)
    then have "t \<in> set inner \<and> feeds g s t \<and> nodeId (g_node g s) \<notin> set S \<longleftrightarrow>
        t \<in> set inner \<and> feeds g s t \<and> s \<notin> set inner" using ids by blast
    finally show ?thesis .
  qed
  moreover have "t \<notin> set inner" if "t \<in> set (nextNodes (g_node g e))" for t
    using that e_end ids edge [of e] by (auto simp: all_edges_def)
  ultimately have "grouping g inner e conns" using inner e_in by (auto simp: grouping_def)
  moreover have "group_of q = Some \<lparr>innerNodes = inner, endNode = Some e, externalConnections = conns\<rparr>"
    by (simp add: q_def new_GroupNode_def)
  moreover have "nextNodes q = nextNodes (g_node g e)" by (simp add: q_def)
  moreover have "set inner = {n \<in> set allNodes. nodeId (g_node g n) \<in> set selected}" by (simp add: inner_def)
  ultimately show ?thesis using res by blast
qed

lemma feeds_allocated:
  assumes "slots_ok g" "graph_ok g" "feeds g x t"
  shows "x < g_size g"
proof -
  have "set (all_edges True g t) \<subseteq> {..<g_size g}" using assms(2) by (simp add: graph_ok_def)
  then show ?thesis
    using inputs_iff_feeds [OF assms(1), of x t] assms(3) by (auto simp: all_edges_def)
qed

lemma grouping_source:
  assumes "slots_ok g" "graph_ok g" and gr: "grouping g inner e conns" and "x \<in> sourceNode ` set conns"
  shows "x \<notin> set inner \<and> x < g_size g"
proof -
  from assms(4) obtain c where "c \<in> set conns" "x = sourceNode c" by auto
  then have "(x, innerTargetNode c) \<in> (\<lambda>c. (sourceNode c, innerTargetNode c)) ` set conns" by (intro image_eqI) auto
  then have "feeds g x (innerTargetNode c) \<and> x \<notin> set inner" using gr by (simp only: grouping_def) blast
  then show ?thesis using feeds_allocated [OF assms(1,2)] by blast
qed

lemma grouping_target:
  assumes gr: "grouping g inner e conns"
  shows "innerTargetNode ` set conns \<subseteq> set inner"
proof
  fix t assume "t \<in> innerTargetNode ` set conns"
  then obtain c where "c \<in> set conns" "t = innerTargetNode c" by auto
  then have "(sourceNode c, t) \<in> (\<lambda>c. (sourceNode c, innerTargetNode c)) ` set conns" by (intro image_eqI) auto
  then show "t \<in> set inner" using gr by (simp only: grouping_def)
qed

subsection \<open>The round trip\<close>

lemma group_rewiring:
  assumes l: "slots_ok g" and ok: "graph_ok g" and gr: "grouping g inner e conns"
    and grp: "grp = g_size g" and q: "nextNodes q = nextNodes (g_node g e)"
      "group_of q = Some \<lparr>innerNodes = inner, endNode = Some e, externalConnections = conns\<rparr>"
  defines "g1 \<equiv> g\<lparr>g_size := g_size g + 1, g_node := (g_node g)(grp := q)\<rparr>"
  defines "g2 \<equiv> applyGroupRewiring grp g1"
  shows "shape g2 = shape g1"
    and "n \<noteq> grp \<Longrightarrow> input_at g2 n s = (if n \<in> set (nextNodes (g_node g e)) \<and> input_at g n s = Some e
      then Some grp else input_at g n s)"
    and "nextNodes (g_node g2 n) = (if n = grp then nextNodes (g_node g e) else if n = e then []
      else if n \<in> sourceNode ` set conns
        then filter (\<lambda>m. m \<notin> innerTargetNode ` set conns) (nextNodes (g_node g n)) @ [grp] else nextNodes (g_node g n))"
proof -
  define F where "F = (\<lambda>ns. push_new grp (filter (\<lambda>n. n \<notin> innerTargetNode ` set conns) ns))"
  let ?a = "fold (set_next F) (js_set (map sourceNode conns)) g1"
  let ?b = "fold (replace_input e grp) (nextNodes (g_node ?a grp)) ?a"
  have edge: "set (all_edges True g n) \<subseteq> {..<g_size g}" for n using ok by (simp add: graph_ok_def)
  then have fresh: "grp \<notin> set (nextNodes (g_node g n))" for n using grp by (fastforce simp: all_edges_def)
  have src: "s \<noteq> e \<and> s \<noteq> grp" if "s \<in> sourceNode ` set conns" for s
    using grouping_source [OF l ok gr that] gr grp by (auto simp: grouping_def)
  have eg: "e \<noteq> grp" using gr grp by (auto simp: grouping_def)
  have g1n: "g_node g1 m = (if m = grp then q else g_node g m)" for m by (simp add: g1_def)
  note A = fold_set_next [OF distinct_js_set, of "\<lambda>_. F" "map sourceNode conns" g1]
  have nag: "nextNodes (g_node ?a grp) = nextNodes (g_node g e)" using src by (auto simp: A(3) set_js_set' g1n q)
  note B = fold_replace_input [OF eg, of "nextNodes (g_node g e)" ?a]
  have "g_node g1 grp = q" by (simp add: g1_def)
  define P where "P = (\<lambda>n. nodeId (g_node g1 n) \<in> (\<lambda>n. nodeId (g_node g1 n)) ` set inner)"
  have g2: "g2 = set_next (filter P) e ?b"
    using \<open>g_node g1 grp = q\<close> by (simp add: g2_def applyGroupRewiring_def q Let_def F_def P_def)
  show "shape g2 = shape g1" by (simp add: g2 nag graph_simps B(1) A(1))
  show "input_at g2 n s = (if n \<in> set (nextNodes (g_node g e)) \<and> input_at g n s = Some e
      then Some grp else input_at g n s)" if "n \<noteq> grp"
  proof -
    have "input_at g1 n s = input_at g n s" using that by (simp add: input_at_def g1n split: option.split)
    then show ?thesis by (auto simp: g2 nag graph_simps B(3) A(2))
  qed
  have "filter P (nextNodes (g_node g e)) = []"
  proof -
    have "\<not> P m" if "m \<in> set (nextNodes (g_node g e))" for m
    proof
      assume "P m"
      then obtain k where k: "k \<in> set inner" "nodeId (g_node g1 m) = nodeId (g_node g1 k)" by (auto simp: P_def)
      have "m < g_size g" "k < g_size g" using that edge [of e] k(1) gr by (auto simp: all_edges_def grouping_def)
      with k(2) grp ok have "m = k" by (auto simp: g1n graph_ok_def dest: inj_onD)
      with k(1) that gr show False by (auto simp: grouping_def)
    qed
    then show ?thesis by (simp add: filter_empty_conv)
  qed
  moreover have "nextNodes (g_node ?b m) = (if m = grp then nextNodes (g_node g e)
      else if m \<in> sourceNode ` set conns
        then filter (\<lambda>m. m \<notin> innerTargetNode ` set conns) (nextNodes (g_node g m)) @ [grp] else nextNodes (g_node g m))" for m
  proof -
    have "F (nextNodes (g_node g m)) = filter (\<lambda>m. m \<notin> innerTargetNode ` set conns) (nextNodes (g_node g m)) @ [grp]"
      using fresh [of m] by (simp add: F_def push_new_def)
    then show ?thesis unfolding fold_replace_input(2) [OF eg] A(3) using src by (auto simp: set_js_set' g1n q)
  qed
  ultimately show "nextNodes (g_node g2 n) = (if n = grp then nextNodes (g_node g e) else if n = e then []
      else if n \<in> sourceNode ` set conns
        then filter (\<lambda>m. m \<notin> innerTargetNode ` set conns) (nextNodes (g_node g n)) @ [grp] else nextNodes (g_node g n))"
    using src [of e] eg by (auto simp: g2 next_update)
qed

lemma ungroup_effect:
  assumes q: "group_of (g_node g grp) = Some \<lparr>innerNodes = inner, endNode = Some e, externalConnections = conns\<rparr>"
    and ne: "grp \<noteq> e" "e \<notin> sourceNode ` set conns" "grp \<notin> sourceNode ` set conns"
  shows "input_at (ungroupNode grp g) n s =
      (if n \<in> set (nextNodes (g_node g grp)) \<and> input_at g n s = Some grp then Some e else input_at g n s)"
    and "nextNodes (g_node (ungroupNode grp g) n) =
      (if n = e then fold push_new (nextNodes (g_node g grp)) (nextNodes (g_node g e))
       else if n \<in> sourceNode ` set conns
         then fold push_new (map innerTargetNode (filter (\<lambda>c. sourceNode c = n) conns))
           (filter (\<lambda>m. m \<noteq> grp) (nextNodes (g_node g n))) else nextNodes (g_node g n))"
proof -
  let ?F = "\<lambda>s ns. fold push_new (map innerTargetNode (filter (\<lambda>c. sourceNode c = s) conns)) (filter (\<lambda>n. n \<noteq> grp) ns)"
  let ?a = "fold (\<lambda>s. set_next (?F s) s) (js_set (map sourceNode conns)) g"
  note A = fold_set_next [OF distinct_js_set, of ?F "map sourceNode conns" g]
  have nag: "nextNodes (g_node ?a grp) = nextNodes (g_node g grp)" using ne(3) by (auto simp: A(3) set_js_set')
  note B = fold_replace_input [OF ne(1), of "nextNodes (g_node g grp)" ?a]
  have u: "ungroupNode grp g = set_next (fold push_new (nextNodes (g_node g grp))) e
      (fold (replace_input grp e) (nextNodes (g_node g grp)) ?a)"
    by (simp add: ungroupNode_def q Let_def nag B(2))
  show "input_at (ungroupNode grp g) n s =
      (if n \<in> set (nextNodes (g_node g grp)) \<and> input_at g n s = Some grp then Some e else input_at g n s)"
    by (simp add: u graph_simps B(3) A(2))
  show "nextNodes (g_node (ungroupNode grp g) n) =
      (if n = e then fold push_new (nextNodes (g_node g grp)) (nextNodes (g_node g e))
       else if n \<in> sourceNode ` set conns
         then fold push_new (map innerTargetNode (filter (\<lambda>c. sourceNode c = n) conns))
           (filter (\<lambda>m. m \<noteq> grp) (nextNodes (g_node g n))) else nextNodes (g_node g n))"
    using ne(2) by (simp add: u graph_simps B(2) A(3) set_js_set')
qed

lemma group_round_trip:
  assumes g: "graph_ok g" "inputs_linked {n \<in> set allNodes. nodeId (g_node g n) \<in> set selected} g"
    and all: "set allNodes \<subseteq> {..<g_size g}"
    and r: "createGroupFromSelection nid selected allNodes g = Inr (grp, g1)" and n: "n \<noteq> grp"
  shows "input_at (ungroupNode grp (applyGroupRewiring grp g1)) n s = input_at g n s \<and>
    set (nextNodes (g_node (ungroupNode grp (applyGroupRewiring grp g1)) n)) = set (nextNodes (g_node g n))"
proof -
  have ok: "slots_ok g" using g(2) by (simp add: inputs_linked_def)
  obtain inner e conns q where gr: "grouping g inner e conns" and grp: "grp = g_size g"
    and sel: "set inner = {n \<in> set allNodes. nodeId (g_node g n) \<in> set selected}"
    and g1: "g1 = g\<lparr>g_size := g_size g + 1, g_node := (g_node g)(grp := q)\<rparr>" and q: "nextNodes q = nextNodes (g_node g e)"
      "group_of q = Some \<lparr>innerNodes = inner, endNode = Some e, externalConnections = conns\<rparr>"
    using createGroup_grouping [OF g(1) ok all r] by blast
  let ?g2 = "applyGroupRewiring grp g1"
  note R = group_rewiring [OF ok g(1) gr grp q, folded g1]
  have gq: "group_of (g_node ?g2 grp) = Some \<lparr>innerNodes = inner, endNode = Some e, externalConnections = conns\<rparr>"
    using shape_group [OF R(1), of grp] q(2) by (simp add: g1)
  have edge: "set (all_edges True g m) \<subseteq> {..<g_size g}" for m using g(1) by (simp add: graph_ok_def)
  note in_lt = feeds_allocated [OF ok g(1)]
  have pairs: "(x, t) \<in> (\<lambda>c. (sourceNode c, innerTargetNode c)) ` set conns \<longleftrightarrow>
      t \<in> set inner \<and> feeds g x t \<and> x \<notin> set inner" for x t using gr by (simp add: grouping_def)
  have e: "e \<in> set inner" "grp \<noteq> e" using gr grp by (auto simp: grouping_def)
  note gs = grouping_source [OF ok g(1) gr]
  have src: "e \<notin> sourceNode ` set conns" "grp \<notin> sourceNode ` set conns"
    using gs [of e] gs [of grp] e(1) grp by auto
  note U = ungroup_effect [OF gq e(2) src]
  have ng: "nextNodes (g_node ?g2 grp) = nextNodes (g_node g e)" using R(3) [of grp] by simp
  have none: "input_at g n s \<noteq> Some grp" using in_lt [of grp n] grp by (auto simp: feeds_def)
  have "input_at (ungroupNode grp ?g2) n s = input_at g n s"
    using none R(2) [OF n] by (auto simp: U(1) ng)
  moreover have "set (nextNodes (g_node (ungroupNode grp ?g2) n)) = set (nextNodes (g_node g n))"
  proof (cases "n \<in> sourceNode ` set conns")
    case True
    then have ne: "n \<noteq> e" using src by blast
    have T: "innerTargetNode ` {c \<in> set conns. sourceNode c = n} = {t. (n, t) \<in> (\<lambda>c. (sourceNode c, innerTargetNode c)) ` set conns}"
      by (auto simp: image_iff)
    have ninn: "n \<notin> set inner" using gs [OF True] by simp
    have tgt: "innerTargetNode ` set conns \<subseteq> set inner" by (rule grouping_target [OF gr])
    have nx: "t \<in> set (nextNodes (g_node g n)) \<longleftrightarrow> feeds g n t" if "t \<in> set inner" for t
      using g(2) that unfolding inputs_linked_def sel [symmetric] by blast
    have "grp \<notin> set (nextNodes (g_node g n))" using edge [of n] grp by (auto simp: all_edges_def)
    then have "set (nextNodes (g_node (ungroupNode grp ?g2) n)) =
        {t \<in> set inner. feeds g n t} \<union> (set (nextNodes (g_node g n)) - innerTargetNode ` set conns)"
      using True ne n R(3) [of n] ninn by (auto simp: U(2) set_fold_push_new T pairs)
    moreover have "t \<in> set inner" if "t \<in> innerTargetNode ` set conns" for t using that tgt by blast
    moreover have "feeds g n t" if "t \<in> innerTargetNode ` set conns" "t \<in> set (nextNodes (g_node g n))" for t
      using nx [of t] tgt that by blast
    ultimately show ?thesis using nx by blast
  next
    case False
    then show ?thesis using n R(3) [of n] R(3) [of e] e(2) by (auto simp: U(2) ng set_fold_push_new)
  qed
  ultimately show ?thesis by blast
qed

text \<open>
  C33. Dissolving a group right after it was created restores the graph: every other node has exactly the
  inputs it had, on the same slots, and the same set of \<open>nextNodes\<close>. The forward links to the selected nodes have to mirror
  the input slots of these nodes; elsewhere the links are arbitrary, and other groups may exist. (A stale link from an outer
  source to a selected node, which \<open>addConnection\<close> on an occupied slot leaves, is not restored.)
\<close>

theorem ungroup_undoes_group:
  assumes "graph_ok g" "inputs_linked {n \<in> set allNodes. nodeId (g_node g n) \<in> set selected} g"
    and "set allNodes \<subseteq> {..<g_size g}"
    and "createGroupFromSelection nid selected allNodes g = Inr (grp, g1)" and "n \<noteq> grp"
  shows "input_at (ungroupNode grp (applyGroupRewiring grp g1)) n s = input_at g n s \<and>
    set (nextNodes (g_node (ungroupNode grp (applyGroupRewiring grp g1)) n)) = set (nextNodes (g_node g n))"
  using assms by (rule group_round_trip)

theorem ungroup_undoes_group_witness:
  "\<exists>grp g1. createGroupFromSelection ''group'' [show_nat 1, show_nat 2] [0, 1, 2] pipeline = Inr (grp, g1) \<and>
     input_at (ungroupNode grp (applyGroupRewiring grp g1)) 1 None = Some 0"
proof -
  have "ntype (g_node pipeline n) \<noteq> kGroup" for n by (simp add: pipeline_def mk_node_def)
  then obtain grp g1 where r: "createGroupFromSelection ''group'' [show_nat 1, show_nat 2] [0, 1, 2] pipeline = Inr (grp, g1)"
    and "grp = 4" by (simp add: createGroupFromSelection_def pipeline_next Let_def) (simp add: pipeline_def)
  moreover have "set [0, 1, 2] \<subseteq> {..<g_size pipeline}" by (simp add: pipeline_def)
  moreover have "inputs_linked I pipeline" for I
    using linked_onD(1,3,4) [OF pipeline_linked] unfolding inputs_linked_def by blast
  ultimately show ?thesis
    using ungroup_undoes_group [OF pipeline_ok _ _ r, of 1 None] by (auto simp: pipeline_slots)
qed

subsection \<open>The ports of a group\<close>

text \<open>
  After its update, the input slot behind each port of a group holds what the port holds, as long as no
  two ports stand for the same slot and no port leads to the group itself.
\<close>

lemma set_input_effect:
  assumes "port = None \<or> secondaryInputs (g_node g t) \<noteq> None"
  shows "input_at (set_input t port v g) n s = (if n = t \<and> s = port then v else input_at g n s)"
  using assms
  by (cases port; cases v; cases s)
    (auto simp: set_input_def input_at_def graph_simps AList.update_conv' AList.delete_conv')

lemma set_input_other: "n \<noteq> t \<Longrightarrow> g_node (set_input t port v g) n = g_node g n"
  by (simp add: set_input_def set_primary_def set_conns_def upd_node_def split: option.split)

lemma set_source_effect:
  "input_at (set_source n c src g) m s = input_at g m s" "sec_conns (g_node (set_source n c src g) m) = sec_conns (g_node g m)"
  "secondaryInputs (g_node (set_source n c src g) m) = secondaryInputs (g_node g m)"
  by (simp_all add: set_source_def upd_node_def input_at_def sec_conns_def split: option.split)

lemma set_input_secondary: "secondaryInputs (g_node (set_input t port v g) m) = None \<longleftrightarrow> secondaryInputs (g_node g m) = None"
  by (simp add: set_input_def set_primary_def set_conns_def upd_node_def split: option.split)

lemma sync_port_effect:
  assumes "innerTargetPort c = None \<or> secondaryInputs (g_node g (innerTargetNode c)) \<noteq> None" and "innerTargetNode c \<noteq> n"
  shows "input_at (sync_port n c g) m s = (if m = innerTargetNode c \<and> s = innerTargetPort c
      then map_of (sec_conns (g_node g n)) (groupPort c) else input_at g m s)"
    and "sec_conns (g_node (sync_port n c g) n) = sec_conns (g_node g n)"
    and "secondaryInputs (g_node (sync_port n c g) m) = None \<longleftrightarrow> secondaryInputs (g_node g m) = None"
proof -
  have s: "innerTargetPort c = None \<or> secondaryInputs (g_node (set_source n c src g) (innerTargetNode c)) \<noteq> None" for src
    using assms(1) by (simp only: set_source_effect)
  show "input_at (sync_port n c g) m s = (if m = innerTargetNode c \<and> s = innerTargetPort c
      then map_of (sec_conns (g_node g n)) (groupPort c) else input_at g m s)"
    by (cases "map_of (sec_conns (g_node g n)) (groupPort c)")
      (simp_all add: sync_port_def set_input_effect [OF assms(1)] set_input_effect [OF s] set_source_effect)
  show "sec_conns (g_node (sync_port n c g) n) = sec_conns (g_node g n)"
    using assms(2) by (simp add: sync_port_def set_input_other set_source_effect split: option.split)
  show "secondaryInputs (g_node (sync_port n c g) m) = None \<longleftrightarrow> secondaryInputs (g_node g m) = None"
    by (simp add: sync_port_def set_input_secondary set_source_effect split: option.split)
qed

definition ports_apart :: "nat \<Rightarrow> ext_conn list \<Rightarrow> qgraph \<Rightarrow> bool" where
  "ports_apart n cs g \<longleftrightarrow> distinct (map (\<lambda>c. (innerTargetNode c, innerTargetPort c)) cs) \<and>
     (\<forall>c\<in>set cs. innerTargetNode c \<noteq> n \<and> (innerTargetPort c = None \<or> secondaryInputs (g_node g (innerTargetNode c)) \<noteq> None))"

lemma sync_ports_effect:
  assumes "ports_apart n cs g"
  shows "input_at (fold (sync_port n) cs g) m s =
    (case find (\<lambda>c. innerTargetNode c = m \<and> innerTargetPort c = s) cs of
       Some c \<Rightarrow> map_of (sec_conns (g_node g n)) (groupPort c) | None \<Rightarrow> input_at g m s)"
  using assms
proof (induction cs arbitrary: g)
  case (Cons c cs)
  have c: "innerTargetPort c = None \<or> secondaryInputs (g_node g (innerTargetNode c)) \<noteq> None" "innerTargetNode c \<noteq> n"
    using Cons.prems by (simp_all add: ports_apart_def)
  note eff = sync_port_effect [OF c]
  have "ports_apart n cs (sync_port n c g)" using Cons.prems by (simp add: ports_apart_def eff(3))
  note IH = Cons.IH [OF this]
  show ?case
  proof (cases "innerTargetNode c = m \<and> innerTargetPort c = s")
    case True
    have "\<not> (innerTargetNode d = m \<and> innerTargetPort d = s)" if "d \<in> set cs" for d
    proof
      assume "innerTargetNode d = m \<and> innerTargetPort d = s"
      then have "(innerTargetNode c, innerTargetPort c) \<in> (\<lambda>c. (innerTargetNode c, innerTargetPort c)) ` set cs"
        using True that by (intro image_eqI [of _ _ d]) simp_all
      then show False using Cons.prems by (simp add: ports_apart_def)
    qed
    then have "find (\<lambda>c. innerTargetNode c = m \<and> innerTargetPort c = s) cs = None" by (simp add: find_None_iff)
    then show ?thesis using True by (simp add: IH eff(1))
  next
    case False
    then show ?thesis by (auto simp: IH eff(1,2) split: option.split)
  qed
qed simp

lemma group_ports_synced:
  assumes "group_of (g_node g n) = Some i" and "has_update (g_node g n)" and "ports_apart n (externalConnections i) g"
    and "c \<in> set (externalConnections i)"
  shows "input_at (onPrevNodesUpdated n g) (innerTargetNode c) (innerTargetPort c) = getInputNodeAtPort n (groupPort c) g"
proof -
  let ?f = "\<lambda>d. innerTargetNode d = innerTargetNode c \<and> innerTargetPort d = innerTargetPort c"
  have inj: "d = c" if "d \<in> set (externalConnections i)" "?f d" for d
    using assms(3,4) that by (auto simp: ports_apart_def distinct_map dest: inj_onD)
  have "find ?f (externalConnections i) \<noteq> None" using assms(4) by (auto simp: find_None_iff)
  then obtain d where "find ?f (externalConnections i) = Some d" by blast
  moreover from this have "d = c" using inj by (auto simp: find_Some_iff)
  moreover have "ports_apart n (externalConnections i) (g\<lparr>g_updates := g_updates g @ [n]\<rparr>)"
    using assms(3) by (simp add: ports_apart_def)
  ultimately show ?thesis
    using assms(1,2) by (simp add: onPrevNodesUpdated_def Let_def sync_ports_effect getInputNodeAtPort_def sec_conns_def split: option.split)
qed

end
