(* ===== verification/Adb_Msg.thy ===== *)
theory Adb_Msg
  imports Wire_Format
begin

text \<open>
  \<^verbatim>\<open>plugins/dev.perfetto.RecordTraceV2/adb/adb_msg.ts\<close>: the 24-byte header of the ADB protocol, its encoder and
  its parser, with the two checks of the magic number.
\<close>

subsection \<open>\<open>DataView\<close>\<close>

text \<open>\<open>getUint32(off, true)\<close> and the four bytes that \<open>setUint32(off, w, true)\<close> stores.\<close>

definition getUint32 :: "bytes \<Rightarrow> nat \<Rightarrow> u32" where
  "getUint32 bs off = ucast (bs ! off) OR push_bit 8 (ucast (bs ! (off + 1))) OR
     push_bit 16 (ucast (bs ! (off + 2))) OR push_bit 24 (ucast (bs ! (off + 3)))"

definition u32_le :: "u32 \<Rightarrow> bytes" where
  "u32_le w = [ucast w, ucast (drop_bit 8 w), ucast (drop_bit 16 w), ucast (drop_bit 24 w)]"

subsection \<open>Messages\<close>

definition ADB_MSG_SIZE :: nat where
  "ADB_MSG_SIZE = 6 * 4"

record adb_hdr =
  adb_cmd :: string
  arg0 :: nat
  arg1 :: nat
  dataLen :: nat
  dataChecksum :: nat

text \<open>
  The first check compares unsigned numbers (\<open>>>> 0\<close>), the second one the unsigned command with the signed
  result of \<open>^\<close>.
\<close>

definition parseAdbMsgHdr :: "bytes \<Rightarrow> js_error + adb_hdr" where
  "parseAdbMsgHdr dv =
     (if length dv \<noteq> ADB_MSG_SIZE then Inl AssertionFailed
      else
        (let cmdNum = getUint32 dv 0; magic = getUint32 dv 20 in
         if magic \<noteq> cmdNum XOR 0xffffffff then Inl AssertionFailed
         else if uint cmdNum \<noteq> sint (magic XOR 0xffffffff) then Inl AssertionFailed
         else Inr \<lparr>adb_cmd = utf8_decode (take 4 dv), arg0 = unat (getUint32 dv 4), arg1 = unat (getUint32 dv 8),
           dataLen = unat (getUint32 dv 12), dataChecksum = unat (getUint32 dv 16)\<rparr>))"

definition generateChecksum :: "bytes \<Rightarrow> u32" where
  "generateChecksum data = of_nat (sum_list (map unat data))"

text \<open>\<open>cmd.charCodeAt(i)\<close> is \<open>NaN\<close>, stored as 0, past the end of the string.\<close>

definition cmd_byte :: "string \<Rightarrow> nat \<Rightarrow> byte" where
  "cmd_byte cmd i = (if i < length cmd then of_nat (of_char (cmd ! i)) else 0)"

definition encodeAdbMsg :: "string \<Rightarrow> nat \<Rightarrow> nat \<Rightarrow> bytes \<Rightarrow> bool \<Rightarrow> bytes" where
  "encodeAdbMsg cmd a0 a1 data useChecksum =
     (let checksum = (if useChecksum then generateChecksum data else 0);
          c = map (cmd_byte cmd) [0, 1, 2, 3]
      in c @ u32_le (of_nat a0) @ u32_le (of_nat a1) @ u32_le (of_nat (length data)) @ u32_le checksum @
         u32_le (getUint32 c 0 XOR 0xffffffff))"

text \<open>A payload is absent, a string, which is sent with a final zero byte, or an array.\<close>

datatype adb_data = NoData | TextData string | ByteData u8_view

definition whole_view :: "bytes \<Rightarrow> u8_view" where
  "whole_view b = \<lparr>u8_buffer = b, u8_byteOffset = 0, u8_length = length b\<rparr>"

fun encodeAdbData :: "adb_data \<Rightarrow> u8_view" where
  "encodeAdbData NoData = whole_view []"
| "encodeAdbData (TextData s) = whole_view (utf8_encode (s @ [CHR 0x00]))"
| "encodeAdbData (ByteData v) = v"

subsection \<open>The header round trip\<close>

lemma bit_u32_le_bytes:
  fixes w :: u32
  shows "ucast (ucast w :: byte) OR push_bit 8 (ucast (ucast (drop_bit 8 w) :: byte)) OR
    push_bit 16 (ucast (ucast (drop_bit 16 w) :: byte)) OR push_bit 24 (ucast (ucast (drop_bit 24 w) :: byte)) = w"
proof (rule bit_word_eqI)
  fix n assume n: "n < LENGTH(32)"
  then consider "n < 8" | "8 \<le> n" "n < 16" | "16 \<le> n" "n < 24" | "24 \<le> n" "n < 32" by force
  then show "bit ((ucast (ucast w :: byte) :: u32) OR push_bit 8 (ucast (ucast (drop_bit 8 w) :: byte)) OR
      push_bit 16 (ucast (ucast (drop_bit 16 w) :: byte)) OR push_bit 24 (ucast (ucast (drop_bit 24 w) :: byte))) n = bit w n"
    by cases (auto simp: bit_simps)
qed

lemma length_u32_le [simp]: "length (u32_le w) = 4"
  by (simp add: u32_le_def)

lemma getUint32_at:
  assumes "drop off bs = u32_le w @ r"
  shows "getUint32 bs off = w"
proof -
  have "bs ! (off + i) = u32_le w ! i" if "i < 4" for i
  proof -
    have "bs ! (off + i) = drop off bs ! i"
      using that assms by (subst nth_drop) (auto simp: u32_le_def dest: arg_cong [of _ _ length])
    also have "drop off bs ! i = u32_le w ! i" unfolding assms using that by (simp add: nth_append)
    finally show ?thesis .
  qed
  from this [of 0] this [of 1] this [of 2] this [of 3] bit_u32_le_bytes [of w] show ?thesis
    by (simp add: getUint32_def u32_le_def)
qed

lemma xor_mask_twice: "((w :: u32) XOR 0xffffffff) XOR 0xffffffff = w"
  by (simp add: xor.assoc)

text \<open>What the parser sees in an encoded header.\<close>

lemma parse_encoded:
  fixes cmd :: string and a0 a1 :: nat and data :: bytes
  defines "c \<equiv> map (cmd_byte cmd) [0, 1, 2, 3]"
  shows "parseAdbMsgHdr (encodeAdbMsg cmd a0 a1 data ck) =
    (if uint (getUint32 c 0) = sint (getUint32 c 0)
     then Inr \<lparr>adb_cmd = utf8_decode c, arg0 = a0 mod 2 ^ 32, arg1 = a1 mod 2 ^ 32, dataLen = length data mod 2 ^ 32,
       dataChecksum = unat (if ck then generateChecksum data else 0)\<rparr>
     else Inl AssertionFailed)"
proof -
  let ?k = "if ck then generateChecksum data else 0"
  let ?dv = "encodeAdbMsg cmd a0 a1 data ck"
  have dv: "?dv = c @ u32_le (of_nat a0) @ u32_le (of_nat a1) @ u32_le (of_nat (length data)) @ u32_le ?k @
      u32_le (getUint32 c 0 XOR 0xffffffff) @ []" by (simp add: encodeAdbMsg_def c_def Let_def)
  have c4: "length c = 4" by (simp add: c_def)
  have g0: "getUint32 ?dv 0 = getUint32 c 0" unfolding dv by (simp add: getUint32_def c4 nth_append)
  have g: "getUint32 ?dv 4 = of_nat a0" "getUint32 ?dv 8 = of_nat a1" "getUint32 ?dv 12 = of_nat (length data)"
    "getUint32 ?dv 16 = ?k" "getUint32 ?dv 20 = getUint32 c 0 XOR 0xffffffff"
    unfolding dv by (rule getUint32_at; simp add: c4)+
  have "length ?dv = ADB_MSG_SIZE" "take 4 ?dv = c" unfolding dv by (simp_all add: c4 ADB_MSG_SIZE_def)
  then show ?thesis
    by (simp add: parseAdbMsgHdr_def Let_def g0 g xor_mask_twice unat_of_nat)
qed

lemma uint_eq_sint_iff: "uint (w :: u32) = sint w \<longleftrightarrow> \<not> bit w 31"
proof
  assume "uint w = sint w"
  then have "0 \<le> sint w" by (metis uint_ge_0)
  then show "\<not> bit w 31" using bit_last_iff [of w] by simp
next
  assume "\<not> bit w 31"
  then have "0 \<le> sint w" using bit_last_iff [of w] by simp
  moreover have "sint w < 2 ^ 31" using sint_lt [of w] by simp
  ultimately show "uint w = sint w" by (simp add: uint_sint take_bit_int_eq_self)
qed

lemma bit_31_cmd: "bit (getUint32 c 0) 31 \<longleftrightarrow> bit (c ! 3) 7"
proof -
  have "n < 8" if "bit (b :: byte) n" for b n using bit_imp_le_length [OF that] by simp
  from this [of "c ! 0" 31] this [of "c ! Suc 0" 23] this [of "c ! Suc (Suc 0)" 15] show ?thesis
    by (auto simp: getUint32_def bit_simps)
qed

lemma ascii_bytes:
  assumes "length cmd = 4" and "\<forall>ch\<in>set cmd. (of_char ch :: nat) < 128"
  shows "map (cmd_byte cmd) [0, 1, 2, 3] = utf8_encode cmd"
proof -
  obtain a b c d where cmd: "cmd = [a, b, c, d]"
    using assms(1) by (auto simp: numeral_eq_Suc length_Suc_conv)
  with assms(2) show ?thesis by (simp add: cmd cmd_byte_def utf8_encode_def utf8_char_def)
qed

text \<open>
  An encoded ADB header is parsed back to the same command, arguments, length and checksum whenever the
  command consists of four ASCII characters; a command whose fourth byte is 0x80 or more is encoded, but the
  parser rejects its own encoding, because it compares an unsigned with a signed number.
\<close>

theorem adb_header_roundtrip:
  assumes len: "length cmd = 4" and args: "a0 < 2 ^ 32" "a1 < 2 ^ 32" "length data < 2 ^ 32"
  shows "((\<forall>ch\<in>set cmd. (of_char ch :: nat) < 128) \<longrightarrow>
      parseAdbMsgHdr (encodeAdbMsg cmd a0 a1 data ck) =
        Inr \<lparr>adb_cmd = cmd, arg0 = a0, arg1 = a1, dataLen = length data,
          dataChecksum = (if ck then sum_list (map unat data) mod 2 ^ 32 else 0)\<rparr>) \<and>
    ((of_char (cmd ! 3) :: nat) \<ge> 128 \<longrightarrow>
      parseAdbMsgHdr (encodeAdbMsg cmd a0 a1 data ck) = Inl AssertionFailed)"
proof -
  let ?c = "map (cmd_byte cmd) [0, 1, 2, 3]"
  have "bit (of_nat (of_char (cmd ! 3)) :: byte) 7 \<longleftrightarrow> (of_char (cmd ! 3) :: nat) \<ge> 128"
  proof -
    have lt: "(of_char (cmd ! 3) :: nat) < 256" by (rule nat_of_char_less_256)
    have "bit (of_nat (of_char (cmd ! 3)) :: byte) 7 \<longleftrightarrow> odd ((of_char (cmd ! 3) :: nat) div 128)"
      unfolding bit_of_nat_iff by (simp add: bit_iff_odd)
    moreover have "(of_char (cmd ! 3) :: nat) div 128 = 0 \<or> (of_char (cmd ! 3) :: nat) div 128 = 1" using lt by linarith
    ultimately show ?thesis using lt by (auto simp: div_eq_0_iff)
  qed
  then have top: "uint (getUint32 ?c 0) = sint (getUint32 ?c 0) \<longleftrightarrow> (of_char (cmd ! 3) :: nat) < 128"
    using len by (simp add: uint_eq_sint_iff bit_31_cmd cmd_byte_def not_le)
  have "(of_char (cmd ! 3) :: nat) < 128" if "\<forall>ch\<in>set cmd. (of_char ch :: nat) < 128" using that len by simp
  then show ?thesis
    using parse_encoded [of cmd a0 a1 data ck] top ascii_bytes [OF len] args utf8_decode_encode [of cmd]
    by (auto simp: generateChecksum_def unat_of_nat)
qed

theorem adb_header_roundtrip_witness:
  "parseAdbMsgHdr (encodeAdbMsg ''OKAY'' 3 7 [1, 2] True) =
    Inr \<lparr>adb_cmd = ''OKAY'', arg0 = 3, arg1 = 7, dataLen = 2, dataChecksum = 3\<rparr>"
  using adb_header_roundtrip [of "''OKAY''" 3 7 "[1, 2]" True] by simp

end
