(* ===== verification/Adb_Device.thy ===== *)
theory Adb_Device
  imports Adb_Msg
begin

text \<open>
  \<^verbatim>\<open>plugins/dev.perfetto.RecordTraceV2/adb/webusb\<close>: the state machine of an ADB connection over WebUSB
  (\<^verbatim>\<open>adb_webusb_device.ts\<close>) and its streams (\<^verbatim>\<open>adb_webusb_stream.ts\<close>). The USB device is outside: incoming messages
  are arguments, outgoing ones are recorded in \<open>d_sent\<close>. A stream object is identified by its local
  id, which \<open>createStream\<close> never uses twice. A transfer that fails and the dialogs are not modelled.
\<close>

subsection \<open>State\<close>

datatype stream_state = CONNECTED | CLOSING | CLOSED

record adb_stream =
  s_localId :: nat
  s_remoteId :: nat
  s_state :: stream_state

record tx_entry =
  tx_stream :: nat
  tx_data :: u8_view
  tx_promise :: "nat option"

record adb_msg =
  msg_cmd :: string
  msg_arg0 :: nat
  msg_arg1 :: nat
  msg_data :: bytes

type_synonym sent_msg = "string \<times> nat \<times> nat \<times> u8_view"

text \<open>
  \<open>d_obj\<close> holds the stream objects, \<open>d_streams\<close> the keys of the map \<open>streams\<close>. The remaining fields record what
  the clients observe: \<open>d_opened\<close> the results of \<open>createStream\<close>, \<open>d_resolved\<close> the resolved write promises,
  \<open>d_onData\<close> and \<open>d_onClose\<close> the calls of the event handlers.
\<close>

record adb_device =
  lastStreamId :: nat
  d_connected :: bool
  d_obj :: "nat \<Rightarrow> adb_stream"
  d_streams :: "nat list"
  pendingStreams :: "(nat \<times> string) list"
  txQueue :: "tx_entry list"
  txPending :: bool
  maxPayload :: nat
  useChecksum :: bool
  d_sent :: "sent_msg list"
  d_opened :: "nat \<rightharpoonup> string + nat"
  d_promises :: nat
  d_resolved :: "nat list"
  d_onData :: "(nat \<times> bytes) list"
  d_onClose :: "nat list"

definition new_device :: "nat \<Rightarrow> bool \<Rightarrow> adb_device" where
  "new_device maxP ck = \<lparr>lastStreamId = 0, d_connected = True,
     d_obj = (\<lambda>l. \<lparr>s_localId = l, s_remoteId = 0, s_state = CLOSED\<rparr>), d_streams = [], pendingStreams = [],
     txQueue = [], txPending = False, maxPayload = maxP, useChecksum = ck, d_sent = [], d_opened = Map.empty,
     d_promises = 0, d_resolved = [], d_onData = [], d_onClose = []\<rparr>"

subsection \<open>Sending\<close>

text \<open>
  The USB transfers of one message. The payload is sent as \<open>payload.buffer\<close>, the whole buffer under the
  array, and followed by an empty transfer when it fills its packets exactly.
\<close>

definition usb_transfers :: "nat \<Rightarrow> bool \<Rightarrow> sent_msg \<Rightarrow> bytes list" where
  "usb_transfers txPacketSize ck m =
     (case m of (cmd, a0, a1, payload) \<Rightarrow>
        encodeAdbMsg cmd a0 a1 (u8_bytes payload) ck #
        (if u8_length payload > 0
         then u8_buffer payload # (if u8_length payload mod txPacketSize = 0 then [[]] else []) else []))"

definition adb_send :: "string \<Rightarrow> nat \<Rightarrow> nat \<Rightarrow> adb_data \<Rightarrow> adb_device \<Rightarrow> adb_device" where
  "adb_send cmd a0 a1 data d =
     (if \<not> d_connected d then d else d\<lparr>d_sent := d_sent d @ [(cmd, a0, a1, encodeAdbData data)]\<rparr>)"

definition createStream :: "string \<Rightarrow> adb_device \<Rightarrow> nat \<times> adb_device" where
  "createStream svc d =
     (let l = lastStreamId d + 1;
          d1 = d\<lparr>lastStreamId := l, pendingStreams := pendingStreams d @ [(l, svc)]\<rparr>
      in (l, adb_send ''OPEN'' l 0 (TextData svc) d1))"

definition streamWriteFromQueue :: "tx_entry \<Rightarrow> adb_device \<Rightarrow> js_error + adb_device" where
  "streamWriteFromQueue tx d =
     (if txPending d then Inl AssertionFailed
      else Inr (adb_send ''WRTE'' (tx_stream tx) (s_remoteId (d_obj d (tx_stream tx))) (ByteData (tx_data tx))
        (d\<lparr>txPending := True\<rparr>)))"

text \<open>The chunks of a write; \<open>None\<close> is a loop that does not end.\<close>

definition tx_chunk :: "nat \<Rightarrow> u8_view \<Rightarrow> nat \<Rightarrow> nat \<Rightarrow> nat \<Rightarrow> tx_entry" where
  "tx_chunk l raw sent chunkLen promise =
     \<lparr>tx_stream = l, tx_data = u8_subarray raw sent (sent + chunkLen),
       tx_promise = (if sent + chunkLen = u8_length raw then Some promise else None)\<rparr>"

definition queue_tx :: "tx_entry \<Rightarrow> adb_device \<Rightarrow> js_error + adb_device" where
  "queue_tx tx d =
     (let d1 = d\<lparr>txQueue := txQueue d @ [tx]\<rparr>
      in if txPending d1 then Inr d1
         else if length (txQueue d1) \<noteq> 1 then Inl AssertionFailed else streamWriteFromQueue tx d1)"

partial_function (option) write_loop ::
  "nat \<Rightarrow> u8_view \<Rightarrow> nat \<Rightarrow> nat \<Rightarrow> adb_device \<Rightarrow> (js_error + adb_device) option" where
  "write_loop l raw promise sent d =
     (if sent < u8_length raw then
        (let chunkLen = min (maxPayload d) (u8_length raw - sent)
         in case queue_tx (tx_chunk l raw sent chunkLen promise) d of
              Inl e \<Rightarrow> Some (Inl e)
            | Inr d' \<Rightarrow> write_loop l raw promise (sent + chunkLen) d')
      else Some (Inr d))"

definition streamWrite :: "nat \<Rightarrow> u8_view \<Rightarrow> adb_device \<Rightarrow> (js_error + adb_device) option" where
  "streamWrite l raw d = write_loop l raw (d_promises d) 0 (d\<lparr>d_promises := d_promises d + 1\<rparr>)"

subsection \<open>Closing\<close>

definition set_state :: "stream_state \<Rightarrow> nat \<Rightarrow> adb_device \<Rightarrow> adb_device" where
  "set_state s l d = d\<lparr>d_obj := (d_obj d)(l := (d_obj d l)\<lparr>s_state := s\<rparr>)\<rparr>"

definition notifyClose :: "nat \<Rightarrow> adb_device \<Rightarrow> adb_device" where
  "notifyClose l d =
     (if s_state (d_obj d l) = CLOSED then d
      else (set_state CLOSED l d)\<lparr>d_onClose := d_onClose d @ [l]\<rparr>)"

definition streamClose :: "nat \<Rightarrow> adb_device \<Rightarrow> adb_device" where
  "streamClose l d =
     (let d1 = d\<lparr>txQueue := filter (\<lambda>tx. tx_stream tx \<noteq> l) (txQueue d)\<rparr>;
          d2 = adb_send ''CLSE'' l (s_remoteId (d_obj d1 l)) NoData d1
      in notifyClose l (d2\<lparr>d_streams := filter (\<lambda>k. k \<noteq> l) (d_streams d2)\<rparr>))"

definition device_close :: "adb_device \<Rightarrow> adb_device" where
  "device_close d = fold streamClose (d_streams d) (d\<lparr>d_connected := False\<rparr>)"

text \<open>The methods of a stream.\<close>

definition stream_write :: "nat \<Rightarrow> u8_view \<Rightarrow> adb_device \<Rightarrow> (js_error + adb_device) option" where
  "stream_write l raw d = (if s_state (d_obj d l) \<noteq> CONNECTED then Some (Inr d) else streamWrite l raw d)"

definition stream_close :: "nat \<Rightarrow> adb_device \<Rightarrow> adb_device" where
  "stream_close l d =
     (if s_state (d_obj d l) \<noteq> CONNECTED then d else streamClose l (set_state CLOSING l d))"

subsection \<open>Receiving\<close>

fun pop_tx :: "nat \<Rightarrow> nat \<Rightarrow> (nat \<Rightarrow> adb_stream) \<Rightarrow> tx_entry list \<Rightarrow> (tx_entry \<times> tx_entry list) option" where
  "pop_tx l r obj [] = None"
| "pop_tx l r obj (tx # txs) =
     (if tx_stream tx = l \<and> s_remoteId (obj (tx_stream tx)) = r then Some (tx, txs)
      else map_option (\<lambda>(t, ts). (t, tx # ts)) (pop_tx l r obj txs))"

definition popFromTxQueue :: "nat \<Rightarrow> nat \<Rightarrow> adb_device \<Rightarrow> js_error + tx_entry \<times> adb_device" where
  "popFromTxQueue l r d =
     (case pop_tx l r (d_obj d) (txQueue d) of
        Some (tx, q) \<Rightarrow> Inr (tx, d\<lparr>txQueue := q\<rparr>)
      | None \<Rightarrow> Inl (Thrown (''Could not find ADB queue entry L='' @ show_nat l @ '', R='' @ show_nat r @
          '', TxLen='' @ show_nat (length (txQueue d)))))"

definition resolve_write :: "tx_entry \<Rightarrow> adb_device \<Rightarrow> adb_device" where
  "resolve_write tx d = (case tx_promise tx of None \<Rightarrow> d | Some p \<Rightarrow> d\<lparr>d_resolved := d_resolved d @ [p]\<rparr>)"

definition rx_okay :: "nat \<Rightarrow> nat \<Rightarrow> adb_device \<Rightarrow> js_error + adb_device" where
  "rx_okay remote local d =
     (if map_of (pendingStreams d) local \<noteq> None then
        Inr (d\<lparr>pendingStreams := filter (\<lambda>p. fst p \<noteq> local) (pendingStreams d),
          d_obj := (d_obj d)(local := \<lparr>s_localId = local, s_remoteId = remote, s_state = CONNECTED\<rparr>),
          d_streams := (if local \<in> set (d_streams d) then d_streams d else d_streams d @ [local]),
          d_opened := (d_opened d)(local \<mapsto> Inr local)\<rparr>)
      else
        (case popFromTxQueue local remote d of
           Inl e \<Rightarrow> Inl e
         | Inr (tx, d1) \<Rightarrow>
             (let d2 = resolve_write tx (d1\<lparr>txPending := False\<rparr>)
              in case txQueue d2 of [] \<Rightarrow> Inr d2 | nxt # _ \<Rightarrow> streamWriteFromQueue nxt d2)))"

definition rx_wrte :: "nat \<Rightarrow> bytes \<Rightarrow> adb_device \<Rightarrow> adb_device" where
  "rx_wrte local data d =
     (if local \<notin> set (d_streams d) then d
      else (adb_send ''OKAY'' local (s_remoteId (d_obj d local)) NoData d)\<lparr>d_onData := d_onData d @ [(local, data)]\<rparr>)"

definition rx_clse :: "nat \<Rightarrow> adb_device \<Rightarrow> adb_device" where
  "rx_clse local d =
     (case map_of (pendingStreams d) local of
        Some svc \<Rightarrow> d\<lparr>pendingStreams := filter (\<lambda>p. fst p \<noteq> local) (pendingStreams d),
          d_opened := (d_opened d)(local \<mapsto> Inl (''Stream '' @ svc @ '' failed to connect''))\<rparr>
      | None \<Rightarrow>
          (if local \<in> set (d_streams d)
           then notifyClose local (d\<lparr>d_streams := filter (\<lambda>k. k \<noteq> local) (d_streams d)\<rparr>) else d))"

definition usbRxLoopInner :: "adb_msg \<Rightarrow> adb_device \<Rightarrow> js_error + adb_device" where
  "usbRxLoopInner m d =
     (if msg_cmd m = ''OKAY'' then rx_okay (msg_arg0 m) (msg_arg1 m) d
      else if msg_cmd m = ''WRTE'' then Inr (rx_wrte (msg_arg1 m) (msg_data m) d)
      else if msg_cmd m = ''CLSE'' then Inr (rx_clse (msg_arg1 m) d)
      else Inr d)"

text \<open>The receive loop over a sequence of messages: an error ends it and disconnects the device.\<close>

fun usbRxLoop :: "adb_msg list \<Rightarrow> adb_device \<Rightarrow> js_error option \<times> adb_device" where
  "usbRxLoop [] d = (None, d)"
| "usbRxLoop (m # ms) d =
     (if \<not> d_connected d then (None, d)
      else (case usbRxLoopInner m d of
              Inl e \<Rightarrow> (Some e, d\<lparr>d_connected := False\<rparr>)
            | Inr d' \<Rightarrow> usbRxLoop ms d'))"

text \<open>
  \<open>recvMsg\<close> over the results of the incoming transfers (\<open>None\<close> when the status is not \<open>ok\<close>); the result is
  \<open>None\<close> while a transfer is outstanding. Only the beginnings of the two error messages are kept; the rest
  prints the transfer.
\<close>

fun recvMsg :: "bytes option list \<Rightarrow> (js_error + adb_msg \<times> bytes option list) option" where
  "recvMsg [] = None"
| "recvMsg (None # ts) = Some (Inl (Thrown ''res''))"
| "recvMsg (Some hdrData # ts) =
     (if length hdrData \<noteq> ADB_MSG_SIZE then Some (Inl (Thrown ''RX spurious''))
      else (case parseAdbMsgHdr hdrData of
              Inl e \<Rightarrow> Some (Inl e)
            | Inr h \<Rightarrow>
                (let m = \<lparr>msg_cmd = adb_cmd h, msg_arg0 = arg0 h, msg_arg1 = arg1 h, msg_data = []\<rparr>
                 in if dataLen h > 0 then
                      (case ts of
                         [] \<Rightarrow> None
                       | None # _ \<Rightarrow> Some (Inl (Thrown ''res''))
                       | Some payload # ts' \<Rightarrow> Some (Inr (m\<lparr>msg_data := payload\<rparr>, ts')))
                    else Some (Inr (m, ts)))))"

subsection \<open>The handshake\<close>

definition VERSION_WITH_CHECKSUM :: nat where "VERSION_WITH_CHECKSUM = 0x01000000"
definition VERSION_NO_CHECKSUM :: nat where "VERSION_NO_CHECKSUM = 0x01000001"
definition DEFAULT_MAX_PAYLOAD_BYTES :: nat where "DEFAULT_MAX_PAYLOAD_BYTES = 256 * 1024"

definition auth_TOKEN :: nat where "auth_TOKEN = 1"
definition auth_SIGNATURE :: nat where "auth_SIGNATURE = 2"
definition auth_PUBKEY :: nat where "auth_PUBKEY = 3"

type_synonym handshake = "(js_error + string + adb_device) \<times> sent_msg list"

text \<open>
  The loop of \<open>connect\<close> over the incoming messages, with at most \<open>k\<close> attempts left; \<open>sign\<close> and \<open>pubKey\<close> are the
  operations of the key. The result is the device or an error, with the messages sent; \<open>None\<close> is
  a loop that waits for the next message.
\<close>

fun auth_loop ::
  "(bytes \<Rightarrow> bytes) \<Rightarrow> string \<Rightarrow> nat \<Rightarrow> nat \<Rightarrow> adb_msg list \<Rightarrow> sent_msg list \<Rightarrow> handshake option" where
  "auth_loop sign pubKey 0 auths ms out = Some (Inr (Inl ''ADB authorization failed''), out)"
| "auth_loop sign pubKey (Suc k) auths [] out = None"
| "auth_loop sign pubKey (Suc k) auths (m # ms) out =
     (if msg_cmd m = ''CNXN'' then
        (if msg_arg0 m \<noteq> VERSION_WITH_CHECKSUM \<and> msg_arg0 m \<noteq> VERSION_NO_CHECKSUM
         then Some (Inr (Inl (''ADB version '' @ show_nat (msg_arg0 m) @ '' not supported'')), out)
         else Some (Inr (Inr (new_device (msg_arg1 m) (msg_arg0 m = VERSION_WITH_CHECKSUM))), out))
      else if msg_cmd m \<noteq> ''AUTH'' then auth_loop sign pubKey k auths ms out
      else if msg_arg0 m \<noteq> auth_TOKEN then Some (Inl AssertionFailed, out)
      else if auths = 0 then auth_loop sign pubKey k 1 ms
        (out @ [(''AUTH'', auth_SIGNATURE, 0, whole_view (sign (msg_data m)))])
      else if auths = 1 then auth_loop sign pubKey k 2 ms
        (out @ [(''AUTH'', auth_PUBKEY, 0, encodeAdbData (TextData pubKey))])
      else Some (Inr (Inl ''ADB authorization failed''), out))"

definition adb_connect :: "(bytes \<Rightarrow> bytes) \<Rightarrow> string \<Rightarrow> adb_msg list \<Rightarrow> handshake option" where
  "adb_connect sign pubKey ms =
     auth_loop sign pubKey 10 0 ms
       [(''CNXN'', VERSION_NO_CHECKSUM, DEFAULT_MAX_PAYLOAD_BYTES, encodeAdbData (TextData ''host:1:WebUsb''))]"

end
