(* ===== verification/Adb_Correct.thy ===== *)
theory Adb_Correct
  imports Adb_Device
begin

text \<open>
  Correctness of the write queue of an ADB connection. At most one \<open>WRTE\<close> is in flight: the head of
  \<open>txQueue\<close>. The run relation \<open>tx_run\<close> interleaves writes, acknowledgements, streams being opened and closed and
  data from the device in any order; a reachable state is described exactly by the writes made so
  far and the number of acknowledgements. The last section shows what happens outside those runs.
\<close>

subsection \<open>The chunks of a write\<close>

function write_chunks :: "nat \<Rightarrow> nat \<Rightarrow> u8_view \<Rightarrow> nat \<Rightarrow> nat \<Rightarrow> tx_entry list" where
  "write_chunks maxP l raw promise sent =
     (if 0 < maxP \<and> sent < u8_length raw then
        (let chunkLen = min maxP (u8_length raw - sent)
         in tx_chunk l raw sent chunkLen promise # write_chunks maxP l raw promise (sent + chunkLen))
      else [])"
  by pat_completeness auto
termination by (relation "measure (\<lambda>(m, l, raw, p, s). u8_length raw - s)") auto

declare write_chunks.simps [simp del]

lemma write_chunks_step:
  "0 < maxP \<Longrightarrow> sent < u8_length raw \<Longrightarrow> write_chunks maxP l raw p sent =
     tx_chunk l raw sent (min maxP (u8_length raw - sent)) p #
     write_chunks maxP l raw p (sent + min maxP (u8_length raw - sent))"
  by (subst write_chunks.simps) (simp add: Let_def)

lemma write_chunks_end [simp]: "u8_length raw \<le> sent \<Longrightarrow> write_chunks maxP l raw p sent = []"
  by (subst write_chunks.simps) simp

lemma tx_chunk_sel [simp]:
  "tx_stream (tx_chunk l raw s c p) = l"
  "tx_promise (tx_chunk l raw s c p) = (if s + c = u8_length raw then Some p else None)"
  by (simp_all add: tx_chunk_def)

lemma tx_chunk_data:
  assumes "s + c \<le> u8_length raw"
  shows "u8_length (tx_data (tx_chunk l raw s c p)) = c"
    and "u8_bytes (tx_data (tx_chunk l raw s c p)) = take c (drop s (u8_bytes raw))"
  using assms by (simp_all add: tx_chunk_def u8_subarray_def u8_bytes_def Let_def min_def drop_take add.commute)

lemma write_chunks_stream: "tx \<in> set (write_chunks maxP l raw p s) \<Longrightarrow> tx_stream tx = l"
proof (induction maxP l raw p s rule: write_chunks.induct)
  case (1 maxP l raw p s)
  then show ?case by (subst (asm) (2) write_chunks.simps) (auto simp: Let_def split: if_splits)
qed

lemma write_chunks_len: "tx \<in> set (write_chunks maxP l raw p s) \<Longrightarrow> u8_length (tx_data tx) \<le> maxP"
proof (induction maxP l raw p s rule: write_chunks.induct)
  case (1 maxP l raw p s)
  then show ?case
    by (subst (asm) (2) write_chunks.simps) (auto simp: Let_def tx_chunk_data split: if_splits)
qed

lemma write_chunks_bytes:
  assumes "0 < maxP"
  shows "concat (map (\<lambda>tx. u8_bytes (tx_data tx)) (write_chunks maxP l raw p s)) = drop s (u8_bytes raw)"
  using assms
proof (induction maxP l raw p s rule: write_chunks.induct)
  case (1 maxP l raw p s)
  show ?case
  proof (cases "s < u8_length raw")
    case True
    let ?c = "min maxP (u8_length raw - s)"
    have "concat (map (\<lambda>tx. u8_bytes (tx_data tx)) (write_chunks maxP l raw p (s + ?c))) = drop (s + ?c) (u8_bytes raw)"
      using 1 True by simp
    then show ?thesis
      using write_chunks_step [OF 1(2) True, of l p] True append_take_drop_id [of ?c "drop s (u8_bytes raw)"]
      by (simp add: tx_chunk_data add.commute)
  qed (simp add: u8_bytes_def)
qed

subsection \<open>The loop of a write\<close>

definition wrte_msg :: "adb_device \<Rightarrow> tx_entry \<Rightarrow> sent_msg" where
  "wrte_msg d tx = (''WRTE'', tx_stream tx, s_remoteId (d_obj d (tx_stream tx)), tx_data tx)"

definition enqueue :: "tx_entry list \<Rightarrow> adb_device \<Rightarrow> adb_device" where
  "enqueue txs d = d\<lparr>txQueue := txQueue d @ txs, txPending := txQueue d @ txs \<noteq> [],
     d_sent := d_sent d @ (if txQueue d = [] then map (wrte_msg d) (take 1 txs) else [])\<rparr>"

lemma enqueue_Nil: "txPending d = (txQueue d \<noteq> []) \<Longrightarrow> enqueue [] d = d"
  by (simp add: enqueue_def)

lemma enqueue_append: "enqueue ys (enqueue xs d) = enqueue (xs @ ys) d"
  by (cases xs) (simp_all add: enqueue_def wrte_msg_def [abs_def])

lemma queue_tx_enqueue:
  assumes "txPending d = (txQueue d \<noteq> [])" and "d_connected d"
  shows "queue_tx tx d = Inr (enqueue [tx] d)"
  using assms
  by (simp add: queue_tx_def enqueue_def streamWriteFromQueue_def adb_send_def wrte_msg_def Let_def)

lemma enqueue_sel [simp]:
  "txQueue (enqueue txs d) = txQueue d @ txs"
  "txPending (enqueue txs d) = (txQueue d @ txs \<noteq> [])"
  "d_connected (enqueue txs d) = d_connected d" "maxPayload (enqueue txs d) = maxPayload d"
  "d_obj (enqueue txs d) = d_obj d" "d_resolved (enqueue txs d) = d_resolved d"
  "pendingStreams (enqueue txs d) = pendingStreams d" "lastStreamId (enqueue txs d) = lastStreamId d"
  "d_sent (enqueue txs d) = d_sent d @ (if txQueue d = [] then map (wrte_msg d) (take 1 txs) else [])"
  by (simp_all add: enqueue_def)

lemma write_loop_enqueue:
  assumes "0 < maxPayload d" and "txPending d = (txQueue d \<noteq> [])" and "d_connected d"
  shows "write_loop l raw p s d = Some (Inr (enqueue (write_chunks (maxPayload d) l raw p s) d))"
  using assms
proof (induction "u8_length raw - s" arbitrary: s d rule: less_induct)
  case less
  show ?case
  proof (cases "s < u8_length raw")
    case True
    let ?c = "min (maxPayload d) (u8_length raw - s)"
    let ?t = "tx_chunk l raw s ?c p"
    have "write_loop l raw p s d = write_loop l raw p (s + ?c) (enqueue [?t] d)"
      using True less.prems by (subst write_loop.simps) (simp add: Let_def queue_tx_enqueue)
    also have "\<dots> = Some (Inr (enqueue (write_chunks (maxPayload d) l raw p (s + ?c)) (enqueue [?t] d)))"
      using less.hyps [of "s + ?c" "enqueue [?t] d"] less.prems True by simp
    finally show ?thesis
      using write_chunks_step [OF less.prems(1) True, of l p] by (simp add: enqueue_append)
  next
    case False
    then show ?thesis using less.prems by (subst write_loop.simps) (simp add: enqueue_Nil)
  qed
qed

subsection \<open>Runs\<close>

definition OKAY_msg :: "nat \<Rightarrow> nat \<Rightarrow> adb_msg" where
  "OKAY_msg remote local = \<lparr>msg_cmd = ''OKAY'', msg_arg0 = remote, msg_arg1 = local, msg_data = []\<rparr>"

text \<open>
  \<open>tx_run d0 ws n d\<close>: from \<open>d0\<close> the device reaches \<open>d\<close> by the effective writes \<open>ws\<close> (stream, data, promise) and \<open>n\<close>
  acknowledgements. The remote side acknowledges only the chunk in flight; a stream is closed
  locally only when it has nothing queued.
\<close>

inductive tx_run :: "adb_device \<Rightarrow> (nat \<times> u8_view \<times> nat) list \<Rightarrow> nat \<Rightarrow> adb_device \<Rightarrow> bool" for d0 where
  idle: "tx_run d0 [] 0 d0"
| written: "tx_run d0 ws n d \<Longrightarrow> stream_write l raw d = Some (Inr d') \<Longrightarrow>
    tx_run d0 (ws @ (if s_state (d_obj d l) = CONNECTED then [(l, raw, d_promises d)] else [])) n d'"
| acked: "tx_run d0 ws n d \<Longrightarrow> txQueue d = tx # q \<Longrightarrow>
    usbRxLoopInner (OKAY_msg (s_remoteId (d_obj d (tx_stream tx))) (tx_stream tx)) d = Inr d' \<Longrightarrow>
    tx_run d0 ws (Suc n) d'"
| requested: "tx_run d0 ws n d \<Longrightarrow> tx_run d0 ws n (snd (createStream svc d))"
| opened: "tx_run d0 ws n d \<Longrightarrow> map_of (pendingStreams d) l \<noteq> None \<Longrightarrow>
    usbRxLoopInner (OKAY_msg r l) d = Inr d' \<Longrightarrow> tx_run d0 ws n d'"
| received: "tx_run d0 ws n d \<Longrightarrow> msg_cmd m \<noteq> ''OKAY'' \<Longrightarrow> usbRxLoopInner m d = Inr d' \<Longrightarrow> tx_run d0 ws n d'"
| closed: "tx_run d0 ws n d \<Longrightarrow> list_all (\<lambda>tx. tx_stream tx \<noteq> l) (txQueue d) \<Longrightarrow>
    tx_run d0 ws n (stream_close l d)"

text \<open>The specification: all chunks in the order of the writes, and the \<open>WRTE\<close> messages sent.\<close>

definition tx_entries :: "nat \<Rightarrow> (nat \<times> u8_view \<times> nat) list \<Rightarrow> tx_entry list" where
  "tx_entries maxP ws = concat (map (\<lambda>(l, raw, p). write_chunks maxP l raw p 0) ws)"

definition wrte_sent :: "adb_device \<Rightarrow> sent_msg list" where
  "wrte_sent d = filter (\<lambda>m. fst m = ''WRTE'') (d_sent d)"

definition was_opened :: "adb_device \<Rightarrow> nat \<Rightarrow> bool" where
  "was_opened d l \<longleftrightarrow> l \<le> lastStreamId d \<and> map_of (pendingStreams d) l = None"

definition queue_inv :: "nat \<Rightarrow> tx_entry list \<Rightarrow> nat \<Rightarrow> adb_device \<Rightarrow> bool" where
  "queue_inv maxP all n d \<longleftrightarrow> maxPayload d = maxP \<and> d_connected d \<and> n \<le> length all \<and> txQueue d = drop n all \<and>
     txPending d = (n < length all) \<and> wrte_sent d = map (wrte_msg d) (take (Suc n) all) \<and>
     d_resolved d = List.map_filter tx_promise (take n all)"

definition stream_inv :: "tx_entry list \<Rightarrow> adb_device \<Rightarrow> bool" where
  "stream_inv all d \<longleftrightarrow> (\<forall>tx\<in>set all. was_opened d (tx_stream tx)) \<and>
     (\<forall>l. s_state (d_obj d l) = CONNECTED \<longrightarrow> was_opened d l) \<and>
     (\<forall>(l, svc)\<in>set (pendingStreams d). l \<le> lastStreamId d)"

definition tx_inv :: "nat \<Rightarrow> tx_entry list \<Rightarrow> nat \<Rightarrow> adb_device \<Rightarrow> bool" where
  "tx_inv maxP all n d \<longleftrightarrow> queue_inv maxP all n d \<and> stream_inv all d"

lemma tx_inv_new: "tx_inv maxP [] 0 (new_device maxP ck)"
  by (simp add: tx_inv_def queue_inv_def stream_inv_def new_device_def wrte_sent_def List.map_filter_def)

text \<open>Steps that leave the queue alone.\<close>

lemma tx_inv_frame:
  assumes inv: "tx_inv maxP all n d"
    and same: "maxPayload d' = maxPayload d" "d_connected d' = d_connected d" "txQueue d' = txQueue d"
      "txPending d' = txPending d" "wrte_sent d' = wrte_sent d" "d_resolved d' = d_resolved d"
    and op: "\<And>l. was_opened d l \<Longrightarrow> was_opened d' l \<and> s_remoteId (d_obj d' l) = s_remoteId (d_obj d l)"
    and con: "\<And>l. s_state (d_obj d' l) = CONNECTED \<Longrightarrow> was_opened d' l"
    and pend: "\<And>l svc. (l, svc) \<in> set (pendingStreams d') \<Longrightarrow> l \<le> lastStreamId d'"
  shows "tx_inv maxP all n d'"
proof -
  have "wrte_msg d' tx = wrte_msg d tx" if "tx \<in> set (take (Suc n) all)" for tx
    using inv op that by (auto simp: tx_inv_def stream_inv_def wrte_msg_def dest: in_set_takeD)
  then have "map (wrte_msg d') (take (Suc n) all) = map (wrte_msg d) (take (Suc n) all)" by simp
  with assms show ?thesis by (auto simp: tx_inv_def queue_inv_def stream_inv_def)
qed

lemma wrte_sent_adb_send:
  "d_connected d \<Longrightarrow> wrte_sent (adb_send c a0 a1 x d) =
     wrte_sent d @ (if c = ''WRTE'' then [(''WRTE'', a0, a1, encodeAdbData x)] else [])"
  by (simp add: adb_send_def wrte_sent_def)

lemma adb_send_sel [simp]:
  "maxPayload (adb_send c a0 a1 x d) = maxPayload d" "d_connected (adb_send c a0 a1 x d) = d_connected d"
  "txQueue (adb_send c a0 a1 x d) = txQueue d" "txPending (adb_send c a0 a1 x d) = txPending d"
  "d_resolved (adb_send c a0 a1 x d) = d_resolved d" "d_obj (adb_send c a0 a1 x d) = d_obj d"
  "pendingStreams (adb_send c a0 a1 x d) = pendingStreams d" "lastStreamId (adb_send c a0 a1 x d) = lastStreamId d"
  "d_streams (adb_send c a0 a1 x d) = d_streams d" "d_onClose (adb_send c a0 a1 x d) = d_onClose d"
  by (simp_all add: adb_send_def)

lemma map_of_filter_key: "map_of (filter (\<lambda>p. fst p \<noteq> l) ps) k = (if k = l then None else map_of ps k)"
  by (induction ps) auto

lemma tx_inv_createStream:
  assumes inv: "tx_inv maxP all n d"
  shows "tx_inv maxP all n (snd (createStream svc d))"
proof (rule tx_inv_frame [OF inv])
  let ?d = "snd (createStream svc d)"
  have "d_connected d" using inv by (simp add: tx_inv_def queue_inv_def)
  then show "wrte_sent ?d = wrte_sent d"
    by (simp add: createStream_def Let_def wrte_sent_adb_send) (simp add: wrte_sent_def)
  show op: "was_opened ?d l \<and> s_remoteId (d_obj ?d l) = s_remoteId (d_obj d l)" if "was_opened d l" for l
    using that by (auto simp: was_opened_def createStream_def Let_def map_add_def)
  show "was_opened ?d l" if "s_state (d_obj ?d l) = CONNECTED" for l
    using that inv op [of l] by (simp add: tx_inv_def stream_inv_def createStream_def Let_def)
  show "l \<le> lastStreamId ?d" if "(l, x) \<in> set (pendingStreams ?d)" for l x
    using that inv by (auto simp: tx_inv_def stream_inv_def createStream_def Let_def)
qed (simp_all add: createStream_def Let_def)

lemma tx_inv_opened:
  assumes inv: "tx_inv maxP all n d" and pend: "map_of (pendingStreams d) l \<noteq> None"
  shows "\<exists>d'. usbRxLoopInner (OKAY_msg r l) d = Inr d' \<and> tx_inv maxP all n d'"
proof -
  define d' where "d' = d\<lparr>pendingStreams := filter (\<lambda>p. fst p \<noteq> l) (pendingStreams d),
      d_obj := (d_obj d)(l := \<lparr>s_localId = l, s_remoteId = r, s_state = CONNECTED\<rparr>),
      d_streams := (if l \<in> set (d_streams d) then d_streams d else d_streams d @ [l]),
      d_opened := (d_opened d)(l \<mapsto> Inr l)\<rparr>"
  have l: "l \<le> lastStreamId d" using inv pend by (auto simp: tx_inv_def stream_inv_def dest: map_of_SomeD)
  have "tx_inv maxP all n d'"
  proof (rule tx_inv_frame [OF inv])
    show op: "was_opened d' k \<and> s_remoteId (d_obj d' k) = s_remoteId (d_obj d k)" if "was_opened d k" for k
      using that pend by (auto simp: was_opened_def d'_def map_of_filter_key)
    show "was_opened d' k" if "s_state (d_obj d' k) = CONNECTED" for k
      using that inv op [of k] l
      by (cases "k = l") (simp_all add: tx_inv_def stream_inv_def d'_def was_opened_def map_of_filter_key)
    show "k \<le> lastStreamId d'" if "(k, x) \<in> set (pendingStreams d')" for k x
      using that inv by (auto simp: tx_inv_def stream_inv_def d'_def)
  qed (simp_all add: d'_def wrte_sent_def)
  then show ?thesis using pend by (simp add: usbRxLoopInner_def OKAY_msg_def rx_okay_def d'_def)
qed

lemma notifyClose_sel [simp]:
  "maxPayload (notifyClose l d) = maxPayload d" "d_connected (notifyClose l d) = d_connected d"
  "txQueue (notifyClose l d) = txQueue d" "txPending (notifyClose l d) = txPending d"
  "d_resolved (notifyClose l d) = d_resolved d" "pendingStreams (notifyClose l d) = pendingStreams d"
  "lastStreamId (notifyClose l d) = lastStreamId d" "d_sent (notifyClose l d) = d_sent d"
  "s_remoteId (d_obj (notifyClose l d) k) = s_remoteId (d_obj d k)"
  "s_state (d_obj (notifyClose l d) k) = (if k = l then CLOSED else s_state (d_obj d k))"
  by (simp_all add: notifyClose_def set_state_def)

lemma tx_inv_notifyClose:
  assumes inv: "tx_inv maxP all n d" shows "tx_inv maxP all n (notifyClose l d)"
  by (rule tx_inv_frame [OF inv], use inv in \<open>auto simp: wrte_sent_def was_opened_def tx_inv_def stream_inv_def split: if_splits\<close>)

lemma tx_inv_set_streams: "tx_inv maxP all n (d\<lparr>d_streams := ss\<rparr>) = tx_inv maxP all n d"
  by (simp add: tx_inv_def queue_inv_def stream_inv_def wrte_sent_def wrte_msg_def [abs_def] was_opened_def)

lemma tx_inv_adb_send:
  assumes inv: "tx_inv maxP all n d" and "c \<noteq> ''WRTE''"
  shows "tx_inv maxP all n (adb_send c a0 a1 x d)"
proof (rule tx_inv_frame [OF inv])
  show "wrte_sent (adb_send c a0 a1 x d) = wrte_sent d"
    using assms by (simp add: wrte_sent_adb_send tx_inv_def queue_inv_def)
qed (use inv in \<open>auto simp: was_opened_def tx_inv_def stream_inv_def\<close>)

lemma tx_inv_rx_wrte: "tx_inv maxP all n d \<Longrightarrow> tx_inv maxP all n (rx_wrte l data d)"
proof -
  assume inv: "tx_inv maxP all n d"
  have "tx_inv maxP all n (d1\<lparr>d_onData := y\<rparr>) = tx_inv maxP all n d1" for d1 y
    by (simp add: tx_inv_def queue_inv_def stream_inv_def wrte_sent_def wrte_msg_def [abs_def] was_opened_def)
  then show ?thesis using tx_inv_adb_send [OF inv] inv by (simp add: rx_wrte_def)
qed

lemma tx_inv_rx_clse:
  assumes inv: "tx_inv maxP all n d"
  shows "tx_inv maxP all n (rx_clse l d)"
proof (cases "map_of (pendingStreams d) l")
  case None
  then show ?thesis using inv by (simp add: rx_clse_def tx_inv_notifyClose tx_inv_set_streams)
next
  case (Some svc)
  show ?thesis
    by (rule tx_inv_frame [OF inv], use inv Some in
      \<open>auto simp: rx_clse_def wrte_sent_def was_opened_def map_of_filter_key tx_inv_def stream_inv_def\<close>)
qed

lemma tx_inv_received:
  assumes "tx_inv maxP all n d" and "msg_cmd m \<noteq> ''OKAY''"
  shows "\<exists>d'. usbRxLoopInner m d = Inr d' \<and> tx_inv maxP all n d'"
  using assms by (simp add: usbRxLoopInner_def tx_inv_rx_wrte tx_inv_rx_clse)

lemma tx_inv_closed:
  assumes inv: "tx_inv maxP all n d" and free: "list_all (\<lambda>tx. tx_stream tx \<noteq> l) (txQueue d)"
  shows "tx_inv maxP all n (stream_close l d)"
proof (cases "s_state (d_obj d l) = CONNECTED")
  case True
  let ?d = "set_state CLOSING l d"
  have i1: "tx_inv maxP all n ?d"
    by (rule tx_inv_frame [OF inv], use inv in
      \<open>auto simp: set_state_def wrte_sent_def was_opened_def tx_inv_def stream_inv_def split: if_splits\<close>)
  have "filter (\<lambda>tx. tx_stream tx \<noteq> l) (txQueue ?d) = txQueue ?d"
    using free by (simp add: set_state_def filter_id_conv list_all_iff)
  then have "?d\<lparr>txQueue := filter (\<lambda>tx. tx_stream tx \<noteq> l) (txQueue ?d)\<rparr> = ?d" by simp
  then show ?thesis using True i1
    by (simp add: stream_close_def streamClose_def Let_def tx_inv_notifyClose tx_inv_set_streams tx_inv_adb_send)
qed (use inv in \<open>simp add: stream_close_def\<close>)

text \<open>Writes and acknowledgements.\<close>

lemma wrte_sent_enqueue:
  "wrte_sent (enqueue txs d) = wrte_sent d @ (if txQueue d = [] then map (wrte_msg d) (take 1 txs) else [])"
  by (cases txs) (simp_all add: wrte_sent_def wrte_msg_def)

lemma tx_inv_enqueue:
  assumes inv: "tx_inv maxP all n d" and txs: "\<forall>tx\<in>set txs. was_opened d (tx_stream tx)"
  shows "tx_inv maxP (all @ txs) n (enqueue txs d)"
proof -
  have q: "n \<le> length all" "txQueue d = drop n all" "wrte_sent d = map (wrte_msg d) (take (Suc n) all)"
    using inv by (simp_all add: tx_inv_def queue_inv_def)
  have "wrte_sent (enqueue txs d) = map (wrte_msg d) (take (Suc n) (all @ txs))"
    using q by (cases "n = length all") (simp_all add: wrte_sent_enqueue)
  moreover have "wrte_msg (enqueue txs d) = wrte_msg d" by (rule ext) (simp add: wrte_msg_def)
  ultimately have "queue_inv maxP (all @ txs) n (enqueue txs d)"
    using inv by (auto simp: tx_inv_def queue_inv_def)
  moreover have "stream_inv (all @ txs) (enqueue txs d)"
    using inv txs by (auto simp: tx_inv_def stream_inv_def was_opened_def)
  ultimately show ?thesis by (simp add: tx_inv_def)
qed

lemma tx_inv_written:
  assumes inv: "tx_inv maxP all n d" and "0 < maxP"
  shows "\<exists>d'. stream_write l raw d = Some (Inr d') \<and>
    tx_inv maxP (all @ (if s_state (d_obj d l) = CONNECTED then write_chunks maxP l raw (d_promises d) 0 else [])) n d'"
proof (cases "s_state (d_obj d l) = CONNECTED")
  case True
  let ?d = "d\<lparr>d_promises := d_promises d + 1\<rparr>"
  let ?c = "write_chunks maxP l raw (d_promises d) 0"
  have i1: "tx_inv maxP all n ?d"
    using inv by (simp add: tx_inv_def queue_inv_def stream_inv_def wrte_sent_def wrte_msg_def [abs_def] was_opened_def)
  moreover have "was_opened ?d l" using inv True by (simp add: tx_inv_def stream_inv_def was_opened_def)
  ultimately have i2: "tx_inv maxP (all @ ?c) n (enqueue ?c ?d)"
    by (intro tx_inv_enqueue) (auto dest: write_chunks_stream)
  have "streamWrite l raw d = Some (Inr (enqueue ?c ?d))"
    using write_loop_enqueue [of ?d l raw "d_promises d" 0] inv assms(2)
    by (simp add: streamWrite_def tx_inv_def queue_inv_def not_le)
  then show ?thesis using True i2 by (simp add: stream_write_def)
qed (use inv in \<open>simp add: stream_write_def\<close>)

lemma tx_inv_acked:
  assumes inv: "tx_inv maxP all n d" and q: "txQueue d = tx # q"
  shows "\<exists>d'. usbRxLoopInner (OKAY_msg (s_remoteId (d_obj d (tx_stream tx))) (tx_stream tx)) d = Inr d' \<and>
    tx_inv maxP all (Suc n) d'"
proof -
  have dr: "drop n all = tx # q" and sent: "wrte_sent d = map (wrte_msg d) (take (Suc n) all)"
    and con: "d_connected d" using inv q by (simp_all add: tx_inv_def queue_inv_def)
  then have n: "n < length all" "all ! n = tx" "drop (Suc n) all = q"
    by (metis drop_all list.distinct(1) not_le_imp_less, metis drop_Cons' nth_via_drop, metis drop_Suc list.sel(3) tl_drop)
  then have "was_opened d (tx_stream tx)" using inv by (auto simp: tx_inv_def stream_inv_def)
  then have pend: "map_of (pendingStreams d) (tx_stream tx) = None" by (simp add: was_opened_def)
  define d2 where "d2 = resolve_write tx (d\<lparr>txQueue := q, txPending := False\<rparr>)"
  have d2: "txQueue d2 = q" "txPending d2 = False" "d_obj d2 = d_obj d" "d_connected d2" "maxPayload d2 = maxPayload d"
      "pendingStreams d2 = pendingStreams d" "lastStreamId d2 = lastStreamId d" "d_sent d2 = d_sent d"
      "d_resolved d2 = List.map_filter tx_promise (take (Suc n) all)"
    using inv n con by (auto simp: d2_def resolve_write_def tx_inv_def queue_inv_def List.map_filter_def
      take_Suc_conv_app_nth split: option.split)
  define d' where "d' = (case q of [] \<Rightarrow> d2 | nxt # _ \<Rightarrow>
      d2\<lparr>txPending := True, d_sent := d_sent d2 @ [wrte_msg d2 nxt]\<rparr>)"
  have "usbRxLoopInner (OKAY_msg (s_remoteId (d_obj d (tx_stream tx))) (tx_stream tx)) d =
      (case txQueue d2 of [] \<Rightarrow> Inr d2 | nxt # _ \<Rightarrow> streamWriteFromQueue nxt d2)"
    unfolding d2_def using pend q
    by (simp add: usbRxLoopInner_def OKAY_msg_def rx_okay_def popFromTxQueue_def Let_def)
  then have "usbRxLoopInner (OKAY_msg (s_remoteId (d_obj d (tx_stream tx))) (tx_stream tx)) d = Inr d'"
    using d2(1,2,4) unfolding d'_def
    by (cases q) (simp_all add: streamWriteFromQueue_def adb_send_def wrte_msg_def)
  moreover have w: "wrte_msg d' = wrte_msg d" "wrte_msg d2 = wrte_msg d"
    by (auto simp: d'_def wrte_msg_def [abs_def] d2 split: list.split)
  moreover have "wrte_sent d' = map (wrte_msg d) (take (Suc (Suc n)) all)"
  proof (cases q)
    case Nil
    then show ?thesis using n sent d2 by (simp add: d'_def wrte_sent_def)
  next
    case (Cons nxt q')
    then have "Suc n < length all" "all ! Suc n = nxt"
      using n(3) by (metis drop_all list.distinct(1) not_le_imp_less, metis nth_via_drop)
    then show ?thesis using Cons sent w d2
      by (simp add: d'_def wrte_sent_def wrte_msg_def take_Suc_conv_app_nth [of "Suc n"])
  qed
  moreover have "Suc n < length all \<longleftrightarrow> q \<noteq> []" using n(3) by (metis drop_eq_Nil not_le)
  ultimately have "queue_inv maxP all (Suc n) d'"
    using inv n d2 by (auto simp: queue_inv_def tx_inv_def d'_def split: list.split)
  moreover have "stream_inv all d'"
    using inv d2 by (auto simp: tx_inv_def stream_inv_def was_opened_def d'_def split: list.split)
  ultimately show ?thesis using \<open>usbRxLoopInner _ d = Inr d'\<close> by (simp add: tx_inv_def)
qed

lemma tx_entries_snoc [simp]:
  "tx_entries maxP [] = []" "tx_entries maxP (ws @ [(l, raw, p)]) = tx_entries maxP ws @ write_chunks maxP l raw p 0"
  by (simp_all add: tx_entries_def)

lemma tx_run_inv:
  assumes "tx_run (new_device maxP ck) ws n d" and "0 < maxP"
  shows "tx_inv maxP (tx_entries maxP ws) n d"
  using assms
proof (induction rule: tx_run.induct)
  case (written ws n d l raw d')
  then show ?case using tx_inv_written [of maxP "tx_entries maxP ws" n d l raw] by (auto split: if_splits)
next
  case (acked ws n d tx q d')
  then show ?case using tx_inv_acked [of maxP "tx_entries maxP ws" n d tx q] by auto
next
  case (opened ws n d l r d')
  then show ?case using tx_inv_opened [of maxP "tx_entries maxP ws" n d l r] by auto
next
  case (received ws n d m d')
  then show ?case using tx_inv_received [of maxP "tx_entries maxP ws" n d m] by auto
qed (simp_all add: tx_inv_new tx_inv_createStream tx_inv_closed)

lemma tx_entries_len: "tx \<in> set (tx_entries maxP ws) \<Longrightarrow> u8_length (tx_data tx) \<le> maxP"
  by (auto simp: tx_entries_def dest: write_chunks_len)

lemma tx_entries_bytes:
  assumes "0 < maxP"
  shows "concat (map (\<lambda>tx. u8_bytes (tx_data tx)) (filter (\<lambda>tx. tx_stream tx = l) (tx_entries maxP ws))) =
    concat (map (\<lambda>(k, raw, p). u8_bytes raw) (filter (\<lambda>w. fst w = l) ws))"
proof (induction ws)
  case (Cons w ws)
  obtain k raw p where w: "w = (k, raw, p)" by (cases w)
  have "filter (\<lambda>tx. tx_stream tx = l) (write_chunks maxP k raw p 0) =
      (if k = l then write_chunks maxP k raw p 0 else [])"
    by (auto simp: filter_id_conv filter_empty_conv dest: write_chunks_stream)
  then show ?case using Cons write_chunks_bytes [OF assms, of k raw p 0]
    by (cases "k = l") (simp_all add: w tx_entries_def)
qed (simp add: tx_entries_def)

text \<open>A run that opens the streams 1 and 2 and writes on the first.\<close>

lemma two_streams_run:
  "\<exists>d. tx_run (new_device maxP ck) [] 0 d \<and> s_state (d_obj d 1) = CONNECTED \<and> s_state (d_obj d 2) = CONNECTED \<and>
     d_promises d = 0"
proof -
  let ?d0 = "new_device maxP ck"
  let ?d2 = "snd (createStream ''b'' (snd (createStream ''a'' ?d0)))"
  note ev = usbRxLoopInner_def rx_okay_def OKAY_msg_def createStream_def new_device_def adb_send_def
  have r2: "tx_run ?d0 [] 0 ?d2" by (intro tx_run.intros)
  obtain d3 where d3: "usbRxLoopInner (OKAY_msg 7 1) ?d2 = Inr d3" "map_of (pendingStreams d3) 2 = Some ''b''"
      "s_state (d_obj d3 1) = CONNECTED" "d_promises d3 = 0" by (simp add: ev)
  have r3: "tx_run ?d0 [] 0 d3" by (rule tx_run.opened [OF r2 _ d3(1)]) (simp add: ev)
  obtain d4 where d4: "usbRxLoopInner (OKAY_msg 8 2) d3 = Inr d4" "s_state (d_obj d4 1) = CONNECTED"
      "s_state (d_obj d4 2) = CONNECTED" "d_promises d4 = 0"
    using d3 by (simp add: usbRxLoopInner_def rx_okay_def OKAY_msg_def)
  have "tx_run ?d0 [] 0 d4" by (rule tx_run.opened [OF r3 _ d4(1)]) (simp add: d3)
  with d4 show ?thesis by blast
qed

lemma written_run:
  assumes "0 < maxP"
  shows "\<exists>d. tx_run (new_device maxP ck) [(1, raw, 0)] 0 d \<and> s_state (d_obj d 1) = CONNECTED \<and>
    s_state (d_obj d 2) = CONNECTED"
proof -
  let ?d0 = "new_device maxP ck"
  obtain d where d: "tx_run ?d0 [] 0 d" "s_state (d_obj d 1) = CONNECTED" "s_state (d_obj d 2) = CONNECTED"
      "d_promises d = 0" using two_streams_run by blast
  have "tx_inv maxP [] 0 d" using tx_run_inv [OF d(1) assms] by simp
  then have w: "stream_write 1 raw d = Some (Inr (enqueue (write_chunks maxP 1 raw 0 0) (d\<lparr>d_promises := 1\<rparr>)))"
    using write_loop_enqueue [of "d\<lparr>d_promises := 1\<rparr>" 1 raw 0 0] d assms
    by (simp add: stream_write_def streamWrite_def tx_inv_def queue_inv_def)
  from tx_run.written [OF d(1) w] d show ?thesis
    by (intro exI [of _ "enqueue (write_chunks maxP 1 raw 0 0) (d\<lparr>d_promises := 1\<rparr>)"]) simp
qed

text \<open>
  C37. The write queue of an ADB connection. After any interleaving of writes on any streams,
  acknowledgements of the chunk in flight, streams opened, messages from the device, and closes of streams
  that have no chunk in the queue (C38 shows what another close does),
  with \<open>all\<close> the chunks of all writes in order and \<open>n\<close> acknowledgements: the queue holds what is not
  acknowledged, exactly the acknowledged chunks and the next one have been sent, in order and to
  the remote id of their stream, a transfer is pending exactly when the queue is not empty, and
  the promises of the completed writes are resolved. No chunk exceeds the negotiated payload, the
  chunks of a stream concatenate to what was written on it, and in such a state no write and no
  acknowledgement fails: every write ends, no assertion fires.
\<close>

theorem adb_write_queue:
  assumes "tx_run (new_device maxP ck) ws n d" and "0 < maxP"
  shows "txQueue d = drop n (tx_entries maxP ws) \<and>
    wrte_sent d = map (wrte_msg d) (take (Suc n) (tx_entries maxP ws)) \<and>
    txPending d = (txQueue d \<noteq> []) \<and>
    d_resolved d = List.map_filter tx_promise (take n (tx_entries maxP ws)) \<and>
    (\<forall>tx\<in>set (tx_entries maxP ws). u8_length (tx_data tx) \<le> maxP) \<and>
    (\<forall>l. concat (map (\<lambda>tx. u8_bytes (tx_data tx)) (filter (\<lambda>tx. tx_stream tx = l) (tx_entries maxP ws))) =
       concat (map (\<lambda>(k, raw, p). u8_bytes raw) (filter (\<lambda>w. fst w = l) ws))) \<and>
    (\<forall>l raw. \<exists>d'. stream_write l raw d = Some (Inr d')) \<and>
    (\<forall>tx q. txQueue d = tx # q \<longrightarrow>
       (\<exists>d'. usbRxLoopInner (OKAY_msg (s_remoteId (d_obj d (tx_stream tx))) (tx_stream tx)) d = Inr d'))"
proof -
  note inv = tx_run_inv [OF assms]
  then have "txQueue d = drop n (tx_entries maxP ws) \<and>
      wrte_sent d = map (wrte_msg d) (take (Suc n) (tx_entries maxP ws)) \<and> txPending d = (txQueue d \<noteq> []) \<and>
      d_resolved d = List.map_filter tx_promise (take n (tx_entries maxP ws))"
    by (auto simp: tx_inv_def queue_inv_def)
  with tx_entries_len [of _ maxP ws] tx_entries_bytes [OF assms(2)] tx_inv_written [OF inv assms(2)] tx_inv_acked [OF inv]
  show ?thesis by blast
qed

theorem adb_write_queue_witness:
  "\<exists>d. tx_run (new_device 4 False) [(1, whole_view [1, 2, 3, 4, 5, 6], 0)] 1 d \<and>
     wrte_sent d = map (wrte_msg d) (take 2 (tx_entries 4 [(1, whole_view [1, 2, 3, 4, 5, 6], 0)])) \<and>
     txQueue d = drop 1 (tx_entries 4 [(1, whole_view [1, 2, 3, 4, 5, 6], 0)]) \<and> txPending d"
proof -
  let ?raw = "whole_view [1, 2, 3, 4, 5, 6]"
  let ?d0 = "new_device 4 False"
  obtain d3 where r3: "tx_run ?d0 [(1, ?raw, 0)] 0 d3" using written_run [of 4 False ?raw] by auto
  have "tx_entries 4 [(1, ?raw, 0)] = [tx_chunk 1 ?raw 0 4 0, tx_chunk 1 ?raw 4 2 0]"
    by (simp add: tx_entries_def write_chunks_step whole_view_def eval_nat_numeral)
  then have q3: "txQueue d3 = tx_chunk 1 ?raw 0 4 0 # [tx_chunk 1 ?raw 4 2 0]"
      "drop 1 (tx_entries 4 [(1, ?raw, 0)]) \<noteq> []"
    using tx_run_inv [OF r3] by (simp_all add: tx_inv_def queue_inv_def)
  obtain d where "usbRxLoopInner (OKAY_msg (s_remoteId (d_obj d3 (tx_stream (tx_chunk 1 ?raw 0 4 0))))
      (tx_stream (tx_chunk 1 ?raw 0 4 0))) d3 = Inr d"
    using tx_inv_acked [OF tx_run_inv [OF r3] q3(1)] by auto
  from tx_run.acked [OF r3 q3(1) this] have "tx_run ?d0 [(1, ?raw, 0)] 1 d" by simp
  with adb_write_queue [OF this] q3(2) show ?thesis by (auto simp: numeral_2_eq_2)
qed

subsection \<open>Outside those runs\<close>

lemma write_loop_pending:
  assumes "0 < maxPayload d" and "txPending d"
  shows "write_loop l raw p s d = Some (Inr (d\<lparr>txQueue := txQueue d @ write_chunks (maxPayload d) l raw p s\<rparr>))"
  using assms
proof (induction "u8_length raw - s" arbitrary: s d rule: less_induct)
  case less
  show ?case
  proof (cases "s < u8_length raw")
    case True
    let ?c = "min (maxPayload d) (u8_length raw - s)"
    let ?d = "d\<lparr>txQueue := txQueue d @ [tx_chunk l raw s ?c p]\<rparr>"
    have "write_loop l raw p s d = write_loop l raw p (s + ?c) ?d"
      using True less.prems by (subst write_loop.simps) (simp add: Let_def queue_tx_def)
    also have "\<dots> = Some (Inr (?d\<lparr>txQueue := txQueue ?d @ write_chunks (maxPayload d) l raw p (s + ?c)\<rparr>))"
      using less.hyps [of "s + ?c" ?d] less.prems True by simp
    finally show ?thesis using write_chunks_step [OF less.prems(1) True, of l p] by simp
  next
    case False
    then show ?thesis by (subst write_loop.simps) simp
  qed
qed

lemma stream_close_sel:
  assumes "s_state (d_obj d l) = CONNECTED"
  shows "txQueue (stream_close l d) = filter (\<lambda>tx. tx_stream tx \<noteq> l) (txQueue d)"
    "txPending (stream_close l d) = txPending d" "maxPayload (stream_close l d) = maxPayload d"
    "d_connected (stream_close l d) = d_connected d" "pendingStreams (stream_close l d) = pendingStreams d"
    "k \<noteq> l \<Longrightarrow> s_state (d_obj (stream_close l d) k) = s_state (d_obj d k)"
    "d_connected d \<Longrightarrow> wrte_sent (stream_close l d) = wrte_sent d"
  using assms by (simp_all add: stream_close_def streamClose_def set_state_def Let_def wrte_sent_def adb_send_def)

text \<open>
  C38. Closing a stream whose chunk is in flight. The close drops the queue entries of the stream but
  not the pending flag, so from then on a write on any other stream is queued and nothing is sent;
  and when the acknowledgement of the dropped chunk arrives, the look-up of its entry fails, which
  ends the receive loop and disconnects the device.
\<close>

theorem adb_close_in_flight_stalls:
  assumes run: "tx_run (new_device maxP ck) ws n d" and pos: "0 < maxP"
    and q: "txQueue d \<noteq> []" "\<forall>tx\<in>set (txQueue d). tx_stream tx = l"
    and conn: "s_state (d_obj d l) = CONNECTED" "k \<noteq> l" "s_state (d_obj d k) = CONNECTED"
  shows "(\<exists>d' p. stream_write k raw (stream_close l d) = Some (Inr d') \<and>
      txQueue d' = write_chunks maxP k raw p 0 \<and> txPending d' \<and> wrte_sent d' = wrte_sent d) \<and>
    (\<exists>e. usbRxLoop (OKAY_msg (s_remoteId (d_obj d l)) l # ms) (stream_close l d) =
      (Some (Thrown e), (stream_close l d)\<lparr>d_connected := False\<rparr>))"
proof -
  let ?d = "stream_close l d"
  have inv: "txPending d" "maxPayload d = maxP" "d_connected d" "map_of (pendingStreams d) l = None"
    using tx_run_inv [OF run pos] q(1) conn(1)
    by (auto simp: tx_inv_def queue_inv_def stream_inv_def was_opened_def)
  note sel = stream_close_sel [OF conn(1)]
  have e: "txQueue ?d = []" using q(2) by (simp add: sel(1) filter_empty_conv)
  have "stream_write k raw ?d = Some (Inr (?d\<lparr>d_promises := d_promises ?d + 1,
      txQueue := write_chunks maxP k raw (d_promises ?d) 0\<rparr>))"
    using conn inv e write_loop_pending [of "?d\<lparr>d_promises := d_promises ?d + 1\<rparr>" k raw "d_promises ?d" 0] pos
    by (simp add: stream_write_def streamWrite_def sel)
  moreover have "wrte_sent (?d\<lparr>d_promises := x, txQueue := y\<rparr>) = wrte_sent ?d" for x y by (simp add: wrte_sent_def)
  moreover have "usbRxLoopInner (OKAY_msg r l) ?d = Inl (Thrown (''Could not find ADB queue entry L='' @ show_nat l @
      '', R='' @ show_nat r @ '', TxLen='' @ show_nat 0))" for r
    using inv e by (simp add: usbRxLoopInner_def OKAY_msg_def rx_okay_def popFromTxQueue_def sel)
  ultimately show ?thesis using inv by (auto simp: sel)
qed

theorem adb_close_in_flight_stalls_witness:
  "\<exists>d d' e. tx_run (new_device 4 False) [(1, whole_view [1, 2], 0)] 0 d \<and>
     stream_write 2 (whole_view [3]) (stream_close 1 d) = Some (Inr d') \<and> wrte_sent d' = wrte_sent d \<and>
     usbRxLoop [OKAY_msg (s_remoteId (d_obj d 1)) 1] (stream_close 1 d) =
       (Some (Thrown e), (stream_close 1 d)\<lparr>d_connected := False\<rparr>)"
proof -
  let ?raw = "whole_view [1, 2]"
  obtain d where d: "tx_run (new_device 4 False) [(1, ?raw, 0)] 0 d" "s_state (d_obj d 1) = CONNECTED"
      "s_state (d_obj d 2) = CONNECTED" using written_run [of 4 False ?raw] by auto
  have "tx_entries 4 [(1, ?raw, 0)] = [tx_chunk 1 ?raw 0 2 0]"
    by (simp add: tx_entries_def write_chunks_step whole_view_def eval_nat_numeral)
  then have q: "txQueue d = [tx_chunk 1 ?raw 0 2 0]" using tx_run_inv [OF d(1)] by (simp add: tx_inv_def queue_inv_def)
  then have "txQueue d \<noteq> []" "\<forall>tx\<in>set (txQueue d). tx_stream tx = 1" "0 < (4::nat)" "2 \<noteq> (1::nat)" by simp_all
  then show ?thesis
    using adb_close_in_flight_stalls [OF d(1) _ _ _ d(2) _ d(3), of "whole_view [3]" "[]"] d(1) by blast
qed

lemma write_chunks_view:
  assumes "tx \<in> set (write_chunks maxP l raw p s)" and "u8_byteOffset raw + u8_length raw \<le> length (u8_buffer raw)"
  shows "u8_buffer (tx_data tx) = u8_buffer raw \<and> 0 < u8_length (tx_data tx) \<and>
    length (u8_bytes (tx_data tx)) = u8_length (tx_data tx)"
  using assms
proof (induction maxP l raw p s rule: write_chunks.induct)
  case (1 maxP l raw p s)
  show ?case
  proof (cases "0 < maxP \<and> s < u8_length raw")
    case True
    then show ?thesis using 1 write_chunks_step [of maxP s raw l p]
      by (auto simp: tx_chunk_def u8_subarray_def u8_bytes_def Let_def)
  next
    case False
    then show ?thesis using 1(2) by (subst (asm) write_chunks.simps) auto
  qed
qed

text \<open>
  The transfers of a chunk. The header of a chunk announces the length of the chunk, but the payload
  transfer carries the whole buffer under it: for an array longer than the negotiated payload every
  chunk sends the whole array after a header that announces a part of it.
\<close>

theorem adb_chunk_transfers_whole_buffer:
  assumes "tx \<in> set (write_chunks maxP l (whole_view bs) p 0)" and "maxP < length bs" and "maxP < 2 ^ 32"
  shows "\<exists>h rest hdr. usb_transfers ps ck (wrte_msg d tx) = h # bs # rest \<and> parseAdbMsgHdr h = Inr hdr \<and>
    dataLen hdr = u8_length (tx_data tx) \<and> dataLen hdr < length bs"
proof -
  have v: "u8_buffer (tx_data tx) = bs" "0 < u8_length (tx_data tx)"
      "length (u8_bytes (tx_data tx)) = u8_length (tx_data tx)"
    using write_chunks_view [OF assms(1)] by (simp_all add: whole_view_def)
  have le: "u8_length (tx_data tx) \<le> maxP" by (rule write_chunks_len [OF assms(1)])
  let ?c = "map (cmd_byte ''WRTE'') [0, 1, 2, 3]"
  have "uint (getUint32 ?c 0) = sint (getUint32 ?c 0)"
    unfolding uint_eq_sint_iff bit_31_cmd by (simp add: cmd_byte_def bit_iff_odd)
  then obtain hdr where "parseAdbMsgHdr (encodeAdbMsg ''WRTE'' a0 a1 (u8_bytes (tx_data tx)) ck) = Inr hdr"
      "dataLen hdr = u8_length (tx_data tx)"
    if "a0 = tx_stream tx" "a1 = s_remoteId (d_obj d (tx_stream tx))" for a0 a1
    using parse_encoded [of "''WRTE''" _ _ "u8_bytes (tx_data tx)" ck] v(3) le assms(3) by force
  then show ?thesis using v le assms(2) by (auto simp: usb_transfers_def wrte_msg_def)
qed

theorem adb_chunk_transfers_whole_buffer_witness:
  "\<exists>h rest hdr. usb_transfers 64 False (wrte_msg (new_device 2 False) (tx_chunk 1 (whole_view [1, 2, 3]) 0 2 0)) =
     h # [1, 2, 3] # rest \<and> parseAdbMsgHdr h = Inr hdr \<and> dataLen hdr < 3"
proof -
  have "tx_chunk 1 (whole_view [1, 2, 3]) 0 2 0 \<in> set (write_chunks 2 1 (whole_view [1, 2, 3]) 0 0)"
    by (simp add: write_chunks_step whole_view_def eval_nat_numeral)
  from adb_chunk_transfers_whole_buffer [OF this, of 64 False "new_device 2 False"] show ?thesis by auto
qed

end
