(* ===== verification/Packet_Assembler.thy ===== *)
theory Packet_Assembler
  imports Ring_Buffer_Correct
begin

text \<open>
  The buffers of the recording side: \<^verbatim>\<open>ui/src/base/resizable_array_buffer.ts\<close> and
  \<^verbatim>\<open>plugins/dev.perfetto.RecordTraceV2/tracing_protocol/packet_assembler.ts\<close>, which puts trace packets together
  from the slices that the tracing service sends and frames them for the trace processor.
\<close>

subsection \<open>\<open>ResizableArrayBuffer\<close>\<close>

record resizable_buffer =
  rab_buf :: bytes
  rab_size :: nat
  rab_initialSize :: nat

definition new_rab :: "nat \<Rightarrow> resizable_buffer" where
  "new_rab n = \<lparr>rab_buf = replicate n 0, rab_size = 0, rab_initialSize = n\<rparr>"

definition MB32 :: nat where
  "MB32 = 32 * 1024 * 1024"

text \<open>The \<open>do\<close>-\<open>while\<close> loop of \<open>grow\<close>; \<open>None\<close> is a loop that does not end.\<close>

definition grown :: "nat \<Rightarrow> nat" where
  "grown n = (if n < MB32 then n * 2 else n + MB32)"

partial_function (option) rab_grow_size :: "nat \<Rightarrow> nat \<Rightarrow> nat option" where
  "rab_grow_size newSize capacityNeeded =
     (if grown newSize < capacityNeeded then rab_grow_size (grown newSize) capacityNeeded
      else Some (grown newSize))"

definition rab_grow :: "nat \<Rightarrow> resizable_buffer \<Rightarrow> (js_error + resizable_buffer) option" where
  "rab_grow capacityNeeded b =
     Option.bind (rab_grow_size (length (rab_buf b)) capacityNeeded) (\<lambda>newSize. Some
       (if \<not> newSize \<ge> capacityNeeded then Inl AssertionFailed
        else (case ta_set (replicate newSize 0) (rab_buf b) 0 of
                Inl e \<Rightarrow> Inl e | Inr nb \<Rightarrow> Inr (b\<lparr>rab_buf := nb\<rparr>))))"

definition rab_write :: "bytes \<Rightarrow> resizable_buffer \<Rightarrow> js_error + resizable_buffer" where
  "rab_write data b =
     (case ta_set (rab_buf b) data (rab_size b) of
        Inl e \<Rightarrow> Inl e
      | Inr nb \<Rightarrow> Inr (b\<lparr>rab_buf := nb, rab_size := rab_size b + length data\<rparr>))"

definition rab_append :: "bytes \<Rightarrow> resizable_buffer \<Rightarrow> (js_error + resizable_buffer) option" where
  "rab_append data b =
     (if length (rab_buf b) < rab_size b + length data
      then (case rab_grow (rab_size b + length data) b of
              None \<Rightarrow> None | Some (Inl e) \<Rightarrow> Some (Inl e) | Some (Inr b') \<Rightarrow> Some (rab_write data b'))
      else Some (rab_write data b))"

definition rab_shrink :: "nat \<Rightarrow> resizable_buffer \<Rightarrow> js_error + resizable_buffer" where
  "rab_shrink newSize b = (if newSize \<le> rab_size b then Inr (b\<lparr>rab_size := newSize\<rparr>) else Inl AssertionFailed)"

definition rab_clear :: "resizable_buffer \<Rightarrow> resizable_buffer" where
  "rab_clear b = b\<lparr>rab_buf := replicate (rab_initialSize b) 0, rab_size := 0\<rparr>"

definition rab_get :: "resizable_buffer \<Rightarrow> bytes" where
  "rab_get b = seg 0 (rab_size b) (rab_buf b)"

subsection \<open>\<open>PacketAssembler\<close>\<close>

record slice =
  slice_data :: "bytes option"
  lastSliceForPacket :: bool

definition TRACE_PACKET_PROTO_TAG :: byte where
  "TRACE_PACKET_PROTO_TAG = push_bit 3 1 OR 2"

text \<open>
  \<open>lenVarint & 0x7f\<close> and \<open>lenVarint >>>= 7\<close> see the length as an unsigned 32-bit number, the comparison
  sees the number itself.
\<close>

function preamble_len :: "nat \<Rightarrow> bytes" where
  "preamble_len lenVarint =
     ((of_nat lenVarint AND 0x7f) OR (if lenVarint > 0x7f then 0x80 else 0)) #
     (let rest = drop_bit 7 (take_bit 32 lenVarint) in if rest > 0 then preamble_len rest else [])"
  by pat_completeness auto
termination
proof (relation "measure id")
  fix n x :: nat
  assume "x = drop_bit 7 (take_bit 32 n)" and "0 < x"
  moreover from this have "x \<le> n div 128" by (simp add: drop_bit_eq_div take_bit_eq_mod div_le_mono)
  ultimately have "x < n" using div_less_dividend [of 128 n] by (cases "n = 0") auto
  then show "(x, n) \<in> measure id" by simp
qed simp

declare preamble_len.simps [simp del]

fun rab_append_all :: "bytes list \<Rightarrow> resizable_buffer \<Rightarrow> (js_error + resizable_buffer) option" where
  "rab_append_all [] b = Some (Inr b)"
| "rab_append_all (d # ds) b =
     (case rab_append d b of
        None \<Rightarrow> None | Some (Inl e) \<Rightarrow> Some (Inl e) | Some (Inr b') \<Rightarrow> rab_append_all ds b')"

fun push_slices_loop ::
  "slice list \<Rightarrow> bytes list \<Rightarrow> resizable_buffer \<Rightarrow> (js_error + bytes list \<times> resizable_buffer) option" where
  "push_slices_loop [] cur b = Some (Inr (cur, b))"
| "push_slices_loop (s # ss) cur b =
     (case slice_data s of
        None \<Rightarrow> push_slices_loop ss cur b
      | Some d \<Rightarrow>
          (if \<not> lastSliceForPacket s then push_slices_loop ss (cur @ [d]) b
           else
             (let slices = cur @ [d]; totLen = sum_list (map length slices);
                  preamble = TRACE_PACKET_PROTO_TAG # preamble_len totLen
              in case rab_append_all (preamble # slices) b of
                   None \<Rightarrow> None
                 | Some (Inl e) \<Rightarrow> Some (Inl e)
                 | Some (Inr b') \<Rightarrow> push_slices_loop ss [] b')))"

text \<open>\<open>pushSlices\<close> returns the framed packets and keeps the slices of the last, unfinished packet.\<close>

definition pushSlices :: "slice list \<Rightarrow> bytes list \<Rightarrow> (js_error + bytes \<times> bytes list) option" where
  "pushSlices slices cur =
     (case push_slices_loop slices cur (new_rab 4096) of
        None \<Rightarrow> None
      | Some (Inl e) \<Rightarrow> Some (Inl e)
      | Some (Inr (cur', b)) \<Rightarrow> Some (Inr (rab_get b, cur')))"

subsection \<open>The growing buffer as an append-only byte string\<close>

text \<open>The interface that the assembler relies on: appending always returns and adds exactly the bytes.\<close>

locale append_buffer =
  fixes inv :: "'b \<Rightarrow> bool" and append :: "bytes \<Rightarrow> 'b \<Rightarrow> (js_error + 'b) option" and contents :: "'b \<Rightarrow> bytes"
  assumes append_ok: "inv b \<Longrightarrow> \<exists>b'. append d b = Some (Inr b') \<and> inv b' \<and> contents b' = contents b @ d"
begin

fun append_each :: "bytes list \<Rightarrow> 'b \<Rightarrow> (js_error + 'b) option" where
  "append_each [] b = Some (Inr b)"
| "append_each (d # ds) b =
     (case append d b of None \<Rightarrow> None | Some (Inl e) \<Rightarrow> Some (Inl e) | Some (Inr b') \<Rightarrow> append_each ds b')"

lemma append_each_ok:
  "inv b \<Longrightarrow> \<exists>b'. append_each ds b = Some (Inr b') \<and> inv b' \<and> contents b' = contents b @ concat ds"
proof (induction ds arbitrary: b)
  case (Cons d ds)
  from append_ok [OF Cons.prems, of d] obtain b1 where
    b1: "append d b = Some (Inr b1)" "inv b1" "contents b1 = contents b @ d" by blast
  from Cons.IH [OF b1(2)] obtain b2 where
    "append_each ds b1 = Some (Inr b2)" "inv b2" "contents b2 = contents b1 @ concat ds" by blast
  with b1 show ?case by auto
qed simp

end

definition rab_inv :: "resizable_buffer \<Rightarrow> bool" where
  "rab_inv b \<longleftrightarrow> 0 < length (rab_buf b) \<and> rab_size b \<le> length (rab_buf b)"

lemma grown_gt: "0 < n \<Longrightarrow> n < grown n"
  by (simp add: grown_def MB32_def)

lemma rab_grow_size_total:
  assumes "0 < n"
  shows "\<exists>m. rab_grow_size n k = Some m \<and> k \<le> m \<and> n < m"
  using assms
proof (induction "k - n" arbitrary: n rule: less_induct)
  case less
  show ?case
  proof (cases "grown n < k")
    case True
    then have "k - grown n < k - n" using grown_gt [OF less.prems] by simp
    from less.hyps [OF this] grown_gt [OF less.prems] True show ?thesis
      by (subst rab_grow_size.simps) force
  next
    case False
    then show ?thesis using grown_gt [OF less.prems] by (subst rab_grow_size.simps) simp
  qed
qed

lemma rab_write_ok:
  assumes "0 < length (rab_buf b)" and "rab_size b + length d \<le> length (rab_buf b)"
  shows "\<exists>b'. rab_write d b = Inr b' \<and> rab_inv b' \<and> rab_get b' = rab_get b @ d"
proof -
  obtain nb where nb: "ta_set (rab_buf b) d (rab_size b) = Inr nb" using assms(2) by (simp add: ta_set_def)
  then have "length nb = length (rab_buf b)" by (rule ta_set_length)
  with nb assms ta_set_seg [OF nb, of 0] show ?thesis by (auto simp: rab_write_def rab_inv_def rab_get_def)
qed

lemma rab_append_ok:
  assumes inv: "rab_inv b"
  shows "\<exists>b'. rab_append d b = Some (Inr b') \<and> rab_inv b' \<and> rab_get b' = rab_get b @ d"
proof (cases "length (rab_buf b) < rab_size b + length d")
  case False
  with inv rab_write_ok [of b d] show ?thesis by (auto simp: rab_append_def rab_inv_def)
next
  case True
  let ?k = "rab_size b + length d" and ?l = "length (rab_buf b)"
  obtain m where m: "rab_grow_size ?l ?k = Some m" "?k \<le> m" "?l < m"
    using rab_grow_size_total [of ?l ?k] inv by (auto simp: rab_inv_def)
  obtain nb where nb: "ta_set (replicate m 0) (rab_buf b) 0 = Inr nb" using m(3) by (simp add: ta_set_def)
  have len: "length nb = m" using ta_set_length [OF nb] by simp
  have "rab_get (b\<lparr>rab_buf := nb\<rparr>) = rab_get b"
    using nb inv m(3) by (auto simp: rab_get_def seg_def ta_set_Inr_iff rab_inv_def)
  with rab_write_ok [of "b\<lparr>rab_buf := nb\<rparr>" d] len m True show ?thesis
    by (auto simp: rab_append_def rab_grow_def nb)
qed

interpretation rab: append_buffer rab_inv rab_append rab_get
  by unfold_locales (rule rab_append_ok)

lemma rab_append_all_each: "rab_append_all ds b = rab.append_each ds b"
  by (induction ds arbitrary: b) (simp_all split: option.split sum.split)

lemmas rab_append_all_ok = rab.append_each_ok [folded rab_append_all_each]

lemma rab_grow_size_start:
  assumes "rab_grow_size n k = Some m"
  shows "0 < k \<longrightarrow> n \<noteq> 0"
  using assms
  by (rule rab_grow_size.raw_induct [where P = "\<lambda>n k m. 0 < k \<longrightarrow> n \<noteq> 0", rotated])
    (fastforce simp: grown_def MB32_def split: if_splits)

lemma rab_grow_zero_stuck: "0 < k \<Longrightarrow> rab_grow_size 0 k = None"
  using rab_grow_size_start [of 0 k] by (cases "rab_grow_size 0 k") auto

text \<open>
  \<open>ResizableArrayBuffer\<close>: with a positive initial size every \<open>append\<close> returns, grows the capacity
  enough and adds exactly the bytes given; a buffer created with initial size 0 never returns from its first
  append of a non-empty array, because its size is doubled for ever.
\<close>

theorem resizable_buffer_append:
  shows "(rab_inv b \<longrightarrow> (\<exists>b'. rab_append d b = Some (Inr b') \<and> rab_inv b' \<and> rab_get b' = rab_get b @ d)) \<and>
    (0 < n \<longrightarrow> rab_inv (new_rab n) \<and> rab_get (new_rab n) = []) \<and>
    (d \<noteq> [] \<longrightarrow> rab_append d (new_rab 0) = None)"
  using rab_append_ok [of b d] rab_grow_zero_stuck [of "length d"]
  by (auto simp: rab_inv_def new_rab_def rab_get_def rab_append_def rab_grow_def)

theorem resizable_buffer_append_witness:
  "(\<exists>b'. rab_append [7] (new_rab 1) = Some (Inr b') \<and> rab_get b' = [7]) \<and> rab_append [7] (new_rab 0) = None"
  using resizable_buffer_append [of "new_rab 1" "[7]" 1] by auto

subsection \<open>Packets\<close>

lemma preamble_byte:
  "((of_nat n :: byte) AND 0x7f) OR 0x80 = of_nat (n mod 128 + 128)" "((of_nat n :: byte) AND 0x7f) = of_nat (n mod 128)"
proof -
  have m: "(0x7f :: byte) = mask 7" by (simp add: mask_eq_exp_minus_1)
  show a: "((of_nat n :: byte) AND 0x7f) = of_nat (n mod 128)"
    unfolding m take_bit_eq_mask [symmetric] take_bit_of_nat by (simp add: take_bit_eq_mod)
  have "(of_nat (n mod 128) :: byte) AND 0x80 = 0"
    unfolding a [symmetric] by (simp add: and.assoc)
  then have "(of_nat (n mod 128) :: byte) OR 0x80 = of_nat (n mod 128) + 0x80"
    by (simp only: disjunctive_add_eq_or)
  then show "((of_nat n :: byte) AND 0x7f) OR 0x80 = of_nat (n mod 128 + 128)" by (simp add: a)
qed

lemma preamble_len_varint: "n < 2 ^ 32 \<Longrightarrow> preamble_len n = varint_enc n"
proof (induction n rule: less_induct)
  case (less n)
  have t: "take_bit 32 n = n" using less.prems by (simp add: take_bit_nat_eq_self)
  show ?case
  proof (cases "n < 128")
    case True
    then show ?thesis
      using preamble_byte(2) [of n] by (subst preamble_len.simps) (simp add: t drop_bit_eq_div varint_enc.simps)
  next
    case False
    then have "preamble_len (n div 128) = varint_enc (n div 128)" using less by simp
    moreover have "0 < n div 128" using False by (simp add: div_greater_zero_iff)
    ultimately show ?thesis
      using False preamble_byte(1) [of n] by (subst preamble_len.simps) (simp add: t drop_bit_eq_div varint_enc.simps [of n] Let_def)
  qed
qed

text \<open>The packets that a sequence of slices completes, and the slices that remain.\<close>

fun assemble :: "bytes list \<Rightarrow> slice list \<Rightarrow> bytes list \<times> bytes list" where
  "assemble cur [] = ([], cur)"
| "assemble cur (s # ss) =
     (case slice_data s of
        None \<Rightarrow> assemble cur ss
      | Some d \<Rightarrow>
          (if lastSliceForPacket s
           then (concat (cur @ [d]) # fst (assemble [] ss), snd (assemble [] ss)) else assemble (cur @ [d]) ss))"

lemma assemble_append:
  "assemble cur (xs @ ys) = (fst (assemble cur xs) @ fst (assemble (snd (assemble cur xs)) ys),
     snd (assemble (snd (assemble cur xs)) ys))"
  by (induction xs arbitrary: cur) (auto split: option.split)

lemma push_slices_loop_ok:
  assumes "rab_inv b" and "\<forall>p\<in>set (fst (assemble cur ss)). length p < 2 ^ 32"
  shows "\<exists>b'. push_slices_loop ss cur b = Some (Inr (snd (assemble cur ss), b')) \<and> rab_inv b' \<and>
    rab_get b' = rab_get b @ encode_stream PROTO_PREAMBLE TRACE_PACKET_PROTO_TAG (fst (assemble cur ss))"
  using assms
proof (induction ss arbitrary: cur b)
  case (Cons s ss)
  show ?case
  proof (cases "slice_data s")
    case None
    with Cons show ?thesis by simp
  next
    case (Some d)
    show ?thesis
    proof (cases "lastSliceForPacket s")
      case False
      with Some Cons.IH [OF Cons.prems(1), of "cur @ [d]"] Cons.prems(2) show ?thesis by simp
    next
      case True
      let ?sl = "cur @ [d]"
      let ?pre = "TRACE_PACKET_PROTO_TAG # preamble_len (sum_list (map length ?sl))"
      have len: "sum_list (map length ?sl) = length (concat ?sl)" by (simp add: length_concat)
      have pre: "?pre @ concat ?sl = encode_frame PROTO_PREAMBLE TRACE_PACKET_PROTO_TAG (concat ?sl)"
        using Cons.prems(2) Some True unfolding len by (simp add: preamble_len_varint encode_frame_def)
      obtain b1 where b1: "rab_append_all (?pre # ?sl) b = Some (Inr b1)" "rab_inv b1"
        "rab_get b1 = rab_get b @ concat (?pre # ?sl)" using rab_append_all_ok [OF Cons.prems(1), of "?pre # ?sl"] by blast
      obtain b2 where b2: "push_slices_loop ss [] b1 = Some (Inr (snd (assemble [] ss), b2))" "rab_inv b2"
        "rab_get b2 = rab_get b1 @ encode_stream PROTO_PREAMBLE TRACE_PACKET_PROTO_TAG (fst (assemble [] ss))"
        using Cons.IH [OF b1(2), of "[]"] Cons.prems(2) Some True by auto
      have "push_slices_loop (s # ss) cur b = push_slices_loop ss [] b1"
        using b1(1) Some True by (simp add: Let_def)
      with b2 b1(3) pre Some True show ?thesis by simp
    qed
  qed
qed simp

lemma pushSlices_ok:
  assumes "\<forall>p\<in>set (fst (assemble cur ss)). length p < 2 ^ 32"
  shows "pushSlices ss cur = Some (Inr (encode_stream PROTO_PREAMBLE TRACE_PACKET_PROTO_TAG (fst (assemble cur ss)),
    snd (assemble cur ss)))"
proof -
  have "rab_inv (new_rab 4096)" "rab_get (new_rab 4096) = []" by (simp_all add: rab_inv_def new_rab_def rab_get_def)
  with push_slices_loop_ok [OF _ assms, of "new_rab 4096"] show ?thesis by (auto simp: pushSlices_def)
qed

text \<open>A sequence of responses through one assembler: the outputs and the slices left.\<close>

fun push_responses :: "slice list list \<Rightarrow> bytes list \<Rightarrow> (js_error + bytes list \<times> bytes list) option" where
  "push_responses [] cur = Some (Inr ([], cur))"
| "push_responses (r # rs) cur =
     (case pushSlices r cur of
        None \<Rightarrow> None
      | Some (Inl e) \<Rightarrow> Some (Inl e)
      | Some (Inr (out, cur')) \<Rightarrow>
          (case push_responses rs cur' of
             None \<Rightarrow> None
           | Some (Inl e) \<Rightarrow> Some (Inl e)
           | Some (Inr (outs, cur'')) \<Rightarrow> Some (Inr (out # outs, cur''))))"

lemma push_responses_ok:
  assumes "\<forall>p\<in>set (fst (assemble cur (concat rs))). length p < 2 ^ 32"
  shows "\<exists>outs. push_responses rs cur = Some (Inr (outs, snd (assemble cur (concat rs)))) \<and>
    concat outs = encode_stream PROTO_PREAMBLE TRACE_PACKET_PROTO_TAG (fst (assemble cur (concat rs)))"
  using assms
proof (induction rs arbitrary: cur)
  case (Cons r rs)
  let ?cur = "snd (assemble cur r)"
  have "\<forall>p\<in>set (fst (assemble cur r)). length p < 2 ^ 32"
    and rest: "\<forall>p\<in>set (fst (assemble ?cur (concat rs))). length p < 2 ^ 32"
    using Cons.prems by (auto simp: assemble_append)
  note p = pushSlices_ok [OF this(1)]
  from Cons.IH [OF rest] obtain outs where "push_responses rs ?cur = Some (Inr (outs, snd (assemble ?cur (concat rs))))"
    "concat outs = encode_stream PROTO_PREAMBLE TRACE_PACKET_PROTO_TAG (fst (assemble ?cur (concat rs)))" by blast
  with p show ?case by (simp add: assemble_append encode_stream_def)
qed simp

text \<open>
  C35. From slices to packets in the trace processor: however the slices of the packets are distributed over
  the responses of the tracing service, the outputs of the assembler, read by the tokenizer of the trace
  processor, are exactly the packets, in order.
\<close>

theorem slices_to_packets:
  assumes small: "\<forall>p\<in>set (fst (assemble [] (concat rs))). length p < kMaxMsgSize"
  shows "\<exists>outs. push_responses rs [] = Some (Inr (outs, snd (assemble [] (concat rs)))) \<and>
    ((\<forall>c\<in>set outs. length c \<le> kMaxMsgSize - 2 * kGrowBytes) \<longrightarrow>
     (\<exists>rb. feed (new_ring_buffer PROTO_PREAMBLE) outs = (fst (assemble [] (concat rs)), Inr rb) \<and> pending rb = []))"
proof -
  have "\<forall>p\<in>set (fst (assemble [] (concat rs))). length p < 2 ^ 32" using small by (auto simp: kMaxMsgSize_def)
  from push_responses_ok [OF this] obtain outs where
    o: "push_responses rs [] = Some (Inr (outs, snd (assemble [] (concat rs))))"
    and c: "concat outs = encode_stream PROTO_PREAMBLE TRACE_PACKET_PROTO_TAG (fst (assemble [] (concat rs)))" by blast
  moreover have "\<not> bad_tag TRACE_PACKET_PROTO_TAG" by (simp add: bad_tag_def TRACE_PACKET_PROTO_TAG_def)
  from feed_encoded [OF this small c] have "(\<forall>c\<in>set outs. length c \<le> kMaxMsgSize - 2 * kGrowBytes) \<longrightarrow>
    (\<exists>rb. feed (new_ring_buffer PROTO_PREAMBLE) outs = (fst (assemble [] (concat rs)), Inr rb) \<and> pending rb = [])" by blast
  ultimately show ?thesis by blast
qed

definition some_responses :: "slice list list" where
  "some_responses = [[\<lparr>slice_data = Some [1, 2], lastSliceForPacket = False\<rparr>],
     [\<lparr>slice_data = Some [3], lastSliceForPacket = True\<rparr>, \<lparr>slice_data = Some [4], lastSliceForPacket = False\<rparr>]]"

theorem slices_to_packets_witness:
  "\<exists>outs rb. push_responses some_responses [] = Some (Inr (outs, [[4]])) \<and>
     feed (new_ring_buffer PROTO_PREAMBLE) outs = ([[1, 2, 3]], Inr rb)"
proof -
  have a: "assemble [] (concat some_responses) = ([[1, 2, 3]], [[4]])" by (simp add: some_responses_def)
  obtain outs where o: "push_responses some_responses [] = Some (Inr (outs, [[4]]))"
    "concat outs = encode_stream PROTO_PREAMBLE TRACE_PACKET_PROTO_TAG [[1, 2, 3]]"
    using push_responses_ok [of "[]" some_responses] by (auto simp: a)
  have "length c \<le> length (concat outs)" if "c \<in> set outs" for c
    using that by (induction outs) auto
  moreover have "length (concat outs) = 5" unfolding o(2) by (simp add: encode_frame_def varint_enc.simps)
  ultimately have "\<forall>c\<in>set outs. length c \<le> kMaxMsgSize - 2 * kGrowBytes"
    by (force simp: kMaxMsgSize_def kGrowBytes_def)
  moreover have "\<forall>p\<in>set (fst (assemble [] (concat some_responses))). length p < kMaxMsgSize"
    by (simp add: a kMaxMsgSize_def)
  ultimately show ?thesis using slices_to_packets [of some_responses] o(1) unfolding a by auto
qed

end
