(* ===== verification/Tracing_Protocol.thy ===== *)
theory Tracing_Protocol
  imports Packet_Assembler Adb_Msg
begin

text \<open>
  \<^verbatim>\<open>plugins/dev.perfetto.RecordTraceV2/tracing_protocol/tracing_protocol.ts\<close>: the consumer side of the tracing
  protocol, which frames IPC messages over a byte stream, matches the replies to the invocations by
  request id and hands them to the decoder of the method. The generated encoders and decoders of the
  IPC messages are parameters. What a client sees is recorded: \<open>ipc_resolved\<close> holds the promises resolved so
  far; the callbacks \<open>onTraceData\<close> and \<open>onClose\<close>, which the client runs synchronously, are arguments that
  act on the protocol and on the client state \<open>ipc_client\<close>.
\<close>

subsection \<open>Messages\<close>

record ipc_reply =
  rp_success :: "bool option"
  rp_replyProto :: "bytes option"
  rp_hasMore :: bool

record bind_reply =
  br_success :: bool
  br_serviceId :: "nat option"
  br_methods :: "(string option \<times> nat option) list option"

record ipc_frame =
  fr_requestId :: nat
  fr_msg :: "string option"
  msgInvokeMethodReply :: "ipc_reply option"
  msgBindServiceReply :: "bind_reply option"

datatype ipc_request =
    BindService nat string
  | InvokeMethod nat nat nat bytes

record 'r ipc_protos =
  encodeFrame :: "ipc_request \<Rightarrow> bytes"
  decodeFrame :: "bytes \<Rightarrow> js_error + ipc_frame"
  decodeResp :: "string \<Rightarrow> bytes \<Rightarrow> js_error + 'r"
  createResp :: "string \<Rightarrow> 'r"
  decodeReadBuffers :: "bytes \<Rightarrow> js_error + slice list"
  decodeServiceState :: "bytes \<Rightarrow> js_error + 'r"

subsection \<open>State\<close>

text \<open>
  \<open>onResponse\<close> of a pending invocation is a closure over the promise of an \<open>invoke\<close>, over a \<open>PacketStream\<close> or over a
  \<open>ServiceStateMerger\<close>; these objects are kept per request id: the slices of the packet assembler and
  the buffer of the merger.
\<close>

datatype response_handler = UnaryResponse | PacketResponse | StateResponse

record pending_invoke =
  pi_methodName :: string
  pi_failSilently :: bool
  pi_onResponse :: response_handler

record ('r, 'c) protocol =
  ipc_rxBuf :: ring_buffer
  pendingInvokes :: "nat \<rightharpoonup> pending_invoke"
  ipc_requestId :: nat
  ipc_serviceId :: nat
  boundMethods :: "string \<rightharpoonup> nat"
  ipc_connected :: bool
  ipc_sent :: "bytes list"
  packet_slices :: "nat \<Rightarrow> bytes list"
  state_buf :: "nat \<Rightarrow> resizable_buffer"
  ipc_resolved :: "(nat \<times> 'r) list"
  ipc_client :: 'c

datatype ipc_error = Framing framing_error | Js js_error

type_synonym ('r, 'c) outcome = "(ipc_error option \<times> ('r, 'c) protocol) option"
type_synonym ('r, 'c) data_handler = "bytes \<Rightarrow> bool \<Rightarrow> ('r, 'c) protocol \<Rightarrow> ('r, 'c) outcome"

definition new_protocol :: "nat \<Rightarrow> (string \<rightharpoonup> nat) \<Rightarrow> 'c \<Rightarrow> ('r, 'c) protocol" where
  "new_protocol sid methods c = \<lparr>ipc_rxBuf = new_ring_buffer FIXED_SIZE, pendingInvokes = Map.empty, ipc_requestId = 2,
     ipc_serviceId = sid, boundMethods = methods, ipc_connected = True, ipc_sent = [], packet_slices = (\<lambda>_. []),
     state_buf = (\<lambda>_. new_rab 128), ipc_resolved = [], ipc_client = c\<rparr>"

subsection \<open>Sending\<close>

text \<open>The frame with its length in front, little-endian; a stream that is not connected ignores writes.\<close>

definition frame_bytes :: "'r ipc_protos \<Rightarrow> ipc_request \<Rightarrow> bytes" where
  "frame_bytes P req = (let enc = encodeFrame P req in u32_le (of_nat (length enc)) @ enc)"

definition sendFrame :: "'r ipc_protos \<Rightarrow> ipc_request \<Rightarrow> ('r, 'c) protocol \<Rightarrow> ('r, 'c) protocol" where
  "sendFrame P req p = (if ipc_connected p then p\<lparr>ipc_sent := ipc_sent p @ [frame_bytes P req]\<rparr> else p)"

text \<open>\<open>argsProto\<close> is the encoding of the arguments by the generated code.\<close>

definition beginInvoke ::
  "'r ipc_protos \<Rightarrow> string \<Rightarrow> bytes \<Rightarrow> pending_invoke \<Rightarrow> ('r, 'c) protocol \<Rightarrow> js_error + nat \<times> ('r, 'c) protocol" where
  "beginInvoke P methodName argsProto pend p =
     (case boundMethods p methodName of
        None \<Rightarrow> Inl (Thrown (''RPC Error: method '' @ methodName @ '' not supported''))
      | Some methodId \<Rightarrow>
          (let r = ipc_requestId p;
               p1 = sendFrame P (InvokeMethod r (ipc_serviceId p) methodId argsProto) (p\<lparr>ipc_requestId := r + 1\<rparr>)
           in Inr (r, p1\<lparr>pendingInvokes := (pendingInvokes p1)(r \<mapsto> pend)\<rparr>)))"

definition RPC_METHODS :: "(string \<times> bool) list" where
  "RPC_METHODS = [(''EnableTracing'', False), (''DisableTracing'', False), (''Flush'', True), (''FreeBuffers'', False),
     (''GetTraceStats'', False)]"

definition RPC_STREAMING_METHODS :: "(string \<times> response_handler) list" where
  "RPC_STREAMING_METHODS = [(''ReadBuffers'', PacketResponse), (''QueryServiceState'', StateResponse)]"

text \<open>
  The types admit only the names of the two tables; for any other name the access to the missing
  entry throws.
\<close>

definition invoke ::
  "'r ipc_protos \<Rightarrow> string \<Rightarrow> bytes \<Rightarrow> ('r, 'c) protocol \<Rightarrow> js_error + nat \<times> ('r, 'c) protocol" where
  "invoke P methodName args p =
     (case map_of RPC_METHODS methodName of
        None \<Rightarrow> Inl (Thrown ''TypeError'')
      | Some silent \<Rightarrow> beginInvoke P methodName args
          \<lparr>pi_methodName = methodName, pi_failSilently = silent, pi_onResponse = UnaryResponse\<rparr> p)"

definition invokeStreaming ::
  "'r ipc_protos \<Rightarrow> string \<Rightarrow> bytes \<Rightarrow> ('r, 'c) protocol \<Rightarrow> js_error + nat \<times> ('r, 'c) protocol" where
  "invokeStreaming P methodName args p =
     (case map_of RPC_STREAMING_METHODS methodName of
        None \<Rightarrow> Inl (Thrown ''TypeError'')
      | Some h \<Rightarrow> beginInvoke P methodName args
          \<lparr>pi_methodName = methodName, pi_failSilently = False, pi_onResponse = h\<rparr> p)"

subsection \<open>Decoders of the responses\<close>

definition resolve_promise :: "nat \<Rightarrow> 'r \<Rightarrow> ('r, 'c) protocol \<Rightarrow> ('r, 'c) protocol" where
  "resolve_promise r x p = p\<lparr>ipc_resolved := ipc_resolved p @ [(r, x)]\<rparr>"

definition unary_response ::
  "'r ipc_protos \<Rightarrow> string \<Rightarrow> nat \<Rightarrow> bytes option \<Rightarrow> bool \<Rightarrow> ('r, 'c) protocol \<Rightarrow> ('r, 'c) outcome" where
  "unary_response P methodName r data hasMore p =
     (if hasMore then Some (Some (Js AssertionFailed), p)
      else case data of
             None \<Rightarrow> Some (None, resolve_promise r (createResp P methodName) p)
           | Some d \<Rightarrow> (case decodeResp P methodName d of
                          Inl e \<Rightarrow> Some (Some (Js e), p)
                        | Inr x \<Rightarrow> Some (None, resolve_promise r x p)))"

definition PacketStream_decode ::
  "'r ipc_protos \<Rightarrow> ('r, 'c) data_handler \<Rightarrow> nat \<Rightarrow> bytes option \<Rightarrow> bool \<Rightarrow> ('r, 'c) protocol \<Rightarrow> ('r, 'c) outcome" where
  "PacketStream_decode P onTraceData r data hasMore p =
     (case data of
        None \<Rightarrow> onTraceData [] hasMore p
      | Some d \<Rightarrow>
          (case decodeReadBuffers P d of
             Inl e \<Rightarrow> Some (Some (Js e), p)
           | Inr rdresp \<Rightarrow>
               (case pushSlices rdresp (packet_slices p r) of
                  None \<Rightarrow> None
                | Some (Inl e) \<Rightarrow> Some (Some (Js e), p)
                | Some (Inr (packets, cur)) \<Rightarrow>
                    onTraceData packets hasMore (p\<lparr>packet_slices := (packet_slices p)(r := cur)\<rparr>))))"

definition merge_state :: "nat \<Rightarrow> bytes option \<Rightarrow> ('r, 'c) protocol \<Rightarrow> ('r, 'c) outcome" where
  "merge_state r data p =
     (case data of
        None \<Rightarrow> Some (None, p)
      | Some d \<Rightarrow>
          (case rab_append d (state_buf p r) of
             None \<Rightarrow> None
           | Some (Inl e) \<Rightarrow> Some (Some (Js e), p)
           | Some (Inr b) \<Rightarrow> Some (None, p\<lparr>state_buf := (state_buf p)(r := b)\<rparr>)))"

definition ServiceStateMerger_decode ::
  "'r ipc_protos \<Rightarrow> nat \<Rightarrow> bytes option \<Rightarrow> bool \<Rightarrow> ('r, 'c) protocol \<Rightarrow> ('r, 'c) outcome" where
  "ServiceStateMerger_decode P r data hasMore p =
     (case merge_state r data p of
        None \<Rightarrow> None
      | Some (Some e, p1) \<Rightarrow> Some (Some e, p1)
      | Some (None, p1) \<Rightarrow>
          (if hasMore then Some (None, p1)
           else (case decodeServiceState P (rab_get (state_buf p1 r)) of
                   Inl e \<Rightarrow> Some (Some (Js e), p1)
                 | Inr x \<Rightarrow> Some (None, resolve_promise r x
                     (p1\<lparr>state_buf := (state_buf p1)(r := rab_clear (state_buf p1 r))\<rparr>)))))"

definition on_response ::
  "'r ipc_protos \<Rightarrow> ('r, 'c) data_handler \<Rightarrow> pending_invoke \<Rightarrow> nat \<Rightarrow> bytes option \<Rightarrow> bool \<Rightarrow> ('r, 'c) protocol \<Rightarrow>
   ('r, 'c) outcome" where
  "on_response P onTraceData pend r data hasMore p =
     (case pi_onResponse pend of
        UnaryResponse \<Rightarrow> unary_response P (pi_methodName pend) r data hasMore p
      | PacketResponse \<Rightarrow> PacketStream_decode P onTraceData r data hasMore p
      | StateResponse \<Rightarrow> ServiceStateMerger_decode P r data hasMore p)"

subsection \<open>Receiving\<close>

definition handle_reply ::
  "'r ipc_protos \<Rightarrow> ('r, 'c) data_handler \<Rightarrow> nat \<Rightarrow> ipc_reply \<Rightarrow> ('r, 'c) protocol \<Rightarrow> ('r, 'c) outcome" where
  "handle_reply P onTraceData r reply p =
     (case pendingInvokes p r of
        None \<Rightarrow> Some (Some (Js AssertionFailed), p)
      | Some pend \<Rightarrow>
          (if rp_success reply = Some False \<and> \<not> pi_failSilently pend
           then Some (Some (Js (Thrown (''Tracing Protocol: '' @ pi_methodName pend @ '' failed''))), p)
           else (case on_response P onTraceData pend r (rp_replyProto reply) (rp_hasMore reply) p of
                   None \<Rightarrow> None
                 | Some (Some e, p1) \<Rightarrow> Some (Some e, p1)
                 | Some (None, p1) \<Rightarrow>
                     Some (None, if rp_hasMore reply then p1 else p1\<lparr>pendingInvokes := (pendingInvokes p1)(r := None)\<rparr>))))"

definition parseFrame :: "'r ipc_protos \<Rightarrow> ('r, 'c) data_handler \<Rightarrow> bytes \<Rightarrow> ('r, 'c) protocol \<Rightarrow> ('r, 'c) outcome" where
  "parseFrame P onTraceData frameData p =
     (case decodeFrame P frameData of
        Inl e \<Rightarrow> Some (Some (Js e), p)
      | Inr frame \<Rightarrow>
          (if fr_msg frame = Some ''msgInvokeMethodReply'' then
             (case msgInvokeMethodReply frame of
                None \<Rightarrow> Some (Some (Js AssertionFailed), p)
              | Some reply \<Rightarrow> handle_reply P onTraceData (fr_requestId frame) reply p)
           else Some (Some (Js (Thrown (''Tracing protocol: unrecognized frame '' @
             (case fr_msg frame of None \<Rightarrow> ''undefined'' | Some m \<Rightarrow> m)))), p)))"

partial_function (option) rx_loop :: "'r ipc_protos \<Rightarrow> ('r, 'c) data_handler \<Rightarrow> ('r, 'c) protocol \<Rightarrow> ('r, 'c) outcome" where
  "rx_loop protos onTraceData p =
     (case readMessage (ipc_rxBuf p) of
        Inl e \<Rightarrow> Some (Some (Framing e), p)
      | Inr (frameData, rb) \<Rightarrow>
          (case frameData of
             None \<Rightarrow> Some (None, p\<lparr>ipc_rxBuf := rb\<rparr>)
           | Some fd \<Rightarrow> Option.bind (parseFrame protos onTraceData fd (p\<lparr>ipc_rxBuf := rb\<rparr>))
               (\<lambda>(err, p1). if err = None then rx_loop protos onTraceData p1 else Some (err, p1))))"

definition onStreamData ::
  "'r ipc_protos \<Rightarrow> ('r, 'c) data_handler \<Rightarrow> bytes \<Rightarrow> ('r, 'c) protocol \<Rightarrow> ('r, 'c) outcome" where
  "onStreamData P onTraceData data p =
     (case append_data (ipc_rxBuf p) data of
        Inl e \<Rightarrow> Some (Some (Framing e), p)
      | Inr rb \<Rightarrow> rx_loop P onTraceData (p\<lparr>ipc_rxBuf := rb\<rparr>))"

subsection \<open>Closing and binding\<close>

text \<open>
  \<open>close\<close> closes the stream if it is connected. A stream that is closed calls its \<open>onClose\<close> handler at once,
  which is \<open>close\<close> again, now with the stream disconnected.
\<close>

definition close_disconnected :: "(('r, 'c) protocol \<Rightarrow> ('r, 'c) protocol) \<Rightarrow> ('r, 'c) protocol \<Rightarrow> ('r, 'c) protocol" where
  "close_disconnected onClose p = onClose (p\<lparr>pendingInvokes := Map.empty\<rparr>)"

definition protocol_close :: "(('r, 'c) protocol \<Rightarrow> ('r, 'c) protocol) \<Rightarrow> ('r, 'c) protocol \<Rightarrow> ('r, 'c) protocol" where
  "protocol_close onClose p =
     close_disconnected onClose
       (if ipc_connected p then close_disconnected onClose (p\<lparr>ipc_connected := False\<rparr>) else p)"

text \<open>
  \<open>create\<close>: the request sent first, the first message among the chunks received (\<open>None\<close> while it is
  incomplete), and the protocol built from the reply.
\<close>

definition bind_request :: "'r ipc_protos \<Rightarrow> bytes" where
  "bind_request P = frame_bytes P (BindService 1 ''ConsumerPort'')"

fun bind_wait :: "ring_buffer \<Rightarrow> bytes list \<Rightarrow> (framing_error + bytes) option" where
  "bind_wait rb [] = None"
| "bind_wait rb (c # cs) =
     (case append_data rb c of
        Inl e \<Rightarrow> Some (Inl e)
      | Inr rb1 \<Rightarrow> (case readMessage rb1 of
                      Inl e \<Rightarrow> Some (Inl e)
                    | Inr (None, rb2) \<Rightarrow> bind_wait rb2 cs
                    | Inr (Some m, rb2) \<Rightarrow> Some (Inr m)))"

fun bind_methods :: "(string option \<times> nat option) list \<Rightarrow> (string \<rightharpoonup> nat) \<Rightarrow> js_error + (string \<rightharpoonup> nat)" where
  "bind_methods [] ms = Inr ms"
| "bind_methods ((Some n, Some i) # rest) ms = bind_methods rest (ms(n \<mapsto> i))"
| "bind_methods (_ # rest) ms = Inl AssertionFailed"

definition bind_protocol :: "'r ipc_protos \<Rightarrow> bytes \<Rightarrow> 'c \<Rightarrow> js_error + ('r, 'c) protocol" where
  "bind_protocol P frameData c =
     (case decodeFrame P frameData of
        Inl e \<Rightarrow> Inl e
      | Inr rxFrame \<Rightarrow>
          (if fr_msg rxFrame \<noteq> Some ''msgBindServiceReply'' then Inl AssertionFailed
           else case msgBindServiceReply rxFrame of
                  None \<Rightarrow> Inl AssertionFailed
                | Some reply \<Rightarrow>
                    (if \<not> br_success reply then Inl AssertionFailed
                     else case (br_serviceId reply, br_methods reply) of
                            (Some sid, Some methods) \<Rightarrow>
                              (case bind_methods methods Map.empty of
                                 Inl e \<Rightarrow> Inl e
                               | Inr ms \<Rightarrow> Inr (new_protocol sid ms c))
                          | _ \<Rightarrow> Inl AssertionFailed)))"

definition create_protocol ::
  "'r ipc_protos \<Rightarrow> bytes list \<Rightarrow> 'c \<Rightarrow> (ipc_error + ('r, 'c) protocol) option" where
  "create_protocol P chunks c =
     (case bind_wait (new_ring_buffer FIXED_SIZE) chunks of
        None \<Rightarrow> None
      | Some (Inl e) \<Rightarrow> Some (Inl (Framing e))
      | Some (Inr m) \<Rightarrow> Some (case bind_protocol P m c of Inl e \<Rightarrow> Inl (Js e) | Inr p \<Rightarrow> Inr p))"

end
