(* ===== verification/Tracing_Session.thy ===== *)
theory Tracing_Session
  imports Tracing_Protocol
begin

text \<open>
  \<^verbatim>\<open>plugins/dev.perfetto.RecordTraceV2/tracing_protocol/consumer_ipc_tracing_session.ts\<close>: a recording session, the client
  of the tracing protocol. The session is the client state of the protocol record, because the
  callbacks run inside the protocol. The code after an \<open>await\<close> of an \<open>async\<close> method is a continuation: it
  is kept in \<open>ses_waits\<close> under the id of the request and runs some time after the promise is resolved.
\<close>

subsection \<open>State\<close>

datatype session_state = RECORDING | STOPPING | FINISHED | ERRORED

datatype continuation = AfterEnableTracing | AfterFlush | AfterFreeBuffers

record session =
  ses_state :: session_state
  ses_logs :: "(string \<times> bool) list"
  ses_traceBuf :: resizable_buffer
  ses_waits :: "(nat \<times> continuation) list"

type_synonym 'r sess = "('r, session) protocol"

datatype session_request =
    EnableTracingRequest bytes
  | FlushRequest nat
  | DisableTracingRequest
  | FreeBuffersRequest
  | ReadBuffersRequest

text \<open>The generated code that the session uses: the encoders of its requests and the field \<open>error\<close> of a response.\<close>

record 'r session_env =
  env_protos :: "'r ipc_protos"
  encodeArgs :: "session_request \<Rightarrow> bytes"
  resp_error :: "'r \<Rightarrow> string"

definition new_session :: session where
  "new_session = \<lparr>ses_state = RECORDING, ses_logs = [], ses_traceBuf = new_rab (64 * 1024), ses_waits = []\<rparr>"

definition state_of :: "'r sess \<Rightarrow> session_state" where
  "state_of p = ses_state (ipc_client p)"

definition setState :: "session_state \<Rightarrow> 'r sess \<Rightarrow> 'r sess" where
  "setState s p = p\<lparr>ipc_client := (ipc_client p)\<lparr>ses_state := s\<rparr>\<rparr>"

definition ses_log :: "string \<Rightarrow> bool \<Rightarrow> 'r sess \<Rightarrow> 'r sess" where
  "ses_log msg isError p = p\<lparr>ipc_client := (ipc_client p)\<lparr>ses_logs := ses_logs (ipc_client p) @ [(msg, isError)]\<rparr>\<rparr>"

subsection \<open>Failing and closing\<close>

text \<open>
  \<open>fail\<close> closes the protocol, which calls \<open>onProtocolClose\<close>, which calls \<open>fail\<close> when the session is recording.
  The recursion ends at depth two, because \<open>fail\<close> sets the state first: the first argument counts
  the depth, and the value 2 is enough (\<open>onProtocolClose_fuel\<close>).
\<close>

definition fail_via :: "('r sess \<Rightarrow> 'r sess) \<Rightarrow> string \<Rightarrow> 'r sess \<Rightarrow> 'r sess" where
  "fail_via close error p = close (setState ERRORED (ses_log (''Tracing failed: '' @ error) True p))"

fun onProtocolClose :: "nat \<Rightarrow> 'r sess \<Rightarrow> 'r sess" where
  "onProtocolClose 0 p = p"
| "onProtocolClose (Suc n) p =
     (if state_of p = RECORDING
      then fail_via (protocol_close (onProtocolClose n)) ''Protocol disconnected'' (setState ERRORED p)
      else p)"

definition session_close :: "'r sess \<Rightarrow> 'r sess" where
  "session_close = protocol_close (onProtocolClose 2)"

definition session_fail :: "string \<Rightarrow> 'r sess \<Rightarrow> 'r sess" where
  "session_fail = fail_via session_close"

text \<open>The stream reports that it is closed.\<close>

definition stream_closed :: "'r sess \<Rightarrow> 'r sess" where
  "stream_closed p = session_close (p\<lparr>ipc_connected := False\<rparr>)"

subsection \<open>The operations\<close>

text \<open>
  \<open>await this.consumerIpc.invoke(...)\<close>: an error of \<open>invoke\<close> rejects the promise of the \<open>async\<close> method, which
  nobody handles.
\<close>

definition await_invoke ::
  "'r session_env \<Rightarrow> string \<Rightarrow> session_request \<Rightarrow> continuation option \<Rightarrow> 'r sess \<Rightarrow> 'r sess" where
  "await_invoke E methodName req k p =
     (case invoke (env_protos E) methodName (encodeArgs E req) p of
        Inl e \<Rightarrow> p
      | Inr (r, p1) \<Rightarrow>
          (case k of
             None \<Rightarrow> p1
           | Some c \<Rightarrow> p1\<lparr>ipc_client := (ipc_client p1)\<lparr>ses_waits := ses_waits (ipc_client p1) @ [(r, c)]\<rparr>\<rparr>))"

definition session_start :: "'r session_env \<Rightarrow> bytes \<Rightarrow> string \<Rightarrow> 'r sess \<Rightarrow> 'r sess" where
  "session_start E traceConfig durationMs p =
     await_invoke E ''EnableTracing'' (EnableTracingRequest traceConfig) (Some AfterEnableTracing)
       (ses_log (''Starting trace, durationMs: '' @ durationMs) False p)"

definition session_stop :: "'r session_env \<Rightarrow> 'r sess \<Rightarrow> 'r sess" where
  "session_stop E p =
     (if state_of p \<noteq> RECORDING then p
      else await_invoke E ''Flush'' (FlushRequest (or (push_bit 4 2) 2)) (Some AfterFlush)
        (ses_log ''Flushing data sources'' False (setState STOPPING p)))"

definition stop_flushed :: "'r session_env \<Rightarrow> 'r sess \<Rightarrow> 'r sess" where
  "stop_flushed E p =
     await_invoke E ''DisableTracing'' DisableTracingRequest None (ses_log ''Flush complete, stopping trace'' False p)"

definition session_cancel :: "'r session_env \<Rightarrow> 'r sess \<Rightarrow> 'r sess" where
  "session_cancel E p =
     (if state_of p \<notin> {RECORDING, STOPPING} then p
      else await_invoke E ''FreeBuffers'' FreeBuffersRequest (Some AfterFreeBuffers) p)"

definition onTraceStopped :: "'r session_env \<Rightarrow> string \<Rightarrow> 'r sess \<Rightarrow> 'r sess" where
  "onTraceStopped E error p =
     (if error \<noteq> '''' then session_fail error p
      else if state_of p \<notin> {STOPPING, RECORDING} then p
      else
        (let p1 = ses_log ''Tracing stopped. Reading back data'' False (setState STOPPING p)
         in case invokeStreaming (env_protos E) ''ReadBuffers'' (encodeArgs E ReadBuffersRequest) p1 of
              Inl e \<Rightarrow> p1
            | Inr (r, p2) \<Rightarrow> p2))"

definition getTraceData :: "'r sess \<Rightarrow> bytes option" where
  "getTraceData p = (if state_of p \<noteq> FINISHED then None else Some (rab_get (ses_traceBuf (ipc_client p))))"

definition onTraceData :: "('r, session) data_handler" where
  "onTraceData packets hasMore p =
     (case rab_append packets (ses_traceBuf (ipc_client p)) of
        None \<Rightarrow> None
      | Some (Inl e) \<Rightarrow> Some (Some (Js e), p)
      | Some (Inr b) \<Rightarrow>
          (let p1 = p\<lparr>ipc_client := (ipc_client p)\<lparr>ses_traceBuf := b\<rparr>\<rparr>
           in Some (None, if hasMore then p1 else session_close (setState FINISHED p1))))"

text \<open>The code after an \<open>await\<close>, with the response.\<close>

definition resume :: "'r session_env \<Rightarrow> nat \<Rightarrow> continuation \<Rightarrow> 'r \<Rightarrow> 'r sess \<Rightarrow> 'r sess" where
  "resume E r k resp p =
     (let p1 = p\<lparr>ipc_client := (ipc_client p)\<lparr>ses_waits := filter (\<lambda>w. fst w \<noteq> r) (ses_waits (ipc_client p))\<rparr>\<rparr>
      in case k of
           AfterEnableTracing \<Rightarrow> onTraceStopped E (resp_error E resp) p1
         | AfterFlush \<Rightarrow> stop_flushed E p1
         | AfterFreeBuffers \<Rightarrow> session_fail ''Trace cancelled'' p1)"

definition session_receive :: "'r session_env \<Rightarrow> bytes \<Rightarrow> 'r sess \<Rightarrow> ('r, session) outcome" where
  "session_receive E = onStreamData (env_protos E) onTraceData"

fun session_receive_all :: "'r session_env \<Rightarrow> bytes list \<Rightarrow> 'r sess \<Rightarrow> ('r, session) outcome" where
  "session_receive_all E [] p = Some (None, p)"
| "session_receive_all E (c # cs) p =
     (case session_receive E c p of
        None \<Rightarrow> None
      | Some (Some e, p1) \<Rightarrow> Some (Some e, p1)
      | Some (None, p1) \<Rightarrow> session_receive_all E cs p1)"

text \<open>The steps of a session: chunks from the stream, its end, the user, and the continuations.\<close>

inductive session_step :: "'r session_env \<Rightarrow> 'r sess \<Rightarrow> 'r sess \<Rightarrow> bool" for E where
  data_step: "ipc_connected p \<Longrightarrow> session_receive E data p = Some (err, p') \<Longrightarrow> session_step E p p'"
| lost_step: "ipc_connected p \<Longrightarrow> session_step E p (stream_closed p)"
| stop_step: "session_step E p (session_stop E p)"
| cancel_step: "session_step E p (session_cancel E p)"
| resume_step: "(r, k) \<in> set (ses_waits (ipc_client p)) \<Longrightarrow> (r, resp) \<in> set (ipc_resolved p) \<Longrightarrow>
    session_step E p (resume E r k resp p)"

inductive session_steps :: "'r session_env \<Rightarrow> 'r sess \<Rightarrow> 'r sess \<Rightarrow> bool" for E where
  no_step: "session_steps E p p"
| one_more: "session_steps E p q \<Longrightarrow> session_step E q q' \<Longrightarrow> session_steps E p q'"

end
