(* ===== verification/Tracing_Correct.thy ===== *)
theory Tracing_Correct
  imports Tracing_Session Frame_Client
begin

text \<open>
  Correctness of the recording side: the tracing protocol as a client of the ring buffer (\<open>frame_client\<close>), the
  trace data of a session from the chunks of the stream to \<open>getTraceData\<close>, and the state machine of a
  session.
\<close>

subsection \<open>The session as a client of the protocol\<close>

abbreviation put_rxBuf :: "ring_buffer \<Rightarrow> ('r, 'c) protocol \<Rightarrow> ('r, 'c) protocol" where
  "put_rxBuf rb p \<equiv> p\<lparr>ipc_rxBuf := rb\<rparr>"

lemma put_rxBuf_comm:
  fixes p :: "('r, 'c) protocol"
  shows "(put_rxBuf rb p)\<lparr>pendingInvokes := a\<rparr> = put_rxBuf rb (p\<lparr>pendingInvokes := a\<rparr>)"
    "(put_rxBuf rb p)\<lparr>ipc_connected := b\<rparr> = put_rxBuf rb (p\<lparr>ipc_connected := b\<rparr>)"
    "(put_rxBuf rb p)\<lparr>ipc_client := c\<rparr> = put_rxBuf rb (p\<lparr>ipc_client := c\<rparr>)"
    "(put_rxBuf rb p)\<lparr>packet_slices := d\<rparr> = put_rxBuf rb (p\<lparr>packet_slices := d\<rparr>)"
    "(put_rxBuf rb p)\<lparr>state_buf := e\<rparr> = put_rxBuf rb (p\<lparr>state_buf := e\<rparr>)"
    "(put_rxBuf rb p)\<lparr>ipc_resolved := f\<rparr> = put_rxBuf rb (p\<lparr>ipc_resolved := f\<rparr>)"
  by (cases p, simp)+

lemma protocol_close_put:
  assumes "\<And>q. oc (put_rxBuf rb q) = put_rxBuf rb (oc q)"
  shows "protocol_close oc (put_rxBuf rb p) = put_rxBuf rb (protocol_close oc p)"
  by (simp add: protocol_close_def close_disconnected_def put_rxBuf_comm assms)

lemma setState_put: "setState st (put_rxBuf rb p) = put_rxBuf rb (setState st p)"
  by (simp add: setState_def put_rxBuf_comm)

lemma onProtocolClose_put: "onProtocolClose n (put_rxBuf rb p) = put_rxBuf rb (onProtocolClose n p)"
  by (induction n arbitrary: p)
    (simp_all add: fail_via_def state_of_def setState_put ses_log_def put_rxBuf_comm protocol_close_put)

lemma session_close_put: "session_close (put_rxBuf rb p) = put_rxBuf rb (session_close p)"
  by (simp add: session_close_def protocol_close_put onProtocolClose_put del: onProtocolClose.simps)

lemma onTraceData_put:
  "onTraceData d hm (put_rxBuf rb p) = map_option (map_prod id (put_rxBuf rb)) (onTraceData d hm p)"
  by (simp add: onTraceData_def Let_def put_rxBuf_comm setState_put session_close_put split: option.split sum.split)

lemma on_response_put:
  "on_response P onTraceData pend r d hm (put_rxBuf rb p) =
     map_option (map_prod id (put_rxBuf rb)) (on_response P onTraceData pend r d hm p)"
  by (cases "pi_onResponse pend")
    (simp_all add: on_response_def unary_response_def resolve_promise_def PacketStream_decode_def onTraceData_put
      ServiceStateMerger_decode_def merge_state_def put_rxBuf_comm split: option.split sum.split prod.split)

lemma parseFrame_put:
  "parseFrame P onTraceData m (put_rxBuf rb p) = map_option (map_prod id (put_rxBuf rb)) (parseFrame P onTraceData m p)"
  by (simp add: parseFrame_def handle_reply_def on_response_put put_rxBuf_comm split: option.split sum.split prod.split)

interpretation tp: frame_client ipc_rxBuf put_rxBuf "parseFrame P onTraceData" "rx_loop P onTraceData" Framing for P
proof unfold_locales
  show "rx_loop P onTraceData p =
      (case readMessage (ipc_rxBuf p) of
         Inl e \<Rightarrow> Some (Some (Framing e), p)
       | Inr (None, rb) \<Rightarrow> Some (None, put_rxBuf rb p)
       | Inr (Some m, rb) \<Rightarrow> (case parseFrame P onTraceData m (put_rxBuf rb p) of
             None \<Rightarrow> None | Some (Some e, s') \<Rightarrow> Some (Some e, s') | Some (None, s') \<Rightarrow> rx_loop P onTraceData s'))" for p
    by (subst rx_loop.simps) (simp split: sum.split prod.split option.split)
qed (simp_all add: parseFrame_put)

lemma session_receive_all_tp: "session_receive_all E cs p = tp.receive_all (env_protos E) cs p"
  by (induction cs arbitrary: p)
    (simp_all add: tp.receive_def session_receive_def onStreamData_def split: option.split)

subsection \<open>Reading a trace back\<close>

lemma session_close_quiet:
  assumes "state_of p \<noteq> RECORDING"
  shows "session_close p = p\<lparr>ipc_connected := False, pendingInvokes := Map.empty\<rparr>"
proof -
  have q: "onProtocolClose 2 q = q" if "state_of q \<noteq> RECORDING" for q :: "'a sess"
    using that by (simp add: numeral_2_eq_2)
  have "state_of (p\<lparr>pendingInvokes := a\<rparr>) \<noteq> RECORDING" "state_of (p\<lparr>ipc_connected := b, pendingInvokes := a\<rparr>) \<noteq> RECORDING"
    for a b using assms by (simp_all add: state_of_def)
  then show ?thesis
    by (cases p) (auto simp: session_close_def protocol_close_def close_disconnected_def q simp del: onProtocolClose.simps)
qed

text \<open>
  What the code relies on in the generated decoders: the bytes \<open>f\<close> are a reply to request \<open>r\<close> that carries the
  slices \<open>ss\<close>.
\<close>

definition read_reply :: "'r ipc_protos \<Rightarrow> nat \<Rightarrow> bytes \<Rightarrow> slice list \<Rightarrow> bool \<Rightarrow> bool" where
  "read_reply P r f ss hm \<longleftrightarrow>
     (\<exists>fr reply d. decodeFrame P f = Inr fr \<and> fr_requestId fr = r \<and> fr_msg fr = Some ''msgInvokeMethodReply'' \<and>
        msgInvokeMethodReply fr = Some reply \<and> rp_success reply \<noteq> Some False \<and> rp_replyProto reply = Some d \<and>
        rp_hasMore reply = hm \<and> decodeReadBuffers P d = Inr ss)"

fun read_replies :: "'r ipc_protos \<Rightarrow> nat \<Rightarrow> bytes list \<Rightarrow> slice list list \<Rightarrow> bool" where
  "read_replies P r (f # fs) (ss # rs) = (read_reply P r f ss (fs \<noteq> []) \<and> (fs = [] \<and> rs = [] \<or> read_replies P r fs rs))"
| "read_replies P r _ _ = False"

definition reading_back :: "nat \<Rightarrow> bytes list \<Rightarrow> bytes \<Rightarrow> 'r sess \<Rightarrow> bool" where
  "reading_back r cur out p \<longleftrightarrow> state_of p = STOPPING \<and>
     map_option pi_onResponse (pendingInvokes p r) = Some PacketResponse \<and> packet_slices p r = cur \<and>
     rab_inv (ses_traceBuf (ipc_client p)) \<and> rab_get (ses_traceBuf (ipc_client p)) = out"

abbreviation packet_bytes :: "bytes list \<Rightarrow> bytes" where
  "packet_bytes \<equiv> encode_stream PROTO_PREAMBLE TRACE_PACKET_PROTO_TAG"

lemma parse_read_reply:
  assumes rb: "reading_back r cur out p" and rr: "read_reply P r f ss hm"
    and small: "\<forall>pkt\<in>set (fst (assemble cur ss)). length pkt < 2 ^ 32"
  shows "\<exists>b. rab_inv b \<and> rab_get b = out @ packet_bytes (fst (assemble cur ss)) \<and>
    parseFrame P onTraceData f p = Some (None,
      (let p1 = p\<lparr>packet_slices := (packet_slices p)(r := snd (assemble cur ss)), ipc_client := (ipc_client p)\<lparr>ses_traceBuf := b\<rparr>\<rparr>
       in if hm then p1 else (session_close (setState FINISHED p1))\<lparr>pendingInvokes := Map.empty\<rparr>))"
proof -
  obtain pend where pend: "pendingInvokes p r = Some pend" "pi_onResponse pend = PacketResponse"
    using rb by (auto simp: reading_back_def)
  obtain b where b: "rab_append (packet_bytes (fst (assemble cur ss))) (ses_traceBuf (ipc_client p)) = Some (Inr b)"
      "rab_inv b" "rab_get b = out @ packet_bytes (fst (assemble cur ss))"
    using rab_append_ok [of "ses_traceBuf (ipc_client p)" "packet_bytes (fst (assemble cur ss))"] rb
    by (auto simp: reading_back_def)
  let ?p1 = "p\<lparr>packet_slices := (packet_slices p)(r := snd (assemble cur ss)), ipc_client := (ipc_client p)\<lparr>ses_traceBuf := b\<rparr>\<rparr>"
  have "pendingInvokes (session_close (setState FINISHED q)) = Map.empty" for q :: "'a sess"
    by (subst session_close_quiet) (simp_all add: state_of_def setState_def)
  then have cl: "(session_close (setState FINISHED ?p1))\<lparr>pendingInvokes := (pendingInvokes (session_close (setState FINISHED ?p1)))(r := None)\<rparr> =
      (session_close (setState FINISHED ?p1))\<lparr>pendingInvokes := Map.empty\<rparr>" by simp
  have "packet_slices p r = cur" using rb by (simp add: reading_back_def)
  then have "on_response P onTraceData pend r (Some d) hm p = Some (None, if hm then ?p1 else session_close (setState FINISHED ?p1))"
    if "decodeReadBuffers P d = Inr ss" for d
    using that pend(2) pushSlices_ok [OF small] b(1)
    by (simp add: on_response_def PacketStream_decode_def onTraceData_def Let_def)
  with rr pend(1) cl b(2,3) show ?thesis
    by (auto simp: read_reply_def parseFrame_def handle_reply_def Let_def)
qed

lemma handle_read_replies:
  assumes "reading_back r cur out p" and "read_replies P r fs rs"
    and "\<forall>pkt\<in>set (fst (assemble cur (concat rs))). length pkt < 2 ^ 32"
  shows "\<exists>p'. tp.handle_all P fs p = Some (None, p') \<and>
    getTraceData p' = Some (out @ packet_bytes (fst (assemble cur (concat rs)))) \<and>
    \<not> ipc_connected p' \<and> pendingInvokes p' = Map.empty"
  using assms
proof (induction P r fs rs arbitrary: cur out p rule: read_replies.induct)
  case (1 P r f fs ss rs)
  have small: "\<forall>pkt\<in>set (fst (assemble cur ss)). length pkt < 2 ^ 32"
      "\<forall>pkt\<in>set (fst (assemble (snd (assemble cur ss)) (concat rs))). length pkt < 2 ^ 32"
    using "1.prems"(3) by (auto simp: assemble_append)
  have rr: "read_reply P r f ss (fs \<noteq> [])" using "1.prems"(2) by simp
  from parse_read_reply [OF "1.prems"(1) rr small(1)] obtain b where b: "rab_inv b"
      "rab_get b = out @ packet_bytes (fst (assemble cur ss))" and ps: "parseFrame P onTraceData f p = Some (None,
      (let p1 = p\<lparr>packet_slices := (packet_slices p)(r := snd (assemble cur ss)), ipc_client := (ipc_client p)\<lparr>ses_traceBuf := b\<rparr>\<rparr>
       in if fs \<noteq> [] then p1 else (session_close (setState FINISHED p1))\<lparr>pendingInvokes := Map.empty\<rparr>))" by blast
  let ?p1 = "p\<lparr>packet_slices := (packet_slices p)(r := snd (assemble cur ss)), ipc_client := (ipc_client p)\<lparr>ses_traceBuf := b\<rparr>\<rparr>"
  show ?case
  proof (cases "fs = []")
    case True
    have "state_of (setState FINISHED ?p1) = FINISHED" by (simp add: state_of_def setState_def)
    then show ?thesis using True ps b "1.prems"(2)
      by (simp add: session_close_quiet Let_def getTraceData_def) (simp add: state_of_def setState_def)
  next
    case False
    have "reading_back r (snd (assemble cur ss)) (out @ packet_bytes (fst (assemble cur ss))) ?p1"
      using "1.prems"(1) b by (simp add: reading_back_def state_of_def)
    from "1.IH" [OF this _ small(2)] False "1.prems"(2) ps show ?thesis
      by (auto simp: Let_def assemble_append encode_stream_def)
  qed
qed simp_all

text \<open>
  C40. Reading a trace back, from the stream to the trace file: when the session has stopped tracing and
  its \<open>ReadBuffers\<close> invocation is pending, and the service answers it with any number of replies whose slices
  spread the packets in any way, then however the framed replies are cut into chunks, the session
  ends in \<open>FINISHED\<close> with the protocol closed, and \<open>getTraceData\<close> returns exactly the complete packets, in order,
  each with its preamble.
\<close>

theorem session_reads_trace_back:
  assumes start: "reading_back r [] [] p" "ipc_rxBuf p = new_ring_buffer FIXED_SIZE"
    and replies: "read_replies (env_protos E) r frames rs"
    and stream: "concat chunks = encode_stream FIXED_SIZE 10 frames"
    and sizes: "\<forall>f\<in>set frames. length f < kMaxMsgSize" "\<forall>c\<in>set chunks. length c \<le> kMaxMsgSize - 2 * kGrowBytes"
      "\<forall>pkt\<in>set (fst (assemble [] (concat rs))). length pkt < 2 ^ 32"
  shows "\<exists>p'. session_receive_all E chunks p = Some (None, p') \<and> state_of p' = FINISHED \<and>
    getTraceData p' = Some (encode_stream PROTO_PREAMBLE TRACE_PACKET_PROTO_TAG (fst (assemble [] (concat rs)))) \<and>
    \<not> ipc_connected p' \<and> pendingInvokes p' = Map.empty"
proof -
  obtain p' where h: "tp.handle_all (env_protos E) frames p = Some (None, p')"
      "getTraceData p' = Some (packet_bytes (fst (assemble [] (concat rs))))" "\<not> ipc_connected p'" "pendingInvokes p' = Map.empty"
    using handle_read_replies [OF start(1) replies sizes(3)] by auto
  have "\<not> bad_tag 10" by (simp add: bad_tag_def)
  from tp.receive_encoded [OF start(2) _ this sizes(1) stream sizes(2) h(1)]
  obtain rb where "session_receive_all E chunks p = Some (None, put_rxBuf rb p')"
    by (auto simp: session_receive_all_tp)
  moreover have "state_of p' = FINISHED" using h(2) by (simp add: getTraceData_def split: if_splits)
  ultimately show ?thesis using h by (auto simp: getTraceData_def state_of_def)
qed

definition toy_protos :: "unit ipc_protos" where
  "toy_protos = \<lparr>encodeFrame = (\<lambda>_. []),
     decodeFrame = (\<lambda>f. case f of
        [] \<Rightarrow> Inl AssertionFailed
      | b # d \<Rightarrow> Inr \<lparr>fr_requestId = 2, fr_msg = Some ''msgInvokeMethodReply'',
          msgInvokeMethodReply = Some \<lparr>rp_success = Some True, rp_replyProto = Some d, rp_hasMore = b = 1\<rparr>,
          msgBindServiceReply = None\<rparr>),
     decodeResp = (\<lambda>_ _. Inr ()), createResp = (\<lambda>_. ()),
     decodeReadBuffers = (\<lambda>d. Inr [\<lparr>slice_data = Some d, lastSliceForPacket = True\<rparr>]),
     decodeServiceState = (\<lambda>_. Inr ())\<rparr>"

definition toy_env :: "unit session_env" where
  "toy_env = \<lparr>env_protos = toy_protos, encodeArgs = (\<lambda>_. []), resp_error = (\<lambda>_. [])\<rparr>"

definition stopped_session :: "unit sess" where
  "stopped_session = (new_protocol 1 Map.empty (new_session\<lparr>ses_state := STOPPING\<rparr>))\<lparr>pendingInvokes :=
     [2 \<mapsto> \<lparr>pi_methodName = ''ReadBuffers'', pi_failSilently = False, pi_onResponse = PacketResponse\<rparr>]\<rparr>"

theorem session_reads_trace_back_witness:
  "\<exists>p'. session_receive_all toy_env [[2, 0, 0, 0, 1], [5, 3, 0, 0, 0, 0, 6, 7]] stopped_session = Some (None, p') \<and>
     getTraceData p' = Some [10, 1, 5, 10, 2, 6, 7]"
proof -
  let ?rs = "[[\<lparr>slice_data = Some [5], lastSliceForPacket = True\<rparr>], [\<lparr>slice_data = Some [6, 7], lastSliceForPacket = True\<rparr>]]"
  have "reading_back 2 [] [] stopped_session" "ipc_rxBuf stopped_session = new_ring_buffer FIXED_SIZE"
    by (simp_all add: reading_back_def stopped_session_def new_protocol_def new_session_def state_of_def rab_inv_def
      rab_get_def new_rab_def)
  moreover have "read_replies (env_protos toy_env) 2 [[1, 5], [0, 6, 7]] ?rs"
    by (simp add: toy_env_def toy_protos_def read_reply_def)
  moreover have "concat [[2, 0, 0, 0, 1], [5, 3, 0, 0, 0, 0, 6, 7]] = encode_stream FIXED_SIZE 10 [[1, 5], [0, 6, 7]]"
    by (simp add: encode_frame_def le32_def)
  moreover have "packet_bytes (fst (assemble [] (concat ?rs))) = [10, 1, 5, 10, 2, 6, 7]"
    by (simp add: encode_frame_def varint_enc.simps TRACE_PACKET_PROTO_TAG_def)
  ultimately show ?thesis
    using session_reads_trace_back [of 2 stopped_session toy_env "[[1, 5], [0, 6, 7]]" ?rs "[[2, 0, 0, 0, 1], [5, 3, 0, 0, 0, 0, 6, 7]]"]
    by (force simp: kMaxMsgSize_def kGrowBytes_def)
qed

subsection \<open>The state machine of a session\<close>

lemma beginInvoke_sel:
  assumes "beginInvoke P m args pend p = Inr (r, p1)"
  shows "ipc_connected p1 = ipc_connected p \<and> ipc_client p1 = ipc_client p \<and> ipc_resolved p1 = ipc_resolved p \<and>
    r = ipc_requestId p \<and> ipc_requestId p1 = Suc r \<and> pendingInvokes p1 = (pendingInvokes p)(r \<mapsto> pend)"
  using assms by (cases "ipc_connected p") (auto simp: beginInvoke_def sendFrame_def Let_def split: option.splits)

lemma invoke_sel:
  assumes "invoke P m args p = Inr (r, p1) \<or> invokeStreaming P m args p = Inr (r, p1)"
  shows "ipc_connected p1 = ipc_connected p \<and> ipc_client p1 = ipc_client p \<and> ipc_resolved p1 = ipc_resolved p \<and>
    r = ipc_requestId p \<and> ipc_requestId p1 = Suc r \<and> dom (pendingInvokes p1) = insert r (dom (pendingInvokes p))"
  using assms by (auto simp: invoke_def invokeStreaming_def split: option.splits dest!: beginInvoke_sel)

text \<open>Request ids are fresh; the first part of the invariant.\<close>

definition ids_ok :: "('r, 'c) protocol \<Rightarrow> bool" where
  "ids_ok p \<longleftrightarrow> dom (pendingInvokes p) \<subseteq> {..<ipc_requestId p} \<and> fst ` set (ipc_resolved p) \<subseteq> {..<ipc_requestId p}"

lemma ids_ok_invoke:
  assumes "invoke P m args p = Inr (r, p1) \<or> invokeStreaming P m args p = Inr (r, p1)" and "ids_ok p"
  shows "ids_ok p1"
proof -
  note sel = invoke_sel [OF assms(1)]
  have "dom (pendingInvokes p1) \<subseteq> insert r {..<r}" "fst ` set (ipc_resolved p1) \<subseteq> {..<r}"
    using sel assms(2) by (auto simp: ids_ok_def)
  then show ?thesis using sel by (auto simp: ids_ok_def lessThan_Suc)
qed

definition link_ok :: "'r sess \<Rightarrow> bool" where
  "link_ok p \<longleftrightarrow> (state_of p = RECORDING \<longrightarrow> ipc_connected p) \<and> (state_of p \<in> {FINISHED, ERRORED} \<longrightarrow> \<not> ipc_connected p)"

lemma ids_ok_client [simp]: "ids_ok (p\<lparr>ipc_client := c\<rparr>) = ids_ok p"
  by (simp add: ids_ok_def)

lemma await_invoke_sel:
  shows "state_of (await_invoke E m req k p) = state_of p"
    and "ipc_connected (await_invoke E m req k p) = ipc_connected p"
    and "ses_traceBuf (ipc_client (await_invoke E m req k p)) = ses_traceBuf (ipc_client p)"
    and "ipc_resolved (await_invoke E m req k p) = ipc_resolved p"
    and "set (ses_waits (ipc_client (await_invoke E m req k p))) \<subseteq>
      set (ses_waits (ipc_client p)) \<union> {(ipc_requestId p, c) |c. k = Some c}"
  by (auto simp: await_invoke_def state_of_def split: sum.split option.split dest!: invoke_sel [OF disjI1])

lemma ids_ok_await: "ids_ok p \<Longrightarrow> ids_ok (await_invoke E m req k p)"
  by (auto simp: await_invoke_def split: sum.split option.split dest: ids_ok_invoke [OF disjI1])

lemma session_close_cases:
  "\<not> ipc_connected (session_close p) \<and> pendingInvokes (session_close p) = Map.empty \<and>
   state_of (session_close p) = (if state_of p = RECORDING then ERRORED else state_of p) \<and>
   ses_traceBuf (ipc_client (session_close p)) = ses_traceBuf (ipc_client p) \<and>
   ses_waits (ipc_client (session_close p)) = ses_waits (ipc_client p) \<and>
   ipc_resolved (session_close p) = ipc_resolved p \<and> ipc_requestId (session_close p) = ipc_requestId p"
proof (cases "state_of p = RECORDING")
  case False
  then show ?thesis by (simp add: session_close_quiet) (simp add: state_of_def)
next
  case True
  then show ?thesis
    by (simp add: session_close_def protocol_close_def close_disconnected_def numeral_2_eq_2 fail_via_def state_of_def
      setState_def ses_log_def)
qed

lemma ids_ok_close: "ids_ok p \<Longrightarrow> ids_ok (session_close p)"
  using session_close_cases [of p] by (simp add: ids_ok_def)

lemma session_fail_cases:
  "\<not> ipc_connected (session_fail e p) \<and> state_of (session_fail e p) = ERRORED \<and>
   (ids_ok p \<longrightarrow> ids_ok (session_fail e p))"
proof -
  let ?q = "setState ERRORED (ses_log (''Tracing failed: '' @ e) True p)"
  have "state_of ?q = ERRORED" "ids_ok p \<longrightarrow> ids_ok ?q" by (simp_all add: state_of_def setState_def ses_log_def ids_ok_def)
  then show ?thesis using session_close_cases [of ?q] ids_ok_close [of ?q] by (simp add: session_fail_def fail_via_def)
qed

text \<open>
  While data is processed, the session is either still linked or it has just finished; once it has
  finished, nothing is pending, so every further reply is refused.
\<close>

definition rx_ok :: "'r sess \<Rightarrow> bool" where
  "rx_ok p \<longleftrightarrow> ids_ok p \<and>
     (ipc_connected p \<and> state_of p \<in> {RECORDING, STOPPING} \<or>
      \<not> ipc_connected p \<and> state_of p = FINISHED \<and> pendingInvokes p = Map.empty)"

definition rx_rel :: "'r sess \<Rightarrow> 'r sess \<Rightarrow> bool" where
  "rx_rel p p' \<longleftrightarrow> (rx_ok p \<longrightarrow> rx_ok p' \<and> (state_of p' = state_of p \<or> state_of p' = FINISHED))"

lemma rx_rel_refl [simp]: "rx_rel p p"
  by (simp add: rx_rel_def)

lemma rx_rel_trans: "rx_rel p q \<Longrightarrow> rx_rel q s \<Longrightarrow> rx_rel p s"
  by (auto simp: rx_rel_def)

lemma rx_rel_same:
  assumes "ipc_connected p' = ipc_connected p" "state_of p' = state_of p" "ipc_requestId p' = ipc_requestId p"
    "pendingInvokes p' \<subseteq>\<^sub>m pendingInvokes p"
    "fst ` set (ipc_resolved p') \<subseteq> fst ` set (ipc_resolved p) \<union> dom (pendingInvokes p)"
  shows "rx_rel p p'"
proof -
  have "dom (pendingInvokes p') \<subseteq> dom (pendingInvokes p)" using assms(4) by (rule map_le_implies_dom_le)
  moreover have "pendingInvokes p = Map.empty \<Longrightarrow> pendingInvokes p' = Map.empty" using assms(4) by (auto simp: map_le_def)
  ultimately show ?thesis using assms by (fastforce simp: rx_rel_def rx_ok_def ids_ok_def)
qed

lemma rx_rel_resolve: "pendingInvokes p r = Some pend \<Longrightarrow> rx_rel p (resolve_promise r x p)"
  by (rule rx_rel_same) (auto simp: resolve_promise_def state_of_def image_iff)

lemma rx_rel_state_buf: "rx_rel p (p\<lparr>state_buf := b\<rparr>)"
  by (rule rx_rel_same) (auto simp: state_of_def)

lemma onTraceData_rel:
  assumes "onTraceData d hm p = Some (e, p')" and "pendingInvokes p \<noteq> Map.empty"
  shows "rx_rel p p'"
proof -
  have *: "rx_rel p (session_close (setState FINISHED (p\<lparr>ipc_client := c\<rparr>)))" for c
    using session_close_cases [of "setState FINISHED (p\<lparr>ipc_client := c\<rparr>)"] ids_ok_close [of "setState FINISHED (p\<lparr>ipc_client := c\<rparr>)"]
    by (auto simp: rx_rel_def rx_ok_def state_of_def setState_def)
  have "rx_rel p (p\<lparr>ipc_client := (ipc_client p)\<lparr>ses_traceBuf := b\<rparr>\<rparr>)" for b by (rule rx_rel_same) (auto simp: state_of_def)
  with assms * show ?thesis by (auto simp: onTraceData_def Let_def split: option.splits sum.splits if_splits)
qed

lemma merge_state_eq: "merge_state r d p = Some (e, p1) \<Longrightarrow> p1 = p\<lparr>state_buf := state_buf p1\<rparr>"
  by (cases d) (auto simp: merge_state_def split: option.splits sum.splits)

lemma on_response_rel:
  assumes "on_response P onTraceData pend r d hm p = Some (e, p')" and "pendingInvokes p r = Some pend"
  shows "rx_rel p p'"
proof (cases "pi_onResponse pend")
  case UnaryResponse
  with assms rx_rel_resolve [OF assms(2)] show ?thesis
    by (auto simp: on_response_def unary_response_def split: option.splits sum.splits if_splits)
next
  case PacketResponse
  have "rx_rel p q" if "onTraceData x hm (p\<lparr>packet_slices := y\<rparr>) = Some (e, q)" for x y q
  proof (rule rx_rel_trans)
    show "rx_rel p (p\<lparr>packet_slices := y\<rparr>)" by (rule rx_rel_same) (auto simp: state_of_def)
    show "rx_rel (p\<lparr>packet_slices := y\<rparr>) q" using assms(2) by (intro onTraceData_rel [OF that]) auto
  qed
  moreover have "rx_rel p q" if "onTraceData x hm p = Some (e, q)" for x q using assms(2) by (intro onTraceData_rel [OF that]) auto
  ultimately show ?thesis using assms(1) PacketResponse
    by (auto simp: on_response_def PacketStream_decode_def split: option.splits sum.splits)
next
  case StateResponse
  then have "ServiceStateMerger_decode P r d hm p = Some (e, p')" using assms(1) by (simp add: on_response_def)
  then obtain e1 p1 where m: "merge_state r d p = Some (e1, p1)"
      and p': "p' = p1 \<or> (\<exists>x b. p' = resolve_promise r x (p1\<lparr>state_buf := b\<rparr>))"
    by (simp add: ServiceStateMerger_decode_def split: option.splits prod.splits sum.splits if_splits) blast+
  obtain b where "p1 = p\<lparr>state_buf := b\<rparr>" using merge_state_eq [OF m] ..
  moreover have "rx_rel p (resolve_promise r x (p\<lparr>state_buf := b\<rparr>))" for x b
    by (rule rx_rel_trans [OF rx_rel_state_buf rx_rel_resolve]) (simp add: assms(2))
  ultimately show ?thesis using p' rx_rel_state_buf [of p b] by auto
qed

lemma parseFrame_rel:
  assumes "parseFrame P onTraceData f p = Some (e, p')"
  shows "rx_rel p p'"
proof -
  have "rx_rel q (q\<lparr>pendingInvokes := (pendingInvokes q)(r := None)\<rparr>)" for q :: "'a sess" and r
    by (rule rx_rel_same) (auto simp: state_of_def map_le_def)
  then have "rx_rel p (q\<lparr>pendingInvokes := (pendingInvokes q)(r := None)\<rparr>)" if "rx_rel p q" for q r
    using that rx_rel_trans by blast
  then have "rx_rel p q'" if "handle_reply P onTraceData r reply p = Some (e, q')" for r reply q'
    using that on_response_rel [of P _ r]
    by (auto simp: handle_reply_def split: option.splits if_splits)
  then show ?thesis using assms by (auto simp: parseFrame_def split: sum.splits option.splits if_splits)
qed

lemma rx_loop_rel:
  assumes "rx_loop P onTraceData p = Some (e, p')"
  shows "rx_rel p p'"
proof -
  have put: "rx_rel q (q\<lparr>ipc_rxBuf := rb\<rparr>)" for q :: "'a sess" and rb by (rule rx_rel_same) (auto simp: state_of_def)
  have "h = onTraceData \<Longrightarrow> rx_rel p (snd x)" if "rx_loop P h p = Some x" for h x
    using that
  proof (rule rx_loop.raw_induct [where P = "\<lambda>_ h p x. h = onTraceData \<longrightarrow> rx_rel p (snd x)", rotated, rule_format])
    fix loop and P :: "'a ipc_protos" and h and p :: "'a sess" and y
    assume IH: "\<And>P h p y. loop P h p = Some y \<Longrightarrow> h = onTraceData \<Longrightarrow> rx_rel p (snd y)" and h: "h = onTraceData"
      and y: "(case readMessage (ipc_rxBuf p) of
        Inl e \<Rightarrow> Some (Some (Framing e), p)
      | Inr (frameData, rb) \<Rightarrow>
          (case frameData of
             None \<Rightarrow> Some (None, p\<lparr>ipc_rxBuf := rb\<rparr>)
           | Some fd \<Rightarrow> Option.bind (parseFrame P h fd (p\<lparr>ipc_rxBuf := rb\<rparr>))
               (\<lambda>(err, p1). if err = None then loop P h p1 else Some (err, p1)))) = Some y"
    show "rx_rel p (snd y)"
    proof (cases "readMessage (ipc_rxBuf p)")
      case (Inl e)
      with y show ?thesis by auto
    next
      case (Inr x)
      obtain fo rb where x: "x = (fo, rb)" by (cases x)
      show ?thesis
      proof (cases fo)
        case None
        with y Inr x put show ?thesis by auto
      next
        case (Some fd)
        with y Inr x obtain err p1 where p1: "parseFrame P h fd (p\<lparr>ipc_rxBuf := rb\<rparr>) = Some (err, p1)"
          and z: "(if err = None then loop P h p1 else Some (err, p1)) = Some y"
          by (auto simp: bind_eq_Some_conv)
        have "rx_rel p p1" using rx_rel_trans [OF put parseFrame_rel] p1 h by blast
        moreover have "rx_rel p1 (snd y)" using z IH h by (auto split: if_splits)
        ultimately show ?thesis by (rule rx_rel_trans)
      qed
    qed
  qed
  from this [OF assms] show ?thesis by simp
qed

lemma session_receive_rel:
  assumes "session_receive E d p = Some (e, p')"
  shows "rx_rel p p'"
proof -
  have "rx_rel p (p\<lparr>ipc_rxBuf := rb\<rparr>)" for rb by (rule rx_rel_same) (auto simp: state_of_def)
  with assms rx_rel_trans rx_loop_rel show ?thesis
    by (fastforce simp: session_receive_def onStreamData_def split: sum.splits)
qed

definition ses_inv :: "'r sess \<Rightarrow> bool" where
  "ses_inv p \<longleftrightarrow> ids_ok p \<and> link_ok p"

definition ses_next :: "'r sess \<Rightarrow> 'r sess \<Rightarrow> bool" where
  "ses_next p p' \<longleftrightarrow> (state_of p \<noteq> RECORDING \<longrightarrow> state_of p' \<noteq> RECORDING) \<and>
     (state_of p = ERRORED \<longrightarrow> state_of p' = ERRORED) \<and>
     (state_of p = FINISHED \<longrightarrow> state_of p' = FINISHED \<and> getTraceData p' = getTraceData p \<or> state_of p' = ERRORED)"

text \<open>Steps that keep the state, the link and the data, and steps that end in an error.\<close>

lemma same_step:
  assumes "ses_inv p" and "ids_ok p'" and "state_of p' = state_of p" and "ipc_connected p' = ipc_connected p"
    and "ses_traceBuf (ipc_client p') = ses_traceBuf (ipc_client p)"
  shows "ses_inv p' \<and> ses_next p p'"
  using assms by (simp add: ses_inv_def ses_next_def link_ok_def getTraceData_def)

lemma fail_step: "ses_inv p \<Longrightarrow> ids_ok p' \<Longrightarrow> ses_inv (session_fail e p') \<and> ses_next p (session_fail e p')"
  using session_fail_cases [of e p'] by (simp add: ses_inv_def ses_next_def link_ok_def)

lemma setState_sel [simp]:
  "state_of (setState s p) = s" "ipc_connected (setState s p) = ipc_connected p" "ids_ok (setState s p) = ids_ok p"
  "state_of (ses_log m e p) = state_of p" "ipc_connected (ses_log m e p) = ipc_connected p" "ids_ok (ses_log m e p) = ids_ok p"
  "ses_traceBuf (ipc_client (ses_log m e p)) = ses_traceBuf (ipc_client p)"
  by (simp_all add: setState_def ses_log_def state_of_def)

lemma await_step:
  assumes "ses_inv p"
  shows "ses_inv (await_invoke E m req k (ses_log msg e p)) \<and> ses_next p (await_invoke E m req k (ses_log msg e p))"
    and "ses_inv (await_invoke E m req k p) \<and> ses_next p (await_invoke E m req k p)"
  using assms by (intro same_step; simp add: await_invoke_sel ids_ok_await ses_inv_def)+

lemma stopping_step:
  assumes "ses_inv p" and "state_of p \<in> {RECORDING, STOPPING}" and "ids_ok p'" and "state_of p' = STOPPING"
  shows "ses_inv p' \<and> ses_next p p'"
  using assms by (auto simp: ses_inv_def ses_next_def link_ok_def)

lemma onTraceStopped_step:
  assumes inv: "ses_inv p" and ids: "ids_ok p1" and same: "state_of p1 = state_of p" "ipc_connected p1 = ipc_connected p"
    "ses_traceBuf (ipc_client p1) = ses_traceBuf (ipc_client p)"
  shows "ses_inv (onTraceStopped E err p1) \<and> ses_next p (onTraceStopped E err p1)"
proof -
  let ?p2 = "ses_log ''Tracing stopped. Reading back data'' False (setState STOPPING p1)"
  have "ids_ok q \<and> state_of q = STOPPING" if "invokeStreaming P m args ?p2 = Inr (r, q)" for P m args r q
    using invoke_sel [OF disjI2 [OF that]] ids_ok_invoke [OF disjI2 [OF that]] ids by (simp add: state_of_def ses_log_def setState_def)
  then show ?thesis
    using fail_step [OF inv ids] same_step [OF inv ids same] same stopping_step [OF inv] ids
    by (auto simp: onTraceStopped_def Let_def split: sum.split)
qed

lemma session_step_inv:
  assumes "session_step E p p'" and inv: "ses_inv p"
  shows "ses_inv p' \<and> ses_next p p'"
  using assms(1)
proof cases
  case (data_step data err)
  have "rx_ok p" using inv data_step(1) by (cases "state_of p") (auto simp: ses_inv_def rx_ok_def link_ok_def)
  then show ?thesis using session_receive_rel [OF data_step(2)] data_step(1)
    by (auto simp: rx_rel_def rx_ok_def ses_inv_def ses_next_def link_ok_def)
next
  case lost_step
  let ?q = "p\<lparr>ipc_connected := False\<rparr>"
  have "ids_ok ?q" "state_of ?q = state_of p" using inv by (simp_all add: ses_inv_def ids_ok_def state_of_def)
  moreover have "state_of p \<notin> {FINISHED, ERRORED}" using inv lost_step by (auto simp: ses_inv_def link_ok_def)
  ultimately show ?thesis using session_close_cases [of ?q] ids_ok_close [of ?q] lost_step
    by (auto simp: stream_closed_def ses_inv_def ses_next_def link_ok_def)
next
  case stop_step
  show ?thesis
  proof (cases "state_of p = RECORDING")
    case True
    then show ?thesis using stop_step inv
      by (intro stopping_step [OF inv]) (simp_all add: session_stop_def await_invoke_sel ids_ok_await ses_inv_def)
  next
    case False
    then show ?thesis using stop_step same_step [OF inv _ refl refl refl] inv by (simp add: session_stop_def ses_inv_def)
  qed
next
  case cancel_step
  then show ?thesis using inv await_step(2) [OF inv] same_step [OF inv _ refl refl refl]
    by (auto simp: session_cancel_def ses_inv_def)
next
  case (resume_step r k resp)
  define p1 where "p1 = p\<lparr>ipc_client := (ipc_client p)\<lparr>ses_waits := filter (\<lambda>w. fst w \<noteq> r) (ses_waits (ipc_client p))\<rparr>\<rparr>"
  have p1: "ids_ok p1" "state_of p1 = state_of p" "ipc_connected p1 = ipc_connected p"
      "ses_traceBuf (ipc_client p1) = ses_traceBuf (ipc_client p)"
    using inv by (simp_all add: p1_def ses_inv_def state_of_def)
  have "ses_inv (stop_flushed E p1) \<and> ses_next p (stop_flushed E p1)"
    unfolding stop_flushed_def using p1 by (intro same_step [OF inv]) (simp_all add: await_invoke_sel ids_ok_await)
  then show ?thesis using resume_step(1) onTraceStopped_step [OF inv p1] fail_step [OF inv p1(1)]
    by (cases k) (simp_all add: resume_def p1_def [symmetric])
qed

lemma session_start_inv: "ses_inv (session_start E cfg dur (new_protocol sid ms new_session))"
proof -
  have "ses_inv (new_protocol sid ms new_session)"
    by (simp add: ses_inv_def link_ok_def ids_ok_def state_of_def new_protocol_def new_session_def)
  then show ?thesis unfolding session_start_def using await_step(1) by blast
qed

lemma session_steps_inv: "session_steps E p q \<Longrightarrow> ses_inv p \<Longrightarrow> ses_inv q"
  by (induction rule: session_steps.induct) (auto dest: session_step_inv)

text \<open>
  C5. The states of a recording session. In every reachable state a session that records has its stream
  connected and one that has ended has it closed, and every further step, whatever arrives from the
  stream, from the user or from pending promises, respects the order of the states: a session never
  records again, an error is final, and a finished session keeps its trace data or turns into an
  error.
\<close>

theorem session_state_machine:
  assumes "session_steps E (session_start E cfg dur (new_protocol sid ms new_session)) q" and "session_step E q q'"
  shows "(state_of q = RECORDING \<longrightarrow> ipc_connected q) \<and> (state_of q \<in> {FINISHED, ERRORED} \<longrightarrow> \<not> ipc_connected q) \<and>
    (state_of q \<noteq> RECORDING \<longrightarrow> state_of q' \<noteq> RECORDING) \<and> (state_of q = ERRORED \<longrightarrow> state_of q' = ERRORED) \<and>
    (state_of q = FINISHED \<longrightarrow> state_of q' = FINISHED \<and> getTraceData q' = getTraceData q \<or> state_of q' = ERRORED)"
proof -
  have "ses_inv q" by (rule session_steps_inv [OF assms(1) session_start_inv])
  with session_step_inv [OF assms(2)] show ?thesis by (simp add: ses_inv_def ses_next_def link_ok_def)
qed

lemma state_of_stop: "state_of (session_stop E p) = (if state_of p = RECORDING then STOPPING else state_of p)"
  by (simp add: session_stop_def await_invoke_sel)

lemma state_of_start: "state_of (session_start E cfg dur (new_protocol sid ms new_session)) = RECORDING"
  by (simp add: session_start_def await_invoke_sel) (simp add: state_of_def new_protocol_def new_session_def)

theorem session_state_machine_witness:
  "state_of (session_cancel toy_env (session_stop toy_env
     (session_start toy_env [] [] (new_protocol 1 Map.empty new_session)))) \<noteq> RECORDING"
proof -
  let ?p = "session_start toy_env [] [] (new_protocol 1 Map.empty new_session)"
  have "session_steps toy_env ?p (session_stop toy_env ?p)" by (rule one_more [OF no_step stop_step])
  from session_state_machine [OF this cancel_step] show ?thesis by (simp add: state_of_stop state_of_start)
qed

text \<open>
  A session whose stream is lost while it is stopping: nothing is pending any more, and the only
  continuation that may still run is the one after the flush.
\<close>

definition stuck :: "'r sess \<Rightarrow> bool" where
  "stuck p \<longleftrightarrow> ids_ok p \<and> \<not> ipc_connected p \<and> state_of p = STOPPING \<and>
     (\<forall>w\<in>set (ses_waits (ipc_client p)). snd w \<noteq> AfterFlush \<longrightarrow> fst w \<notin> fst ` set (ipc_resolved p))"

lemma stuck_await:
  assumes "stuck p"
  shows "stuck (await_invoke E m req k p)"
proof -
  have "ipc_requestId p \<notin> fst ` set (ipc_resolved p)" using assms by (auto simp: stuck_def ids_ok_def)
  moreover have "w \<in> set (ses_waits (ipc_client p)) \<or> fst w = ipc_requestId p"
    if "w \<in> set (ses_waits (ipc_client (await_invoke E m req k p)))" for w
    using that await_invoke_sel(5) [of E m req k p] by auto
  ultimately have "\<forall>w\<in>set (ses_waits (ipc_client (await_invoke E m req k p))).
      snd w \<noteq> AfterFlush \<longrightarrow> fst w \<notin> fst ` set (ipc_resolved p)"
    using assms unfolding stuck_def by metis
  then show ?thesis using assms by (simp add: stuck_def await_invoke_sel(1,2,4) ids_ok_await)
qed

lemma stuck_waits:
  assumes "stuck p" and "set ws \<subseteq> set (ses_waits (ipc_client p))"
  shows "stuck (p\<lparr>ipc_client := (ipc_client p)\<lparr>ses_waits := ws\<rparr>\<rparr>)"
proof -
  have "\<forall>w\<in>set ws. snd w \<noteq> AfterFlush \<longrightarrow> fst w \<notin> fst ` set (ipc_resolved p)"
    using assms unfolding stuck_def by blast
  then show ?thesis using assms(1) by (simp add: stuck_def state_of_def)
qed

lemma stuck_log: "stuck p \<Longrightarrow> stuck (ses_log m e p)"
  by (simp add: stuck_def) (simp add: ses_log_def)

lemma stuck_step:
  assumes "session_step E p p'" and "stuck p"
  shows "stuck p'"
  using assms(1)
proof cases
  case (resume_step r k resp)
  let ?p1 = "p\<lparr>ipc_client := (ipc_client p)\<lparr>ses_waits := filter (\<lambda>w. fst w \<noteq> r) (ses_waits (ipc_client p))\<rparr>\<rparr>"
  have "k = AfterFlush" using assms(2) resume_step(2,3) by (force simp: stuck_def)
  moreover have "stuck ?p1" by (rule stuck_waits [OF assms(2)]) auto
  ultimately show ?thesis using resume_step(1) by (simp add: resume_def stop_flushed_def stuck_await stuck_log)
qed (use assms(2) in \<open>auto simp: session_stop_def session_cancel_def stuck_await\<close>, auto simp: stuck_def)

lemma stuck_steps: "session_steps E p q \<Longrightarrow> stuck p \<Longrightarrow> stuck q"
  by (induction rule: session_steps.induct) (auto dest: stuck_step)

lemma stuck_closed:
  assumes "ses_inv p" and "state_of p = STOPPING"
    and "\<forall>w\<in>set (ses_waits (ipc_client p)). snd w \<noteq> AfterFlush \<longrightarrow> fst w \<notin> fst ` set (ipc_resolved p)"
  shows "stuck (stream_closed p)"
proof -
  let ?q = "p\<lparr>ipc_connected := False\<rparr>"
  have "ids_ok ?q" "state_of ?q = STOPPING" using assms by (simp_all add: ses_inv_def ids_ok_def state_of_def)
  then show ?thesis using session_close_cases [of ?q] ids_ok_close [of ?q] assms(3)
    by (simp add: stuck_def stream_closed_def)
qed

text \<open>
  C18. A stream that is lost while a session is stopping. \<open>onProtocolClose\<close> reacts only while the session is
  recording: when the stream is lost in state \<open>STOPPING\<close>, before the response that would end the session
  has arrived, the session stays in \<open>STOPPING\<close> whatever happens next, neither finished nor failed.
\<close>

theorem lost_while_stopping_is_stuck:
  assumes "session_steps E (session_start E cfg dur (new_protocol sid ms new_session)) p" and "state_of p = STOPPING"
    and "\<forall>w\<in>set (ses_waits (ipc_client p)). snd w \<noteq> AfterFlush \<longrightarrow> fst w \<notin> fst ` set (ipc_resolved p)"
    and "session_steps E (stream_closed p) q"
  shows "state_of q = STOPPING \<and> getTraceData q = None"
  using stuck_steps [OF assms(4) stuck_closed [OF session_steps_inv [OF assms(1) session_start_inv] assms(2,3)]]
  by (simp add: stuck_def getTraceData_def)

theorem lost_while_stopping_is_stuck_witness:
  "state_of (session_cancel toy_env (stream_closed (session_stop toy_env
     (session_start toy_env [] [] (new_protocol 1 Map.empty new_session))))) = STOPPING"
proof -
  let ?p = "session_start toy_env [] [] (new_protocol 1 Map.empty new_session)"
  have "session_steps toy_env ?p (session_stop toy_env ?p)" by (rule one_more [OF no_step stop_step])
  moreover have "ipc_resolved (session_stop toy_env ?p) = []"
    by (simp add: session_stop_def session_start_def await_invoke_sel ses_log_def setState_def new_protocol_def)
  moreover have "session_steps toy_env q (session_cancel toy_env q)" for q by (rule one_more [OF no_step cancel_step])
  ultimately show ?thesis
    using lost_while_stopping_is_stuck [of toy_env "[]" "[]" 1 Map.empty "session_stop toy_env ?p"]
    by (simp add: state_of_stop state_of_start case_prod_beta)
qed

lemma onProtocolClose_fuel: "onProtocolClose (Suc n) p = onProtocolClose 2 p"
proof (cases "state_of p = RECORDING")
  case True
  have quiet: "onProtocolClose k q = q" if "state_of q = ERRORED" for k and q :: "'a sess" using that by (cases k) simp_all
  have "state_of (q\<lparr>pendingInvokes := x\<rparr>) = state_of q" "state_of (q\<lparr>ipc_connected := y\<rparr>) = state_of q"
    for q :: "'a sess" and x y by (simp_all add: state_of_def)
  then have "protocol_close (onProtocolClose k) q = protocol_close (onProtocolClose 1) q" if "state_of q = ERRORED" for k and q :: "'a sess"
    using that by (simp add: protocol_close_def close_disconnected_def quiet)
  from this [of "setState ERRORED (ses_log (''Tracing failed: '' @ ''Protocol disconnected'') True (setState ERRORED p))" n] True
  show ?thesis by (simp add: numeral_2_eq_2 fail_via_def)
qed (simp add: numeral_2_eq_2)

end
