(* ===== verification/Spec2Isabelle.thy ===== *)
theory Spec2Isabelle
  imports Bts_Vm_Correct Search_Liveness Selection_Correct Pivot_Table_Shown Plugin_Manager_Correct Dataset_Lineage Batch_Deletion Query_Slot_Liveness Undo_History Perfetto_Sql_Type Engine_Correct Workspace_Correct Graph_Deletion Graph_Groups Adb_Correct Tracing_Correct
begin

text \<open>
  \<^bold>\<open>The stateful core of the trace viewer.\<close> The repository is a trace analysis suite: a C++ trace processor
  and tracing service, and a browser application in TypeScript under \<^verbatim>\<open>src/ui/src\<close>. This development models
  the parts of the application that carry its own logic and state: how query results travel from the
  trace processor to a client and are cached there, how plugins are activated and loaded, how tracks are
  kept in a tree, how data sources are combined and pivoted, what is searched for and selected, how the Data
  Explorer edits its graph of queries, which script VMs a Lynx trace shows, and how a trace is recorded
  from a device. File names below are relative to \<^verbatim>\<open>src/ui/src\<close>.

  \<^bold>\<open>Parts and theories.\<close>

  \<^item> \<open>Prelude\<close>: JavaScript values (bytes, 32-bit intermediate results, strings, decimal texts), results that
    may throw (\<open>js_error + 'a\<close>), operations of typed arrays, generic lemmas.

  \<^item> Stream tokenizer, \<^verbatim>\<open>trace_processor/proto_ring_buffer.ts\<close>. \<open>Proto_Ring_Buffer\<close> has the class as the record
    \<open>ring_buffer\<close>, its methods \<open>append_data\<close>, \<open>readMessage\<close>, \<open>tryReadMessage\<close> and the read loop of its callers
    (\<open>drain\<close>, \<open>feed\<close>); \<open>Frame_Grammar\<close> the frame grammar without positions; \<open>Ring_Buffer_Correct\<close> that the buffer
    implements it; \<open>Frame_Client\<close> what follows for the classes that consume it.

  \<^item> Query results, \<^verbatim>\<open>trace_processor/query_result.ts\<close>. \<open>Sql_Types\<close> (column types and their inheritance tree),
    \<open>Int64_Varint\<close> (\<open>decodeInt64Varint\<close>), \<open>Query_Result\<close> (\<open>ResultBatch\<close>, \<open>appendResultBatch\<close>), \<open>Row_Iterator\<close> (the
    iterator, with the members that column names can hide, and the promises), \<open>Cells_Batch\<close> (the layout of a batch and the locale \<open>wire_reader\<close> with the laws
    of the protobuf reader), \<open>Wire_Format\<close> (a reader that satisfies them), \<open>Query_Result_Correct\<close> and
    \<open>Rows_Roundtrip\<close>.

  \<^item> RPC engine, \<^verbatim>\<open>trace_processor/engine.ts\<close>. \<open>Engine\<close> (requests, responses, query log, proxies) and
    \<open>Engine_Correct\<close>, against an abstract queue of outstanding requests. The engine consumes the tokenizer
    and fills the query results.

  \<^item> PerfettoSQL types, \<^verbatim>\<open>trace_processor/perfetto_sql_type.ts\<close>. \<open>Perfetto_Sql_Type\<close> has the parser of type names,
    the printer and the functions over the kinds.

  \<^item> Datasets, \<^verbatim>\<open>trace_processor/dataset.ts\<close>. \<open>Dataset\<close> has the three classes as one datatype (\<open>Source\<close>, \<open>Union\<close>,
    \<open>Lineage\<close>) and the SQL they generate; \<open>Dataset_Correct\<close> what the statements select, against the list of
    result rows of each source; \<open>Dataset_Lineage\<close> how a row is traced back to its datasets.

  \<^item> Query slots, \<^verbatim>\<open>base/query_slot.ts\<close>. \<open>Json_Text\<close> (the text that identifies a key, \<^verbatim>\<open>base/json_utils.ts\<close>),
    \<open>Query_Slot\<close> (\<open>QuerySlot\<close> and \<open>SerialTaskQueue\<close> as the step relation \<open>slot_step\<close>), \<open>Query_Slot_Correct\<close> and
    \<open>Query_Slot_Liveness\<close>. The queries that a slot runs are those of the engine.

  \<^item> Plugins, \<^verbatim>\<open>core/plugin_manager.ts\<close> and \<^verbatim>\<open>base/registry.ts\<close>. \<open>Plugin_Manager\<close> and \<open>Plugin_Manager_Correct\<close>.

  \<^item> Track tree, \<^verbatim>\<open>public/workspace.ts\<close>. \<open>Track_Node\<close> (nodes in a heap, workspaces), \<open>Track_Node_Correct\<close> (the
    invariant of the tree and its indexes), \<open>Workspace_Correct\<close> (all sequences of operations).

  \<^item> Limiter, \<^verbatim>\<open>base/async_limiter.ts\<close>. \<open>Async_Limiter\<close> has the class as the step relation \<open>limiter_run\<close> over single
    microtasks, and its properties. The search and the selection run their asynchronous work in it.

  \<^item> Tracks and search, \<^verbatim>\<open>core/track_manager.ts\<close>, \<^verbatim>\<open>core/search_manager.ts\<close>, \<^verbatim>\<open>core/dataset_search.ts\<close>,
    \<^verbatim>\<open>core/sql_search.ts\<close>. \<open>Track_Manager\<close> (the registry and the filters), \<open>Search_Manager\<close> (the search over
    datasets, the rows of the search with SQL, and the manager as the step relation \<open>search_run\<close>),
    \<open>Search_Correct\<close> and \<open>Search_Liveness\<close>. A track has a dataset, and the search resolves rows by its lineage.

  \<^item> Selection, \<^verbatim>\<open>core/selection_manager.ts\<close> and \<^verbatim>\<open>core/note_manager.ts\<close>. \<open>Selection_Manager\<close> (all operations, cut at
    their awaits) and \<open>Selection_Correct\<close>.

  \<^item> Script VMs of Lynx, \<^verbatim>\<open>lynx_perf/common_components/memory/bts_vm_generations.ts\<close> and \<^verbatim>\<open>bts_vm_memory_tracks.ts\<close>.
    \<open>Bts_Vm\<close> (the fold over the events, with the maps beside the list of VMs, the look-ups, the counters) and
    \<open>Bts_Vm_Correct\<close>.

  \<^item> Pivot table, \<^verbatim>\<open>components/widgets/sql/pivot_table\<close>. \<open>Pivot_Tree\<close> (the tree with its aggregates),
    \<open>Pivot_Tree_Correct\<close> (its nodes against the rows), \<open>Pivot_State\<close> (the state, the menu operations, and a reload in
    two steps, before and after \<open>await this.loadData\<close>, between which the menus can be used) and \<open>Pivot_Table_Shown\<close> (what a reload shows). Values and columns are those of the datasets.

  \<^item> Query graph, \<^verbatim>\<open>plugins/dev.perfetto.DataExplorer\<close> (\<^verbatim>\<open>query_builder/graph_utils.ts\<close>, \<^verbatim>\<open>query_node.ts\<close>,
    \<^verbatim>\<open>node_crud_operations.ts\<close>, \<^verbatim>\<open>history_manager.ts\<close>, and of \<^verbatim>\<open>query_builder/nodes/group_node/index.ts\<close> the
    constructor and \<open>onPrevNodesUpdated\<close>, which writes to the inner nodes). \<open>Query_Graph\<close> (nodes in a heap and all graph operations),
    \<open>Query_Graph_Correct\<close> (traversals, slots), \<open>Graph_Rewiring\<close>, \<open>Graph_Deletion\<close>, \<open>Graph_Groups\<close>; \<open>Node_Operations\<close>
    (the operations of the page with the state they return) and \<open>Batch_Deletion\<close>; \<open>Undo_History\<close> (the class
    \<open>HistoryManager\<close> against a zipper).

  \<^item> Recording, \<^verbatim>\<open>plugins/dev.perfetto.RecordTraceV2\<close>. \<open>Packet_Assembler\<close> (\<^verbatim>\<open>base/resizable_array_buffer.ts\<close>,
    \<^verbatim>\<open>tracing_protocol/packet_assembler.ts\<close>), \<open>Adb_Msg\<close> (\<^verbatim>\<open>adb/adb_msg.ts\<close>), \<open>Adb_Device\<close> and \<open>Adb_Correct\<close>
    (\<^verbatim>\<open>adb/webusb/adb_webusb_device.ts\<close>, \<^verbatim>\<open>adb/webusb/adb_webusb_stream.ts\<close>), \<open>Tracing_Protocol\<close>
    (\<^verbatim>\<open>tracing_protocol/tracing_protocol.ts\<close>), \<open>Tracing_Session\<close> and \<open>Tracing_Correct\<close>
    (\<^verbatim>\<open>tracing_protocol/consumer_ipc_tracing_session.ts\<close>). A session is the client of the protocol, the protocol
    is a client of the tokenizer, and its stream is an ADB stream.

  \<^bold>\<open>Conventions.\<close> A method is a function that takes and returns the state record. A throw is \<open>Inl\<close>; where the
  state matters after a throw, it is returned with the error. A loop without a measure is a
  \<open>partial_function (option)\<close>, so not returning is \<open>None\<close>, and that it returns is proved. Objects that are shared
  and mutated live in a heap, a function from identities to records; the nodes of a pivot table, which are
  never shared, are known by their path of pivot values. Promises are numbers whose outcome is recorded in
  the state; the code after an \<open>await\<close> is a separate step, and the step relations (\<open>rpc_run\<close>, \<open>tx_run\<close>,
  \<open>session_step\<close>, \<open>slot_step\<close>, \<open>limiter_run\<close>, \<open>search_run\<close>) interleave these steps with everything else that can happen. Generated protobuf
  code and other code outside the sources is an argument of the definitions, with its laws in a locale
  (\<open>wire_reader\<close>) or as named hypotheses (\<open>read_reply\<close>). SQLite is the argument \<open>sql_db\<close>: the rows of a table with
  its joins, the equality of a column with a value, the value of an expression. The hooks of a plugin are
  arguments that say whether they throw, and \<open>oth\<close> is the coerced comparison of two values that are not both
  numbers or both strings. Serialization of the explorer's state, the descriptors of node types and
  their hooks are arguments too.

  \<^bold>\<open>Interfaces.\<close> \<open>wire_reader\<close> is what the batch parser asks of the protobuf reader (interpreted on \<open>wire_format\<close>);
  \<open>append_buffer\<close> is what the packet assembler asks of the growing buffer (interpreted on \<open>rab_append\<close>);
  \<open>frame_client\<close> is the contract between the tokenizer and a class that handles its messages (interpreted
  on the engine, \<open>onRpcResponseMessage\<close> and \<open>pump\<close>, and on the tracing protocol, \<open>parseFrame\<close> and \<open>rx_loop\<close>);
  \<open>pivot_operation\<close> is what the pivot tree asks of the combination of two aggregates (interpreted on sum and
  count, minimum and maximum).

  \<^bold>\<open>Bounds and fuel.\<close> \<open>batch_loop\<close> and \<open>append_loop\<close> take the number of bytes as fuel: every field of a batch takes at
  least one byte. \<open>onProtocolClose\<close> takes its depth, for which 2 is enough (\<open>onProtocolClose_fuel\<close>). The stream
  theorems assume messages below \<open>kMaxMsgSize\<close> and chunks that fit the buffer, as the code asserts. A query
  slot is fresh after at most three settled promises for each task that was waiting before it, and two
  more. After the last task has been scheduled at most five events of the limiter happen. The undo history keeps ten entries. A union is cut into groups of \<open>MAX_SUBQUERIES_PER_UNION\<close> = 500
  statements, once, so no compound statement is longer than that up to 250,000 statements.

  \<^bold>\<open>What the theorems show.\<close>

  \<^item> Tokenizer (C1, C3): framed messages are delivered exactly, independently of the chunks; the size check
    is exact up to 2 GiB and wrong beyond.

  \<^item> Query results (C6, C10): the 64-bit decoder and the round trip from batches to rows. Further theorems
    of these theories: the type lattice, unique column names, no lost wake-up.

  \<^item> Engine (C12, C15): the invariant of requests and promises in every interleaving, and a streamed query
    yields its rows. Further theorems: what an answer settles, messages in chunks, and the orphaned promise of
    \<open>computeMetric\<close>.

  \<^item> PerfettoSQL types (C4, C11): when the result of the parser is a type, and that printing is its inverse.

  \<^item> Datasets (C2, C9, C39): a union selects the rows of its sources, the datasets of a row, and the filter that
    an unfiltered source does not lift. A further theorem: the schemas of a union.

  \<^item> Query slots (C8, C22, C24, C30): data called fresh is the latest for its key, no disposable result
    is lost, a steady key becomes fresh, and a toggled one may never. A further theorem: one task
    of a queue runs at a time.

  \<^item> Undo history (C16): a zipper of ten entries. A further theorem: the comparison with the undone state.

  \<^item> Limiter and search (C13, C14, C25, C31): a search ends, what is shown belongs to the current text, a task
    that is scheduled too early is lost, and a failed search never ends. Further theorems: the steps through the
    results, the hits of a dataset search, and a string that breaks it.

  \<^item> Selection (C17, C36): late details, and the tracks of the events of a table. Further theorems: toggling
    tracks of an area, an unfiltered track, and a note that replaces another.

  \<^item> Script VMs (C29, C34): lifetimes and generations, and the pages of a VM. A further theorem: the counter that
    is shown for a VM.

  \<^item> Plugins (C20, C23): the sort lists what is needed, dependencies first, and loading relies on it.

  \<^item> Track tree (C19): the invariant over all operations. Further theorems: the look-ups, moves, ordered
    insertion, visibility, pinning, and two operations that leave stale indexes.

  \<^item> Pivot table (C7, C21): exactly when a reload throws, and that it shows the aggregates of the filtered rows. Further theorems:
    a replaced sort column, and a sum that is listed twice.

  \<^item> Query graph (C26--C28, C32, C33): the traversals end and are exact, guarded connections keep the graph
    acyclic, deletion of one node and of a selection, and the round trip of grouping. These hold in graphs with
    groups, as long as the ports of a group are not among the slots that change (\<open>no_ports\<close>, \<open>detachable\<close>): what a
    change of a port does to the inner nodes is \<open>group_ports_synced\<close>. \<open>linked_on A\<close> says that every forward link has a
    slot, and that every slot of a node in \<open>A\<close> has a forward link; inner nodes behind a port are outside \<open>A\<close>.

  \<^item> Recording (C5, C18, C35, C37, C38, C40): packets from slices, the write queue as a stop-and-wait queue
    and how a closed stream stalls it, the states of a session, a session that is stuck, and the trace from
    the stream to the trace file. Further theorems: the growing buffer and the ADB headers.

  \<^bold>\<open>Not modelled.\<close> The transports of the engine and the other recording targets (browser I/O around the
  modelled handlers), ADB keys (an external RSA package), the nodes of the Data Explorer that build
  queries as protobuf messages (their meaning is in the C++ trace processor), the serializers of
  \<^verbatim>\<open>json_handler.ts\<close>, \<open>buildSqlQuery\<close> of the pivot table (text of a query), the deserialization and the SQL of a group,
  values of filters with a fraction and \<open>getBufferUsagePct\<close> (floating-point rounding), the proxies that a
  plugin registers its extensions through, the two queries of the search with SQL and the queries that load VMs and
  counters (their text goes to the trace processor), the flow, tab, timeline and omnibox managers and
  the wiring of the managers in \<^verbatim>\<open>core/trace_impl.ts\<close>, the other plugins of Lynx, \<open>parseJsonWithBigints\<close>, most small utilities under \<^verbatim>\<open>base\<close>, rendering
  (widgets, pages, panels), generated bundles, and the code in other languages.
\<close>

end
